(* ===== verification/Prelude.thy ===== *)
theory Prelude
  imports "HOL-Library.Word"
begin

unbundle bit_operations_syntax

text \<open>
  What the component theories share: the machine types of the C sources, the
  conversions the C code performs implicitly (integer promotion to a
  non-negative value, truncation when a value is stored), \<open>memcpy\<close> into a
  buffer at an offset, splitting a buffer into equal chunks, and the lemma
  collections used by the component proofs.

  Convention. A \<open>uint8_t\<close> buffer is a list of \<^typ>\<open>8 word\<close>. A field element
  (\<open>FP_ELEM\<close>, \<open>FZ_ELEM\<close>) is the natural number it holds; expressions over
  promoted operands are computed on \<^typ>\<open>nat\<close> without wrap-around and every
  store writes out the truncation to the width of the destination
  (\<open>take_bit\<close>). Loop counters and indices are \<^typ>\<open>nat\<close>. Registers that do
  wrap (the 64-bit sponge lanes and the 64-bit sub-buffer of the samplers) are
  words.
\<close>

type_synonym byte = "8 word"
type_synonym bytes = "8 word list"
type_synonym u64 = "64 word"

named_theorems len_simps \<open>lengths of the buffers the operations return\<close>
named_theorems par_facts \<open>facts that hold for every parameter set\<close>

subsection \<open>Buffers\<close>

definition write_at :: "nat \<Rightarrow> 'a list \<Rightarrow> 'a list \<Rightarrow> 'a list" where
  \<comment> \<open>\<open>memcpy(dst + off, src, length src)\<close>, inside the bounds of \<open>dst\<close>\<close>
  "write_at off src dst = take off dst @ src @ drop (off + length src) dst"

definition read_at :: "nat \<Rightarrow> nat \<Rightarrow> 'a list \<Rightarrow> 'a list" where
  \<comment> \<open>the \<open>n\<close> cells at \<open>src + off\<close>\<close>
  "read_at off n src = take n (drop off src)"

lemma length_write_at [simp]:
  "off + length src \<le> length dst \<Longrightarrow> length (write_at off src dst) = length dst"
  by (simp add: write_at_def)

lemma length_read_at [simp]:
  "off + n \<le> length src \<Longrightarrow> length (read_at off n src) = n"
  by (simp add: read_at_def)

lemma nth_read_at [simp]:
  "off + n \<le> length src \<Longrightarrow> i < n \<Longrightarrow> read_at off n src ! i = src ! (off + i)"
  by (simp add: read_at_def)

lemma read_at_append1 [simp]: "n = length xs \<Longrightarrow> read_at 0 n (xs @ ys) = xs"
  by (simp add: read_at_def)

lemma read_at_append2 [simp]:
  "off = length xs \<Longrightarrow> n = length ys \<Longrightarrow> read_at off n (xs @ ys) = ys"
  by (simp add: read_at_def)

lemma read_at_write_at [simp]:
  "off + length src \<le> length dst \<Longrightarrow> read_at off (length src) (write_at off src dst) = src"
  by (simp add: read_at_def write_at_def)

fun chunks :: "nat \<Rightarrow> nat \<Rightarrow> 'a list \<Rightarrow> 'a list list" where
  \<comment> \<open>the first \<open>n\<close> rows, \<open>w\<close> cells each, of a linear buffer\<close>
  "chunks w 0 xs = []"
| "chunks w (Suc n) xs = take w xs # chunks w n (drop w xs)"

lemma length_chunks [simp]: "length (chunks w n xs) = n"
  by (induction w n xs rule: chunks.induct) auto

lemma nth_chunks: "i < n \<Longrightarrow> chunks w n xs ! i = take w (drop (i * w) xs)"
proof (induction w n xs arbitrary: i rule: chunks.induct)
  case (2 w n xs)
  then show ?case by (cases i) (auto simp: add.commute)
qed simp

lemma chunks_concat:
  "(\<And>x. x \<in> set xss \<Longrightarrow> length x = w) \<Longrightarrow> chunks w (length xss) (concat xss @ ys) = xss"
  by (induction xss) auto

lemma chunks_rows:
  assumes "length xs = n * w" and "r \<in> set (chunks w n xs)"
  shows "length r = w"
  using assms
proof (induction w n xs arbitrary: r rule: chunks.induct)
  case (2 w n xs)
  then show ?case by auto
qed simp

lemma concat_chunks: "length xs = n * w \<Longrightarrow> concat (chunks w n xs) = xs"
  by (induction w n xs rule: chunks.induct) auto

lemma set_chunks: "r \<in> set (chunks w n xs) \<Longrightarrow> set r \<subseteq> set xs"
proof (induction w n xs rule: chunks.induct)
  case (2 w n xs)
  then show ?case by (auto dest: in_set_takeD in_set_dropD)
qed simp

subsection \<open>Checked buffer accesses and loops that may fail\<close>

definition store_at :: "nat \<Rightarrow> 'a list \<Rightarrow> 'a list \<Rightarrow> 'a list option" where
  \<comment> \<open>\<open>memcpy(dst + off, src, length src)\<close>; \<open>None\<close> when it leaves \<open>dst\<close>\<close>
  "store_at off src dst = (if off + length src \<le> length dst then Some (write_at off src dst) else None)"

definition load_at :: "nat \<Rightarrow> nat \<Rightarrow> 'a list \<Rightarrow> 'a list option" where
  \<comment> \<open>the \<open>n\<close> cells at \<open>src + off\<close>; \<open>None\<close> when they leave \<open>src\<close>\<close>
  "load_at off n src = (if off + n \<le> length src then Some (read_at off n src) else None)"

lemma store_append:
  "off = length pre \<Longrightarrow> length src \<le> length rest \<Longrightarrow>
     store_at off src (pre @ rest) = Some (pre @ src @ drop (length src) rest)"
  by (simp add: store_at_def write_at_def)

lemma load_append: "off = length pre \<Longrightarrow> n = length src \<Longrightarrow> load_at off n (pre @ src @ rest) = Some src"
  by (simp add: load_at_def read_at_def)

lemma prefix_induct:
  assumes "P []" and "\<And>as q bs. xs = as @ q # bs \<Longrightarrow> P as \<Longrightarrow> P (as @ [q])"
  shows "P xs"
proof -
  have "xs = as @ bs \<Longrightarrow> P as" for as bs
    by (induction as arbitrary: bs rule: rev_induct) (auto intro: assms)
  from this [of xs "[]"] show ?thesis by simp
qed

lemma nth_write_at:
  "off + length src \<le> length dst \<Longrightarrow> j < length dst \<Longrightarrow>
     write_at off src dst ! j = (if off \<le> j \<and> j < off + length src then src ! (j - off) else dst ! j)"
  by (auto simp: write_at_def nth_append min_def not_less)

lemma slot_end: "i < n \<Longrightarrow> i * w + w \<le> n * (w :: nat)"
  by (metis Suc_leI add.commute mult_Suc mult_le_mono1)

lemma read_write_slot:
  assumes "i < n" and "k < n" and "length src = w" and "length dst = n * w"
  shows "read_at (i * w) w (write_at (k * w) src dst) = (if i = k then src else read_at (i * w) w dst)"
proof (cases "i = k")
  case True
  then show ?thesis using assms slot_end [of k n w] read_at_write_at [of "k * w" src dst] by simp
next
  case False
  have "i * w + j < k * w \<or> k * w + w \<le> i * w + j" if "j < w" for j
  proof (cases "i < k")
    case True
    then show ?thesis using slot_end [of i k w] that by linarith
  next
    case False
    with \<open>i \<noteq> k\<close> have "k < i" by simp
    then show ?thesis using slot_end [of k i w] that by linarith
  qed
  then have "write_at (k * w) src dst ! (i * w + j) = dst ! (i * w + j)" if "j < w" for j
    using assms slot_end [of k n w] slot_end [of i n w] that by (subst nth_write_at) fastforce+
  then show ?thesis using False assms slot_end [of i n w] slot_end [of k n w]
    by (intro nth_equalityI) simp_all
qed

lemma read_write_within:
  assumes "i < n" and "k < n" and "off + length src \<le> w" and "length dst = n * w"
  shows "read_at (i * w) w (write_at (k * w + off) src dst) =
    (if i = k then write_at off src (read_at (i * w) w dst) else read_at (i * w) w dst)"
proof (rule nth_equalityI)
  have room: "i * w + w \<le> n * w" "k * w + w \<le> n * w" using slot_end assms(1,2) by blast+
  then have inside: "k * w + off + length src \<le> length dst" using assms(3,4) by simp
  show "length (read_at (i * w) w (write_at (k * w + off) src dst)) =
      length (if i = k then write_at off src (read_at (i * w) w dst) else read_at (i * w) w dst)"
    using room inside assms(3,4) by simp
  fix j assume "j < length (read_at (i * w) w (write_at (k * w + off) src dst))"
  then have j: "j < w" using room inside assms(4) by simp
  have L: "read_at (i * w) w (write_at (k * w + off) src dst) ! j =
      (if k * w + off \<le> i * w + j \<and> i * w + j < k * w + off + length src then src ! (i * w + j - (k * w + off)) else dst ! (i * w + j))"
    using j room inside assms(4) by (simp add: nth_write_at)
  show "read_at (i * w) w (write_at (k * w + off) src dst) ! j =
      (if i = k then write_at off src (read_at (i * w) w dst) else read_at (i * w) w dst) ! j"
  proof (cases "i = k")
    case True
    then show ?thesis unfolding L using j room assms by (simp add: nth_write_at)
  next
    case False
    then consider "i * w + w \<le> k * w" | "k * w + w \<le> i * w" using slot_end [of i k w] slot_end [of k i w] by (meson nat_neq_iff)
    then show ?thesis unfolding L using False j room assms by cases (simp_all add: nth_write_at)
  qed
qed

lemma write_at_adjacent:
  "off + length xs + length ys \<le> length zs \<Longrightarrow> write_at (off + length xs) ys (write_at off xs zs) = write_at off (xs @ ys) zs"
  by (simp add: write_at_def ac_simps)

lemma write_at_append: "off = length pre \<Longrightarrow> write_at off src (pre @ rest) = pre @ src @ drop (length src) rest"
  by (simp add: write_at_def)

fun foldM :: "('s \<Rightarrow> 'a \<Rightarrow> 's option) \<Rightarrow> 's \<Rightarrow> 'a list \<Rightarrow> 's option" where
  "foldM f s [] = Some s"
| "foldM f s (x # xs) = (case f s x of None \<Rightarrow> None | Some s' \<Rightarrow> foldM f s' xs)"

lemma foldM_append: "foldM f s (xs @ ys) = (case foldM f s xs of None \<Rightarrow> None | Some s' \<Rightarrow> foldM f s' ys)"
  by (induction xs arbitrary: s) (auto split: option.splits)

lemma foldM_snoc: "foldM f s xs = Some s' \<Longrightarrow> foldM f s (xs @ [x]) = f s' x"
  by (simp add: foldM_append split: option.splits)

lemma foldM_map: "foldM f s (map g xs) = foldM (\<lambda>s x. f s (g x)) s xs"
  by (induction xs arbitrary: s) (auto split: option.splits)

lemma foldM_cong: "(\<And>s x. x \<in> set xs \<Longrightarrow> f s x = g s x) \<Longrightarrow> foldM f s xs = foldM g s xs"
  by (induction xs arbitrary: s) (auto split: option.splits)

lemma length_concat_const:
  "(\<And>x. x \<in> set xs \<Longrightarrow> length (f x) = w) \<Longrightarrow> length (concat (map f xs)) = length xs * w"
  by (induction xs) auto

lemma drop_add: "drop n (drop m xs) = drop (m + n) xs"
  by (simp add: add.commute)

lemma foldM_stores:
  assumes "length (filter sel xs) * w \<le> length st" and "\<And>x. x \<in> set xs \<Longrightarrow> sel x \<Longrightarrow> length (val x) = w"
  shows "foldM (\<lambda>(st, n) x. if sel x then (case store_at (n * w) (val x) st of None \<Rightarrow> None | Some st \<Rightarrow> Some (st, n + 1))
              else Some (st, n)) (st, 0) xs
       = Some (concat (map val (filter sel xs)) @ drop (length (filter sel xs) * w) st, length (filter sel xs))"
  using assms
proof (induction xs rule: rev_induct)
  case (snoc x xs)
  have len: "length (concat (map val (filter sel xs))) = length (filter sel xs) * w"
    by (rule length_concat_const) (use snoc.prems(2) in auto)
  show ?case
  proof (cases "sel x")
    case True
    have "store_at (length (filter sel xs) * w) (val x) (concat (map val (filter sel xs)) @ drop (length (filter sel xs) * w) st)
        = Some (concat (map val (filter sel xs)) @ val x @ drop (length (val x)) (drop (length (filter sel xs) * w) st))"
      by (rule store_append) (use True snoc.prems in \<open>auto simp: len algebra_simps\<close>)
    then show ?thesis using True snoc by (simp add: foldM_snoc drop_add add.commute)
  next
    case False
    then show ?thesis using snoc by (simp add: foldM_snoc)
  qed
qed simp

lemma updates_nth:
  assumes "distinct ks" and "length vs = length ks" and "set ks \<subseteq> {..<length xs}"
  defines "ys \<equiv> foldl (\<lambda>xs (k, v). xs[k := v]) xs (zip ks vs)"
  shows "length ys = length xs" and "i < length ks \<Longrightarrow> ys ! (ks ! i) = vs ! i"
    and "j \<notin> set ks \<Longrightarrow> ys ! j = xs ! j"
  using assms(1-3) unfolding ys_def
proof (induction ks arbitrary: vs xs i j)
  case (Cons k ks)
  { case 1 then show ?case using Cons.IH(1) [of "tl vs" "xs[k := hd vs]"] by (cases vs) auto }
  { case 2
    then obtain v vs' where vs: "vs = v # vs'" by (cases vs) auto
    show ?case
    proof (cases i)
      case 0
      then show ?thesis using 2 vs Cons.IH(3) [of k vs' "xs[k := v]"] by auto
    next
      case (Suc m)
      then show ?thesis using 2 vs Cons.IH(2) [of m vs' "xs[k := v]"] by auto
    qed }
  { case 3 then show ?case using Cons.IH(3) [of i "tl vs" "xs[k := hd vs]"] by (cases vs) auto }
qed auto

lemma sum_of_bool_list: "(\<Sum>x\<leftarrow>xs. of_bool (P x)) = length (filter P xs)"
  by (induction xs) auto

subsection \<open>Bits of natural numbers and of truncated values\<close>

lemma bit_nat_small: "(x::nat) < 2 ^ k \<Longrightarrow> k \<le> n \<Longrightarrow> \<not> bit x n"
  by (metis bit_take_bit_iff leD take_bit_nat_eq_self)

lemma take_bit_nat_lt [simp]: "take_bit k (x::nat) < 2 ^ k"
  by simp

lemma nat_lt_bits: "(\<And>n. k \<le> n \<Longrightarrow> \<not> bit (x::nat) n) \<Longrightarrow> x < 2 ^ k"
  by (metis bit_eq_iff bit_take_bit_iff linorder_not_le take_bit_nat_less_exp)

lemma nat_bits_eqI:
  assumes "(x::nat) < 2 ^ k" and "y < 2 ^ k" and "\<And>n. n < k \<Longrightarrow> bit x n = bit y n"
  shows "x = y"
  using assms by (metis bit_eq_iff bit_nat_small not_le)

lemma unat_of_nat_take_bit: "unat (of_nat x :: 'a::len word) = take_bit LENGTH('a) x"
  by (simp add: unat_of_nat take_bit_nat_def)

lemma unat_byte_lt: "unat (w :: byte) < 2 ^ 8"
  by (rule order_less_le_trans [OF unsigned_less]) simp

end
