(* ===== verification/Parameters.thy ===== *)
theory Parameters
  imports Prelude
begin

text \<open>
  The compile-time parameters of the CROSS reference implementation,
  \<^verbatim>\<open>cross/Reference_Implementation/include/parameters.h\<close>: the preprocessor
  switches are the fields of a record, every \<open>#define\<close> is a function of it, and
  the tables the header lists for the eighteen parameter sets are eighteen
  definitions. Since the switches are enumerations, every value of the record
  is a buildable configuration: the facts proved here hold without a
  hypothesis, and the components use them for all parameter sets at once.
\<close>

datatype rsdp_variant = RSDP | RSDPG

datatype security_category = CATEGORY_1 | CATEGORY_3 | CATEGORY_5

datatype opt_corner = SPEED | BALANCED | SIG_SIZE

record cross_params =
  variant :: rsdp_variant
  cat :: security_category
  corner :: opt_corner
  no_trees :: bool       \<comment> \<open>\<open>NO_TREES\<close> is defined\<close>
  skip_assert :: bool    \<comment> \<open>\<open>SKIP_ASSERT\<close> is defined\<close>
  ndebug :: bool         \<comment> \<open>\<open>NDEBUG\<close> is defined: \<open>assert\<close> expands to nothing\<close>

section \<open>Base field parameters\<close>

record base_field =
  bf_P :: nat
  bf_Z :: nat
  bf_G_GEN :: nat
  bf_FP_ELEM :: nat        \<comment> \<open>width in bits of \<open>FP_ELEM\<close>\<close>
  bf_FZ_ELEM :: nat        \<comment> \<open>width in bits of \<open>FZ_ELEM\<close>\<close>

definition rsdp_field :: base_field where
  "rsdp_field = \<lparr>bf_P = 127, bf_Z = 7, bf_G_GEN = 2, bf_FP_ELEM = 8, bf_FZ_ELEM = 8\<rparr>"

definition RESTR_G_TABLE :: nat where
  "RESTR_G_TABLE = 0x0140201008040201"

definition rsdpg_field :: base_field where
  "rsdpg_field = \<lparr>bf_P = 509, bf_Z = 127, bf_G_GEN = 16, bf_FP_ELEM = 16, bf_FZ_ELEM = 8\<rparr>"

fun field_of :: "rsdp_variant \<Rightarrow> base_field" where
  "field_of RSDP = rsdp_field"
| "field_of RSDPG = rsdpg_field"

definition par_P :: "rsdp_variant \<Rightarrow> nat" where "par_P v = bf_P (field_of v)"
definition par_Z :: "rsdp_variant \<Rightarrow> nat" where "par_Z v = bf_Z (field_of v)"
definition FP_ELEM_BITS :: "rsdp_variant \<Rightarrow> nat" where "FP_ELEM_BITS v = bf_FP_ELEM (field_of v)"
definition FZ_ELEM_BITS :: "rsdp_variant \<Rightarrow> nat" where "FZ_ELEM_BITS v = bf_FZ_ELEM (field_of v)"

lemma base_field_simps [simp]:
  "par_P RSDP = 127" "par_P RSDPG = 509" "par_Z RSDP = 7" "par_Z RSDPG = 127"
  "FP_ELEM_BITS RSDP = 8" "FP_ELEM_BITS RSDPG = 16" "FZ_ELEM_BITS v = 8"
  by (cases v; simp add: par_P_def par_Z_def FP_ELEM_BITS_def FZ_ELEM_BITS_def
        rsdp_field_def rsdpg_field_def)+

section \<open>Code and round parameters\<close>

record code_dims =
  d_LAMBDA :: nat
  d_N :: nat
  d_K :: nat
  d_M :: nat     \<comment> \<open>only defined by the header for RSDP(G); 0 for RSDP\<close>
  d_T :: nat
  d_W :: nat

fun rsdp_dims :: "security_category \<Rightarrow> opt_corner \<Rightarrow> code_dims" where
  "rsdp_dims CATEGORY_1 SPEED = \<lparr>d_LAMBDA = 128, d_N = 127, d_K = 76, d_M = 0, d_T = 157, d_W = 82\<rparr>"
| "rsdp_dims CATEGORY_1 BALANCED = \<lparr>d_LAMBDA = 128, d_N = 127, d_K = 76, d_M = 0, d_T = 256, d_W = 215\<rparr>"
| "rsdp_dims CATEGORY_1 SIG_SIZE = \<lparr>d_LAMBDA = 128, d_N = 127, d_K = 76, d_M = 0, d_T = 520, d_W = 488\<rparr>"
| "rsdp_dims CATEGORY_3 SPEED = \<lparr>d_LAMBDA = 192, d_N = 187, d_K = 111, d_M = 0, d_T = 239, d_W = 125\<rparr>"
| "rsdp_dims CATEGORY_3 BALANCED = \<lparr>d_LAMBDA = 192, d_N = 187, d_K = 111, d_M = 0, d_T = 384, d_W = 321\<rparr>"
| "rsdp_dims CATEGORY_3 SIG_SIZE = \<lparr>d_LAMBDA = 192, d_N = 187, d_K = 111, d_M = 0, d_T = 580, d_W = 527\<rparr>"
| "rsdp_dims CATEGORY_5 SPEED = \<lparr>d_LAMBDA = 256, d_N = 251, d_K = 150, d_M = 0, d_T = 321, d_W = 167\<rparr>"
| "rsdp_dims CATEGORY_5 BALANCED = \<lparr>d_LAMBDA = 256, d_N = 251, d_K = 150, d_M = 0, d_T = 512, d_W = 427\<rparr>"
| "rsdp_dims CATEGORY_5 SIG_SIZE = \<lparr>d_LAMBDA = 256, d_N = 251, d_K = 150, d_M = 0, d_T = 832, d_W = 762\<rparr>"

fun rsdpg_dims :: "security_category \<Rightarrow> opt_corner \<Rightarrow> code_dims" where
  "rsdpg_dims CATEGORY_1 SPEED = \<lparr>d_LAMBDA = 128, d_N = 55, d_K = 36, d_M = 25, d_T = 147, d_W = 76\<rparr>"
| "rsdpg_dims CATEGORY_1 BALANCED = \<lparr>d_LAMBDA = 128, d_N = 55, d_K = 36, d_M = 25, d_T = 256, d_W = 220\<rparr>"
| "rsdpg_dims CATEGORY_1 SIG_SIZE = \<lparr>d_LAMBDA = 128, d_N = 55, d_K = 36, d_M = 25, d_T = 512, d_W = 484\<rparr>"
| "rsdpg_dims CATEGORY_3 SPEED = \<lparr>d_LAMBDA = 192, d_N = 79, d_K = 48, d_M = 40, d_T = 224, d_W = 119\<rparr>"
| "rsdpg_dims CATEGORY_3 BALANCED = \<lparr>d_LAMBDA = 192, d_N = 79, d_K = 48, d_M = 40, d_T = 268, d_W = 196\<rparr>"
| "rsdpg_dims CATEGORY_3 SIG_SIZE = \<lparr>d_LAMBDA = 192, d_N = 79, d_K = 48, d_M = 40, d_T = 512, d_W = 463\<rparr>"
| "rsdpg_dims CATEGORY_5 SPEED = \<lparr>d_LAMBDA = 256, d_N = 106, d_K = 69, d_M = 48, d_T = 300, d_W = 153\<rparr>"
| "rsdpg_dims CATEGORY_5 BALANCED = \<lparr>d_LAMBDA = 256, d_N = 106, d_K = 69, d_M = 48, d_T = 356, d_W = 258\<rparr>"
| "rsdpg_dims CATEGORY_5 SIG_SIZE = \<lparr>d_LAMBDA = 256, d_N = 106, d_K = 69, d_M = 48, d_T = 642, d_W = 575\<rparr>"

section \<open>Tables computed by the parameter scripts\<close>

record derived_tables =
  TREE_OFFSETS :: "nat list"
  TREE_NODES_PER_LEVEL :: "nat list"
  TREE_LEAVES_PER_LEVEL :: "nat list"
  TREE_SUBROOTS :: nat
  TREE_LEAVES_START_INDICES :: "nat list"
  TREE_CONSECUTIVE_LEAVES :: "nat list"
  TREE_NODES_TO_STORE :: nat
  BITS_N_FP_CT_RNG :: nat
  BITS_CHALL_1_FPSTAR_CT_RNG :: nat
  BITS_V_CT_RNG :: nat
  BITS_N_FZ_CT_RNG :: nat  \<comment> \<open>RSDP only\<close>
  BITS_W_CT_RNG :: nat     \<comment> \<open>RSDP(G) only\<close>
  BITS_M_FZ_CT_RNG :: nat  \<comment> \<open>RSDP(G) only\<close>
  BITS_CWSTR_RNG :: nat

definition tables_rsdp_1_speed :: derived_tables where
  "tables_rsdp_1_speed = \<lparr>TREE_OFFSETS = [0, 0, 0, 0, 0, 2, 2, 58, 58],
     TREE_NODES_PER_LEVEL = [1, 2, 4, 8, 16, 30, 60, 64, 128],
     TREE_LEAVES_PER_LEVEL = [0, 0, 0, 0, 1, 0, 28, 0, 128], TREE_SUBROOTS = 3,
     TREE_LEAVES_START_INDICES = [185, 93, 30], TREE_CONSECUTIVE_LEAVES = [128, 28, 1],
     TREE_NODES_TO_STORE = 82, BITS_N_FP_CT_RNG = 1127, BITS_CHALL_1_FPSTAR_CT_RNG = 1421,
     BITS_V_CT_RNG = 28028, BITS_N_FZ_CT_RNG = 717, BITS_W_CT_RNG = 0, BITS_M_FZ_CT_RNG = 0,
     BITS_CWSTR_RNG = 3656\<rparr>"

definition tables_rsdp_1_balanced :: derived_tables where
  "tables_rsdp_1_balanced = \<lparr>TREE_OFFSETS = [0, 0, 0, 0, 0, 0, 0, 0, 0],
     TREE_NODES_PER_LEVEL = [1, 2, 4, 8, 16, 32, 64, 128, 256],
     TREE_LEAVES_PER_LEVEL = [0, 0, 0, 0, 0, 0, 0, 0, 256], TREE_SUBROOTS = 1,
     TREE_LEAVES_START_INDICES = [255], TREE_CONSECUTIVE_LEAVES = [256], TREE_NODES_TO_STORE = 108,
     BITS_N_FP_CT_RNG = 1127, BITS_CHALL_1_FPSTAR_CT_RNG = 2170, BITS_V_CT_RNG = 28028,
     BITS_N_FZ_CT_RNG = 717, BITS_W_CT_RNG = 0, BITS_M_FZ_CT_RNG = 0, BITS_CWSTR_RNG = 4776\<rparr>"

definition tables_rsdp_1_sig_size :: derived_tables where
  "tables_rsdp_1_sig_size = \<lparr>TREE_OFFSETS = [0, 0, 0, 0, 0, 16, 16, 16, 16, 16, 16],
     TREE_NODES_PER_LEVEL = [1, 2, 4, 8, 16, 16, 32, 64, 128, 256, 512],
     TREE_LEAVES_PER_LEVEL = [0, 0, 0, 0, 8, 0, 0, 0, 0, 0, 512], TREE_SUBROOTS = 2,
     TREE_LEAVES_START_INDICES = [527, 23], TREE_CONSECUTIVE_LEAVES = [512, 8], TREE_NODES_TO_STORE = 129,
     BITS_N_FP_CT_RNG = 1127, BITS_CHALL_1_FPSTAR_CT_RNG = 4130, BITS_V_CT_RNG = 28028,
     BITS_N_FZ_CT_RNG = 717, BITS_W_CT_RNG = 0, BITS_M_FZ_CT_RNG = 0, BITS_CWSTR_RNG = 10390\<rparr>"

definition tables_rsdp_3_speed :: derived_tables where
  "tables_rsdp_3_speed = \<lparr>TREE_OFFSETS = [0, 0, 0, 0, 0, 0, 0, 2, 30],
     TREE_NODES_PER_LEVEL = [1, 2, 4, 8, 16, 32, 64, 126, 224],
     TREE_LEAVES_PER_LEVEL = [0, 0, 0, 0, 0, 0, 1, 14, 224], TREE_SUBROOTS = 3,
     TREE_LEAVES_START_INDICES = [253, 239, 126], TREE_CONSECUTIVE_LEAVES = [224, 14, 1],
     TREE_NODES_TO_STORE = 125, BITS_N_FP_CT_RNG = 1673, BITS_CHALL_1_FPSTAR_CT_RNG = 2163,
     BITS_V_CT_RNG = 60711, BITS_N_FZ_CT_RNG = 1065, BITS_W_CT_RNG = 0, BITS_M_FZ_CT_RNG = 0,
     BITS_CWSTR_RNG = 5264\<rparr>"

definition tables_rsdp_3_balanced :: derived_tables where
  "tables_rsdp_3_balanced = \<lparr>TREE_OFFSETS = [0, 0, 0, 0, 0, 0, 0, 0, 0, 256],
     TREE_NODES_PER_LEVEL = [1, 2, 4, 8, 16, 32, 64, 128, 256, 256],
     TREE_LEAVES_PER_LEVEL = [0, 0, 0, 0, 0, 0, 0, 0, 128, 256], TREE_SUBROOTS = 2,
     TREE_LEAVES_START_INDICES = [511, 383], TREE_CONSECUTIVE_LEAVES = [256, 128], TREE_NODES_TO_STORE = 165,
     BITS_N_FP_CT_RNG = 1673, BITS_CHALL_1_FPSTAR_CT_RNG = 3255, BITS_V_CT_RNG = 60711,
     BITS_N_FZ_CT_RNG = 1065, BITS_W_CT_RNG = 0, BITS_M_FZ_CT_RNG = 0, BITS_CWSTR_RNG = 8586\<rparr>"

definition tables_rsdp_3_sig_size :: derived_tables where
  "tables_rsdp_3_sig_size = \<lparr>TREE_OFFSETS = [0, 0, 0, 0, 0, 8, 8, 8, 8, 136, 136],
     TREE_NODES_PER_LEVEL = [1, 2, 4, 8, 16, 24, 48, 96, 192, 256, 512],
     TREE_LEAVES_PER_LEVEL = [0, 0, 0, 0, 4, 0, 0, 0, 64, 0, 512], TREE_SUBROOTS = 3,
     TREE_LEAVES_START_INDICES = [647, 327, 27], TREE_CONSECUTIVE_LEAVES = [512, 64, 4],
     TREE_NODES_TO_STORE = 184, BITS_N_FP_CT_RNG = 1673, BITS_CHALL_1_FPSTAR_CT_RNG = 4718,
     BITS_V_CT_RNG = 60711, BITS_N_FZ_CT_RNG = 1065, BITS_W_CT_RNG = 0, BITS_M_FZ_CT_RNG = 0,
     BITS_CWSTR_RNG = 12880\<rparr>"

definition tables_rsdp_5_speed :: derived_tables where
  "tables_rsdp_5_speed = \<lparr>TREE_OFFSETS = [0, 0, 0, 2, 2, 2, 2, 2, 2, 130],
     TREE_NODES_PER_LEVEL = [1, 2, 4, 6, 12, 24, 48, 96, 192, 256],
     TREE_LEAVES_PER_LEVEL = [0, 0, 1, 0, 0, 0, 0, 0, 64, 256], TREE_SUBROOTS = 3,
     TREE_LEAVES_START_INDICES = [385, 321, 6], TREE_CONSECUTIVE_LEAVES = [256, 64, 1],
     TREE_NODES_TO_STORE = 167, BITS_N_FP_CT_RNG = 2247, BITS_CHALL_1_FPSTAR_CT_RNG = 2905,
     BITS_V_CT_RNG = 108689, BITS_N_FZ_CT_RNG = 1431, BITS_W_CT_RNG = 0, BITS_M_FZ_CT_RNG = 0,
     BITS_CWSTR_RNG = 8343\<rparr>"

definition tables_rsdp_5_balanced :: derived_tables where
  "tables_rsdp_5_balanced = \<lparr>TREE_OFFSETS = [0, 0, 0, 0, 0, 0, 0, 0, 0, 0],
     TREE_NODES_PER_LEVEL = [1, 2, 4, 8, 16, 32, 64, 128, 256, 512],
     TREE_LEAVES_PER_LEVEL = [0, 0, 0, 0, 0, 0, 0, 0, 0, 512], TREE_SUBROOTS = 1,
     TREE_LEAVES_START_INDICES = [511], TREE_CONSECUTIVE_LEAVES = [512], TREE_NODES_TO_STORE = 220,
     BITS_N_FP_CT_RNG = 2247, BITS_CHALL_1_FPSTAR_CT_RNG = 4347, BITS_V_CT_RNG = 108689,
     BITS_N_FZ_CT_RNG = 1431, BITS_W_CT_RNG = 0, BITS_M_FZ_CT_RNG = 0, BITS_CWSTR_RNG = 10746\<rparr>"

definition tables_rsdp_5_sig_size :: derived_tables where
  "tables_rsdp_5_sig_size = \<lparr>TREE_OFFSETS = [0, 0, 0, 0, 0, 0, 0, 0, 0, 128, 128],
     TREE_NODES_PER_LEVEL = [1, 2, 4, 8, 16, 32, 64, 128, 256, 384, 768],
     TREE_LEAVES_PER_LEVEL = [0, 0, 0, 0, 0, 0, 0, 0, 64, 0, 768], TREE_SUBROOTS = 2,
     TREE_LEAVES_START_INDICES = [895, 447], TREE_CONSECUTIVE_LEAVES = [768, 64], TREE_NODES_TO_STORE = 251,
     BITS_N_FP_CT_RNG = 2247, BITS_CHALL_1_FPSTAR_CT_RNG = 6734, BITS_V_CT_RNG = 108689,
     BITS_N_FZ_CT_RNG = 1431, BITS_W_CT_RNG = 0, BITS_M_FZ_CT_RNG = 0, BITS_CWSTR_RNG = 18150\<rparr>"

definition tables_rsdpg_1_speed :: derived_tables where
  "tables_rsdpg_1_speed = \<lparr>TREE_OFFSETS = [0, 0, 0, 0, 2, 6, 6, 38, 38],
     TREE_NODES_PER_LEVEL = [1, 2, 4, 8, 14, 24, 48, 64, 128],
     TREE_LEAVES_PER_LEVEL = [0, 0, 0, 1, 2, 0, 16, 0, 128], TREE_SUBROOTS = 4,
     TREE_LEAVES_START_INDICES = [165, 85, 27, 14], TREE_CONSECUTIVE_LEAVES = [128, 16, 2, 1],
     TREE_NODES_TO_STORE = 76, BITS_N_FP_CT_RNG = 729, BITS_CHALL_1_FPSTAR_CT_RNG = 1647,
     BITS_V_CT_RNG = 6624, BITS_N_FZ_CT_RNG = 0, BITS_W_CT_RNG = 5677, BITS_M_FZ_CT_RNG = 343,
     BITS_CWSTR_RNG = 3472\<rparr>"

definition tables_rsdpg_1_balanced :: derived_tables where
  "tables_rsdpg_1_balanced = \<lparr>TREE_OFFSETS = [0, 0, 0, 0, 0, 0, 0, 0, 0],
     TREE_NODES_PER_LEVEL = [1, 2, 4, 8, 16, 32, 64, 128, 256],
     TREE_LEAVES_PER_LEVEL = [0, 0, 0, 0, 0, 0, 0, 0, 256], TREE_SUBROOTS = 1,
     TREE_LEAVES_START_INDICES = [255], TREE_CONSECUTIVE_LEAVES = [256], TREE_NODES_TO_STORE = 101,
     BITS_N_FP_CT_RNG = 729, BITS_CHALL_1_FPSTAR_CT_RNG = 2682, BITS_V_CT_RNG = 6624, BITS_N_FZ_CT_RNG = 0,
     BITS_W_CT_RNG = 5677, BITS_M_FZ_CT_RNG = 343, BITS_CWSTR_RNG = 4776\<rparr>"

definition tables_rsdpg_1_sig_size :: derived_tables where
  "tables_rsdpg_1_sig_size = \<lparr>TREE_OFFSETS = [0, 0, 0, 0, 0, 0, 0, 0, 0, 0],
     TREE_NODES_PER_LEVEL = [1, 2, 4, 8, 16, 32, 64, 128, 256, 512],
     TREE_LEAVES_PER_LEVEL = [0, 0, 0, 0, 0, 0, 0, 0, 0, 512], TREE_SUBROOTS = 1,
     TREE_LEAVES_START_INDICES = [511], TREE_CONSECUTIVE_LEAVES = [512], TREE_NODES_TO_STORE = 117,
     BITS_N_FP_CT_RNG = 729, BITS_CHALL_1_FPSTAR_CT_RNG = 5085, BITS_V_CT_RNG = 6624, BITS_N_FZ_CT_RNG = 0,
     BITS_W_CT_RNG = 5677, BITS_M_FZ_CT_RNG = 343, BITS_CWSTR_RNG = 9153\<rparr>"

definition tables_rsdpg_3_speed :: derived_tables where
  "tables_rsdpg_3_speed = \<lparr>TREE_OFFSETS = [0, 0, 0, 0, 0, 0, 0, 0, 64],
     TREE_NODES_PER_LEVEL = [1, 2, 4, 8, 16, 32, 64, 128, 192],
     TREE_LEAVES_PER_LEVEL = [0, 0, 0, 0, 0, 0, 0, 32, 192], TREE_SUBROOTS = 2,
     TREE_LEAVES_START_INDICES = [255, 223], TREE_CONSECUTIVE_LEAVES = [192, 32], TREE_NODES_TO_STORE = 119,
     BITS_N_FP_CT_RNG = 1071, BITS_CHALL_1_FPSTAR_CT_RNG = 2502, BITS_V_CT_RNG = 14211, BITS_N_FZ_CT_RNG = 0,
     BITS_W_CT_RNG = 11655, BITS_M_FZ_CT_RNG = 539, BITS_CWSTR_RNG = 5128\<rparr>"

definition tables_rsdpg_3_balanced :: derived_tables where
  "tables_rsdpg_3_balanced = \<lparr>TREE_OFFSETS = [0, 0, 0, 0, 0, 8, 24, 24, 24, 24],
     TREE_NODES_PER_LEVEL = [1, 2, 4, 8, 16, 24, 32, 64, 128, 256],
     TREE_LEAVES_PER_LEVEL = [0, 0, 0, 0, 4, 8, 0, 0, 0, 256], TREE_SUBROOTS = 3,
     TREE_LEAVES_START_INDICES = [279, 47, 27], TREE_CONSECUTIVE_LEAVES = [256, 8, 4],
     TREE_NODES_TO_STORE = 138, BITS_N_FP_CT_RNG = 1071, BITS_CHALL_1_FPSTAR_CT_RNG = 2925,
     BITS_V_CT_RNG = 14211, BITS_N_FZ_CT_RNG = 0, BITS_W_CT_RNG = 11655, BITS_M_FZ_CT_RNG = 539,
     BITS_CWSTR_RNG = 6444\<rparr>"

definition tables_rsdpg_3_sig_size :: derived_tables where
  "tables_rsdpg_3_sig_size = \<lparr>TREE_OFFSETS = [0, 0, 0, 0, 0, 0, 0, 0, 0, 0],
     TREE_NODES_PER_LEVEL = [1, 2, 4, 8, 16, 32, 64, 128, 256, 512],
     TREE_LEAVES_PER_LEVEL = [0, 0, 0, 0, 0, 0, 0, 0, 0, 512], TREE_SUBROOTS = 1,
     TREE_LEAVES_START_INDICES = [511], TREE_CONSECUTIVE_LEAVES = [512], TREE_NODES_TO_STORE = 165,
     BITS_N_FP_CT_RNG = 1071, BITS_CHALL_1_FPSTAR_CT_RNG = 5238, BITS_V_CT_RNG = 14211, BITS_N_FZ_CT_RNG = 0,
     BITS_W_CT_RNG = 11655, BITS_M_FZ_CT_RNG = 539, BITS_CWSTR_RNG = 9981\<rparr>"

definition tables_rsdpg_5_speed :: derived_tables where
  "tables_rsdpg_5_speed = \<lparr>TREE_OFFSETS = [0, 0, 0, 0, 0, 0, 8, 24, 88, 88],
     TREE_NODES_PER_LEVEL = [1, 2, 4, 8, 16, 32, 56, 96, 128, 256],
     TREE_LEAVES_PER_LEVEL = [0, 0, 0, 0, 0, 4, 8, 32, 0, 256], TREE_SUBROOTS = 4,
     TREE_LEAVES_START_INDICES = [343, 183, 111, 59], TREE_CONSECUTIVE_LEAVES = [256, 32, 8, 4],
     TREE_NODES_TO_STORE = 153, BITS_N_FP_CT_RNG = 1431, BITS_CHALL_1_FPSTAR_CT_RNG = 3357,
     BITS_V_CT_RNG = 24192, BITS_N_FZ_CT_RNG = 0, BITS_W_CT_RNG = 20594, BITS_M_FZ_CT_RNG = 679,
     BITS_CWSTR_RNG = 7929\<rparr>"

definition tables_rsdpg_5_balanced :: derived_tables where
  "tables_rsdpg_5_balanced = \<lparr>TREE_OFFSETS = [0, 0, 0, 0, 0, 0, 8, 8, 8, 200],
     TREE_NODES_PER_LEVEL = [1, 2, 4, 8, 16, 32, 56, 112, 224, 256],
     TREE_LEAVES_PER_LEVEL = [0, 0, 0, 0, 0, 4, 0, 0, 96, 256], TREE_SUBROOTS = 3,
     TREE_LEAVES_START_INDICES = [455, 359, 59], TREE_CONSECUTIVE_LEAVES = [256, 96, 4],
     TREE_NODES_TO_STORE = 185, BITS_N_FP_CT_RNG = 1431, BITS_CHALL_1_FPSTAR_CT_RNG = 3897,
     BITS_V_CT_RNG = 24192, BITS_N_FZ_CT_RNG = 0, BITS_W_CT_RNG = 20594, BITS_M_FZ_CT_RNG = 679,
     BITS_CWSTR_RNG = 8937\<rparr>"

definition tables_rsdpg_5_sig_size :: derived_tables where
  "tables_rsdpg_5_sig_size = \<lparr>TREE_OFFSETS = [0, 0, 0, 0, 4, 4, 4, 4, 4, 4, 260],
     TREE_NODES_PER_LEVEL = [1, 2, 4, 8, 12, 24, 48, 96, 192, 384, 512],
     TREE_LEAVES_PER_LEVEL = [0, 0, 0, 2, 0, 0, 0, 0, 0, 128, 512], TREE_SUBROOTS = 3,
     TREE_LEAVES_START_INDICES = [771, 643, 13], TREE_CONSECUTIVE_LEAVES = [512, 128, 2],
     TREE_NODES_TO_STORE = 220, BITS_N_FP_CT_RNG = 1431, BITS_CHALL_1_FPSTAR_CT_RNG = 6597,
     BITS_V_CT_RNG = 24192, BITS_N_FZ_CT_RNG = 0, BITS_W_CT_RNG = 20594, BITS_M_FZ_CT_RNG = 679,
     BITS_CWSTR_RNG = 15140\<rparr>"

fun derived_tables_of :: "rsdp_variant \<Rightarrow> security_category \<Rightarrow> opt_corner \<Rightarrow> derived_tables" where
  "derived_tables_of RSDP CATEGORY_1 SPEED = tables_rsdp_1_speed"
| "derived_tables_of RSDP CATEGORY_1 BALANCED = tables_rsdp_1_balanced"
| "derived_tables_of RSDP CATEGORY_1 SIG_SIZE = tables_rsdp_1_sig_size"
| "derived_tables_of RSDP CATEGORY_3 SPEED = tables_rsdp_3_speed"
| "derived_tables_of RSDP CATEGORY_3 BALANCED = tables_rsdp_3_balanced"
| "derived_tables_of RSDP CATEGORY_3 SIG_SIZE = tables_rsdp_3_sig_size"
| "derived_tables_of RSDP CATEGORY_5 SPEED = tables_rsdp_5_speed"
| "derived_tables_of RSDP CATEGORY_5 BALANCED = tables_rsdp_5_balanced"
| "derived_tables_of RSDP CATEGORY_5 SIG_SIZE = tables_rsdp_5_sig_size"
| "derived_tables_of RSDPG CATEGORY_1 SPEED = tables_rsdpg_1_speed"
| "derived_tables_of RSDPG CATEGORY_1 BALANCED = tables_rsdpg_1_balanced"
| "derived_tables_of RSDPG CATEGORY_1 SIG_SIZE = tables_rsdpg_1_sig_size"
| "derived_tables_of RSDPG CATEGORY_3 SPEED = tables_rsdpg_3_speed"
| "derived_tables_of RSDPG CATEGORY_3 BALANCED = tables_rsdpg_3_balanced"
| "derived_tables_of RSDPG CATEGORY_3 SIG_SIZE = tables_rsdpg_3_sig_size"
| "derived_tables_of RSDPG CATEGORY_5 SPEED = tables_rsdpg_5_speed"
| "derived_tables_of RSDPG CATEGORY_5 BALANCED = tables_rsdpg_5_balanced"
| "derived_tables_of RSDPG CATEGORY_5 SIG_SIZE = tables_rsdpg_5_sig_size"

lemmas tables_defs =
  tables_rsdp_1_speed_def tables_rsdp_1_balanced_def tables_rsdp_1_sig_size_def
  tables_rsdp_3_speed_def tables_rsdp_3_balanced_def tables_rsdp_3_sig_size_def
  tables_rsdp_5_speed_def tables_rsdp_5_balanced_def tables_rsdp_5_sig_size_def
  tables_rsdpg_1_speed_def tables_rsdpg_1_balanced_def tables_rsdpg_1_sig_size_def
  tables_rsdpg_3_speed_def tables_rsdpg_3_balanced_def tables_rsdpg_3_sig_size_def
  tables_rsdpg_5_speed_def tables_rsdpg_5_balanced_def tables_rsdpg_5_sig_size_def

fun dims_of :: "cross_params \<Rightarrow> code_dims" where
  "dims_of p = (case variant p of RSDP \<Rightarrow> rsdp_dims (cat p) (corner p)
                                | RSDPG \<Rightarrow> rsdpg_dims (cat p) (corner p))"

definition tabs :: "cross_params \<Rightarrow> derived_tables" where
  "tabs p = derived_tables_of (variant p) (cat p) (corner p)"

definition par_LAMBDA :: "cross_params \<Rightarrow> nat" where "par_LAMBDA p = d_LAMBDA (dims_of p)"
definition par_N :: "cross_params \<Rightarrow> nat" where "par_N p = d_N (dims_of p)"
definition par_K :: "cross_params \<Rightarrow> nat" where "par_K p = d_K (dims_of p)"
definition par_M :: "cross_params \<Rightarrow> nat" where "par_M p = d_M (dims_of p)"
definition par_T :: "cross_params \<Rightarrow> nat" where "par_T p = d_T (dims_of p)"
definition par_W :: "cross_params \<Rightarrow> nat" where "par_W p = d_W (dims_of p)"

definition CSPRNG_DOMAIN_SEP_CONST :: nat where "CSPRNG_DOMAIN_SEP_CONST = 0"
definition HASH_DOMAIN_SEP_CONST :: nat where "HASH_DOMAIN_SEP_CONST = 32768"

section \<open>Helper macros\<close>

definition ROUND_UP :: "nat \<Rightarrow> nat \<Rightarrow> nat" where
  "ROUND_UP amount round_amt = ((amount + round_amt - 1) div round_amt) * round_amt"

definition IS_REPRESENTABLE_IN_D_BITS :: "nat \<Rightarrow> nat \<Rightarrow> int" where
  "IS_REPRESENTABLE_IN_D_BITS d n = (if 2 ^ (d - 1) \<le> n \<and> n < 2 ^ d then int d else -1)"

definition BITS_TO_REPRESENT :: "nat \<Rightarrow> nat" where
  "BITS_TO_REPRESENT n = (if n = 0 then 1 else nat (15
     + IS_REPRESENTABLE_IN_D_BITS 1 n + IS_REPRESENTABLE_IN_D_BITS 2 n
     + IS_REPRESENTABLE_IN_D_BITS 3 n + IS_REPRESENTABLE_IN_D_BITS 4 n
     + IS_REPRESENTABLE_IN_D_BITS 5 n + IS_REPRESENTABLE_IN_D_BITS 6 n
     + IS_REPRESENTABLE_IN_D_BITS 7 n + IS_REPRESENTABLE_IN_D_BITS 8 n
     + IS_REPRESENTABLE_IN_D_BITS 9 n + IS_REPRESENTABLE_IN_D_BITS 10 n
     + IS_REPRESENTABLE_IN_D_BITS 11 n + IS_REPRESENTABLE_IN_D_BITS 12 n
     + IS_REPRESENTABLE_IN_D_BITS 13 n + IS_REPRESENTABLE_IN_D_BITS 14 n
     + IS_REPRESENTABLE_IN_D_BITS 15 n + IS_REPRESENTABLE_IN_D_BITS 16 n))"

definition LOG2 :: "nat \<Rightarrow> nat" where
  "LOG2 l = (if BITS_TO_REPRESENT l > BITS_TO_REPRESENT (l - 1)
             then BITS_TO_REPRESENT (l - 1) else BITS_TO_REPRESENT l)"

section \<open>Derived parameters\<close>

definition SEED_LENGTH_BYTES :: "cross_params \<Rightarrow> nat" where
  "SEED_LENGTH_BYTES p = par_LAMBDA p div 8"
definition KEYPAIR_SEED_LENGTH_BYTES :: "cross_params \<Rightarrow> nat" where
  "KEYPAIR_SEED_LENGTH_BYTES p = 2 * (par_LAMBDA p div 8)"
definition HASH_DIGEST_LENGTH :: "cross_params \<Rightarrow> nat" where
  "HASH_DIGEST_LENGTH p = 2 * (par_LAMBDA p div 8)"
definition SALT_LENGTH_BYTES :: "cross_params \<Rightarrow> nat" where
  "SALT_LENGTH_BYTES p = 2 * (par_LAMBDA p div 8)"

definition NUM_NODES_TREE :: "cross_params \<Rightarrow> nat" where
  \<comment> \<open>\<open>NUM_NODES_SEED_TREE\<close> and \<open>NUM_NODES_MERKLE_TREE\<close>\<close>
  "NUM_NODES_TREE p = 2 * par_T p - 1"

definition packed_size :: "nat \<Rightarrow> nat \<Rightarrow> nat" where
  \<comment> \<open>the expression shared by the four \<open>DENSELY_PACKED\<close> macros\<close>
  "packed_size n q = (n div 8) * BITS_TO_REPRESENT (q - 1)
                   + ROUND_UP ((n mod 8) * BITS_TO_REPRESENT (q - 1)) 8 div 8"

definition DENSELY_PACKED_FP_VEC_SIZE :: "cross_params \<Rightarrow> nat" where
  "DENSELY_PACKED_FP_VEC_SIZE p = packed_size (par_N p) (par_P (variant p))"
definition DENSELY_PACKED_FP_SYN_SIZE :: "cross_params \<Rightarrow> nat" where
  "DENSELY_PACKED_FP_SYN_SIZE p = packed_size (par_N p - par_K p) (par_P (variant p))"
definition DENSELY_PACKED_FZ_VEC_SIZE :: "cross_params \<Rightarrow> nat" where
  "DENSELY_PACKED_FZ_VEC_SIZE p = packed_size (par_N p) (par_Z (variant p))"
definition DENSELY_PACKED_FZ_RSDP_G_VEC_SIZE :: "cross_params \<Rightarrow> nat" where
  "DENSELY_PACKED_FZ_RSDP_G_VEC_SIZE p = packed_size (par_M p) (par_Z (variant p))"

section \<open>Facts of every parameter set\<close>

lemmas par_unfold = par_N_def par_K_def par_M_def par_T_def par_W_def par_LAMBDA_def

lemma cases_params:
  assumes "\<And>v c k. variant p = v \<Longrightarrow> cat p = c \<Longrightarrow> corner p = k \<Longrightarrow> Q"
  shows Q
  using assms by blast

lemma par_K_lt_N [par_facts]: "par_K p < par_N p"
  by (cases "variant p"; cases "cat p"; cases "corner p"; simp add: par_unfold)

lemma par_W_lt_T [par_facts]: "par_W p < par_T p"
  by (cases "variant p"; cases "cat p"; cases "corner p"; simp add: par_unfold)

lemma par_W_pos [par_facts]: "0 < par_W p"
  by (cases "variant p"; cases "cat p"; cases "corner p"; simp add: par_unfold)

lemma par_T_le [par_facts]: "par_T p \<le> 832"
  by (cases "variant p"; cases "cat p"; cases "corner p"; simp add: par_unfold)

lemma par_M_lt_N [par_facts]: "par_M p < par_N p"
  by (cases "variant p"; cases "cat p"; cases "corner p"; simp add: par_unfold)

lemma par_LAMBDA_pos [par_facts]: "0 < SEED_LENGTH_BYTES p"
  by (cases "variant p"; cases "cat p"; cases "corner p";
      simp add: par_unfold SEED_LENGTH_BYTES_def)

lemma BITS_TO_REPRESENT_eqI:
  assumes "2 ^ (d - 1) \<le> n" and "n < 2 ^ d" and "0 < d" and "d \<le> 16"
  shows "BITS_TO_REPRESENT n = d"
proof -
  have "n \<noteq> 0" using assms by (metis linorder_not_le zero_less_numeral zero_less_power)
  have other: "IS_REPRESENTABLE_IN_D_BITS e n = (if e = d then int d else -1)" if "0 < e" for e
  proof (cases e d rule: linorder_cases)
    case less
    then have "(2::nat) ^ e \<le> 2 ^ (d - 1)" by (intro power_increasing) auto
    with assms have "2 ^ e \<le> n" by linarith
    with less show ?thesis by (simp add: IS_REPRESENTABLE_IN_D_BITS_def)
  next
    case greater
    then have "(2::nat) ^ d \<le> 2 ^ (e - 1)" by (intro power_increasing) auto
    with assms have "n < 2 ^ (e - 1)" by linarith
    with greater show ?thesis by (simp add: IS_REPRESENTABLE_IN_D_BITS_def)
  qed (use assms in \<open>auto simp: IS_REPRESENTABLE_IN_D_BITS_def\<close>)
  have "d \<in> {1, 2, 3, 4, 5, 6, 7, 8, 9, 10, 11, 12, 13, 14, 15, 16}"
    using assms(3,4) by auto arith
  with \<open>n \<noteq> 0\<close> show ?thesis by (auto simp: BITS_TO_REPRESENT_def other)
qed

lemma bit_length_ex:
  assumes "0 < (n::nat)" and "n < 2 ^ k"
  shows "\<exists>d. 0 < d \<and> d \<le> k \<and> 2 ^ (d - 1) \<le> n \<and> n < 2 ^ d"
  using assms
proof (induction k)
  case (Suc k)
  show ?case
  proof (cases "n < 2 ^ k")
    case True
    with Suc show ?thesis by (meson le_SucI)
  next
    case False
    with Suc.prems show ?thesis by (intro exI [of _ "Suc k"]) auto
  qed
qed simp

lemma BITS_TO_REPRESENT_bounds:
  assumes "n < 2 ^ 16"
  shows "n < 2 ^ BITS_TO_REPRESENT n" and "0 < BITS_TO_REPRESENT n" and "BITS_TO_REPRESENT n \<le> 16"
    and "0 < n \<Longrightarrow> 2 ^ (BITS_TO_REPRESENT n - 1) \<le> n"
proof -
  consider "n = 0" | d where "0 < d" "d \<le> 16" "2 ^ (d - 1) \<le> n" "n < 2 ^ d"
    using bit_length_ex [OF _ assms] by blast
  then have "n < 2 ^ BITS_TO_REPRESENT n \<and> 0 < BITS_TO_REPRESENT n \<and> BITS_TO_REPRESENT n \<le> 16
    \<and> (0 < n \<longrightarrow> 2 ^ (BITS_TO_REPRESENT n - 1) \<le> n)"
  proof cases
    case 1
    then show ?thesis by (simp add: BITS_TO_REPRESENT_def)
  next
    case (2 d)
    then show ?thesis by (simp add: BITS_TO_REPRESENT_eqI)
  qed
  then show "n < 2 ^ BITS_TO_REPRESENT n" and "0 < BITS_TO_REPRESENT n"
    and "BITS_TO_REPRESENT n \<le> 16" and "0 < n \<Longrightarrow> 2 ^ (BITS_TO_REPRESENT n - 1) \<le> n"
    by auto
qed

end
