(* ===== verification/Residue_Arith.thy ===== *)
theory Residue_Arith
  imports Parameters
begin

unbundle bit_operations_syntax

text \<open>
  The interface of the two modular arithmetics the scheme uses (the exponents
  modulo \<open>Z\<close> and the field modulo \<open>P\<close>). The C code keeps a value below a
  bound that may exceed the modulus by the redundant representation of zero;
  a reduction brings a product plus an addend back below the bound, and a
  normalisation picks the canonical residue. A locale states these laws; the
  linear algebra of the scheme (a vector accumulated against the rows of a
  matrix) is developed once inside it.
\<close>

subsection \<open>The accumulation loop shared by the vector-matrix products\<close>

definition mac_row :: "(nat \<Rightarrow> nat) \<Rightarrow> nat \<Rightarrow> nat list \<Rightarrow> nat list \<Rightarrow> nat list" where
  \<comment> \<open>\<open>for j: res[j] = red(res[j] + c * row[j])\<close>\<close>
  "mac_row red c row res = map (\<lambda>j. red (res ! j + c * row ! j)) [0..<length res]"

definition mac_rows ::
    "(nat \<Rightarrow> nat) \<Rightarrow> (nat \<Rightarrow> nat) \<Rightarrow> nat list list \<Rightarrow> nat \<Rightarrow> nat list \<Rightarrow> nat list" where
  \<comment> \<open>\<open>for i < k: for j: res[j] = red(res[j] + coef(i) * rows[i][j])\<close>\<close>
  "mac_rows red coef rows k res = foldl (\<lambda>r i. mac_row red (coef i) (rows ! i) r) res [0..<k]"

lemma length_mac_row [simp]: "length (mac_row red c row res) = length res"
  by (simp add: mac_row_def)

lemma mac_rows_0 [simp]: "mac_rows red coef rows 0 res = res"
  by (simp add: mac_rows_def)

lemma mac_rows_Suc [simp]:
  "mac_rows red coef rows (Suc k) res =
     mac_row red (coef k) (rows ! k) (mac_rows red coef rows k res)"
  by (simp add: mac_rows_def)

lemma length_mac_rows [simp]: "length (mac_rows red coef rows k res) = length res"
  by (induction k) auto

subsection \<open>The interface\<close>

locale residue_arith =
  fixes q :: nat and top :: nat and red :: "nat \<Rightarrow> nat" and norm :: "nat \<Rightarrow> nat"
  assumes q_gt_1: "1 < q"
    and red_mod: "x \<le> top + top * top \<Longrightarrow> red x mod q = x mod q"
    and red_le: "x \<le> top + top * top \<Longrightarrow> red x \<le> top"
    and norm_eq: "x \<le> top \<Longrightarrow> norm x = x mod q"
begin

lemma prod_bound: "a \<le> top \<Longrightarrow> b \<le> top \<Longrightarrow> c \<le> top \<Longrightarrow> a + b * c \<le> top + top * top"
  by (intro add_mono mult_mono) auto

lemma prod_bound0: "b \<le> top \<Longrightarrow> c \<le> top \<Longrightarrow> b * c \<le> top + top * top"
  using prod_bound [of 0 b c] by simp

lemma norm_lt: "x \<le> top \<Longrightarrow> norm x < q"
  using q_gt_1 by (simp add: norm_eq)

lemma norm_cong: "x \<le> top \<Longrightarrow> y \<le> top \<Longrightarrow> x mod q = y mod q \<Longrightarrow> norm x = norm y"
  by (simp add: norm_eq)

lemma mac_row_nth:
  assumes "j < length res" and "res ! j \<le> top" and "c \<le> top" and "row ! j \<le> top"
  shows "mac_row red c row res ! j mod q = (res ! j + c * row ! j) mod q"
    and "mac_row red c row res ! j \<le> top"
  using assms by (simp_all add: mac_row_def red_mod red_le prod_bound)

lemma mac_rows_nth:
  assumes "j < length res" and "res ! j \<le> top"
    and "\<And>i. i < k \<Longrightarrow> coef i \<le> top" and "\<And>i. i < k \<Longrightarrow> rows ! i ! j \<le> top"
  shows "mac_rows red coef rows k res ! j mod q = (res ! j + (\<Sum>i<k. coef i * rows ! i ! j)) mod q
    \<and> mac_rows red coef rows k res ! j \<le> top"
  using assms
proof (induction k)
  case (Suc k)
  let ?r = "mac_rows red coef rows k res"
  have IH: "?r ! j mod q = (res ! j + (\<Sum>i<k. coef i * rows ! i ! j)) mod q" "?r ! j \<le> top"
    using Suc by auto
  have step: "mac_rows red coef rows (Suc k) res ! j mod q = (?r ! j + coef k * rows ! k ! j) mod q"
    "mac_rows red coef rows (Suc k) res ! j \<le> top"
    using Suc.prems IH(2) mac_row_nth [of j ?r "coef k" "rows ! k"] by simp_all
  have "(?r ! j + coef k * rows ! k ! j) mod q
      = (res ! j + (\<Sum>i<k. coef i * rows ! i ! j) + coef k * rows ! k ! j) mod q"
    by (rule mod_add_cong) (use IH(1) in auto)
  with step show ?case by (simp add: add.assoc)
qed simp

text \<open>Two accumulations agree up to the representation when they agree modulo \<open>q\<close>.\<close>

lemma mac_rows_linear:
  assumes "j < length a" "j < length b" "j < length d"
    and "a ! j \<le> top" "b ! j \<le> top" "d ! j \<le> top"
    and "\<And>i. i < k \<Longrightarrow> x i \<le> top" "\<And>i. i < k \<Longrightarrow> y i \<le> top" "\<And>i. i < k \<Longrightarrow> z i \<le> top"
    and rows: "\<And>i. i < k \<Longrightarrow> rows ! i ! j \<le> top"
    and lin0: "d ! j mod q = (a ! j + c * b ! j) mod q"
    and lin: "\<And>i. i < k \<Longrightarrow> z i mod q = (x i + c * y i) mod q"
  shows "mac_rows red z rows k d ! j mod q
       = (mac_rows red x rows k a ! j + c * mac_rows red y rows k b ! j) mod q"
proof -
  have A: "mac_rows red x rows k a ! j mod q = (a ! j + (\<Sum>i<k. x i * rows ! i ! j)) mod q"
    and B: "mac_rows red y rows k b ! j mod q = (b ! j + (\<Sum>i<k. y i * rows ! i ! j)) mod q"
    and D: "mac_rows red z rows k d ! j mod q = (d ! j + (\<Sum>i<k. z i * rows ! i ! j)) mod q"
    using assms mac_rows_nth by blast+
  have sums: "(\<Sum>i<k. z i * rows ! i ! j) mod q
      = ((\<Sum>i<k. x i * rows ! i ! j) + c * (\<Sum>i<k. y i * rows ! i ! j)) mod q"
  proof -
    have "(\<Sum>i<k. z i * rows ! i ! j) mod q = (\<Sum>i<k. (z i mod q) * rows ! i ! j mod q) mod q"
      by (simp add: mod_sum_eq mod_mult_left_eq)
    also have "\<dots> = (\<Sum>i<k. ((x i + c * y i) mod q) * rows ! i ! j mod q) mod q"
      using lin by (simp cong: sum.cong_simp)
    also have "\<dots> = (\<Sum>i<k. (x i + c * y i) * rows ! i ! j) mod q"
      by (simp add: mod_sum_eq mod_mult_left_eq)
    also have "(\<Sum>i<k. (x i + c * y i) * rows ! i ! j)
        = (\<Sum>i<k. x i * rows ! i ! j) + c * (\<Sum>i<k. y i * rows ! i ! j)"
      by (simp add: sum.distrib sum_distrib_left algebra_simps)
    finally show ?thesis .
  qed
  have "mac_rows red z rows k d ! j mod q
      = ((a ! j + c * b ! j) + ((\<Sum>i<k. x i * rows ! i ! j) + c * (\<Sum>i<k. y i * rows ! i ! j))) mod q"
    unfolding D by (rule mod_add_cong) (use lin0 sums in auto)
  also have "\<dots> = ((a ! j + (\<Sum>i<k. x i * rows ! i ! j))
      + c * (b ! j + (\<Sum>i<k. y i * rows ! i ! j))) mod q"
    by (simp add: algebra_simps)
  also have "\<dots> = (mac_rows red x rows k a ! j + c * mac_rows red y rows k b ! j) mod q"
    by (rule mod_add_cong [OF A [symmetric]]) (rule mod_mult_cong [OF refl B [symmetric]])
  finally show ?thesis .
qed

end

end
