(* ===== verification/Restr_Arith.thy ===== *)
theory Restr_Arith
  imports Residue_Arith
begin

unbundle bit_operations_syntax

text \<open>
  Arithmetic of the exponents, \<^verbatim>\<open>cross/Reference_Implementation/include/restr_arith.h\<close>.
  An element of the restricted group is represented by its discrete logarithm,
  a number modulo \<open>Z\<close> (a Mersenne number, 7 or 127), with \<open>Z\<close> itself as a
  second representation of zero.
\<close>

section \<open>The code\<close>

fun FZRED_SINGLE :: "rsdp_variant \<Rightarrow> nat \<Rightarrow> nat" where
  "FZRED_SINGLE RSDP x = (x AND 0x07) + drop_bit 3 x"
| "FZRED_SINGLE RSDPG x = (x AND 0x7f) + drop_bit 7 x"

definition FZRED_DOUBLE :: "rsdp_variant \<Rightarrow> nat \<Rightarrow> nat" where
  "FZRED_DOUBLE v x = FZRED_SINGLE v (FZRED_SINGLE v x)"

fun FZRED_OPPOSITE :: "rsdp_variant \<Rightarrow> nat \<Rightarrow> nat" where
  "FZRED_OPPOSITE RSDP x = x XOR 0x07"
| "FZRED_OPPOSITE RSDPG x = x XOR 0x7f"

fun FZ_DOUBLE_ZERO_NORM :: "rsdp_variant \<Rightarrow> nat \<Rightarrow> nat" where
  "FZ_DOUBLE_ZERO_NORM RSDP x = (x + drop_bit 3 (x + 1)) AND 0x07"
| "FZ_DOUBLE_ZERO_NORM RSDPG x = (x + drop_bit 7 (x + 1)) AND 0x7f"

definition fz_store :: "rsdp_variant \<Rightarrow> nat \<Rightarrow> nat" where
  \<comment> \<open>a store into an \<open>FZ_ELEM\<close>\<close>
  "fz_store v x = take_bit (FZ_ELEM_BITS v) x"

definition fz_dz_norm_n :: "cross_params \<Rightarrow> nat list \<Rightarrow> nat list" where
  "fz_dz_norm_n p v = map (\<lambda>i. fz_store (variant p) (FZ_DOUBLE_ZERO_NORM (variant p) (v ! i))) [0..<par_N p]"

definition fz_vec_sub_n :: "cross_params \<Rightarrow> nat list \<Rightarrow> nat list \<Rightarrow> nat list" where
  "fz_vec_sub_n p a b =
     map (\<lambda>i. fz_store (variant p) (FZRED_SINGLE (variant p) (a ! i + FZRED_OPPOSITE (variant p) (b ! i))))
       [0..<par_N p]"

definition is_fz_vec_in_restr_group_n :: "cross_params \<Rightarrow> nat list \<Rightarrow> bool" where
  "is_fz_vec_in_restr_group_n p inp =
     foldl (\<lambda>is_in_ok i. is_in_ok \<and> inp ! i < par_Z (variant p)) True [0..<par_N p]"

definition fz_inf_w_by_fz_matrix :: "cross_params \<Rightarrow> nat list \<Rightarrow> nat list list \<Rightarrow> nat list" where
  "fz_inf_w_by_fz_matrix p e W_mat =
     mac_rows (\<lambda>x. fz_store (variant p) (FZRED_DOUBLE (variant p) x)) (\<lambda>i. e ! i) W_mat (par_M p)
       (replicate (par_N p - par_M p) 0)
     @ take (par_M p) e"

definition fz_vec_sub_m :: "cross_params \<Rightarrow> nat list \<Rightarrow> nat list \<Rightarrow> nat list" where
  "fz_vec_sub_m p a b =
     map (\<lambda>i. fz_store (variant p) (FZRED_SINGLE (variant p) (a ! i + FZRED_OPPOSITE (variant p) (b ! i))))
       [0..<par_M p]"

definition is_fz_vec_in_restr_group_m :: "cross_params \<Rightarrow> nat list \<Rightarrow> bool" where
  "is_fz_vec_in_restr_group_m p inp =
     foldl (\<lambda>is_in_ok i. is_in_ok \<and> inp ! i < par_Z (variant p)) True [0..<par_M p]"

definition fz_dz_norm_m :: "cross_params \<Rightarrow> nat list \<Rightarrow> nat list" where
  "fz_dz_norm_m p v = map (\<lambda>i. fz_store (variant p) (FZ_DOUBLE_ZERO_NORM (variant p) (v ! i))) [0..<par_M p]"

section \<open>Reduction modulo a Mersenne number\<close>

lemma mersenne_fold_mod:
  fixes x :: nat
  shows "(x mod 2 ^ k + x div 2 ^ k) mod (2 ^ k - 1) = x mod (2 ^ k - 1)"
proof -
  have "x = x mod 2 ^ k + x div 2 ^ k * (1 + (2 ^ k - 1))"
    by (simp add: algebra_simps)
  then have "x mod (2 ^ k - 1) = (x mod 2 ^ k + x div 2 ^ k + x div 2 ^ k * (2 ^ k - 1)) mod (2 ^ k - 1)"
    by (simp add: algebra_simps)
  then show ?thesis by simp
qed

lemma fold3: "(x::nat) AND 0x07 = x mod 8" "drop_bit 3 (x::nat) = x div 8"
proof -
  have "x AND 7 = take_bit 3 x" using take_bit_eq_mask [of 3 x] by (simp add: mask_eq_exp_minus_1)
  then show "x AND 0x07 = x mod 8" by (simp add: take_bit_nat_def)
qed (simp add: drop_bit_nat_def)

lemma fold7: "(x::nat) AND 0x7f = x mod 128" "drop_bit 7 (x::nat) = x div 128"
proof -
  have "x AND 127 = take_bit 7 x" using take_bit_eq_mask [of 7 x] by (simp add: mask_eq_exp_minus_1)
  then show "x AND 0x7f = x mod 128" by (simp add: take_bit_nat_def)
qed (simp add: drop_bit_nat_def)

lemma FZRED_SINGLE_mod: "FZRED_SINGLE v x mod par_Z v = x mod par_Z v"
  using mersenne_fold_mod [of x 3] mersenne_fold_mod [of x 7]
  by (cases v) (simp_all add: fold3 fold7)

lemma mersenne_fold_le:
  fixes x m :: nat
  assumes "x + 2 \<le> 2 * m"
  shows "x mod m + x div m \<le> m - 1"
proof (cases "x < m")
  case False
  with assms have "x div m = 1" "x mod m = x - m"
    by (auto simp: le_mod_geq div_if)
  with assms False show ?thesis by simp
qed simp

lemma FZRED_SINGLE_le: "x \<le> 2 * par_Z v \<Longrightarrow> FZRED_SINGLE v x \<le> par_Z v"
  using mersenne_fold_le [of x 8] mersenne_fold_le [of x 128]
  by (cases v) (simp_all add: fold3 fold7)

lemma opp_table3: "list_all (\<lambda>x. x XOR 0x07 = 7 - (x::nat)) [0..<8]"
  by code_simp

lemma opp_table7: "list_all (\<lambda>x. x XOR 0x7f = 127 - (x::nat)) [0..<128]"
  by code_simp

lemma FZRED_OPPOSITE_eq: "x \<le> par_Z v \<Longrightarrow> FZRED_OPPOSITE v x = par_Z v - x"
  using opp_table3 opp_table7 by (cases v) (auto simp: list_all_iff)

lemma norm_table3: "list_all (\<lambda>x. (x + drop_bit 3 (x + 1)) AND 0x07 = x mod (7::nat)) [0..<8]"
  by code_simp

lemma norm_table7: "list_all (\<lambda>x. (x + drop_bit 7 (x + 1)) AND 0x7f = x mod (127::nat)) [0..<128]"
  by code_simp

lemma FZ_DOUBLE_ZERO_NORM_eq: "x \<le> par_Z v \<Longrightarrow> FZ_DOUBLE_ZERO_NORM v x = x mod par_Z v"
  using norm_table3 norm_table7 by (cases v) (auto simp: list_all_iff)

lemma fz_store_id [simp]: "x \<le> par_Z v \<Longrightarrow> fz_store v x = x"
  by (cases v) (auto simp: fz_store_def take_bit_nat_eq_self_iff)

section \<open>The exponents modulo \<open>Z\<close> as an instance of the interface\<close>

lemma FZRED_DOUBLE_mod: "FZRED_DOUBLE v x mod par_Z v = x mod par_Z v"
  by (simp add: FZRED_DOUBLE_def FZRED_SINGLE_mod)

lemma FZRED_DOUBLE_le: "x \<le> 127 + 127 * 127 \<Longrightarrow> FZRED_DOUBLE RSDPG x \<le> 127"
proof -
  assume "x \<le> 127 + 127 * 127"
  then have "x div 128 \<le> 127" "x mod 128 < 128" by (auto intro: order_trans [OF div_le_mono])
  then have "FZRED_SINGLE RSDPG x \<le> 254" by (simp add: fold7)
  then show ?thesis using FZRED_SINGLE_le [of "FZRED_SINGLE RSDPG x" RSDPG] by (simp add: FZRED_DOUBLE_def)
qed

interpretation fz: residue_arith 127 127 "\<lambda>x. fz_store RSDPG (FZRED_DOUBLE RSDPG x)"
  "\<lambda>x. fz_store RSDPG (FZ_DOUBLE_ZERO_NORM RSDPG x)"
proof unfold_locales
  fix x :: nat
  assume "x \<le> 127 + 127 * 127"
  then have "FZRED_DOUBLE RSDPG x \<le> 127" by (rule FZRED_DOUBLE_le)
  then show "fz_store RSDPG (FZRED_DOUBLE RSDPG x) mod 127 = x mod 127"
    and "fz_store RSDPG (FZRED_DOUBLE RSDPG x) \<le> 127"
    using FZRED_DOUBLE_mod [of RSDPG x] by simp_all
next
  fix x :: nat
  assume "x \<le> 127"
  then have "FZ_DOUBLE_ZERO_NORM RSDPG x = x mod 127"
    using FZ_DOUBLE_ZERO_NORM_eq [of x RSDPG] by simp
  moreover have "x mod 127 \<le> 127" by (simp add: less_imp_le)
  ultimately show "fz_store RSDPG (FZ_DOUBLE_ZERO_NORM RSDPG x) = x mod 127" by simp
next
  show "(1::nat) < 127" by simp
qed

section \<open>The operations on vectors\<close>

definition fz_ok :: "rsdp_variant \<Rightarrow> nat list \<Rightarrow> bool" where
  \<comment> \<open>every entry is a representation of an exponent, zero possibly redundant\<close>
  "fz_ok v xs \<longleftrightarrow> (\<forall>x \<in> set xs. x \<le> par_Z v)"

lemma length_fz [len_simps, simp]:
  "length (fz_dz_norm_n p v) = par_N p" "length (fz_vec_sub_n p a b) = par_N p"
  "length (fz_vec_sub_m p a b) = par_M p" "length (fz_dz_norm_m p v) = par_M p"
  "length e = par_M p \<Longrightarrow> length (fz_inf_w_by_fz_matrix p e W) = par_N p"
  using par_M_lt_N [of p]
  by (simp_all add: fz_dz_norm_n_def fz_vec_sub_n_def fz_vec_sub_m_def fz_dz_norm_m_def
      fz_inf_w_by_fz_matrix_def)

lemma fz_sub_elem:
  assumes "a \<le> par_Z v" and "b \<le> par_Z v"
  defines "r \<equiv> fz_store v (FZRED_SINGLE v (a + FZRED_OPPOSITE v b))"
  shows "r \<le> par_Z v" and "(r + b) mod par_Z v = a mod par_Z v"
proof -
  have sum: "a + FZRED_OPPOSITE v b \<le> 2 * par_Z v" using assms by (simp add: FZRED_OPPOSITE_eq)
  then have r: "r = FZRED_SINGLE v (a + FZRED_OPPOSITE v b)"
    by (simp add: r_def FZRED_SINGLE_le)
  with sum show "r \<le> par_Z v" by (simp add: FZRED_SINGLE_le)
  have "r mod par_Z v = (a + (par_Z v - b)) mod par_Z v"
    using assms(2) by (simp add: r FZRED_SINGLE_mod FZRED_OPPOSITE_eq)
  then have "(r + b) mod par_Z v = (a + (par_Z v - b) + b) mod par_Z v"
    by (metis mod_add_left_eq)
  with assms(2) show "(r + b) mod par_Z v = a mod par_Z v" by simp
qed

lemma is_fz_vec_in_restr_group_n_iff:
  "is_fz_vec_in_restr_group_n p xs \<longleftrightarrow> (\<forall>i < par_N p. xs ! i < par_Z (variant p))"
proof -
  have "foldl (\<lambda>ok i. ok \<and> Q i) b [0..<n] \<longleftrightarrow> b \<and> (\<forall>i<n. Q i)" for Q b n
    by (induction n) (auto simp: less_Suc_eq)
  then show ?thesis by (simp add: is_fz_vec_in_restr_group_n_def)
qed

lemma is_fz_vec_in_restr_group_m_iff:
  "is_fz_vec_in_restr_group_m p xs \<longleftrightarrow> (\<forall>i < par_M p. xs ! i < par_Z (variant p))"
proof -
  have "foldl (\<lambda>ok i. ok \<and> Q i) b [0..<n] \<longleftrightarrow> b \<and> (\<forall>i<n. Q i)" for Q b n
    by (induction n) (auto simp: less_Suc_eq)
  then show ?thesis by (simp add: is_fz_vec_in_restr_group_m_def)
qed

end
