(* ===== verification/Fp_Arith.thy ===== *)
theory Fp_Arith
  imports Restr_Arith
begin

unbundle bit_operations_syntax

text \<open>
  Arithmetic modulo \<open>P\<close>, \<^verbatim>\<open>cross/Reference_Implementation/include/fp_arith.h\<close>:
  Mersenne reduction modulo 127 for RSDP (with 127 as a second zero), the
  multiply-and-shift reduction modulo 509 for RSDP(G), the map from exponents
  to the restricted subgroup, and the vector operations of the protocol.
\<close>

section \<open>The code\<close>

text \<open>
  \<open>FPRED_SINGLE\<close> of RSDP(G) computes in \<open>uint64_t\<close>, hence the words; every
  other expression has operands of at most 16 bits and stays below \<open>2^32\<close>.
\<close>

fun FPRED_SINGLE :: "rsdp_variant \<Rightarrow> nat \<Rightarrow> nat" where
  "FPRED_SINGLE RSDP x = (x AND 0x7F) + drop_bit 7 x"
| "FPRED_SINGLE RSDPG x =
     unat ((of_nat x :: u64) - drop_bit 40 ((of_nat x :: u64) * 2160140723) * of_nat (par_P RSDPG))"

fun FPRED_DOUBLE :: "rsdp_variant \<Rightarrow> nat \<Rightarrow> nat" where
  "FPRED_DOUBLE RSDP x = FPRED_SINGLE RSDP (FPRED_SINGLE RSDP x)"
| "FPRED_DOUBLE RSDPG x = FPRED_SINGLE RSDPG x"

fun FPRED_OPPOSITE :: "rsdp_variant \<Rightarrow> nat \<Rightarrow> nat" where
  "FPRED_OPPOSITE RSDP x = x XOR 0x7F"
| "FPRED_OPPOSITE RSDPG x = FPRED_SINGLE RSDPG (par_P RSDPG - x)"

fun FP_DOUBLE_ZERO_NORM :: "rsdp_variant \<Rightarrow> nat \<Rightarrow> nat" where
  "FP_DOUBLE_ZERO_NORM RSDP x = (x + drop_bit 7 (x + 1)) AND 0x7F"
| "FP_DOUBLE_ZERO_NORM RSDPG x = x"

definition FP_ELEM_CMOV :: "nat \<Rightarrow> int \<Rightarrow> int \<Rightarrow> int" where
  \<comment> \<open>on promoted operands: \<open>((FP_ELEM)0 - b)\<close> is the \<open>int\<close> 0 or -1\<close>
  "FP_ELEM_CMOV b true_v false_v = ((0 - int b) AND true_v) OR (NOT (0 - int b) AND false_v)"

definition RESTR_TO_VAL_table :: "nat \<Rightarrow> nat" where
  "RESTR_TO_VAL_table x = take_bit (FP_ELEM_BITS RSDP) (drop_bit (8 * x) RESTR_G_TABLE)"

definition RESTR_TO_VAL_sm :: "nat \<Rightarrow> nat" where
  "RESTR_TO_VAL_sm x =
     (let res1 = take_bit 32 (nat (FP_ELEM_CMOV (drop_bit 0 x AND 1) 16 1 * FP_ELEM_CMOV (drop_bit 1 x AND 1) 256 1));
          res2 = take_bit 32 (nat (FP_ELEM_CMOV (drop_bit 2 x AND 1) 384 1 * FP_ELEM_CMOV (drop_bit 3 x AND 1) 355 1));
          res3 = take_bit 32 (nat (FP_ELEM_CMOV (drop_bit 4 x AND 1) 302 1 * FP_ELEM_CMOV (drop_bit 5 x AND 1) 93 1));
          res4 = take_bit 32 (nat (FP_ELEM_CMOV (drop_bit 6 x AND 1) 505 1))
      in take_bit (FP_ELEM_BITS RSDPG)
           (FPRED_SINGLE RSDPG
             (FPRED_SINGLE RSDPG (take_bit 32 (res1 * res2)) * FPRED_SINGLE RSDPG (take_bit 32 (res3 * res4)))))"

fun RESTR_TO_VAL :: "rsdp_variant \<Rightarrow> nat \<Rightarrow> nat" where
  "RESTR_TO_VAL RSDP x = RESTR_TO_VAL_table x"
| "RESTR_TO_VAL RSDPG x = RESTR_TO_VAL_sm x"

definition fp_store :: "rsdp_variant \<Rightarrow> nat \<Rightarrow> nat" where
  \<comment> \<open>a store into an \<open>FP_ELEM\<close>\<close>
  "fp_store v x = take_bit (FP_ELEM_BITS v) x"

definition fp_red :: "rsdp_variant \<Rightarrow> nat \<Rightarrow> nat" where
  "fp_red v x = fp_store v (FPRED_DOUBLE v x)"

definition fp_norm :: "rsdp_variant \<Rightarrow> nat \<Rightarrow> nat" where
  "fp_norm v x = fp_store v (FP_DOUBLE_ZERO_NORM v x)"

definition fp_dz_norm_synd :: "cross_params \<Rightarrow> nat list \<Rightarrow> nat list" where
  "fp_dz_norm_synd p v = map (\<lambda>i. fp_norm (variant p) (v ! i)) [0..<par_N p - par_K p]"

definition fp_dz_norm :: "cross_params \<Rightarrow> nat list \<Rightarrow> nat list" where
  "fp_dz_norm p v = map (\<lambda>i. fp_norm (variant p) (v ! i)) [0..<par_N p]"

definition restr_vec_by_fp_matrix :: "cross_params \<Rightarrow> nat list \<Rightarrow> nat list list \<Rightarrow> nat list" where
  "restr_vec_by_fp_matrix p e V_tr =
     mac_rows (fp_red (variant p)) (\<lambda>i. RESTR_TO_VAL (variant p) (e ! i)) V_tr (par_K p)
       (map (\<lambda>i. RESTR_TO_VAL (variant p) (e ! i)) [par_K p..<par_N p])"

definition fp_vec_by_fp_matrix :: "cross_params \<Rightarrow> nat list \<Rightarrow> nat list list \<Rightarrow> nat list" where
  "fp_vec_by_fp_matrix p e V_tr =
     mac_rows (fp_red (variant p)) (\<lambda>i. e ! i) V_tr (par_K p) (read_at (par_K p) (par_N p - par_K p) e)"

definition fp_vec_by_fp_vec_pointwise :: "cross_params \<Rightarrow> nat list \<Rightarrow> nat list \<Rightarrow> nat list" where
  "fp_vec_by_fp_vec_pointwise p in1 in2 = map (\<lambda>i. fp_red (variant p) (in1 ! i * in2 ! i)) [0..<par_N p]"

definition restr_by_fp_vec_pointwise :: "cross_params \<Rightarrow> nat list \<Rightarrow> nat list \<Rightarrow> nat list" where
  "restr_by_fp_vec_pointwise p in1 in2 =
     map (\<lambda>i. fp_red (variant p) (RESTR_TO_VAL (variant p) (in1 ! i) * in2 ! i)) [0..<par_N p]"

definition fp_vec_by_restr_vec_scaled :: "cross_params \<Rightarrow> nat list \<Rightarrow> nat \<Rightarrow> nat list \<Rightarrow> nat list" where
  "fp_vec_by_restr_vec_scaled p e chall_1 u_prime =
     map (\<lambda>i. fp_red (variant p) (u_prime ! i + RESTR_TO_VAL (variant p) (e ! i) * chall_1)) [0..<par_N p]"

definition fp_synd_minus_fp_vec_scaled ::
    "cross_params \<Rightarrow> nat list \<Rightarrow> nat \<Rightarrow> nat list \<Rightarrow> nat list" where
  "fp_synd_minus_fp_vec_scaled p synd chall_1 s =
     map (\<lambda>j. let tmp = fp_red (variant p) (s ! j * chall_1);
                  tmp = fp_norm (variant p) tmp
              in fp_store (variant p) (FPRED_SINGLE (variant p) (synd ! j + FPRED_OPPOSITE (variant p) tmp)))
       [0..<par_N p - par_K p]"

definition convert_restr_vec_to_fp :: "cross_params \<Rightarrow> nat list \<Rightarrow> nat list" where
  "convert_restr_vec_to_fp p inp = map (\<lambda>j. RESTR_TO_VAL (variant p) (inp ! j)) [0..<par_N p]"

section \<open>The reductions\<close>

lemma FPRED_SINGLE_127_mod: "FPRED_SINGLE RSDP x mod 127 = x mod 127"
  using mersenne_fold_mod [of x 7] by (simp add: fold7)

text \<open>
  The constant 2160140723 is the ceiling of \<open>2^40 / 509\<close>; its product with 509
  exceeds \<open>2^40\<close> by 231, small enough for every 32-bit argument.
\<close>

lemma magic_quotient:
  fixes x :: nat
  assumes "x < 2 ^ 32"
  shows "x * 2160140723 div 2 ^ 40 = x div 509"
proof -
  define a r where "a = x div 509" and "r = x mod 509"
  have x: "x = 509 * a + r" and r: "r < 509" by (simp_all add: a_def r_def)
  have "a \<le> 8438050" using assms x by simp
  then have "231 * a + r * 2160140723 < 2 ^ 40" using r by simp
  moreover have "x * 2160140723 = a * 2 ^ 40 + (231 * a + r * 2160140723)" by (simp add: x algebra_simps)
  ultimately show ?thesis by (simp add: a_def)
qed

lemma FPRED_SINGLE_509:
  assumes "x < 2 ^ 32"
  shows "FPRED_SINGLE RSDPG x = x mod 509"
proof -
  let ?w = "of_nat x :: u64"
  have q: "x div 509 * 509 \<le> x" by simp
  have prod: "unat (?w * 2160140723) = x * 2160140723"
    using assms by (simp add: unat_word_ariths unat_of_nat)
  have "unat (drop_bit 40 (?w * 2160140723)) = x div 509" (is "unat ?d = _")
    using magic_quotient [OF assms] by (simp add: unat_drop_bit_eq prod drop_bit_nat_def)
  from arg_cong [OF this, of "of_nat :: nat \<Rightarrow> u64"]
  have quo: "drop_bit 40 (?w * 2160140723) = (of_nat (x div 509) :: u64)" by simp
  have "?w - of_nat (x div 509) * of_nat 509 = of_nat (x - x div 509 * 509)"
    using q by (simp add: of_nat_diff)
  then have "FPRED_SINGLE RSDPG x = unat (of_nat (x - x div 509 * 509) :: u64)"
    by (simp add: quo)
  also have "x - x div 509 * 509 = x mod 509" by (simp add: minus_div_mult_eq_mod)
  finally show ?thesis using order_less_trans [of "x mod 509" 509 "2 ^ 64"]
    by (simp add: unat_of_nat)
qed

definition fp_top :: "rsdp_variant \<Rightarrow> nat" where
  \<comment> \<open>largest representative the code keeps: 127 is a second zero modulo 127\<close>
  "fp_top v = (case v of RSDP \<Rightarrow> 127 | RSDPG \<Rightarrow> 508)"

lemma fp_top_simps [simp]: "fp_top RSDP = 127" "fp_top RSDPG = 508"
  by (simp_all add: fp_top_def)

lemma fp_lt_top: "x < par_P v \<Longrightarrow> x \<le> fp_top v"
  by (cases v) simp_all

lemma fp_store_id [simp]: "x \<le> fp_top v \<Longrightarrow> fp_store v x = x"
  by (cases v) (auto simp: fp_store_def take_bit_nat_eq_self_iff)

lemma fp_red_127:
  assumes "x \<le> 127 + 127 * 127"
  shows "fp_red RSDP x mod 127 = x mod 127" and "fp_red RSDP x \<le> 127"
proof -
  have "x div 128 \<le> 127" "x mod 128 < 128" using assms by (auto intro: order_trans [OF div_le_mono])
  then have "FPRED_SINGLE RSDP x + 2 \<le> 2 * 128" by (simp add: fold7)
  then have le: "FPRED_DOUBLE RSDP x \<le> 127"
    using mersenne_fold_le [of "FPRED_SINGLE RSDP x" 128] by (simp add: fold7)
  then show "fp_red RSDP x \<le> 127" by (simp add: fp_red_def)
  have "FPRED_DOUBLE RSDP x mod 127 = x mod 127"
    unfolding FPRED_DOUBLE.simps FPRED_SINGLE_127_mod ..
  with le show "fp_red RSDP x mod 127 = x mod 127" by (simp add: fp_red_def del: FPRED_DOUBLE.simps)
qed

lemma fp_red_509:
  assumes "x < 2 ^ 32"
  shows "fp_red RSDPG x = x mod 509"
proof -
  have "x mod 509 \<le> 508" by (simp add: less_Suc_eq_le [symmetric])
  then show ?thesis
    using assms by (simp add: fp_red_def FPRED_SINGLE_509 del: FPRED_SINGLE.simps)
qed

lemma fp_norm_eq: "x \<le> fp_top v \<Longrightarrow> fp_norm v x = x mod par_P v"
proof (cases v)
  case RSDP
  assume "x \<le> fp_top v"
  then have "FP_DOUBLE_ZERO_NORM RSDP x = x mod 127"
    using norm_table7 RSDP by (auto simp: list_all_iff)
  moreover have "x mod 127 \<le> 127" by (simp add: less_imp_le)
  ultimately show ?thesis by (simp add: fp_norm_def RSDP del: FP_DOUBLE_ZERO_NORM.simps)
qed (simp add: fp_norm_def)

lemma fp_red_spec:
  assumes "x \<le> fp_top v + fp_top v * fp_top v"
  shows "fp_red v x mod par_P v = x mod par_P v \<and> fp_red v x \<le> fp_top v"
proof (cases v)
  case RSDP
  with assms fp_red_127 [of x] show ?thesis by simp
next
  case RSDPG
  with assms have "x < 2 ^ 32" by simp
  then have "fp_red RSDPG x = x mod 509" by (rule fp_red_509)
  with RSDPG show ?thesis by (simp add: less_Suc_eq_le [symmetric])
qed

lemma par_P_gt_1 [par_facts]: "1 < par_P v"
  by (cases v) simp_all

interpretation fp: residue_arith "par_P v" "fp_top v" "fp_red v" "fp_norm v" for v
  by unfold_locales (use fp_red_spec fp_norm_eq par_P_gt_1 in blast)+

lemma FP_OPPOSITE_eq:
  assumes "x < par_P v"
  shows "FPRED_OPPOSITE v x mod par_P v = (par_P v - x) mod par_P v" and "FPRED_OPPOSITE v x \<le> fp_top v"
proof -
  have "FPRED_OPPOSITE v x mod par_P v = (par_P v - x) mod par_P v \<and> FPRED_OPPOSITE v x \<le> fp_top v"
  proof (cases v)
    case RSDP
    then show ?thesis using assms opp_table7 by (auto simp: list_all_iff)
  next
    case RSDPG
    have "FPRED_OPPOSITE RSDPG x = (509 - x) mod 509"
      using FPRED_SINGLE_509 [of "509 - x"] by simp
    then show ?thesis
      by (simp add: RSDPG less_Suc_eq_le [symmetric] del: FPRED_OPPOSITE.simps)
  qed
  then show "FPRED_OPPOSITE v x mod par_P v = (par_P v - x) mod par_P v" and "FPRED_OPPOSITE v x \<le> fp_top v"
    by auto
qed

lemma FPRED_SINGLE_sum:
  assumes "a \<le> fp_top v" and "b \<le> fp_top v"
  shows "FPRED_SINGLE v (a + b) mod par_P v = (a + b) mod par_P v" and "FPRED_SINGLE v (a + b) \<le> fp_top v"
proof -
  have "FPRED_SINGLE v (a + b) mod par_P v = (a + b) mod par_P v \<and> FPRED_SINGLE v (a + b) \<le> fp_top v"
  proof (cases v)
    case RSDP
    then show ?thesis
      using assms mersenne_fold_le [of "a + b" 128] FPRED_SINGLE_127_mod [of "a + b"] by (simp add: fold7)
  next
    case RSDPG
    have "FPRED_SINGLE RSDPG (a + b) = (a + b) mod 509"
      using assms by (intro FPRED_SINGLE_509) (simp add: RSDPG)
    then show ?thesis by (simp add: RSDPG less_Suc_eq_le [symmetric] del: FPRED_SINGLE.simps)
  qed
  then show "FPRED_SINGLE v (a + b) mod par_P v = (a + b) mod par_P v" and "FPRED_SINGLE v (a + b) \<le> fp_top v"
    by auto
qed

end
