(* ===== verification/Zk_Algebra.thy ===== *)
theory Zk_Algebra
  imports Fp_Arith
begin

text \<open>
  The algebra behind the protocol: exponentiation maps sums of exponents to
  products, the syndrome map is linear, and therefore the value the verifier
  recomputes from a response equals the one the signer committed to. Stated
  over the vector operations of \<^verbatim>\<open>fp_arith.h\<close> and \<^verbatim>\<open>restr_arith.h\<close>, for both
  variants.
\<close>

section \<open>Exponentiation\<close>

definition restr_gen :: "rsdp_variant \<Rightarrow> nat" where
  "restr_gen v = bf_G_GEN (field_of v)"

lemma restr_gen_simps [simp]: "restr_gen RSDP = 2" "restr_gen RSDPG = 16"
  by (simp_all add: restr_gen_def rsdp_field_def rsdpg_field_def)

lemma restr_table_rsdp: "x < 8 \<Longrightarrow> RESTR_TO_VAL_table x = 2 ^ x mod 127"
proof -
  assume "x < 8"
  then have "x \<in> {0, 1, 2, 3, 4, 5, 6, 7}" by auto
  then show ?thesis
    by (auto simp: RESTR_TO_VAL_table_def RESTR_G_TABLE_def drop_bit_nat_def take_bit_nat_def)
qed

text \<open>
  The square-and-multiply of RSDP(G): each \<open>FP_ELEM_CMOV\<close> selects a precomputed
  square or 1, and the two intermediate reductions are exact.
\<close>

lemma FP_ELEM_CMOV_bit: "FP_ELEM_CMOV (b AND 1) t f = (if odd b then t else f)"
  by (cases "odd b") (simp_all add: FP_ELEM_CMOV_def and_one_eq odd_iff_mod_2_eq_one even_iff_mod_2_eq_zero)

definition sm_factor :: "nat \<Rightarrow> nat \<Rightarrow> nat \<Rightarrow> nat" where
  "sm_factor x i g = (if odd (x div 2 ^ i) then g else 1)"

lemma RESTR_TO_VAL_sm_factors:
  "RESTR_TO_VAL_sm x =
     (sm_factor x 0 16 * sm_factor x 1 256 * (sm_factor x 2 384 * sm_factor x 3 355) mod 509)
     * (sm_factor x 4 302 * sm_factor x 5 93 * sm_factor x 6 505 mod 509) mod 509"
proof -
  have cm: "nat (FP_ELEM_CMOV (drop_bit i x AND 1) (int g) 1) = sm_factor x i g" for i g
    unfolding FP_ELEM_CMOV_bit by (simp add: sm_factor_def drop_bit_nat_def)
  have cm2: "nat (FP_ELEM_CMOV (drop_bit i x AND 1) (int g) 1 * FP_ELEM_CMOV (drop_bit j x AND 1) (int h) 1)
      = sm_factor x i g * sm_factor x j h" for i j g h
    unfolding FP_ELEM_CMOV_bit by (simp add: sm_factor_def drop_bit_nat_def nat_mult_distrib)
  have bd: "sm_factor x i g \<le> g" if "0 < g" for i g
    using that by (simp add: sm_factor_def)
  let ?a = "sm_factor x 0 16 * sm_factor x 1 256" and ?b = "sm_factor x 2 384 * sm_factor x 3 355"
  let ?c = "sm_factor x 4 302 * sm_factor x 5 93" and ?d = "sm_factor x 6 505"
  have a: "?a \<le> 16 * 256" and b: "?b \<le> 384 * 355" and c: "?c \<le> 302 * 93" and d: "?d \<le> 505"
    by (intro mult_mono bd; simp)+
  have ab: "?a * ?b \<le> 16 * 256 * (384 * 355)" and cd: "?c * ?d \<le> 302 * 93 * 505"
    by (intro mult_mono a b c d; simp)+
  have t: "take_bit 32 n = n" if "n < 2 ^ 32" for n :: nat using that by (simp add: take_bit_nat_eq_self_iff)
  have r: "FPRED_SINGLE RSDPG (?a * ?b) = ?a * ?b mod 509" "FPRED_SINGLE RSDPG (?c * ?d) = ?c * ?d mod 509"
    by (intro FPRED_SINGLE_509; use ab cd in simp)+
  have m: "(n mod 509) * (k mod 509) < 2 ^ 32" for n k :: nat
    using mult_strict_mono [of "n mod 509" 509 "k mod 509" 509] by (simp add: order_less_trans)
  have s: "take_bit 16 (n mod 509) = n mod 509" for n :: nat
    using order_less_trans [of "n mod 509" 509 "2 ^ 16"] by (simp add: take_bit_nat_eq_self_iff)
  have t1: "take_bit 32 ?a = ?a" "take_bit 32 ?b = ?b" "take_bit 32 ?c = ?c" "take_bit 32 ?d = ?d"
    by (rule t; use a b c d in simp)+
  have t2: "take_bit 32 (?a * ?b) = ?a * ?b" "take_bit 32 (?c * ?d) = ?c * ?d"
    by (rule t; use ab cd in simp)+
  show ?thesis
    unfolding RESTR_TO_VAL_sm_def Let_def cm2 [of 0 16 1 256, unfolded of_nat_numeral]
      cm2 [of 2 384 3 355, unfolded of_nat_numeral] cm2 [of 4 302 5 93, unfolded of_nat_numeral]
      cm [of 6 505, unfolded of_nat_numeral] t1 t2 r FPRED_SINGLE_509 [OF m] base_field_simps s ..
qed

lemma sm_step:
  assumes "16 ^ 2 ^ k mod 509 = g mod (509::nat)"
  shows "16 ^ (x mod 2 ^ Suc k) mod 509 = (16 ^ (x mod 2 ^ k) * sm_factor x k g) mod 509"
proof -
  have x: "x mod 2 ^ Suc k = x mod 2 ^ k + 2 ^ k * (x div 2 ^ k mod 2)"
    using mod_mult2_eq [of x "2 ^ k" 2] by (simp add: mult.commute)
  show ?thesis
  proof (cases "odd (x div 2 ^ k)")
    case True
    then have "16 ^ (x mod 2 ^ Suc k) = 16 ^ (x mod 2 ^ k) * (16::nat) ^ 2 ^ k"
      unfolding x by (simp add: odd_iff_mod_2_eq_one power_add)
    also have "\<dots> mod 509 = 16 ^ (x mod 2 ^ k) * g mod 509"
      by (rule mod_mult_cong [OF refl assms])
    finally show ?thesis using True by (simp add: sm_factor_def)
  next
    case False
    then show ?thesis unfolding x by (simp add: sm_factor_def even_iff_mod_2_eq_zero)
  qed
qed

lemma restr_table_rsdpg:
  assumes "x < 128"
  shows "RESTR_TO_VAL_sm x = 16 ^ x mod 509"
proof -
  have step: "16 ^ (x mod 2 ^ l) mod 509 = (c * sm_factor x k g) mod 509"
    if "16 ^ (x mod 2 ^ k) mod 509 = c mod 509" and "16 ^ 2 ^ k mod 509 = g mod (509::nat)" and "l = Suc k"
    for k l c g
    using sm_step [OF that(2), of x] mod_mult_cong [OF that(1) refl, of "sm_factor x k g"] that(3) by simp
  have s1: "16 ^ (x mod 2 ^ 1) mod 509 = (1 * sm_factor x 0 16) mod 509"
    by (rule step [of 0 1]) simp_all
  have s2: "16 ^ (x mod 2 ^ 2) mod 509 = (1 * sm_factor x 0 16 * sm_factor x 1 256) mod 509"
    by (rule step [OF s1]) simp_all
  have s3: "16 ^ (x mod 2 ^ 3) mod 509 = (1 * sm_factor x 0 16 * sm_factor x 1 256 * sm_factor x 2 384) mod 509"
    by (rule step [OF s2]) simp_all
  have s4: "16 ^ (x mod 2 ^ 4) mod 509 = (1 * sm_factor x 0 16 * sm_factor x 1 256 * sm_factor x 2 384 * sm_factor x 3 355) mod 509"
    by (rule step [OF s3]) simp_all
  have s5: "16 ^ (x mod 2 ^ 5) mod 509 = (1 * sm_factor x 0 16 * sm_factor x 1 256 * sm_factor x 2 384 * sm_factor x 3 355 * sm_factor x 4 302) mod 509"
    by (rule step [OF s4]) simp_all
  have s6: "16 ^ (x mod 2 ^ 6) mod 509 = (1 * sm_factor x 0 16 * sm_factor x 1 256 * sm_factor x 2 384 * sm_factor x 3 355 * sm_factor x 4 302 * sm_factor x 5 93) mod 509"
    by (rule step [OF s5]) simp_all
  have s7: "16 ^ (x mod 2 ^ 7) mod 509 = (1 * sm_factor x 0 16 * sm_factor x 1 256 * sm_factor x 2 384 * sm_factor x 3 355 * sm_factor x 4 302 * sm_factor x 5 93 * sm_factor x 6 505) mod 509"
    by (rule step [OF s6]) simp_all
  have "x mod 2 ^ 7 = x" using assms by simp
  with s7 show ?thesis
    unfolding RESTR_TO_VAL_sm_factors by (simp add: mod_mult_eq mult.assoc)
qed

lemma RESTR_TO_VAL_eq: "x \<le> par_Z v \<Longrightarrow> RESTR_TO_VAL v x = restr_gen v ^ x mod par_P v"
  using restr_table_rsdp [of x] restr_table_rsdpg [of x] by (cases v) simp_all

lemma RESTR_TO_VAL_lt: "x \<le> par_Z v \<Longrightarrow> RESTR_TO_VAL v x < par_P v"
  using par_P_gt_1 [of v] by (simp add: RESTR_TO_VAL_eq)

lemma restr_gen_order: "restr_gen v ^ par_Z v mod par_P v = 1"
  by (cases v) simp_all

lemma restr_gen_pow_mod: "restr_gen v ^ (x mod par_Z v) mod par_P v = restr_gen v ^ x mod par_P v"
proof -
  have "restr_gen v ^ x = restr_gen v ^ (x mod par_Z v) * (restr_gen v ^ par_Z v) ^ (x div par_Z v)"
    by (metis mod_mult_div_eq power_add power_mult)
  also have "\<dots> mod par_P v = restr_gen v ^ (x mod par_Z v) * (1 ^ (x div par_Z v)) mod par_P v"
    by (rule mod_mult_cong) (use restr_gen_order [of v] par_P_gt_1 [of v] in
        \<open>simp_all add: power_mod [symmetric, of "restr_gen v ^ par_Z v"]\<close>)
  finally show ?thesis by simp
qed

lemma RESTR_TO_VAL_add:
  assumes "a \<le> par_Z v" "b \<le> par_Z v" "c \<le> par_Z v" and "(a + b) mod par_Z v = c mod par_Z v"
  shows "(RESTR_TO_VAL v a * RESTR_TO_VAL v b) mod par_P v = RESTR_TO_VAL v c"
proof -
  have "(RESTR_TO_VAL v a * RESTR_TO_VAL v b) mod par_P v = restr_gen v ^ (a + b) mod par_P v"
    using assms by (simp add: RESTR_TO_VAL_eq mod_mult_eq power_add)
  also have "\<dots> = restr_gen v ^ c mod par_P v"
    by (metis assms(4) restr_gen_pow_mod)
  finally show ?thesis using assms by (simp add: RESTR_TO_VAL_eq)
qed

lemma nat_mod_add_cancel:
  fixes a b c m :: nat
  assumes "(a + c) mod m = (b + c) mod m"
  shows "a mod m = b mod m"
proof (cases "a \<le> b")
  case True
  then have "m dvd (b + c) - (a + c)" using assms by (intro iffD1 [OF mod_eq_dvd_iff_nat]) simp_all
  with True show ?thesis using iffD2 [OF mod_eq_dvd_iff_nat, of a b m] by simp
next
  case False
  then have "m dvd (a + c) - (b + c)" using assms by (intro iffD1 [OF mod_eq_dvd_iff_nat]) simp_all
  with False show ?thesis using iffD2 [OF mod_eq_dvd_iff_nat, of b a m] by simp
qed

section \<open>Well-formed vectors and matrices\<close>

definition fp_canon :: "rsdp_variant \<Rightarrow> nat list \<Rightarrow> bool" where
  "fp_canon v xs \<longleftrightarrow> (\<forall>x \<in> set xs. x < par_P v)"

definition fz_canon :: "rsdp_variant \<Rightarrow> nat list \<Rightarrow> bool" where
  "fz_canon v xs \<longleftrightarrow> (\<forall>x \<in> set xs. x < par_Z v)"

definition mat_ok :: "nat \<Rightarrow> nat \<Rightarrow> nat \<Rightarrow> nat list list \<Rightarrow> bool" where
  \<comment> \<open>\<open>r\<close> rows of \<open>c\<close> entries below \<open>q\<close>\<close>
  "mat_ok q r c V \<longleftrightarrow> length V = r \<and> (\<forall>row \<in> set V. length row = c \<and> (\<forall>x \<in> set row. x < q))"

lemma mat_ok_nth: "mat_ok q r c V \<Longrightarrow> i < r \<Longrightarrow> j < c \<Longrightarrow> V ! i ! j < q"
  by (auto simp: mat_ok_def set_conv_nth)

lemma fp_canon_nth: "fp_canon v xs \<Longrightarrow> i < length xs \<Longrightarrow> xs ! i < par_P v"
  by (simp add: fp_canon_def)

lemma fz_canon_nth: "fz_canon v xs \<Longrightarrow> i < length xs \<Longrightarrow> xs ! i < par_Z v"
  by (simp add: fz_canon_def)

lemma fz_canon_ok: "fz_canon v xs \<Longrightarrow> fz_ok v xs"
  by (auto simp: fz_canon_def fz_ok_def less_imp_le)

lemma length_fp [len_simps, simp]:
  "length (fp_dz_norm_synd p v) = par_N p - par_K p" "length (fp_dz_norm p v) = par_N p"
  "length (restr_vec_by_fp_matrix p e V) = par_N p - par_K p"
  "length (fp_vec_by_fp_vec_pointwise p a b) = par_N p"
  "length (fp_vec_by_restr_vec_scaled p e c u) = par_N p"
  "length (fp_synd_minus_fp_vec_scaled p y c s) = par_N p - par_K p"
  "length (convert_restr_vec_to_fp p inp) = par_N p"
  "length e = par_N p \<Longrightarrow> length (fp_vec_by_fp_matrix p e V) = par_N p - par_K p"
  using par_K_lt_N [of p]
  by (simp_all add: fp_dz_norm_synd_def fp_dz_norm_def restr_vec_by_fp_matrix_def
      fp_vec_by_fp_vec_pointwise_def fp_vec_by_restr_vec_scaled_def fp_synd_minus_fp_vec_scaled_def
      convert_restr_vec_to_fp_def fp_vec_by_fp_matrix_def)

section \<open>The syndrome\<close>

definition syn_ok :: "cross_params \<Rightarrow> nat list \<Rightarrow> nat list list \<Rightarrow> bool" where
  "syn_ok p e V \<longleftrightarrow> length e = par_N p \<and> (\<forall>x \<in> set e. x \<le> fp_top (variant p))
     \<and> mat_ok (par_P (variant p)) (par_K p) (par_N p - par_K p) V"

lemma syn_nth_le:
  assumes "syn_ok p e V" and "j < par_N p - par_K p"
  shows "fp_vec_by_fp_matrix p e V ! j \<le> fp_top (variant p)"
proof -
  have e: "length e = par_N p" "\<And>i. i < par_N p \<Longrightarrow> e ! i \<le> fp_top (variant p)"
    and V: "\<And>i. i < par_K p \<Longrightarrow> V ! i ! j \<le> fp_top (variant p)"
    using assms mat_ok_nth fp_lt_top unfolding syn_ok_def by (fastforce simp: in_set_conv_nth)+
  show ?thesis unfolding fp_vec_by_fp_matrix_def
    using e V assms(2) par_K_lt_N [of p] by (intro conjunct2 [OF fp.mac_rows_nth]) auto
qed

text \<open>
  The syndrome of a vector that is, modulo \<open>P\<close>, a combination \<open>x + c y\<close> of two
  vectors is the same combination of their syndromes.
\<close>

lemma syndrome_linear:
  assumes "syn_ok p x V" "syn_ok p y V" "syn_ok p z V" and j: "j < par_N p - par_K p"
    and lin: "\<And>i. i < par_N p \<Longrightarrow> z ! i mod par_P (variant p) = (x ! i + c * y ! i) mod par_P (variant p)"
  shows "fp_vec_by_fp_matrix p z V ! j mod par_P (variant p)
       = (fp_vec_by_fp_matrix p x V ! j + c * fp_vec_by_fp_matrix p y V ! j) mod par_P (variant p)"
proof -
  have len: "length x = par_N p" "length y = par_N p" "length z = par_N p"
    and le: "\<And>i. i < par_N p \<Longrightarrow> x ! i \<le> fp_top (variant p)"
      "\<And>i. i < par_N p \<Longrightarrow> y ! i \<le> fp_top (variant p)"
      "\<And>i. i < par_N p \<Longrightarrow> z ! i \<le> fp_top (variant p)"
    using assms(1-3) by (auto simp: syn_ok_def)
  have V: "\<And>i. i < par_K p \<Longrightarrow> V ! i ! j \<le> fp_top (variant p)"
    using assms(1) j mat_ok_nth fp_lt_top unfolding syn_ok_def by blast
  show ?thesis unfolding fp_vec_by_fp_matrix_def
    using len le V j par_K_lt_N [of p] by (intro fp.mac_rows_linear) (auto simp: lin)
qed

lemma restr_syndrome_eq:
  assumes "length e = par_N p"
  shows "restr_vec_by_fp_matrix p e V = fp_vec_by_fp_matrix p (convert_restr_vec_to_fp p e) V"
proof -
  have start: "map (\<lambda>i. RESTR_TO_VAL (variant p) (e ! i)) [par_K p..<par_N p]
      = read_at (par_K p) (par_N p - par_K p) (convert_restr_vec_to_fp p e)"
    using par_K_lt_N [of p] by (intro nth_equalityI) (auto simp: convert_restr_vec_to_fp_def)
  have "mac_rows r (\<lambda>i. RESTR_TO_VAL (variant p) (e ! i)) V k s
      = mac_rows r (\<lambda>i. convert_restr_vec_to_fp p e ! i) V k s" if "k \<le> par_N p" for r k s
    using that by (induction k) (auto simp: convert_restr_vec_to_fp_def)
  with start par_K_lt_N [of p] show ?thesis
    by (simp add: restr_vec_by_fp_matrix_def fp_vec_by_fp_matrix_def)
qed

section \<open>The response identity\<close>

lemma resp_elem:
  assumes "vr \<le> par_Z w" "vs \<le> par_Z w" "e' \<le> par_Z w" "e \<le> par_Z w"
    and "(vr + e') mod par_Z w = e mod par_Z w" and "(vs + e') mod par_Z w = e mod par_Z w"
    and "u' < par_P w" and "c < par_P w"
  defines "y \<equiv> fp_norm w (fp_red w (u' + RESTR_TO_VAL w e' * c))"
  shows "fp_red w (RESTR_TO_VAL w vr * y) mod par_P w
       = (fp_red w (RESTR_TO_VAL w vs * u') + c * RESTR_TO_VAL w e) mod par_P w"
proof -
  let ?g = "RESTR_TO_VAL w"
  have top: "?g vr \<le> fp_top w" "?g vs \<le> fp_top w" "?g e' \<le> fp_top w" "u' \<le> fp_top w" "c \<le> fp_top w"
    using assms by (simp_all add: RESTR_TO_VAL_lt fp_lt_top)
  have "vr mod par_Z w = vs mod par_Z w"
    by (rule nat_mod_add_cancel [of _ e']) (simp add: assms(5,6))
  then have same: "?g vr = ?g vs"
    using assms(1,2) restr_gen_pow_mod [of w vr] restr_gen_pow_mod [of w vs]
    by (simp add: RESTR_TO_VAL_eq)
  have bd: "u' + ?g e' * c \<le> fp_top w + fp_top w * fp_top w" using top by (intro fp.prod_bound)
  then have y: "y = fp_red w (u' + ?g e' * c) mod par_P w" by (simp add: y_def fp_norm_eq fp.red_le)
  then have ymod: "y mod par_P w = (u' + ?g e' * c) mod par_P w" using bd by (simp add: fp.red_mod)
  have yle: "y \<le> fp_top w" using y par_P_gt_1 [of w] by (simp add: fp_lt_top)
  have "fp_red w (?g vr * y) mod par_P w = ?g vr * y mod par_P w"
    using top yle by (intro fp.red_mod fp.prod_bound0)
  also have "\<dots> = ?g vr * (u' + ?g e' * c) mod par_P w"
    by (rule mod_mult_cong [OF refl ymod])
  also have "?g vr * (u' + ?g e' * c) = ?g vs * u' + c * (?g vr * ?g e')"
    by (simp add: same algebra_simps)
  also have "\<dots> mod par_P w = (fp_red w (?g vs * u') + c * ?g e) mod par_P w"
  proof (rule mod_add_cong)
    show "?g vs * u' mod par_P w = fp_red w (?g vs * u') mod par_P w"
      using top fp.red_mod [of "?g vs * u'" w] fp.prod_bound0 [of "?g vs" w u'] by simp
    show "c * (?g vr * ?g e') mod par_P w = c * ?g e mod par_P w"
      using RESTR_TO_VAL_add [OF assms(1,3,4,5)] by (metis mod_mult_right_eq)
  qed
  finally show ?thesis .
qed

lemma resp_synd_elem:
  assumes "a \<le> fp_top w" "b \<le> fp_top w" "yH \<le> fp_top w" "c < par_P w"
    and "yH mod par_P w = (a + c * b) mod par_P w"
  defines "s \<equiv> fp_norm w b"
  shows "fp_norm w (fp_store w (FPRED_SINGLE w (fp_norm w yH + FPRED_OPPOSITE w (fp_norm w (fp_red w (s * c))))))
       = fp_norm w a"
proof -
  let ?t = "fp_norm w (fp_red w (s * c))"
  have P: "1 < par_P w" by (rule par_P_gt_1)
  have s: "s = b mod par_P w" using assms(2) by (simp add: s_def fp_norm_eq)
  have bd: "s * c \<le> fp_top w + fp_top w * fp_top w"
    using P by (intro fp.prod_bound0 fp_lt_top) (simp_all add: s assms(4))
  have "?t = s * c mod par_P w" using bd by (simp add: fp_norm_eq fp.red_le fp.red_mod)
  then have t: "?t = c * b mod par_P w" by (simp only: s mod_mult_left_eq mult.commute [of c])
  then have tlt: "?t < par_P w" using P by simp
  have yn: "fp_norm w yH = yH mod par_P w" using assms(3) by (rule fp_norm_eq)
  then have ynle: "fp_norm w yH \<le> fp_top w" using P by (simp add: fp_lt_top)
  let ?r = "FPRED_SINGLE w (fp_norm w yH + FPRED_OPPOSITE w ?t)"
  have rle: "?r \<le> fp_top w" by (intro FPRED_SINGLE_sum ynle FP_OPPOSITE_eq tlt)
  have "?r mod par_P w = (fp_norm w yH + FPRED_OPPOSITE w ?t) mod par_P w"
    by (intro FPRED_SINGLE_sum ynle FP_OPPOSITE_eq tlt)
  also have "\<dots> = ((a + c * b) + (par_P w - ?t)) mod par_P w"
    by (rule mod_add_cong) (simp_all add: yn assms(5) FP_OPPOSITE_eq tlt)
  also have "\<dots> = ((a + ?t) + (par_P w - ?t)) mod par_P w"
    by (rule mod_add_cong [OF mod_add_cong [OF refl] refl]) (simp add: t)
  also have "\<dots> = a mod par_P w" using tlt by simp
  finally show ?thesis using rle assms(1) by (simp add: fp_norm_eq)
qed

lemma fp_red_le_prod: "a \<le> fp_top w \<Longrightarrow> b \<le> fp_top w \<Longrightarrow> fp_red w (a * b) \<le> fp_top w"
  by (intro fp.red_le fp.prod_bound0)

lemma convert_le: "fz_ok (variant p) xs \<Longrightarrow> length xs = par_N p \<Longrightarrow> i < par_N p \<Longrightarrow>
    convert_restr_vec_to_fp p xs ! i \<le> fp_top (variant p)"
  by (simp add: convert_restr_vec_to_fp_def fz_ok_def RESTR_TO_VAL_lt fp_lt_top)

lemma syn_okI:
  "length x = par_N p \<Longrightarrow> (\<And>i. i < par_N p \<Longrightarrow> x ! i \<le> fp_top (variant p)) \<Longrightarrow>
   mat_ok (par_P (variant p)) (par_K p) (par_N p - par_K p) V \<Longrightarrow> syn_ok p x V"
  by (auto simp: syn_ok_def in_set_conv_nth)

lemma response_identity:
  assumes len: "length e = par_N p" "length e' = par_N p" "length u' = par_N p"
      "length vr = par_N p" "length vs = par_N p"
    and ok: "fz_ok (variant p) e" "fz_ok (variant p) e'" "fz_ok (variant p) vr" "fz_ok (variant p) vs"
    and rel: "\<And>i. i < par_N p \<Longrightarrow> (vr ! i + e' ! i) mod par_Z (variant p) = e ! i mod par_Z (variant p)"
      "\<And>i. i < par_N p \<Longrightarrow> (vs ! i + e' ! i) mod par_Z (variant p) = e ! i mod par_Z (variant p)"
    and u': "fp_canon (variant p) u'" and c: "c < par_P (variant p)"
    and V: "mat_ok (par_P (variant p)) (par_K p) (par_N p - par_K p) V"
  defines "y \<equiv> fp_dz_norm p (fp_vec_by_restr_vec_scaled p e' c u')"
    and "s \<equiv> fp_dz_norm_synd p (restr_vec_by_fp_matrix p e V)"
  shows "fp_dz_norm_synd p (fp_synd_minus_fp_vec_scaled p
           (fp_dz_norm_synd p (fp_vec_by_fp_matrix p
             (fp_vec_by_fp_vec_pointwise p (convert_restr_vec_to_fp p vr) y) V)) c s)
       = fp_dz_norm_synd p (fp_vec_by_fp_matrix p
           (fp_vec_by_fp_vec_pointwise p (convert_restr_vec_to_fp p vs) u') V)"
    (is "?verifier = ?signer")
proof (rule nth_equalityI)
  let ?w = "variant p" and ?E = "convert_restr_vec_to_fp p e"
  let ?y' = "fp_vec_by_fp_vec_pointwise p (convert_restr_vec_to_fp p vr) y"
  let ?u = "fp_vec_by_fp_vec_pointwise p (convert_restr_vec_to_fp p vs) u'"
  show "length ?verifier = length ?signer" by simp
  fix j
  assume "j < length ?verifier"
  then have j: "j < par_N p - par_K p" by simp
  have fz: "e ! i \<le> par_Z ?w" "e' ! i \<le> par_Z ?w" "vr ! i \<le> par_Z ?w" "vs ! i \<le> par_Z ?w"
    if "i < par_N p" for i using ok len that by (auto simp: fz_ok_def)
  have u'lt: "u' ! i < par_P ?w" if "i < par_N p" for i using u' len that by (simp add: fp_canon_nth)
  have yi: "y ! i = fp_norm ?w (fp_red ?w (u' ! i + RESTR_TO_VAL ?w (e' ! i) * c))" if "i < par_N p" for i
    using that by (simp add: y_def fp_dz_norm_def fp_vec_by_restr_vec_scaled_def)
  have yle: "y ! i \<le> fp_top ?w" if "i < par_N p" for i
  proof -
    have "fp_red ?w (u' ! i + RESTR_TO_VAL ?w (e' ! i) * c) \<le> fp_top ?w"
      using that fz u'lt c by (intro fp.red_le fp.prod_bound fp_lt_top) (auto simp: RESTR_TO_VAL_lt)
    then show ?thesis using yi [OF that] par_P_gt_1 [of ?w] by (simp add: fp_norm_eq fp_lt_top)
  qed
  have y': "?y' ! i = fp_red ?w (RESTR_TO_VAL ?w (vr ! i) * y ! i)"
    and u: "?u ! i = fp_red ?w (RESTR_TO_VAL ?w (vs ! i) * u' ! i)"
    and E: "?E ! i = RESTR_TO_VAL ?w (e ! i)" if "i < par_N p" for i
    using that by (simp_all add: fp_vec_by_fp_vec_pointwise_def convert_restr_vec_to_fp_def)
  have oks: "syn_ok p ?y' V" "syn_ok p ?u V" "syn_ok p ?E V"
    by (intro syn_okI V; simp add: y' u E fz yle u'lt fp_red_le_prod fp_lt_top RESTR_TO_VAL_lt)+
  have lin: "?y' ! i mod par_P ?w = (?u ! i + c * ?E ! i) mod par_P ?w" if "i < par_N p" for i
    unfolding y' [OF that] u [OF that] E [OF that] yi [OF that]
    by (rule resp_elem) (use that fz rel u'lt c in auto)
  let ?a = "fp_vec_by_fp_matrix p ?u V ! j" and ?b = "fp_vec_by_fp_matrix p ?E V ! j"
    and ?yH = "fp_vec_by_fp_matrix p ?y' V ! j"
  have yH: "?yH mod par_P ?w = (?a + c * ?b) mod par_P ?w"
    using syndrome_linear [OF oks(2,3,1) j lin] .
  have "?verifier ! j = fp_norm ?w (fp_store ?w (FPRED_SINGLE ?w
      (fp_norm ?w ?yH + FPRED_OPPOSITE ?w (fp_norm ?w (fp_red ?w (fp_norm ?w ?b * c))))))"
    using j len(1) by (simp add: fp_dz_norm_synd_def fp_synd_minus_fp_vec_scaled_def s_def
        restr_syndrome_eq Let_def)
  also have "\<dots> = fp_norm ?w ?a"
    using oks j c yH by (intro resp_synd_elem syn_nth_le)
  also have "\<dots> = ?signer ! j"
    using j by (simp add: fp_dz_norm_synd_def)
  finally show "?verifier ! j = ?signer ! j" .
qed

section \<open>The exponents of the response\<close>

lemma fz_vec_sub_n_spec:
  assumes "fz_ok (variant p) a" "fz_ok (variant p) b" "length a = par_N p" "length b = par_N p"
  shows "fz_ok (variant p) (fz_vec_sub_n p a b)"
    and "i < par_N p \<Longrightarrow> (fz_vec_sub_n p a b ! i + b ! i) mod par_Z (variant p) = a ! i mod par_Z (variant p)"
proof -
  have le: "a ! i \<le> par_Z (variant p)" "b ! i \<le> par_Z (variant p)" if "i < par_N p" for i
    using assms that by (auto simp: fz_ok_def)
  show "fz_ok (variant p) (fz_vec_sub_n p a b)"
    using le fz_sub_elem(1) by (auto simp: fz_ok_def fz_vec_sub_n_def)
  show "i < par_N p \<Longrightarrow> (fz_vec_sub_n p a b ! i + b ! i) mod par_Z (variant p) = a ! i mod par_Z (variant p)"
    using le [of i] fz_sub_elem(2) by (simp add: fz_vec_sub_n_def)
qed

lemma fz_vec_sub_m_spec:
  assumes "fz_ok (variant p) a" "fz_ok (variant p) b" "length a = par_M p" "length b = par_M p"
  shows "fz_ok (variant p) (fz_vec_sub_m p a b)"
    and "i < par_M p \<Longrightarrow> (fz_vec_sub_m p a b ! i + b ! i) mod par_Z (variant p) = a ! i mod par_Z (variant p)"
proof -
  have le: "a ! i \<le> par_Z (variant p)" "b ! i \<le> par_Z (variant p)" if "i < par_M p" for i
    using assms that by (auto simp: fz_ok_def)
  show "fz_ok (variant p) (fz_vec_sub_m p a b)"
    using le fz_sub_elem(1) by (auto simp: fz_ok_def fz_vec_sub_m_def)
  show "i < par_M p \<Longrightarrow> (fz_vec_sub_m p a b ! i + b ! i) mod par_Z (variant p) = a ! i mod par_Z (variant p)"
    using le [of i] fz_sub_elem(2) by (simp add: fz_vec_sub_m_def)
qed

lemma fz_norm_elem:
  assumes "x \<le> par_Z w"
  shows "fz_store w (FZ_DOUBLE_ZERO_NORM w x) = x mod par_Z w"
proof -
  have "x mod par_Z w \<le> par_Z w" by (cases w) (simp_all add: less_imp_le)
  then show ?thesis using assms by (simp add: FZ_DOUBLE_ZERO_NORM_eq)
qed

lemma fz_dz_norm_n_spec:
  assumes "fz_ok (variant p) v" "length v = par_N p"
  shows "fz_canon (variant p) (fz_dz_norm_n p v)"
    and "i < par_N p \<Longrightarrow> fz_dz_norm_n p v ! i = v ! i mod par_Z (variant p)"
proof -
  have le: "v ! i \<le> par_Z (variant p)" if "i < par_N p" for i using assms that by (auto simp: fz_ok_def)
  have pos: "0 < par_Z (variant p)" by (cases "variant p") simp_all
  show "i < par_N p \<Longrightarrow> fz_dz_norm_n p v ! i = v ! i mod par_Z (variant p)"
    using le fz_norm_elem by (simp add: fz_dz_norm_n_def)
  show "fz_canon (variant p) (fz_dz_norm_n p v)"
    using le fz_norm_elem pos by (auto simp: fz_canon_def fz_dz_norm_n_def)
qed

lemma fz_dz_norm_m_spec:
  assumes "fz_ok (variant p) v" "length v = par_M p"
  shows "fz_canon (variant p) (fz_dz_norm_m p v)"
    and "i < par_M p \<Longrightarrow> fz_dz_norm_m p v ! i = v ! i mod par_Z (variant p)"
proof -
  have le: "v ! i \<le> par_Z (variant p)" if "i < par_M p" for i using assms that by (auto simp: fz_ok_def)
  have pos: "0 < par_Z (variant p)" by (cases "variant p") simp_all
  show "i < par_M p \<Longrightarrow> fz_dz_norm_m p v ! i = v ! i mod par_Z (variant p)"
    using le fz_norm_elem by (simp add: fz_dz_norm_m_def)
  show "fz_canon (variant p) (fz_dz_norm_m p v)"
    using le fz_norm_elem pos by (auto simp: fz_canon_def fz_dz_norm_m_def)
qed

end
