(* ===== verification/Pack_Unpack.thy ===== *)
theory Pack_Unpack
  imports Parameters
begin

unbundle bit_operations_syntax

text \<open>
  Bit packing of vectors, \<^verbatim>\<open>cross/Reference_Implementation/lib/pack_unpack.c\<close>:
  elements of 3, 7 or 9 bits are written back to back into bytes, eight elements
  per loop iteration and an unrolled tail for the remaining ones. The
  reference is the bit stream: bit \<open>n\<close> of the output is bit \<open>n mod k\<close> of element
  \<open>n div k\<close>. Two interfaces carry the proofs: \<open>group_codec\<close> (what one iteration
  and one tail do) and \<open>bit_codec\<close> (what the whole routines do), the second
  extended by \<open>checked_codec\<close>, a decoder whose flag tells whether the padding
  bits are zero. The 7-bit and 9-bit decoders satisfy it; the 3-bit one does not,
  its mask is always 0.
\<close>

section \<open>The code\<close>

abbreviation store8 :: "nat \<Rightarrow> byte" where
  \<comment> \<open>a store of a promoted value into a \<open>uint8_t\<close>\<close>
  "store8 \<equiv> of_nat"

definition pack_3_group :: "nat list \<Rightarrow> nat \<Rightarrow> bytes" where
  "pack_3_group inp i =
    [store8 ((inp ! (i * 8)) OR (push_bit 3 (inp ! (i * 8 + 1))) OR (push_bit 6 (inp ! (i * 8 + 2)))),
     store8 ((drop_bit 2 (inp ! (i * 8 + 2))) OR (push_bit 1 (inp ! (i * 8 + 3))) OR (push_bit 4 (inp ! (i * 8 + 4))) OR (push_bit 7 (inp ! (i * 8 + 5)))),
     store8 ((drop_bit 1 (inp ! (i * 8 + 5))) OR (push_bit 2 (inp ! (i * 8 + 6))) OR (push_bit 5 (inp ! (i * 8 + 7))))]"

definition pack_3_rest :: "nat list \<Rightarrow> nat \<Rightarrow> nat \<Rightarrow> bytes" where
  "pack_3_rest inp i n_remainder =
   (if n_remainder = 1 then
      [store8 (inp ! (i * 8))]
    else if n_remainder = 2 then
      [store8 ((inp ! (i * 8)) OR (push_bit 3 (inp ! (i * 8 + 1))))]
    else if n_remainder = 3 then
      [store8 ((inp ! (i * 8)) OR (push_bit 3 (inp ! (i * 8 + 1))) OR (push_bit 6 (inp ! (i * 8 + 2)))),
       store8 (drop_bit 2 (inp ! (i * 8 + 2)))]
    else if n_remainder = 4 then
      [store8 ((inp ! (i * 8)) OR (push_bit 3 (inp ! (i * 8 + 1))) OR (push_bit 6 (inp ! (i * 8 + 2)))),
       store8 ((drop_bit 2 (inp ! (i * 8 + 2))) OR (push_bit 1 (inp ! (i * 8 + 3))))]
    else if n_remainder = 5 then
      [store8 ((inp ! (i * 8)) OR (push_bit 3 (inp ! (i * 8 + 1))) OR (push_bit 6 (inp ! (i * 8 + 2)))),
       store8 ((drop_bit 2 (inp ! (i * 8 + 2))) OR (push_bit 1 (inp ! (i * 8 + 3))) OR (push_bit 4 (inp ! (i * 8 + 4))))]
    else if n_remainder = 6 then
      [store8 ((inp ! (i * 8)) OR (push_bit 3 (inp ! (i * 8 + 1))) OR (push_bit 6 (inp ! (i * 8 + 2)))),
       store8 ((drop_bit 2 (inp ! (i * 8 + 2))) OR (push_bit 1 (inp ! (i * 8 + 3))) OR (push_bit 4 (inp ! (i * 8 + 4))) OR (push_bit 7 (inp ! (i * 8 + 5)))),
       store8 (drop_bit 1 (inp ! (i * 8 + 5)))]
    else if n_remainder = 7 then
      [store8 ((inp ! (i * 8)) OR (push_bit 3 (inp ! (i * 8 + 1))) OR (push_bit 6 (inp ! (i * 8 + 2)))),
       store8 ((drop_bit 2 (inp ! (i * 8 + 2))) OR (push_bit 1 (inp ! (i * 8 + 3))) OR (push_bit 4 (inp ! (i * 8 + 4))) OR (push_bit 7 (inp ! (i * 8 + 5)))),
       store8 ((drop_bit 1 (inp ! (i * 8 + 5))) OR (push_bit 2 (inp ! (i * 8 + 6))))]
    else [])"

definition generic_pack_3_bit :: "nat \<Rightarrow> nat \<Rightarrow> nat list \<Rightarrow> bytes" where
  "generic_pack_3_bit outlen inlen inp =
     write_at 0 (concat (map (pack_3_group inp) [0..<inlen div 8])
                 @ pack_3_rest inp (inlen div 8) (inlen AND 0x7))
       (replicate outlen 0)"

definition pack_7_group :: "nat list \<Rightarrow> nat \<Rightarrow> bytes" where
  "pack_7_group inp i =
    [store8 ((inp ! (i * 8)) OR (push_bit 7 (inp ! (i * 8 + 1)))),
     store8 ((drop_bit 1 (inp ! (i * 8 + 1))) OR (push_bit 6 (inp ! (i * 8 + 2)))),
     store8 ((drop_bit 2 (inp ! (i * 8 + 2))) OR (push_bit 5 (inp ! (i * 8 + 3)))),
     store8 ((drop_bit 3 (inp ! (i * 8 + 3))) OR (push_bit 4 (inp ! (i * 8 + 4)))),
     store8 ((drop_bit 4 (inp ! (i * 8 + 4))) OR (push_bit 3 (inp ! (i * 8 + 5)))),
     store8 ((drop_bit 5 (inp ! (i * 8 + 5))) OR (push_bit 2 (inp ! (i * 8 + 6)))),
     store8 ((drop_bit 6 (inp ! (i * 8 + 6))) OR (push_bit 1 (inp ! (i * 8 + 7))))]"

definition pack_7_rest :: "nat list \<Rightarrow> nat \<Rightarrow> nat \<Rightarrow> bytes" where
  "pack_7_rest inp i n_remainder =
   (if n_remainder = 1 then
      [store8 (inp ! (i * 8))]
    else if n_remainder = 2 then
      [store8 ((inp ! (i * 8)) OR (push_bit 7 (inp ! (i * 8 + 1)))),
       store8 (drop_bit 1 (inp ! (i * 8 + 1)))]
    else if n_remainder = 3 then
      [store8 ((inp ! (i * 8)) OR (push_bit 7 (inp ! (i * 8 + 1)))),
       store8 ((drop_bit 1 (inp ! (i * 8 + 1))) OR (push_bit 6 (inp ! (i * 8 + 2)))),
       store8 (drop_bit 2 (inp ! (i * 8 + 2)))]
    else if n_remainder = 4 then
      [store8 ((inp ! (i * 8)) OR (push_bit 7 (inp ! (i * 8 + 1)))),
       store8 ((drop_bit 1 (inp ! (i * 8 + 1))) OR (push_bit 6 (inp ! (i * 8 + 2)))),
       store8 ((drop_bit 2 (inp ! (i * 8 + 2))) OR (push_bit 5 (inp ! (i * 8 + 3)))),
       store8 (drop_bit 3 (inp ! (i * 8 + 3)))]
    else if n_remainder = 5 then
      [store8 ((inp ! (i * 8)) OR (push_bit 7 (inp ! (i * 8 + 1)))),
       store8 ((drop_bit 1 (inp ! (i * 8 + 1))) OR (push_bit 6 (inp ! (i * 8 + 2)))),
       store8 ((drop_bit 2 (inp ! (i * 8 + 2))) OR (push_bit 5 (inp ! (i * 8 + 3)))),
       store8 ((drop_bit 3 (inp ! (i * 8 + 3))) OR (push_bit 4 (inp ! (i * 8 + 4)))),
       store8 (drop_bit 4 (inp ! (i * 8 + 4)))]
    else if n_remainder = 6 then
      [store8 ((inp ! (i * 8)) OR (push_bit 7 (inp ! (i * 8 + 1)))),
       store8 ((drop_bit 1 (inp ! (i * 8 + 1))) OR (push_bit 6 (inp ! (i * 8 + 2)))),
       store8 ((drop_bit 2 (inp ! (i * 8 + 2))) OR (push_bit 5 (inp ! (i * 8 + 3)))),
       store8 ((drop_bit 3 (inp ! (i * 8 + 3))) OR (push_bit 4 (inp ! (i * 8 + 4)))),
       store8 ((drop_bit 4 (inp ! (i * 8 + 4))) OR (push_bit 3 (inp ! (i * 8 + 5)))),
       store8 (drop_bit 5 (inp ! (i * 8 + 5)))]
    else if n_remainder = 7 then
      [store8 ((inp ! (i * 8)) OR (push_bit 7 (inp ! (i * 8 + 1)))),
       store8 ((drop_bit 1 (inp ! (i * 8 + 1))) OR (push_bit 6 (inp ! (i * 8 + 2)))),
       store8 ((drop_bit 2 (inp ! (i * 8 + 2))) OR (push_bit 5 (inp ! (i * 8 + 3)))),
       store8 ((drop_bit 3 (inp ! (i * 8 + 3))) OR (push_bit 4 (inp ! (i * 8 + 4)))),
       store8 ((drop_bit 4 (inp ! (i * 8 + 4))) OR (push_bit 3 (inp ! (i * 8 + 5)))),
       store8 ((drop_bit 5 (inp ! (i * 8 + 5))) OR (push_bit 2 (inp ! (i * 8 + 6)))),
       store8 (drop_bit 6 (inp ! (i * 8 + 6)))]
    else [])"

definition generic_pack_7_bit :: "nat \<Rightarrow> nat \<Rightarrow> nat list \<Rightarrow> bytes" where
  "generic_pack_7_bit outlen inlen inp =
     write_at 0 (concat (map (pack_7_group inp) [0..<inlen div 8])
                 @ pack_7_rest inp (inlen div 8) (inlen AND 0x7))
       (replicate outlen 0)"

definition pack_9_group :: "nat list \<Rightarrow> nat \<Rightarrow> bytes" where
  "pack_9_group inp i =
    [store8 (inp ! (i * 8)),
     store8 ((drop_bit 8 (inp ! (i * 8))) OR (push_bit 1 (inp ! (i * 8 + 1)))),
     store8 ((drop_bit 7 (inp ! (i * 8 + 1))) OR (push_bit 2 (inp ! (i * 8 + 2)))),
     store8 ((drop_bit 6 (inp ! (i * 8 + 2))) OR (push_bit 3 (inp ! (i * 8 + 3)))),
     store8 ((drop_bit 5 (inp ! (i * 8 + 3))) OR (push_bit 4 (inp ! (i * 8 + 4)))),
     store8 ((drop_bit 4 (inp ! (i * 8 + 4))) OR (push_bit 5 (inp ! (i * 8 + 5)))),
     store8 ((drop_bit 3 (inp ! (i * 8 + 5))) OR (push_bit 6 (inp ! (i * 8 + 6)))),
     store8 ((drop_bit 2 (inp ! (i * 8 + 6))) OR (push_bit 7 (inp ! (i * 8 + 7)))),
     store8 (drop_bit 1 (inp ! (i * 8 + 7)))]"

definition pack_9_rest :: "nat list \<Rightarrow> nat \<Rightarrow> nat \<Rightarrow> bytes" where
  "pack_9_rest inp i n_remainder =
   (if n_remainder = 1 then
      [store8 (inp ! (i * 8)),
       store8 (drop_bit 8 (inp ! (i * 8)))]
    else if n_remainder = 2 then
      [store8 (inp ! (i * 8)),
       store8 ((drop_bit 8 (inp ! (i * 8))) OR (push_bit 1 (inp ! (i * 8 + 1)))),
       store8 (drop_bit 7 (inp ! (i * 8 + 1)))]
    else if n_remainder = 3 then
      [store8 (inp ! (i * 8)),
       store8 ((drop_bit 8 (inp ! (i * 8))) OR (push_bit 1 (inp ! (i * 8 + 1)))),
       store8 ((drop_bit 7 (inp ! (i * 8 + 1))) OR (push_bit 2 (inp ! (i * 8 + 2)))),
       store8 (drop_bit 6 (inp ! (i * 8 + 2)))]
    else if n_remainder = 4 then
      [store8 (inp ! (i * 8)),
       store8 ((drop_bit 8 (inp ! (i * 8))) OR (push_bit 1 (inp ! (i * 8 + 1)))),
       store8 ((drop_bit 7 (inp ! (i * 8 + 1))) OR (push_bit 2 (inp ! (i * 8 + 2)))),
       store8 ((drop_bit 6 (inp ! (i * 8 + 2))) OR (push_bit 3 (inp ! (i * 8 + 3)))),
       store8 (drop_bit 5 (inp ! (i * 8 + 3)))]
    else if n_remainder = 5 then
      [store8 (inp ! (i * 8)),
       store8 ((drop_bit 8 (inp ! (i * 8))) OR (push_bit 1 (inp ! (i * 8 + 1)))),
       store8 ((drop_bit 7 (inp ! (i * 8 + 1))) OR (push_bit 2 (inp ! (i * 8 + 2)))),
       store8 ((drop_bit 6 (inp ! (i * 8 + 2))) OR (push_bit 3 (inp ! (i * 8 + 3)))),
       store8 ((drop_bit 5 (inp ! (i * 8 + 3))) OR (push_bit 4 (inp ! (i * 8 + 4)))),
       store8 (drop_bit 4 (inp ! (i * 8 + 4)))]
    else if n_remainder = 6 then
      [store8 (inp ! (i * 8)),
       store8 ((drop_bit 8 (inp ! (i * 8))) OR (push_bit 1 (inp ! (i * 8 + 1)))),
       store8 ((drop_bit 7 (inp ! (i * 8 + 1))) OR (push_bit 2 (inp ! (i * 8 + 2)))),
       store8 ((drop_bit 6 (inp ! (i * 8 + 2))) OR (push_bit 3 (inp ! (i * 8 + 3)))),
       store8 ((drop_bit 5 (inp ! (i * 8 + 3))) OR (push_bit 4 (inp ! (i * 8 + 4)))),
       store8 ((drop_bit 4 (inp ! (i * 8 + 4))) OR (push_bit 5 (inp ! (i * 8 + 5)))),
       store8 (drop_bit 3 (inp ! (i * 8 + 5)))]
    else if n_remainder = 7 then
      [store8 (inp ! (i * 8)),
       store8 ((drop_bit 8 (inp ! (i * 8))) OR (push_bit 1 (inp ! (i * 8 + 1)))),
       store8 ((drop_bit 7 (inp ! (i * 8 + 1))) OR (push_bit 2 (inp ! (i * 8 + 2)))),
       store8 ((drop_bit 6 (inp ! (i * 8 + 2))) OR (push_bit 3 (inp ! (i * 8 + 3)))),
       store8 ((drop_bit 5 (inp ! (i * 8 + 3))) OR (push_bit 4 (inp ! (i * 8 + 4)))),
       store8 ((drop_bit 4 (inp ! (i * 8 + 4))) OR (push_bit 5 (inp ! (i * 8 + 5)))),
       store8 ((drop_bit 3 (inp ! (i * 8 + 5))) OR (push_bit 6 (inp ! (i * 8 + 6)))),
       store8 (drop_bit 2 (inp ! (i * 8 + 6)))]
    else [])"

definition generic_pack_9_bit :: "nat \<Rightarrow> nat \<Rightarrow> nat list \<Rightarrow> bytes" where
  "generic_pack_9_bit outlen inlen inp =
     write_at 0 (concat (map (pack_9_group inp) [0..<inlen div 8])
                 @ pack_9_rest inp (inlen div 8) (inlen AND 0x7))
       (replicate outlen 0)"

definition unpack_3_group :: "nat list \<Rightarrow> nat \<Rightarrow> nat list" where
  "unpack_3_group inp i =
    [(inp ! (i * 3)) AND 0x7,
     (drop_bit 3 (inp ! (i * 3))) AND 0x7,
     ((drop_bit 6 (inp ! (i * 3))) OR (push_bit 2 (inp ! (i * 3 + 1)))) AND 0x7,
     (drop_bit 1 (inp ! (i * 3 + 1))) AND 0x7,
     (drop_bit 4 (inp ! (i * 3 + 1))) AND 0x7,
     ((drop_bit 7 (inp ! (i * 3 + 1))) OR (push_bit 1 (inp ! (i * 3 + 2)))) AND 0x7,
     (drop_bit 2 (inp ! (i * 3 + 2))) AND 0x7,
     (drop_bit 5 (inp ! (i * 3 + 2))) AND 0x7]"

definition unpack_3_rest :: "nat list \<Rightarrow> nat \<Rightarrow> nat \<Rightarrow> nat list" where
  "unpack_3_rest inp i n_remainder =
   (if n_remainder = 1 then
      [(inp ! (i * 3)) AND 0x7]
    else if n_remainder = 2 then
      [(inp ! (i * 3)) AND 0x7,
       (drop_bit 3 (inp ! (i * 3))) AND 0x7]
    else if n_remainder = 3 then
      [(inp ! (i * 3)) AND 0x7,
       (drop_bit 3 (inp ! (i * 3))) AND 0x7,
       ((drop_bit 6 (inp ! (i * 3))) OR (push_bit 2 (inp ! (i * 3 + 1)))) AND 0x7]
    else if n_remainder = 4 then
      [(inp ! (i * 3)) AND 0x7,
       (drop_bit 3 (inp ! (i * 3))) AND 0x7,
       ((drop_bit 6 (inp ! (i * 3))) OR (push_bit 2 (inp ! (i * 3 + 1)))) AND 0x7,
       (drop_bit 1 (inp ! (i * 3 + 1))) AND 0x7]
    else if n_remainder = 5 then
      [(inp ! (i * 3)) AND 0x7,
       (drop_bit 3 (inp ! (i * 3))) AND 0x7,
       ((drop_bit 6 (inp ! (i * 3))) OR (push_bit 2 (inp ! (i * 3 + 1)))) AND 0x7,
       (drop_bit 1 (inp ! (i * 3 + 1))) AND 0x7,
       (drop_bit 4 (inp ! (i * 3 + 1))) AND 0x7]
    else if n_remainder = 6 then
      [(inp ! (i * 3)) AND 0x7,
       (drop_bit 3 (inp ! (i * 3))) AND 0x7,
       ((drop_bit 6 (inp ! (i * 3))) OR (push_bit 2 (inp ! (i * 3 + 1)))) AND 0x7,
       (drop_bit 1 (inp ! (i * 3 + 1))) AND 0x7,
       (drop_bit 4 (inp ! (i * 3 + 1))) AND 0x7,
       ((drop_bit 7 (inp ! (i * 3 + 1))) OR (push_bit 1 (inp ! (i * 3 + 2)))) AND 0x7]
    else if n_remainder = 7 then
      [(inp ! (i * 3)) AND 0x7,
       (drop_bit 3 (inp ! (i * 3))) AND 0x7,
       ((drop_bit 6 (inp ! (i * 3))) OR (push_bit 2 (inp ! (i * 3 + 1)))) AND 0x7,
       (drop_bit 1 (inp ! (i * 3 + 1))) AND 0x7,
       (drop_bit 4 (inp ! (i * 3 + 1))) AND 0x7,
       ((drop_bit 7 (inp ! (i * 3 + 1))) OR (push_bit 1 (inp ! (i * 3 + 2)))) AND 0x7,
       (drop_bit 2 (inp ! (i * 3 + 2))) AND 0x7]
    else [])"

definition generic_unpack_3_bit :: "nat \<Rightarrow> nat \<Rightarrow> bytes \<Rightarrow> nat list \<times> bool" where
  "generic_unpack_3_bit outlen inlen bs =
     (let inp = map unat bs;
          n_remainder = outlen AND 0x7;
          out = write_at 0 (map (take_bit 8) (concat (map (unpack_3_group inp) [0..<outlen div 8])
                            @ unpack_3_rest inp (outlen div 8) n_remainder)) (replicate outlen 0);
          is_packed_padd_ok = (if n_remainder > 0 then inp ! (inlen - 1) AND (push_bit (n_remainder * 3) 0xFF AND 0x7) = 0 else True)
      in (out, is_packed_padd_ok))"

definition unpack_7_group :: "nat list \<Rightarrow> nat \<Rightarrow> nat list" where
  "unpack_7_group inp i =
    [(inp ! (i * 7)) AND 0x7F,
     (drop_bit 7 (inp ! (i * 7))) OR ((push_bit 1 (inp ! (i * 7 + 1))) AND 0x7F),
     (drop_bit 6 (inp ! (i * 7 + 1))) OR ((push_bit 2 (inp ! (i * 7 + 2))) AND 0x7F),
     (drop_bit 5 (inp ! (i * 7 + 2))) OR ((push_bit 3 (inp ! (i * 7 + 3))) AND 0x7F),
     (drop_bit 4 (inp ! (i * 7 + 3))) OR ((push_bit 4 (inp ! (i * 7 + 4))) AND 0x7F),
     (drop_bit 3 (inp ! (i * 7 + 4))) OR ((push_bit 5 (inp ! (i * 7 + 5))) AND 0x7F),
     (drop_bit 2 (inp ! (i * 7 + 5))) OR ((push_bit 6 (inp ! (i * 7 + 6))) AND 0x7F),
     drop_bit 1 (inp ! (i * 7 + 6))]"

definition unpack_7_rest :: "nat list \<Rightarrow> nat \<Rightarrow> nat \<Rightarrow> nat list" where
  "unpack_7_rest inp i n_remainder =
   (if n_remainder = 1 then
      [(inp ! (i * 7)) AND 0x7F]
    else if n_remainder = 2 then
      [(inp ! (i * 7)) AND 0x7F,
       (drop_bit 7 (inp ! (i * 7))) OR ((push_bit 1 (inp ! (i * 7 + 1))) AND 0x7F)]
    else if n_remainder = 3 then
      [(inp ! (i * 7)) AND 0x7F,
       (drop_bit 7 (inp ! (i * 7))) OR ((push_bit 1 (inp ! (i * 7 + 1))) AND 0x7F),
       (drop_bit 6 (inp ! (i * 7 + 1))) OR ((push_bit 2 (inp ! (i * 7 + 2))) AND 0x7F)]
    else if n_remainder = 4 then
      [(inp ! (i * 7)) AND 0x7F,
       (drop_bit 7 (inp ! (i * 7))) OR ((push_bit 1 (inp ! (i * 7 + 1))) AND 0x7F),
       (drop_bit 6 (inp ! (i * 7 + 1))) OR ((push_bit 2 (inp ! (i * 7 + 2))) AND 0x7F),
       (drop_bit 5 (inp ! (i * 7 + 2))) OR ((push_bit 3 (inp ! (i * 7 + 3))) AND 0x7F)]
    else if n_remainder = 5 then
      [(inp ! (i * 7)) AND 0x7F,
       (drop_bit 7 (inp ! (i * 7))) OR ((push_bit 1 (inp ! (i * 7 + 1))) AND 0x7F),
       (drop_bit 6 (inp ! (i * 7 + 1))) OR ((push_bit 2 (inp ! (i * 7 + 2))) AND 0x7F),
       (drop_bit 5 (inp ! (i * 7 + 2))) OR ((push_bit 3 (inp ! (i * 7 + 3))) AND 0x7F),
       (drop_bit 4 (inp ! (i * 7 + 3))) OR ((push_bit 4 (inp ! (i * 7 + 4))) AND 0x7F)]
    else if n_remainder = 6 then
      [(inp ! (i * 7)) AND 0x7F,
       (drop_bit 7 (inp ! (i * 7))) OR ((push_bit 1 (inp ! (i * 7 + 1))) AND 0x7F),
       (drop_bit 6 (inp ! (i * 7 + 1))) OR ((push_bit 2 (inp ! (i * 7 + 2))) AND 0x7F),
       (drop_bit 5 (inp ! (i * 7 + 2))) OR ((push_bit 3 (inp ! (i * 7 + 3))) AND 0x7F),
       (drop_bit 4 (inp ! (i * 7 + 3))) OR ((push_bit 4 (inp ! (i * 7 + 4))) AND 0x7F),
       (drop_bit 3 (inp ! (i * 7 + 4))) OR ((push_bit 5 (inp ! (i * 7 + 5))) AND 0x7F)]
    else if n_remainder = 7 then
      [(inp ! (i * 7)) AND 0x7F,
       (drop_bit 7 (inp ! (i * 7))) OR ((push_bit 1 (inp ! (i * 7 + 1))) AND 0x7F),
       (drop_bit 6 (inp ! (i * 7 + 1))) OR ((push_bit 2 (inp ! (i * 7 + 2))) AND 0x7F),
       (drop_bit 5 (inp ! (i * 7 + 2))) OR ((push_bit 3 (inp ! (i * 7 + 3))) AND 0x7F),
       (drop_bit 4 (inp ! (i * 7 + 3))) OR ((push_bit 4 (inp ! (i * 7 + 4))) AND 0x7F),
       (drop_bit 3 (inp ! (i * 7 + 4))) OR ((push_bit 5 (inp ! (i * 7 + 5))) AND 0x7F),
       (drop_bit 2 (inp ! (i * 7 + 5))) OR ((push_bit 6 (inp ! (i * 7 + 6))) AND 0x7F)]
    else [])"

definition generic_unpack_7_bit :: "nat \<Rightarrow> nat \<Rightarrow> bytes \<Rightarrow> nat list \<times> bool" where
  "generic_unpack_7_bit outlen inlen bs =
     (let inp = map unat bs;
          n_remainder = outlen AND 0x7;
          out = write_at 0 (map (take_bit 8) (concat (map (unpack_7_group inp) [0..<outlen div 8])
                            @ unpack_7_rest inp (outlen div 8) n_remainder)) (replicate outlen 0);
          is_packed_padd_ok = (if n_remainder > 0 then inp ! (inlen - 1) AND (push_bit (8 - n_remainder) 0xFF) = 0 else True)
      in (out, is_packed_padd_ok))"

definition unpack_9_group :: "nat list \<Rightarrow> nat \<Rightarrow> nat list" where
  "unpack_9_group inp i =
    [((inp ! (i * 9)) OR (push_bit 8 (inp ! (i * 9 + 1)))) AND 0x1FF,
     ((drop_bit 1 (inp ! (i * 9 + 1))) OR (push_bit 7 (inp ! (i * 9 + 2)))) AND 0x1FF,
     ((drop_bit 2 (inp ! (i * 9 + 2))) OR (push_bit 6 (inp ! (i * 9 + 3)))) AND 0x1FF,
     ((drop_bit 3 (inp ! (i * 9 + 3))) OR (push_bit 5 (inp ! (i * 9 + 4)))) AND 0x1FF,
     ((drop_bit 4 (inp ! (i * 9 + 4))) OR (push_bit 4 (inp ! (i * 9 + 5)))) AND 0x1FF,
     ((drop_bit 5 (inp ! (i * 9 + 5))) OR (push_bit 3 (inp ! (i * 9 + 6)))) AND 0x1FF,
     ((drop_bit 6 (inp ! (i * 9 + 6))) OR (push_bit 2 (inp ! (i * 9 + 7)))) AND 0x1FF,
     ((drop_bit 7 (inp ! (i * 9 + 7))) OR (push_bit 1 (inp ! (i * 9 + 8)))) AND 0x1FF]"

definition unpack_9_rest :: "nat list \<Rightarrow> nat \<Rightarrow> nat \<Rightarrow> nat list" where
  "unpack_9_rest inp i n_remainder =
   (if n_remainder = 1 then
      [((inp ! (i * 9)) OR (push_bit 8 (inp ! (i * 9 + 1)))) AND 0x1FF]
    else if n_remainder = 2 then
      [((inp ! (i * 9)) OR (push_bit 8 (inp ! (i * 9 + 1)))) AND 0x1FF,
       ((drop_bit 1 (inp ! (i * 9 + 1))) OR (push_bit 7 (inp ! (i * 9 + 2)))) AND 0x1FF]
    else if n_remainder = 3 then
      [((inp ! (i * 9)) OR (push_bit 8 (inp ! (i * 9 + 1)))) AND 0x1FF,
       ((drop_bit 1 (inp ! (i * 9 + 1))) OR (push_bit 7 (inp ! (i * 9 + 2)))) AND 0x1FF,
       ((drop_bit 2 (inp ! (i * 9 + 2))) OR (push_bit 6 (inp ! (i * 9 + 3)))) AND 0x1FF]
    else if n_remainder = 4 then
      [((inp ! (i * 9)) OR (push_bit 8 (inp ! (i * 9 + 1)))) AND 0x1FF,
       ((drop_bit 1 (inp ! (i * 9 + 1))) OR (push_bit 7 (inp ! (i * 9 + 2)))) AND 0x1FF,
       ((drop_bit 2 (inp ! (i * 9 + 2))) OR (push_bit 6 (inp ! (i * 9 + 3)))) AND 0x1FF,
       ((drop_bit 3 (inp ! (i * 9 + 3))) OR (push_bit 5 (inp ! (i * 9 + 4)))) AND 0x1FF]
    else if n_remainder = 5 then
      [((inp ! (i * 9)) OR (push_bit 8 (inp ! (i * 9 + 1)))) AND 0x1FF,
       ((drop_bit 1 (inp ! (i * 9 + 1))) OR (push_bit 7 (inp ! (i * 9 + 2)))) AND 0x1FF,
       ((drop_bit 2 (inp ! (i * 9 + 2))) OR (push_bit 6 (inp ! (i * 9 + 3)))) AND 0x1FF,
       ((drop_bit 3 (inp ! (i * 9 + 3))) OR (push_bit 5 (inp ! (i * 9 + 4)))) AND 0x1FF,
       ((drop_bit 4 (inp ! (i * 9 + 4))) OR (push_bit 4 (inp ! (i * 9 + 5)))) AND 0x1FF]
    else if n_remainder = 6 then
      [((inp ! (i * 9)) OR (push_bit 8 (inp ! (i * 9 + 1)))) AND 0x1FF,
       ((drop_bit 1 (inp ! (i * 9 + 1))) OR (push_bit 7 (inp ! (i * 9 + 2)))) AND 0x1FF,
       ((drop_bit 2 (inp ! (i * 9 + 2))) OR (push_bit 6 (inp ! (i * 9 + 3)))) AND 0x1FF,
       ((drop_bit 3 (inp ! (i * 9 + 3))) OR (push_bit 5 (inp ! (i * 9 + 4)))) AND 0x1FF,
       ((drop_bit 4 (inp ! (i * 9 + 4))) OR (push_bit 4 (inp ! (i * 9 + 5)))) AND 0x1FF,
       ((drop_bit 5 (inp ! (i * 9 + 5))) OR (push_bit 3 (inp ! (i * 9 + 6)))) AND 0x1FF]
    else if n_remainder = 7 then
      [((inp ! (i * 9)) OR (push_bit 8 (inp ! (i * 9 + 1)))) AND 0x1FF,
       ((drop_bit 1 (inp ! (i * 9 + 1))) OR (push_bit 7 (inp ! (i * 9 + 2)))) AND 0x1FF,
       ((drop_bit 2 (inp ! (i * 9 + 2))) OR (push_bit 6 (inp ! (i * 9 + 3)))) AND 0x1FF,
       ((drop_bit 3 (inp ! (i * 9 + 3))) OR (push_bit 5 (inp ! (i * 9 + 4)))) AND 0x1FF,
       ((drop_bit 4 (inp ! (i * 9 + 4))) OR (push_bit 4 (inp ! (i * 9 + 5)))) AND 0x1FF,
       ((drop_bit 5 (inp ! (i * 9 + 5))) OR (push_bit 3 (inp ! (i * 9 + 6)))) AND 0x1FF,
       ((drop_bit 6 (inp ! (i * 9 + 6))) OR (push_bit 2 (inp ! (i * 9 + 7)))) AND 0x1FF]
    else [])"

definition generic_unpack_9_bit :: "nat \<Rightarrow> nat \<Rightarrow> bytes \<Rightarrow> nat list \<times> bool" where
  "generic_unpack_9_bit outlen inlen bs =
     (let inp = map unat bs;
          n_remainder = outlen AND 0x7;
          out = write_at 0 (map (take_bit 16) (concat (map (unpack_9_group inp) [0..<inlen div 9])
                            @ unpack_9_rest inp (inlen div 9) n_remainder)) (replicate outlen 0);
          is_packed_padd_ok = (if n_remainder > 0 then inp ! (inlen - 1) AND (push_bit n_remainder 0xFF) = 0 else True)
      in (out, is_packed_padd_ok))"

fun generic_pack_fp :: "rsdp_variant \<Rightarrow> nat \<Rightarrow> nat \<Rightarrow> nat list \<Rightarrow> bytes" where
  "generic_pack_fp RSDP outlen inlen inp = generic_pack_7_bit outlen inlen inp"
| "generic_pack_fp RSDPG outlen inlen inp = generic_pack_9_bit outlen inlen inp"

fun generic_pack_fz :: "rsdp_variant \<Rightarrow> nat \<Rightarrow> nat \<Rightarrow> nat list \<Rightarrow> bytes" where
  "generic_pack_fz RSDPG outlen inlen inp = generic_pack_7_bit outlen inlen inp"
| "generic_pack_fz RSDP outlen inlen inp = generic_pack_3_bit outlen inlen inp"

fun generic_unpack_fp :: "rsdp_variant \<Rightarrow> nat \<Rightarrow> nat \<Rightarrow> bytes \<Rightarrow> nat list \<times> bool" where
  "generic_unpack_fp RSDP outlen inlen bs = generic_unpack_7_bit outlen inlen bs"
| "generic_unpack_fp RSDPG outlen inlen bs = generic_unpack_9_bit outlen inlen bs"

fun generic_unpack_fz :: "rsdp_variant \<Rightarrow> nat \<Rightarrow> nat \<Rightarrow> bytes \<Rightarrow> nat list \<times> bool" where
  "generic_unpack_fz RSDPG outlen inlen bs = generic_unpack_7_bit outlen inlen bs"
| "generic_unpack_fz RSDP outlen inlen bs = generic_unpack_3_bit outlen inlen bs"

definition pack_fp_vec :: "cross_params \<Rightarrow> nat list \<Rightarrow> bytes" where
  "pack_fp_vec p inp = generic_pack_fp (variant p) (DENSELY_PACKED_FP_VEC_SIZE p) (par_N p) inp"

definition pack_fp_syn :: "cross_params \<Rightarrow> nat list \<Rightarrow> bytes" where
  "pack_fp_syn p inp = generic_pack_fp (variant p) (DENSELY_PACKED_FP_SYN_SIZE p) (par_N p - par_K p) inp"

definition pack_fz_vec :: "cross_params \<Rightarrow> nat list \<Rightarrow> bytes" where
  "pack_fz_vec p inp = generic_pack_fz (variant p) (DENSELY_PACKED_FZ_VEC_SIZE p) (par_N p) inp"

definition pack_fz_rsdp_g_vec :: "cross_params \<Rightarrow> nat list \<Rightarrow> bytes" where
  "pack_fz_rsdp_g_vec p inp = generic_pack_fz (variant p) (DENSELY_PACKED_FZ_RSDP_G_VEC_SIZE p) (par_M p) inp"

definition unpack_fp_vec :: "cross_params \<Rightarrow> bytes \<Rightarrow> nat list \<times> bool" where
  "unpack_fp_vec p bs = generic_unpack_fp (variant p) (par_N p) (DENSELY_PACKED_FP_VEC_SIZE p) bs"

definition unpack_fp_syn :: "cross_params \<Rightarrow> bytes \<Rightarrow> nat list \<times> bool" where
  "unpack_fp_syn p bs = generic_unpack_fp (variant p) (par_N p - par_K p) (DENSELY_PACKED_FP_SYN_SIZE p) bs"

definition unpack_fz_vec :: "cross_params \<Rightarrow> bytes \<Rightarrow> nat list \<times> bool" where
  "unpack_fz_vec p bs = generic_unpack_fz (variant p) (par_N p) (DENSELY_PACKED_FZ_VEC_SIZE p) bs"

definition unpack_fz_rsdp_g_vec :: "cross_params \<Rightarrow> bytes \<Rightarrow> nat list \<times> bool" where
  "unpack_fz_rsdp_g_vec p bs = generic_unpack_fz (variant p) (par_M p) (DENSELY_PACKED_FZ_RSDP_G_VEC_SIZE p) bs"

section \<open>One iteration and one tail\<close>

text \<open>\<open>nbytes k n\<close>: the bytes that \<open>n\<close> elements of \<open>k\<close> bits occupy.\<close>

definition nbytes :: "nat \<Rightarrow> nat \<Rightarrow> nat" where
  "nbytes k n = (k * n + 7) div 8"

lemma nbytes_split: "nbytes k n = n div 8 * k + nbytes k (n mod 8)"
proof -
  have "k * n + 7 = 8 * (n div 8 * k) + (k * (n mod 8) + 7)"
    using div_mult_mod_eq [of n 8] by (metis (no_types, lifting) add.assoc distrib_left mult.assoc mult.commute)
  then show ?thesis by (simp add: nbytes_def)
qed

lemma nbytes_mult_8: "8 * nbytes k n < k * n + 8"
  unfolding nbytes_def using div_mult_mod_eq [of "k * n + 7" 8] by linarith

lemma rem_cases:
  assumes "r < (8::nat)"
  shows "r = 0 \<or> r = 1 \<or> r = 2 \<or> r = 3 \<or> r = 4 \<or> r = 5 \<or> r = 6 \<or> r = 7"
  using assms by auto

lemma and7: "(n::nat) AND 0x7 = n mod 8"
  using take_bit_eq_mask [of 3 n] by (simp add: mask_eq_exp_minus_1 take_bit_nat_def)

lemma nth_concat_groups:
  assumes "\<And>i. i < n \<Longrightarrow> length (g i) = k" and "b < n * k"
  shows "concat (map g [0..<n]) ! b = g (b div k) ! (b mod k)"
  using assms
proof (induction n)
  case (Suc n)
  have len: "length (concat (map g [0..<n])) = n * k"
    using Suc.prems(1) by (induction n) auto
  show ?case
  proof (cases "b < n * k")
    case False
    then have "b div k = n"
      using Suc.prems(2) by (intro div_nat_eqI) (auto simp: algebra_simps)
    moreover from this have "b mod k = b - n * k" by (metis minus_div_mult_eq_mod)
    ultimately show ?thesis using False len Suc.prems by (simp add: nth_append)
  qed (use Suc len in \<open>simp add: nth_append\<close>)
qed simp

lemma length_concat_groups: "(\<And>i. i < n \<Longrightarrow> length (g i) = k) \<Longrightarrow> length (concat (map g [0..<n])) = n * k"
  by (induction n) auto

locale group_codec =
  fixes k :: nat
    and pgroup :: "nat list \<Rightarrow> nat \<Rightarrow> bytes"
    and prest :: "nat list \<Rightarrow> nat \<Rightarrow> nat \<Rightarrow> bytes"
    and ugroup :: "nat list \<Rightarrow> nat \<Rightarrow> nat list"
    and urest :: "nat list \<Rightarrow> nat \<Rightarrow> nat \<Rightarrow> nat list"
  assumes k_pos: "0 < k"
    and length_pgroup: "length (pgroup xs i) = k"
    and length_ugroup: "length (ugroup xs i) = 8"
    and pgroup_bit: "j < k \<Longrightarrow> t < 8 \<Longrightarrow> (\<And>m. m < 8 \<Longrightarrow> xs ! (i * 8 + m) < 2 ^ k) \<Longrightarrow>
        bit (pgroup xs i ! j) t = bit (xs ! (i * 8 + (8 * j + t) div k)) ((8 * j + t) mod k)"
    and ugroup_bit: "j < 8 \<Longrightarrow> (\<And>m. m \<le> (k * j + k - 1) div 8 \<Longrightarrow> xs ! (i * k + m) < 2 ^ 8) \<Longrightarrow>
        bit (ugroup xs i ! j) t = (t < k \<and> bit (xs ! (i * k + (k * j + t) div 8)) ((k * j + t) mod 8))"
    and pgroup_cong: "(\<And>m. m < 8 \<Longrightarrow> xs ! (i * 8 + m) = ys ! (i * 8 + m)) \<Longrightarrow> pgroup xs i = pgroup ys i"
    and prest_eq: "length xs = i * 8 + r \<Longrightarrow> r < 8 \<Longrightarrow>
        prest xs i r = take (nbytes k r) (pgroup (xs @ replicate 8 0) i)"
    and urest_eq: "r < 8 \<Longrightarrow> urest xs i r = take r (ugroup xs i)"
begin

lemma ugroup_lt: "j < 8 \<Longrightarrow> (\<And>m. m \<le> (k * j + k - 1) div 8 \<Longrightarrow> xs ! (i * k + m) < 2 ^ 8) \<Longrightarrow>
    ugroup xs i ! j < 2 ^ k"
  by (rule nat_lt_bits) (simp add: ugroup_bit)

lemma nbytes_rest: "nbytes k (n mod 8) \<le> k"
proof -
  have "n mod 8 \<le> 7" by (simp add: less_Suc_eq_le [symmetric])
  then have "k * (n mod 8) \<le> k * 7" by (rule mult_le_mono2)
  moreover have "Suc k * 8 = k * 7 + k + 8" by simp
  ultimately have "k * (n mod 8) + 7 < Suc k * 8" by linarith
  then have "(k * (n mod 8) + 7) div 8 < Suc k" by (rule less_mult_imp_div_less)
  then show ?thesis by (simp add: nbytes_def)
qed

lemma group_index: "b < nbytes k n \<Longrightarrow> b div k \<le> n div 8"
proof -
  assume "b < nbytes k n"
  then have "b < Suc (n div 8) * k" using nbytes_rest [of n] by (simp add: nbytes_split [of k n])
  then show ?thesis by (simp add: less_mult_imp_div_less less_Suc_eq_le [symmetric])
qed

text \<open>The bytes that the loop and the tail write, as one indexed family.\<close>

lemma packed_eq:
  assumes "length xs = n"
  shows "concat (map (pgroup xs) [0..<n div 8]) @ prest xs (n div 8) (n mod 8)
       = map (\<lambda>b. pgroup (xs @ replicate 8 0) (b div k) ! (b mod k)) [0..<nbytes k n]"
    (is "?l @ ?t = map ?f _")
proof (rule nth_equalityI)
  let ?ys = "xs @ replicate 8 0" and ?q = "n div 8" and ?r = "n mod 8"
  have ll: "length ?l = ?q * k" by (rule length_concat_groups) (rule length_pgroup)
  have nb: "nbytes k ?r \<le> k" by (rule nbytes_rest)
  have t: "?t = take (nbytes k ?r) (pgroup ?ys ?q)" using prest_eq [of xs ?q ?r] assms by simp
  show len: "length (?l @ ?t) = length (map ?f [0..<nbytes k n])"
    using ll nb by (simp add: t length_pgroup nbytes_split [of k n])
  fix b
  assume "b < length (?l @ ?t)"
  then have b: "b < nbytes k n" unfolding len by simp
  show "(?l @ ?t) ! b = map ?f [0..<nbytes k n] ! b"
  proof (cases "b < ?q * k")
    case True
    then have "b div k < ?q" using k_pos by (simp add: less_mult_imp_div_less)
    then have "b div k * 8 + 8 \<le> ?q * 8" by simp
    also have "\<dots> \<le> length xs" using assms by simp
    finally have in_xs: "b div k * 8 + 8 \<le> length xs" .
    have "?l ! b = pgroup xs (b div k) ! (b mod k)"
      using True by (intro nth_concat_groups length_pgroup)
    also have "pgroup xs (b div k) = pgroup ?ys (b div k)"
      using in_xs by (intro pgroup_cong) (simp add: nth_append)
    finally show ?thesis using True b ll by (simp add: nth_append)
  next
    case False
    with k_pos have "?q \<le> b div k" by (simp add: less_eq_div_iff_mult_less_eq)
    then have q: "b div k = ?q" using group_index [OF b] by simp
    then have "b mod k = b - ?q * k" by (metis minus_div_mult_eq_mod)
    moreover have "b - ?q * k < nbytes k ?r" using b False by (simp add: nbytes_split [of k n])
    ultimately show ?thesis using False b ll q
      by (simp add: t nth_append)
  qed
qed

lemma packed_bit:
  assumes "length xs = n" and "\<And>x. x \<in> set xs \<Longrightarrow> x < 2 ^ k" and b: "b < nbytes k n" and "t < 8"
  shows "bit ((concat (map (pgroup xs) [0..<n div 8]) @ prest xs (n div 8) (n mod 8)) ! b) t
    = bit ((xs @ replicate 8 0) ! ((8 * b + t) div k)) ((8 * b + t) mod k)"
proof -
  let ?ys = "xs @ replicate 8 0" and ?i = "b div k" and ?j = "b mod k"
  have bij: "b = ?i * k + ?j" by simp
  have j: "?j < k" using k_pos by simp
  have "8 * (?i * k + ?j) + t = ?i * 8 * k + (8 * ?j + t)" by (simp only: algebra_simps)
  then have pos: "8 * b + t = ?i * 8 * k + (8 * ?j + t)" by simp
  have dm: "(8 * b + t) div k = ?i * 8 + (8 * ?j + t) div k" "(8 * b + t) mod k = (8 * ?j + t) mod k"
    unfolding pos using k_pos by simp_all
  have "?i * 8 \<le> n div 8 * 8" using group_index [OF b] by simp
  also have "\<dots> \<le> n" by simp
  finally have "?ys ! (?i * 8 + m) < 2 ^ k" if "m < 8" for m
    using that assms(1,2) by (simp add: nth_append)
  then have "bit (pgroup ?ys ?i ! ?j) t = bit (?ys ! (?i * 8 + (8 * ?j + t) div k)) ((8 * ?j + t) mod k)"
    using j assms(4) by (intro pgroup_bit)
  then show ?thesis unfolding packed_eq [OF assms(1)] dm using b by simp
qed

text \<open>The elements that the loop and the tail of the decoder produce.\<close>

lemma unpacked_eq:
  "concat (map (ugroup xs) [0..<n div 8]) @ urest xs (n div 8) (n mod 8)
   = map (\<lambda>j. ugroup xs (j div 8) ! (j mod 8)) [0..<n]"
    (is "?l @ ?t = map ?f _")
proof (rule nth_equalityI)
  let ?q = "n div 8" and ?r = "n mod 8"
  have ll: "length ?l = ?q * 8" by (rule length_concat_groups) (rule length_ugroup)
  have t: "?t = take ?r (ugroup xs ?q)" by (rule urest_eq) simp
  show len: "length (?l @ ?t) = length (map ?f [0..<n])"
    using ll order_less_imp_le [of "n mod 8" 8] by (simp add: t length_ugroup min_absorb1)
  fix j
  assume "j < length (?l @ ?t)"
  then have j: "j < n" unfolding len by simp
  show "(?l @ ?t) ! j = map ?f [0..<n] ! j"
  proof (cases "j < ?q * 8")
    case True
    then have "?l ! j = ugroup xs (j div 8) ! (j mod 8)"
      by (intro nth_concat_groups length_ugroup)
    with True j ll show ?thesis by (simp add: nth_append)
  next
    case False
    then have "?q \<le> j div 8" by (simp add: less_eq_div_iff_mult_less_eq)
    then have q: "j div 8 = ?q" using j by (simp add: div_le_mono order_antisym)
    then have m: "j mod 8 = j - ?q * 8" by (metis minus_div_mult_eq_mod)
    have "j - ?q * 8 < ?r" using j False by (simp add: modulo_nat_def)
    with False j ll q m show ?thesis by (simp add: t nth_append)
  qed
qed

lemma unpacked_bit:
  assumes "length xs = nbytes k n" and "\<And>x. x \<in> set xs \<Longrightarrow> x < 2 ^ 8" and j: "j < n"
  shows "bit ((concat (map (ugroup xs) [0..<n div 8]) @ urest xs (n div 8) (n mod 8)) ! j) t
    = (t < k \<and> bit (xs ! ((k * j + t) div 8)) ((k * j + t) mod 8))"
proof -
  let ?i = "j div 8" and ?j = "j mod 8"
  have jij: "j = ?i * 8 + ?j" by simp
  have "k * (?i * 8 + ?j) + t = ?i * k * 8 + (k * ?j + t)" for t by (simp only: algebra_simps)
  then have pos: "k * j + t = ?i * k * 8 + (k * ?j + t)" for t by simp
  have dm: "(k * j + t) div 8 = ?i * k + (k * ?j + t) div 8" "(k * j + t) mod 8 = (k * ?j + t) mod 8"
    unfolding pos by simp_all
  have "k * j + k \<le> k * n" using j by (metis Suc_leI mult_Suc_right add.commute mult_le_mono2)
  then have last: "(k * j + (k - 1)) div 8 < nbytes k n"
    using k_pos by (simp add: nbytes_def div_less_iff_less_mult less_eq_div_iff_mult_less_eq)
  have "xs ! (?i * k + m) < 2 ^ 8" if "m \<le> (k * ?j + k - 1) div 8" for m
  proof -
    have "(k * j + (k - 1)) div 8 = ?i * k + (k * ?j + (k - 1)) div 8" unfolding pos by simp
    then have "?i * k + m < nbytes k n" using last that k_pos by simp
    then show ?thesis using assms(1,2) by simp
  qed
  then have "bit (ugroup xs ?i ! ?j) t
      = (t < k \<and> bit (xs ! (?i * k + (k * ?j + t) div 8)) ((k * ?j + t) mod 8))"
    by (intro ugroup_bit) auto
  then show ?thesis unfolding unpacked_eq dm using j by simp
qed

end

section \<open>Whole vectors\<close>

text \<open>No bit after the \<open>n\<close> packed elements is set.\<close>

definition padding_clear :: "nat \<Rightarrow> nat \<Rightarrow> bytes \<Rightarrow> bool" where
  "padding_clear k n bs \<longleftrightarrow> (\<forall>m < 8 * length bs. k * n \<le> m \<longrightarrow> \<not> bit (bs ! (m div 8)) (m mod 8))"

lemma exp_eq_0x80: "(2 :: byte) ^ 7 = 0x80"
  by simp

locale bit_codec =
  fixes k :: nat
    and pack :: "nat \<Rightarrow> nat \<Rightarrow> nat list \<Rightarrow> bytes"
    and unpack :: "nat \<Rightarrow> nat \<Rightarrow> bytes \<Rightarrow> nat list \<times> bool"
  assumes width_pos: "0 < k"
    and length_pack: "length xs = n \<Longrightarrow> length (pack (nbytes k n) n xs) = nbytes k n"
    and pack_bit: "length xs = n \<Longrightarrow> (\<And>x. x \<in> set xs \<Longrightarrow> x < 2 ^ k) \<Longrightarrow> b < nbytes k n \<Longrightarrow> t < 8 \<Longrightarrow>
      bit (pack (nbytes k n) n xs ! b) t = bit ((xs @ replicate 8 0) ! ((8 * b + t) div k)) ((8 * b + t) mod k)"
    and length_unpack: "length bs = nbytes k n \<Longrightarrow> length (fst (unpack n (nbytes k n) bs)) = n"
    and unpack_bit: "length bs = nbytes k n \<Longrightarrow> j < n \<Longrightarrow>
      bit (fst (unpack n (nbytes k n) bs) ! j) t = (t < k \<and> bit (bs ! ((k * j + t) div 8)) ((k * j + t) mod 8))"
begin

lemma unpack_lt: "length bs = nbytes k n \<Longrightarrow> x \<in> set (fst (unpack n (nbytes k n) bs)) \<Longrightarrow> x < 2 ^ k"
  by (rule nat_lt_bits) (auto simp: in_set_conv_nth length_unpack unpack_bit)

lemma in_bytes: "m < k * n \<Longrightarrow> m div 8 < nbytes k n"
  by (simp add: nbytes_def div_less_iff_less_mult less_eq_div_iff_mult_less_eq)

lemma unpack_cong:
  assumes "length bs = nbytes k n" and "length cs = nbytes k n"
    and "\<And>m. m < k * n \<Longrightarrow> bit (bs ! (m div 8)) (m mod 8) = bit (cs ! (m div 8)) (m mod 8)"
  shows "fst (unpack n (nbytes k n) bs) = fst (unpack n (nbytes k n) cs)"
proof (rule nth_equalityI)
  fix j assume "j < length (fst (unpack n (nbytes k n) bs))"
  then have j: "j < n" using length_unpack [OF assms(1)] by simp
  have "k * j + t < k * n" if "t < k" for t
    using mult_le_mono2 [of "Suc j" n k] j that by simp
  then show "fst (unpack n (nbytes k n) bs) ! j = fst (unpack n (nbytes k n) cs) ! j"
    using assms j by (intro bit_eqI) (auto simp: unpack_bit)
qed (simp add: length_unpack assms)

lemma unpack_top_bit_ignored:
  assumes "k * n mod 8 \<noteq> 0"
  defines "l \<equiv> nbytes k n"
  shows "fst (unpack n l (replicate l 0)) = fst (unpack n l (replicate (l - 1) 0 @ [0x80]))"
    and "replicate l (0 :: byte) \<noteq> replicate (l - 1) 0 @ [0x80]" and "length (replicate (l - 1) (0 :: byte) @ [0x80]) = l"
proof -
  have room: "k * n < 8 * l" using assms by (simp add: nbytes_def) presburger
  show len: "length (replicate (l - 1) (0 :: byte) @ [0x80]) = l" using room by simp
  show "replicate l (0 :: byte) \<noteq> replicate (l - 1) 0 @ [0x80]"
  proof
    assume "replicate l (0 :: byte) = replicate (l - 1) 0 @ [0x80]"
    then have "replicate l (0 :: byte) ! (l - 1) = (replicate (l - 1) 0 @ [0x80]) ! (l - 1)" by (rule arg_cong)
    then show False using room by (simp add: nth_append)
  qed
  have top: "\<not> bit (0x80 :: byte) t" if "t < 7" for t
    unfolding exp_eq_0x80 [symmetric] bit_exp_iff using that by simp
  show "fst (unpack n l (replicate l 0)) = fst (unpack n l (replicate (l - 1) 0 @ [0x80]))"
    unfolding l_def
  proof (rule unpack_cong, unfold l_def [symmetric])
    fix m assume m: "m < k * n"
    then have "m div 8 < l" using in_bytes l_def by simp
    moreover have "m mod 8 < 7" if "m div 8 = l - 1"
      using that m room div_mult_mod_eq [of m 8] by linarith
    ultimately show "bit (replicate l (0 :: byte) ! (m div 8)) (m mod 8) = bit ((replicate (l - 1) (0 :: byte) @ [0x80]) ! (m div 8)) (m mod 8)"
      using top by (auto simp: nth_append)
  qed (use len in simp_all)
qed

lemma unpack_pack:
  assumes "length xs = n" and "\<And>x. x \<in> set xs \<Longrightarrow> x < 2 ^ k"
  shows "fst (unpack n (nbytes k n) (pack (nbytes k n) n xs)) = xs"
proof (rule nth_equalityI)
  let ?bs = "pack (nbytes k n) n xs"
  have lb: "length ?bs = nbytes k n" by (rule length_pack [OF assms(1)])
  show "length (fst (unpack n (nbytes k n) ?bs)) = length xs" using lb assms(1) by (simp add: length_unpack)
  fix j
  assume "j < length (fst (unpack n (nbytes k n) ?bs))"
  then have j: "j < n" by (simp add: length_unpack lb)
  show "fst (unpack n (nbytes k n) ?bs) ! j = xs ! j"
  proof (rule nat_bits_eqI)
    show "fst (unpack n (nbytes k n) ?bs) ! j < 2 ^ k" using j lb by (intro unpack_lt) (auto simp: length_unpack)
    show "xs ! j < 2 ^ k" using assms j by simp
    fix t
    assume t: "t < k"
    have "k * j + t < k * n"
    proof -
      have "k * j + t < k * Suc j" using t by simp
      also have "\<dots> \<le> k * n" using j by (intro mult_le_mono2) simp
      finally show ?thesis .
    qed
    then have "bit (?bs ! ((k * j + t) div 8)) ((k * j + t) mod 8)
        = bit ((xs @ replicate 8 0) ! ((8 * ((k * j + t) div 8) + (k * j + t) mod 8) div k))
              ((8 * ((k * j + t) div 8) + (k * j + t) mod 8) mod k)"
      using assms by (intro pack_bit in_bytes) auto
    also have "\<dots> = bit (xs ! j) t" using t j assms(1) by (simp add: nth_append mult.commute [of k])
    finally show "bit (fst (unpack n (nbytes k n) ?bs) ! j) t = bit (xs ! j) t"
      using t j lb by (simp add: unpack_bit)
  qed
qed

lemma pack_padding_clear:
  assumes "length xs = n" and "\<And>x. x \<in> set xs \<Longrightarrow> x < 2 ^ k"
  shows "padding_clear k n (pack (nbytes k n) n xs)"
  unfolding padding_clear_def
proof (intro allI impI)
  fix m
  assume m: "m < 8 * length (pack (nbytes k n) n xs)" and "k * n \<le> m"
  then have b: "m div 8 < nbytes k n" using assms(1) by (simp add: length_pack div_less_iff_less_mult mult.commute)
  have ge: "n \<le> m div k" using \<open>k * n \<le> m\<close> width_pos by (simp add: less_eq_div_iff_mult_less_eq mult.commute)
  have "m < k * n + 8" using m assms(1) nbytes_mult_8 [of k n] unfolding length_pack [OF assms(1)] by linarith
  then have "m < k * (n + 8)" using width_pos by (cases k) (auto simp: distrib_left)
  then have lt: "m div k < n + 8" by (simp add: div_less_iff_less_mult width_pos mult.commute)
  have "bit (pack (nbytes k n) n xs ! (m div 8)) (m mod 8) = bit ((xs @ replicate 8 0) ! (m div k)) (m mod k)"
    using pack_bit [of xs n "m div 8" "m mod 8"] assms b by simp
  also have "(xs @ replicate 8 0) ! (m div k) = 0" using ge lt assms(1) by (simp add: nth_append)
  finally show "\<not> bit (pack (nbytes k n) n xs ! (m div 8)) (m mod 8)" by simp
qed

lemma pack_unpack:
  assumes "length bs = nbytes k n" and "padding_clear k n bs"
  shows "pack (nbytes k n) n (fst (unpack n (nbytes k n) bs)) = bs"
proof (rule nth_equalityI)
  let ?xs = "fst (unpack n (nbytes k n) bs)"
  have lx: "length ?xs = n" by (rule length_unpack [OF assms(1)])
  show "length (pack (nbytes k n) n ?xs) = length bs" using lx assms(1) by (simp add: length_pack)
  fix b
  assume "b < length (pack (nbytes k n) n ?xs)"
  then have b: "b < nbytes k n" using lx by (simp add: length_pack)
  have "bit (pack (nbytes k n) n ?xs ! b) t = bit (bs ! b) t" if "t < 8" for t
  proof -
    let ?m = "8 * b + t"
    have *: "bit (pack (nbytes k n) n ?xs ! b) t = bit ((?xs @ replicate 8 0) ! (?m div k)) (?m mod k)"
      using lx b that unpack_lt [OF assms(1)] by (intro pack_bit)
    show ?thesis
    proof (cases "?m < k * n")
      case True
      then have j: "?m div k < n" by (simp add: div_less_iff_less_mult width_pos mult.commute)
      then have "bit (?xs ! (?m div k)) (?m mod k) = bit (bs ! b) t"
        using width_pos that by (simp add: unpack_bit [OF assms(1)])
      with * j lx show ?thesis by (simp add: nth_append)
    next
      case False
      have "bit (pack (nbytes k n) n ?xs ! b) t = False"
        using pack_padding_clear [OF lx unpack_lt [OF assms(1)]] False b that
        unfolding padding_clear_def length_pack [OF lx] by (auto dest: spec [of _ ?m])
      moreover have "bit (bs ! b) t = False"
        using assms False b that unfolding padding_clear_def by (auto dest: spec [of _ ?m])
      ultimately show ?thesis by simp
    qed
  qed
  then show "pack (nbytes k n) n ?xs ! b = bs ! b" by (intro bit_word_eqI) simp
qed

end

text \<open>A decoder that rejects exactly the encodings with a set padding bit.\<close>

locale checked_codec = bit_codec +
  assumes pad_ok: "length bs = nbytes k n \<Longrightarrow> snd (unpack n (nbytes k n) bs) \<longleftrightarrow> padding_clear k n bs"
begin

lemma unpack_pack_ok:
  assumes "length xs = n" and "\<And>x. x \<in> set xs \<Longrightarrow> x < 2 ^ k"
  shows "unpack n (nbytes k n) (pack (nbytes k n) n xs) = (xs, True)"
  using unpack_pack [OF assms] pad_ok [OF length_pack [OF assms(1)]] pack_padding_clear [OF assms]
  by (metis prod.collapse)

lemma unpack_ok_canonical:
  assumes "length bs = nbytes k n" and "snd (unpack n (nbytes k n) bs)"
  shows "pack (nbytes k n) n (fst (unpack n (nbytes k n) bs)) = bs"
  using assms pad_ok by (intro pack_unpack) auto

end

section \<open>The three widths\<close>

lemma cases3: "j < (3::nat) \<Longrightarrow> j = 0 \<or> j = 1 \<or> j = 2"
  by auto

lemma cases7: "j < (7::nat) \<Longrightarrow> j = 0 \<or> j = 1 \<or> j = 2 \<or> j = 3 \<or> j = 4 \<or> j = 5 \<or> j = 6"
  by auto

lemma cases9: "j < (9::nat) \<Longrightarrow> j = 0 \<or> j = 1 \<or> j = 2 \<or> j = 3 \<or> j = 4 \<or> j = 5 \<or> j = 6 \<or> j = 7 \<or> j = 8"
  by auto

lemma bit_store8: "bit (store8 x) t = (t < 8 \<and> bit x t)"
  by (simp add: bit_simps)

lemmas group_bits = bit_or_iff bit_and_iff bit_push_bit_iff_nat bit_drop_bit_eq

lemma pack_3_group_bit:
  assumes "j < 3" "t < 8" and lt: "\<And>m. m < 8 \<Longrightarrow> xs ! (i * 8 + m) < 2 ^ 3"
  shows "bit (pack_3_group xs i ! j) t = bit (xs ! (i * 8 + (8 * j + t) div 3)) ((8 * j + t) mod 3)"
proof -
  define y where "y m = xs ! (i * 8 + m)" for m
  then have y: "xs ! (i * 8 + m) = y m" "xs ! (i * 8) = y 0" for m by simp_all
  have nb: "\<not> bit (y m) n" if "m < 8" "3 \<le> n" for m n
    unfolding y_def using bit_nat_small [OF lt] that by blast
  show ?thesis unfolding pack_3_group_def y
    using cases3 [OF assms(1)] rem_cases [OF assms(2)]
    by (elim disjE; hypsubst; simp add: bit_store8 group_bits nb numeral_2_eq_2 [symmetric] del: push_bit_Suc drop_bit_Suc)
qed

text \<open>
  A byte that holds the upper bits of one element and the lower bits of the
  next one, and an element whose bits straddle two bytes.
\<close>

lemma byte_of_two:
  assumes "7 \<le> k" "8 * j = k * e + s" "s < k" "x < 2 ^ k" "t < 8"
  shows "bit (store8 (drop_bit s x OR push_bit (k - s) y)) t
       = bit (if t < k - s then x else y) (if t < k - s then s + t else t - (k - s))"
    and "(8 * j + t) div k = (if t < k - s then e else e + 1)"
    and "(8 * j + t) mod k = (if t < k - s then s + t else t - (k - s))"
proof -
  show "bit (store8 (drop_bit s x OR push_bit (k - s) y)) t
       = bit (if t < k - s then x else y) (if t < k - s then s + t else t - (k - s))"
    using assms bit_nat_small [of x k "s + t"] by (auto simp: bit_store8 group_bits)
  have pos: "8 * j + t = k * e + (s + t)" using assms(2) by simp
  have "(s + t) div k = (if t < k - s then 0 else 1)"
    using assms by (auto intro!: div_nat_eqI)
  moreover have "(s + t) mod k = (if t < k - s then s + t else t - (k - s))"
    using assms by (auto simp: mod_if)
  ultimately show "(8 * j + t) div k = (if t < k - s then e else e + 1)"
    and "(8 * j + t) mod k = (if t < k - s then s + t else t - (k - s))"
    unfolding pos using assms(1) by auto
qed

lemma pack_7_group_bit:
  assumes "j < 7" "t < 8" and lt: "\<And>m. m < 8 \<Longrightarrow> xs ! (i * 8 + m) < 2 ^ 7"
  shows "bit (pack_7_group xs i ! j) t = bit (xs ! (i * 8 + (8 * j + t) div 7)) ((8 * j + t) mod 7)"
proof -
  have g: "pack_7_group xs i ! j
      = store8 (drop_bit j (xs ! (i * 8 + j)) OR push_bit (7 - j) (xs ! (i * 8 + (j + 1))))"
    using cases7 [OF assms(1)] by (elim disjE) (simp_all add: pack_7_group_def)
  have e: "8 * j = 7 * j + j" "xs ! (i * 8 + j) < 2 ^ 7" using lt assms by simp_all
  show ?thesis
    unfolding g byte_of_two(1) [OF order_refl e(1) assms(1) e(2) assms(2)]
      byte_of_two(2,3) [OF order_refl e(1) assms(1) e(2) assms(2)] by simp
qed

lemma pack_9_group_bit:
  assumes "j < 9" "t < 8" and lt: "\<And>m. m < 8 \<Longrightarrow> xs ! (i * 8 + m) < 2 ^ 9"
  shows "bit (pack_9_group xs i ! j) t = bit (xs ! (i * 8 + (8 * j + t) div 9)) ((8 * j + t) mod 9)"
proof -
  consider "j = 0" | "0 < j" "j < 8" | "j = 8" using assms(1) by linarith
  then show ?thesis
  proof cases
    case 1
    then show ?thesis using assms(2) by (simp add: pack_9_group_def bit_store8)
  next
    case 2
    have g: "pack_9_group xs i ! j
        = store8 (drop_bit (9 - j) (xs ! (i * 8 + (j - 1))) OR push_bit (9 - (9 - j)) (xs ! (i * 8 + (j - 1 + 1))))"
      using cases9 [OF assms(1)] 2 by (elim disjE) (simp_all add: pack_9_group_def)
    have e: "7 \<le> (9::nat)" "8 * j = 9 * (j - 1) + (9 - j)" "9 - j < 9" "xs ! (i * 8 + (j - 1)) < 2 ^ 9"
      using lt [of "j - 1"] 2 by auto
    show ?thesis
      unfolding g byte_of_two(1) [OF e assms(2)] byte_of_two(2,3) [OF e assms(2)] by simp
  next
    case 3
    have g: "pack_9_group xs i ! j = store8 (drop_bit 1 (xs ! (i * 8 + 7)) OR push_bit (9 - 1) 0)"
      using 3 by (simp add: pack_9_group_def)
    have e: "7 \<le> (9::nat)" "8 * j = 9 * 7 + 1" "1 < (9::nat)" "xs ! (i * 8 + 7) < 2 ^ 9"
      using lt [of 7] 3 by simp_all
    show ?thesis
      unfolding g byte_of_two(1) [OF e assms(2)] byte_of_two(2,3) [OF e assms(2)] using assms(2) by simp
  qed
qed

lemma elem_of_two:
  fixes x y :: nat
  assumes "k * j = 8 * b + s" "s < 8" "k \<le> 9" "s + k \<le> 16" "x < 2 ^ 8"
  shows "bit ((drop_bit s x OR push_bit (8 - s) y) AND mask k) t
       = (t < k \<and> bit (if t < 8 - s then x else y) (if t < 8 - s then s + t else t - (8 - s)))"
    and "t < k \<Longrightarrow> (k * j + t) div 8 = (if t < 8 - s then b else b + 1)"
    and "t < k \<Longrightarrow> (k * j + t) mod 8 = (if t < 8 - s then s + t else t - (8 - s))"
proof -
  show "bit ((drop_bit s x OR push_bit (8 - s) y) AND mask k) t
       = (t < k \<and> bit (if t < 8 - s then x else y) (if t < 8 - s then s + t else t - (8 - s)))"
    using assms bit_nat_small [of x 8 "s + t"] by (auto simp: group_bits bit_mask_iff)
  assume "t < k"
  have pos: "k * j + t = 8 * b + (s + t)" using assms(1) by simp
  have "(s + t) div 8 = (if t < 8 - s then 0 else 1)"
    using assms \<open>t < k\<close> by (auto intro!: div_nat_eqI)
  moreover have "(s + t) mod 8 = (if t < 8 - s then s + t else t - (8 - s))"
    using assms \<open>t < k\<close> by (auto simp: mod_if)
  ultimately show "(k * j + t) div 8 = (if t < 8 - s then b else b + 1)"
    and "(k * j + t) mod 8 = (if t < 8 - s then s + t else t - (8 - s))"
    unfolding pos by auto
qed

lemma unpack_3_group_bit:
  assumes "j < 8" and lt: "\<And>m. m \<le> (3 * j + 3 - 1) div 8 \<Longrightarrow> xs ! (i * 3 + m) < 2 ^ 8"
  shows "bit (unpack_3_group xs i ! j) t = (t < 3 \<and> bit (xs ! (i * 3 + (3 * j + t) div 8)) ((3 * j + t) mod 8))"
proof -
  define y where "y m = xs ! (i * 3 + m)" for m
  then have y: "xs ! (i * 3 + m) = y m" "xs ! (i * 3) = y 0" for m by simp_all
  have nb: "j = 2 \<Longrightarrow> \<not> bit (y 0) 8" "j = 5 \<Longrightarrow> \<not> bit (y (Suc 0)) 8"
    "j = 5 \<Longrightarrow> \<not> bit (y (Suc 0)) 9"
    using bit_nat_small [OF lt [of 0], of 8] bit_nat_small [OF lt [of 1], of 8]
      bit_nat_small [OF lt [of 1], of 9] by (auto simp: y_def)
  have one: "bit (Suc 0) 0" by (simp add: bit_0)
  have m: "bit (7::nat) t = (t < 3)" using bit_mask_iff [of 3 t, where 'a = nat] by (simp add: mask_eq_exp_minus_1)
  show ?thesis
  proof (cases "t < 3")
    case True
    show ?thesis unfolding unpack_3_group_def y
      using rem_cases [OF assms(1)] cases3 [OF True]
      by (elim disjE; hypsubst; simp add: group_bits m nb one numeral_2_eq_2 [symmetric] del: push_bit_Suc drop_bit_Suc)
  next
    case False
    show ?thesis unfolding unpack_3_group_def using rem_cases [OF assms(1)] False
      by (elim disjE) (simp_all add: bit_and_iff m)
  qed
qed

lemma or_and_mask:
  fixes a b :: nat
  assumes "\<And>n. k \<le> n \<Longrightarrow> \<not> bit a n"
  shows "a OR (b AND mask k) = (a OR b) AND mask k"
proof (rule bit_eqI)
  fix n
  show "bit (a OR (b AND mask k)) n = bit ((a OR b) AND mask k) n"
    using assms [of n] by (cases "k \<le> n") (auto simp: bit_and_iff bit_or_iff bit_mask_iff)
qed

lemma unpack_7_group_bit:
  assumes "j < 8" and lt: "\<And>m. m \<le> (7 * j + 7 - 1) div 8 \<Longrightarrow> xs ! (i * 7 + m) < 2 ^ 8"
  shows "bit (unpack_7_group xs i ! j) t = (t < 7 \<and> bit (xs ! (i * 7 + (7 * j + t) div 8)) ((7 * j + t) mod 8))"
proof (cases "j = 0")
  case True
  have m: "bit (127::nat) t = (t < 7)" using bit_mask_iff [of 7 t, where 'a = nat] by (simp add: mask_eq_exp_minus_1)
  show ?thesis using True by (auto simp: unpack_7_group_def bit_and_iff m)
next
  case False
  let ?s = "8 - j" and ?x = "xs ! (i * 7 + (j - 1))" and ?y = "xs ! (i * 7 + (j - 1 + 1))"
  have e: "7 * j = 8 * (j - 1) + ?s" "?s < 8" "7 \<le> (9::nat)" "?s + 7 \<le> 16" "?x < 2 ^ 8"
    using False assms(1) lt [of "j - 1"] by auto
  have small: "\<not> bit (drop_bit ?s ?x) n" if "7 \<le> n" for n
    using bit_nat_small [OF e(5), of "?s + n"] that False assms(1) by (simp add: bit_drop_bit_eq)
  have eq: "unpack_7_group xs i ! j = drop_bit ?s ?x OR (push_bit (8 - ?s) ?y AND 0x7F)" if "j < 7"
    using rem_cases [OF assms(1)] False that by (elim disjE) (simp_all add: unpack_7_group_def)
  have eq7: "unpack_7_group xs i ! j = drop_bit ?s ?x" if "j = 7"
    using that by (simp add: unpack_7_group_def)
  have m: "(127::nat) = mask 7" by (simp add: mask_eq_exp_minus_1)
  have g: "unpack_7_group xs i ! j = (drop_bit ?s ?x OR push_bit (8 - ?s) (if j < 7 then ?y else 0)) AND mask 7"
  proof (cases "j < 7")
    case True
    have "(drop_bit ?s ?x OR (push_bit (8 - ?s) ?y AND mask 7))
        = (drop_bit ?s ?x OR push_bit (8 - ?s) ?y) AND mask 7"
      by (rule or_and_mask [OF small])
    then show ?thesis using eq [OF True] True unfolding m by simp
  next
    case False
    then have "unpack_7_group xs i ! j = drop_bit ?s ?x" using assms(1) by (intro eq7) simp
    moreover have "drop_bit ?s ?x = drop_bit ?s ?x AND mask 7"
      using nat_lt_bits [of 7, OF small] by (simp add: take_bit_eq_mask [symmetric] take_bit_nat_eq_self)
    ultimately show ?thesis using False by simp
  qed
  show ?thesis
    unfolding g elem_of_two(1) [OF e]
    using elem_of_two(2,3) [OF e, of t] assms(1) False by auto
qed

lemma unpack_9_group_bit:
  assumes "j < 8" and lt: "\<And>m. m \<le> (9 * j + 9 - 1) div 8 \<Longrightarrow> xs ! (i * 9 + m) < 2 ^ 8"
  shows "bit (unpack_9_group xs i ! j) t = (t < 9 \<and> bit (xs ! (i * 9 + (9 * j + t) div 8)) ((9 * j + t) mod 8))"
proof -
  have m: "(511::nat) = mask 9" by (simp add: mask_eq_exp_minus_1)
  have g: "unpack_9_group xs i ! j
      = (drop_bit j (xs ! (i * 9 + j)) OR push_bit (8 - j) (xs ! (i * 9 + (j + 1)))) AND mask 9"
    using rem_cases [OF assms(1)] unfolding m [symmetric] by (elim disjE) (simp_all add: unpack_9_group_def)
  have e: "9 * j = 8 * j + j" "j < 8" "9 \<le> (9::nat)" "j + 9 \<le> 16" "xs ! (i * 9 + j) < 2 ^ 8"
    using assms(1) lt [of j] by auto
  show ?thesis
    unfolding g elem_of_two(1) [OF e] using elem_of_two(2,3) [OF e, of t] by auto
qed

interpretation codec3: group_codec 3 pack_3_group pack_3_rest unpack_3_group unpack_3_rest
proof unfold_locales
  fix xs ys :: "nat list" and i :: nat
  show "length (pack_3_group xs i) = 3" "length (unpack_3_group xs i) = 8"
    by (simp_all add: pack_3_group_def unpack_3_group_def)
  assume eq: "\<And>m. m < 8 \<Longrightarrow> xs ! (i * 8 + m) = ys ! (i * 8 + m)"
  show "pack_3_group xs i = pack_3_group ys i"
    unfolding pack_3_group_def using eq [of 0] eq [of 1] eq [of 2] eq by simp
next
  fix xs :: "nat list" and i r :: nat
  assume len: "length xs = i * 8 + r" and r: "r < 8"
  have pad: "(xs @ replicate 8 0) ! (i * 8 + m) = (if m < r then xs ! (i * 8 + m) else 0)" if "m < 8" for m
    using len that by (auto simp: nth_append)
  have pad012: "(xs @ replicate 8 0) ! (i * 8) = (if 0 < r then xs ! (i * 8) else 0)"
    "(xs @ replicate 8 0) ! Suc (i * 8) = (if 1 < r then xs ! Suc (i * 8) else 0)"
    "(xs @ replicate 8 0) ! Suc (Suc (i * 8)) = (if 2 < r then xs ! Suc (Suc (i * 8)) else 0)"
    using pad [of 0] pad [of 1] pad [of 2] by simp_all
  show "pack_3_rest xs i r = take (nbytes 3 r) (pack_3_group (xs @ replicate 8 0) i)"
    unfolding pack_3_group_def using rem_cases [OF r]
    by (elim disjE; hypsubst; simp add: pack_3_rest_def pad pad012 nbytes_def)
next
  fix xs :: "nat list" and i r :: nat
  assume r: "r < 8"
  show "unpack_3_rest xs i r = take r (unpack_3_group xs i)"
    using rem_cases [OF r] by (elim disjE) (simp_all add: unpack_3_rest_def unpack_3_group_def)
next
  fix j t i :: nat and xs :: "nat list"
  assume "j < 3" "t < 8" "\<And>m. m < 8 \<Longrightarrow> xs ! (i * 8 + m) < 2 ^ 3"
  then show "bit (pack_3_group xs i ! j) t = bit (xs ! (i * 8 + (8 * j + t) div 3)) ((8 * j + t) mod 3)"
    by (rule pack_3_group_bit)
next
  fix j t i :: nat and xs :: "nat list"
  assume "j < 8" "\<And>m. m \<le> (3 * j + 3 - 1) div 8 \<Longrightarrow> xs ! (i * 3 + m) < 2 ^ 8"
  then show "bit (unpack_3_group xs i ! j) t
      = (t < 3 \<and> bit (xs ! (i * 3 + (3 * j + t) div 8)) ((3 * j + t) mod 8))"
    by (rule unpack_3_group_bit)
qed simp

interpretation codec7: group_codec 7 pack_7_group pack_7_rest unpack_7_group unpack_7_rest
proof unfold_locales
  fix xs ys :: "nat list" and i :: nat
  show "length (pack_7_group xs i) = 7" "length (unpack_7_group xs i) = 8"
    by (simp_all add: pack_7_group_def unpack_7_group_def)
  assume eq: "\<And>m. m < 8 \<Longrightarrow> xs ! (i * 8 + m) = ys ! (i * 8 + m)"
  show "pack_7_group xs i = pack_7_group ys i"
    unfolding pack_7_group_def using eq [of 0] eq [of 1] eq [of 2] eq by simp
next
  fix xs :: "nat list" and i r :: nat
  assume len: "length xs = i * 8 + r" and r: "r < 8"
  have pad: "(xs @ replicate 8 0) ! (i * 8 + m) = (if m < r then xs ! (i * 8 + m) else 0)" if "m < 8" for m
    using len that by (auto simp: nth_append)
  have pad012: "(xs @ replicate 8 0) ! (i * 8) = (if 0 < r then xs ! (i * 8) else 0)"
    "(xs @ replicate 8 0) ! Suc (i * 8) = (if 1 < r then xs ! Suc (i * 8) else 0)"
    "(xs @ replicate 8 0) ! Suc (Suc (i * 8)) = (if 2 < r then xs ! Suc (Suc (i * 8)) else 0)"
    using pad [of 0] pad [of 1] pad [of 2] by simp_all
  show "pack_7_rest xs i r = take (nbytes 7 r) (pack_7_group (xs @ replicate 8 0) i)"
    unfolding pack_7_group_def using rem_cases [OF r]
    by (elim disjE; hypsubst; simp add: pack_7_rest_def pad pad012 nbytes_def)
next
  fix xs :: "nat list" and i r :: nat
  assume r: "r < 8"
  show "unpack_7_rest xs i r = take r (unpack_7_group xs i)"
    using rem_cases [OF r] by (elim disjE) (simp_all add: unpack_7_rest_def unpack_7_group_def)
next
  fix j t i :: nat and xs :: "nat list"
  assume "j < 7" "t < 8" "\<And>m. m < 8 \<Longrightarrow> xs ! (i * 8 + m) < 2 ^ 7"
  then show "bit (pack_7_group xs i ! j) t = bit (xs ! (i * 8 + (8 * j + t) div 7)) ((8 * j + t) mod 7)"
    by (rule pack_7_group_bit)
next
  fix j t i :: nat and xs :: "nat list"
  assume "j < 8" "\<And>m. m \<le> (7 * j + 7 - 1) div 8 \<Longrightarrow> xs ! (i * 7 + m) < 2 ^ 8"
  then show "bit (unpack_7_group xs i ! j) t
      = (t < 7 \<and> bit (xs ! (i * 7 + (7 * j + t) div 8)) ((7 * j + t) mod 8))"
    by (rule unpack_7_group_bit)
qed simp

interpretation codec9: group_codec 9 pack_9_group pack_9_rest unpack_9_group unpack_9_rest
proof unfold_locales
  fix xs ys :: "nat list" and i :: nat
  show "length (pack_9_group xs i) = 9" "length (unpack_9_group xs i) = 8"
    by (simp_all add: pack_9_group_def unpack_9_group_def)
  assume eq: "\<And>m. m < 8 \<Longrightarrow> xs ! (i * 8 + m) = ys ! (i * 8 + m)"
  show "pack_9_group xs i = pack_9_group ys i"
    unfolding pack_9_group_def using eq [of 0] eq [of 1] eq [of 2] eq by simp
next
  fix xs :: "nat list" and i r :: nat
  assume len: "length xs = i * 8 + r" and r: "r < 8"
  have pad: "(xs @ replicate 8 0) ! (i * 8 + m) = (if m < r then xs ! (i * 8 + m) else 0)" if "m < 8" for m
    using len that by (auto simp: nth_append)
  have pad012: "(xs @ replicate 8 0) ! (i * 8) = (if 0 < r then xs ! (i * 8) else 0)"
    "(xs @ replicate 8 0) ! Suc (i * 8) = (if 1 < r then xs ! Suc (i * 8) else 0)"
    "(xs @ replicate 8 0) ! Suc (Suc (i * 8)) = (if 2 < r then xs ! Suc (Suc (i * 8)) else 0)"
    using pad [of 0] pad [of 1] pad [of 2] by simp_all
  show "pack_9_rest xs i r = take (nbytes 9 r) (pack_9_group (xs @ replicate 8 0) i)"
    unfolding pack_9_group_def using rem_cases [OF r]
    by (elim disjE; hypsubst; simp add: pack_9_rest_def pad pad012 nbytes_def)
next
  fix xs :: "nat list" and i r :: nat
  assume r: "r < 8"
  show "unpack_9_rest xs i r = take r (unpack_9_group xs i)"
    using rem_cases [OF r] by (elim disjE) (simp_all add: unpack_9_rest_def unpack_9_group_def)
next
  fix j t i :: nat and xs :: "nat list"
  assume "j < 9" "t < 8" "\<And>m. m < 8 \<Longrightarrow> xs ! (i * 8 + m) < 2 ^ 9"
  then show "bit (pack_9_group xs i ! j) t = bit (xs ! (i * 8 + (8 * j + t) div 9)) ((8 * j + t) mod 9)"
    by (rule pack_9_group_bit)
next
  fix j t i :: nat and xs :: "nat list"
  assume "j < 8" "\<And>m. m \<le> (9 * j + 9 - 1) div 8 \<Longrightarrow> xs ! (i * 9 + m) < 2 ^ 8"
  then show "bit (unpack_9_group xs i ! j) t
      = (t < 9 \<and> bit (xs ! (i * 9 + (9 * j + t) div 8)) ((9 * j + t) mod 8))"
    by (rule unpack_9_group_bit)
qed simp

interpretation width3: bit_codec 3 generic_pack_3_bit generic_unpack_3_bit
proof unfold_locales
  fix xs :: "nat list" and n b t :: nat
  assume len: "length xs = n"
  let ?l = "concat (map (pack_3_group xs) [0..<n div 8]) @ pack_3_rest xs (n div 8) (n mod 8)"
  have ll: "length ?l = nbytes 3 n" unfolding codec3.packed_eq [OF len] by simp
  then have p: "generic_pack_3_bit (nbytes 3 n) n xs = ?l"
    unfolding generic_pack_3_bit_def and7 write_at_def by simp
  show "length (generic_pack_3_bit (nbytes 3 n) n xs) = nbytes 3 n" unfolding p by (rule ll)
  assume "\<And>x. x \<in> set xs \<Longrightarrow> x < 2 ^ 3" and "b < nbytes 3 n" and "t < 8"
  then show "bit (generic_pack_3_bit (nbytes 3 n) n xs ! b) t
      = bit ((xs @ replicate 8 0) ! ((8 * b + t) div 3)) ((8 * b + t) mod 3)"
    unfolding p by (intro codec3.packed_bit len)
next
  fix bs :: bytes and n j t :: nat
  assume len: "length bs = nbytes 3 n"
  let ?xs = "map unat bs"
  let ?l = "concat (map (unpack_3_group ?xs) [0..<n div 8]) @ unpack_3_rest ?xs (n div 8) (n mod 8)"
  have ll: "length ?l = n" unfolding codec3.unpacked_eq by simp
  have lx: "length ?xs = nbytes 3 n" using len by simp
  have lt: "x < 2 ^ 8" if "x \<in> set ?xs" for x using that unat_byte_lt by auto
  have sm: "take_bit 8 x = x" if "x \<in> set ?l" for x
  proof -
    from that obtain j where "j < n" "?l ! j = x" unfolding in_set_conv_nth ll by blast
    then have "x < 2 ^ 3"
      using codec3.unpacked_bit [OF lx lt, of j] by (intro nat_lt_bits) simp
    then have "x < 2 ^ 8" by (rule order_less_le_trans) simp
    then show ?thesis by (rule take_bit_nat_eq_self)
  qed
  have p: "fst (generic_unpack_3_bit n (nbytes 3 n) bs) = ?l"
    using ll map_idI [of ?l "take_bit 8", OF sm]
    unfolding generic_unpack_3_bit_def and7 write_at_def Let_def by simp
  show "length (fst (generic_unpack_3_bit n (nbytes 3 n) bs)) = n" unfolding p by (rule ll)
  assume j: "j < n"
  have "(k * j + t) div 8 < nbytes k n" if "t < k" for k :: nat
  proof -
    have "k * j + t < k * Suc j" using that by simp
    also have "\<dots> \<le> k * n" using j by (intro mult_le_mono2) simp
    finally show ?thesis by (simp add: nbytes_def div_less_iff_less_mult less_eq_div_iff_mult_less_eq)
  qed
  moreover have "bit (?l ! j) t = (t < 3 \<and> bit (?xs ! ((3 * j + t) div 8)) ((3 * j + t) mod 8))"
    by (rule codec3.unpacked_bit [OF lx _ j]) (rule lt)
  ultimately show "bit (fst (generic_unpack_3_bit n (nbytes 3 n) bs) ! j) t
      = (t < 3 \<and> bit (bs ! ((3 * j + t) div 8)) ((3 * j + t) mod 8))"
    unfolding p using len by (auto simp: bit_unsigned_iff)
qed simp

interpretation width7: bit_codec 7 generic_pack_7_bit generic_unpack_7_bit
proof unfold_locales
  fix xs :: "nat list" and n b t :: nat
  assume len: "length xs = n"
  let ?l = "concat (map (pack_7_group xs) [0..<n div 8]) @ pack_7_rest xs (n div 8) (n mod 8)"
  have ll: "length ?l = nbytes 7 n" unfolding codec7.packed_eq [OF len] by simp
  then have p: "generic_pack_7_bit (nbytes 7 n) n xs = ?l"
    unfolding generic_pack_7_bit_def and7 write_at_def by simp
  show "length (generic_pack_7_bit (nbytes 7 n) n xs) = nbytes 7 n" unfolding p by (rule ll)
  assume "\<And>x. x \<in> set xs \<Longrightarrow> x < 2 ^ 7" and "b < nbytes 7 n" and "t < 8"
  then show "bit (generic_pack_7_bit (nbytes 7 n) n xs ! b) t
      = bit ((xs @ replicate 8 0) ! ((8 * b + t) div 7)) ((8 * b + t) mod 7)"
    unfolding p by (intro codec7.packed_bit len)
next
  fix bs :: bytes and n j t :: nat
  assume len: "length bs = nbytes 7 n"
  let ?xs = "map unat bs"
  let ?l = "concat (map (unpack_7_group ?xs) [0..<n div 8]) @ unpack_7_rest ?xs (n div 8) (n mod 8)"
  have ll: "length ?l = n" unfolding codec7.unpacked_eq by simp
  have lx: "length ?xs = nbytes 7 n" using len by simp
  have lt: "x < 2 ^ 8" if "x \<in> set ?xs" for x using that unat_byte_lt by auto
  have sm: "take_bit 8 x = x" if "x \<in> set ?l" for x
  proof -
    from that obtain j where "j < n" "?l ! j = x" unfolding in_set_conv_nth ll by blast
    then have "x < 2 ^ 7"
      using codec7.unpacked_bit [OF lx lt, of j] by (intro nat_lt_bits) simp
    then have "x < 2 ^ 8" by (rule order_less_le_trans) simp
    then show ?thesis by (rule take_bit_nat_eq_self)
  qed
  have p: "fst (generic_unpack_7_bit n (nbytes 7 n) bs) = ?l"
    using ll map_idI [of ?l "take_bit 8", OF sm]
    unfolding generic_unpack_7_bit_def and7 write_at_def Let_def by simp
  show "length (fst (generic_unpack_7_bit n (nbytes 7 n) bs)) = n" unfolding p by (rule ll)
  assume j: "j < n"
  have "(k * j + t) div 8 < nbytes k n" if "t < k" for k :: nat
  proof -
    have "k * j + t < k * Suc j" using that by simp
    also have "\<dots> \<le> k * n" using j by (intro mult_le_mono2) simp
    finally show ?thesis by (simp add: nbytes_def div_less_iff_less_mult less_eq_div_iff_mult_less_eq)
  qed
  moreover have "bit (?l ! j) t = (t < 7 \<and> bit (?xs ! ((7 * j + t) div 8)) ((7 * j + t) mod 8))"
    by (rule codec7.unpacked_bit [OF lx _ j]) (rule lt)
  ultimately show "bit (fst (generic_unpack_7_bit n (nbytes 7 n) bs) ! j) t
      = (t < 7 \<and> bit (bs ! ((7 * j + t) div 8)) ((7 * j + t) mod 8))"
    unfolding p using len by (auto simp: bit_unsigned_iff)
qed simp

interpretation width9: bit_codec 9 generic_pack_9_bit generic_unpack_9_bit
proof unfold_locales
  fix xs :: "nat list" and n b t :: nat
  assume len: "length xs = n"
  let ?l = "concat (map (pack_9_group xs) [0..<n div 8]) @ pack_9_rest xs (n div 8) (n mod 8)"
  have ll: "length ?l = nbytes 9 n" unfolding codec9.packed_eq [OF len] by simp
  then have p: "generic_pack_9_bit (nbytes 9 n) n xs = ?l"
    unfolding generic_pack_9_bit_def and7 write_at_def by simp
  show "length (generic_pack_9_bit (nbytes 9 n) n xs) = nbytes 9 n" unfolding p by (rule ll)
  assume "\<And>x. x \<in> set xs \<Longrightarrow> x < 2 ^ 9" and "b < nbytes 9 n" and "t < 8"
  then show "bit (generic_pack_9_bit (nbytes 9 n) n xs ! b) t
      = bit ((xs @ replicate 8 0) ! ((8 * b + t) div 9)) ((8 * b + t) mod 9)"
    unfolding p by (intro codec9.packed_bit len)
next
  fix bs :: bytes and n j t :: nat
  assume len: "length bs = nbytes 9 n"
  let ?xs = "map unat bs"
  let ?l = "concat (map (unpack_9_group ?xs) [0..<n div 8]) @ unpack_9_rest ?xs (n div 8) (n mod 8)"
  have ll: "length ?l = n" unfolding codec9.unpacked_eq by simp
  have lx: "length ?xs = nbytes 9 n" using len by simp
  have lt: "x < 2 ^ 8" if "x \<in> set ?xs" for x using that unat_byte_lt by auto
  have sm: "take_bit 16 x = x" if "x \<in> set ?l" for x
  proof -
    from that obtain j where "j < n" "?l ! j = x" unfolding in_set_conv_nth ll by blast
    then have "x < 2 ^ 9"
      using codec9.unpacked_bit [OF lx lt, of j] by (intro nat_lt_bits) simp
    then have "x < 2 ^ 16" by (rule order_less_le_trans) simp
    then show ?thesis by (rule take_bit_nat_eq_self)
  qed
  have nine: "nbytes 9 n div 9 = n div 8"
  proof -
    have "nbytes 9 (n mod 8) < 9" using nbytes_mult_8 [of 9 "n mod 8"] by simp
    then show ?thesis unfolding nbytes_split [of 9 n] by simp
  qed
  have p: "fst (generic_unpack_9_bit n (nbytes 9 n) bs) = ?l"
    using ll map_idI [of ?l "take_bit 16", OF sm]
    unfolding generic_unpack_9_bit_def and7 write_at_def Let_def nine by simp
  show "length (fst (generic_unpack_9_bit n (nbytes 9 n) bs)) = n" unfolding p by (rule ll)
  assume j: "j < n"
  have "(k * j + t) div 8 < nbytes k n" if "t < k" for k :: nat
  proof -
    have "k * j + t < k * Suc j" using that by simp
    also have "\<dots> \<le> k * n" using j by (intro mult_le_mono2) simp
    finally show ?thesis by (simp add: nbytes_def div_less_iff_less_mult less_eq_div_iff_mult_less_eq)
  qed
  moreover have "bit (?l ! j) t = (t < 9 \<and> bit (?xs ! ((9 * j + t) div 8)) ((9 * j + t) mod 8))"
    by (rule codec9.unpacked_bit [OF lx _ j]) (rule lt)
  ultimately show "bit (fst (generic_unpack_9_bit n (nbytes 9 n) bs) ! j) t
      = (t < 9 \<and> bit (bs ! ((9 * j + t) div 8)) ((9 * j + t) mod 8))"
    unfolding p using len by (auto simp: bit_unsigned_iff)
qed simp

section \<open>The padding flag\<close>

lemma mask_clear:
  assumes "x < 2 ^ 8"
  shows "x AND push_bit u 0xFF = (0::nat) \<longleftrightarrow> (\<forall>t < 8. u \<le> t \<longrightarrow> \<not> bit x t)"
proof -
  have m: "(255::nat) = mask 8" by (simp add: mask_eq_exp_minus_1)
  have hi: "\<not> bit x t" if "8 \<le> t" for t using bit_nat_small [OF assms that] .
  have "x AND push_bit u 0xFF = 0 \<longleftrightarrow> (\<forall>t. \<not> (bit x t \<and> u \<le> t \<and> t - u < 8))"
    unfolding m by (simp add: bit_eq_iff group_bits bit_mask_iff)
  also have "\<dots> \<longleftrightarrow> (\<forall>t < 8. u \<le> t \<longrightarrow> \<not> bit x t)"
    using hi not_less by (metis le_add_diff_inverse less_diff_conv2 less_imp_diff_less)
  finally show ?thesis .
qed

lemma round_up_8: "m mod 8 = 0 \<Longrightarrow> 8 * ((m + 7) div 8) = (m::nat)"
  by presburger

lemma same_octet:
  "m < 8 * (N div 8 + 1) \<Longrightarrow> N \<le> m \<Longrightarrow> m div 8 = N div 8 \<and> N mod 8 \<le> m mod (8::nat)"
proof -
  assume m: "m < 8 * (N div 8 + 1)" and le: "N \<le> m"
  have "m div 8 < N div 8 + 1" using m by (intro less_mult_imp_div_less) (simp add: mult.commute)
  then have q: "m div 8 = N div 8" using div_le_mono [OF le, of 8] by simp
  then show ?thesis using le minus_div_mult_eq_mod [of m 8] minus_div_mult_eq_mod [of N 8] diff_le_mono [OF le]
    by metis
qed

lemma padding_clear_last:
  assumes len: "length bs = nbytes k n"
  shows "padding_clear k n bs \<longleftrightarrow>
    (k * n mod 8 = 0 \<or> unat (bs ! (nbytes k n - 1)) AND push_bit (k * n mod 8) 0xFF = 0)"
proof (cases "k * n mod 8 = 0")
  case True
  have "8 * nbytes k n = k * n" unfolding nbytes_def by (rule round_up_8 [OF True])
  then show ?thesis using True len by (simp add: padding_clear_def)
next
  case False
  let ?u = "k * n mod 8" and ?q = "k * n div 8"
  have kn: "k * n = 8 * ?q + ?u" by simp
  have nb: "nbytes k n = ?q + 1"
    unfolding nbytes_def using False kn by linarith
  have "padding_clear k n bs \<longleftrightarrow> (\<forall>t < 8. ?u \<le> t \<longrightarrow> \<not> bit (bs ! ?q) t)"
  proof
    assume "padding_clear k n bs"
    then have *: "m < 8 * ?q + 8 \<Longrightarrow> 8 * ?q + ?u \<le> m \<Longrightarrow> \<not> bit (bs ! (m div 8)) (m mod 8)" for m
      unfolding padding_clear_def len nb using kn by simp
    show "\<forall>t < 8. ?u \<le> t \<longrightarrow> \<not> bit (bs ! ?q) t"
    proof (intro allI impI)
      fix t :: nat
      assume "t < 8" and "?u \<le> t"
      moreover from this have "8 * ?q + ?u \<le> 8 * ?q + t" by linarith
      ultimately show "\<not> bit (bs ! ?q) t" using * [of "8 * ?q + t"] by simp
    qed
  next
    assume *: "\<forall>t < 8. ?u \<le> t \<longrightarrow> \<not> bit (bs ! ?q) t"
    show "padding_clear k n bs" unfolding padding_clear_def len nb
    proof (intro allI impI)
      fix m
      assume "m < 8 * (?q + 1)" and m: "k * n \<le> m"
      then have "m div 8 = ?q" "?u \<le> m mod 8" using same_octet by blast+
      with * show "\<not> bit (bs ! (m div 8)) (m mod 8)" by simp
    qed
  qed
  then show ?thesis using False mask_clear [OF unat_byte_lt, of "bs ! ?q" ?u]
    by (simp add: nb bit_unsigned_iff)
qed

lemma snd_unpack_7:
  "snd (generic_unpack_7_bit n m bs)
   = (0 < n mod 8 \<longrightarrow> map unat bs ! (m - 1) AND push_bit (8 - n mod 8) 0xFF = 0)"
  by (simp add: generic_unpack_7_bit_def Let_def and7)

lemma snd_unpack_9:
  "snd (generic_unpack_9_bit n m bs)
   = (0 < n mod 8 \<longrightarrow> map unat bs ! (m - 1) AND push_bit (n mod 8) 0xFF = 0)"
  by (simp add: generic_unpack_9_bit_def Let_def and7)

lemma last_byte: "length bs = nbytes k n \<Longrightarrow> 0 < k \<Longrightarrow> 0 < n \<Longrightarrow> nbytes k n - 1 < length bs"
  by (cases k; cases n) (simp_all add: nbytes_def)

interpretation checked7: checked_codec 7 generic_pack_7_bit generic_unpack_7_bit
proof unfold_locales
  fix bs :: bytes and n :: nat
  assume len: "length bs = nbytes 7 n"
  have "7 * n mod 8 = 7 * (n mod 8) mod 8" by (simp add: mod_mult_right_eq)
  also have "\<dots> = (if n mod 8 = 0 then 0 else 8 - n mod 8)"
    using rem_cases [of "n mod 8"] by auto
  finally have u: "7 * n mod 8 = (if n mod 8 = 0 then 0 else 8 - n mod 8)" .
  have "8 - n mod 8 \<noteq> 0" by (simp add: not_le)
  then show "snd (generic_unpack_7_bit n (nbytes 7 n) bs) = padding_clear 7 n bs"
    using last_byte [OF len] unfolding snd_unpack_7 padding_clear_last [OF len] u by auto
qed

interpretation checked9: checked_codec 9 generic_pack_9_bit generic_unpack_9_bit
proof unfold_locales
  fix bs :: bytes and n :: nat
  assume len: "length bs = nbytes 9 n"
  have "9 * n mod 8 = 9 * (n mod 8) mod 8" by (simp add: mod_mult_right_eq)
  also have "\<dots> = n mod 8" using rem_cases [of "n mod 8"] by auto
  finally have u: "9 * n mod 8 = n mod 8" .
  show "snd (generic_unpack_9_bit n (nbytes 9 n) bs) = padding_clear 9 n bs"
    using last_byte [OF len] unfolding snd_unpack_9 padding_clear_last [OF len] u by auto
qed

lemma unpack_3_flag: "snd (generic_unpack_3_bit n m bs)"
proof -
  have m: "(7::nat) = mask 3" by (simp add: mask_eq_exp_minus_1)
  have "push_bit (n mod 8 * 3) 255 AND (7::nat) = 0" if "0 < n mod 8"
    unfolding m using that by (intro bit_eqI) (auto simp: group_bits bit_mask_iff)
  then show ?thesis by (simp add: generic_unpack_3_bit_def Let_def and7)
qed

section \<open>The vectors of the scheme\<close>

lemma packed_size_eq:
  assumes "0 < k" "k \<le> 16" "2 ^ (k - 1) \<le> q - 1" "q - 1 < 2 ^ k"
  shows "packed_size n q = nbytes k n"
proof -
  have "BITS_TO_REPRESENT (q - 1) = k" using assms by (intro BITS_TO_REPRESENT_eqI)
  then show ?thesis unfolding nbytes_split [of k n]
    by (simp add: packed_size_def ROUND_UP_def nbytes_def mult.commute)
qed

definition fp_bits :: "rsdp_variant \<Rightarrow> nat" where
  "fp_bits v = (case v of RSDP \<Rightarrow> 7 | RSDPG \<Rightarrow> 9)"

definition fz_bits :: "rsdp_variant \<Rightarrow> nat" where
  "fz_bits v = (case v of RSDP \<Rightarrow> 3 | RSDPG \<Rightarrow> 7)"

lemma packed_sizes:
  "packed_size n (par_P v) = nbytes (fp_bits v) n" "packed_size n (par_Z v) = nbytes (fz_bits v) n"
  by (cases v; simp add: fp_bits_def fz_bits_def packed_size_eq)+

lemma P_le_bits: "par_P v \<le> 2 ^ fp_bits v" "par_Z v < 2 ^ fz_bits v"
  by (cases v; simp add: fp_bits_def fz_bits_def)+

lemma generic_pack_fp_eq:
  "generic_pack_fp RSDP = generic_pack_7_bit" "generic_pack_fp RSDPG = generic_pack_9_bit"
  "generic_unpack_fp RSDP = generic_unpack_7_bit" "generic_unpack_fp RSDPG = generic_unpack_9_bit"
  "generic_pack_fz RSDP = generic_pack_3_bit" "generic_pack_fz RSDPG = generic_pack_7_bit"
  "generic_unpack_fz RSDP = generic_unpack_3_bit" "generic_unpack_fz RSDPG = generic_unpack_7_bit"
  by (intro ext; simp)+

interpretation fp_codec: checked_codec "fp_bits v" "generic_pack_fp v" "generic_unpack_fp v" for v
proof -
  show "checked_codec (fp_bits v) (generic_pack_fp v) (generic_unpack_fp v)"
    using checked7.checked_codec_axioms checked9.checked_codec_axioms
    by (cases v) (simp_all add: fp_bits_def generic_pack_fp_eq)
qed

interpretation fz_codec: bit_codec "fz_bits v" "generic_pack_fz v" "generic_unpack_fz v" for v
proof -
  show "bit_codec (fz_bits v) (generic_pack_fz v) (generic_unpack_fz v)"
    using width3.bit_codec_axioms width7.bit_codec_axioms
    by (cases v) (simp_all add: fz_bits_def generic_pack_fp_eq)
qed

lemma fz_unpack_pack_ok:
  assumes "length xs = n" and "\<And>x. x \<in> set xs \<Longrightarrow> x < 2 ^ fz_bits v"
  shows "generic_unpack_fz v n (nbytes (fz_bits v) n) (generic_pack_fz v (nbytes (fz_bits v) n) n xs) = (xs, True)"
proof (cases v)
  case RSDP
  then show ?thesis using fz_codec.unpack_pack [OF assms] unpack_3_flag
    by (metis generic_pack_fp_eq(7) prod.collapse)
next
  case RSDPG
  then show ?thesis using checked7.unpack_pack_ok [OF assms(1)] assms(2)
    by (simp add: generic_pack_fp_eq fz_bits_def)
qed

lemma length_pack [len_simps, simp]:
  "length xs = par_N p \<Longrightarrow> length (pack_fp_vec p xs) = DENSELY_PACKED_FP_VEC_SIZE p"
  "length xs = par_N p - par_K p \<Longrightarrow> length (pack_fp_syn p xs) = DENSELY_PACKED_FP_SYN_SIZE p"
  "length xs = par_N p \<Longrightarrow> length (pack_fz_vec p xs) = DENSELY_PACKED_FZ_VEC_SIZE p"
  "length xs = par_M p \<Longrightarrow> length (pack_fz_rsdp_g_vec p xs) = DENSELY_PACKED_FZ_RSDP_G_VEC_SIZE p"
  by (simp_all add: pack_fp_vec_def pack_fp_syn_def pack_fz_vec_def pack_fz_rsdp_g_vec_def packed_sizes
      DENSELY_PACKED_FP_VEC_SIZE_def DENSELY_PACKED_FP_SYN_SIZE_def DENSELY_PACKED_FZ_VEC_SIZE_def
      DENSELY_PACKED_FZ_RSDP_G_VEC_SIZE_def fp_codec.length_pack fz_codec.length_pack)

lemmas sizes_def = DENSELY_PACKED_FP_VEC_SIZE_def DENSELY_PACKED_FP_SYN_SIZE_def
  DENSELY_PACKED_FZ_VEC_SIZE_def DENSELY_PACKED_FZ_RSDP_G_VEC_SIZE_def packed_sizes

lemma unpack_fp_vec_pack:
  "length xs = par_N p \<Longrightarrow> (\<And>x. x \<in> set xs \<Longrightarrow> x < 2 ^ fp_bits (variant p)) \<Longrightarrow>
   unpack_fp_vec p (pack_fp_vec p xs) = (xs, True)"
  unfolding unpack_fp_vec_def pack_fp_vec_def sizes_def by (rule fp_codec.unpack_pack_ok)

lemma unpack_fp_syn_pack:
  "length xs = par_N p - par_K p \<Longrightarrow> (\<And>x. x \<in> set xs \<Longrightarrow> x < 2 ^ fp_bits (variant p)) \<Longrightarrow>
   unpack_fp_syn p (pack_fp_syn p xs) = (xs, True)"
  unfolding unpack_fp_syn_def pack_fp_syn_def sizes_def by (rule fp_codec.unpack_pack_ok)

lemma unpack_fz_vec_pack:
  "length xs = par_N p \<Longrightarrow> (\<And>x. x \<in> set xs \<Longrightarrow> x < 2 ^ fz_bits (variant p)) \<Longrightarrow>
   unpack_fz_vec p (pack_fz_vec p xs) = (xs, True)"
  unfolding unpack_fz_vec_def pack_fz_vec_def sizes_def by (rule fz_unpack_pack_ok)

lemma unpack_fz_rsdp_g_vec_pack:
  "length xs = par_M p \<Longrightarrow> (\<And>x. x \<in> set xs \<Longrightarrow> x < 2 ^ fz_bits (variant p)) \<Longrightarrow>
   unpack_fz_rsdp_g_vec p (pack_fz_rsdp_g_vec p xs) = (xs, True)"
  unfolding unpack_fz_rsdp_g_vec_def pack_fz_rsdp_g_vec_def sizes_def by (rule fz_unpack_pack_ok)

end
