(* ===== verification/Keccak.thy ===== *)
theory Keccak
  imports Parameters
begin

unbundle bit_operations_syntax

text \<open>
  The permutation Keccak-f[1600],
  \<^verbatim>\<open>cross/Reference_Implementation/lib/keccakf1600.c\<close>: the state is an array of
  25 lanes (\<open>uint64_t\<close>), the byte-wise access routines read and XOR bytes in
  little-endian order, and the round function is unrolled twice, once from the
  local variables \<open>A..\<close> to \<open>E..\<close> and once back. The unrolled code is proved equal to
  the composition of the five step mappings, and its table of constants to
  the linear feedback shift register that defines them.
\<close>

section \<open>The code\<close>

definition NROUNDS :: nat where
  "NROUNDS = 24"

definition ROL :: "u64 \<Rightarrow> nat \<Rightarrow> u64" where
  "ROL a offset = push_bit offset a XOR drop_bit (64 - offset) a"

definition KeccakF_RoundConstants :: "u64 list" where
  "KeccakF_RoundConstants =
    [0x0000000000000001, 0x0000000000008082, 0x800000000000808a, 0x8000000080008000,
     0x000000000000808b, 0x0000000080000001, 0x8000000080008081, 0x8000000000008009,
     0x000000000000008a, 0x0000000000000088, 0x0000000080008009, 0x000000008000000a,
     0x000000008000808b, 0x800000000000008b, 0x8000000000008089, 0x8000000000008003,
     0x8000000000008002, 0x8000000000000080, 0x000000000000800a, 0x800000008000000a,
     0x8000000080008081, 0x8000000000008080, 0x0000000080000001, 0x8000000080008008]"

definition KeccakF1600_StateExtractBytes :: "u64 list \<Rightarrow> nat \<Rightarrow> nat \<Rightarrow> bytes" where
  "KeccakF1600_StateExtractBytes state offset len =
     map (\<lambda>i. ucast (drop_bit (8 * ((offset + i) AND 0x07)) (state ! drop_bit 3 (offset + i)))) [0..<len]"

definition KeccakF1600_StateXORBytes :: "u64 list \<Rightarrow> bytes \<Rightarrow> nat \<Rightarrow> nat \<Rightarrow> u64 list" where
  "KeccakF1600_StateXORBytes state data offset len =
     foldl (\<lambda>state i. state[drop_bit 3 (offset + i) :=
         state ! drop_bit 3 (offset + i) XOR push_bit (8 * ((offset + i) AND 0x07)) (ucast (data ! i))])
       state [0..<len]"

text \<open>
  One pass of the loop body: the first half reads the variables \<open>A..\<close> and writes
  \<open>E..\<close> (round constant \<open>KeccakF_RoundConstants[round]\<close>), the second half goes
  back (\<open>round+1\<close>). The variables \<open>B..\<close>, \<open>C..\<close> and \<open>D..\<close> are re-assigned as in the code.
\<close>

definition keccak_round_A_E :: "u64 \<Rightarrow> u64 list \<Rightarrow> u64 list" where
  "keccak_round_A_E rc A =
    (let Aba = A ! 0; Abe = A ! 1; Abi = A ! 2; Abo = A ! 3; Abu = A ! 4;
         Aga = A ! 5; Age = A ! 6; Agi = A ! 7; Ago = A ! 8; Agu = A ! 9;
         Aka = A ! 10; Ake = A ! 11; Aki = A ! 12; Ako = A ! 13; Aku = A ! 14;
         Ama = A ! 15; Ame = A ! 16; Ami = A ! 17; Amo = A ! 18; Amu = A ! 19;
         Asa = A ! 20; Ase = A ! 21; Asi = A ! 22; Aso = A ! 23; Asu = A ! 24;
         BCa = Aba XOR Aga XOR Aka XOR Ama XOR Asa;
         BCe = Abe XOR Age XOR Ake XOR Ame XOR Ase;
         BCi = Abi XOR Agi XOR Aki XOR Ami XOR Asi;
         BCo = Abo XOR Ago XOR Ako XOR Amo XOR Aso;
         BCu = Abu XOR Agu XOR Aku XOR Amu XOR Asu; Da = BCu XOR ROL BCe 1;
         De = BCa XOR ROL BCi 1; Di = BCe XOR ROL BCo 1;
         Do = BCi XOR ROL BCu 1; Du = BCo XOR ROL BCa 1;
         Aba = Aba XOR Da; BCa = Aba;
         Age = Age XOR De; BCe = ROL Age 44;
         Aki = Aki XOR Di; BCi = ROL Aki 43;
         Amo = Amo XOR Do; BCo = ROL Amo 21;
         Asu = Asu XOR Du; BCu = ROL Asu 14;
         Eba = BCa XOR (NOT BCe AND BCi); Eba = Eba XOR rc;
         Ebe = BCe XOR (NOT BCi AND BCo); Ebi = BCi XOR (NOT BCo AND BCu);
         Ebo = BCo XOR (NOT BCu AND BCa); Ebu = BCu XOR (NOT BCa AND BCe);
         Abo = Abo XOR Do; BCa = ROL Abo 28;
         Agu = Agu XOR Du; BCe = ROL Agu 20;
         Aka = Aka XOR Da; BCi = ROL Aka 3;
         Ame = Ame XOR De; BCo = ROL Ame 45;
         Asi = Asi XOR Di; BCu = ROL Asi 61;
         Ega = BCa XOR (NOT BCe AND BCi); Ege = BCe XOR (NOT BCi AND BCo);
         Egi = BCi XOR (NOT BCo AND BCu); Ego = BCo XOR (NOT BCu AND BCa);
         Egu = BCu XOR (NOT BCa AND BCe); Abe = Abe XOR De;
         BCa = ROL Abe 1; Agi = Agi XOR Di;
         BCe = ROL Agi 6; Ako = Ako XOR Do;
         BCi = ROL Ako 25; Amu = Amu XOR Du;
         BCo = ROL Amu 8; Asa = Asa XOR Da;
         BCu = ROL Asa 18; Eka = BCa XOR (NOT BCe AND BCi);
         Eke = BCe XOR (NOT BCi AND BCo); Eki = BCi XOR (NOT BCo AND BCu);
         Eko = BCo XOR (NOT BCu AND BCa); Eku = BCu XOR (NOT BCa AND BCe);
         Abu = Abu XOR Du; BCa = ROL Abu 27;
         Aga = Aga XOR Da; BCe = ROL Aga 36;
         Ake = Ake XOR De; BCi = ROL Ake 10;
         Ami = Ami XOR Di; BCo = ROL Ami 15;
         Aso = Aso XOR Do; BCu = ROL Aso 56;
         Ema = BCa XOR (NOT BCe AND BCi); Eme = BCe XOR (NOT BCi AND BCo);
         Emi = BCi XOR (NOT BCo AND BCu); Emo = BCo XOR (NOT BCu AND BCa);
         Emu = BCu XOR (NOT BCa AND BCe); Abi = Abi XOR Di;
         BCa = ROL Abi 62; Ago = Ago XOR Do;
         BCe = ROL Ago 55; Aku = Aku XOR Du;
         BCi = ROL Aku 39; Ama = Ama XOR Da;
         BCo = ROL Ama 41; Ase = Ase XOR De;
         BCu = ROL Ase 2; Esa = BCa XOR (NOT BCe AND BCi);
         Ese = BCe XOR (NOT BCi AND BCo); Esi = BCi XOR (NOT BCo AND BCu);
         Eso = BCo XOR (NOT BCu AND BCa); Esu = BCu XOR (NOT BCa AND BCe)
     in [Eba, Ebe, Ebi, Ebo, Ebu,
         Ega, Ege, Egi, Ego, Egu,
         Eka, Eke, Eki, Eko, Eku,
         Ema, Eme, Emi, Emo, Emu,
         Esa, Ese, Esi, Eso, Esu])"

definition keccak_round_E_A :: "u64 \<Rightarrow> u64 list \<Rightarrow> u64 list" where
  "keccak_round_E_A rc E =
    (let Eba = E ! 0; Ebe = E ! 1; Ebi = E ! 2; Ebo = E ! 3; Ebu = E ! 4;
         Ega = E ! 5; Ege = E ! 6; Egi = E ! 7; Ego = E ! 8; Egu = E ! 9;
         Eka = E ! 10; Eke = E ! 11; Eki = E ! 12; Eko = E ! 13; Eku = E ! 14;
         Ema = E ! 15; Eme = E ! 16; Emi = E ! 17; Emo = E ! 18; Emu = E ! 19;
         Esa = E ! 20; Ese = E ! 21; Esi = E ! 22; Eso = E ! 23; Esu = E ! 24;
         BCa = Eba XOR Ega XOR Eka XOR Ema XOR Esa;
         BCe = Ebe XOR Ege XOR Eke XOR Eme XOR Ese;
         BCi = Ebi XOR Egi XOR Eki XOR Emi XOR Esi;
         BCo = Ebo XOR Ego XOR Eko XOR Emo XOR Eso;
         BCu = Ebu XOR Egu XOR Eku XOR Emu XOR Esu; Da = BCu XOR ROL BCe 1;
         De = BCa XOR ROL BCi 1; Di = BCe XOR ROL BCo 1;
         Do = BCi XOR ROL BCu 1; Du = BCo XOR ROL BCa 1;
         Eba = Eba XOR Da; BCa = Eba;
         Ege = Ege XOR De; BCe = ROL Ege 44;
         Eki = Eki XOR Di; BCi = ROL Eki 43;
         Emo = Emo XOR Do; BCo = ROL Emo 21;
         Esu = Esu XOR Du; BCu = ROL Esu 14;
         Aba = BCa XOR (NOT BCe AND BCi); Aba = Aba XOR rc;
         Abe = BCe XOR (NOT BCi AND BCo); Abi = BCi XOR (NOT BCo AND BCu);
         Abo = BCo XOR (NOT BCu AND BCa); Abu = BCu XOR (NOT BCa AND BCe);
         Ebo = Ebo XOR Do; BCa = ROL Ebo 28;
         Egu = Egu XOR Du; BCe = ROL Egu 20;
         Eka = Eka XOR Da; BCi = ROL Eka 3;
         Eme = Eme XOR De; BCo = ROL Eme 45;
         Esi = Esi XOR Di; BCu = ROL Esi 61;
         Aga = BCa XOR (NOT BCe AND BCi); Age = BCe XOR (NOT BCi AND BCo);
         Agi = BCi XOR (NOT BCo AND BCu); Ago = BCo XOR (NOT BCu AND BCa);
         Agu = BCu XOR (NOT BCa AND BCe); Ebe = Ebe XOR De;
         BCa = ROL Ebe 1; Egi = Egi XOR Di;
         BCe = ROL Egi 6; Eko = Eko XOR Do;
         BCi = ROL Eko 25; Emu = Emu XOR Du;
         BCo = ROL Emu 8; Esa = Esa XOR Da;
         BCu = ROL Esa 18; Aka = BCa XOR (NOT BCe AND BCi);
         Ake = BCe XOR (NOT BCi AND BCo); Aki = BCi XOR (NOT BCo AND BCu);
         Ako = BCo XOR (NOT BCu AND BCa); Aku = BCu XOR (NOT BCa AND BCe);
         Ebu = Ebu XOR Du; BCa = ROL Ebu 27;
         Ega = Ega XOR Da; BCe = ROL Ega 36;
         Eke = Eke XOR De; BCi = ROL Eke 10;
         Emi = Emi XOR Di; BCo = ROL Emi 15;
         Eso = Eso XOR Do; BCu = ROL Eso 56;
         Ama = BCa XOR (NOT BCe AND BCi); Ame = BCe XOR (NOT BCi AND BCo);
         Ami = BCi XOR (NOT BCo AND BCu); Amo = BCo XOR (NOT BCu AND BCa);
         Amu = BCu XOR (NOT BCa AND BCe); Ebi = Ebi XOR Di;
         BCa = ROL Ebi 62; Ego = Ego XOR Do;
         BCe = ROL Ego 55; Eku = Eku XOR Du;
         BCi = ROL Eku 39; Ema = Ema XOR Da;
         BCo = ROL Ema 41; Ese = Ese XOR De;
         BCu = ROL Ese 2; Asa = BCa XOR (NOT BCe AND BCi);
         Ase = BCe XOR (NOT BCi AND BCo); Asi = BCi XOR (NOT BCo AND BCu);
         Aso = BCo XOR (NOT BCu AND BCa); Asu = BCu XOR (NOT BCa AND BCe)
     in [Aba, Abe, Abi, Abo, Abu,
         Aga, Age, Agi, Ago, Agu,
         Aka, Ake, Aki, Ako, Aku,
         Ama, Ame, Ami, Amo, Amu,
         Asa, Ase, Asi, Aso, Asu])"


definition KeccakF1600_StatePermute :: "u64 list \<Rightarrow> u64 list" where
  "KeccakF1600_StatePermute state =
     foldl (\<lambda>A round. keccak_round_E_A (KeccakF_RoundConstants ! (round + 1))
                       (keccak_round_A_E (KeccakF_RoundConstants ! round) A))
       state (map (\<lambda>i. 2 * i) [0..<NROUNDS div 2])"

section \<open>The step mappings\<close>

text \<open>
  The reference: lane \<open>(x, y)\<close> is entry \<open>x + 5 y\<close>. The rotation offsets are given by
  the walk of FIPS 202, section 3.2.2; the table used below is proved equal to it.
\<close>

definition theta_C :: "u64 list \<Rightarrow> nat \<Rightarrow> u64" where
  "theta_C A x = A ! x XOR A ! (x + 5) XOR A ! (x + 10) XOR A ! (x + 15) XOR A ! (x + 20)"

definition theta :: "u64 list \<Rightarrow> u64 list" where
  "theta A = map (\<lambda>i. A ! i XOR (theta_C A ((i mod 5 + 4) mod 5)
       XOR word_rotl 1 (theta_C A ((i mod 5 + 1) mod 5)))) [0..<25]"

definition rho_offsets :: "nat list" where
  "rho_offsets = [0, 1, 62, 28, 27, 36, 44, 6, 55, 20, 3, 10, 43, 25, 39,
                  41, 45, 15, 21, 8, 18, 2, 61, 56, 14]"

definition rho :: "u64 list \<Rightarrow> u64 list" where
  "rho A = map (\<lambda>i. word_rotl (rho_offsets ! i) (A ! i)) [0..<25]"

definition pi_step :: "u64 list \<Rightarrow> u64 list" where
  "pi_step A = map (\<lambda>i. let x = i mod 5; y = i div 5 in A ! ((x + 3 * y) mod 5 + 5 * x)) [0..<25]"

definition chi :: "u64 list \<Rightarrow> u64 list" where
  "chi A = map (\<lambda>i. let x = i mod 5; y = i div 5 in
       A ! i XOR (NOT (A ! ((x + 1) mod 5 + 5 * y)) AND A ! ((x + 2) mod 5 + 5 * y))) [0..<25]"

definition iota :: "u64 \<Rightarrow> u64 list \<Rightarrow> u64 list" where
  "iota rc A = A[0 := A ! 0 XOR rc]"

definition keccak_round :: "u64 \<Rightarrow> u64 list \<Rightarrow> u64 list" where
  "keccak_round rc A = iota rc (chi (pi_step (rho (theta A))))"

definition keccak_f :: "u64 list \<Rightarrow> u64 list" where
  "keccak_f A = foldl (\<lambda>A rc. keccak_round rc A) A KeccakF_RoundConstants"

subsection \<open>The unrolled round is the composition of the steps\<close>

lemma ROL_eq_word_rotl: "0 < n \<Longrightarrow> n < 64 \<Longrightarrow> ROL a n = word_rotl n a"
proof (rule bit_word_eqI)
  fix i
  assume n: "0 < n" "n < 64" and i: "i < LENGTH(64)"
  have "(i + (64 - n mod 64)) mod 64 = (if i < n then i + 64 - n else i - n)"
    using n i by (cases "i < n") (auto simp: mod_if)
  moreover have "bit (drop_bit (64 - n) a) i = (i < n \<and> bit a (i + 64 - n))"
    using n i bit_imp_le_length [of a "64 - n + i"] by (auto simp: bit_drop_bit_eq add.commute)
  ultimately show "bit (ROL a n) i = bit (word_rotl n a) i"
    using n i by (auto simp: ROL_def bit_simps bit_word_rotl_iff)
qed

lemma word_rotl_0: "word_rotl 0 (a :: u64) = a"
  by (rule bit_word_eqI) (simp add: bit_word_rotl_iff)

lemma keccak_round_E_A_eq: "keccak_round_E_A = keccak_round_A_E"
  unfolding keccak_round_E_A_def keccak_round_A_E_def by (rule refl)

lemma upt_25: "[0..<25] = [0, 1, 2, 3, 4, 5, 6, 7, 8, 9, 10, 11, 12, 13, 14, 15, 16, 17, 18, 19, 20, 21, 22, 23, 24]"
  by code_simp

lemma keccak_round_A_E_eq:
  "keccak_round_A_E rc A = keccak_round rc A"
proof -
  define C where "C = theta_C A"
  have C: "A ! 0 XOR A ! 5 XOR A ! 10 XOR A ! 15 XOR A ! 20 = C 0"
    "A ! 1 XOR A ! 6 XOR A ! 11 XOR A ! 16 XOR A ! 21 = C 1"
    "A ! 2 XOR A ! 7 XOR A ! 12 XOR A ! 17 XOR A ! 22 = C 2"
    "A ! 3 XOR A ! 8 XOR A ! 13 XOR A ! 18 XOR A ! 23 = C 3"
    "A ! 4 XOR A ! 9 XOR A ! 14 XOR A ! 19 XOR A ! 24 = C 4"
    by (simp_all add: C_def theta_C_def)
  define D where "D x = C ((x + 4) mod 5) XOR word_rotl 1 (C ((x + 1) mod 5))" for x
  have D: "C 4 XOR ROL (C 1) 1 = D 0" "C 0 XOR ROL (C 2) 1 = D 1" "C 1 XOR ROL (C 3) 1 = D 2"
    "C 2 XOR ROL (C 4) 1 = D 3" "C 3 XOR ROL (C 0) 1 = D 4"
    by (simp_all add: D_def ROL_eq_word_rotl numeral_2_eq_2)
  define T where "T i = A ! i XOR D (i mod 5)" for i
  have T: "theta A = map T [0..<25]"
    by (simp add: theta_def T_def D_def C_def)
  define B where "B i = word_rotl (rho_offsets ! i) (T i)" for i
  have B: "rho (theta A) = map B [0..<25]"
    unfolding rho_def T by (rule map_cong [OF refl]) (simp add: B_def)
  have lanes: "A ! 0 XOR D 0 = T 0" "A ! 1 XOR D 1 = T 1" "A ! 2 XOR D 2 = T 2" "A ! 3 XOR D 3 = T 3" "A ! 4 XOR D
    4 = T 4" "A ! 5 XOR D 0 = T 5" "A ! 6 XOR D 1 = T 6" "A ! 7 XOR D 2 = T 7" "A ! 8 XOR D 3 = T 8" "A
    ! 9 XOR D 4 = T 9" "A ! 10 XOR D 0 = T 10" "A ! 11 XOR D 1 = T 11" "A ! 12 XOR D 2 = T 12" "A ! 13
    XOR D 3 = T 13" "A ! 14 XOR D 4 = T 14" "A ! 15 XOR D 0 = T 15" "A ! 16 XOR D 1 = T 16" "A ! 17 XOR
    D 2 = T 17" "A ! 18 XOR D 3 = T 18" "A ! 19 XOR D 4 = T 19" "A ! 20 XOR D 0 = T 20" "A ! 21 XOR D 1
    = T 21" "A ! 22 XOR D 2 = T 22" "A ! 23 XOR D 3 = T 23" "A ! 24 XOR D 4 = T 24"
    by (simp_all add: T_def)
  have rots: "ROL (T 1) 1 = B 1" "ROL (T 2) 62 = B 2" "ROL (T 3) 28 = B 3" "ROL (T 4) 27 = B 4" "ROL (T 5) 36 = B
    5" "ROL (T 6) 44 = B 6" "ROL (T 7) 6 = B 7" "ROL (T 8) 55 = B 8" "ROL (T 9) 20 = B 9" "ROL (T 10) 3
    = B 10" "ROL (T 11) 10 = B 11" "ROL (T 12) 43 = B 12" "ROL (T 13) 25 = B 13" "ROL (T 14) 39 = B 14"
    "ROL (T 15) 41 = B 15" "ROL (T 16) 45 = B 16" "ROL (T 17) 15 = B 17" "ROL (T 18) 21 = B 18" "ROL (T
    19) 8 = B 19" "ROL (T 20) 18 = B 20" "ROL (T 21) 2 = B 21" "ROL (T 22) 61 = B 22" "ROL (T 23) 56 = B
    23" "ROL (T 24) 14 = B 24"
    by (simp_all add: B_def ROL_eq_word_rotl rho_offsets_def)
  have "T 0 = B 0" by (simp add: B_def rho_offsets_def word_rotl_0)
  have "keccak_round rc A =
    [(B 0 XOR (NOT (B 6) AND B 12)) XOR rc,
     B 6 XOR (NOT (B 12) AND B 18),
     B 12 XOR (NOT (B 18) AND B 24),
     B 18 XOR (NOT (B 24) AND B 0),
     B 24 XOR (NOT (B 0) AND B 6),
     B 3 XOR (NOT (B 9) AND B 10),
     B 9 XOR (NOT (B 10) AND B 16),
     B 10 XOR (NOT (B 16) AND B 22),
     B 16 XOR (NOT (B 22) AND B 3),
     B 22 XOR (NOT (B 3) AND B 9),
     B 1 XOR (NOT (B 7) AND B 13),
     B 7 XOR (NOT (B 13) AND B 19),
     B 13 XOR (NOT (B 19) AND B 20),
     B 19 XOR (NOT (B 20) AND B 1),
     B 20 XOR (NOT (B 1) AND B 7),
     B 4 XOR (NOT (B 5) AND B 11),
     B 5 XOR (NOT (B 11) AND B 17),
     B 11 XOR (NOT (B 17) AND B 23),
     B 17 XOR (NOT (B 23) AND B 4),
     B 23 XOR (NOT (B 4) AND B 5),
     B 2 XOR (NOT (B 8) AND B 14),
     B 8 XOR (NOT (B 14) AND B 15),
     B 14 XOR (NOT (B 15) AND B 21),
     B 15 XOR (NOT (B 21) AND B 2),
     B 21 XOR (NOT (B 2) AND B 8)]" (is "_ = ?l")
    unfolding keccak_round_def iota_def chi_def pi_step_def B Let_def upt_25 by simp
  moreover have "keccak_round_A_E rc A = ?l"
    unfolding keccak_round_A_E_def Let_def C D lanes rots \<open>T 0 = B 0\<close> by (rule refl)
  ultimately show ?thesis by simp
qed

lemma KeccakF1600_StatePermute_eq: "KeccakF1600_StatePermute A = keccak_f A"
proof -
  have twelve: "[0..<12] = [0, 1, 2, 3, 4, 5, 6, 7, 8, 9, 10, 11]"
    by code_simp
  show ?thesis
    unfolding KeccakF1600_StatePermute_def keccak_f_def NROUNDS_def keccak_round_E_A_eq
      keccak_round_A_E_eq KeccakF_RoundConstants_def
    by (simp add: twelve)
qed

subsection \<open>The tables\<close>

fun rho_walk :: "nat \<Rightarrow> nat \<Rightarrow> nat \<Rightarrow> nat \<Rightarrow> nat list \<Rightarrow> nat list" where
  \<comment> \<open>FIPS 202, algorithm 2: \<open>n\<close> steps left, step \<open>t\<close>, lane \<open>(x, y)\<close>\<close>
  "rho_walk 0 t x y offs = offs"
| "rho_walk (Suc n) t x y offs =
     rho_walk n (t + 1) y ((2 * x + 3 * y) mod 5) (offs[x + 5 * y := (t + 1) * (t + 2) div 2 mod 64])"

lemma rho_offsets_walk: "rho_offsets = rho_walk 24 0 1 0 (replicate 25 0)"
  by code_simp

definition lfsr_step :: "bool list \<Rightarrow> bool list" where
  \<comment> \<open>FIPS 202, algorithm 5: one step of the register\<close>
  "lfsr_step R = (let r8 = R ! 7 in
     [r8, R ! 0, R ! 1, R ! 2, R ! 3 \<noteq> r8, R ! 4 \<noteq> r8, R ! 5 \<noteq> r8, R ! 6])"

fun lfsr_bits :: "nat \<Rightarrow> bool list \<Rightarrow> bool list" where
  "lfsr_bits 0 R = []"
| "lfsr_bits (Suc n) R = hd R # lfsr_bits n (lfsr_step R)"

definition round_constant :: "bool list \<Rightarrow> u64" where
  \<comment> \<open>bit \<open>2^j - 1\<close> is the \<open>j\<close>-th of seven register bits\<close>
  "round_constant bs =
     foldl (\<lambda>w j. if bs ! j then w OR push_bit (2 ^ j - 1) 1 else w) 0 [0..<7]"

lemma KeccakF_RoundConstants_lfsr:
  "KeccakF_RoundConstants =
     map round_constant (chunks 7 24 (lfsr_bits 168 (True # replicate 7 False)))"
  by code_simp

section \<open>The bytes of the state\<close>

lemma length_ExtractBytes [len_simps, simp]: "length (KeccakF1600_StateExtractBytes s off n) = n"
  by (simp add: KeccakF1600_StateExtractBytes_def)

lemma length_XORBytes [len_simps, simp]: "length (KeccakF1600_StateXORBytes s d off n) = length s"
  unfolding KeccakF1600_StateXORBytes_def by (induction n) auto

lemma length_keccak_round [simp]: "length (keccak_round rc A) = 25"
  by (simp add: keccak_round_def iota_def chi_def)

lemma length_StatePermute [len_simps, simp]: "length (KeccakF1600_StatePermute A) = 25"
  by (simp add: KeccakF1600_StatePermute_eq keccak_f_def KeccakF_RoundConstants_def)

definition state_byte :: "u64 list \<Rightarrow> nat \<Rightarrow> byte" where
  \<comment> \<open>byte \<open>i\<close> of the state, little-endian within a lane\<close>
  "state_byte s i = ucast (drop_bit (8 * (i mod 8)) (s ! (i div 8)))"

definition xor_byte :: "u64 list \<Rightarrow> nat \<Rightarrow> byte \<Rightarrow> u64 list" where
  "xor_byte s i b = s[i div 8 := s ! (i div 8) XOR push_bit (8 * (i mod 8)) (ucast b)]"

lemma and_7: "(n::nat) AND 0x07 = n mod 8"
  using take_bit_eq_mask [of 3 n] by (simp add: mask_eq_exp_minus_1 take_bit_nat_def)

lemma drop_3: "drop_bit 3 (n::nat) = n div 8"
  by (simp add: drop_bit_nat_def)

lemma ExtractBytes_eq: "KeccakF1600_StateExtractBytes s off n = map (\<lambda>i. state_byte s (off + i)) [0..<n]"
  by (simp add: KeccakF1600_StateExtractBytes_def state_byte_def and_7 drop_3)

lemma XORBytes_0 [simp]: "KeccakF1600_StateXORBytes s d off 0 = s"
  by (simp add: KeccakF1600_StateXORBytes_def)

lemma XORBytes_Suc:
  "KeccakF1600_StateXORBytes s d off (Suc n) =
     xor_byte (KeccakF1600_StateXORBytes s d off n) (off + n) (d ! n)"
  by (simp add: KeccakF1600_StateXORBytes_def xor_byte_def and_7 drop_3)

lemma XORBytes_add:
  "a \<le> length d \<Longrightarrow> KeccakF1600_StateXORBytes s d off (a + b) =
     KeccakF1600_StateXORBytes (KeccakF1600_StateXORBytes s d off a) (drop a d) (off + a) b"
  by (induction b) (simp_all add: XORBytes_Suc add.assoc)

lemma XORBytes_take:
  "n \<le> length d \<Longrightarrow> KeccakF1600_StateXORBytes s (take n d) off n = KeccakF1600_StateXORBytes s d off n"
proof -
  have "k \<le> n \<Longrightarrow> KeccakF1600_StateXORBytes s (take n d) off k = KeccakF1600_StateXORBytes s d off k" for k
    by (induction k) (simp_all add: XORBytes_Suc)
  then show ?thesis by simp
qed

lemma state_byte_xor_byte:
  assumes "i < 8 * length s" and "j < 8 * length s"
  shows "state_byte (xor_byte s i b) j = (if j = i then state_byte s j XOR b else state_byte s j)"
proof (cases "j div 8 = i div 8")
  case True
  have len: "i div 8 < length s" using assms by (simp add: div_less_iff_less_mult mult.commute)
  have same: "j = i" if "j mod 8 = i mod 8" using True that by (metis div_mult_mod_eq)
  have b: "bit (state_byte (xor_byte s i b) j) n = bit (if j = i then state_byte s j XOR b else state_byte s j) n"
    if n: "n < 8" for n
  proof -
    have pos: "8 * (j mod 8) + n < 64" using n by simp
    have "bit (push_bit (8 * (i mod 8)) (ucast b :: u64)) (8 * (j mod 8) + n) = (j = i \<and> bit b n)"
    proof (cases "j = i")
      case True
      then show ?thesis using n pos by (simp add: bit_simps)
    next
      case False
      then consider "j mod 8 < i mod 8" | "i mod 8 < j mod 8" using same by linarith
      then show ?thesis
      proof cases
        case 1
        then have "8 * (j mod 8) + n < 8 * (i mod 8)" using n by linarith
        then show ?thesis using False by (simp add: bit_simps)
      next
        case 2
        then have "8 \<le> 8 * (j mod 8) + n - 8 * (i mod 8)" by linarith
        then show ?thesis using False bit_imp_le_length [of b "8 * (j mod 8) + n - 8 * (i mod 8)"]
          by (auto simp: bit_simps)
      qed
    qed
    then show ?thesis using True len n pos
      by (auto simp: state_byte_def xor_byte_def bit_simps)
  qed
  show ?thesis by (rule bit_word_eqI) (use b in simp)
next
  case False
  then show ?thesis by (auto simp: state_byte_def xor_byte_def)
qed

lemma state_byte_XORBytes:
  assumes "off + n \<le> 8 * length s" and "j < 8 * length s"
  shows "state_byte (KeccakF1600_StateXORBytes s d off n) j =
    (if off \<le> j \<and> j < off + n then state_byte s j XOR d ! (j - off) else state_byte s j)"
  using assms(1)
proof (induction n)
  case (Suc n)
  then show ?case using assms(2) by (auto simp: XORBytes_Suc state_byte_xor_byte less_Suc_eq)
qed auto


end
