(* ===== verification/Fips202.thy ===== *)
theory Fips202
  imports Keccak
begin

unbundle bit_operations_syntax

text \<open>
  The sponge functions, \<^verbatim>\<open>cross/Reference_Implementation/lib/fips202.c\<close>. The
  incremental context is the array \<open>ctx[26]\<close>: 25 lanes and a counter, the bytes
  absorbed since the last permutation or the bytes not yet squeezed. The
  incremental interface is proved to be a byte-at-a-time machine, hence
  insensitive to how its input and output are cut into calls, and to compute
  the sponge construction on the padded message; the one-shot interface is
  proved to agree with it.
\<close>

section \<open>The code\<close>

definition SHAKE128_RATE :: nat where "SHAKE128_RATE = 168"
definition SHAKE256_RATE :: nat where "SHAKE256_RATE = 136"
definition SHA3_256_RATE :: nat where "SHA3_256_RATE = 136"
definition SHA3_384_RATE :: nat where "SHA3_384_RATE = 104"
definition SHA3_512_RATE :: nat where "SHA3_512_RATE = 72"

record incctx =
  lanes :: "u64 list"    \<comment> \<open>\<open>ctx[0..24]\<close>\<close>
  pending :: nat           \<comment> \<open>\<open>ctx[25]\<close>\<close>

text \<open>
  The rate is one of the five constants: the test \<open>0 < r\<close> in the two loops
  below only makes them total.
\<close>

function keccak_absorb_blocks :: "u64 list \<Rightarrow> nat \<Rightarrow> bytes \<Rightarrow> u64 list \<times> bytes" where
  \<comment> \<open>the \<open>while (mlen >= r)\<close> loop: the state and what is left of the message\<close>
  "keccak_absorb_blocks s r m =
     (if 0 < r \<and> r \<le> length m
      then keccak_absorb_blocks (KeccakF1600_StatePermute (KeccakF1600_StateXORBytes s m 0 r)) r (drop r m)
      else (s, m))"
  by auto
termination by (relation "measure (\<lambda>(s, r, m). length m)") auto

declare keccak_absorb_blocks.simps [simp del]

definition keccak_absorb :: "u64 list \<Rightarrow> nat \<Rightarrow> bytes \<Rightarrow> byte \<Rightarrow> u64 list" where
  "keccak_absorb s r m p =
     (let (s, m) = keccak_absorb_blocks s r m;
          mlen = length m;
          s = (if 0 < mlen then KeccakF1600_StateXORBytes s m 0 mlen else s)
      in if mlen = r - 1
         then let p = p OR 128 in KeccakF1600_StateXORBytes s [p] mlen 1
         else let s = KeccakF1600_StateXORBytes s [p] mlen 1; p = 128
              in KeccakF1600_StateXORBytes s [p] (r - 1) 1)"

fun keccak_squeezeblocks :: "nat \<Rightarrow> u64 list \<Rightarrow> nat \<Rightarrow> bytes \<times> u64 list" where
  "keccak_squeezeblocks 0 s r = ([], s)"
| "keccak_squeezeblocks (Suc nblocks) s r =
     (let s = KeccakF1600_StatePermute s;
          h = KeccakF1600_StateExtractBytes s 0 r;
          (hs, s) = keccak_squeezeblocks nblocks s r
      in (h @ hs, s))"

definition keccak_inc_init :: incctx where
  "keccak_inc_init = \<lparr>lanes = replicate 25 0, pending = 0\<rparr>"

function keccak_inc_absorb :: "incctx \<Rightarrow> nat \<Rightarrow> bytes \<Rightarrow> incctx" where
  "keccak_inc_absorb st r m =
     (if 0 < r \<and> r \<le> length m + pending st
      then let s = KeccakF1600_StateXORBytes (lanes st) m (pending st) (r - pending st);
               m = drop (r - pending st) m
           in keccak_inc_absorb \<lparr>lanes = KeccakF1600_StatePermute s, pending = 0\<rparr> r m
      else \<lparr>lanes = KeccakF1600_StateXORBytes (lanes st) m (pending st) (length m),
            pending = pending st + length m\<rparr>)"
  by auto
termination by (relation "measure (\<lambda>(st, r, m). length m + pending st)") auto

declare keccak_inc_absorb.simps [simp del]

definition keccak_inc_finalize :: "incctx \<Rightarrow> nat \<Rightarrow> byte \<Rightarrow> incctx" where
  "keccak_inc_finalize st r p =
     (if pending st = r - 1
      then let p = p OR 128
           in \<lparr>lanes = KeccakF1600_StateXORBytes (lanes st) [p] (pending st) 1, pending = 0\<rparr>
      else let s = KeccakF1600_StateXORBytes (lanes st) [p] (pending st) 1; p = 128
           in \<lparr>lanes = KeccakF1600_StateXORBytes s [p] (r - 1) 1, pending = 0\<rparr>)"

function keccak_inc_squeeze_blocks :: "nat \<Rightarrow> incctx \<Rightarrow> nat \<Rightarrow> bytes \<times> incctx" where
  \<comment> \<open>the \<open>while (outlen > 0)\<close> loop\<close>
  "keccak_inc_squeeze_blocks outlen st r =
     (if 0 < r \<and> 0 < outlen
      then let s = KeccakF1600_StatePermute (lanes st);
               len = (if outlen < r then outlen else r);
               h = KeccakF1600_StateExtractBytes s 0 len;
               (hs, st) = keccak_inc_squeeze_blocks (outlen - len) \<lparr>lanes = s, pending = r - len\<rparr> r
           in (h @ hs, st)
      else ([], st))"
  by auto
termination by (relation "measure (\<lambda>(outlen, st, r). outlen)") auto

declare keccak_inc_squeeze_blocks.simps [simp del]

definition keccak_inc_squeeze :: "nat \<Rightarrow> incctx \<Rightarrow> nat \<Rightarrow> bytes \<times> incctx" where
  "keccak_inc_squeeze outlen st r =
     (let len = (if outlen < pending st then outlen else pending st);
          h = KeccakF1600_StateExtractBytes (lanes st) (r - pending st) len;
          (hs, st) = keccak_inc_squeeze_blocks (outlen - len) (st\<lparr>pending := pending st - len\<rparr>) r
      in (h @ hs, st))"

definition shake128_inc_init :: incctx where
  "shake128_inc_init = keccak_inc_init"

definition shake128_inc_absorb :: "incctx \<Rightarrow> bytes \<Rightarrow> incctx" where
  "shake128_inc_absorb state inp = keccak_inc_absorb state SHAKE128_RATE inp"

definition shake128_inc_finalize :: "incctx \<Rightarrow> incctx" where
  "shake128_inc_finalize state = keccak_inc_finalize state SHAKE128_RATE 0x1F"

definition shake128_inc_squeeze :: "nat \<Rightarrow> incctx \<Rightarrow> bytes \<times> incctx" where
  "shake128_inc_squeeze outlen state = keccak_inc_squeeze outlen state SHAKE128_RATE"

definition shake256_inc_init :: incctx where
  "shake256_inc_init = keccak_inc_init"

definition shake256_inc_absorb :: "incctx \<Rightarrow> bytes \<Rightarrow> incctx" where
  "shake256_inc_absorb state inp = keccak_inc_absorb state SHAKE256_RATE inp"

definition shake256_inc_finalize :: "incctx \<Rightarrow> incctx" where
  "shake256_inc_finalize state = keccak_inc_finalize state SHAKE256_RATE 0x1F"

definition shake256_inc_squeeze :: "nat \<Rightarrow> incctx \<Rightarrow> bytes \<times> incctx" where
  "shake256_inc_squeeze outlen state = keccak_inc_squeeze outlen state SHAKE256_RATE"

definition shake128_absorb :: "bytes \<Rightarrow> u64 list" where
  "shake128_absorb inp = keccak_absorb (replicate 25 0) SHAKE128_RATE inp 0x1F"

definition shake128_squeezeblocks :: "nat \<Rightarrow> u64 list \<Rightarrow> bytes \<times> u64 list" where
  "shake128_squeezeblocks nblocks state = keccak_squeezeblocks nblocks state SHAKE128_RATE"

definition shake128 :: "nat \<Rightarrow> bytes \<Rightarrow> bytes" where
  "shake128 outlen inp =
     (let state = keccak_inc_init;
          state = keccak_inc_absorb state SHAKE128_RATE inp;
          state = keccak_inc_finalize state SHAKE128_RATE 0x1F
      in fst (keccak_inc_squeeze outlen state SHAKE128_RATE))"

definition shake256_absorb :: "bytes \<Rightarrow> u64 list" where
  "shake256_absorb inp = keccak_absorb (replicate 25 0) SHAKE256_RATE inp 0x1F"

definition shake256_squeezeblocks :: "nat \<Rightarrow> u64 list \<Rightarrow> bytes \<times> u64 list" where
  "shake256_squeezeblocks nblocks state = keccak_squeezeblocks nblocks state SHAKE256_RATE"

definition shake256 :: "nat \<Rightarrow> bytes \<Rightarrow> bytes" where
  "shake256 outlen inp =
     (let state = keccak_inc_init;
          state = keccak_inc_absorb state SHAKE256_RATE inp;
          state = keccak_inc_finalize state SHAKE256_RATE 0x1F
      in fst (keccak_inc_squeeze outlen state SHAKE256_RATE))"

definition sha3_256 :: "bytes \<Rightarrow> bytes" where
  "sha3_256 inp =
     (let state = keccak_inc_init;
          state = keccak_inc_absorb state SHA3_256_RATE inp;
          state = keccak_inc_finalize state SHA3_256_RATE 0x06
      in fst (keccak_inc_squeeze 32 state SHA3_256_RATE))"

definition sha3_256_inc_init :: incctx where
  "sha3_256_inc_init = keccak_inc_init"

definition sha3_256_inc_absorb :: "incctx \<Rightarrow> bytes \<Rightarrow> incctx" where
  "sha3_256_inc_absorb state inp = keccak_inc_absorb state SHA3_256_RATE inp"

definition sha3_256_inc_finalize :: "incctx \<Rightarrow> bytes" where
  "sha3_256_inc_finalize state =
     (let state = keccak_inc_finalize state SHA3_256_RATE 0x06;
          t = fst (keccak_squeezeblocks 1 (lanes state) SHA3_256_RATE)
      in map (\<lambda>i. t ! i) [0..<32])"

definition sha3_384 :: "bytes \<Rightarrow> bytes" where
  "sha3_384 inp =
     (let state = keccak_inc_init;
          state = keccak_inc_absorb state SHA3_384_RATE inp;
          state = keccak_inc_finalize state SHA3_384_RATE 0x06
      in fst (keccak_inc_squeeze 48 state SHA3_384_RATE))"

definition sha3_384_inc_init :: incctx where
  "sha3_384_inc_init = keccak_inc_init"

definition sha3_384_inc_absorb :: "incctx \<Rightarrow> bytes \<Rightarrow> incctx" where
  "sha3_384_inc_absorb state inp = keccak_inc_absorb state SHA3_384_RATE inp"

definition sha3_384_inc_finalize :: "incctx \<Rightarrow> bytes" where
  "sha3_384_inc_finalize state =
     (let state = keccak_inc_finalize state SHA3_384_RATE 0x06;
          t = fst (keccak_squeezeblocks 1 (lanes state) SHA3_384_RATE)
      in map (\<lambda>i. t ! i) [0..<48])"

definition sha3_512 :: "bytes \<Rightarrow> bytes" where
  "sha3_512 inp =
     (let state = keccak_inc_init;
          state = keccak_inc_absorb state SHA3_512_RATE inp;
          state = keccak_inc_finalize state SHA3_512_RATE 0x06
      in fst (keccak_inc_squeeze 64 state SHA3_512_RATE))"

definition sha3_512_inc_init :: incctx where
  "sha3_512_inc_init = keccak_inc_init"

definition sha3_512_inc_absorb :: "incctx \<Rightarrow> bytes \<Rightarrow> incctx" where
  "sha3_512_inc_absorb state inp = keccak_inc_absorb state SHA3_512_RATE inp"

definition sha3_512_inc_finalize :: "incctx \<Rightarrow> bytes" where
  "sha3_512_inc_finalize state =
     (let state = keccak_inc_finalize state SHA3_512_RATE 0x06;
          t = fst (keccak_squeezeblocks 1 (lanes state) SHA3_512_RATE)
      in map (\<lambda>i. t ! i) [0..<64])"

section \<open>The byte-at-a-time machine\<close>

definition rate_ok :: "nat \<Rightarrow> bool" where
  "rate_ok r \<longleftrightarrow> 1 < r \<and> r < 200"

lemma rates_ok [simp]:
  "rate_ok SHAKE128_RATE" "rate_ok SHAKE256_RATE" "rate_ok SHA3_256_RATE" "rate_ok SHA3_384_RATE"
  "rate_ok SHA3_512_RATE"
  by (simp_all add: rate_ok_def SHAKE128_RATE_def SHAKE256_RATE_def SHA3_256_RATE_def SHA3_384_RATE_def
      SHA3_512_RATE_def)

definition absorb_byte :: "nat \<Rightarrow> incctx \<Rightarrow> byte \<Rightarrow> incctx" where
  "absorb_byte r st b =
     (let s = xor_byte (lanes st) (pending st) b
      in if pending st + 1 = r then \<lparr>lanes = KeccakF1600_StatePermute s, pending = 0\<rparr>
         else \<lparr>lanes = s, pending = pending st + 1\<rparr>)"

definition squeeze_byte :: "nat \<Rightarrow> incctx \<Rightarrow> byte \<times> incctx" where
  "squeeze_byte r st =
     (if pending st = 0
      then let s = KeccakF1600_StatePermute (lanes st) in (state_byte s 0, \<lparr>lanes = s, pending = r - 1\<rparr>)
      else (state_byte (lanes st) (r - pending st), \<lparr>lanes = lanes st, pending = pending st - 1\<rparr>))"

fun squeeze_bytes :: "nat \<Rightarrow> nat \<Rightarrow> incctx \<Rightarrow> bytes \<times> incctx" where
  "squeeze_bytes r 0 st = ([], st)"
| "squeeze_bytes r (Suc n) st =
     (let (b, st) = squeeze_byte r st; (bs, st) = squeeze_bytes r n st in (b # bs, st))"

lemma length_squeeze_bytes [len_simps, simp]: "length (fst (squeeze_bytes r n st)) = n"
  by (induction n arbitrary: st) (simp_all add: Let_def split_beta)

lemma squeeze_bytes_add:
  "squeeze_bytes r (n + m) st =
     (fst (squeeze_bytes r n st) @ fst (squeeze_bytes r m (snd (squeeze_bytes r n st))),
      snd (squeeze_bytes r m (snd (squeeze_bytes r n st))))"
  by (induction n arbitrary: st) (simp_all add: Let_def split_beta)

subsection \<open>Absorbing\<close>

lemma absorb_within:
  "pending st + length m < r \<Longrightarrow>
   foldl (absorb_byte r) st m =
     \<lparr>lanes = KeccakF1600_StateXORBytes (lanes st) m (pending st) (length m), pending = pending st + length m\<rparr>"
proof (induction m rule: rev_induct)
  case (snoc b m)
  have cut: "KeccakF1600_StateXORBytes s (m @ [b]) off n = KeccakF1600_StateXORBytes s m off n"
    if "n \<le> length m" for s off n
    using that by (induction n) (simp_all add: XORBytes_Suc nth_append)
  show ?case using snoc by (simp add: absorb_byte_def XORBytes_Suc cut)
qed simp

lemma absorb_fill:
  assumes "pending st < r" and "r \<le> length m + pending st"
  shows "foldl (absorb_byte r) st (take (r - pending st) m) =
    \<lparr>lanes = KeccakF1600_StatePermute (KeccakF1600_StateXORBytes (lanes st) m (pending st) (r - pending st)), pending = 0\<rparr>"
proof -
  obtain k where k: "r - pending st = Suc k" using assms by (cases "r - pending st") auto
  then have n: "k < length m" "pending st + k = r - 1" using assms by auto
  have "foldl (absorb_byte r) st (take k m) =
      \<lparr>lanes = KeccakF1600_StateXORBytes (lanes st) m (pending st) k, pending = r - 1\<rparr>"
    using absorb_within [of st "take k m" r] assms n by (simp add: XORBytes_take)
  then show ?thesis
    using assms n(2) unfolding k take_Suc_conv_app_nth [OF n(1)]
    by (simp add: absorb_byte_def XORBytes_Suc)
qed

lemma keccak_inc_absorb_foldl:
  "pending st < r \<Longrightarrow> keccak_inc_absorb st r m = foldl (absorb_byte r) st m"
proof (induction st r m rule: keccak_inc_absorb.induct)
  case (1 st r m)
  show ?case
  proof (cases "r \<le> length m + pending st")
    case True
    have "foldl (absorb_byte r) st m
        = foldl (absorb_byte r) (foldl (absorb_byte r) st (take (r - pending st) m)) (drop (r - pending st) m)"
      by (metis append_take_drop_id foldl_append)
    then show ?thesis
      using 1 True by (subst keccak_inc_absorb.simps) (simp add: absorb_fill)
  next
    case False
    with 1 show ?thesis by (subst keccak_inc_absorb.simps) (simp add: absorb_within)
  qed
qed

lemma count_absorb_byte: "pending st < r \<Longrightarrow> pending (absorb_byte r st b) < r"
  by (simp add: absorb_byte_def Let_def)

lemma count_absorb: "pending st < r \<Longrightarrow> pending (keccak_inc_absorb st r m) < r"
proof -
  have "pending st < r \<Longrightarrow> pending (foldl (absorb_byte r) st m) < r"
    by (induction m arbitrary: st) (simp_all add: count_absorb_byte)
  then show "pending st < r \<Longrightarrow> ?thesis" by (simp add: keccak_inc_absorb_foldl)
qed

lemma length_absorb: "pending st < r \<Longrightarrow> length (lanes st) = 25 \<Longrightarrow>
    length (lanes (keccak_inc_absorb st r m)) = 25"
proof -
  have "length (lanes st) = 25 \<Longrightarrow> length (lanes (foldl (absorb_byte r) st m)) = 25"
    by (induction m arbitrary: st) (simp_all add: absorb_byte_def Let_def xor_byte_def)
  then show "pending st < r \<Longrightarrow> length (lanes st) = 25 \<Longrightarrow> ?thesis" by (simp add: keccak_inc_absorb_foldl)
qed

lemma keccak_inc_absorb_append:
  "pending st < r \<Longrightarrow>
   keccak_inc_absorb (keccak_inc_absorb st r m) r m' = keccak_inc_absorb st r (m @ m')"
  using count_absorb [of st r m] keccak_inc_absorb_foldl [of "keccak_inc_absorb st r m" r m']
  by (simp add: keccak_inc_absorb_foldl)

subsection \<open>Squeezing\<close>

lemma squeeze_within:
  "n \<le> pending st \<Longrightarrow> pending st \<le> r \<Longrightarrow>
   squeeze_bytes r n st =
     (KeccakF1600_StateExtractBytes (lanes st) (r - pending st) n, st\<lparr>pending := pending st - n\<rparr>)"
proof (induction n arbitrary: st)
  case (Suc n)
  have cons: "map f [0..<Suc n] = f 0 # map (\<lambda>i. f (Suc i)) [0..<n]" for f :: "nat \<Rightarrow> byte"
    by (simp add: upt_conv_Cons map_Suc_upt [symmetric] comp_def del: upt_Suc)
  from Suc show ?case
    by (simp add: squeeze_byte_def ExtractBytes_eq cons Suc_diff_le del: upt_Suc)
qed (simp add: ExtractBytes_eq)

lemma squeeze_block:
  assumes "0 < n" "n \<le> r" "pending st = 0"
  shows "squeeze_bytes r n st =
     (KeccakF1600_StateExtractBytes (KeccakF1600_StatePermute (lanes st)) 0 n,
      \<lparr>lanes = KeccakF1600_StatePermute (lanes st), pending = r - n\<rparr>)"
proof -
  obtain k where n: "n = Suc k" using assms by (cases n) auto
  have cons: "map f [0..<Suc k] = f 0 # map (\<lambda>i. f (Suc i)) [0..<k]" for f :: "nat \<Rightarrow> byte"
    by (simp add: upt_conv_Cons map_Suc_upt [symmetric] comp_def del: upt_Suc)
  show ?thesis
    using assms unfolding n
    by (simp add: squeeze_byte_def squeeze_within ExtractBytes_eq cons Let_def Suc_diff_le [symmetric] del: upt_Suc)
qed

lemma squeeze_blocks_bytes:
  "0 < r \<Longrightarrow> outlen = 0 \<or> pending st = 0 \<Longrightarrow> keccak_inc_squeeze_blocks outlen st r = squeeze_bytes r outlen st"
proof (induction outlen st r rule: keccak_inc_squeeze_blocks.induct)
  case (1 outlen st r)
  show ?case
  proof (cases "outlen = 0")
    case False
    let ?len = "if outlen < r then outlen else r" and ?s = "KeccakF1600_StatePermute (lanes st)"
    let ?st = "\<lparr>lanes = ?s, pending = r - ?len\<rparr>"
    have IH: "keccak_inc_squeeze_blocks (outlen - ?len) ?st r = squeeze_bytes r (outlen - ?len) ?st"
      using 1 False by (intro "1.IH") auto
    have "squeeze_bytes r outlen st = squeeze_bytes r (?len + (outlen - ?len)) st" by simp
    also have "\<dots> = (KeccakF1600_StateExtractBytes ?s 0 ?len @ fst (squeeze_bytes r (outlen - ?len) ?st),
        snd (squeeze_bytes r (outlen - ?len) ?st))"
      using 1 False squeeze_block [of ?len r st] unfolding squeeze_bytes_add by simp
    finally show ?thesis
      using 1(2) False IH by (subst keccak_inc_squeeze_blocks.simps) (simp add: Let_def split_beta)
  qed (subst keccak_inc_squeeze_blocks.simps, simp)
qed

lemma keccak_inc_squeeze_bytes:
  assumes "0 < r" and "pending st \<le> r"
  shows "keccak_inc_squeeze outlen st r = squeeze_bytes r outlen st"
proof -
  let ?len = "if outlen < pending st then outlen else pending st"
  let ?st = "st\<lparr>pending := pending st - ?len\<rparr>"
  have "squeeze_bytes r outlen st = squeeze_bytes r (?len + (outlen - ?len)) st" by simp
  also have "\<dots> = (KeccakF1600_StateExtractBytes (lanes st) (r - pending st) ?len
      @ fst (squeeze_bytes r (outlen - ?len) ?st), snd (squeeze_bytes r (outlen - ?len) ?st))"
    using assms squeeze_within [of ?len st r] unfolding squeeze_bytes_add by simp
  finally show ?thesis
    using assms squeeze_blocks_bytes [of r "outlen - ?len" ?st]
    by (simp add: keccak_inc_squeeze_def Let_def split_beta)
qed

section \<open>The sponge construction\<close>

text \<open>
  The reference of FIPS 202: the message is padded with the domain-separation
  byte and the final bit to a multiple of the rate, absorbed block by block, and
  the output is read from successive permutations of the result.
\<close>

definition pad_message :: "nat \<Rightarrow> byte \<Rightarrow> bytes \<Rightarrow> bytes" where
  "pad_message r p m =
     (if length m mod r = r - 1 then m @ [p OR 128]
      else m @ [p] @ replicate (r - 2 - length m mod r) 0 @ [128])"

definition absorb_block :: "u64 list \<Rightarrow> bytes \<Rightarrow> u64 list" where
  "absorb_block s b = keccak_f (KeccakF1600_StateXORBytes s b 0 (length b))"

definition sponge_state :: "nat \<Rightarrow> byte \<Rightarrow> bytes \<Rightarrow> u64 list" where
  "sponge_state r p m =
     (let bs = pad_message r p m in foldl absorb_block (replicate 25 0) (chunks r (length bs div r) bs))"

definition sponge :: "nat \<Rightarrow> byte \<Rightarrow> bytes \<Rightarrow> nat \<Rightarrow> bytes" where
  "sponge r p m n =
     map (\<lambda>i. state_byte ((keccak_f ^^ (i div r)) (sponge_state r p m)) (i mod r)) [0..<n]"

lemma count_foldl_absorb:
  "0 < r \<Longrightarrow> pending (foldl (absorb_byte r) \<lparr>lanes = s, pending = 0\<rparr> m) = length m mod r"
proof (induction m rule: rev_induct)
  case (snoc b m)
  then show ?case by (auto simp: absorb_byte_def Let_def mod_Suc)
qed simp

lemma length_foldl_absorb:
  "length (lanes st) = 25 \<Longrightarrow> length (lanes (foldl (absorb_byte r) st m)) = 25"
  by (induction m arbitrary: st) (simp_all add: absorb_byte_def Let_def xor_byte_def)

lemma absorb_blocks_foldl:
  "0 < r \<Longrightarrow> length bs = n * r \<Longrightarrow>
   foldl (absorb_byte r) \<lparr>lanes = s, pending = 0\<rparr> bs = \<lparr>lanes = foldl absorb_block s (chunks r n bs), pending = 0\<rparr>"
proof (induction r n bs arbitrary: s rule: chunks.induct)
  case (2 r n bs)
  let ?st = "\<lparr>lanes = s, pending = 0\<rparr>"
  have "foldl (absorb_byte r) ?st bs = foldl (absorb_byte r) (foldl (absorb_byte r) ?st (take r bs)) (drop r bs)"
    by (metis append_take_drop_id foldl_append)
  also have "foldl (absorb_byte r) ?st (take r bs) = \<lparr>lanes = absorb_block s (take r bs), pending = 0\<rparr>"
    using absorb_fill [of ?st r bs] 2
    by (simp add: absorb_block_def KeccakF1600_StatePermute_eq XORBytes_take)
  finally show ?case using 2 by simp
qed simp

lemma xor_byte_0: "xor_byte s i 0 = s"
  by (simp add: xor_byte_def)

lemma foldl_zeros:
  "pending st + n < r \<Longrightarrow> foldl (absorb_byte r) st (replicate n 0) = st\<lparr>pending := pending st + n\<rparr>"
  by (induction n arbitrary: st) (simp_all add: absorb_byte_def xor_byte_0)

text \<open>The finalisation absorbs the padding, up to the permutation left to the first squeeze.\<close>

lemma finalize_pads:
  assumes "rate_ok r" and "pending st = length m mod r"
    and "st = foldl (absorb_byte r) st0 m"
  shows "foldl (absorb_byte r) st0 (pad_message r p m)
       = \<lparr>lanes = keccak_f (lanes (keccak_inc_finalize st r p)), pending = 0\<rparr>"
    and "pending (keccak_inc_finalize st r p) = 0"
proof -
  have r: "1 < r" using assms(1) by (simp add: rate_ok_def)
  show "pending (keccak_inc_finalize st r p) = 0" by (simp add: keccak_inc_finalize_def Let_def)
  show "foldl (absorb_byte r) st0 (pad_message r p m)
       = \<lparr>lanes = keccak_f (lanes (keccak_inc_finalize st r p)), pending = 0\<rparr>"
  proof (cases "pending st = r - 1")
    case True
    then show ?thesis
      using r assms(2) unfolding pad_message_def
      by (simp add: assms(3) [symmetric] absorb_byte_def keccak_inc_finalize_def Let_def XORBytes_Suc
          KeccakF1600_StatePermute_eq)
  next
    case False
    have c: "pending st < r" using assms(2) r by simp
    let ?st1 = "\<lparr>lanes = xor_byte (lanes st) (pending st) p, pending = pending st + 1\<rparr>"
    have one: "absorb_byte r st p = ?st1" using c False by (auto simp: absorb_byte_def Let_def)
    have "foldl (absorb_byte r) ?st1 (replicate (r - 2 - pending st) 0) = ?st1\<lparr>pending := r - 1\<rparr>"
      using c False by (subst foldl_zeros) auto
    then show ?thesis
      using r c False assms(2) one unfolding pad_message_def
      by (simp add: assms(3) [symmetric] absorb_byte_def keccak_inc_finalize_def Let_def XORBytes_Suc
          KeccakF1600_StatePermute_eq)
  qed
qed

lemma length_pad_message:
  assumes "rate_ok r"
  shows "length (pad_message r p m) = Suc (length m div r) * r"
proof -
  have r: "1 < r" using assms by (simp add: rate_ok_def)
  have m: "length m = length m div r * r + length m mod r" by simp
  show ?thesis
  proof (cases "length m mod r = r - 1")
    case True
    then have "length (pad_message r p m) = length m div r * r + (r - 1) + 1"
      using m by (simp add: pad_message_def)
    then show ?thesis using r by simp
  next
    case False
    moreover have "length m mod r < r" using r by simp
    ultimately have "length (pad_message r p m) = length m + (r - length m mod r)"
      by (simp add: pad_message_def)
    also have "\<dots> = length m div r * r + r"
      using m \<open>length m mod r < r\<close> by linarith
    finally show ?thesis by simp
  qed
qed

lemma absorb_finalize_sponge:
  fixes m :: bytes and p :: byte
  assumes "rate_ok r"
  defines "st \<equiv> keccak_inc_finalize (keccak_inc_absorb keccak_inc_init r m) r p"
  shows "keccak_f (lanes st) = sponge_state r p m" and "pending st = 0"
proof -
  have r: "0 < r" using assms(1) by (simp add: rate_ok_def)
  let ?st0 = "\<lparr>lanes = replicate 25 0, pending = 0\<rparr>"
  let ?a = "keccak_inc_absorb keccak_inc_init r m"
  have a: "?a = foldl (absorb_byte r) ?st0 m"
    using r by (simp add: keccak_inc_absorb_foldl keccak_inc_init_def)
  then have c: "pending ?a = length m mod r" using r by (simp add: count_foldl_absorb)
  show "pending st = 0" unfolding st_def by (rule finalize_pads(2) [OF assms(1) c a])
  have "\<lparr>lanes = keccak_f (lanes st), pending = 0\<rparr> = foldl (absorb_byte r) ?st0 (pad_message r p m)"
    unfolding st_def by (rule finalize_pads(1) [OF assms(1) c a, symmetric])
  also have "\<dots> = \<lparr>lanes = sponge_state r p m, pending = 0\<rparr>"
    using r assms(1) length_pad_message [of r p m]
    by (subst absorb_blocks_foldl [where n = "Suc (length m div r)"])
      (simp_all add: sponge_state_def Let_def del: chunks.simps mult_Suc)
  finally show "keccak_f (lanes st) = sponge_state r p m" by simp
qed

lemma squeeze_full_blocks:
  assumes "0 < r"
  shows "snd (squeeze_bytes r (q * r) \<lparr>lanes = s, pending = 0\<rparr>) = \<lparr>lanes = (keccak_f ^^ q) s, pending = 0\<rparr>"
proof (induction q arbitrary: s)
  case (Suc q)
  then show ?case
    using assms squeeze_block [of r r "\<lparr>lanes = s, pending = 0\<rparr>"]
    by (simp add: squeeze_bytes_add KeccakF1600_StatePermute_eq funpow_Suc_right del: funpow.simps)
qed simp

lemma squeeze_bytes_nth:
  assumes "0 < r" and "i < n"
  shows "fst (squeeze_bytes r n \<lparr>lanes = s, pending = 0\<rparr>) ! i = state_byte ((keccak_f ^^ (i div r)) (keccak_f s)) (i mod r)"
proof -
  let ?q = "i div r" and ?j = "i mod r"
  let ?st = "\<lparr>lanes = (keccak_f ^^ ?q) s, pending = 0\<rparr>"
  have i: "i = ?q * r + ?j" and j: "?j < r" using assms by simp_all
  have n: "n = ?q * r + (Suc ?j + (n - Suc i))" using assms(2) i by linarith
  have "fst (squeeze_bytes r n \<lparr>lanes = s, pending = 0\<rparr>) ! i
      = fst (squeeze_bytes r (Suc ?j + (n - Suc i)) ?st) ! ?j"
    using squeeze_full_blocks [OF assms(1), of ?q s]
    by (subst n, subst squeeze_bytes_add)
      (simp add: nth_append minus_div_mult_eq_mod not_less [THEN iffD2, OF div_times_less_eq_dividend]
        del: squeeze_bytes.simps)
  also have "\<dots> = fst (squeeze_bytes r (Suc ?j) ?st) ! ?j"
    by (subst squeeze_bytes_add) (simp add: nth_append del: squeeze_bytes.simps)
  also have "\<dots> = state_byte (keccak_f ((keccak_f ^^ ?q) s)) ?j"
    using squeeze_block [of "Suc ?j" r ?st] j
    by (simp add: ExtractBytes_eq KeccakF1600_StatePermute_eq del: squeeze_bytes.simps upt_Suc)
  finally show ?thesis by (simp add: funpow_swap1)
qed

lemma keccak_inc_sponge:
  assumes "rate_ok r"
  shows "fst (keccak_inc_squeeze n (keccak_inc_finalize (keccak_inc_absorb keccak_inc_init r m) r p) r)
       = sponge r p m n"
proof (rule nth_equalityI)
  let ?st = "keccak_inc_finalize (keccak_inc_absorb keccak_inc_init r m) r p"
  have r: "0 < r" using assms by (simp add: rate_ok_def)
  have st: "?st = \<lparr>lanes = lanes ?st, pending = 0\<rparr>" using absorb_finalize_sponge(2) [OF assms] by simp
  have sq: "keccak_inc_squeeze n ?st r = squeeze_bytes r n ?st"
    using r absorb_finalize_sponge(2) [OF assms] by (intro keccak_inc_squeeze_bytes) auto
  show "length (fst (keccak_inc_squeeze n ?st r)) = length (sponge r p m n)"
    by (simp add: sq sponge_def)
  fix i
  assume "i < length (fst (keccak_inc_squeeze n ?st r))"
  then have "i < n" by (simp add: sq)
  then show "fst (keccak_inc_squeeze n ?st r) ! i = sponge r p m n ! i"
    unfolding sq using absorb_finalize_sponge(1) [OF assms, of m p] squeeze_bytes_nth [OF r, of i n "lanes ?st"]
    by (subst st) (simp add: sponge_def)
qed

subsection \<open>The one-shot functions\<close>

lemma shake128_sponge: "shake128 n m = sponge SHAKE128_RATE 0x1F m n"
  by (simp add: shake128_def Let_def keccak_inc_sponge)

lemma shake256_sponge: "shake256 n m = sponge SHAKE256_RATE 0x1F m n"
  by (simp add: shake256_def Let_def keccak_inc_sponge)

lemma keccak_absorb_blocks_inc:
  "1 < r \<Longrightarrow> keccak_inc_absorb \<lparr>lanes = s, pending = 0\<rparr> r m =
     (let (s, m) = keccak_absorb_blocks s r m
      in \<lparr>lanes = KeccakF1600_StateXORBytes s m 0 (length m), pending = length m\<rparr>)"
proof (induction s r m rule: keccak_absorb_blocks.induct)
  case (1 s r m)
  then show ?case
    by (subst keccak_inc_absorb.simps, subst keccak_absorb_blocks.simps) simp
qed

lemma keccak_absorb_inc:
  assumes "rate_ok r"
  shows "keccak_absorb s r m p
       = lanes (keccak_inc_finalize (keccak_inc_absorb \<lparr>lanes = s, pending = 0\<rparr> r m) r p)"
proof -
  obtain s' m' where b: "keccak_absorb_blocks s r m = (s', m')" by fastforce
  have "1 < r" using assms by (simp add: rate_ok_def)
  then show ?thesis
    by (simp add: keccak_absorb_blocks_inc b keccak_absorb_def keccak_inc_finalize_def Let_def)
qed

lemma squeezeblocks_bytes:
  assumes "0 < r"
  shows "keccak_squeezeblocks n s r
       = (fst (squeeze_bytes r (n * r) \<lparr>lanes = s, pending = 0\<rparr>),
          lanes (snd (squeeze_bytes r (n * r) \<lparr>lanes = s, pending = 0\<rparr>)))"
proof (induction n arbitrary: s)
  case (Suc n)
  then show ?case using assms squeeze_block [of r r "\<lparr>lanes = s, pending = 0\<rparr>"]
    by (simp add: squeeze_bytes_add Let_def split_beta)
qed simp

lemma oneshot_sponge:
  assumes "rate_ok r"
  shows "fst (keccak_squeezeblocks n (keccak_absorb (replicate 25 0) r m p) r) = sponge r p m (n * r)"
proof -
  let ?st = "keccak_inc_finalize (keccak_inc_absorb keccak_inc_init r m) r p"
  have r: "0 < r" using assms by (simp add: rate_ok_def)
  have st: "\<lparr>lanes = lanes ?st, pending = 0\<rparr> = ?st"
    using absorb_finalize_sponge(2) [OF assms] by simp
  show ?thesis
    using r keccak_inc_squeeze_bytes [of r ?st "n * r"] absorb_finalize_sponge(2) [OF assms, of m p]
      keccak_inc_sponge [OF assms, of "n * r" m p]
    by (simp add: squeezeblocks_bytes keccak_absorb_inc [OF assms] keccak_inc_init_def [symmetric] st)
qed

lemma take_sponge: "k \<le> n \<Longrightarrow> take k (sponge r p m n) = sponge r p m k"
  by (simp add: sponge_def take_map min_def)

lemma inc_finalize_sponge:
  assumes "rate_ok r" and "k \<le> r"
  shows "map (\<lambda>i. fst (keccak_squeezeblocks 1 (lanes (keccak_inc_finalize (keccak_inc_absorb keccak_inc_init r m) r p)) r) ! i)
           [0..<k] = sponge r p m k"
proof -
  let ?t = "fst (keccak_squeezeblocks 1 (lanes (keccak_inc_finalize (keccak_inc_absorb keccak_inc_init r m) r p)) r)"
  have t: "?t = sponge r p m r"
    using oneshot_sponge [OF assms(1), of 1 m p]
    by (simp add: keccak_absorb_inc [OF assms(1)] keccak_inc_init_def)
  then have "map (\<lambda>i. ?t ! i) [0..<k] = take k ?t"
    using assms(2) by (intro nth_equalityI) (simp_all add: sponge_def)
  also have "\<dots> = sponge r p m k" unfolding t using assms(2) by (rule take_sponge)
  finally show ?thesis .
qed

lemma sha3_sponge:
  "sha3_256 m = sponge SHA3_256_RATE 0x06 m 32" "sha3_384 m = sponge SHA3_384_RATE 0x06 m 48"
  "sha3_512 m = sponge SHA3_512_RATE 0x06 m 64"
  by (simp_all add: sha3_256_def sha3_384_def sha3_512_def Let_def keccak_inc_sponge)

lemma foldl_inc_absorb:
  "pending st < r \<Longrightarrow> foldl (\<lambda>st m. keccak_inc_absorb st r m) st ms = keccak_inc_absorb st r (concat ms)"
proof (induction ms arbitrary: st)
  case Nil
  then show ?case by (simp add: keccak_inc_absorb_foldl)
next
  case (Cons m ms)
  then show ?case by (simp add: count_absorb keccak_inc_absorb_append)
qed

lemma sha3_inc_sponge:
  "sha3_256_inc_finalize (foldl sha3_256_inc_absorb sha3_256_inc_init ms) = sponge SHA3_256_RATE 0x06 (concat ms) 32"
  "sha3_384_inc_finalize (foldl sha3_384_inc_absorb sha3_384_inc_init ms) = sponge SHA3_384_RATE 0x06 (concat ms) 48"
  "sha3_512_inc_finalize (foldl sha3_512_inc_absorb sha3_512_inc_init ms) = sponge SHA3_512_RATE 0x06 (concat ms) 64"
proof -
  have f: "sha3_256_inc_absorb = (\<lambda>st m. keccak_inc_absorb st SHA3_256_RATE m)"
    "sha3_384_inc_absorb = (\<lambda>st m. keccak_inc_absorb st SHA3_384_RATE m)"
    "sha3_512_inc_absorb = (\<lambda>st m. keccak_inc_absorb st SHA3_512_RATE m)"
    by (simp_all add: fun_eq_iff sha3_256_inc_absorb_def sha3_384_inc_absorb_def sha3_512_inc_absorb_def)
  have c: "pending keccak_inc_init < SHA3_256_RATE" "pending keccak_inc_init < SHA3_384_RATE"
    "pending keccak_inc_init < SHA3_512_RATE"
    by (simp_all add: keccak_inc_init_def SHA3_256_RATE_def SHA3_384_RATE_def SHA3_512_RATE_def)
  have k: "32 \<le> SHA3_256_RATE" "48 \<le> SHA3_384_RATE" "64 \<le> SHA3_512_RATE"
    by (simp_all add: SHA3_256_RATE_def SHA3_384_RATE_def SHA3_512_RATE_def)
  show "sha3_256_inc_finalize (foldl sha3_256_inc_absorb sha3_256_inc_init ms) = sponge SHA3_256_RATE 0x06 (concat ms) 32"
    unfolding f sha3_256_inc_init_def foldl_inc_absorb [OF c(1)] sha3_256_inc_finalize_def Let_def
    by (rule inc_finalize_sponge [OF _ k(1)]) simp
  show "sha3_384_inc_finalize (foldl sha3_384_inc_absorb sha3_384_inc_init ms) = sponge SHA3_384_RATE 0x06 (concat ms) 48"
    unfolding f sha3_384_inc_init_def foldl_inc_absorb [OF c(2)] sha3_384_inc_finalize_def Let_def
    by (rule inc_finalize_sponge [OF _ k(2)]) simp
  show "sha3_512_inc_finalize (foldl sha3_512_inc_absorb sha3_512_inc_init ms) = sponge SHA3_512_RATE 0x06 (concat ms) 64"
    unfolding f sha3_512_inc_init_def foldl_inc_absorb [OF c(3)] sha3_512_inc_finalize_def Let_def
    by (rule inc_finalize_sponge [OF _ k(3)]) simp
qed

section \<open>The interface of an extendable-output function\<close>

text \<open>
  What the callers of the incremental interface rely on: input may be absorbed
  in pieces, output may be read in pieces, and the pieces read make up the
  reference stream.
\<close>

locale xof =
  fixes init :: "'st" and absorb :: "'st \<Rightarrow> bytes \<Rightarrow> 'st" and finalize :: "'st \<Rightarrow> 'st"
    and squeeze :: "nat \<Rightarrow> 'st \<Rightarrow> bytes \<times> 'st"
    and stream :: "bytes \<Rightarrow> nat \<Rightarrow> bytes"
    and readable :: "'st \<Rightarrow> bool"
  assumes absorb_pieces: "foldl absorb init ms = absorb init (concat ms)"
    and finalize_readable: "readable (finalize (absorb init m))"
    and squeeze_readable: "readable st \<Longrightarrow> readable (snd (squeeze n st))"
    and squeeze_pieces: "readable st \<Longrightarrow> squeeze (n + k) st =
        (fst (squeeze n st) @ fst (squeeze k (snd (squeeze n st))), snd (squeeze k (snd (squeeze n st))))"
    and squeeze_stream: "fst (squeeze n (finalize (absorb init m))) = stream m n"
    and length_squeeze: "readable st \<Longrightarrow> length (fst (squeeze n st)) = n"
begin

fun reads :: "nat list \<Rightarrow> 'st \<Rightarrow> bytes list" where
  "reads [] st = []"
| "reads (n # ns) st = fst (squeeze n st) # reads ns (snd (squeeze n st))"

lemma squeeze_0: "readable st \<Longrightarrow> fst (squeeze 0 st) = []"
  using length_squeeze [of st 0] by simp

lemma concat_reads: "readable st \<Longrightarrow> concat (reads ns st) = fst (squeeze (sum_list ns) st)"
  by (induction ns arbitrary: st) (simp_all add: squeeze_0 squeeze_readable squeeze_pieces)

lemma reads_stream:
  "concat (reads ns (finalize (foldl absorb init ms))) = stream (concat ms) (sum_list ns)"
  by (simp add: absorb_pieces concat_reads finalize_readable squeeze_stream)

end

lemma count_squeeze_bytes: "0 < r \<Longrightarrow> pending st \<le> r \<Longrightarrow> pending (snd (squeeze_bytes r n st)) \<le> r"
  by (induction n arbitrary: st) (auto simp: Let_def split_beta squeeze_byte_def)

lemma keccak_xof:
  assumes "rate_ok r"
  shows "xof keccak_inc_init (\<lambda>st m. keccak_inc_absorb st r m) (\<lambda>st. keccak_inc_finalize st r p)
           (\<lambda>n st. keccak_inc_squeeze n st r) (sponge r p) (\<lambda>st. pending st \<le> r)"
proof
  have r: "0 < r" using assms by (simp add: rate_ok_def)
  show "foldl (\<lambda>st m. keccak_inc_absorb st r m) keccak_inc_init ms = keccak_inc_absorb keccak_inc_init r (concat ms)" for ms
    using r by (intro foldl_inc_absorb) (simp add: keccak_inc_init_def)
  show "pending (keccak_inc_finalize (keccak_inc_absorb keccak_inc_init r m) r p) \<le> r" for m
    using absorb_finalize_sponge(2) [OF assms] by simp
  show "fst (keccak_inc_squeeze n (keccak_inc_finalize (keccak_inc_absorb keccak_inc_init r m) r p) r)
      = sponge r p m n" for n m
    by (rule keccak_inc_sponge [OF assms])
  fix st :: incctx and n k :: nat
  assume c: "pending st \<le> r"
  show "pending (snd (keccak_inc_squeeze n st r)) \<le> r" "length (fst (keccak_inc_squeeze n st r)) = n"
    using r c by (simp_all add: keccak_inc_squeeze_bytes count_squeeze_bytes)
  show "keccak_inc_squeeze (n + k) st r =
      (fst (keccak_inc_squeeze n st r) @ fst (keccak_inc_squeeze k (snd (keccak_inc_squeeze n st r)) r),
       snd (keccak_inc_squeeze k (snd (keccak_inc_squeeze n st r)) r))"
    using r c count_squeeze_bytes [of r st n] by (simp add: keccak_inc_squeeze_bytes squeeze_bytes_add)
qed

interpretation shake128: xof shake128_inc_init shake128_inc_absorb shake128_inc_finalize shake128_inc_squeeze
  "sponge SHAKE128_RATE 0x1F" "\<lambda>st. pending st \<le> SHAKE128_RATE"
  using keccak_xof [of SHAKE128_RATE "0x1F"]
  by (simp add: shake128_inc_init_def shake128_inc_absorb_def [abs_def] shake128_inc_finalize_def [abs_def]
      shake128_inc_squeeze_def [abs_def])

interpretation shake256: xof shake256_inc_init shake256_inc_absorb shake256_inc_finalize shake256_inc_squeeze
  "sponge SHAKE256_RATE 0x1F" "\<lambda>st. pending st \<le> SHAKE256_RATE"
  using keccak_xof [of SHAKE256_RATE "0x1F"]
  by (simp add: shake256_inc_init_def shake256_inc_absorb_def [abs_def] shake256_inc_finalize_def [abs_def]
      shake256_inc_squeeze_def [abs_def])

end
