(* ===== verification/Csprng.thy ===== *)
theory Csprng
  imports Fips202 "HOL-Library.Multiset"
begin

unbundle bit_operations_syntax

text \<open>
  Hashing and the generators of the scheme,
  \<^verbatim>\<open>cross/Reference_Implementation/include/sha3.h\<close>, \<^verbatim>\<open>include/csprng_hash.h\<close> and
  \<^verbatim>\<open>lib/csprng_hash.c\<close>. SHAKE128 or SHAKE256 is chosen by the security category; the
  six rejection samplers share one loop over a 64-bit sub-buffer refilled from a
  byte buffer of fixed size, and the fixed-weight string is shuffled with
  positions drawn the same way.
\<close>

section \<open>The code\<close>

subsection \<open>The SHAKE wrappers\<close>

definition xof_shake_init :: "cross_params \<Rightarrow> incctx" where
  "xof_shake_init p = (if cat p = CATEGORY_1 then shake128_inc_init else shake256_inc_init)"

definition xof_shake_update :: "cross_params \<Rightarrow> incctx \<Rightarrow> bytes \<Rightarrow> nat \<Rightarrow> incctx" where
  "xof_shake_update p state inp inputByteLen =
     (if cat p = CATEGORY_1 then shake128_inc_absorb state (take inputByteLen inp)
      else shake256_inc_absorb state (take inputByteLen inp))"

definition xof_shake_final :: "cross_params \<Rightarrow> incctx \<Rightarrow> incctx" where
  "xof_shake_final p state =
     (if cat p = CATEGORY_1 then shake128_inc_finalize state else shake256_inc_finalize state)"

definition xof_shake_extract :: "cross_params \<Rightarrow> incctx \<Rightarrow> nat \<Rightarrow> bytes \<times> incctx" where
  "xof_shake_extract p state outputByteLen =
     (if cat p = CATEGORY_1 then shake128_inc_squeeze outputByteLen state
      else shake256_inc_squeeze outputByteLen state)"

definition unsigned_int :: "nat \<Rightarrow> nat" where
  \<comment> \<open>the conversion of a length to the \<open>unsigned int\<close> parameter of a wrapper\<close>
  "unsigned_int n = take_bit 32 n"

definition dsc_ordered :: "nat \<Rightarrow> bytes" where
  "dsc_ordered dsc = [of_nat (dsc AND 0xff), of_nat (drop_bit 8 dsc AND 0xff)]"

definition csprng_initialize :: "cross_params \<Rightarrow> bytes \<Rightarrow> nat \<Rightarrow> incctx" where
  "csprng_initialize p seed dsc =
     (let csprng_state = xof_shake_init p;
          csprng_state = xof_shake_update p csprng_state seed (unsigned_int (length seed));
          csprng_state = xof_shake_update p csprng_state (dsc_ordered dsc) 2
      in xof_shake_final p csprng_state)"

definition csprng_randombytes :: "cross_params \<Rightarrow> nat \<Rightarrow> incctx \<Rightarrow> bytes \<times> incctx" where
  "csprng_randombytes p xlen csprng_state = xof_shake_extract p csprng_state (unsigned_int xlen)"

definition randombytes :: "cross_params \<Rightarrow> nat \<Rightarrow> incctx \<Rightarrow> bytes \<times> incctx" where
  \<comment> \<open>the argument is the global \<open>platform_csprng_state\<close>\<close>
  "randombytes p xlen platform_csprng_state = csprng_randombytes p xlen platform_csprng_state"

definition hash :: "cross_params \<Rightarrow> bytes \<Rightarrow> nat \<Rightarrow> bytes" where
  "hash p m dsc =
     (let csprng_state = xof_shake_init p;
          csprng_state = xof_shake_update p csprng_state m (unsigned_int (length m));
          csprng_state = xof_shake_update p csprng_state (dsc_ordered dsc) 2;
          csprng_state = xof_shake_final p csprng_state
      in fst (xof_shake_extract p csprng_state (HASH_DIGEST_LENGTH p)))"

subsection \<open>The sub-buffer\<close>

record subbuf =
  sub_buffer :: u64
  bits_in_sub_buf :: int
  pos_in_buf :: nat
  pos_remaining :: nat

definition subbuf_init :: "bytes \<Rightarrow> subbuf" where
  "subbuf_init CSPRNG_buffer =
     \<lparr>sub_buffer = foldl (\<lambda>w i. w OR push_bit (8 * i) (ucast (CSPRNG_buffer ! i))) 0 [0..<8],
      bits_in_sub_buf = 64, pos_in_buf = 8, pos_remaining = length CSPRNG_buffer - 8\<rparr>"

definition refill :: "bytes \<Rightarrow> subbuf \<Rightarrow> subbuf" where
  "refill CSPRNG_buffer st =
     (if bits_in_sub_buf st \<le> 32 \<and> pos_remaining st > 0
      then let refresh_amount = (if pos_remaining st \<ge> 4 then 4 else pos_remaining st);
               refresh_buf = foldl (\<lambda>w i. w OR push_bit (8 * i) (ucast (CSPRNG_buffer ! (pos_in_buf st + i))))
                 (0 :: 32 word) [0..<refresh_amount]
           in \<lparr>sub_buffer = sub_buffer st OR push_bit (nat (bits_in_sub_buf st)) (ucast refresh_buf),
               bits_in_sub_buf = bits_in_sub_buf st + 8 * int refresh_amount,
               pos_in_buf = pos_in_buf st + refresh_amount,
               pos_remaining = pos_remaining st - refresh_amount\<rparr>
      else st)"

definition consume :: "nat \<Rightarrow> subbuf \<Rightarrow> subbuf" where
  "consume n st = st\<lparr>sub_buffer := drop_bit n (sub_buffer st), bits_in_sub_buf := bits_in_sub_buf st - int n\<rparr>"

subsection \<open>The rejection samplers\<close>

text \<open>
  What the six samplers draw: an element of the field, a non-zero element (a
  number below \<open>P - 1\<close>, plus one), an exponent.
\<close>

datatype draw = DRAW_FP | DRAW_FPSTAR | DRAW_FZ

fun draw_bits :: "rsdp_variant \<Rightarrow> draw \<Rightarrow> nat" where
  "draw_bits v DRAW_FP = BITS_TO_REPRESENT (par_P v - 1)"
| "draw_bits v DRAW_FPSTAR = BITS_TO_REPRESENT (par_P v - 2)"
| "draw_bits v DRAW_FZ = BITS_TO_REPRESENT (par_Z v - 1)"

fun draw_offset :: "draw \<Rightarrow> nat" where
  "draw_offset DRAW_FP = 0"
| "draw_offset DRAW_FPSTAR = 1"
| "draw_offset DRAW_FZ = 0"

fun draw_bound :: "rsdp_variant \<Rightarrow> draw \<Rightarrow> nat" where
  "draw_bound v DRAW_FP = par_P v"
| "draw_bound v DRAW_FPSTAR = par_P v"
| "draw_bound v DRAW_FZ = par_Z v"

definition draw_value :: "rsdp_variant \<Rightarrow> draw \<Rightarrow> subbuf \<Rightarrow> nat" where
  \<comment> \<open>\<open>(sub_buffer & mask) + offset\<close>, stored into a 16-bit or 8-bit element\<close>
  "draw_value v k st =
     take_bit (if k = DRAW_FZ then FZ_ELEM_BITS v else FP_ELEM_BITS v)
       (unat (sub_buffer st AND (push_bit (draw_bits v k) 1 - 1)) + draw_offset k)"

lemma draw_bits_eq [simp]:
  "draw_bits RSDP DRAW_FP = 7" "draw_bits RSDP DRAW_FPSTAR = 7" "draw_bits RSDP DRAW_FZ = 3"
  "draw_bits RSDPG DRAW_FP = 9" "draw_bits RSDPG DRAW_FPSTAR = 9" "draw_bits RSDPG DRAW_FZ = 7"
  by (simp_all add: BITS_TO_REPRESENT_eqI)

declare draw_bits.simps [simp del]

lemma draw_bits_bounds: "3 \<le> draw_bits v k" "draw_bits v k \<le> 9"
  by (cases v; cases k; simp)+

lemma draw_value_eq:
  "draw_value v k st = unat (sub_buffer st) mod 2 ^ draw_bits v k + draw_offset k"
proof -
  have m: "push_bit n 1 - 1 = (mask n :: u64)" for n by (simp add: mask_eq_exp_minus_1 push_bit_of_1)
  have u: "unat (sub_buffer st AND mask n) = unat (sub_buffer st) mod 2 ^ n" for n
    by (simp add: take_bit_eq_mask [symmetric] unsigned_take_bit_eq take_bit_nat_def)
  have lt: "x mod 2 ^ 9 < 2 ^ 16 - 1" "x mod 2 ^ 7 < 2 ^ 8 - 1" "x mod 2 ^ 3 < 2 ^ 8 - 1" for x :: nat
    by (rule order_less_le_trans [OF mod_less_divisor], simp_all)+
  show ?thesis unfolding draw_value_def m u
    using lt [of "unat (sub_buffer st)"] by (cases v; cases k) (auto intro!: take_bit_nat_eq_self)
qed

lemma draw_value_0: "sub_buffer st = 0 \<Longrightarrow> draw_value v k st < draw_bound v k"
  unfolding draw_value_eq by (cases v; cases k) simp_all

lemma unat_drop_bit_less: "w \<noteq> 0 \<Longrightarrow> 0 < n \<Longrightarrow> unat (drop_bit n w) < unat (w :: u64)"
proof -
  assume "w \<noteq> 0" "0 < n"
  then have "0 < unat w" "1 < (2::nat) ^ n" using one_less_power [of "2::nat" n] by (simp_all add: unat_gt_0)
  then have "unat w div 2 ^ n < unat w" by (intro div_less_dividend)
  then show ?thesis by (simp add: unat_drop_bit_eq drop_bit_nat_def)
qed

lemma pos_remaining_refill: "pos_remaining (refill buf st) \<le> pos_remaining st"
  and refill_fresh: "pos_remaining (refill buf st) = pos_remaining st \<Longrightarrow> refill buf st = st"
  by (auto simp: refill_def Let_def)

function sample_loop :: "rsdp_variant \<Rightarrow> draw \<Rightarrow> nat \<Rightarrow> bytes \<Rightarrow> subbuf \<Rightarrow> nat list \<Rightarrow> nat list" where
  "sample_loop v k limit CSPRNG_buffer st res =
     (if length res < limit
      then let st = refill CSPRNG_buffer st;
               c = draw_value v k st;
               res = (if c < draw_bound v k then res @ [c] else res)
           in sample_loop v k limit CSPRNG_buffer (consume (draw_bits v k) st) res
      else res)"
  by auto
termination
proof (relation "measures [\<lambda>(v, k, limit, buf, st, res). pos_remaining st,
      \<lambda>(v, k, limit, buf, st, res). limit - length res,
      \<lambda>(v, k, limit, buf, st, res). unat (sub_buffer st)]", goal_cases)
  case (2 v k limit buf st res st' c res')
  have "sub_buffer st' \<noteq> 0" if "res' = res"
    using that 2 draw_value_0 by (auto split: if_splits)
  then have "unat (drop_bit (draw_bits v k) (sub_buffer st')) < unat (sub_buffer st')" if "res' = res"
    using that draw_bits_bounds [of v k] by (intro unat_drop_bit_less) auto
  then show ?case
    using 2 pos_remaining_refill [of buf st] refill_fresh [of buf st]
    by (auto simp: consume_def le_less split: if_splits)
qed simp

declare sample_loop.simps [simp del]

definition csprng_fp_vec :: "cross_params \<Rightarrow> incctx \<Rightarrow> nat list \<times> incctx" where
  "csprng_fp_vec p csprng_state =
     (let (CSPRNG_buffer, csprng_state) =
            csprng_randombytes p (ROUND_UP (BITS_N_FP_CT_RNG (tabs p)) 8 div 8) csprng_state
      in (sample_loop (variant p) DRAW_FP (par_N p) CSPRNG_buffer (subbuf_init CSPRNG_buffer) [], csprng_state))"

definition csprng_fp_vec_chall_1 :: "cross_params \<Rightarrow> incctx \<Rightarrow> nat list \<times> incctx" where
  "csprng_fp_vec_chall_1 p csprng_state =
     (let (CSPRNG_buffer, csprng_state) =
            csprng_randombytes p (ROUND_UP (BITS_CHALL_1_FPSTAR_CT_RNG (tabs p)) 8 div 8) csprng_state
      in (sample_loop (variant p) DRAW_FPSTAR (par_T p) CSPRNG_buffer (subbuf_init CSPRNG_buffer) [], csprng_state))"

definition csprng_fp_mat :: "cross_params \<Rightarrow> incctx \<Rightarrow> nat list list \<times> incctx" where
  \<comment> \<open>the matrix is filled in row-major order\<close>
  "csprng_fp_mat p csprng_state =
     (let (CSPRNG_buffer, csprng_state) =
            csprng_randombytes p (ROUND_UP (BITS_V_CT_RNG (tabs p)) 8 div 8) csprng_state
      in (chunks (par_N p - par_K p) (par_K p)
            (sample_loop (variant p) DRAW_FP (par_K p * (par_N p - par_K p)) CSPRNG_buffer
              (subbuf_init CSPRNG_buffer) []), csprng_state))"

definition csprng_fz_vec :: "cross_params \<Rightarrow> incctx \<Rightarrow> nat list \<times> incctx" where
  "csprng_fz_vec p csprng_state =
     (let (CSPRNG_buffer, csprng_state) =
            csprng_randombytes p (ROUND_UP (BITS_N_FZ_CT_RNG (tabs p)) 8 div 8) csprng_state
      in (sample_loop (variant p) DRAW_FZ (par_N p) CSPRNG_buffer (subbuf_init CSPRNG_buffer) [], csprng_state))"

definition csprng_fz_inf_w :: "cross_params \<Rightarrow> incctx \<Rightarrow> nat list \<times> incctx" where
  "csprng_fz_inf_w p csprng_state =
     (let (CSPRNG_buffer, csprng_state) =
            csprng_randombytes p (ROUND_UP (BITS_M_FZ_CT_RNG (tabs p)) 8 div 8) csprng_state
      in (sample_loop (variant p) DRAW_FZ (par_M p) CSPRNG_buffer (subbuf_init CSPRNG_buffer) [], csprng_state))"

definition csprng_fz_mat :: "cross_params \<Rightarrow> incctx \<Rightarrow> nat list list \<times> incctx" where
  "csprng_fz_mat p csprng_state =
     (let (CSPRNG_buffer, csprng_state) =
            csprng_randombytes p (ROUND_UP (BITS_W_CT_RNG (tabs p)) 8 div 8) csprng_state
      in (chunks (par_N p - par_M p) (par_M p)
            (sample_loop (variant p) DRAW_FZ (par_M p * (par_N p - par_M p)) CSPRNG_buffer
              (subbuf_init CSPRNG_buffer) []), csprng_state))"

subsection \<open>The fixed-weight string\<close>

definition swap :: "nat \<Rightarrow> nat \<Rightarrow> 'a list \<Rightarrow> 'a list" where
  "swap cur dest xs = (let tmp = xs ! cur; xs = xs[cur := xs ! dest] in xs[dest := tmp])"

definition bits_for_pos :: "cross_params \<Rightarrow> nat \<Rightarrow> nat" where
  "bits_for_pos p cur = BITS_TO_REPRESENT (par_T p - 1 - cur)"

definition candidate_pos :: "cross_params \<Rightarrow> nat \<Rightarrow> subbuf \<Rightarrow> nat" where
  \<comment> \<open>\<open>sub_buffer & pos_mask\<close>, stored into a \<open>uint16_t\<close>\<close>
  "candidate_pos p cur st = take_bit 16 (unat (sub_buffer st AND (push_bit (bits_for_pos p cur) 1 - 1)))"

lemma candidate_pos_0: "sub_buffer st = 0 \<Longrightarrow> candidate_pos p cur st = 0"
  by (simp add: candidate_pos_def)

lemma bits_for_pos_bounds: "0 < bits_for_pos p cur" "bits_for_pos p cur \<le> 10"
proof -
  have lt: "par_T p - 1 - cur < 2 ^ 10" using par_T_le [of p] by simp
  then show "0 < bits_for_pos p cur"
    unfolding bits_for_pos_def by (intro BITS_TO_REPRESENT_bounds(2)) simp
  show "bits_for_pos p cur \<le> 10"
  proof (cases "par_T p - 1 - cur = 0")
    case False
    then have "2 ^ (bits_for_pos p cur - 1) \<le> par_T p - 1 - cur"
      unfolding bits_for_pos_def using lt by (intro BITS_TO_REPRESENT_bounds(4)) simp_all
    then have "(2::nat) ^ (bits_for_pos p cur - 1) < 2 ^ 10" using lt by linarith
    then have "bits_for_pos p cur - 1 < 10" by (rule power_less_imp_less_exp [rotated]) simp
    then show ?thesis by simp
  qed (simp add: bits_for_pos_def BITS_TO_REPRESENT_def)
qed

function shuffle_loop :: "cross_params \<Rightarrow> bytes \<Rightarrow> subbuf \<Rightarrow> nat \<Rightarrow> nat list \<Rightarrow> nat list" where
  "shuffle_loop p CSPRNG_buffer st cur fixed_weight_string =
     (if cur < par_T p
      then let st = refill CSPRNG_buffer st;
               c = candidate_pos p cur st;
               st' = consume (bits_for_pos p cur) st
           in if c < par_T p - cur
              then shuffle_loop p CSPRNG_buffer st' (cur + 1) (swap cur (cur + c) fixed_weight_string)
              else shuffle_loop p CSPRNG_buffer st' cur fixed_weight_string
      else fixed_weight_string)"
  by auto
termination
proof (relation "measures [\<lambda>(p, buf, st, cur, s). pos_remaining st,
      \<lambda>(p, buf, st, cur, s). par_T p - cur,
      \<lambda>(p, buf, st, cur, s). unat (sub_buffer st)]", goal_cases)
  case (2 p buf st cur s st' c st'')
  then show ?case
    using pos_remaining_refill [of buf st] by (auto simp: consume_def le_less)
next
  case (3 p buf st cur s st' c st'')
  have "sub_buffer st' \<noteq> 0"
    using 3 candidate_pos_0 [of st' p cur] by auto
  then have "unat (drop_bit (bits_for_pos p cur) (sub_buffer st')) < unat (sub_buffer st')"
    using bits_for_pos_bounds [of p cur] by (intro unat_drop_bit_less) auto
  then show ?case
    using 3 pos_remaining_refill [of buf st] refill_fresh [of buf st]
    by (auto simp: consume_def le_less)
qed simp

declare shuffle_loop.simps [simp del]

definition expand_digest_to_fixed_weight :: "cross_params \<Rightarrow> bytes \<Rightarrow> nat list" where
  "expand_digest_to_fixed_weight p digest =
     (let dsc_csprng_b = CSPRNG_DOMAIN_SEP_CONST + 3 * par_T p;
          csprng_state = csprng_initialize p digest dsc_csprng_b;
          (CSPRNG_buffer, csprng_state) =
            csprng_randombytes p (ROUND_UP (BITS_CWSTR_RNG (tabs p)) 8 div 8) csprng_state;
          fixed_weight_string = replicate (par_W p) 1 @ replicate (par_T p - par_W p) 0
      in shuffle_loop p CSPRNG_buffer (subbuf_init CSPRNG_buffer) 0 fixed_weight_string)"

section \<open>Hashing is the sponge\<close>

definition shake_rate :: "cross_params \<Rightarrow> nat" where
  "shake_rate p = (if cat p = CATEGORY_1 then SHAKE128_RATE else SHAKE256_RATE)"

lemma shake_rate_ok [simp]: "rate_ok (shake_rate p)"
  by (simp add: shake_rate_def)

lemma xof_shake_inc:
  "xof_shake_init p = keccak_inc_init"
  "xof_shake_update p st m n = keccak_inc_absorb st (shake_rate p) (take n m)"
  "xof_shake_final p st = keccak_inc_finalize st (shake_rate p) 0x1F"
  "xof_shake_extract p st n = keccak_inc_squeeze n st (shake_rate p)"
  by (simp_all add: xof_shake_init_def xof_shake_update_def xof_shake_final_def xof_shake_extract_def
      shake_rate_def shake128_inc_init_def shake256_inc_init_def shake128_inc_absorb_def shake256_inc_absorb_def
      shake128_inc_finalize_def shake256_inc_finalize_def shake128_inc_squeeze_def shake256_inc_squeeze_def)

interpretation shake: xof "xof_shake_init p" "\<lambda>st m. xof_shake_update p st m (length m)" "xof_shake_final p"
  "\<lambda>n st. xof_shake_extract p st n" "sponge (shake_rate p) 0x1F" "\<lambda>st. pending st \<le> shake_rate p" for p
  using keccak_xof [OF shake_rate_ok, of p "0x1F"] by (simp add: xof_shake_inc xof_shake_inc(3) [abs_def])

lemma length_squeeze_blocks: "0 < r \<Longrightarrow> length (fst (keccak_inc_squeeze_blocks n st r)) = n"
proof (induction n st r rule: keccak_inc_squeeze_blocks.induct)
  case (1 n st r)
  show ?case using 1 by (subst keccak_inc_squeeze_blocks.simps) (auto simp: Let_def split_beta)
qed

lemma length_keccak_inc_squeeze: "0 < r \<Longrightarrow> length (fst (keccak_inc_squeeze n st r)) = n"
  by (auto simp: keccak_inc_squeeze_def Let_def split_beta length_squeeze_blocks)

lemma length_csprng_randombytes [len_simps]:
  "n < 2 ^ 32 \<Longrightarrow> length (fst (csprng_randombytes p n st)) = n"
proof -
  have "0 < shake_rate p" by (simp add: shake_rate_def SHAKE128_RATE_def SHAKE256_RATE_def)
  then show "n < 2 ^ 32 \<Longrightarrow> ?thesis"
    by (simp add: csprng_randombytes_def xof_shake_inc length_keccak_inc_squeeze unsigned_int_def
        take_bit_nat_eq_self)
qed

lemma length_hash [len_simps, simp]: "length (hash p m d) = HASH_DIGEST_LENGTH p"
proof -
  have "0 < shake_rate p" by (simp add: shake_rate_def SHAKE128_RATE_def SHAKE256_RATE_def)
  then show ?thesis by (simp add: hash_def Let_def xof_shake_inc length_keccak_inc_squeeze)
qed

lemma absorb_two:
  "keccak_inc_absorb (keccak_inc_absorb keccak_inc_init (shake_rate p) m) (shake_rate p) m'
   = keccak_inc_absorb keccak_inc_init (shake_rate p) (m @ m')"
  by (rule keccak_inc_absorb_append)
    (simp add: keccak_inc_init_def shake_rate_def SHAKE128_RATE_def SHAKE256_RATE_def)

lemma length_dsc_ordered [simp]: "length (dsc_ordered d) = 2"
  by (simp add: dsc_ordered_def)

text \<open>
  The digest is the sponge over the message, cut to \<open>length m mod 2^32\<close> bytes by
  the \<open>unsigned int\<close> parameter of the wrapper, and the two bytes of the domain
  separation constant.
\<close>

lemma hash_sponge:
  "hash p m d = sponge (shake_rate p) 0x1F (take (length m mod 2 ^ 32) m @ dsc_ordered d) (HASH_DIGEST_LENGTH p)"
  by (simp add: hash_def Let_def xof_shake_inc absorb_two keccak_inc_sponge unsigned_int_def take_bit_nat_def)

lemma csprng_initialize_sponge:
  "fst (xof_shake_extract p (csprng_initialize p seed d) n)
   = sponge (shake_rate p) 0x1F (take (length seed mod 2 ^ 32) seed @ dsc_ordered d) n"
  by (simp add: csprng_initialize_def Let_def xof_shake_inc absorb_two keccak_inc_sponge unsigned_int_def
      take_bit_nat_def)

section \<open>The samplers\<close>

lemma length_sample_loop:
  "length res \<le> limit \<Longrightarrow> length (sample_loop v k limit buf st res) = limit"
proof (induction v k limit buf st res rule: sample_loop.induct)
  case (1 v k limit buf st res)
  show ?case using 1(1) [OF _ refl refl refl] 1(2)
    by (subst sample_loop.simps) (auto simp: Let_def)
qed

lemma set_sample_loop:
  "(\<And>x. x \<in> set res \<Longrightarrow> draw_offset k \<le> x \<and> x < draw_bound v k) \<Longrightarrow>
   x \<in> set (sample_loop v k limit buf st res) \<Longrightarrow> draw_offset k \<le> x \<and> x < draw_bound v k"
proof (induction v k limit buf st res rule: sample_loop.induct)
  case (1 v k limit buf st res)
  show ?case
  proof (cases "length res < limit")
    case True
    let ?st = "refill buf st"
    let ?c = "draw_value v k ?st"
    let ?res = "if ?c < draw_bound v k then res @ [?c] else res"
    have off: "draw_offset k \<le> ?c" unfolding draw_value_eq by simp
    have "x \<in> set (sample_loop v k limit buf (consume (draw_bits v k) ?st) ?res)"
      using 1(3) True by (subst (asm) sample_loop.simps) (simp add: Let_def)
    moreover have "draw_offset k \<le> y \<and> y < draw_bound v k" if "y \<in> set ?res" for y
      using that off 1(2) by (auto split: if_splits)
    ultimately show ?thesis by (intro 1(1) [OF True refl refl refl]) blast+
  next
    case False
    then show ?thesis using 1(2,3) by (subst (asm) sample_loop.simps) simp
  qed
qed

subsection \<open>The stream the samplers read\<close>

text \<open>
  The reference: the buffer is one number, least significant byte first; a draw
  takes its low bits and divides. Once the number is exhausted every draw is 0.
\<close>

fun le_nat :: "bytes \<Rightarrow> nat" where
  "le_nat [] = 0"
| "le_nat (b # bs) = unat b + 2 ^ 8 * le_nat bs"

function rejection_sample :: "nat \<Rightarrow> nat \<Rightarrow> nat \<Rightarrow> nat \<Rightarrow> nat \<Rightarrow> nat list" where
  \<comment> \<open>\<open>n\<close> accepted draws of \<open>bits\<close> bits from the number \<open>B\<close>, shifted by \<open>off\<close>, below \<open>q\<close>\<close>
  "rejection_sample bits off q n B =
     (if n = 0 \<or> bits = 0 \<or> q \<le> off then []
      else let c = B mod 2 ^ bits + off; B' = B div 2 ^ bits
           in if c < q then c # rejection_sample bits off q (n - 1) B' else rejection_sample bits off q n B')"
  by auto
termination
proof (relation "measures [\<lambda>(bits, off, q, n, B). n, \<lambda>(bits, off, q, n, B). B]", goal_cases)
  case (3 bits off q n B c B')
  then have "B \<noteq> 0" by (cases "B = 0") auto
  moreover have "1 < (2::nat) ^ bits" using 3 one_less_power [of "2::nat" bits] by simp
  ultimately show ?case using 3 by (auto intro: div_less_dividend)
qed auto

declare rejection_sample.simps [simp del]

lemma le_nat_append: "le_nat (xs @ ys) = le_nat xs + 2 ^ (8 * length xs) * le_nat ys"
  by (induction xs) (simp_all add: power_add algebra_simps)

lemma le_nat_lt: "le_nat xs < 2 ^ (8 * length xs)"
proof (induction xs)
  case (Cons x xs)
  have "unat x < 2 ^ 8" by (rule unat_byte_lt)
  moreover have "2 ^ 8 * le_nat xs + 2 ^ 8 \<le> 2 ^ 8 * 2 ^ (8 * length xs)"
    using Cons by (metis Suc_leI mult_Suc_right add.commute mult_le_mono2)
  ultimately have "le_nat (x # xs) < 2 ^ 8 * 2 ^ (8 * length xs)" by simp
  then show ?case by (simp add: power_add)
qed simp

lemma or_push_add: "(a::nat) < 2 ^ k \<Longrightarrow> a OR push_bit k b = a + 2 ^ k * b"
proof -
  assume a: "a < 2 ^ k"
  have "a + push_bit k b = a OR push_bit k b"
    by (rule disjunctive_add_eq_or) (use bit_nat_small [OF a] in \<open>auto simp: bit_eq_iff bit_and_iff bit_push_bit_iff_nat\<close>)
  then show ?thesis by (simp add: push_bit_nat_def mult.commute)
qed

lemma unat_or_push:
  fixes w :: "'a::len word" and x :: "'b::len word"
  assumes "unat w < 2 ^ k" "unat x < 2 ^ j" "k + j \<le> LENGTH('a)" "LENGTH('b) \<le> LENGTH('a)"
  shows "unat (w OR push_bit k (ucast x)) = unat w + 2 ^ k * unat x"
    and "unat w + 2 ^ k * unat x < 2 ^ (k + j)"
proof -
  have "2 ^ k * unat x + 2 ^ k \<le> 2 ^ k * 2 ^ j"
    using assms(2) by (metis Suc_leI mult_Suc_right add.commute mult_le_mono2)
  then show lt: "unat w + 2 ^ k * unat x < 2 ^ (k + j)"
    using assms(1) by (simp add: power_add)
  have "2 ^ k * unat x < 2 ^ LENGTH('a)"
    using lt power_increasing [OF assms(3), of "2::nat"] by linarith
  moreover have "(2::nat) ^ j \<le> 2 ^ LENGTH('a)"
    using assms(3) by (intro power_increasing) simp_all
  then have "unat x < 2 ^ LENGTH('a)" using assms(2) by linarith
  then have "unat (ucast x :: 'a word) = unat x"
    by (simp add: unsigned_ucast_eq take_bit_nat_eq_self)
  ultimately have "unat (push_bit k (ucast x :: 'a word)) = push_bit k (unat x)"
    by (simp add: unsigned_push_bit_eq push_bit_nat_def take_bit_nat_eq_self mult.commute)
  then show "unat (w OR push_bit k (ucast x)) = unat w + 2 ^ k * unat x"
    using assms(1) by (simp add: unsigned_or_eq or_push_add)
qed

lemma gather_bytes:
  assumes "8 * n \<le> LENGTH('a)" and "8 \<le> LENGTH('a::len)"
  shows "unat (foldl (\<lambda>w i. w OR push_bit (8 * i) (ucast (f i :: byte))) (0 :: 'a word) [0..<n])
       = le_nat (map f [0..<n])"
  using assms(1)
proof (induction n)
  case (Suc n)
  let ?w = "foldl (\<lambda>w i. w OR push_bit (8 * i) (ucast (f i))) (0 :: 'a word) [0..<n]"
  have IH: "unat ?w = le_nat (map f [0..<n])" using Suc by simp
  have "unat (?w OR push_bit (8 * n) (ucast (f n))) = unat ?w + 2 ^ (8 * n) * unat (f n)"
    using Suc.prems assms(2) le_nat_lt [of "map f [0..<n]"]
    by (intro unat_or_push(1) [where j = 8] unat_byte_lt) (simp_all add: IH)
  then show ?case by (simp add: IH le_nat_append)
qed simp

text \<open>
  The invariant of the sub-buffer: it holds the next \<open>bits_in_sub_buf\<close> bits of the
  stream, the two positions never leave the buffer, and while bytes remain at
  least 22 bits are available, so no shift amount is negative or above 32.
\<close>

definition subbuf_ok :: "bytes \<Rightarrow> subbuf \<Rightarrow> bool" where
  "subbuf_ok buf st \<longleftrightarrow>
     pos_in_buf st + pos_remaining st = length buf \<and> bits_in_sub_buf st \<le> 64
     \<and> (0 < pos_remaining st \<longrightarrow> 22 \<le> bits_in_sub_buf st)
     \<and> unat (sub_buffer st) < 2 ^ nat (bits_in_sub_buf st)"

definition subbuf_num :: "bytes \<Rightarrow> subbuf \<Rightarrow> nat" where
  \<comment> \<open>the unread part of the stream, as a number\<close>
  "subbuf_num buf st = unat (sub_buffer st) + 2 ^ nat (bits_in_sub_buf st) * le_nat (drop (pos_in_buf st) buf)"

lemma bytes_at: "off + n \<le> length buf \<Longrightarrow> map (\<lambda>i. buf ! (off + i)) [0..<n] = take n (drop off buf)"
  by (rule nth_equalityI) simp_all

lemma subbuf_init_ok:
  assumes "8 \<le> length buf"
  shows "subbuf_ok buf (subbuf_init buf)" and "subbuf_num buf (subbuf_init buf) = le_nat buf"
proof -
  have g: "unat (sub_buffer (subbuf_init buf)) = le_nat (take 8 buf)"
    using gather_bytes [of 8 "\<lambda>i. buf ! i", where 'a = 64] assms
    by (simp add: subbuf_init_def bytes_at [of 0, simplified])
  show "subbuf_ok buf (subbuf_init buf)"
    using assms le_nat_lt [of "take 8 buf"] g by (simp add: subbuf_ok_def subbuf_init_def)
  show "subbuf_num buf (subbuf_init buf) = le_nat buf"
    using assms le_nat_append [of "take 8 buf" "drop 8 buf"] g by (simp add: subbuf_num_def subbuf_init_def)
qed

lemma refill_ok:
  assumes ok: "subbuf_ok buf st"
  shows "subbuf_ok buf (refill buf st)" and "subbuf_num buf (refill buf st) = subbuf_num buf st"
    and "0 < pos_remaining (refill buf st) \<Longrightarrow> 33 \<le> bits_in_sub_buf (refill buf st)"
proof -
  have "subbuf_ok buf (refill buf st) \<and> subbuf_num buf (refill buf st) = subbuf_num buf st
    \<and> (0 < pos_remaining (refill buf st) \<longrightarrow> 33 \<le> bits_in_sub_buf (refill buf st))"
  proof (cases "bits_in_sub_buf st \<le> 32 \<and> pos_remaining st > 0")
    case True
    define n where "n = (if pos_remaining st \<ge> 4 then 4 else pos_remaining st)"
    define w where "w = foldl (\<lambda>w i. w OR push_bit (8 * i) (ucast (buf ! (pos_in_buf st + i)))) (0 :: 32 word) [0..<n]"
    define k where "k = nat (bits_in_sub_buf st)"
    let ?bs = "drop (pos_in_buf st) buf"
    have n: "n \<le> 4" "n \<le> pos_remaining st" by (simp_all add: n_def)
    have pos: "pos_in_buf st + pos_remaining st = length buf" using ok by (simp add: subbuf_ok_def)
    have k: "k \<le> 32" "22 \<le> k" "bits_in_sub_buf st = int k"
      using True ok by (auto simp: k_def subbuf_ok_def)
    have sub: "unat (sub_buffer st) < 2 ^ k" using ok by (simp add: subbuf_ok_def k_def)
    have w: "unat w = le_nat (take n ?bs)"
      using gather_bytes [of n "\<lambda>i. buf ! (pos_in_buf st + i)", where 'a = 32] n pos
      by (simp add: w_def bytes_at)
    have wlt: "unat w < 2 ^ (8 * n)" using le_nat_lt [of "take n ?bs"] n pos by (simp add: w)
    have sum: "unat (sub_buffer st OR push_bit k (ucast w)) = unat (sub_buffer st) + 2 ^ k * unat w"
      "unat (sub_buffer st) + 2 ^ k * unat w < 2 ^ (k + 8 * n)"
      using n k by (intro unat_or_push [OF sub wlt]; simp)+
    have st': "refill buf st = \<lparr>sub_buffer = sub_buffer st OR push_bit k (ucast w),
        bits_in_sub_buf = bits_in_sub_buf st + 8 * int n, pos_in_buf = pos_in_buf st + n,
        pos_remaining = pos_remaining st - n\<rparr>"
      using True by (simp add: refill_def Let_def n_def w_def k_def)
    have bits: "nat (bits_in_sub_buf st + 8 * int n) = k + 8 * n" by (simp add: k(3) nat_int_add)
    have "subbuf_ok buf (refill buf st)"
      unfolding st' subbuf_ok_def using pos n k sum bits by (auto simp: n_def split: if_splits)
    moreover {
    have "le_nat ?bs = le_nat (take n ?bs) + 2 ^ (8 * n) * le_nat (drop n ?bs)"
      using le_nat_append [of "take n ?bs" "drop n ?bs"] n pos unfolding append_take_drop_id by simp
    moreover have "subbuf_num buf (refill buf st)
        = unat (sub_buffer st) + 2 ^ k * unat w + 2 ^ (k + 8 * n) * le_nat (drop n ?bs)"
      by (simp add: st' subbuf_num_def sum(1) bits add.commute [of n])
    ultimately have "subbuf_num buf (refill buf st) = subbuf_num buf st"
      by (simp add: subbuf_num_def w k_def [symmetric] power_add distrib_left)
    }
    moreover have "0 < pos_remaining st - n \<longrightarrow> 33 \<le> bits_in_sub_buf st + 8 * int n"
      using k by (auto simp: n_def)
    ultimately show ?thesis by (simp add: st')
  next
    case False
    then show ?thesis using ok by (auto simp: refill_def)
  qed
  then show "subbuf_ok buf (refill buf st)" "subbuf_num buf (refill buf st) = subbuf_num buf st"
    "0 < pos_remaining (refill buf st) \<Longrightarrow> 33 \<le> bits_in_sub_buf (refill buf st)" by auto
qed

text \<open>The low bits of the sub-buffer are the low bits of the stream.\<close>

lemma consume_ok:
  assumes ok: "subbuf_ok buf st" and full: "0 < pos_remaining st \<Longrightarrow> 33 \<le> bits_in_sub_buf st" and n: "n \<le> 10"
  shows "subbuf_ok buf (consume n st)" and "subbuf_num buf (consume n st) = subbuf_num buf st div 2 ^ n"
    and "unat (sub_buffer st) mod 2 ^ n = subbuf_num buf st mod 2 ^ n"
proof -
  let ?s = "unat (sub_buffer st)" and ?b = "bits_in_sub_buf st" and ?R = "le_nat (drop (pos_in_buf st) buf)"
  have u: "unat (sub_buffer (consume n st)) = ?s div 2 ^ n"
    by (simp add: consume_def unat_drop_bit_eq drop_bit_nat_def)
  have sub: "?s < 2 ^ nat ?b" and pos: "pos_in_buf st + pos_remaining st = length buf"
    using ok by (simp_all add: subbuf_ok_def)
  have lt: "?s div 2 ^ n < 2 ^ nat (?b - int n)"
  proof (cases "int n \<le> ?b")
    case True
    then have "2 ^ nat ?b = 2 ^ n * (2::nat) ^ nat (?b - int n)"
      by (simp add: power_add [symmetric] nat_diff_distrib)
    then show ?thesis using sub by (simp add: less_mult_imp_div_less mult.commute)
  next
    case False
    then have "nat ?b \<le> n" by linarith
    then have "(2::nat) ^ nat ?b \<le> 2 ^ n" by (intro power_increasing) auto
    then have "?s div 2 ^ n = 0" using sub by (intro div_less) linarith
    then show ?thesis by simp
  qed
  then show "subbuf_ok buf (consume n st)"
    using ok full n u unfolding subbuf_ok_def by (auto simp: consume_def)
  have num_c: "subbuf_num buf (consume n st) = ?s div 2 ^ n + 2 ^ nat (?b - int n) * ?R"
    using u by (simp add: subbuf_num_def consume_def)
  have "subbuf_num buf (consume n st) = subbuf_num buf st div 2 ^ n \<and> ?s mod 2 ^ n = subbuf_num buf st mod 2 ^ n"
  proof (cases "0 < pos_remaining st")
    case True
    then have "int n \<le> ?b" using full n by simp
    then have "nat ?b = n + nat (?b - int n)" by linarith
    then have num: "subbuf_num buf st = ?s + 2 ^ n * (2 ^ nat (?b - int n) * ?R)"
      by (simp add: subbuf_num_def power_add)
    then have "subbuf_num buf st div 2 ^ n = ?s div 2 ^ n + 2 ^ nat (?b - int n) * ?R"
      and "subbuf_num buf st mod 2 ^ n = ?s mod 2 ^ n" by simp_all
    with num_c show ?thesis by simp
  next
    case False
    then have "?R = 0" using pos by simp
    then show ?thesis using num_c by (simp add: subbuf_num_def)
  qed
  then show "subbuf_num buf (consume n st) = subbuf_num buf st div 2 ^ n"
    and "?s mod 2 ^ n = subbuf_num buf st mod 2 ^ n" by auto
qed

lemma draw_offset_lt: "draw_offset k < draw_bound v k"
  by (cases k; cases v) simp_all

lemma sample_loop_rejection:
  "subbuf_ok buf st \<Longrightarrow> length res \<le> limit \<Longrightarrow>
   sample_loop v k limit buf st res =
     res @ rejection_sample (draw_bits v k) (draw_offset k) (draw_bound v k) (limit - length res) (subbuf_num buf st)"
proof (induction v k limit buf st res rule: sample_loop.induct)
  case (1 v k limit buf st res)
  show ?case
  proof (cases "length res < limit")
    case True
    let ?st = "refill buf st" and ?n = "draw_bits v k"
    let ?c = "draw_value v k ?st"
    let ?res = "if ?c < draw_bound v k then res @ [?c] else res"
    note r = refill_ok [OF 1(2)]
    have n: "?n \<le> 10" "?n \<noteq> 0" using draw_bits_bounds [of v k] by simp_all
    note c = consume_ok [OF r(1) r(3) n(1)]
    have val: "?c = subbuf_num buf st mod 2 ^ ?n + draw_offset k"
      unfolding draw_value_eq using c(3) r(2) by simp
    have IH: "sample_loop v k limit buf (consume ?n ?st) ?res = ?res @ rejection_sample ?n (draw_offset k)
        (draw_bound v k) (limit - length ?res) (subbuf_num buf st div 2 ^ ?n)"
      using 1(1) [OF True refl refl refl c(1)] True c(2) r(2) by simp
    show ?thesis
      using True IH n(2) draw_offset_lt [of k v] val
      by (subst sample_loop.simps, subst rejection_sample.simps) (simp add: Let_def)
  next
    case False
    then show ?thesis
      using 1(3) by (subst sample_loop.simps, subst rejection_sample.simps) simp
  qed
qed

subsection \<open>The vectors and matrices\<close>

definition buffer_ok :: "nat \<Rightarrow> bool" where
  \<comment> \<open>at least the eight bytes loaded first, and a length an \<open>unsigned int\<close> holds\<close>
  "buffer_ok n \<longleftrightarrow> 64 \<le> n \<and> n < 2 ^ 20"

lemma buffer_bits:
  "buffer_ok (BITS_N_FP_CT_RNG (tabs p))" "buffer_ok (BITS_CHALL_1_FPSTAR_CT_RNG (tabs p))"
  "buffer_ok (BITS_V_CT_RNG (tabs p))" "buffer_ok (BITS_CWSTR_RNG (tabs p))"
  "variant p = RSDP \<Longrightarrow> buffer_ok (BITS_N_FZ_CT_RNG (tabs p))"
  "variant p = RSDPG \<Longrightarrow> buffer_ok (BITS_W_CT_RNG (tabs p))"
  "variant p = RSDPG \<Longrightarrow> buffer_ok (BITS_M_FZ_CT_RNG (tabs p))"
  by (cases "variant p"; cases "cat p"; cases "corner p"; simp add: tabs_def tables_defs buffer_ok_def)+

lemma buffer_length:
  assumes "buffer_ok b"
  shows "8 \<le> length (fst (csprng_randombytes p (ROUND_UP b 8 div 8) st))"
proof -
  have "8 \<le> (b + 7) div 8" "(b + 7) div 8 < 2 ^ 32"
    using assms by (auto simp: buffer_ok_def less_eq_div_iff_mult_less_eq intro: order_le_less_trans [OF div_le_dividend])
  then show ?thesis by (simp add: ROUND_UP_def length_csprng_randombytes)
qed

definition draws :: "cross_params \<Rightarrow> draw \<Rightarrow> nat \<Rightarrow> bytes \<Rightarrow> nat list" where
  \<comment> \<open>the reference sampler on the bytes of a buffer\<close>
  "draws p k n buf = rejection_sample (draw_bits (variant p) k) (draw_offset k) (draw_bound (variant p) k) n (le_nat buf)"

lemma sample_loop_draws:
  "8 \<le> length buf \<Longrightarrow> sample_loop (variant p) k n buf (subbuf_init buf) [] = draws p k n buf"
  by (simp add: sample_loop_rejection subbuf_init_ok draws_def)

lemma length_draws: "8 \<le> length buf \<Longrightarrow> length (draws p k n buf) = n"
  using sample_loop_draws [of buf p k n, symmetric] by (simp add: length_sample_loop)

lemmas csprng_sampler_defs = csprng_fp_vec_def csprng_fp_vec_chall_1_def csprng_fp_mat_def csprng_fz_vec_def
  csprng_fz_inf_w_def csprng_fz_mat_def

lemma sample_range:
  "x \<in> set (sample_loop v k limit buf st []) \<Longrightarrow> draw_offset k \<le> x \<and> x < draw_bound v k"
  by (rule set_sample_loop) auto

lemma length_sample_loop_Nil [simp]: "length (sample_loop v k limit buf st []) = limit"
  by (simp add: length_sample_loop)

lemma length_samples [len_simps, simp]:
  "length (fst (csprng_fp_vec p st)) = par_N p" "length (fst (csprng_fp_vec_chall_1 p st)) = par_T p"
  "length (fst (csprng_fz_vec p st)) = par_N p" "length (fst (csprng_fz_inf_w p st)) = par_M p"
  "length (fst (csprng_fp_mat p st)) = par_K p" "length (fst (csprng_fz_mat p st)) = par_M p"
  by (simp_all add: csprng_sampler_defs Let_def split_beta)

lemma sample_chunks_ok:
  assumes "\<And>x. x \<in> set xs \<Longrightarrow> x < q" and "length xs = r * c"
  shows "length (chunks c r xs) = r" and "row \<in> set (chunks c r xs) \<Longrightarrow> length row = c \<and> (\<forall>x \<in> set row. x < q)"
  using assms set_chunks [of row c r xs] chunks_rows [of xs r c row] by auto

lemma sample_fp: "x \<in> set (sample_loop v DRAW_FP limit buf st []) \<Longrightarrow> x < par_P v"
  by (drule sample_range) simp

lemma sample_fpstar: "x \<in> set (sample_loop v DRAW_FPSTAR limit buf st []) \<Longrightarrow> 1 \<le> x \<and> x < par_P v"
  by (drule sample_range) simp

lemma sample_fz: "x \<in> set (sample_loop v DRAW_FZ limit buf st []) \<Longrightarrow> x < par_Z v"
  by (drule sample_range) simp

lemma samples_in_range:
  "x \<in> set (fst (csprng_fp_vec p st)) \<Longrightarrow> x < par_P (variant p)"
  "x \<in> set (fst (csprng_fp_vec_chall_1 p st)) \<Longrightarrow> 1 \<le> x \<and> x < par_P (variant p)"
  "x \<in> set (fst (csprng_fz_vec p st)) \<Longrightarrow> x < par_Z (variant p)"
  "x \<in> set (fst (csprng_fz_inf_w p st)) \<Longrightarrow> x < par_Z (variant p)"
  unfolding csprng_sampler_defs Let_def split_beta fst_conv
  by (rule sample_fp sample_fpstar sample_fz; assumption)+

lemma sample_fp_mat:
  assumes "row \<in> set (fst (csprng_fp_mat p st))"
  shows "length row = par_N p - par_K p \<and> (\<forall>x \<in> set row. x < par_P (variant p))"
  by (rule sample_chunks_ok(2) [OF sample_fp length_sample_loop_Nil])
    (use assms in \<open>simp_all add: csprng_fp_mat_def Let_def split_beta\<close>)

lemma sample_fz_mat:
  assumes "row \<in> set (fst (csprng_fz_mat p st))"
  shows "length row = par_N p - par_M p \<and> (\<forall>x \<in> set row. x < par_Z (variant p))"
  by (rule sample_chunks_ok(2) [OF sample_fz length_sample_loop_Nil])
    (use assms in \<open>simp_all add: csprng_fz_mat_def Let_def split_beta\<close>)

section \<open>The fixed-weight string\<close>

lemma length_swap [simp]: "length (swap i j xs) = length xs"
  by (simp add: swap_def Let_def)

lemma mset_swap_eq: "i < length xs \<Longrightarrow> j < length xs \<Longrightarrow> mset (swap i j xs) = mset xs"
  using mset_swap [of j xs i] by (simp add: swap_def Let_def)

lemma mset_shuffle_loop:
  "length xs = par_T p \<Longrightarrow> mset (shuffle_loop p buf st cur xs) = mset xs"
proof (induction p buf st cur xs rule: shuffle_loop.induct)
  case (1 p buf st cur xs)
  show ?case
  proof (cases "cur < par_T p")
    case True
    let ?c = "candidate_pos p cur (refill buf st)"
    show ?thesis
    proof (cases "?c < par_T p - cur")
      case c: True
      then have "mset (swap cur (cur + ?c) xs) = mset xs" using True 1(3) by (intro mset_swap_eq) auto
      then show ?thesis using 1(1) [OF True refl refl refl c] 1(3) True c
        by (subst shuffle_loop.simps) (simp add: Let_def)
    next
      case False
      then show ?thesis using 1(2) [OF True refl refl refl False] 1(3) True
        by (subst shuffle_loop.simps) (simp add: Let_def)
    qed
  qed (subst shuffle_loop.simps, simp)
qed

lemma mset_fixed_weight:
  "mset (expand_digest_to_fixed_weight p digest) =
     replicate_mset (par_W p) 1 + replicate_mset (par_T p - par_W p) 0"
  using par_W_lt_T [of p]
  by (simp add: expand_digest_to_fixed_weight_def Let_def split_beta mset_shuffle_loop)

lemma length_fixed_weight [len_simps, simp]: "length (expand_digest_to_fixed_weight p digest) = par_T p"
  using mset_fixed_weight [of p digest] par_W_lt_T [of p] by (metis diff_add_inverse le_add_diff_inverse
      less_imp_le size_mset size_replicate_mset size_union)

lemma set_fixed_weight: "x \<in> set (expand_digest_to_fixed_weight p digest) \<Longrightarrow> x = 0 \<or> x = 1"
  using mset_fixed_weight [of p digest]
  by (metis in_replicate_mset set_mset_mset union_iff)

lemma count_fixed_weight:
  "length (filter (\<lambda>x. x = 1) (expand_digest_to_fixed_weight p digest)) = par_W p"
proof -
  have "length (filter (\<lambda>x. x = 1) (expand_digest_to_fixed_weight p digest))
      = size (filter_mset (\<lambda>x. x = 1) (mset (expand_digest_to_fixed_weight p digest)))"
    by (metis mset_filter size_mset)
  also have "\<dots> = par_W p"
    unfolding mset_fixed_weight by (simp add: filter_eq_replicate_mset)
  finally show ?thesis .
qed

end
