(* ===== verification/Tree_Shape.thy ===== *)
theory Tree_Shape
  imports Parameters
begin

text \<open>
  The shape of the seed tree and of the Merkle tree: both are binary trees with
  \<open>T\<close> leaves, stored level by level in one array of \<open>2T - 1\<close> nodes, the leaves of a
  level being its last nodes. The tables of the parameter set give, per level,
  the number of nodes and of leaves and the correction \<open>off\<close> of the heap
  indices. This theory models the index arithmetic and the two iteration
  orders of the C loops, states the laws of the tables as a locale over
  positions (level, number in the level), and proves the laws for the tables of
  all parameter sets.
\<close>

section \<open>The code\<close>

definition LEFT_CHILD :: "nat \<Rightarrow> nat" where
  "LEFT_CHILD i = 2 * i + 1"

definition PARENT :: "nat \<Rightarrow> nat" where
  "PARENT i = (if odd i then (i - 1) div 2 else (i - 2) div 2)"

definition SIBLING :: "nat \<Rightarrow> nat" where
  "SIBLING i = (if odd i then i + 1 else i - 1)"

definition tree_off :: "cross_params \<Rightarrow> nat \<Rightarrow> nat" where
  "tree_off p level = TREE_OFFSETS (tabs p) ! level"

definition tree_npl :: "cross_params \<Rightarrow> nat \<Rightarrow> nat" where
  "tree_npl p level = TREE_NODES_PER_LEVEL (tabs p) ! level"

definition tree_lpl :: "cross_params \<Rightarrow> nat \<Rightarrow> nat" where
  "tree_lpl p level = TREE_LEAVES_PER_LEVEL (tabs p) ! level"

definition tree_height :: "cross_params \<Rightarrow> nat" where
  "tree_height p = LOG2 (par_T p)"

text \<open>
  The nodes the nested loops \<open>for level, for node_in_level < cnt[level]\<close> visit from
  the root down, as triples (level, node in level, current node): \<open>start_node\<close> is
  advanced by \<open>npl[level]\<close>.
\<close>

fun level_nodes :: "(nat \<Rightarrow> nat) \<Rightarrow> (nat \<Rightarrow> nat) \<Rightarrow> nat list \<Rightarrow> nat \<Rightarrow> (nat \<times> nat \<times> nat) list" where
  "level_nodes cnt npl [] start_node = []"
| "level_nodes cnt npl (level # levels) start_node =
     map (\<lambda>i. (level, i, start_node + i)) [0..<cnt level]
     @ level_nodes cnt npl levels (start_node + npl level)"

text \<open>
  The left nodes of the pairs the loops \<open>for level = LOG2(T) .. 1, for i = npl[level]-2 .. 0\<close> in steps of 2
  visit from the leaves up, with their level.
\<close>

fun level_pairs :: "(nat \<Rightarrow> nat) \<Rightarrow> nat list \<Rightarrow> nat \<Rightarrow> (nat \<times> nat) list" where
  "level_pairs npl [] start_node = []"
| "level_pairs npl (level # levels) start_node =
     map (\<lambda>k. (level, start_node + (npl level - 2 - 2 * k))) [0..<npl level div 2]
     @ level_pairs npl levels (start_node - npl (level - 1))"

text \<open>The leaves in the order of the two loops over the subroots.\<close>

definition leaf_indices :: "cross_params \<Rightarrow> nat list" where
  "leaf_indices p =
     concat (map (\<lambda>i. map (\<lambda>j. TREE_LEAVES_START_INDICES (tabs p) ! i + j)
                        [0..<TREE_CONSECUTIVE_LEAVES (tabs p) ! i])
               [0..<TREE_SUBROOTS (tabs p)])"

section \<open>The laws of the tables\<close>

type_synonym tpos = "nat \<times> nat"   \<comment> \<open>level and number in the level\<close>

lemma sorted_wrt_split:
  assumes "sorted_wrt R xs" and "xs = as @ y # bs"
  shows "\<And>x. x \<in> set as \<Longrightarrow> R x y" and "\<And>x. x \<in> set bs \<Longrightarrow> R y x"
  using assms by (auto simp: sorted_wrt_append)

locale tree_shape =
  fixes npl lpl off :: "nat \<Rightarrow> nat" and H :: nat and leaves :: "nat list"
  assumes npl_0: "npl 0 = 1"
    and npl_Suc: "l < H \<Longrightarrow> npl (Suc l) = 2 * (npl l - lpl l)"
    and lpl_le: "l \<le> H \<Longrightarrow> lpl l \<le> npl l"
    and lpl_H: "lpl H = npl H"
    and off_base: "l < H \<Longrightarrow> 2 * (\<Sum>k<l. npl k) + 1 = (\<Sum>k<Suc l. npl k) + off l"
    and off_even: "l < H \<Longrightarrow> even (off l)"
    and leaves_eq: "leaves = concat (map (\<lambda>l. [(\<Sum>k<Suc l. npl k) - lpl l..<(\<Sum>k<Suc l. npl k)]) (rev [0..<Suc H]))"
begin

definition base :: "nat \<Rightarrow> nat" where
  "base l = (\<Sum>k<l. npl k)"

definition inner :: "nat \<Rightarrow> nat" where
  \<comment> \<open>nodes of a level that have children\<close>
  "inner l = (if l < H then npl l - lpl l else 0)"

definition idx :: "tpos \<Rightarrow> nat" where
  "idx q = base (fst q) + snd q"

definition nodes :: "tpos list" where
  "nodes = concat (map (\<lambda>l. map (Pair l) [0..<npl l]) [0..<Suc H])"

definition inners :: "tpos list" where
  "inners = filter (\<lambda>q. snd q < inner (fst q)) nodes"

lemma base_0 [simp]: "base 0 = 0" and base_Suc: "base (Suc l) = base l + npl l"
  by (simp_all add: base_def)

lemma inner_H [simp]: "H \<le> l \<Longrightarrow> inner l = 0"
  by (simp add: inner_def)

lemma inner_le: "inner l \<le> npl l"
  by (simp add: inner_def)

lemma npl_split: "l \<le> H \<Longrightarrow> npl l = inner l + lpl l"
  using lpl_le [of l] lpl_H by (cases "l = H") (simp_all add: inner_def)

lemma npl_inner: "l < H \<Longrightarrow> npl (Suc l) = 2 * inner l"
  by (simp add: npl_Suc inner_def)

lemma base_children: "l < H \<Longrightarrow> base (Suc l) = 2 * base l + 1 - off l"
  and off_le: "l < H \<Longrightarrow> off l \<le> 2 * base l + 1"
  using off_base [of l] by (simp_all add: base_def)

lemma base_odd: "0 < l \<Longrightarrow> l \<le> H \<Longrightarrow> odd (base l)"
proof (cases l)
  case (Suc k)
  moreover assume "l \<le> H"
  ultimately have "even (off k)" "2 * (\<Sum>i<k. npl i) + 1 = base l + off k"
    using off_base [of k] off_even [of k] by (simp_all add: base_def)
  then show ?thesis by (metis even_add even_mult_iff even_numeral odd_one)
qed simp

lemma base_mono: "l \<le> k \<Longrightarrow> base l \<le> base k"
  by (induction k) (auto simp: base_Suc le_Suc_eq)

lemma in_nodes: "q \<in> set nodes \<longleftrightarrow> fst q \<le> H \<and> snd q < npl (fst q)"
  by (cases q) (auto simp: nodes_def image_iff less_Suc_eq_le simp del: upt_Suc)

lemma in_inners: "q \<in> set inners \<longleftrightarrow> fst q < H \<and> snd q < inner (fst q)"
  using inner_le [of "fst q"] inner_H [of "fst q"] by (cases "fst q < H") (auto simp: inners_def in_nodes)

lemma idx_nodes: "map idx nodes = [0..<base (Suc H)]"
proof -
  have "map idx (concat (map (\<lambda>l. map (Pair l) [0..<npl l]) [0..<n])) = [0..<base n]" for n
  proof (induction n)
    case (Suc n)
    have "map (idx \<circ> Pair n) [0..<npl n] = [base n..<base n + npl n]"
      by (rule nth_equalityI) (simp_all add: idx_def)
    with Suc show ?case by (simp add: base_Suc upt_add_eq_append [of 0, symmetric])
  qed simp
  from this [of "Suc H"] show ?thesis by (simp only: nodes_def)
qed

lemma idx_lt: "q \<in> set nodes \<Longrightarrow> idx q < base (Suc H)"
  using idx_nodes by (metis atLeastLessThan_iff imageI list.set_map set_upt)

lemma nodes_sorted: "sorted_wrt (\<lambda>a b. idx a < idx b) nodes"
  using idx_nodes sorted_wrt_map [of "(<)" idx nodes] by (metis strict_sorted_iff sorted_wrt_upt)

lemma inners_sorted: "sorted_wrt (\<lambda>a b. idx a < idx b) inners"
  unfolding inners_def by (rule sorted_wrt_filter [OF nodes_sorted])

lemma idx_inj: "q \<in> set nodes \<Longrightarrow> r \<in> set nodes \<Longrightarrow> idx q = idx r \<Longrightarrow> q = r"
  using idx_nodes distinct_map [of idx nodes] by (metis distinct_upt inj_onD)

lemma distinct_nodes: "distinct nodes"
  using idx_nodes distinct_map [of idx nodes] by (metis distinct_upt)

lemma inners_nodes: "q \<in> set inners \<Longrightarrow> q \<in> set nodes"
  by (simp add: inners_def)

lemma child_node: "(l, j) \<in> set inners \<Longrightarrow> b < 2 \<Longrightarrow> (Suc l, 2 * j + b) \<in> set nodes"
  by (auto simp: in_inners in_nodes npl_inner)

lemma parent_inner: "(Suc l, j) \<in> set nodes \<Longrightarrow> (l, j div 2) \<in> set inners"
  by (auto simp: in_inners in_nodes npl_inner less_mult_imp_div_less)

lemma idx_child_gt: "(l, j) \<in> set inners \<Longrightarrow> idx (l, j) < idx (Suc l, k)"
  using inner_le [of l] by (simp add: in_inners idx_def base_Suc)

subsection \<open>The index arithmetic\<close>

lemma left_child_idx:
  "(l, j) \<in> set inners \<Longrightarrow> LEFT_CHILD (idx (l, j)) - off l = idx (Suc l, 2 * j)"
  using base_children [of l] off_le [of l] by (simp add: in_inners LEFT_CHILD_def idx_def)

lemma idx_succ: "idx (l, Suc j) = Suc (idx (l, j))"
  by (simp add: idx_def)

lemma parent_idx:
  assumes "(Suc l, j) \<in> set nodes"
  shows "PARENT (idx (Suc l, j)) + off l div 2 = idx (l, j div 2)"
proof -
  have l: "l < H" using assms by (simp add: in_nodes)
  obtain k where k: "off l = 2 * k" using off_even [OF l] by blast
  have b: "base (Suc l) + 2 * k = 2 * base l + 1" using off_base [OF l] by (simp add: base_def k)
  have odd: "odd (base (Suc l))" using base_odd [of "Suc l"] l by simp
  show ?thesis
  proof (cases "even j")
    case True
    then obtain i where "j = 2 * i" by blast
    then show ?thesis using odd b by (auto simp: PARENT_def idx_def k)
  next
    case False
    then obtain i where "j = 2 * i + 1" by (auto elim: oddE)
    then show ?thesis using odd b by (auto simp: PARENT_def idx_def k)
  qed
qed

lemma sibling_left: "(l, j) \<in> set inners \<Longrightarrow> SIBLING (idx (Suc l, 2 * j)) = idx (Suc l, 2 * j + 1)"
  using base_odd [of "Suc l"] by (simp add: in_inners SIBLING_def idx_def)

subsection \<open>The iteration orders\<close>

lemma level_nodes_eq:
  "level_nodes cnt npl [a..<b] (base a) =
     concat (map (\<lambda>l. map (\<lambda>j. (l, j, idx (l, j))) [0..<cnt l]) [a..<b])"
proof (induction "b - a" arbitrary: a)
  case (Suc n)
  then have "[a..<b] = a # [Suc a..<b]" "b - Suc a = n" by (auto simp: upt_conv_Cons)
  with Suc(1) [of "Suc a"] show ?case by (simp add: base_Suc idx_def)
qed simp

lemma level_nodes_all:
  "level_nodes npl npl [1..<Suc H] 1 = map (\<lambda>q. (fst q, snd q, idx q)) (tl nodes)"
proof -
  have "base 1 = 1" using npl_0 by (simp add: base_def)
  moreover have "[0..<Suc H] = 0 # [1..<Suc H]" by (simp add: upt_conv_Cons)
  then have "tl nodes = concat (map (\<lambda>l. map (Pair l) [0..<npl l]) [1..<Suc H])"
    using npl_0 unfolding nodes_def by simp
  ultimately show ?thesis
    using level_nodes_eq [of npl 1 "Suc H"] by (simp add: map_concat comp_def del: upt_Suc)
qed

lemma inners_levels: "inners = concat (map (\<lambda>l. map (Pair l) [0..<inner l]) [0..<H])"
proof -
  have "filter (\<lambda>q. snd q < inner (fst q)) (map (Pair l) [0..<npl l]) = map (Pair l) [0..<inner l]" for l
  proof -
    have "[0..<npl l] = [0..<inner l] @ [inner l..<npl l]"
      using inner_le [of l] upt_add_eq_append [of 0 "inner l" "npl l - inner l"] by simp
    then show ?thesis by (simp add: filter_map comp_def) 
  qed
  then have "inners = concat (map (\<lambda>l. map (Pair l) [0..<inner l]) [0..<Suc H])"
    unfolding inners_def nodes_def filter_concat map_map comp_def
    by (intro arg_cong [where f = concat] map_cong) auto
  then show ?thesis by simp
qed

lemma level_nodes_inner:
  "level_nodes (\<lambda>l. npl l - lpl l) npl [0..<H] 0 = map (\<lambda>q. (fst q, snd q, idx q)) inners"
proof -
  have "map (\<lambda>l. map (\<lambda>j. (l, j, idx (l, j))) [0..<npl l - lpl l]) [0..<H]
      = map (\<lambda>l. map (\<lambda>j. (l, j, idx (l, j))) [0..<inner l]) [0..<H]"
    by (rule map_cong) (simp_all add: inner_def)
  with level_nodes_eq [of "\<lambda>l. npl l - lpl l" 0 H] show ?thesis
    by (simp only: base_0) (simp add: inners_levels map_concat comp_def)
qed

lemma level_pairs_eq:
  "n \<le> H \<Longrightarrow> level_pairs npl (rev [1..<Suc n]) (base n) =
     map (\<lambda>q. (Suc (fst q), idx (Suc (fst q), 2 * snd q))) (rev (concat (map (\<lambda>l. map (Pair l) [0..<inner l]) [0..<n])))"
proof (induction n)
  case (Suc n)
  then have n: "n < H" by simp
  have npl: "npl (Suc n) = 2 * inner n" by (rule npl_inner [OF n])
  have "map (\<lambda>k. (Suc n, base (Suc n) + (npl (Suc n) - 2 - 2 * k))) [0..<npl (Suc n) div 2]
      = map (\<lambda>q. (Suc (fst q), idx (Suc (fst q), 2 * snd q))) (rev (map (Pair n) [0..<inner n]))"
    by (rule nth_equalityI) (auto simp: npl rev_nth idx_def)
  with Suc show ?case by (simp add: base_Suc)
qed simp

lemma level_pairs_all:
  "level_pairs npl (rev [1..<Suc H]) (base H) =
     map (\<lambda>q. (Suc (fst q), idx (Suc (fst q), 2 * snd q))) (rev inners)"
  using level_pairs_eq [of H] by (simp add: inners_levels)

text \<open>Induction over the orders: a visited node comes after what it depends on.\<close>

lemma up_induct:
  assumes init: "P []"
    and step: "\<And>as l j bs. rev inners = as @ (l, j) # bs \<Longrightarrow> (l, j) \<in> set inners \<Longrightarrow> (l, j) \<notin> set as \<Longrightarrow> set as \<subseteq> set inners \<Longrightarrow>
        (\<And>k. (Suc l, k) \<in> set inners \<Longrightarrow> (Suc l, k) \<in> set as) \<Longrightarrow> P as \<Longrightarrow> P (as @ [(l, j)])"
  shows "P (rev inners)"
proof (rule prefix_induct)
  fix as q bs
  assume split: "rev inners = as @ q # bs" and P: "P as"
  obtain l j where q: "q = (l, j)" by (cases q)
  have bs: "inners = rev bs @ q # rev as" using split by (simp add: rev_swap)
  note sorted = sorted_wrt_split [OF inners_sorted bs]
  have mem: "(l, j) \<in> set inners" "set as \<subseteq> set inners" using bs q by auto
  have later: "(Suc l, k) \<in> set as" if "(Suc l, k) \<in> set inners" for k
  proof -
    have gt: "idx (l, j) < idx (Suc l, k)" by (rule idx_child_gt [OF mem(1)])
    have "(Suc l, k) \<notin> set bs" using sorted(1) [of "(Suc l, k)"] gt q by auto
    with that bs q show ?thesis by auto
  qed
  have "idx (l, j) < idx r" if "r \<in> set as" for r using sorted(2) [of r] that q by simp
  then have "(l, j) \<notin> set as" by blast
  then show "P (as @ [q])" using step [OF _ mem(1) _ mem(2) later P] split q by simp
qed (rule init)

lemma nodes_root: "nodes = (0, 0) # tl nodes"
proof -
  have "[0..<Suc H] = 0 # [1..<Suc H]" by (simp add: upt_conv_Cons)
  then show ?thesis using npl_0 unfolding nodes_def by simp
qed

lemma root_node: "(0, 0) \<in> set nodes" and idx_root [simp]: "idx (0, 0) = 0"
  using npl_0 by (auto simp: in_nodes idx_def)

lemma in_tl_nodes: "q \<in> set (tl nodes) \<longleftrightarrow> q \<in> set nodes \<and> fst q \<noteq> 0"
proof -
  have "(0, 0) \<notin> set (tl nodes)"
    using distinct_nodes nodes_root by (metis distinct.simps(2))
  moreover have "q \<in> set nodes \<longleftrightarrow> q = (0, 0) \<or> q \<in> set (tl nodes)"
    using nodes_root by (metis set_ConsD list.set_intros)
  moreover have "q = (0, 0)" if "q \<in> set nodes" "fst q = 0"
    using that npl_0 by (simp add: in_nodes prod_eq_iff)
  ultimately show ?thesis by fastforce
qed

lemma down_induct:
  assumes init: "P []"
    and step: "\<And>as l j bs. tl nodes = as @ (Suc l, j) # bs \<Longrightarrow> (Suc l, j) \<in> set nodes \<Longrightarrow> (Suc l, j) \<notin> set as \<Longrightarrow> set as \<subseteq> set (tl nodes) \<Longrightarrow>
        (l = 0 \<or> (l, j div 2) \<in> set as) \<Longrightarrow> P as \<Longrightarrow> P (as @ [(Suc l, j)])"
  shows "P (tl nodes)"
proof (rule prefix_induct)
  fix as q bs
  assume split: "tl nodes = as @ q # bs" and P: "P as"
  have bs: "nodes = ((0, 0) # as) @ q # bs" using split nodes_root by simp
  note sorted = sorted_wrt_split [OF nodes_sorted bs]
  have sub: "set as \<subseteq> set (tl nodes)" using split by auto
  have mem: "q \<in> set (tl nodes)" using split by simp
  then have "fst q \<noteq> 0" by (simp add: in_tl_nodes)
  then obtain l j where q: "q = (Suc l, j)" by (metis not0_implies_Suc prod.collapse)
  have node: "(Suc l, j) \<in> set nodes" using mem q by (simp add: in_tl_nodes)
  note par = parent_inner [OF node]
  have "(l, j div 2) \<in> set ((0, 0) # as)"
  proof (rule ccontr)
    assume "\<not> ?thesis"
    then have "(l, j div 2) = q \<or> (l, j div 2) \<in> set bs" using inners_nodes [OF par] bs by auto
    then have "idx q \<le> idx (l, j div 2)" using sorted(2) [of "(l, j div 2)"] by auto
    then show False using idx_child_gt [OF par, of j] q by simp
  qed
  then have "l = 0 \<or> (l, j div 2) \<in> set as" by auto
  moreover have "(Suc l, j) \<notin> set as" using sorted(1) [of q] q by fastforce
  ultimately show "P (as @ [q])" using step [OF _ node _ sub _ P] split q by simp
qed (rule init)

lemma inner_induct:
  assumes init: "P []"
    and step: "\<And>as l j. (l, j) \<in> set inners \<Longrightarrow> (l, j) \<notin> set as \<Longrightarrow> set as \<subseteq> set inners \<Longrightarrow>
        (l = 0 \<and> j = 0 \<or> 0 < l \<and> (l - 1, j div 2) \<in> set as) \<Longrightarrow> P as \<Longrightarrow> P (as @ [(l, j)])"
  shows "P inners"
proof (rule prefix_induct)
  fix as q bs
  assume bs: "inners = as @ q # bs" and P: "P as"
  note sorted = sorted_wrt_split [OF inners_sorted bs]
  obtain l j where q: "q = (l, j)" by (cases q)
  have mem: "(l, j) \<in> set inners" "set as \<subseteq> set inners" using bs q by auto
  have par: "(l - 1, j div 2) \<in> set as" if "0 < l"
  proof -
    from that obtain k where l: "l = Suc k" by (cases l) auto
    have par: "(k, j div 2) \<in> set inners" using parent_inner inners_nodes mem(1) l by blast
    then have "(k, j div 2) \<in> set as \<or> idx q \<le> idx (k, j div 2)"
      using bs sorted(2) [of "(k, j div 2)"] by auto
    then show ?thesis using idx_child_gt [OF par, of j] q l by auto
  qed
  have "j = 0" if "l = 0" using mem(1) that npl_0 inner_le [of 0] by (simp add: in_inners)
  then have "l = 0 \<and> j = 0 \<or> 0 < l \<and> (l - 1, j div 2) \<in> set as" using par by (cases l) auto
  moreover have "(l, j) \<notin> set as" using sorted(1) [of q] q by fastforce
  ultimately show "P (as @ [q])" using step [OF mem(1) _ mem(2) _ P] q by simp
qed (rule init)

subsection \<open>The leaves\<close>

definition leafpos :: "tpos list" where
  "leafpos = concat (map (\<lambda>l. map (Pair l) [inner l..<npl l]) (rev [0..<Suc H]))"

lemma leaves_idx: "leaves = map idx leafpos"
proof -
  have "map (idx \<circ> Pair l) [inner l..<npl l] = [base (Suc l) - lpl l..<base (Suc l)]" if "l \<le> H" for l
    using npl_split [OF that] by (intro nth_equalityI) (simp_all add: idx_def base_Suc)
  then have "map (\<lambda>l. map idx (map (Pair l) [inner l..<npl l])) (rev [0..<Suc H])
      = map (\<lambda>l. [base (Suc l) - lpl l..<base (Suc l)]) (rev [0..<Suc H])"
    by (intro map_cong) auto
  then have "leaves = concat (map (\<lambda>l. map idx (map (Pair l) [inner l..<npl l])) (rev [0..<Suc H]))"
    by (simp only: leaves_eq base_def [symmetric])
  then show ?thesis by (simp only: leafpos_def map_concat) (simp only: map_map comp_def)
qed

lemma in_leafpos: "q \<in> set leafpos \<longleftrightarrow> q \<in> set nodes \<and> q \<notin> set inners"
  by (cases q) (auto simp: leafpos_def in_nodes in_inners image_iff less_Suc_eq_le simp del: upt_Suc)

lemma leafpos_nodes: "q \<in> set leafpos \<Longrightarrow> q \<in> set nodes"
  by (simp add: in_leafpos)

lemma distinct_leafpos: "distinct leafpos"
proof -
  have "distinct (concat (map (\<lambda>l. map (Pair l) [f l..<g l]) ls))" if "distinct ls" for f g :: "nat \<Rightarrow> nat" and ls
    using that by (induction ls) (auto simp: distinct_map inj_on_def)
  then show ?thesis unfolding leafpos_def by (simp del: upt_Suc)
qed

lemma distinct_leaves: "distinct leaves"
  unfolding leaves_idx distinct_map
  using distinct_leafpos leafpos_nodes by (metis idx_inj inj_onI)

lemma nodes_cases:
  assumes "q \<in> set nodes"
  obtains "q \<in> set inners" | "q \<in> set leafpos"
  using assms in_leafpos by blast

subsection \<open>Values computed from the leaves up\<close>

function up :: "('a \<Rightarrow> 'a \<Rightarrow> 'a) \<Rightarrow> (tpos \<Rightarrow> 'a) \<Rightarrow> nat \<Rightarrow> nat \<Rightarrow> 'a" where
  "up c leaf l j =
     (if j < inner l then c (up c leaf (Suc l) (2 * j)) (up c leaf (Suc l) (2 * j + 1)) else leaf (l, j))"
  by pat_completeness auto
termination
  by (relation "measure (\<lambda>(c, leaf, l, j). H - l)") (auto simp: inner_def split: if_splits)

declare up.simps [simp del]

lemma up_inner:
  "(l, j) \<in> set inners \<Longrightarrow> up c leaf l j = c (up c leaf (Suc l) (2 * j)) (up c leaf (Suc l) (2 * j + 1))"
  by (subst up.simps) (simp add: in_inners)

lemma up_leaf: "(l, j) \<in> set leafpos \<Longrightarrow> up c leaf l j = leaf (l, j)"
  by (subst up.simps) (auto simp: in_leafpos in_inners in_nodes inner_def)

lemma nodes_level_induct [consumes 1, case_names root child]:
  assumes "(l, j) \<in> set nodes" and "P 0 0"
    and "\<And>l j. (Suc l, j) \<in> set nodes \<Longrightarrow> (l, j div 2) \<in> set inners \<Longrightarrow> P l (j div 2) \<Longrightarrow> P (Suc l) j"
  shows "P l j"
  using assms(1)
proof (induction l arbitrary: j)
  case 0
  then show ?case using npl_0 assms(2) by (simp add: in_nodes)
next
  case (Suc l)
  note par = parent_inner [OF Suc.prems]
  show ?case by (rule assms(3) [OF Suc.prems par Suc.IH [OF inners_nodes [OF par]]])
qed

lemma pair_step:
  assumes "(l, j) \<in> set inners"
  shows "PARENT (idx (Suc l, 2 * j)) + off l div 2 = idx (l, j)"
    and "SIBLING (idx (Suc l, 2 * j)) = idx (Suc l, 2 * j + 1)"
  using parent_idx [of l "2 * j"] child_node [OF assms, of 0] sibling_left [OF assms] by simp_all

lemma child_idx:
  assumes "(l, j) \<in> set inners"
  shows "idx (Suc l, 2 * j) < base (Suc H)" "idx (Suc l, 2 * j + 1) < base (Suc H)"
  using idx_lt child_node [OF assms, of 0] child_node [OF assms, of 1] by auto

lemma pairs_fold:
  "foldl f s (level_pairs npl (rev [1..<Suc H]) (base H)) =
     foldl (\<lambda>s q. f s (Suc (fst q), idx (Suc (fst q), 2 * snd q))) s (rev inners)"
  unfolding level_pairs_all foldl_map ..

lemma up_fold:
  fixes c :: "'a \<Rightarrow> 'a \<Rightarrow> 'a" and s :: "'a list"
  assumes len: "length s = base (Suc H)" and leaf: "\<And>q. q \<in> set leafpos \<Longrightarrow> s ! idx q = leaf q"
  defines "s' \<equiv> foldl (\<lambda>s (level, cur). s[PARENT cur + off (level - 1) div 2 := c (s ! cur) (s ! SIBLING cur)]) s
                  (level_pairs npl (rev [1..<Suc H]) (base H))"
  shows "length s' = base (Suc H)" and "(l, j) \<in> set nodes \<Longrightarrow> s' ! idx (l, j) = up c leaf l j"
proof -
  let ?f = "\<lambda>s q. (\<lambda>s (level, cur). s[PARENT cur + off (level - 1) div 2 := c (s ! cur) (s ! SIBLING cur)]) s
                (Suc (fst q), idx (Suc (fst q), 2 * snd q))"
  let ?P = "\<lambda>as. length (foldl ?f s as) = base (Suc H) \<and>
      (\<forall>l j. (l, j) \<in> set as \<or> (l, j) \<in> set leafpos \<longrightarrow> foldl ?f s as ! idx (l, j) = up c leaf l j)"
  have "?P (rev inners)"
  proof (induction rule: up_induct)
    case 1
    then show ?case by (simp add: len leaf up_leaf)
  next
    case (2 as l j bs)
    let ?s = "foldl ?f s as"
    note IH = 2(6)
    have child: "?s ! idx (Suc l, k) = up c leaf (Suc l) k" if "(Suc l, k) \<in> set nodes" for k
      using that 2(5) 2(6) by (cases rule: nodes_cases) auto
    have new: "foldl ?f s (as @ [(l, j)]) = ?s[idx (l, j) := up c leaf l j]"
      using child child_node [OF 2(2), of 0] child_node [OF 2(2), of 1] pair_step [OF 2(2)] up_inner [OF 2(2), of c leaf]
      by simp
    have other: "idx (l', j') \<noteq> idx (l, j)" if "(l', j') \<in> set as \<or> (l', j') \<in> set leafpos" for l' j'
      using that idx_inj [of "(l', j')" "(l, j)"] 2(2-4) inners_nodes in_leafpos by blast
    show ?case unfolding new
    proof (intro conjI allI impI)
      show "length (?s[idx (l, j) := up c leaf l j]) = base (Suc H)" using 2(6) by simp
      fix l' j'
      assume "(l', j') \<in> set (as @ [(l, j)]) \<or> (l', j') \<in> set leafpos"
      then consider "l' = l" "j' = j" | "(l', j') \<in> set as \<or> (l', j') \<in> set leafpos" by auto
      then show "?s[idx (l, j) := up c leaf l j] ! idx (l', j') = up c leaf l' j'"
      proof cases
        case 1
        then show ?thesis using 2(6) idx_lt [OF inners_nodes [OF 2(2)]] by (simp add: nth_list_update_eq)
      next
        case 2
        from 2 have "?s ! idx (l', j') = up c leaf l' j'" using IH by blast
        with other [OF 2] show ?thesis by (simp add: nth_list_update_neq)
      qed
    qed
  qed
  then have P: "length s' = base (Suc H) \<and>
      (\<forall>l j. (l, j) \<in> set inners \<or> (l, j) \<in> set leafpos \<longrightarrow> s' ! idx (l, j) = up c leaf l j)"
    unfolding s'_def pairs_fold set_rev .
  show "length s' = base (Suc H)" using P by blast
  show "s' ! idx (l, j) = up c leaf l j" if "(l, j) \<in> set nodes"
    using that P by (cases rule: nodes_cases) blast+
qed

subsection \<open>How many nodes cover the marked leaves\<close>

lemma tl_nodes_levels: "tl nodes = concat (map (\<lambda>l. map (Pair (Suc l)) [0..<npl (Suc l)]) [0..<H])"
proof -
  have "[0..<Suc H] = 0 # map Suc [0..<H]" by (simp only: map_Suc_upt upt_conv_Cons zero_less_Suc One_nat_def)
  then show ?thesis using npl_0 unfolding nodes_def by (simp del: upt_Suc add: comp_def) simp
qed

lemma sum_list_pairs: "(\<Sum>i\<leftarrow>[0..<2 * n]. F i) = (\<Sum>i\<leftarrow>[0..<n]. F (2 * i) + F (2 * i + 1) :: nat)"
  by (induction n) simp_all

lemma sum_children:
  "(\<Sum>q\<in>set (tl nodes). F q) = (\<Sum>q\<in>set inners. F (Suc (fst q), 2 * snd q) + F (Suc (fst q), 2 * snd q + 1) :: nat)"
proof -
  have "(\<Sum>j\<leftarrow>[0..<npl (Suc l)]. F (Suc l, j)) = (\<Sum>j\<leftarrow>[0..<inner l]. F (Suc l, 2 * j) + F (Suc l, 2 * j + 1))"
    if "l < H" for l
    using sum_list_pairs [of "\<lambda>j. F (Suc l, j)" "inner l"] by (simp add: npl_inner [OF that])
  then have "sum_list (map F (concat (map (\<lambda>l. map (Pair (Suc l)) [0..<npl (Suc l)]) ls)))
      = sum_list (map (\<lambda>q. F (Suc (fst q), 2 * snd q) + F (Suc (fst q), 2 * snd q + 1))
          (concat (map (\<lambda>l. map (Pair l) [0..<inner l]) ls)))" if "set ls \<subseteq> {..<H}" for ls
    using that by (induction ls) (simp_all add: comp_def)
  from this [of "[0..<H]"] have "sum_list (map F (tl nodes))
      = sum_list (map (\<lambda>q. F (Suc (fst q), 2 * snd q) + F (Suc (fst q), 2 * snd q + 1)) inners)"
    by (simp add: tl_nodes_levels inners_levels atLeast0LessThan)
  moreover have "distinct inners" "distinct (tl nodes)"
    using distinct_nodes by (simp_all add: inners_def distinct_tl)
  ultimately show ?thesis by (simp add: sum_list_distinct_conv_sum_set)
qed

lemma sum_nodes:
  "(\<Sum>q\<in>set inners. F q) + (\<Sum>q\<in>set leafpos. F q) = F (0, 0) + (\<Sum>q\<in>set (tl nodes). F q :: nat)"
proof -
  have "set nodes = set inners \<union> set leafpos" "set inners \<inter> set leafpos = {}"
    using in_leafpos inners_nodes by blast+
  moreover have "set nodes = insert (0, 0) (set (tl nodes))" "(0, 0) \<notin> set (tl nodes)"
    using nodes_root by (metis list.set(2)) (simp add: in_tl_nodes)
  ultimately show ?thesis by (metis List.finite_set sum.insert sum.union_disjoint)
qed

fun lheight :: "nat \<Rightarrow> nat \<Rightarrow> nat \<Rightarrow> nat" where
  \<comment> \<open>the length of the leftmost path down from a node, at most the first argument\<close>
  "lheight 0 l j = 0"
| "lheight (Suc c) l j = (if j < inner l then Suc (lheight c (Suc l) (2 * j)) else 0)"

lemma lheight_le: "lheight c l j \<le> c"
  by (induction c l j rule: lheight.induct) auto

lemma lheight_mono: "j \<le> k \<Longrightarrow> lheight c l k \<le> lheight c l j"
  by (induction c arbitrary: l j k) auto

lemma lheight_min: "lheight c l j = min c (lheight (Suc c) l j)"
  by (induction c arbitrary: l j) (auto simp: min_def split: if_splits)

lemma lheight_leaf: "(l, j) \<in> set leafpos \<Longrightarrow> lheight c l j = 0"
  by (cases c) (auto simp: in_leafpos in_inners in_nodes inner_def split: if_splits)

fun tall :: "nat \<Rightarrow> nat \<Rightarrow> nat" where
  \<comment> \<open>how many nodes of a level have a leftmost path longer than the first argument\<close>
  "tall 0 l = inner l"
| "tall (Suc c) l = min (inner l) ((tall c (Suc l) + 1) div 2)"

lemma lheight_tall: "lheight (Suc c) l j = Suc c \<longleftrightarrow> j < tall c l"
proof (induction c arbitrary: l j)
  case (Suc c)
  show ?case using Suc.IH [of "Suc l" "2 * j"] by auto
qed simp

lemma sum_inners_le: "(\<Sum>q\<in>set inners. of_bool (snd q < f (fst q))) \<le> (\<Sum>l<H. f l :: nat)"
proof -
  have "distinct inners" using distinct_nodes by (simp add: inners_def)
  then have "(\<Sum>q\<in>set inners. of_bool (snd q < f (fst q))) = (\<Sum>q\<leftarrow>inners. of_bool (snd q < f (fst q)) :: nat)"
    by (simp add: sum_list_distinct_conv_sum_set)
  also have "\<dots> \<le> (\<Sum>l\<leftarrow>[0..<H]. f l)"
  proof -
    have "(\<Sum>j\<leftarrow>[0..<n]. of_bool (j < k) :: nat) = min n k" for n k
      by (induction n) auto
    then have row: "(\<Sum>j\<leftarrow>[0..<n]. of_bool (j < k) :: nat) \<le> k" for n k by simp
    have "sum_list (map (\<lambda>q. of_bool (snd q < f (fst q)) :: nat) (concat (map (\<lambda>l. map (Pair l) [0..<inner l]) ls)))
        \<le> (\<Sum>l\<leftarrow>ls. f l)" for ls
      by (induction ls) (simp_all add: comp_def add_mono row)
    then show ?thesis by (simp add: inners_levels)
  qed
  finally show ?thesis by (simp add: sum_list_sum_nth atLeast0LessThan)
qed

lemma uncovered_bound:
  fixes z :: "tpos \<Rightarrow> bool"
  assumes inner: "\<And>l j. (l, j) \<in> set inners \<Longrightarrow> z (l, j) \<longleftrightarrow> z (Suc l, 2 * j) \<or> z (Suc l, 2 * j + 1)"
  shows "(\<Sum>q\<in>set inners. of_bool (z q)) \<le> (\<Sum>l<H. tall c l) + c * (\<Sum>q\<in>set leafpos. of_bool (z q))"
proof -
  define g where "g q = (if z q then c - lheight c (fst q) (snd q) else 0)" for q
  let ?A = "\<lambda>q. of_bool (z q \<and> lheight (Suc c) (fst q) (snd q) \<le> c) :: nat"
  let ?L = "\<lambda>q. (Suc (fst q), 2 * snd q)" and ?R = "\<lambda>q. (Suc (fst q), 2 * snd q + 1)"
  have charge: "?A q + g q \<le> g (?L q) + g (?R q)" if q: "q \<in> set inners" for q
  proof (cases "z q")
    case True
    obtain l j where [simp]: "q = (l, j)" by (cases q)
    have j: "j < inner l" using q by (simp add: in_inners)
    have "lheight c (Suc l) (2 * j + 1) \<le> lheight c (Suc l) (2 * j)" by (rule lheight_mono) simp
    moreover have "z (?L q) \<or> z (?R q)" using True inner [of l j] q by simp
    ultimately show ?thesis
      using True j lheight_min [of c l j] lheight_le [of c "Suc l" "2 * j"] by (auto simp: g_def)
  qed (simp add: g_def)
  have "(\<Sum>q\<in>set inners. ?A q) + (\<Sum>q\<in>set inners. g q) \<le> (\<Sum>q\<in>set (tl nodes). g q)"
    unfolding sum_children sum.distrib [symmetric] by (rule sum_mono [OF charge])
  moreover have "(\<Sum>q\<in>set leafpos. g q) = c * (\<Sum>q\<in>set leafpos. of_bool (z q))"
    unfolding sum_distrib_left by (rule sum.cong) (auto simp: g_def lheight_leaf)
  ultimately have A: "(\<Sum>q\<in>set inners. ?A q) \<le> c * (\<Sum>q\<in>set leafpos. of_bool (z q))"
    using sum_nodes [of g] by linarith
  have "of_bool (z q) \<le> of_bool (snd q < tall c (fst q)) + ?A q" for q
    using lheight_tall [of c "fst q" "snd q"] lheight_le [of "Suc c" "fst q" "snd q"] by auto
  then have "(\<Sum>q\<in>set inners. of_bool (z q)) \<le> (\<Sum>q\<in>set inners. of_bool (snd q < tall c (fst q)) + ?A q)"
    by (rule sum_mono)
  also have "\<dots> \<le> (\<Sum>l<H. tall c l) + (\<Sum>q\<in>set inners. ?A q)"
    unfolding sum.distrib by (rule add_right_mono [OF sum_inners_le])
  finally show ?thesis using A by linarith
qed

lemma cover_bound:
  fixes z :: "tpos \<Rightarrow> bool"
  assumes inner: "\<And>l j. (l, j) \<in> set inners \<Longrightarrow> z (l, j) \<longleftrightarrow> z (Suc l, 2 * j) \<or> z (Suc l, 2 * j + 1)"
    and some: "\<exists>q\<in>set leafpos. z q"
  shows "(\<Sum>q\<in>set inners. of_bool (z q) * (of_bool (\<not> z (Suc (fst q), 2 * snd q)) + of_bool (\<not> z (Suc (fst q), 2 * snd q + 1))))
       + (\<Sum>q\<in>set leafpos. of_bool (z q)) \<le> (\<Sum>l<H. tall c l) + c * (\<Sum>q\<in>set leafpos. of_bool (z q)) + 1"
    (is "?S + _ \<le> _")
proof -
  have root: "z (0, 0)"
  proof (rule ccontr)
    assume *: "\<not> z (0, 0)"
    have "\<not> z (l, j)" if "(l, j) \<in> set nodes" for l j
      using that
    proof (induction rule: nodes_level_induct)
      case root
      then show ?case by (rule *)
    next
      case (child l j)
      then show ?case using inner [of l "j div 2"] by (cases "even j") (auto elim!: evenE oddE)
    qed
    then show False using some leafpos_nodes by (metis prod.collapse)
  qed
  let ?Z = "\<lambda>q. of_bool (z q) :: nat"
  have "2 * ?Z q = of_bool (z q) * (of_bool (\<not> z (Suc (fst q), 2 * snd q)) + of_bool (\<not> z (Suc (fst q), 2 * snd q + 1)))
      + (?Z (Suc (fst q), 2 * snd q) + ?Z (Suc (fst q), 2 * snd q + 1))" if "q \<in> set inners" for q
    using inner [of "fst q" "snd q"] that by auto
  then have "(\<Sum>q\<in>set inners. 2 * ?Z q) = ?S + (\<Sum>q\<in>set (tl nodes). ?Z q)"
    unfolding sum_children sum.distrib [symmetric] by (intro sum.cong) auto
  then have "2 * (\<Sum>q\<in>set inners. ?Z q) = ?S + (\<Sum>q\<in>set (tl nodes). ?Z q)"
    by (simp add: sum_distrib_left)
  with root sum_nodes [of ?Z] uncovered_bound [OF inner, of c] show ?thesis by simp
qed

end

section \<open>The tables of the parameter sets satisfy the laws\<close>

text \<open>The laws as a walk over the three tables, which evaluates on numerals.\<close>

fun tables_ok :: "nat \<Rightarrow> nat list \<Rightarrow> nat list \<Rightarrow> nat list \<Rightarrow> bool" where
  "tables_ok b (n # n' # ns) (m # ms) (d # ds) \<longleftrightarrow>
     m \<le> n \<and> n' = 2 * (n - m) \<and> 2 * b + 1 = b + n + d \<and> even d \<and> tables_ok (b + n) (n' # ns) ms ds"
| "tables_ok b [n] [m] ds \<longleftrightarrow> m = n"
| "tables_ok b _ _ _ \<longleftrightarrow> False"

fun leaf_runs :: "nat \<Rightarrow> nat list \<Rightarrow> nat list \<Rightarrow> (nat \<times> nat) list" where
  \<comment> \<open>first node and number of the leaves of each level that has some, last level first\<close>
  "leaf_runs b (n # ns) (m # ms) = leaf_runs (b + n) ns ms @ (if m = 0 then [] else [(b + n - m, m)])"
| "leaf_runs b _ _ = []"

lemma tables_ok_lengths: "tables_ok b ns ms ds \<Longrightarrow> length ns = length ms \<and> ns \<noteq> []"
  by (induction b ns ms ds rule: tables_ok.induct) auto

lemma tables_ok_laws:
  assumes "tables_ok b ns ms ds"
  shows "l < length ns - 1 \<Longrightarrow> ns ! Suc l = 2 * (ns ! l - ms ! l)"
    and "l < length ns \<Longrightarrow> ms ! l \<le> ns ! l"
    and "ms ! (length ns - 1) = ns ! (length ns - 1)"
    and "l < length ns - 1 \<Longrightarrow> 2 * (b + sum_list (take l ns)) + 1 = b + sum_list (take (Suc l) ns) + ds ! l"
    and "l < length ns - 1 \<Longrightarrow> even (ds ! l)"
  using assms
proof (induction b ns ms ds arbitrary: l rule: tables_ok.induct)
  case (1 b n n' ns m ms d ds)
  { case 1 then show ?case using "1.IH"(1) [of "l - 1"] by (cases l) auto }
  { case 2 then show ?case using "1.IH"(2) [of "l - 1"] by (cases l) auto }
  { case 3 then show ?case using "1.IH"(3) by auto }
  { case 4 then show ?case using "1.IH"(4) [of "l - 1"] by (cases l) auto }
  { case 5 then show ?case using "1.IH"(5) [of "l - 1"] by (cases l) auto }
qed auto

lemma leaf_runs_eq:
  assumes "length ns = length ms" and "\<And>l. l < length ns \<Longrightarrow> ms ! l \<le> ns ! l"
  shows "concat (map (\<lambda>(a, n). [a..<a + n]) (leaf_runs b ns ms)) =
    concat (map (\<lambda>l. [b + sum_list (take (Suc l) ns) - ms ! l..<b + sum_list (take (Suc l) ns)]) (rev [0..<length ns]))"
  using assms
proof (induction b ns ms rule: leaf_runs.induct)
  case (1 b n ns m ms)
  have le: "m \<le> n" using "1.prems"(2) [of 0] by simp
  have "[0..<length (n # ns)] = 0 # map Suc [0..<length ns]"
    by (simp only: map_Suc_upt upt_conv_Cons zero_less_Suc list.size add_Suc_right add_0_right)
  moreover have "concat (map (\<lambda>(a, n). [a..<a + n]) (leaf_runs (b + n) ns ms)) =
    concat (map (\<lambda>l. [b + n + sum_list (take (Suc l) ns) - ms ! l..<b + n + sum_list (take (Suc l) ns)]) (rev [0..<length ns]))"
  proof (rule "1.IH")
    show "ms ! l \<le> ns ! l" if "l < length ns" for l using "1.prems"(2) [of "Suc l"] that by simp
  qed (use "1.prems"(1) in simp)
  ultimately show ?case using le by (simp add: comp_def rev_map add.assoc del: upt_Suc)
qed auto

lemma sum_nth_take: "n \<le> length ns \<Longrightarrow> (\<Sum>k<n. ns ! k) = sum_list (take n ns)"
  by (simp add: sum_list_sum_nth atLeast0LessThan min_def)

lemma map_plus_upt: "map ((+) a) [0..<n] = [a..<a + n]"
  by (rule nth_equalityI) simp_all

lemma leaf_indices_runs:
  "leaf_indices p = concat (map (\<lambda>(a, n). [a..<a + n])
     (map (\<lambda>i. (TREE_LEAVES_START_INDICES (tabs p) ! i, TREE_CONSECUTIVE_LEAVES (tabs p) ! i)) [0..<TREE_SUBROOTS (tabs p)]))"
  by (simp add: leaf_indices_def map_plus_upt comp_def)

lemma tables_laws:
  shows "length (TREE_NODES_PER_LEVEL (tabs p)) = Suc (tree_height p)"
    and "tables_ok 0 (TREE_NODES_PER_LEVEL (tabs p)) (TREE_LEAVES_PER_LEVEL (tabs p)) (TREE_OFFSETS (tabs p))"
    and "TREE_NODES_PER_LEVEL (tabs p) ! 0 = 1"
  by (cases "variant p"; cases "cat p"; cases "corner p";
      simp add: tabs_def tables_defs tree_height_def par_T_def LOG2_def BITS_TO_REPRESENT_def IS_REPRESENTABLE_IN_D_BITS_def)+

lemma tables_runs:
  "map (\<lambda>i. (TREE_LEAVES_START_INDICES (tabs p) ! i, TREE_CONSECUTIVE_LEAVES (tabs p) ! i)) [0..<TREE_SUBROOTS (tabs p)]
     = leaf_runs 0 (TREE_NODES_PER_LEVEL (tabs p)) (TREE_LEAVES_PER_LEVEL (tabs p))"
  by (cases "variant p"; cases "cat p"; cases "corner p"; simp add: tabs_def tables_defs upt_rec)

lemma tables_sums:
  shows "sum_list (TREE_NODES_PER_LEVEL (tabs p)) = NUM_NODES_TREE p"
    and "sum_list (TREE_LEAVES_PER_LEVEL (tabs p)) = par_T p"
  by (cases "variant p"; cases "cat p"; cases "corner p"; simp add: tabs_def tables_defs par_T_def NUM_NODES_TREE_def)+

interpretation tree: tree_shape "tree_npl p" "tree_lpl p" "tree_off p" "tree_height p" "leaf_indices p" for p
proof
  let ?ns = "TREE_NODES_PER_LEVEL (tabs p)" and ?ms = "TREE_LEAVES_PER_LEVEL (tabs p)"
  note laws = tables_ok_laws [OF tables_laws(2) [of p]] and len = tables_laws(1) [of p]
  have lens: "length ?ns = length ?ms" using tables_ok_lengths [OF tables_laws(2)] by simp
  have sums: "(\<Sum>k<l. tree_npl p k) = sum_list (take l ?ns)" if "l \<le> Suc (tree_height p)" for l
    unfolding tree_npl_def using sum_nth_take [of l ?ns] that by (simp add: len)
  show "tree_npl p 0 = 1" using tables_laws(3) by (simp add: tree_npl_def)
  show "tree_lpl p (tree_height p) = tree_npl p (tree_height p)"
    using laws(3) by (simp add: tree_npl_def tree_lpl_def len)
  show "tree_lpl p l \<le> tree_npl p l" if "l \<le> tree_height p" for l
    using laws(2) [of l] that by (simp add: tree_npl_def tree_lpl_def len)
  show "leaf_indices p = concat (map (\<lambda>l. [(\<Sum>k<Suc l. tree_npl p k) - tree_lpl p l..<\<Sum>k<Suc l. tree_npl p k])
      (rev [0..<Suc (tree_height p)]))"
  proof -
    have "leaf_indices p = concat (map (\<lambda>l. [sum_list (take (Suc l) ?ns) - ?ms ! l..<sum_list (take (Suc l) ?ns)])
        (rev [0..<length ?ns]))"
      unfolding leaf_indices_runs tables_runs using leaf_runs_eq [OF lens laws(2), of 0] by simp
    also have "\<dots> = concat (map (\<lambda>l. [(\<Sum>k<Suc l. tree_npl p k) - tree_lpl p l..<\<Sum>k<Suc l. tree_npl p k])
        (rev [0..<Suc (tree_height p)]))"
      unfolding len by (intro arg_cong [where f = concat] map_cong) (auto simp: tree_lpl_def sums simp del: sum.lessThan_Suc)
    finally show ?thesis .
  qed
  fix l
  assume l: "l < tree_height p"
  show "tree_npl p (Suc l) = 2 * (tree_npl p l - tree_lpl p l)"
    using laws(1) [of l] l by (simp add: tree_npl_def tree_lpl_def len)
  show "2 * (\<Sum>k<l. tree_npl p k) + 1 = (\<Sum>k<Suc l. tree_npl p k) + tree_off p l"
    using laws(4) [of l] l sums [of l] sums [of "Suc l"] by (simp add: tree_off_def len del: sum.lessThan_Suc)
  show "even (tree_off p l)" using laws(5) [of l] l by (simp add: tree_off_def len)
qed

lemma tree_size: "tree.base p (Suc (tree_height p)) = NUM_NODES_TREE p"
  using sum_nth_take [of "Suc (tree_height p)" "TREE_NODES_PER_LEVEL (tabs p)"] tables_sums(1) [of p] tables_laws(1) [of p]
  by (simp add: tree.base_def tree_npl_def del: sum.lessThan_Suc)

text \<open>An array of the tree is the list of what its nodes hold, level by level.\<close>

lemma tree_array:
  assumes "length t = NUM_NODES_TREE p" and "\<And>l j. (l, j) \<in> set (tree.nodes p) \<Longrightarrow> t ! tree.idx p (l, j) = f l j"
  shows "t = map (\<lambda>(l, j). f l j) (tree.nodes p)"
proof -
  have "t = map ((!) t) (map (tree.idx p) (tree.nodes p))"
    unfolding tree.idx_nodes tree_size assms(1) [symmetric] by (simp add: map_nth)
  also have "\<dots> = map (\<lambda>(l, j). f l j) (tree.nodes p)" using assms(2) by auto
  finally show ?thesis .
qed

lemma leaf_start: "TREE_LEAVES_START_INDICES (tabs p) ! 0 = tree.base p (tree_height p)"
proof -
  have "TREE_LEAVES_START_INDICES (tabs p) ! 0 = sum_list (take (tree_height p) (TREE_NODES_PER_LEVEL (tabs p)))"
    by (cases "variant p"; cases "cat p"; cases "corner p";
      simp add: tabs_def tables_defs tree_height_def par_T_def LOG2_def BITS_TO_REPRESENT_def IS_REPRESENTABLE_IN_D_BITS_def)
  then show ?thesis
    using sum_nth_take [of "tree_height p" "TREE_NODES_PER_LEVEL (tabs p)"] tables_laws(1) [of p]
    by (simp add: tree.base_def tree_npl_def)
qed

lemma length_leaf_indices: "length (leaf_indices p) = par_T p"
proof -
  have "length (concat (map (\<lambda>(a, n). [a..<a + n]) (leaf_runs b ns ms))) = sum_list ms" if "length ns = length ms" for b ns ms
    using that by (induction b ns ms rule: leaf_runs.induct) auto
  then show ?thesis
    unfolding leaf_indices_runs tables_runs using tables_ok_lengths [OF tables_laws(2)] tables_sums(2) by simp
qed

subsection \<open>The storage is large enough\<close>

definition next_row :: "nat list \<Rightarrow> nat list \<Rightarrow> nat list" where
  "next_row is r = map2 (\<lambda>i b. min i ((b + 1) div 2)) is (tl r @ [0])"

fun tall_row :: "nat \<Rightarrow> nat list \<Rightarrow> nat list" where
  "tall_row 0 is = is"
| "tall_row (Suc c) is = next_row is (tall_row c is)"

definition inner_row :: "cross_params \<Rightarrow> nat list" where
  "inner_row p = butlast (map2 (-) (TREE_NODES_PER_LEVEL (tabs p)) (TREE_LEAVES_PER_LEVEL (tabs p)))"

lemma length_tall_row [simp]: "length (tall_row c is) = length is"
  by (induction c "is" rule: tall_row.induct) (auto simp: next_row_def)

lemma inner_row: "length (inner_row p) = tree_height p" "l < tree_height p \<Longrightarrow> inner_row p ! l = tree.inner p l"
proof -
  have "length (TREE_LEAVES_PER_LEVEL (tabs p)) = Suc (tree_height p)"
    using tables_ok_lengths [OF tables_laws(2)] tables_laws(1) [of p] by metis
  then show "length (inner_row p) = tree_height p" "l < tree_height p \<Longrightarrow> inner_row p ! l = tree.inner p l"
    using tables_laws(1) [of p] by (simp_all add: inner_row_def tree.inner_def tree_npl_def tree_lpl_def nth_butlast)
qed

lemma tall_row: "l < tree_height p \<Longrightarrow> tall_row c (inner_row p) ! l = tree.tall p c l"
proof (induction c arbitrary: l)
  case (Suc c)
  have "(tl (tall_row c (inner_row p)) @ [0]) ! l = tree.tall p c (Suc l)"
  proof (cases "Suc l < tree_height p")
    case True
    then show ?thesis using Suc.IH [of "Suc l"] Suc_less_eq2 [of l "tree_height p"]
      by (auto simp: nth_append nth_tl inner_row(1))
  next
    case False
    moreover have "tree.tall p c (Suc l) = 0" using False by (cases c) auto
    moreover have "\<not> l < tree_height p - 1" using False Suc.prems by linarith
    ultimately show ?thesis using Suc.prems by (simp add: nth_append inner_row(1))
  qed
  with Suc.prems show ?case by (simp add: inner_row next_row_def)
qed (simp add: inner_row)

lemma capacity_rows:
  "\<exists>c\<in>{1, 2, 3, 4}. sum_list (tall_row c (inner_row p)) + c * (par_T p - par_W p) + 1
     \<le> (par_T p - par_W p) + TREE_NODES_TO_STORE (tabs p)"
proof -
  have rows: "tall_row 1 is = next_row is is" "tall_row 2 is = next_row is (next_row is is)"
    "tall_row 3 is = next_row is (next_row is (next_row is is))"
    "tall_row 4 is = next_row is (next_row is (next_row is (next_row is is)))" for "is"
    by (simp_all add: numeral_eq_Suc)
  show ?thesis
    unfolding bex_simps rows
    by (cases "variant p"; cases "cat p"; cases "corner p";
      simp add: inner_row_def next_row_def tabs_def tables_defs par_T_def par_W_def)
qed

lemma tree_capacity:
  obtains c where "(\<Sum>l<tree_height p. tree.tall p c l) + c * (par_T p - par_W p) + 1
     \<le> (par_T p - par_W p) + TREE_NODES_TO_STORE (tabs p)"
proof -
  obtain c where c: "sum_list (tall_row c (inner_row p)) + c * (par_T p - par_W p) + 1
     \<le> (par_T p - par_W p) + TREE_NODES_TO_STORE (tabs p)" using capacity_rows by blast
  have "sum_list (tall_row c (inner_row p)) = (\<Sum>l<tree_height p. tree.tall p c l)"
    by (simp add: sum_list_sum_nth inner_row(1) atLeast0LessThan tall_row)
  with c that show thesis by metis
qed

definition challenge_ok :: "cross_params \<Rightarrow> nat list \<Rightarrow> bool" where
  \<comment> \<open>what the second challenge is: \<open>T\<close> bits, \<open>W\<close> of them set\<close>
  "challenge_ok p ind \<longleftrightarrow>
     length ind = par_T p \<and> set ind \<subseteq> {0, 1} \<and> length (filter (\<lambda>x. x = 1) ind) = par_W p"

lemma challenge_zeros: "challenge_ok p ind \<Longrightarrow> length (filter (\<lambda>x. x \<noteq> 1) ind) = par_T p - par_W p"
  using sum_length_filter_compl [of "\<lambda>x. x = 1" ind] by (simp add: challenge_ok_def)

lemma length_leafpos [simp]: "length (tree.leafpos p) = par_T p"
  using length_leaf_indices [of p] by (simp add: tree.leaves_idx)

lemma sum_leafpos:
  assumes "length ind = par_T p" and "\<And>i. i < par_T p \<Longrightarrow> z (tree.leafpos p ! i) \<longleftrightarrow> P (ind ! i)"
  shows "(\<Sum>q\<in>set (tree.leafpos p). of_bool (z q) :: nat) = length (filter P ind)"
proof -
  have "map z (tree.leafpos p) = map P ind" by (rule nth_equalityI) (simp_all add: assms)
  then have "length (filter id (map z (tree.leafpos p))) = length (filter id (map P ind))" by simp
  then have "length (filter z (tree.leafpos p)) = length (filter P ind)" by (simp add: filter_map)
  then show ?thesis
    by (simp only: sum_of_bool_list [symmetric] sum_list_distinct_conv_sum_set [OF tree.distinct_leafpos])
qed

lemma cover_capacity:
  assumes ok: "challenge_ok p ind"
    and leaf: "\<And>i. i < par_T p \<Longrightarrow> z (tree.leafpos p ! i) \<longleftrightarrow> ind ! i \<noteq> 1"
    and inner: "\<And>l j. (l, j) \<in> set (tree.inners p) \<Longrightarrow> z (l, j) \<longleftrightarrow> z (Suc l, 2 * j) \<or> z (Suc l, 2 * j + 1)"
  shows "(\<Sum>q\<in>set (tree.inners p). of_bool (z q) *
            (of_bool (\<not> z (Suc (fst q), 2 * snd q)) + of_bool (\<not> z (Suc (fst q), 2 * snd q + 1))))
     \<le> TREE_NODES_TO_STORE (tabs p)"
proof -
  let ?h = "par_T p - par_W p"
  have h: "(\<Sum>q\<in>set (tree.leafpos p). of_bool (z q) :: nat) = ?h"
    using sum_leafpos [of ind p z "\<lambda>x. x \<noteq> 1"] leaf challenge_zeros [OF ok] ok by (simp add: challenge_ok_def)
  have "\<exists>q\<in>set (tree.leafpos p). z q"
  proof (rule ccontr)
    assume "\<not> ?thesis"
    then have "(\<Sum>q\<in>set (tree.leafpos p). of_bool (z q) :: nat) = 0" by simp
    with h show False using par_W_lt_T [of p] by simp
  qed
  note bound = tree.cover_bound [OF inner this]
  obtain c where "(\<Sum>l<tree_height p. tree.tall p c l) + c * ?h + 1 \<le> ?h + TREE_NODES_TO_STORE (tabs p)"
    by (rule tree_capacity)
  with bound [of c] show ?thesis unfolding h by linarith
qed

end
