(* ===== verification/Seed_Tree.thy ===== *)
theory Seed_Tree
  imports Csprng Tree_Shape
begin

text \<open>
  The round seeds (\<open>lib/seedtree.c\<close>), for both builds: with \<open>NO_TREES\<close> the
  \<open>T\<close> seeds come from a two-level expansion and the revealed ones are copied to
  the signature; otherwise they are the leaves of a binary tree of expansions
  and the signature carries the seeds of the highest nodes all of whose leaves
  are revealed. A tree is the list of its nodes (node \<open>k\<close> is the \<open>k\<close>-th slot of
  \<open>SEED_LENGTH_BYTES\<close> of the C buffer), the round seeds and the seed storage are
  the flat buffers of the C code. Copies into and out of the storage are checked:
  \<open>None\<close> is an access outside it.

  The seeds of the tree are specified by a recursion over the levels
  (\<open>node_seed\<close>); the locale \<open>seed_release\<close> states what the signer and the
  verifier rely on, and both builds are interpretations of it.
\<close>

abbreviation (input) TO_PUBLISH :: nat where "TO_PUBLISH \<equiv> 1"
abbreviation (input) NOT_TO_PUBLISH :: nat where "NOT_TO_PUBLISH \<equiv> 0"

section \<open>The code without trees\<close>

definition remainders :: "cross_params \<Rightarrow> nat list" where
  "remainders p =
     (let remainders = [0, 0, 0, 0];
          remainders = (if par_T p mod 4 > 0 then remainders[0 := 1] else remainders);
          remainders = (if par_T p mod 4 > 1 then remainders[1 := 1] else remainders)
      in if par_T p mod 4 > 2 then remainders[2 := 1] else remainders)"

definition seed_leaves_no_trees :: "cross_params \<Rightarrow> bytes \<Rightarrow> bytes \<Rightarrow> bytes \<times> nat" where
  "seed_leaves_no_trees p root_seed salt =
     (let SL = SEED_LENGTH_BYTES p;
          (quad_seed, _) = csprng_randombytes p (4 * SL)
             (csprng_initialize p (root_seed @ salt) CSPRNG_DOMAIN_SEP_CONST);
          (rounds_seeds, offset, dsc_counter) =
            foldl (\<lambda>(rounds_seeds, offset, dsc_counter) i.
                let csprng_input = read_at (i * SL) SL quad_seed @ salt;
                    dsc_counter = dsc_counter + 1;
                    csprng_state = csprng_initialize p csprng_input (CSPRNG_DOMAIN_SEP_CONST + dsc_counter);
                    (out, _) = csprng_randombytes p ((par_T p div 4 + remainders p ! i) * SL) csprng_state
                in (write_at (((par_T p div 4) * i + offset) * SL) out rounds_seeds,
                    offset + remainders p ! i, dsc_counter))
              (replicate (par_T p * SL) 0, 0, 0) [0..<4]
      in (rounds_seeds, par_T p))"

definition seed_path_no_trees :: "cross_params \<Rightarrow> bytes \<Rightarrow> bytes \<Rightarrow> nat list \<Rightarrow> (bytes \<times> nat) option" where
  "seed_path_no_trees p seed_storage rounds_seeds indices_to_publish =
     foldM (\<lambda>(seed_storage, published) i.
         if indices_to_publish ! i = TO_PUBLISH
         then (case store_at (published * SEED_LENGTH_BYTES p)
                      (read_at (i * SEED_LENGTH_BYTES p) (SEED_LENGTH_BYTES p) rounds_seeds) seed_storage of
                 None \<Rightarrow> None | Some seed_storage \<Rightarrow> Some (seed_storage, published + 1))
         else Some (seed_storage, published))
       (seed_storage, 0) [0..<par_T p]"

definition rebuild_leaves :: "cross_params \<Rightarrow> bytes \<Rightarrow> nat list \<Rightarrow> bytes \<Rightarrow> (bytes \<times> bool) option" where
  "rebuild_leaves p rounds_seeds indices_to_publish seed_storage =
     (case foldM (\<lambda>(rounds_seeds, published) i.
              if indices_to_publish ! i = TO_PUBLISH
              then (case load_at (published * SEED_LENGTH_BYTES p) (SEED_LENGTH_BYTES p) seed_storage of
                      None \<Rightarrow> None
                    | Some seed \<Rightarrow> Some (write_at (i * SEED_LENGTH_BYTES p) seed rounds_seeds, published + 1))
              else Some (rounds_seeds, published))
            (rounds_seeds, 0) [0..<par_T p] of
        None \<Rightarrow> None
      | Some (rounds_seeds, published) \<Rightarrow> Some (rounds_seeds, True))"

section \<open>The code with trees\<close>

definition label_leaves :: "cross_params \<Rightarrow> nat list \<Rightarrow> nat list \<Rightarrow> nat list" where
  "label_leaves p flag_tree indices_to_publish =
     foldl (\<lambda>flag_tree (leaf, label). flag_tree[leaf := label]) flag_tree
       (zip (leaf_indices p) indices_to_publish)"

definition parent_node :: "cross_params \<Rightarrow> nat \<Rightarrow> nat \<Rightarrow> nat" where
  "parent_node p level current_node = PARENT current_node + tree_off p (level - 1) div 2"

definition compute_seeds_to_publish :: "cross_params \<Rightarrow> nat list \<Rightarrow> nat list \<Rightarrow> nat list" where
  "compute_seeds_to_publish p flags indices_to_publish =
     foldl (\<lambda>flags (level, current_node).
         flags[parent_node p level current_node :=
                 (if flags ! current_node = TO_PUBLISH \<and> flags ! SIBLING current_node = TO_PUBLISH then 1 else 0)])
       (label_leaves p flags indices_to_publish)
       (level_pairs (tree_npl p) (rev [1..<Suc (tree_height p)]) (TREE_LEAVES_START_INDICES (tabs p) ! 0))"

definition expand_node :: "cross_params \<Rightarrow> bytes \<Rightarrow> bytes \<Rightarrow> nat \<Rightarrow> bytes" where
  \<comment> \<open>the two seeds below a node, in one string\<close>
  "expand_node p salt seed node =
     (let csprng_input = seed @ salt;
          domain_sep = CSPRNG_DOMAIN_SEP_CONST + node;
          tree_csprng_state = csprng_initialize p csprng_input domain_sep
      in fst (csprng_randombytes p (2 * SEED_LENGTH_BYTES p) tree_csprng_state))"

definition put_children :: "cross_params \<Rightarrow> bytes list \<Rightarrow> nat \<Rightarrow> bytes \<Rightarrow> bytes list" where
  \<comment> \<open>a write of two consecutive nodes\<close>
  "put_children p seed_tree left out =
     seed_tree[left := take (SEED_LENGTH_BYTES p) out, Suc left := drop (SEED_LENGTH_BYTES p) out]"

definition gen_seed_tree :: "cross_params \<Rightarrow> bytes list \<Rightarrow> bytes \<Rightarrow> bytes \<Rightarrow> bytes list" where
  "gen_seed_tree p seed_tree root_seed salt =
     foldl (\<lambda>seed_tree (level, node_in_level, father_node).
         put_children p seed_tree (LEFT_CHILD father_node - tree_off p level)
           (expand_node p salt (seed_tree ! father_node) father_node))
       (seed_tree[0 := root_seed])
       (level_nodes (\<lambda>l. tree_npl p l - tree_lpl p l) (tree_npl p) [0..<tree_height p] 0)"

definition seed_leaves :: "cross_params \<Rightarrow> bytes list \<Rightarrow> bytes" where
  "seed_leaves p seed_tree = concat (map (\<lambda>leaf. seed_tree ! leaf) (leaf_indices p))"

definition seed_path :: "cross_params \<Rightarrow> bytes \<Rightarrow> bytes list \<Rightarrow> nat list \<Rightarrow> (bytes \<times> nat) option" where
  "seed_path p seed_storage seed_tree indices_to_publish =
     (let flags = compute_seeds_to_publish p (replicate (NUM_NODES_TREE p) NOT_TO_PUBLISH) indices_to_publish
      in foldM (\<lambda>(seed_storage, num_seeds_published) (level, node_in_level, current_node).
           if flags ! current_node = TO_PUBLISH \<and> flags ! parent_node p level current_node = NOT_TO_PUBLISH
           then (case store_at (num_seeds_published * SEED_LENGTH_BYTES p) (seed_tree ! current_node) seed_storage of
                   None \<Rightarrow> None | Some seed_storage \<Rightarrow> Some (seed_storage, num_seeds_published + 1))
           else Some (seed_storage, num_seeds_published))
         (seed_storage, 0) (level_nodes (tree_npl p) (tree_npl p) [1..<Suc (tree_height p)] 1))"

definition rebuild_node ::
  "cross_params \<Rightarrow> nat list \<Rightarrow> bytes \<Rightarrow> bytes \<Rightarrow> bytes list \<times> nat \<Rightarrow> nat \<times> nat \<times> nat \<Rightarrow> (bytes list \<times> nat) option" where
  "rebuild_node p flags stored_seeds salt = (\<lambda>(seed_tree, nodes_used) (level, node_in_level, current_node).
     case (if flags ! current_node = TO_PUBLISH \<and> flags ! parent_node p level current_node = NOT_TO_PUBLISH
           then (case load_at (nodes_used * SEED_LENGTH_BYTES p) (SEED_LENGTH_BYTES p) stored_seeds of
                   None \<Rightarrow> None | Some seed \<Rightarrow> Some (seed_tree[current_node := seed], nodes_used + 1))
           else Some (seed_tree, nodes_used)) of
       None \<Rightarrow> None
     | Some (seed_tree, nodes_used) \<Rightarrow>
         if flags ! current_node = TO_PUBLISH \<and> node_in_level < tree_npl p level - tree_lpl p level
         then Some (put_children p seed_tree (LEFT_CHILD current_node - tree_off p level)
                (expand_node p salt (seed_tree ! current_node) current_node), nodes_used)
         else Some (seed_tree, nodes_used))"

definition rebuild_tree :: "cross_params \<Rightarrow> bytes list \<Rightarrow> nat list \<Rightarrow> bytes \<Rightarrow> bytes \<Rightarrow> (bytes list \<times> bool) option" where
  "rebuild_tree p seed_tree indices_to_publish stored_seeds salt =
     (let flags = compute_seeds_to_publish p (replicate (NUM_NODES_TREE p) 0) indices_to_publish
      in case foldM (rebuild_node p flags stored_seeds salt) (seed_tree, 0)
                (level_nodes (tree_npl p) (tree_npl p) [1..<Suc (tree_height p)] 1) of
           None \<Rightarrow> None
         | Some (seed_tree, nodes_used) \<Rightarrow>
             Some (seed_tree,
               foldl (\<lambda>error i. error OR stored_seeds ! i) 0
                 [nodes_used * SEED_LENGTH_BYTES p..<TREE_NODES_TO_STORE (tabs p) * SEED_LENGTH_BYTES p] = 0))"

section \<open>What the tree holds\<close>

primrec node_seed :: "cross_params \<Rightarrow> bytes \<Rightarrow> bytes \<Rightarrow> nat \<Rightarrow> nat \<Rightarrow> bytes" where
  "node_seed p root_seed salt 0 j = root_seed"
| "node_seed p root_seed salt (Suc l) j =
     (let out = expand_node p salt (node_seed p root_seed salt l (j div 2)) (tree.idx p (l, j div 2))
      in if even j then take (SEED_LENGTH_BYTES p) out else drop (SEED_LENGTH_BYTES p) out)"

lemma SEED_LENGTH_bounds [par_facts]: "SEED_LENGTH_BYTES p \<le> 32" "0 < SEED_LENGTH_BYTES p"
  by (cases "variant p"; cases "cat p"; cases "corner p"; simp add: par_unfold SEED_LENGTH_BYTES_def)+

lemma length_expand_node [simp]: "length (expand_node p salt seed node) = 2 * SEED_LENGTH_BYTES p"
  using SEED_LENGTH_bounds [of p] by (simp add: expand_node_def Let_def length_csprng_randombytes)

lemma length_node_seed: "length root_seed = SEED_LENGTH_BYTES p \<Longrightarrow> length (node_seed p root_seed salt l j) = SEED_LENGTH_BYTES p"
  by (cases l) (simp_all add: Let_def)

lemma put_children_nth:
  assumes "(l, j) \<in> set (tree.inners p)" and "length t = NUM_NODES_TREE p"
    and t: "t ! tree.idx p (l, j) = node_seed p root_seed salt l j"
  defines "t' \<equiv> put_children p t (LEFT_CHILD (tree.idx p (l, j)) - tree_off p l)
                  (expand_node p salt (t ! tree.idx p (l, j)) (tree.idx p (l, j)))"
  shows "length t' = NUM_NODES_TREE p"
    and "(l', j') \<in> set (tree.nodes p) \<Longrightarrow> t' ! tree.idx p (l', j') =
       (if l' = Suc l \<and> j' div 2 = j then node_seed p root_seed salt l' j' else t ! tree.idx p (l', j'))"
proof -
  let ?i = "tree.idx p (Suc l, 2 * j)"
  have left: "LEFT_CHILD (tree.idx p (l, j)) - tree_off p l = ?i" by (rule tree.left_child_idx [OF assms(1)])
  have right: "Suc ?i = tree.idx p (Suc l, 2 * j + 1)" by (simp add: tree.idx_def)
  note lt = tree.child_idx [OF assms(1), unfolded tree_size]
  show "length t' = NUM_NODES_TREE p" by (simp add: t'_def put_children_def assms(2))
  assume node: "(l', j') \<in> set (tree.nodes p)"
  note child = tree.child_node [OF assms(1)]
  have "tree.idx p (l', j') = ?i \<longleftrightarrow> l' = Suc l \<and> j' = 2 * j"
    using tree.idx_inj [OF node, of "(Suc l, 2 * j)"] child [of 0] by auto
  moreover have "tree.idx p (l', j') = Suc ?i \<longleftrightarrow> l' = Suc l \<and> j' = 2 * j + 1"
    using tree.idx_inj [OF node, of "(Suc l, 2 * j + 1)"] child [of 1] right by auto
  moreover have half: "j' div 2 = j \<longleftrightarrow> j' = 2 * j \<or> j' = 2 * j + 1" by presburger
  ultimately consider "l' = Suc l" "j' = 2 * j" "tree.idx p (l', j') = ?i"
    | "l' = Suc l" "j' = 2 * j + 1" "tree.idx p (l', j') = Suc ?i"
    | "\<not> (l' = Suc l \<and> j' div 2 = j)" "tree.idx p (l', j') \<noteq> ?i" "tree.idx p (l', j') \<noteq> Suc ?i"
    by blast
  then show "t' ! tree.idx p (l', j') =
       (if l' = Suc l \<and> j' div 2 = j then node_seed p root_seed salt l' j' else t ! tree.idx p (l', j'))"
  proof cases
    case 1
    then show ?thesis using lt assms(2) unfolding t'_def put_children_def left t by (simp add: Let_def)
  next
    case 2
    then show ?thesis using lt right assms(2) unfolding t'_def put_children_def left t by (simp add: Let_def)
  next
    case 3
    then show ?thesis unfolding t'_def put_children_def by (simp only: left if_False) simp
  qed
qed

lemma gen_seed_tree_nodes:
  fixes p root_seed salt
  defines "t \<equiv> gen_seed_tree p (replicate (NUM_NODES_TREE p) (replicate (SEED_LENGTH_BYTES p) 0)) root_seed salt"
  shows "length t = NUM_NODES_TREE p"
    and "(l, j) \<in> set (tree.nodes p) \<Longrightarrow> t ! tree.idx p (l, j) = node_seed p root_seed salt l j"
proof -
  let ?init = "(replicate (NUM_NODES_TREE p) (replicate (SEED_LENGTH_BYTES p) 0))[0 := root_seed]"
  let ?f = "\<lambda>t q. put_children p t (LEFT_CHILD (tree.idx p q) - tree_off p (fst q))
                  (expand_node p salt (t ! tree.idx p q) (tree.idx p q))"
  let ?P = "\<lambda>as. length (foldl ?f ?init as) = NUM_NODES_TREE p \<and>
     (\<forall>l j. (l, j) \<in> set (tree.nodes p) \<and> (l = 0 \<or> (l - 1, j div 2) \<in> set as) \<longrightarrow>
        foldl ?f ?init as ! tree.idx p (l, j) = node_seed p root_seed salt l j)"
  have "?P (tree.inners p)"
  proof (induction rule: tree.inner_induct)
    case 1
    have "0 < NUM_NODES_TREE p" using tree.idx_lt [OF tree.root_node] by (simp add: tree_size)
    then show ?case using tree.npl_0 by (auto simp: tree.in_nodes)
  next
    case (2 as l j)
    let ?t = "foldl ?f ?init as"
    note IH = 2(5)
    have "?t ! tree.idx p (l, j) = node_seed p root_seed salt l j"
      using 2(5) 2(4) tree.inners_nodes [OF 2(1)] by blast
    note put = put_children_nth [OF 2(1) conjunct1 [OF 2(5)] this]
    have new: "foldl ?f ?init (as @ [(l, j)]) = put_children p ?t (LEFT_CHILD (tree.idx p (l, j)) - tree_off p l)
                  (expand_node p salt (?t ! tree.idx p (l, j)) (tree.idx p (l, j)))" by simp
    show ?case unfolding new
    proof (intro conjI allI impI put(1), elim conjE)
      fix l' j'
      assume node: "(l', j') \<in> set (tree.nodes p)" and "l' = 0 \<or> (l' - 1, j' div 2) \<in> set (as @ [(l, j)])"
      then consider "l' = Suc l" "j' div 2 = j" | "l' = 0 \<or> (l' - 1, j' div 2) \<in> set as" "\<not> (l' = Suc l \<and> j' div 2 = j)"
        by (cases l') auto
      then show "put_children p ?t (LEFT_CHILD (tree.idx p (l, j)) - tree_off p l)
          (expand_node p salt (?t ! tree.idx p (l, j)) (tree.idx p (l, j))) ! tree.idx p (l', j')
          = node_seed p root_seed salt l' j'"
      proof cases
        case 1
        then show ?thesis using put(2) [OF node] by simp
      next
        case 2
        then show ?thesis using put(2) [OF node] IH node by (simp only: if_False)
      qed
    qed
  qed
  then have P: "length t = NUM_NODES_TREE p \<and>
     (\<forall>l j. (l, j) \<in> set (tree.nodes p) \<and> (l = 0 \<or> (l - 1, j div 2) \<in> set (tree.inners p)) \<longrightarrow>
        t ! tree.idx p (l, j) = node_seed p root_seed salt l j)"
    by (simp add: t_def gen_seed_tree_def tree.level_nodes_inner foldl_map)
  show "length t = NUM_NODES_TREE p" using P by blast
  show "t ! tree.idx p (l, j) = node_seed p root_seed salt l j" if "(l, j) \<in> set (tree.nodes p)"
    using P that tree.parent_inner [of "l - 1" j p] by (cases l) auto
qed

lemma gen_seed_tree_eq:
  "gen_seed_tree p (replicate (NUM_NODES_TREE p) (replicate (SEED_LENGTH_BYTES p) 0)) root_seed salt
   = map (\<lambda>(l, j). node_seed p root_seed salt l j) (tree.nodes p)"
  by (rule tree_array [OF gen_seed_tree_nodes])

section \<open>Which seeds are revealed\<close>

definition seed_flags :: "cross_params \<Rightarrow> nat list \<Rightarrow> nat list" where
  "seed_flags p ind = compute_seeds_to_publish p (replicate (NUM_NODES_TREE p) 0) ind"

definition revealed :: "cross_params \<Rightarrow> nat list \<Rightarrow> tpos \<Rightarrow> bool" where
  "revealed p ind q \<longleftrightarrow> seed_flags p ind ! tree.idx p q = 1
     \<and> seed_flags p ind ! tree.idx p (fst q - 1, snd q div 2) = 0"

lemma label_leaves_nth:
  assumes "length ind = par_T p" and "length flags = NUM_NODES_TREE p"
  shows "length (label_leaves p flags ind) = NUM_NODES_TREE p"
    and "i < par_T p \<Longrightarrow> label_leaves p flags ind ! tree.idx p (tree.leafpos p ! i) = ind ! i"
proof -
  have lt: "set (leaf_indices p) \<subseteq> {..<length flags}"
    using tree.leaves_idx [of p] tree.idx_lt [OF tree.leafpos_nodes] by (auto simp: assms(2) tree_size)
  note upd = updates_nth [OF tree.distinct_leaves _ lt, of ind, folded label_leaves_def]
  show "length (label_leaves p flags ind) = NUM_NODES_TREE p"
    using upd(1) by (simp add: length_leaf_indices assms)
  show "label_leaves p flags ind ! tree.idx p (tree.leafpos p ! i) = ind ! i" if "i < par_T p"
    using upd(2) [of i] that tree.leaves_idx [of p] by (simp add: length_leaf_indices assms)
qed

lemma seed_flags:
  assumes "length ind = par_T p"
  shows "length (seed_flags p ind) = NUM_NODES_TREE p"
    and "(l, j) \<in> set (tree.inners p) \<Longrightarrow> seed_flags p ind ! tree.idx p (l, j) =
       (if seed_flags p ind ! tree.idx p (Suc l, 2 * j) = 1 \<and> seed_flags p ind ! tree.idx p (Suc l, 2 * j + 1) = 1
        then 1 else 0)"
    and "i < par_T p \<Longrightarrow> seed_flags p ind ! tree.idx p (tree.leafpos p ! i) = ind ! i"
proof -
  let ?c = "\<lambda>a b. if a = TO_PUBLISH \<and> b = TO_PUBLISH then 1 else 0 :: nat"
  let ?s = "label_leaves p (replicate (NUM_NODES_TREE p) 0) ind"
  note lab = label_leaves_nth [OF assms, of "replicate (NUM_NODES_TREE p) 0", simplified]
  note fold = tree.up_fold [where p = p and c = ?c and s = ?s and leaf = "\<lambda>q. ?s ! tree.idx p q", unfolded tree_size]
  have eq: "seed_flags p ind = foldl (\<lambda>s (level, cur). s[PARENT cur + tree_off p (level - 1) div 2 := ?c (s ! cur) (s ! SIBLING cur)])
      ?s (level_pairs (tree_npl p) (rev [1..<Suc (tree_height p)]) (tree.base p (tree_height p)))"
    by (simp only: seed_flags_def compute_seeds_to_publish_def parent_node_def leaf_start)
  note vals = fold [OF lab(1) refl, folded eq]
  show "length (seed_flags p ind) = NUM_NODES_TREE p" by (rule vals(1))
  show "seed_flags p ind ! tree.idx p (l, j) =
       (if seed_flags p ind ! tree.idx p (Suc l, 2 * j) = 1 \<and> seed_flags p ind ! tree.idx p (Suc l, 2 * j + 1) = 1
        then 1 else 0)" if q: "(l, j) \<in> set (tree.inners p)"
    using tree.up_inner [OF q, of ?c] vals(2) [OF tree.inners_nodes [OF q]]
      vals(2) [OF tree.child_node [OF q, of 0, simplified]] vals(2) [OF tree.child_node [OF q, of 1]] by simp
  show "seed_flags p ind ! tree.idx p (tree.leafpos p ! i) = ind ! i" if "i < par_T p"
  proof -
    obtain l j where q: "tree.leafpos p ! i = (l, j)" by (cases "tree.leafpos p ! i")
    have "(l, j) \<in> set (tree.leafpos p)" using that q by (metis length_leafpos nth_mem)
    from vals(2) [OF tree.leafpos_nodes [OF this]] tree.up_leaf [OF this, of ?c] lab(2) [OF that]
    show ?thesis by (simp add: q)
  qed
qed

lemma revealed_capacity:
  assumes ok: "challenge_ok p ind"
  shows "length (filter (revealed p ind) (tl (tree.nodes p))) \<le> TREE_NODES_TO_STORE (tabs p)"
proof -
  let ?z = "\<lambda>q. seed_flags p ind ! tree.idx p q \<noteq> 1"
  have len: "length ind = par_T p" using ok by (simp add: challenge_ok_def)
  note flags = seed_flags [OF len]
  have "length (filter (revealed p ind) (tl (tree.nodes p))) = (\<Sum>q\<in>set (tl (tree.nodes p)). of_bool (revealed p ind q))"
    by (simp add: sum_of_bool_list [symmetric] sum_list_distinct_conv_sum_set tree.distinct_nodes distinct_tl)
  also have "\<dots> = (\<Sum>q\<in>set (tree.inners p). of_bool (?z q) *
            (of_bool (\<not> ?z (Suc (fst q), 2 * snd q)) + of_bool (\<not> ?z (Suc (fst q), 2 * snd q + 1))))"
    unfolding tree.sum_children
  proof (rule sum.cong [OF refl])
    fix q
    assume q: "q \<in> set (tree.inners p)"
    then have "(fst q, snd q) \<in> set (tree.inners p)" by simp
    from flags(2) [OF this] show "of_bool (revealed p ind (Suc (fst q), 2 * snd q)) + of_bool (revealed p ind (Suc (fst q), 2 * snd q + 1))
        = (of_bool (?z q) * (of_bool (\<not> ?z (Suc (fst q), 2 * snd q)) + of_bool (\<not> ?z (Suc (fst q), 2 * snd q + 1))) :: nat)"
      by (simp add: revealed_def)
  qed
  also have "\<dots> \<le> TREE_NODES_TO_STORE (tabs p)"
    by (rule cover_capacity [OF ok]) (auto simp: flags)
  finally show ?thesis .
qed

lemma seed_path_store:
  assumes ok: "challenge_ok p ind" and len: "length root_seed = SEED_LENGTH_BYTES p"
    and st: "length st = TREE_NODES_TO_STORE (tabs p) * SEED_LENGTH_BYTES p"
    and t: "\<And>l j. (l, j) \<in> set (tree.nodes p) \<Longrightarrow> t ! tree.idx p (l, j) = node_seed p root_seed salt l j"
  shows "seed_path p st t ind =
     Some (concat (map (\<lambda>q. node_seed p root_seed salt (fst q) (snd q)) (filter (revealed p ind) (tl (tree.nodes p))))
             @ drop (length (filter (revealed p ind) (tl (tree.nodes p))) * SEED_LENGTH_BYTES p) st,
           length (filter (revealed p ind) (tl (tree.nodes p))))"
proof -
  have sel: "seed_flags p ind ! tree.idx p q = 1 \<and> seed_flags p ind ! parent_node p (fst q) (tree.idx p q) = 0
      \<longleftrightarrow> revealed p ind q" if q: "q \<in> set (tl (tree.nodes p))" for q
  proof -
    obtain l j where [simp]: "q = (Suc l, j)" using q by (metis tree.in_tl_nodes not0_implies_Suc prod.collapse)
    show ?thesis using q tree.parent_idx [of l j p] by (simp add: tree.in_tl_nodes revealed_def parent_node_def)
  qed
  have val: "t ! tree.idx p q = node_seed p root_seed salt (fst q) (snd q)" if "q \<in> set (tl (tree.nodes p))" for q
    using t [of "fst q" "snd q"] that by (simp add: tree.in_tl_nodes)
  have eq: "seed_path p st t ind = foldM (\<lambda>(st, n) q. if revealed p ind q
        then (case store_at (n * SEED_LENGTH_BYTES p) (node_seed p root_seed salt (fst q) (snd q)) st of
                None \<Rightarrow> None | Some st \<Rightarrow> Some (st, n + 1)) else Some (st, n)) (st, 0) (tl (tree.nodes p))"
    unfolding seed_path_def Let_def tree.level_nodes_all foldM_map seed_flags_def [symmetric]
    by (rule foldM_cong) (simp only: split_beta fst_conv snd_conv sel val)
  show ?thesis unfolding eq
    by (rule foldM_stores) (auto simp: st length_node_seed len revealed_capacity [OF ok])
qed

section \<open>The verifier rebuilds the revealed seeds\<close>

lemma root_hidden:
  assumes ok: "challenge_ok p ind"
  shows "seed_flags p ind ! tree.idx p (0, 0) \<noteq> 1"
proof
  assume root: "seed_flags p ind ! tree.idx p (0, 0) = 1"
  have len: "length ind = par_T p" using ok by (simp add: challenge_ok_def)
  have "seed_flags p ind ! tree.idx p (l, j) = 1" if "(l, j) \<in> set (tree.nodes p)" for l j
    using that
  proof (induction rule: tree.nodes_level_induct)
    case (child l j)
    have "seed_flags p ind ! tree.idx p (Suc l, 2 * (j div 2)) = 1 \<and> seed_flags p ind ! tree.idx p (Suc l, 2 * (j div 2) + 1) = 1"
      using seed_flags(2) [OF len child(2)] child(3) by (metis zero_neq_one)
    moreover have "j = 2 * (j div 2) \<or> j = 2 * (j div 2) + 1" by presburger
    ultimately show ?case by metis
  qed (rule root)
  then have "ind ! i = 1" if "i < length ind" for i
    using len seed_flags(3) [OF len, of i] tree.leafpos_nodes [of "tree.leafpos p ! i" p] that
    by (metis length_leafpos nth_mem prod.collapse)
  then have "filter (\<lambda>x. x \<noteq> 1) ind = []" by (metis (mono_tags, lifting) filter_False in_set_conv_nth)
  then show False using challenge_zeros [OF ok] par_W_lt_T [of p] by simp
qed

definition rebuilt :: "cross_params \<Rightarrow> nat list \<Rightarrow> bytes \<Rightarrow> bytes \<Rightarrow> tpos list \<Rightarrow> bytes list \<Rightarrow> bool" where
  \<comment> \<open>after the visit of some nodes: they and their children have their seeds, where these are to be known\<close>
  "rebuilt p ind root_seed salt as t \<longleftrightarrow>
     length t = NUM_NODES_TREE p \<and> (\<forall>x\<in>set t. length x = SEED_LENGTH_BYTES p) \<and>
     (\<forall>l j. (l, j) \<in> set (tree.nodes p) \<and> seed_flags p ind ! tree.idx p (l, j) = 1 \<and> l \<noteq> 0 \<and>
        ((l, j) \<in> set as \<or> (l - 1, j div 2) \<in> set as \<and> seed_flags p ind ! tree.idx p (l - 1, j div 2) = 1) \<longrightarrow>
        t ! tree.idx p (l, j) = node_seed p root_seed salt l j)"

lemma rebuilt_load:
  assumes "rebuilt p ind root_seed salt as t" and "(l, j) \<in> set (tree.nodes p)" and "length root_seed = SEED_LENGTH_BYTES p"
  shows "rebuilt p ind root_seed salt as (t[tree.idx p (l, j) := node_seed p root_seed salt l j])"
proof -
  let ?t = "t[tree.idx p (l, j) := node_seed p root_seed salt l j]"
  have lt: "tree.idx p (l, j) < length t"
    using assms(1) tree.idx_lt [OF assms(2)] by (simp add: rebuilt_def tree_size)
  have "?t ! tree.idx p (l', j') = (if (l', j') = (l, j) then node_seed p root_seed salt l' j' else t ! tree.idx p (l', j'))"
    if "(l', j') \<in> set (tree.nodes p)" for l' j'
    using tree.idx_inj [OF that assms(2)] lt by (auto simp: nth_list_update)
  moreover have "length x = SEED_LENGTH_BYTES p" if "x \<in> set ?t" for x
  proof -
    have "x = node_seed p root_seed salt l j \<or> x \<in> set t" using that set_update_subset_insert by fastforce
    then show ?thesis using assms(1) length_node_seed [OF assms(3)] by (auto simp: rebuilt_def)
  qed
  ultimately show ?thesis using assms(1) unfolding rebuilt_def by simp
qed

lemma put_children_lengths:
  assumes "\<forall>x\<in>set t. length x = SEED_LENGTH_BYTES p" and "length out = 2 * SEED_LENGTH_BYTES p"
  shows "\<forall>x\<in>set (put_children p t i out). length x = SEED_LENGTH_BYTES p"
proof -
  have "set (put_children p t i out)
      \<subseteq> insert (drop (SEED_LENGTH_BYTES p) out) (insert (take (SEED_LENGTH_BYTES p) out) (set t))"
    unfolding put_children_def
    using set_update_subset_insert [of "t[i := take (SEED_LENGTH_BYTES p) out]"] set_update_subset_insert [of t i] by blast
  then show ?thesis using assms by auto
qed

lemma rebuilt_visit:
  assumes t: "rebuilt p ind root_seed salt as t" and q: "(Suc l, j) \<in> set (tree.nodes p)"
    and val: "t ! tree.idx p (Suc l, j) = node_seed p root_seed salt (Suc l) j"
  defines "t' \<equiv> if (Suc l, j) \<in> set (tree.inners p)
       then put_children p t (LEFT_CHILD (tree.idx p (Suc l, j)) - tree_off p (Suc l))
              (expand_node p salt (t ! tree.idx p (Suc l, j)) (tree.idx p (Suc l, j)))
       else t"
  shows "rebuilt p ind root_seed salt (as @ [(Suc l, j)]) t'"
proof (cases "(Suc l, j) \<in> set (tree.inners p)")
  case True
  have len: "length t = NUM_NODES_TREE p" using t by (simp add: rebuilt_def)
  note put = put_children_nth [OF True len val]
  have t': "t' = put_children p t (LEFT_CHILD (tree.idx p (Suc l, j)) - tree_off p (Suc l))
              (expand_node p salt (t ! tree.idx p (Suc l, j)) (tree.idx p (Suc l, j)))"
    using True by (simp add: t'_def)
  have lens: "\<forall>x\<in>set t'. length x = SEED_LENGTH_BYTES p"
    unfolding t' by (rule put_children_lengths) (use t in \<open>simp_all add: rebuilt_def\<close>)
  have "t' ! tree.idx p (l', j') = node_seed p root_seed salt l' j'"
    if hyps: "(l', j') \<in> set (tree.nodes p)" "seed_flags p ind ! tree.idx p (l', j') = 1" "l' \<noteq> 0"
      "(l', j') \<in> set (as @ [(Suc l, j)]) \<or>
       (l' - 1, j' div 2) \<in> set (as @ [(Suc l, j)]) \<and> seed_flags p ind ! tree.idx p (l' - 1, j' div 2) = 1" for l' j'
  proof -
    consider "l' = Suc (Suc l)" "j' div 2 = j" | "(l', j') = (Suc l, j)"
      | "(l', j') \<in> set as \<or> (l' - 1, j' div 2) \<in> set as \<and> seed_flags p ind ! tree.idx p (l' - 1, j' div 2) = 1"
      using hyps(3,4) by (cases l') auto
    then show ?thesis
    proof cases
      case 1
      then show ?thesis using put(2) [OF hyps(1)] by (simp add: t')
    next
      case 2
      then show ?thesis using put(2) [OF hyps(1)] val by (simp add: t')
    next
      case 3
      then have "t ! tree.idx p (l', j') = node_seed p root_seed salt l' j'"
        using t hyps(1-3) unfolding rebuilt_def by blast
      then show ?thesis using put(2) [OF hyps(1)] by (simp add: t')
    qed
  qed
  then show ?thesis using put(1) lens unfolding rebuilt_def t' by blast
next
  case False
  have "t ! tree.idx p (l', j') = node_seed p root_seed salt l' j'"
    if hyps: "(l', j') \<in> set (tree.nodes p)" "seed_flags p ind ! tree.idx p (l', j') = 1" "l' \<noteq> 0"
      "(l', j') \<in> set (as @ [(Suc l, j)]) \<or>
       (l' - 1, j' div 2) \<in> set (as @ [(Suc l, j)]) \<and> seed_flags p ind ! tree.idx p (l' - 1, j' div 2) = 1" for l' j'
  proof -
    have "(l' - 1, j' div 2) \<noteq> (Suc l, j)" using False tree.parent_inner [of "l' - 1" j' p] hyps(1,3) by auto
    then consider "(l', j') = (Suc l, j)"
      | "(l', j') \<in> set as \<or> (l' - 1, j' div 2) \<in> set as \<and> seed_flags p ind ! tree.idx p (l' - 1, j' div 2) = 1"
      using hyps(4) by auto
    then show ?thesis using val t hyps(1-3) unfolding rebuilt_def by cases (simp, blast)
  qed
  then show ?thesis using t False unfolding rebuilt_def t'_def by simp
qed

lemma rebuilt_skip:
  assumes "rebuilt p ind root_seed salt as t" and "seed_flags p ind ! tree.idx p q \<noteq> 1"
  shows "rebuilt p ind root_seed salt (as @ [q]) t"
  using assms unfolding rebuilt_def by fastforce

lemma rebuild_node_step:
  assumes ok: "challenge_ok p ind" and len: "length root_seed = SEED_LENGTH_BYTES p"
    and q: "(Suc l, j) \<in> set (tree.nodes p)" and par: "l = 0 \<or> (l, j div 2) \<in> set as"
    and t: "rebuilt p ind root_seed salt as t"
    and load: "revealed p ind (Suc l, j) \<Longrightarrow>
       load_at (n * SEED_LENGTH_BYTES p) (SEED_LENGTH_BYTES p) stored = Some (node_seed p root_seed salt (Suc l) j)"
  shows "\<exists>t'. rebuild_node p (seed_flags p ind) stored salt (t, n) (Suc l, j, tree.idx p (Suc l, j))
          = Some (t', if revealed p ind (Suc l, j) then n + 1 else n) \<and> rebuilt p ind root_seed salt (as @ [(Suc l, j)]) t'"
proof -
  let ?i = "tree.idx p (Suc l, j)" and ?F = "seed_flags p ind"
  let ?t = "if revealed p ind (Suc l, j) then t[?i := node_seed p root_seed salt (Suc l) j] else t"
  have parent: "parent_node p (Suc l) ?i = tree.idx p (l, j div 2)"
    using tree.parent_idx [OF q] by (simp add: parent_node_def)
  have rev: "revealed p ind (Suc l, j) \<longleftrightarrow> ?F ! ?i = 1 \<and> ?F ! parent_node p (Suc l) ?i = 0"
    by (simp add: revealed_def parent)
  have inner: "j < tree_npl p (Suc l) - tree_lpl p (Suc l) \<longleftrightarrow> (Suc l, j) \<in> set (tree.inners p)"
    using tree.lpl_H [of p] q by (cases "Suc l = tree_height p") (auto simp: tree.in_inners tree.in_nodes tree.inner_def)
  have t1: "rebuilt p ind root_seed salt as ?t"
    using t rebuilt_load [OF t q len] by simp
  have step: "rebuild_node p ?F stored salt (t, n) (Suc l, j, ?i) =
      Some (if ?F ! ?i = 1 \<and> (Suc l, j) \<in> set (tree.inners p)
            then put_children p ?t (LEFT_CHILD ?i - tree_off p (Suc l)) (expand_node p salt (?t ! ?i) ?i) else ?t,
            if revealed p ind (Suc l, j) then n + 1 else n)"
    using load unfolding rebuild_node_def split_conv rev [symmetric] inner by (simp split: if_splits)
  show ?thesis
  proof (cases "?F ! ?i = 1")
    case True
    have "?t ! ?i = node_seed p root_seed salt (Suc l) j"
    proof (cases "revealed p ind (Suc l, j)")
      case True
      then show ?thesis using t tree.idx_lt [OF q] by (simp add: rebuilt_def tree_size)
    next
      case False
      have flag: "?F ! tree.idx p (l, j div 2) = 1"
        using False True seed_flags(2) [OF _ tree.parent_inner [OF q]] ok
        by (auto simp: rev parent challenge_ok_def split: if_splits)
      have "l \<noteq> 0"
      proof
        assume "l = 0"
        then have "(l, j div 2) = (0, 0)"
          using tree.inners_nodes [OF tree.parent_inner [OF q]] tree.npl_0 [of p] by (simp add: tree.in_nodes)
        then show False using flag root_hidden [OF ok] by simp
      qed
      with flag show ?thesis using t q True par False by (simp add: rebuilt_def)
    qed
    from rebuilt_visit [OF t1 q this] True step show ?thesis by (auto split: if_splits)
  next
    case False
    then have "\<not> revealed p ind (Suc l, j)" by (simp add: rev)
    with rebuilt_skip [OF t, of "(Suc l, j)"] False step show ?thesis by auto
  qed
qed

lemma or_all_zero: "foldl (\<lambda>e i. e OR xs ! i) (0 :: byte) is = 0" if "\<forall>i\<in>set is. xs ! i = 0"
  using that by (induction "is" rule: rev_induct) auto

lemma rebuild_tree_ok:
  fixes p ind root_seed salt
  defines "shown \<equiv> filter (revealed p ind) (tl (tree.nodes p))"
  defines "stored \<equiv> concat (map (\<lambda>q. node_seed p root_seed salt (fst q) (snd q)) shown)
             @ replicate (TREE_NODES_TO_STORE (tabs p) * SEED_LENGTH_BYTES p - length shown * SEED_LENGTH_BYTES p) 0"
  assumes ok: "challenge_ok p ind" and len: "length root_seed = SEED_LENGTH_BYTES p"
  shows "\<exists>t. rebuild_tree p (replicate (NUM_NODES_TREE p) (replicate (SEED_LENGTH_BYTES p) 0)) ind stored salt = Some (t, True)
           \<and> rebuilt p ind root_seed salt (tl (tree.nodes p)) t"
proof -
  let ?val = "\<lambda>q. node_seed p root_seed salt (fst q) (snd q)"
  let ?init = "replicate (NUM_NODES_TREE p) (replicate (SEED_LENGTH_BYTES p) (0 :: byte))"
  let ?f = "\<lambda>s q. rebuild_node p (seed_flags p ind) stored salt s (fst q, snd q, tree.idx p q)"
  have vals: "length (concat (map ?val (filter (revealed p ind) qs))) = length (filter (revealed p ind) qs) * SEED_LENGTH_BYTES p" for qs
    by (rule length_concat_const) (simp add: length_node_seed [OF len])
  have "\<exists>t. foldM ?f (?init, 0) (tl (tree.nodes p)) = Some (t, length (filter (revealed p ind) (tl (tree.nodes p))))
      \<and> rebuilt p ind root_seed salt (tl (tree.nodes p)) t"
  proof (induction rule: tree.down_induct)
    case 1
    then show ?case by (simp add: rebuilt_def)
  next
    case (2 as l j bs)
    from 2(6) obtain t where IH: "foldM ?f (?init, 0) as = Some (t, length (filter (revealed p ind) as))"
      "rebuilt p ind root_seed salt as t" by blast
    have "load_at (length (filter (revealed p ind) as) * SEED_LENGTH_BYTES p) (SEED_LENGTH_BYTES p) stored
        = Some (node_seed p root_seed salt (Suc l) j)" if "revealed p ind (Suc l, j)"
      unfolding stored_def shown_def 2(1) using that
      by (simp add: vals length_node_seed [OF len] load_append del: node_seed.simps)
    from rebuild_node_step [OF ok len 2(2) 2(5) IH(2) this] show ?case
      by (auto simp: foldM_snoc [OF IH(1)] split: if_splits)
  qed
  then obtain t where t: "foldM ?f (?init, 0) (tl (tree.nodes p)) = Some (t, length shown)"
      "rebuilt p ind root_seed salt (tl (tree.nodes p)) t" unfolding shown_def by blast
  have "stored ! i = 0" if "length shown * SEED_LENGTH_BYTES p \<le> i" "i < TREE_NODES_TO_STORE (tabs p) * SEED_LENGTH_BYTES p" for i
    using that vals [of "tl (tree.nodes p)"] by (simp add: stored_def shown_def nth_append)
  then have "foldl (\<lambda>error i. error OR stored ! i) 0
      [length shown * SEED_LENGTH_BYTES p..<TREE_NODES_TO_STORE (tabs p) * SEED_LENGTH_BYTES p] = 0"
    by (intro or_all_zero) simp
  with t(2) show ?thesis
    unfolding rebuild_tree_def Let_def seed_flags_def [symmetric] tree.level_nodes_all foldM_map t(1) by simp
qed

section \<open>The build without trees\<close>

lemma remainders_cases:
  obtains a b c where "remainders p = [a, b, c, 0]" and "a \<le> 1" "b \<le> 1" "c \<le> 1"
    and "4 * (par_T p div 4) + a + b + c = par_T p"
proof -
  define r where "r = par_T p mod 4"
  have T: "4 * (par_T p div 4) + r = par_T p" by (simp add: r_def)
  have "r < 4" by (simp add: r_def)
  then consider "r = 0" | "r = 1" | "r = 2" | "r = 3" by linarith
  then show thesis
    by cases (use that [of 0 0 0] that [of 1 0 0] that [of 1 1 0] that [of 1 1 1] T in
      \<open>simp_all add: remainders_def Let_def r_def [symmetric]\<close>)
qed

definition quad_seed :: "cross_params \<Rightarrow> bytes \<Rightarrow> bytes \<Rightarrow> bytes" where
  "quad_seed p root_seed salt =
     fst (csprng_randombytes p (4 * SEED_LENGTH_BYTES p) (csprng_initialize p (root_seed @ salt) CSPRNG_DOMAIN_SEP_CONST))"

definition quarter :: "cross_params \<Rightarrow> bytes \<Rightarrow> bytes \<Rightarrow> nat \<Rightarrow> bytes" where
  \<comment> \<open>the seeds of the \<open>i\<close>-th quarter of the rounds\<close>
  "quarter p root_seed salt i =
     fst (csprng_randombytes p ((par_T p div 4 + remainders p ! i) * SEED_LENGTH_BYTES p)
            (csprng_initialize p (read_at (i * SEED_LENGTH_BYTES p) (SEED_LENGTH_BYTES p) (quad_seed p root_seed salt) @ salt)
               (CSPRNG_DOMAIN_SEP_CONST + (i + 1))))"

lemma length_quarter: "i < 4 \<Longrightarrow> length (quarter p root_seed salt i) = (par_T p div 4 + remainders p ! i) * SEED_LENGTH_BYTES p"
proof -
  assume "i < 4"
  then have i: "i = 0 \<or> i = 1 \<or> i = 2 \<or> i = 3" by linarith
  obtain a b c where r: "remainders p = [a, b, c, 0]" "a \<le> 1" "b \<le> 1" "c \<le> 1" by (rule remainders_cases)
  have "par_T p div 4 + remainders p ! i \<le> 209" using par_T_le [of p] r i by auto
  then have "(par_T p div 4 + remainders p ! i) * SEED_LENGTH_BYTES p \<le> 209 * 32"
    using SEED_LENGTH_bounds [of p] by (intro mult_le_mono) auto
  then show ?thesis by (simp add: quarter_def length_csprng_randombytes)
qed

lemma seed_leaves_no_trees_eq:
  "seed_leaves_no_trees p root_seed salt = (concat (map (quarter p root_seed salt) [0..<4]), par_T p)"
proof -
  let ?Q = "quarter p root_seed salt" and ?SL = "SEED_LENGTH_BYTES p" and ?q = "par_T p div 4"
  obtain a b c where r: "remainders p = [a, b, c, 0]" "4 * ?q + a + b + c = par_T p" by (rule remainders_cases)
  have upt: "[0..<4] = [0, 1, 2, 3 :: nat]" by (simp add: upt_rec)
  have len: "length (?Q 0) = (?q + a) * ?SL" "length (?Q 1) = (?q + b) * ?SL" "length (?Q 2) = (?q + c) * ?SL"
      "length (?Q 3) = ?q * ?SL"
    using length_quarter [of 0 p] length_quarter [of 1 p] length_quarter [of 2 p] length_quarter [of 3 p] by (simp_all add: r)
  define buf where "buf = replicate (par_T p * ?SL) (0 :: byte)"
  have bufl: "length buf = (?q + ?q + ?q + ?q + a + b + c) * ?SL" using r by (simp add: buf_def)
  have w0: "write_at 0 (?Q 0) buf = ?Q 0 @ drop ((?q + a) * ?SL) buf"
    using write_at_append [of 0 "[]" "?Q 0" buf] by (simp add: len)
  have w1: "write_at ((?q + a) * ?SL) (?Q 1) (?Q 0 @ drop ((?q + a) * ?SL) buf) = ?Q 0 @ ?Q 1 @ drop ((?q + ?q + a + b) * ?SL) buf"
    by (subst write_at_append) (simp_all add: len drop_add algebra_simps del: One_nat_def)
  have w2: "write_at ((?q + ?q + a + b) * ?SL) (?Q 2) (?Q 0 @ ?Q 1 @ drop ((?q + ?q + a + b) * ?SL) buf)
      = ?Q 0 @ ?Q 1 @ ?Q 2 @ drop ((?q + ?q + ?q + a + b + c) * ?SL) buf"
    using write_at_append [of "(?q + ?q + a + b) * ?SL" "?Q 0 @ ?Q 1" "?Q 2" "drop ((?q + ?q + a + b) * ?SL) buf"]
    by (simp add: len drop_add algebra_simps del: One_nat_def)
  have w3: "write_at ((?q + ?q + ?q + a + b + c) * ?SL) (?Q 3) (?Q 0 @ ?Q 1 @ ?Q 2 @ drop ((?q + ?q + ?q + a + b + c) * ?SL) buf)
      = ?Q 0 @ ?Q 1 @ ?Q 2 @ ?Q 3"
    using write_at_append [of "(?q + ?q + ?q + a + b + c) * ?SL" "?Q 0 @ ?Q 1 @ ?Q 2" "?Q 3" "drop ((?q + ?q + ?q + a + b + c) * ?SL) buf"]
    by (simp add: len bufl drop_add algebra_simps del: One_nat_def)
  define f where "f = (\<lambda>(rounds_seeds, offset, dsc_counter) i.
      (write_at ((?q * i + offset) * ?SL)
         (fst (csprng_randombytes p ((?q + remainders p ! i) * ?SL)
            (csprng_initialize p (read_at (i * ?SL) ?SL (quad_seed p root_seed salt) @ salt)
               (CSPRNG_DOMAIN_SEP_CONST + (dsc_counter + 1))))) rounds_seeds,
       offset + remainders p ! i, dsc_counter + 1))"
  have step: "f (s, off, i) i = (write_at ((?q * i + off) * ?SL) (?Q i) s, off + remainders p ! i, i + 1)" for s off i
    by (simp add: f_def quarter_def)
  have 0: "f (buf, 0, 0) 0 = (?Q 0 @ drop ((?q + a) * ?SL) buf, a, 1)"
    using w0 step [of buf 0 0] by (simp add: r(1))
  have 1: "f (?Q 0 @ drop ((?q + a) * ?SL) buf, a, 1) 1 = (?Q 0 @ ?Q 1 @ drop ((?q + ?q + a + b) * ?SL) buf, a + b, 2)"
    using w1 by (simp only: step) (simp add: r(1))
  have at: "?q * 2 + (a + b) = ?q + ?q + a + b" "?q * 3 + (a + b + c) = ?q + ?q + ?q + a + b + c" by simp_all
  have 2: "f (?Q 0 @ ?Q 1 @ drop ((?q + ?q + a + b) * ?SL) buf, a + b, 2) 2
      = (?Q 0 @ ?Q 1 @ ?Q 2 @ drop ((?q + ?q + ?q + a + b + c) * ?SL) buf, a + b + c, 3)"
    unfolding step at w2 by (simp add: r(1))
  have 3: "fst (f (?Q 0 @ ?Q 1 @ ?Q 2 @ drop ((?q + ?q + ?q + a + b + c) * ?SL) buf, a + b + c, 3) 3) = ?Q 0 @ ?Q 1 @ ?Q 2 @ ?Q 3"
    unfolding step at w3 by simp
  have "foldl f (buf, 0, 0) [0..<4] = f (f (f (f (buf, 0, 0) 0) 1) 2) 3" by (simp only: upt foldl.simps)
  then have "fst (foldl f (buf, 0, 0) [0..<4]) = ?Q 0 @ ?Q 1 @ ?Q 2 @ ?Q 3" by (simp only: 0 1 2 3)
  then have "fst (foldl f (buf, 0, 0) [0..<4]) = concat (map ?Q [0..<4])" by (simp add: upt)
  then show ?thesis
    by (simp add: seed_leaves_no_trees_def Let_def split_beta buf_def f_def quad_seed_def)
qed

lemma length_round_seeds_no_trees: "length (fst (seed_leaves_no_trees p root_seed salt)) = par_T p * SEED_LENGTH_BYTES p"
proof -
  obtain a b c where r: "remainders p = [a, b, c, 0]" "4 * (par_T p div 4) + a + b + c = par_T p" by (rule remainders_cases)
  have upt: "[0..<4] = [0, 1, 2, 3 :: nat]" by (simp add: upt_rec)
  have "length (fst (seed_leaves_no_trees p root_seed salt)) = (4 * (par_T p div 4) + a + b + c) * SEED_LENGTH_BYTES p"
    using length_quarter [of 0 p] length_quarter [of 1 p] length_quarter [of 2 p] length_quarter [of 3 p]
    by (simp add: seed_leaves_no_trees_eq upt r(1) algebra_simps)
  then show ?thesis by (simp only: r(2))
qed

lemma filter_upt_nth: "length (filter (\<lambda>i. P (xs ! i)) [0..<length xs]) = length (filter P xs)"
proof -
  have "length (filter P (map ((!) xs) [0..<length xs])) = length (filter (\<lambda>i. P (xs ! i)) [0..<length xs])"
    by (simp only: filter_map length_map comp_def)
  then show ?thesis by (simp add: map_nth)
qed

lemma seed_path_no_trees_store:
  assumes ok: "challenge_ok p ind" and len: "length rs = par_T p * SEED_LENGTH_BYTES p"
    and st: "length st = par_W p * SEED_LENGTH_BYTES p"
  shows "seed_path_no_trees p st rs ind =
     Some (concat (map (\<lambda>i. read_at (i * SEED_LENGTH_BYTES p) (SEED_LENGTH_BYTES p) rs)
              (filter (\<lambda>i. ind ! i = 1) [0..<par_T p])), par_W p)"
proof -
  have n: "length (filter (\<lambda>i. ind ! i = 1) [0..<par_T p]) = par_W p"
    using filter_upt_nth [of "\<lambda>x. x = 1" ind] ok by (simp add: challenge_ok_def)
  have "seed_path_no_trees p st rs ind =
     Some (concat (map (\<lambda>i. read_at (i * SEED_LENGTH_BYTES p) (SEED_LENGTH_BYTES p) rs)
              (filter (\<lambda>i. ind ! i = 1) [0..<par_T p]))
           @ drop (length (filter (\<lambda>i. ind ! i = 1) [0..<par_T p]) * SEED_LENGTH_BYTES p) st,
           length (filter (\<lambda>i. ind ! i = 1) [0..<par_T p]))"
    unfolding seed_path_no_trees_def
  proof (rule foldM_stores)
    show "length (filter (\<lambda>i. ind ! i = 1) [0..<par_T p]) * SEED_LENGTH_BYTES p \<le> length st" by (simp only: n st)
    show "length (read_at (i * SEED_LENGTH_BYTES p) (SEED_LENGTH_BYTES p) rs) = SEED_LENGTH_BYTES p"
      if "i \<in> set [0..<par_T p]" for i
      using that slot_end [of i "par_T p" "SEED_LENGTH_BYTES p"] len by simp
  qed
  then show ?thesis unfolding n by (simp add: st)
qed

lemma loads_slots:
  assumes len: "length buf = n * w" and val: "\<And>i. i < n \<Longrightarrow> sel i \<Longrightarrow> length (val i) = w"
  shows "\<exists>r. foldM (\<lambda>(buf, m) i. if sel i
              then (case load_at (m * w) w (concat (map val (filter sel [0..<n])) @ rest) of
                      None \<Rightarrow> None | Some x \<Rightarrow> Some (write_at (i * w) x buf, m + 1))
              else Some (buf, m)) (buf, 0) [0..<n] = Some (r, length (filter sel [0..<n]))
       \<and> length r = n * w \<and> (\<forall>i<n. sel i \<longrightarrow> read_at (i * w) w r = val i)"
proof -
  let ?f = "\<lambda>(buf, m) i. if sel i
              then (case load_at (m * w) w (concat (map val (filter sel [0..<n])) @ rest) of
                      None \<Rightarrow> None | Some x \<Rightarrow> Some (write_at (i * w) x buf, m + 1))
              else Some (buf, m)"
  have vals: "length (concat (map val (filter sel is))) = length (filter sel is) * w" if "set is \<subseteq> {..<n}" for "is"
    by (rule length_concat_const) (use that val in auto)
  let ?P = "\<lambda>as. \<exists>r. foldM ?f (buf, 0) as = Some (r, length (filter sel as))
       \<and> length r = n * w \<and> (\<forall>i\<in>set as. sel i \<longrightarrow> read_at (i * w) w r = val i)"
  have "?P [0..<n]"
  proof (rule prefix_induct [where xs = "[0..<n]" and P = ?P])
    show "?P []" using len by simp
  next
    fix as i bs
    assume split: "[0..<n] = as @ i # bs"
      and "?P as"
    then obtain r where r: "foldM ?f (buf, 0) as = Some (r, length (filter sel as))" "length r = n * w"
      "\<forall>i\<in>set as. sel i \<longrightarrow> read_at (i * w) w r = val i" by blast
    have i: "i < n" "set as \<subseteq> {..<n}"
      using split by (metis atLeastLessThan_iff in_set_conv_decomp set_upt) (use split in \<open>metis atLeast0LessThan le_sup_iff set_append set_upt sup_ge1\<close>)
    have "i \<notin> set as" using split by (metis distinct_append distinct_upt disjoint_iff list.set_intros(1))
    show "?P (as @ [i])"
    proof (cases "sel i")
      case True
      have load: "load_at (length (filter sel as) * w) w (concat (map val (filter sel [0..<n])) @ rest) = Some (val i)"
        unfolding split using True vals [OF i(2)] val [OF i(1) True] by (simp add: load_append)
      have "read_at (k * w) w (write_at (i * w) (val i) r) = val k" if "k \<in> set (as @ [i])" "sel k" for k
      proof -
        have "k < n" using that(1) i by auto
        then show ?thesis using read_write_slot [OF _ i(1) val [OF i(1) True] r(2), of k] that r(3) by auto
      qed
      moreover have "length (write_at (i * w) (val i) r) = n * w"
        using r(2) val [OF i(1) True] slot_end [OF i(1), of w] by simp
      ultimately show ?thesis using True load by (simp add: foldM_snoc [OF r(1)])
    next
      case False
      then show ?thesis using r by (simp add: foldM_snoc [OF r(1)])
    qed
  qed
  then show ?thesis by (simp only: set_upt atLeast0LessThan lessThan_iff Ball_def)
qed

section \<open>The interface to the scheme\<close>

locale seed_release =
  fixes n w cap :: nat and ok :: "nat list \<Rightarrow> bool"
    and commit :: "bytes \<Rightarrow> bytes \<Rightarrow> 't" and leaves :: "'t \<Rightarrow> bytes"
    and path :: "bytes \<Rightarrow> 't \<Rightarrow> nat list \<Rightarrow> (bytes \<times> nat) option"
    and rebuild :: "nat list \<Rightarrow> bytes \<Rightarrow> bytes \<Rightarrow> (bytes \<times> bool) option"
  assumes leaves_length: "length root = w \<Longrightarrow> length (leaves (commit root salt)) = n * w"
    and path_fits: "ok ind \<Longrightarrow> length root = w \<Longrightarrow>
       \<exists>st m. path (replicate (cap * w) 0) (commit root salt) ind = Some (st, m) \<and> length st = cap * w"
    and path_rebuilds: "ok ind \<Longrightarrow> length root = w \<Longrightarrow>
       path (replicate (cap * w) 0) (commit root salt) ind = Some (st, m) \<Longrightarrow>
       \<exists>r. rebuild ind st salt = Some (r, True) \<and> length r = n * w
         \<and> (\<forall>i<n. ind ! i = 1 \<longrightarrow> read_at (i * w) w r = read_at (i * w) w (leaves (commit root salt)))"
begin

lemma released:
  assumes "ok ind" and "length root = w"
  obtains st m r where "path (replicate (cap * w) 0) (commit root salt) ind = Some (st, m)"
    and "length st = cap * w" and "rebuild ind st salt = Some (r, True)" and "length r = n * w"
    and "\<And>i. i < n \<Longrightarrow> ind ! i = 1 \<Longrightarrow> read_at (i * w) w r = read_at (i * w) w (leaves (commit root salt))"
  using path_fits [OF assms] path_rebuilds [OF assms] by metis

end

interpretation plain_seeds: seed_release "par_T p" "SEED_LENGTH_BYTES p" "par_W p" "challenge_ok p"
  "\<lambda>root salt. fst (seed_leaves_no_trees p root salt)" "\<lambda>rs. rs" "seed_path_no_trees p"
  "\<lambda>ind st salt. rebuild_leaves p (replicate (par_T p * SEED_LENGTH_BYTES p) 0) ind st" for p
proof
  let ?SL = "SEED_LENGTH_BYTES p"
  show "length (fst (seed_leaves_no_trees p root salt)) = par_T p * ?SL" for root salt
    by (rule length_round_seeds_no_trees)
  fix ind :: "nat list" and root salt :: bytes
  let ?rs = "fst (seed_leaves_no_trees p root salt)"
  let ?val = "\<lambda>i. read_at (i * ?SL) ?SL ?rs" and ?sel = "\<lambda>i. ind ! i = 1"
  assume ok: "challenge_ok p ind"
  note path = seed_path_no_trees_store [OF ok length_round_seeds_no_trees [of p root salt],
      of "replicate (par_W p * ?SL) 0", simplified length_replicate]
  have val: "length (?val i) = ?SL" if "i < par_T p" for i
    using slot_end [OF that, of ?SL] length_round_seeds_no_trees [of p root salt] by simp
  have n: "length (filter ?sel [0..<par_T p]) = par_W p"
    using filter_upt_nth [of "\<lambda>x. x = 1" ind] ok by (simp add: challenge_ok_def)
  have "length (concat (map ?val (filter ?sel [0..<par_T p]))) = par_W p * ?SL"
    unfolding n [symmetric] by (rule length_concat_const) (simp add: val)
  then show "\<exists>st m. seed_path_no_trees p (replicate (par_W p * ?SL) 0) ?rs ind = Some (st, m) \<and> length st = par_W p * ?SL"
    using path by simp
  fix st m
  assume "seed_path_no_trees p (replicate (par_W p * ?SL) 0) ?rs ind = Some (st, m)"
  then have st: "st = concat (map ?val (filter ?sel [0..<par_T p])) @ []" using path by simp
  show "\<exists>r. rebuild_leaves p (replicate (par_T p * ?SL) 0) ind st = Some (r, True) \<and> length r = par_T p * ?SL
         \<and> (\<forall>i<par_T p. ind ! i = 1 \<longrightarrow> read_at (i * ?SL) ?SL r = read_at (i * ?SL) ?SL ?rs)"
    using loads_slots [of "replicate (par_T p * ?SL) 0" "par_T p" ?SL ?sel ?val "[]"] val
    unfolding rebuild_leaves_def st by fastforce
qed

interpretation tree_seeds: seed_release "par_T p" "SEED_LENGTH_BYTES p" "TREE_NODES_TO_STORE (tabs p)" "challenge_ok p"
  "gen_seed_tree p (replicate (NUM_NODES_TREE p) (replicate (SEED_LENGTH_BYTES p) 0))" "seed_leaves p" "seed_path p"
  "\<lambda>ind st salt. map_option (\<lambda>(t, b). (seed_leaves p t, b))
      (rebuild_tree p (replicate (NUM_NODES_TREE p) (replicate (SEED_LENGTH_BYTES p) 0)) ind st salt)" for p
proof
  let ?SL = "SEED_LENGTH_BYTES p" and ?init = "replicate (NUM_NODES_TREE p) (replicate (SEED_LENGTH_BYTES p) (0 :: byte))"
  have slots: "length (seed_leaves p t) = par_T p * ?SL"
    "i < par_T p \<Longrightarrow> read_at (i * ?SL) ?SL (seed_leaves p t) = t ! tree.idx p (tree.leafpos p ! i)"
    if lens: "\<And>q. q \<in> set (tree.leafpos p) \<Longrightarrow> length (t ! tree.idx p q) = ?SL" for t i
  proof -
    have eq: "seed_leaves p t = concat (map (\<lambda>q. t ! tree.idx p q) (tree.leafpos p))"
      by (simp add: seed_leaves_def tree.leaves_idx comp_def)
    then show "length (seed_leaves p t) = par_T p * ?SL"
      using length_concat_const [of "tree.leafpos p" "\<lambda>q. t ! tree.idx p q" ?SL] lens by simp
    have "chunks ?SL (length (map (\<lambda>q. t ! tree.idx p q) (tree.leafpos p)))
        (concat (map (\<lambda>q. t ! tree.idx p q) (tree.leafpos p)) @ []) = map (\<lambda>q. t ! tree.idx p q) (tree.leafpos p)"
      by (rule chunks_concat) (use lens in auto)
    then show "i < par_T p \<Longrightarrow> read_at (i * ?SL) ?SL (seed_leaves p t) = t ! tree.idx p (tree.leafpos p ! i)"
      using nth_chunks [of i "par_T p" ?SL "seed_leaves p t"] by (simp add: eq read_at_def)
  qed
  fix root salt :: bytes
  assume len: "length root = ?SL"
  let ?t = "gen_seed_tree p ?init root salt"
  note nodes = gen_seed_tree_nodes(2) [of _ _ p root salt]
  have leaf: "?t ! tree.idx p q = node_seed p root salt (fst q) (snd q)" if "q \<in> set (tree.leafpos p)" for q
    using nodes [of "fst q" "snd q"] tree.leafpos_nodes [OF that] by simp
  then have lens: "length (?t ! tree.idx p q) = ?SL" if "q \<in> set (tree.leafpos p)" for q
    using that by (simp add: length_node_seed [OF len])
  show "length (seed_leaves p ?t) = par_T p * ?SL" by (rule slots(1) [OF lens])
  fix ind :: "nat list"
  assume ok: "challenge_ok p ind"
  let ?st = "replicate (TREE_NODES_TO_STORE (tabs p) * ?SL) (0 :: byte)"
    and ?shown = "filter (revealed p ind) (tl (tree.nodes p))"
  have path: "seed_path p ?st ?t ind =
     Some (concat (map (\<lambda>q. node_seed p root salt (fst q) (snd q)) ?shown) @ drop (length ?shown * ?SL) ?st, length ?shown)"
    by (rule seed_path_store [OF ok len]) (simp_all add: nodes)
  have cap: "length (concat (map (\<lambda>q. node_seed p root salt (fst q) (snd q)) ?shown)) = length ?shown * ?SL"
    by (rule length_concat_const) (simp add: length_node_seed [OF len])
  have "length ?shown * ?SL \<le> TREE_NODES_TO_STORE (tabs p) * ?SL" by (rule mult_le_mono1 [OF revealed_capacity [OF ok]])
  then show "\<exists>st m. seed_path p ?st ?t ind = Some (st, m) \<and> length st = TREE_NODES_TO_STORE (tabs p) * ?SL"
    unfolding path by (simp add: cap)
  fix st m
  assume "seed_path p ?st ?t ind = Some (st, m)"
  then have st: "st = concat (map (\<lambda>q. node_seed p root salt (fst q) (snd q)) ?shown)
        @ replicate (TREE_NODES_TO_STORE (tabs p) * ?SL - length ?shown * ?SL) 0"
    unfolding path by auto
  obtain t where t: "rebuild_tree p ?init ind st salt = Some (t, True)" "rebuilt p ind root salt (tl (tree.nodes p)) t"
    using rebuild_tree_ok [OF ok len, of salt] unfolding st by blast
  have tl: "length (t ! tree.idx p q) = ?SL" if "q \<in> set (tree.leafpos p)" for q
    using t(2) tree.idx_lt [OF tree.leafpos_nodes [OF that]] by (simp add: rebuilt_def tree_size)
  have "t ! tree.idx p (tree.leafpos p ! i) = ?t ! tree.idx p (tree.leafpos p ! i)" if i: "i < par_T p" "ind ! i = 1" for i
  proof -
    obtain l j where q: "tree.leafpos p ! i = (l, j)" by (cases "tree.leafpos p ! i")
    have mem: "(l, j) \<in> set (tree.leafpos p)" using i(1) q by (metis length_leafpos nth_mem)
    have flag: "seed_flags p ind ! tree.idx p (l, j) = 1"
      using seed_flags(3) [OF _ i(1), of ind] ok i(2) q by (simp add: challenge_ok_def)
    have "l \<noteq> 0"
      using root_hidden [OF ok] flag tree.leafpos_nodes [OF mem] tree.npl_0 [of p] by (cases l) (auto simp: tree.in_nodes)
    then have "(l, j) \<in> set (tl (tree.nodes p))" using tree.leafpos_nodes [OF mem] by (simp add: tree.in_tl_nodes)
    then show ?thesis using t(2) flag \<open>l \<noteq> 0\<close> tree.leafpos_nodes [OF mem] leaf [OF mem] unfolding q rebuilt_def by simp
  qed
  then show "\<exists>r. map_option (\<lambda>(t, b). (seed_leaves p t, b)) (rebuild_tree p ?init ind st salt) = Some (r, True)
         \<and> length r = par_T p * ?SL
         \<and> (\<forall>i<par_T p. ind ! i = 1 \<longrightarrow> read_at (i * ?SL) ?SL r = read_at (i * ?SL) ?SL (seed_leaves p ?t))"
    using t(1) slots [OF tl] slots [OF lens] by simp
qed

end
