(* ===== verification/Merkle.thy ===== *)
theory Merkle
  imports Seed_Tree
begin

text \<open>
  The commitment to the first halves of the rounds (\<open>lib/merkle.c\<close>), for both
  builds: with \<open>NO_TREES\<close> a two-level hash of the digests, otherwise a Merkle
  tree over the shape of \<open>Tree_Shape\<close>. A tree is the list of its nodes, a proof
  is the flat buffer of the signature, and an access outside the proof buffer is
  \<open>None\<close>. The tree of \<open>recompute_root\<close> is not initialised by the code: its first
  contents are an argument of the model.

  The nodes are specified by the recursion \<open>merkle_node\<close>; the locale
  \<open>commitment\<close> states what signer and verifier rely on, and both builds are
  interpretations of it.
\<close>

abbreviation (input) NOT_COMPUTED :: nat where "NOT_COMPUTED \<equiv> 0"
abbreviation (input) COMPUTED :: nat where "COMPUTED \<equiv> 1"
abbreviation (input) CHALLENGE_PROOF_VALUE :: nat where "CHALLENGE_PROOF_VALUE \<equiv> 0"

section \<open>The code without trees\<close>

definition tree_root_no_trees :: "cross_params \<Rightarrow> bytes list \<Rightarrow> bytes" where
  "tree_root_no_trees p leaves =
     (let HL = HASH_DIGEST_LENGTH p;
          (hash_input, offset) =
            foldl (\<lambda>(hash_input, offset) i.
                (write_at (i * HL)
                   (hash p (concat (read_at ((par_T p div 4) * i + offset) (par_T p div 4 + remainders p ! i) leaves))
                      HASH_DOMAIN_SEP_CONST) hash_input,
                 offset + remainders p ! i))
              (replicate (4 * HL) 0, 0) [0..<4]
      in hash p hash_input HASH_DOMAIN_SEP_CONST)"

definition tree_proof_no_trees :: "cross_params \<Rightarrow> bytes \<Rightarrow> bytes list \<Rightarrow> nat list \<Rightarrow> (bytes \<times> nat) option" where
  "tree_proof_no_trees p mtp leaves leaves_to_reveal =
     foldM (\<lambda>(mtp, published) i.
         if leaves_to_reveal ! i = TO_PUBLISH
         then (case store_at (published * HASH_DIGEST_LENGTH p) (leaves ! i) mtp of
                 None \<Rightarrow> None | Some mtp \<Rightarrow> Some (mtp, published + 1))
         else Some (mtp, published))
       (mtp, 0) [0..<par_T p]"

definition recompute_root_no_trees ::
  "cross_params \<Rightarrow> bytes list \<Rightarrow> bytes \<Rightarrow> nat list \<Rightarrow> (bytes \<times> bytes list \<times> bool) option" where
  "recompute_root_no_trees p recomputed_leaves mtp leaves_to_reveal =
     (case foldM (\<lambda>(recomputed_leaves, published) i.
              if leaves_to_reveal ! i = TO_PUBLISH
              then (case load_at (published * HASH_DIGEST_LENGTH p) (HASH_DIGEST_LENGTH p) mtp of
                      None \<Rightarrow> None | Some digest \<Rightarrow> Some (recomputed_leaves[i := digest], published + 1))
              else Some (recomputed_leaves, published))
            (recomputed_leaves, 0) [0..<par_T p] of
        None \<Rightarrow> None
      | Some (recomputed_leaves, published) \<Rightarrow>
          Some (tree_root_no_trees p recomputed_leaves, recomputed_leaves, True))"

section \<open>The code with trees\<close>

definition place_cmt_on_leaves :: "cross_params \<Rightarrow> bytes list \<Rightarrow> bytes list \<Rightarrow> bytes list" where
  "place_cmt_on_leaves p merkle_tree commitments =
     foldl (\<lambda>merkle_tree (leaf, cmt). merkle_tree[leaf := cmt]) merkle_tree (zip (leaf_indices p) commitments)"

definition merkle_label_leaves :: "cross_params \<Rightarrow> nat list \<Rightarrow> nat list \<Rightarrow> nat list" where
  "merkle_label_leaves p flag_tree challenge =
     foldl (\<lambda>flag_tree (leaf, ch). if ch = CHALLENGE_PROOF_VALUE then flag_tree[leaf := COMPUTED] else flag_tree)
       flag_tree (zip (leaf_indices p) challenge)"

definition merkle_pairs :: "cross_params \<Rightarrow> (nat \<times> nat) list" where
  "merkle_pairs p = level_pairs (tree_npl p) (rev [1..<Suc (tree_height p)]) (TREE_LEAVES_START_INDICES (tabs p) ! 0)"

definition tree_root :: "cross_params \<Rightarrow> bytes list \<Rightarrow> bytes list \<Rightarrow> bytes \<times> bytes list" where
  "tree_root p tree leaves =
     (let tree = foldl (\<lambda>tree (level, current_node).
              tree[parent_node p level current_node :=
                     hash p (tree ! current_node @ tree ! (current_node + 1)) HASH_DOMAIN_SEP_CONST])
            (place_cmt_on_leaves p tree leaves) (merkle_pairs p)
      in (tree ! 0, tree))"

definition publish_node :: "cross_params \<Rightarrow> bool \<Rightarrow> bytes \<Rightarrow> bytes \<times> nat \<Rightarrow> (bytes \<times> nat) option" where
  "publish_node p wanted node = (\<lambda>(mtp, published).
     if wanted
     then (case store_at (published * HASH_DIGEST_LENGTH p) node mtp of
             None \<Rightarrow> None | Some mtp \<Rightarrow> Some (mtp, published + 1))
     else Some (mtp, published))"

definition proof_pair ::
  "cross_params \<Rightarrow> bytes list \<Rightarrow> nat list \<times> bytes \<times> nat \<Rightarrow> nat \<times> nat \<Rightarrow> (nat list \<times> bytes \<times> nat) option" where
  "proof_pair p tree = (\<lambda>(flag_tree, mtp, published) (level, current_node).
     let flag_tree = flag_tree[parent_node p level current_node :=
            (if flag_tree ! current_node = COMPUTED \<or> flag_tree ! SIBLING current_node = COMPUTED then 1 else 0)]
     in case publish_node p (flag_tree ! current_node = NOT_COMPUTED \<and> flag_tree ! SIBLING current_node = COMPUTED)
               (tree ! current_node) (mtp, published) of
          None \<Rightarrow> None
        | Some (mtp, published) \<Rightarrow>
            (case publish_node p (flag_tree ! current_node = COMPUTED \<and> flag_tree ! SIBLING current_node = NOT_COMPUTED)
                    (tree ! SIBLING current_node) (mtp, published) of
               None \<Rightarrow> None
             | Some (mtp, published) \<Rightarrow> Some (flag_tree, mtp, published)))"

definition tree_proof :: "cross_params \<Rightarrow> bytes \<Rightarrow> bytes list \<Rightarrow> nat list \<Rightarrow> (bytes \<times> nat) option" where
  "tree_proof p mtp tree leaves_to_reveal =
     (let flag_tree = merkle_label_leaves p (replicate (NUM_NODES_TREE p) NOT_COMPUTED) leaves_to_reveal
      in case foldM (proof_pair p tree) (flag_tree, mtp, 0) (merkle_pairs p) of
           None \<Rightarrow> None
         | Some (flag_tree, mtp, published) \<Rightarrow> Some (mtp, published))"

definition take_node ::
  "cross_params \<Rightarrow> bytes list \<Rightarrow> nat list \<Rightarrow> bytes \<Rightarrow> nat \<Rightarrow> nat \<Rightarrow> (bytes \<times> nat) option" where
  \<comment> \<open>a node from the tree if it was computed, otherwise the next one of the proof\<close>
  "take_node p tree flag_tree mtp node published =
     (if flag_tree ! node = COMPUTED then Some (tree ! node, published)
      else (case load_at (published * HASH_DIGEST_LENGTH p) (HASH_DIGEST_LENGTH p) mtp of
              None \<Rightarrow> None | Some digest \<Rightarrow> Some (digest, published + 1)))"

definition recompute_pair ::
  "cross_params \<Rightarrow> bytes \<Rightarrow> bytes list \<times> nat list \<times> nat \<Rightarrow> nat \<times> nat \<Rightarrow> (bytes list \<times> nat list \<times> nat) option" where
  "recompute_pair p mtp = (\<lambda>(tree, flag_tree, published) (level, current_node).
     if flag_tree ! current_node = NOT_COMPUTED \<and> flag_tree ! SIBLING current_node = NOT_COMPUTED
     then Some (tree, flag_tree, published)
     else (case take_node p tree flag_tree mtp current_node published of
             None \<Rightarrow> None
           | Some (left, published) \<Rightarrow>
               (case take_node p tree flag_tree mtp (SIBLING current_node) published of
                  None \<Rightarrow> None
                | Some (right, published) \<Rightarrow>
                    Some (tree[parent_node p level current_node := hash p (left @ right) HASH_DOMAIN_SEP_CONST],
                          flag_tree[parent_node p level current_node := COMPUTED], published))))"

definition recompute_root ::
  "cross_params \<Rightarrow> bytes list \<Rightarrow> bytes list \<Rightarrow> bytes \<Rightarrow> nat list \<Rightarrow> (bytes \<times> bool) option" where
  "recompute_root p tree recomputed_leaves mtp leaves_to_reveal =
     (let tree = place_cmt_on_leaves p tree recomputed_leaves;
          flag_tree = merkle_label_leaves p (replicate (NUM_NODES_TREE p) NOT_COMPUTED) leaves_to_reveal
      in case foldM (recompute_pair p mtp) (tree, flag_tree, 0) (merkle_pairs p) of
           None \<Rightarrow> None
         | Some (tree, flag_tree, published) \<Rightarrow>
             Some (tree ! 0,
               foldl (\<lambda>error i. error OR mtp ! i) 0
                 [published * HASH_DIGEST_LENGTH p..<TREE_NODES_TO_STORE (tabs p) * HASH_DIGEST_LENGTH p] = 0))"

section \<open>What the tree holds\<close>

lemma leafposE:
  assumes "(l, j) \<in> set (tree.leafpos p)"
  obtains i where "i < par_T p" and "tree.leafpos p ! i = (l, j)"
  using assms unfolding in_set_conv_nth length_leafpos by blast

lemma HASH_DIGEST_bounds [par_facts]: "HASH_DIGEST_LENGTH p \<le> 64" "0 < HASH_DIGEST_LENGTH p"
  by (cases "variant p"; cases "cat p"; cases "corner p"; simp add: par_unfold HASH_DIGEST_LENGTH_def)+

lemma merkle_pairs_eq: "merkle_pairs p = map (\<lambda>q. (Suc (fst q), tree.idx p (Suc (fst q), 2 * snd q))) (rev (tree.inners p))"
  unfolding merkle_pairs_def leaf_start by (rule tree.level_pairs_all)

lemma pair_nodes:
  assumes "(l, j) \<in> set (tree.inners p)"
  shows "parent_node p (Suc l) (tree.idx p (Suc l, 2 * j)) = tree.idx p (l, j)"
    and "SIBLING (tree.idx p (Suc l, 2 * j)) = tree.idx p (Suc l, 2 * j + 1)"
    and "Suc (tree.idx p (Suc l, 2 * j)) = tree.idx p (Suc l, 2 * j + 1)"
  using tree.pair_step [OF assms] by (simp_all add: parent_node_def tree.idx_def)

definition merkle_node :: "cross_params \<Rightarrow> bytes list \<Rightarrow> nat \<Rightarrow> nat \<Rightarrow> bytes" where
  \<comment> \<open>the digest of a node over the commitments, the leaves in the order of the code\<close>
  "merkle_node p leaves =
     tree.up p (\<lambda>a b. hash p (a @ b) HASH_DOMAIN_SEP_CONST)
       (\<lambda>q. place_cmt_on_leaves p (replicate (NUM_NODES_TREE p) []) leaves ! tree.idx p q)"

lemma merkle_node_inner:
  "(l, j) \<in> set (tree.inners p) \<Longrightarrow> merkle_node p leaves l j =
     hash p (merkle_node p leaves (Suc l) (2 * j) @ merkle_node p leaves (Suc l) (2 * j + 1)) HASH_DOMAIN_SEP_CONST"
  unfolding merkle_node_def by (rule tree.up_inner)

lemma place_nth:
  assumes "length leaves = par_T p" and "length t = NUM_NODES_TREE p"
  shows "length (place_cmt_on_leaves p t leaves) = NUM_NODES_TREE p"
    and "i < par_T p \<Longrightarrow> place_cmt_on_leaves p t leaves ! tree.idx p (tree.leafpos p ! i) = leaves ! i"
proof -
  have lt: "set (leaf_indices p) \<subseteq> {..<length t}"
    using tree.leaves_idx [of p] tree.idx_lt [OF tree.leafpos_nodes] by (auto simp: assms(2) tree_size)
  note upd = updates_nth [OF tree.distinct_leaves _ lt, of leaves, folded place_cmt_on_leaves_def]
  show "length (place_cmt_on_leaves p t leaves) = NUM_NODES_TREE p"
    using upd(1) by (simp add: length_leaf_indices assms)
  show "place_cmt_on_leaves p t leaves ! tree.idx p (tree.leafpos p ! i) = leaves ! i" if "i < par_T p"
    using upd(2) [of i] that tree.leaves_idx [of p] by (simp add: length_leaf_indices assms)
qed

lemma merkle_node_leaf:
  assumes "length leaves = par_T p" and "i < par_T p" and "tree.leafpos p ! i = (l, j)"
  shows "merkle_node p leaves l j = leaves ! i"
proof -
  have "(l, j) \<in> set (tree.leafpos p)" using assms by (metis length_leafpos nth_mem)
  then show ?thesis unfolding merkle_node_def
    using place_nth(2) [OF assms(1) length_replicate assms(2)] assms(3) by (simp add: tree.up_leaf)
qed

lemma tree_root_nodes:
  assumes "length leaves = par_T p" and "length t = NUM_NODES_TREE p"
  shows "length (snd (tree_root p t leaves)) = NUM_NODES_TREE p"
    and "(l, j) \<in> set (tree.nodes p) \<Longrightarrow> snd (tree_root p t leaves) ! tree.idx p (l, j) = merkle_node p leaves l j"
    and "fst (tree_root p t leaves) = merkle_node p leaves 0 0"
proof -
  let ?h = "\<lambda>a b. hash p (a @ b) HASH_DOMAIN_SEP_CONST"
  let ?s = "place_cmt_on_leaves p t leaves"
  have leaf: "?s ! tree.idx p q = place_cmt_on_leaves p (replicate (NUM_NODES_TREE p) []) leaves ! tree.idx p q"
    if "q \<in> set (tree.leafpos p)" for q
    using that place_nth(2) [OF assms] place_nth(2) [OF assms(1), of "replicate (NUM_NODES_TREE p) []"]
    by (auto simp: in_set_conv_nth)
  have eq: "snd (tree_root p t leaves) =
      foldl (\<lambda>s (level, cur). s[PARENT cur + tree_off p (level - 1) div 2 := ?h (s ! cur) (s ! SIBLING cur)]) ?s
        (level_pairs (tree_npl p) (rev [1..<Suc (tree_height p)]) (tree.base p (tree_height p)))"
    unfolding tree_root_def Let_def snd_conv merkle_pairs_def leaf_start tree.pairs_fold
    by (rule foldl_cong) (auto simp: pair_nodes parent_node_def)
  note fold = tree.up_fold [where c = ?h, OF place_nth(1) [OF assms, folded tree_size] leaf, folded eq merkle_node_def]
  show "length (snd (tree_root p t leaves)) = NUM_NODES_TREE p" using fold(1) by (simp add: tree_size)
  show vals: "snd (tree_root p t leaves) ! tree.idx p (l, j) = merkle_node p leaves l j"
    if "(l, j) \<in> set (tree.nodes p)" for l j
    by (rule fold(2) [OF _ that])
  show "fst (tree_root p t leaves) = merkle_node p leaves 0 0"
    using vals [OF tree.root_node] by (simp add: tree_root_def Let_def)
qed

section \<open>Which nodes the verifier computes\<close>

definition computed :: "cross_params \<Rightarrow> nat list \<Rightarrow> nat \<Rightarrow> nat \<Rightarrow> nat" where
  "computed p ind =
     tree.up p (\<lambda>a b. if a = COMPUTED \<or> b = COMPUTED then 1 else 0)
       (\<lambda>q. merkle_label_leaves p (replicate (NUM_NODES_TREE p) NOT_COMPUTED) ind ! tree.idx p q)"

lemma tree_root_eq:
  assumes "length leaves = par_T p" and "length t = NUM_NODES_TREE p"
  shows "tree_root p t leaves = (merkle_node p leaves 0 0, map (\<lambda>(l, j). merkle_node p leaves l j) (tree.nodes p))"
  using tree_array [OF tree_root_nodes(1,2) [OF assms]] tree_root_nodes(3) [OF assms] by (simp add: prod_eq_iff)

lemma computed_inner:
  "(l, j) \<in> set (tree.inners p) \<Longrightarrow> computed p ind l j =
     (if computed p ind (Suc l) (2 * j) = 1 \<or> computed p ind (Suc l) (2 * j + 1) = 1 then 1 else 0)"
  unfolding computed_def by (rule tree.up_inner)

lemma cond_updates:
  fixes v :: 'a
  assumes "distinct ks" and "length cs = length ks" and "set ks \<subseteq> {..<length xs}"
  defines "ys \<equiv> foldl (\<lambda>xs (k, c). if c = (0 :: nat) then xs[k := v] else xs) xs (zip ks cs)"
  shows "length ys = length xs" and "i < length ks \<Longrightarrow> ys ! (ks ! i) = (if cs ! i = 0 then v else xs ! (ks ! i))"
    and "j \<notin> set ks \<Longrightarrow> ys ! j = xs ! j"
proof -
  let ?new = "\<lambda>xs ks cs. map2 (\<lambda>k c. if c = 0 then v else xs ! k) ks cs"
  have eq: "foldl (\<lambda>xs (k, c). if c = (0 :: nat) then xs[k := v] else xs) xs (zip ks cs)
      = foldl (\<lambda>xs (k, v). xs[k := v]) xs (zip ks (?new xs ks cs))"
    if "distinct ks" "length cs = length ks" for xs cs ks using that
  proof (induction ks arbitrary: cs xs)
    case (Cons k ks)
    obtain c cs' where cs: "cs = c # cs'" using Cons.prems(2) by (cases cs) auto
    have other: "xs[k := x] ! k' = xs ! k'" if "k' \<in> set ks" for k' x
      using that Cons.prems(1) by (metis distinct.simps(2) nth_list_update_neq)
    have new: "?new (xs[k := x]) ks cs' = ?new xs ks cs'" for x
      by (intro map_cong) (auto simp: other dest!: set_zip_leftD)
    show ?case
      using Cons.IH [of cs' "xs[k := v]", unfolded new] Cons.IH [of cs' xs] Cons.prems cs by (cases "c = 0") simp_all
  qed simp
  note upd = updates_nth [OF assms(1) _ assms(3), of "map2 (\<lambda>k c. if c = 0 then v else xs ! k) ks cs"]
  note ys = eq [OF assms(1,2), of xs, folded ys_def]
  show "length ys = length xs" using upd(1) assms(2) by (simp add: ys)
  show "ys ! (ks ! i) = (if cs ! i = 0 then v else xs ! (ks ! i))" if "i < length ks"
    using upd(2) [of i] that assms(2) by (simp add: ys)
  show "ys ! j = xs ! j" if "j \<notin> set ks" using upd(3) [of j] that assms(2) by (simp add: ys)
qed

lemma merkle_labels:
  assumes "length ind = par_T p"
  defines "fl \<equiv> merkle_label_leaves p (replicate (NUM_NODES_TREE p) NOT_COMPUTED) ind"
  shows "length fl = NUM_NODES_TREE p"
    and "(l, j) \<in> set (tree.leafpos p) \<Longrightarrow> fl ! tree.idx p (l, j) = computed p ind l j"
    and "i < par_T p \<Longrightarrow> fl ! tree.idx p (tree.leafpos p ! i) = (if ind ! i = 0 then 1 else 0)"
    and "(l, j) \<in> set (tree.inners p) \<Longrightarrow> fl ! tree.idx p (l, j) = 0"
proof -
  let ?z = "replicate (NUM_NODES_TREE p) (0 :: nat)"
  have lt: "set (leaf_indices p) \<subseteq> {..<length ?z}"
    using tree.leaves_idx [of p] tree.idx_lt [OF tree.leafpos_nodes] by (auto simp: tree_size)
  note upd = cond_updates [where cs = ind and v = 1, OF tree.distinct_leaves _ lt, folded merkle_label_leaves_def fl_def]
  show "length fl = NUM_NODES_TREE p" using upd(1) by (simp add: length_leaf_indices assms(1))
  show "fl ! tree.idx p (l, j) = computed p ind l j" if "(l, j) \<in> set (tree.leafpos p)"
    by (simp add: computed_def fl_def tree.up_leaf [OF that])
  show "fl ! tree.idx p (tree.leafpos p ! i) = (if ind ! i = 0 then 1 else 0)" if "i < par_T p"
  proof -
    have "leaf_indices p ! i = tree.idx p (tree.leafpos p ! i)"
      using that tree.leaves_idx [of p] by (metis length_leafpos nth_map)
    moreover have "tree.idx p (tree.leafpos p ! i) < NUM_NODES_TREE p"
      using tree.idx_lt [OF tree.leafpos_nodes [OF nth_mem]] that by (simp add: tree_size)
    ultimately show ?thesis using upd(2) [of i] that by (metis assms(1) length_leaf_indices nth_replicate)
  qed
  show "fl ! tree.idx p (l, j) = 0" if q: "(l, j) \<in> set (tree.inners p)"
  proof -
    have "tree.idx p (l, j) \<notin> set (leaf_indices p)"
      using tree.leaves_idx [of p] tree.idx_inj [OF tree.inners_nodes [OF q] tree.leafpos_nodes] q
      by (auto simp: tree.in_leafpos)
    then show ?thesis
      using upd(3) tree.idx_lt [OF tree.inners_nodes [OF q]] by (simp add: length_leaf_indices assms(1) tree_size)
  qed
qed

lemma computed_01: "length ind = par_T p \<Longrightarrow> (l, j) \<in> set (tree.nodes p) \<Longrightarrow> computed p ind l j \<in> {0, 1}"
proof (erule tree.nodes_cases)
  assume "(l, j) \<in> set (tree.inners p)"
  then show ?thesis by (simp add: computed_inner)
next
  assume len: "length ind = par_T p" and leaf: "(l, j) \<in> set (tree.leafpos p)"
  from leaf obtain i where "i < par_T p" "tree.leafpos p ! i = (l, j)" by (rule leafposE)
  then have "computed p ind l j = (if ind ! i = 0 then 1 else 0)"
    using merkle_labels(2) [OF len leaf] merkle_labels(3) [OF len, of i] by simp
  then show ?thesis by simp
qed

definition missing :: "cross_params \<Rightarrow> nat list \<Rightarrow> bytes list \<Rightarrow> tpos \<Rightarrow> bytes list" where
  \<comment> \<open>the digests of the proof for the children of a node\<close>
  "missing p ind leaves q =
     (let l = Suc (fst q); j = 2 * snd q; left = computed p ind l j; right = computed p ind l (j + 1)
      in (if left = 0 \<and> right = 1 then [merkle_node p leaves l j] else [])
         @ (if left = 1 \<and> right = 0 then [merkle_node p leaves l (j + 1)] else []))"

lemma computed_leaf:
  assumes "challenge_ok p ind" and "i < par_T p"
  shows "computed p ind (fst (tree.leafpos p ! i)) (snd (tree.leafpos p ! i)) = 1 \<longleftrightarrow> ind ! i \<noteq> 1"
proof -
  have len: "length ind = par_T p" using assms by (simp add: challenge_ok_def)
  have "(fst (tree.leafpos p ! i), snd (tree.leafpos p ! i)) \<in> set (tree.leafpos p)" using assms(2) by simp
  from merkle_labels(2) [OF len this] merkle_labels(3) [OF len assms(2)]
  have "computed p ind (fst (tree.leafpos p ! i)) (snd (tree.leafpos p ! i)) = (if ind ! i = 0 then 1 else 0)" by simp
  moreover have "ind ! i \<in> {0, 1}" using assms len nth_mem [of i ind] unfolding challenge_ok_def by (metis subsetD)
  ultimately show ?thesis by auto
qed

lemma missing_capacity:
  assumes ok: "challenge_ok p ind"
  shows "(\<Sum>q\<leftarrow>tree.inners p. length (missing p ind leaves q)) \<le> TREE_NODES_TO_STORE (tabs p)"
proof -
  let ?z = "\<lambda>q. computed p ind (fst q) (snd q) = 1"
  have len: "length ind = par_T p" using ok by (simp add: challenge_ok_def)
  have one: "length (missing p ind leaves (l, j)) = of_bool (?z (l, j)) *
            (of_bool (\<not> ?z (Suc l, 2 * j)) + of_bool (\<not> ?z (Suc l, 2 * j + 1)))"
    if q: "(l, j) \<in> set (tree.inners p)" for l j
    using computed_01 [OF len tree.child_node [OF q, of 0]] computed_01 [OF len tree.child_node [OF q, of 1]]
    by (auto simp: missing_def Let_def computed_inner [OF q])
  have "distinct (tree.inners p)" using tree.distinct_nodes by (simp add: tree.inners_def)
  then have "(\<Sum>q\<leftarrow>tree.inners p. length (missing p ind leaves q)) = (\<Sum>q\<in>set (tree.inners p). length (missing p ind leaves q))"
    by (rule sum_list_distinct_conv_sum_set)
  also have "\<dots> = (\<Sum>q\<in>set (tree.inners p). of_bool (?z q) *
            (of_bool (\<not> ?z (Suc (fst q), 2 * snd q)) + of_bool (\<not> ?z (Suc (fst q), 2 * snd q + 1))))"
    by (intro sum.cong refl) (use one in \<open>metis fst_conv snd_conv prod.collapse\<close>)
  also have "\<dots> \<le> TREE_NODES_TO_STORE (tabs p)"
  proof (rule cover_capacity [OF ok])
    show "?z (tree.leafpos p ! i) \<longleftrightarrow> ind ! i \<noteq> 1" if "i < par_T p" for i by (rule computed_leaf [OF ok that])
  qed (simp add: computed_inner)
  finally show ?thesis .
qed

lemma root_computed:
  assumes ok: "challenge_ok p ind"
  shows "computed p ind 0 0 = 1"
proof (rule ccontr)
  assume root: "computed p ind 0 0 \<noteq> 1"
  have "computed p ind l j \<noteq> 1" if "(l, j) \<in> set (tree.nodes p)" for l j
    using that
  proof (induction rule: tree.nodes_level_induct)
    case (child l j)
    then have "computed p ind (Suc l) (2 * (j div 2)) \<noteq> 1 \<and> computed p ind (Suc l) (2 * (j div 2) + 1) \<noteq> 1"
      using computed_inner [OF child(2)] by (metis zero_neq_one)
    moreover have "j = 2 * (j div 2) \<or> j = 2 * (j div 2) + 1" by presburger
    ultimately show ?case by metis
  qed (rule root)
  then have "ind ! i = 1" if "i < length ind" for i
    using computed_leaf [OF ok, of i] tree.leafpos_nodes [of "tree.leafpos p ! i" p] that ok
    by (metis challenge_ok_def length_leafpos nth_mem prod.collapse)
  then have "filter (\<lambda>x. x \<noteq> 1) ind = []" by (metis (mono_tags, lifting) filter_False in_set_conv_nth)
  then show False using challenge_zeros [OF ok] par_W_lt_T [of p] by simp
qed

definition flags_after :: "cross_params \<Rightarrow> nat list \<Rightarrow> tpos list \<Rightarrow> nat list \<Rightarrow> bool" where
  \<comment> \<open>the flag tree after the visit of some inner nodes\<close>
  "flags_after p ind as fl \<longleftrightarrow> length fl = NUM_NODES_TREE p \<and>
     (\<forall>l j. (l, j) \<in> set (tree.nodes p) \<longrightarrow>
        fl ! tree.idx p (l, j) = (if (l, j) \<in> set (tree.inners p) - set as then 0 else computed p ind l j))"

lemma flags_start:
  assumes "length ind = par_T p"
  shows "flags_after p ind [] (merkle_label_leaves p (replicate (NUM_NODES_TREE p) NOT_COMPUTED) ind)"
  unfolding flags_after_def using merkle_labels [OF assms] by (auto simp: tree.in_leafpos)

lemma flags_set:
  assumes fl: "flags_after p ind as fl" and q: "(l, j) \<in> set (tree.inners p)"
  shows "flags_after p ind (as @ [(l, j)]) (fl[tree.idx p (l, j) := computed p ind l j])"
proof -
  have len: "tree.idx p (l, j) < length fl"
    using fl tree.idx_lt [OF tree.inners_nodes [OF q]] by (simp add: flags_after_def tree_size)
  have "fl[tree.idx p (l, j) := computed p ind l j] ! tree.idx p (l', j') =
      (if (l', j') \<in> set (tree.inners p) - set (as @ [(l, j)]) then 0 else computed p ind l' j')"
    if node: "(l', j') \<in> set (tree.nodes p)" for l' j'
  proof (cases "(l', j') = (l, j)")
    case True
    then show ?thesis using len by simp
  next
    case False
    then have "tree.idx p (l', j') \<noteq> tree.idx p (l, j)" using tree.idx_inj [OF node tree.inners_nodes [OF q]] by blast
    then show ?thesis using False fl node by (auto simp: flags_after_def)
  qed
  then show ?thesis using fl unfolding flags_after_def by simp
qed

lemma flags_children:
  assumes fl: "flags_after p ind as fl" and q: "(l, j) \<in> set (tree.inners p)"
    and children: "\<And>k. (Suc l, k) \<in> set (tree.inners p) \<Longrightarrow> (Suc l, k) \<in> set as"
  shows "fl ! tree.idx p (Suc l, 2 * j) = computed p ind (Suc l) (2 * j)"
    and "fl ! tree.idx p (Suc l, 2 * j + 1) = computed p ind (Suc l) (2 * j + 1)"
proof -
  have "fl ! tree.idx p (Suc l, k) = computed p ind (Suc l) k" if "(Suc l, k) \<in> set (tree.nodes p)" for k
  proof -
    have "(Suc l, k) \<notin> set (tree.inners p) - set as" using children [of k] by blast
    then show ?thesis using fl that by (simp only: flags_after_def if_False)
  qed
  then show "fl ! tree.idx p (Suc l, 2 * j) = computed p ind (Suc l) (2 * j)"
    and "fl ! tree.idx p (Suc l, 2 * j + 1) = computed p ind (Suc l) (2 * j + 1)"
    using tree.child_node [OF q, of 0] tree.child_node [OF q, of 1] by simp_all
qed

lemma length_merkle_node:
  assumes "length leaves = par_T p" and "\<And>x. x \<in> set leaves \<Longrightarrow> length x = HASH_DIGEST_LENGTH p"
    and "(l, j) \<in> set (tree.nodes p)"
  shows "length (merkle_node p leaves l j) = HASH_DIGEST_LENGTH p"
  using assms(3)
proof (cases rule: tree.nodes_cases)
  case 1
  then show ?thesis by (simp add: merkle_node_inner)
next
  case 2
  then obtain i where "i < par_T p" "tree.leafpos p ! i = (l, j)" by (rule leafposE)
  then show ?thesis using merkle_node_leaf [OF assms(1)] assms(1,2) by (metis nth_mem)
qed

lemma publish_no [simp]: "publish_node p False node s = Some s"
  by (simp add: publish_node_def split: prod.splits)

lemma publish_yes:
  "length pre = n * HASH_DIGEST_LENGTH p \<Longrightarrow> length node = HASH_DIGEST_LENGTH p \<Longrightarrow> HASH_DIGEST_LENGTH p \<le> length rest \<Longrightarrow>
     publish_node p True node (pre @ rest, n) = Some (pre @ node @ drop (HASH_DIGEST_LENGTH p) rest, n + 1)"
  by (simp add: publish_node_def store_append)

lemma proof_pair_step:
  assumes q: "(l, j) \<in> set (tree.inners p)" and len: "length ind = par_T p"
    and fl: "fl ! tree.idx p (Suc l, 2 * j) = computed p ind (Suc l) (2 * j)"
      "fl ! tree.idx p (Suc l, 2 * j + 1) = computed p ind (Suc l) (2 * j + 1)"
    and t: "\<And>k. k < 2 \<Longrightarrow> t ! tree.idx p (Suc l, 2 * j + k) = merkle_node p leaves (Suc l) (2 * j + k)"
    and node: "\<And>k. k < 2 \<Longrightarrow> length (merkle_node p leaves (Suc l) (2 * j + k)) = HASH_DIGEST_LENGTH p"
    and pre: "length pre = n * HASH_DIGEST_LENGTH p"
    and rest: "length (missing p ind leaves (l, j)) * HASH_DIGEST_LENGTH p \<le> length rest"
  shows "proof_pair p t (fl, pre @ rest, n) (Suc l, tree.idx p (Suc l, 2 * j)) =
     Some (fl[tree.idx p (l, j) := computed p ind l j],
           pre @ concat (missing p ind leaves (l, j)) @ drop (length (missing p ind leaves (l, j)) * HASH_DIGEST_LENGTH p) rest,
           n + length (missing p ind leaves (l, j)))"
proof -
  let ?L = "tree.idx p (Suc l, 2 * j)" and ?R = "tree.idx p (Suc l, 2 * j + 1)" and ?P = "tree.idx p (l, j)"
  let ?fl = "fl[?P := computed p ind l j]"
  have ne: "?L \<noteq> ?P" "?R \<noteq> ?P" using tree.idx_child_gt [OF q] by (metis less_irrefl)+
  have nodes: "(Suc l, 2 * j) \<in> set (tree.nodes p)" "(Suc l, 2 * j + 1) \<in> set (tree.nodes p)"
    using tree.child_node [OF q, of 0] tree.child_node [OF q, of 1] by simp_all
  have bits: "computed p ind (Suc l) (2 * j) \<in> {0, 1}" "computed p ind (Suc l) (2 * j + 1) \<in> {0, 1}"
    by (rule computed_01 [OF len nodes(1)], rule computed_01 [OF len nodes(2)])
  have flP: "?fl ! ?L = computed p ind (Suc l) (2 * j)" "?fl ! ?R = computed p ind (Suc l) (2 * j + 1)"
    using fl ne by (simp_all add: nth_list_update_neq [symmetric])
  have upd: "fl[?P := (if fl ! ?L = 1 \<or> fl ! ?R = 1 then 1 else 0)] = ?fl"
    by (simp only: fl computed_inner [OF q])
  have t01: "t ! ?L = merkle_node p leaves (Suc l) (2 * j)" "t ! ?R = merkle_node p leaves (Suc l) (2 * j + 1)"
    using t [of 0] t [of 1] by simp_all
  have n01: "length (merkle_node p leaves (Suc l) (2 * j)) = HASH_DIGEST_LENGTH p"
     "length (merkle_node p leaves (Suc l) (2 * j + 1)) = HASH_DIGEST_LENGTH p"
    using node [of 0] node [of 1] by simp_all
  have unfolded: "proof_pair p t (fl, pre @ rest, n) (Suc l, ?L) =
     (case publish_node p (?fl ! ?L = 0 \<and> ?fl ! ?R = 1) (t ! ?L) (pre @ rest, n) of
          None \<Rightarrow> None
        | Some (mtp, published) \<Rightarrow>
            (case publish_node p (?fl ! ?L = 1 \<and> ?fl ! ?R = 0) (t ! ?R) (mtp, published) of
               None \<Rightarrow> None
             | Some (mtp, published) \<Rightarrow> Some (?fl, mtp, published)))"
    unfolding proof_pair_def split_conv Let_def pair_nodes [OF q] upd ..
  have miss: "missing p ind leaves (l, j) =
      (if computed p ind (Suc l) (2 * j) = 0 \<and> computed p ind (Suc l) (2 * j + 1) = 1
       then [merkle_node p leaves (Suc l) (2 * j)] else [])
      @ (if computed p ind (Suc l) (2 * j) = 1 \<and> computed p ind (Suc l) (2 * j + 1) = 0
         then [merkle_node p leaves (Suc l) (2 * j + 1)] else [])"
    by (simp add: missing_def Let_def)
  have bits': "computed p ind (Suc l) (2 * j) \<noteq> 0 \<Longrightarrow> computed p ind (Suc l) (2 * j) = 1"
    "computed p ind (Suc l) (2 * j + 1) \<noteq> 0 \<Longrightarrow> computed p ind (Suc l) (2 * j + 1) = 1"
    using bits by auto
  show ?thesis
    unfolding unfolded flP t01
    by (cases "computed p ind (Suc l) (2 * j) = 0"; cases "computed p ind (Suc l) (2 * j + 1) = 0")
      (use rest in \<open>simp_all add: miss bits' publish_yes [OF pre] n01 del: One_nat_def\<close>)
qed

definition proof_nodes :: "cross_params \<Rightarrow> nat list \<Rightarrow> bytes list \<Rightarrow> tpos list \<Rightarrow> bytes list" where
  \<comment> \<open>the digests of the proof for the pairs below some inner nodes\<close>
  "proof_nodes p ind leaves as = concat (map (missing p ind leaves) as)"

lemma proof_nodes_snoc: "proof_nodes p ind leaves (as @ [q]) = proof_nodes p ind leaves as @ missing p ind leaves q"
  by (simp add: proof_nodes_def)

lemma proof_nodes_capacity:
  assumes "challenge_ok p ind"
  shows "length (proof_nodes p ind leaves (rev (tree.inners p))) \<le> TREE_NODES_TO_STORE (tabs p)"
  using missing_capacity [OF assms, of leaves]
  by (simp add: proof_nodes_def length_concat comp_def rev_map [symmetric] sum_list_rev)

lemma length_proof_nodes:
  assumes "length leaves = par_T p" and "\<And>x. x \<in> set leaves \<Longrightarrow> length x = HASH_DIGEST_LENGTH p"
    and "set as \<subseteq> set (tree.inners p)"
  shows "length (concat (proof_nodes p ind leaves as)) = length (proof_nodes p ind leaves as) * HASH_DIGEST_LENGTH p"
proof -
  have "length x = HASH_DIGEST_LENGTH p" if x: "x \<in> set (proof_nodes p ind leaves as)" for x
  proof -
    obtain l j where q: "(l, j) \<in> set (tree.inners p)" "x \<in> set (missing p ind leaves (l, j))"
      using x assms(3) by (auto simp: proof_nodes_def)
    show ?thesis
      using q(2) length_merkle_node [OF assms(1,2) tree.child_node [OF q(1), of 0]]
        length_merkle_node [OF assms(1,2) tree.child_node [OF q(1), of 1]]
      by (auto simp: missing_def Let_def split: if_splits)
  qed
  then show ?thesis using length_concat_const [of "proof_nodes p ind leaves as" "\<lambda>x. x" "HASH_DIGEST_LENGTH p"] by simp
qed

lemma tree_proof_store:
  assumes ok: "challenge_ok p ind" and len: "length leaves = par_T p"
    and lens: "\<And>x. x \<in> set leaves \<Longrightarrow> length x = HASH_DIGEST_LENGTH p"
    and mtp: "length mtp = TREE_NODES_TO_STORE (tabs p) * HASH_DIGEST_LENGTH p"
    and t: "\<And>l j. (l, j) \<in> set (tree.nodes p) \<Longrightarrow> t ! tree.idx p (l, j) = merkle_node p leaves l j"
  defines "D \<equiv> proof_nodes p ind leaves (rev (tree.inners p))"
  shows "tree_proof p mtp t ind = Some (concat D @ drop (length D * HASH_DIGEST_LENGTH p) mtp, length D)"
proof -
  let ?HL = "HASH_DIGEST_LENGTH p" and ?D = "proof_nodes p ind leaves"
  have indl: "length ind = par_T p" using ok by (simp add: challenge_ok_def)
  let ?f = "\<lambda>s q. proof_pair p t s (Suc (fst q), tree.idx p (Suc (fst q), 2 * snd q))"
  let ?fl0 = "merkle_label_leaves p (replicate (NUM_NODES_TREE p) NOT_COMPUTED) ind"
  have "\<exists>fl. foldM ?f (?fl0, mtp, 0) (rev (tree.inners p)) =
      Some (fl, concat (?D (rev (tree.inners p))) @ drop (length (?D (rev (tree.inners p))) * ?HL) mtp, length (?D (rev (tree.inners p))))
      \<and> flags_after p ind (rev (tree.inners p)) fl"
  proof (induction rule: tree.up_induct)
    case 1
    then show ?case using flags_start [OF indl] by (simp add: proof_nodes_def)
  next
    case (2 as l j bs)
    from 2(6) obtain fl where IH: "foldM ?f (?fl0, mtp, 0) as =
        Some (fl, concat (?D as) @ drop (length (?D as) * ?HL) mtp, length (?D as))" "flags_after p ind as fl" by blast
    have "length (?D as) + length (missing p ind leaves (l, j)) \<le> length (?D (rev (tree.inners p)))"
      unfolding 2(1) by (simp add: proof_nodes_def)
    also have "\<dots> \<le> TREE_NODES_TO_STORE (tabs p)" by (rule proof_nodes_capacity [OF ok])
    finally have "length (missing p ind leaves (l, j)) * ?HL \<le> (TREE_NODES_TO_STORE (tabs p) - length (?D as)) * ?HL"
      by (intro mult_le_mono1) linarith
    then have room: "length (missing p ind leaves (l, j)) * ?HL \<le> length (drop (length (?D as) * ?HL) mtp)"
      by (simp add: mtp diff_mult_distrib)
    have "set as \<subseteq> set (tree.inners p)" by (rule 2(4))
    note pre = length_proof_nodes [OF len lens this]
    have step: "proof_pair p t (fl, concat (?D as) @ drop (length (?D as) * ?HL) mtp, length (?D as)) (Suc l, tree.idx p (Suc l, 2 * j)) =
     Some (fl[tree.idx p (l, j) := computed p ind l j],
           concat (?D as) @ concat (missing p ind leaves (l, j))
             @ drop (length (missing p ind leaves (l, j)) * ?HL) (drop (length (?D as) * ?HL) mtp),
           length (?D as) + length (missing p ind leaves (l, j)))"
      by (rule proof_pair_step [OF 2(2) indl flags_children [OF IH(2) 2(2) 2(5)] t length_merkle_node [OF len lens] pre room])
        (assumption | rule tree.child_node [OF 2(2)])+
    have "foldM ?f (?fl0, mtp, 0) (as @ [(l, j)]) = Some (fl[tree.idx p (l, j) := computed p ind l j],
        concat (?D (as @ [(l, j)])) @ drop (length (?D (as @ [(l, j)])) * ?HL) mtp, length (?D (as @ [(l, j)])))"
      unfolding foldM_snoc [OF IH(1)] fst_conv snd_conv step proof_nodes_snoc
      by (simp add: add_mult_distrib add.commute)
    then show ?case using flags_set [OF IH(2) 2(2)] by blast
  qed
  then show ?thesis unfolding tree_proof_def Let_def merkle_pairs_eq foldM_map D_def by auto
qed

lemma take_node_computed: "fl ! k = 1 \<Longrightarrow> take_node p t fl mtp k n = Some (t ! k, n)"
  by (simp add: take_node_def)

lemma take_node_proof:
  "fl ! k = 0 \<Longrightarrow> length pre = n * HASH_DIGEST_LENGTH p \<Longrightarrow> length x = HASH_DIGEST_LENGTH p \<Longrightarrow>
     take_node p t fl (pre @ x @ rest) k n = Some (x, n + 1)"
  by (simp add: take_node_def load_append)

lemma recompute_pair_step:
  assumes q: "(l, j) \<in> set (tree.inners p)" and len: "length ind = par_T p"
    and fl: "fl ! tree.idx p (Suc l, 2 * j) = computed p ind (Suc l) (2 * j)"
      "fl ! tree.idx p (Suc l, 2 * j + 1) = computed p ind (Suc l) (2 * j + 1)"
    and flP: "fl ! tree.idx p (l, j) = 0"
    and t: "\<And>k. k < 2 \<Longrightarrow> computed p ind (Suc l) (2 * j + k) = 1 \<Longrightarrow>
       t ! tree.idx p (Suc l, 2 * j + k) = merkle_node p leaves (Suc l) (2 * j + k)"
    and node: "\<And>k. k < 2 \<Longrightarrow> length (merkle_node p leaves (Suc l) (2 * j + k)) = HASH_DIGEST_LENGTH p"
    and pre: "length pre = n * HASH_DIGEST_LENGTH p"
  shows "recompute_pair p (pre @ concat (missing p ind leaves (l, j)) @ rest) (t, fl, n) (Suc l, tree.idx p (Suc l, 2 * j)) =
     Some (if computed p ind l j = 1 then t[tree.idx p (l, j) := merkle_node p leaves l j] else t,
           fl[tree.idx p (l, j) := computed p ind l j], n + length (missing p ind leaves (l, j)))"
proof -
  let ?a = "computed p ind (Suc l) (2 * j)" and ?b = "computed p ind (Suc l) (2 * j + 1)"
  have nodes: "(Suc l, 2 * j) \<in> set (tree.nodes p)" "(Suc l, 2 * j + 1) \<in> set (tree.nodes p)"
    using tree.child_node [OF q, of 0] tree.child_node [OF q, of 1] by simp_all
  have bits: "?a = 0 \<or> ?a = 1" "?b = 0 \<or> ?b = 1"
    using computed_01 [OF len nodes(1)] computed_01 [OF len nodes(2)] by auto
  have n01: "length (merkle_node p leaves (Suc l) (2 * j)) = HASH_DIGEST_LENGTH p"
     "length (merkle_node p leaves (Suc l) (2 * j + 1)) = HASH_DIGEST_LENGTH p"
    using node [of 0] node [of 1] by simp_all
  have t01: "?a = 1 \<Longrightarrow> t ! tree.idx p (Suc l, 2 * j) = merkle_node p leaves (Suc l) (2 * j)"
    "?b = 1 \<Longrightarrow> t ! tree.idx p (Suc l, 2 * j + 1) = merkle_node p leaves (Suc l) (2 * j + 1)"
    using t [of 0] t [of 1] by simp_all
  have same: "fl[tree.idx p (l, j) := 0] = fl" using flP by (metis list_update_id)
  note unf = recompute_pair_def split_conv pair_nodes [OF q] missing_def Let_def fst_conv snd_conv fl
    computed_inner [OF q] merkle_node_inner [OF q]
  consider "?a = 0" "?b = 0" | "?a = 0" "?b = 1" | "?a = 1" "?b = 0" | "?a = 1" "?b = 1" using bits by metis
  then show ?thesis
  proof cases
    case 1
    then show ?thesis unfolding unf by (simp add: same)
  next
    case 2
    then show ?thesis using fl t01(2)
      take_node_proof [of fl "tree.idx p (Suc l, 2 * j)" pre n p "merkle_node p leaves (Suc l) (2 * j)" t rest]
      unfolding unf by (simp add: fl pre n01 take_node_computed del: One_nat_def)
  next
    case 3
    then show ?thesis using fl t01(1)
      take_node_proof [of fl "tree.idx p (Suc l, 2 * j + 1)" pre n p "merkle_node p leaves (Suc l) (2 * j + 1)" t rest]
      unfolding unf by (simp add: fl pre n01 take_node_computed del: One_nat_def)
  next
    case 4
    then show ?thesis using fl t01 unfolding unf by (simp add: fl take_node_computed del: One_nat_def)
  qed
qed

lemma recompute_root_ok:
  assumes ok: "challenge_ok p ind" and len: "length leaves = par_T p" "length leaves' = par_T p"
    and lens: "\<And>x. x \<in> set leaves \<Longrightarrow> length x = HASH_DIGEST_LENGTH p"
    and t: "length t = NUM_NODES_TREE p"
    and same: "\<And>i. i < par_T p \<Longrightarrow> ind ! i = 0 \<Longrightarrow> leaves' ! i = leaves ! i"
  defines "D \<equiv> proof_nodes p ind leaves (rev (tree.inners p))"
  defines "mtp \<equiv> concat D @ replicate (TREE_NODES_TO_STORE (tabs p) * HASH_DIGEST_LENGTH p - length D * HASH_DIGEST_LENGTH p) 0"
  shows "recompute_root p t leaves' mtp ind = Some (merkle_node p leaves 0 0, True)"
proof -
  let ?HL = "HASH_DIGEST_LENGTH p" and ?D = "proof_nodes p ind leaves"
  have indl: "length ind = par_T p" using ok by (simp add: challenge_ok_def)
  let ?f = "\<lambda>s q. recompute_pair p mtp s (Suc (fst q), tree.idx p (Suc (fst q), 2 * snd q))"
  let ?fl0 = "merkle_label_leaves p (replicate (NUM_NODES_TREE p) NOT_COMPUTED) ind"
    and ?t0 = "place_cmt_on_leaves p t leaves'"
  let ?inv = "\<lambda>as t. length t = NUM_NODES_TREE p \<and> (\<forall>l j. (l, j) \<in> set as \<or> (l, j) \<in> set (tree.leafpos p) \<longrightarrow>
      computed p ind l j = 1 \<longrightarrow> t ! tree.idx p (l, j) = merkle_node p leaves l j)"
  have leaf: "?t0 ! tree.idx p (l, j) = merkle_node p leaves l j" if hyps: "(l, j) \<in> set (tree.leafpos p)" "computed p ind l j = 1" for l j
  proof -
    obtain i where i: "i < par_T p" "tree.leafpos p ! i = (l, j)" by (rule leafposE [OF hyps(1)])
    have "computed p ind l j = (if ind ! i = 0 then 1 else 0)"
      using merkle_labels(2) [OF indl hyps(1)] merkle_labels(3) [OF indl i(1)] unfolding i(2) by (rule trans [OF sym])
    then have "ind ! i = 0" using hyps(2) by (metis zero_neq_one)
    then show ?thesis
      using place_nth(2) [OF len(2) t i(1)] same [OF i(1)] merkle_node_leaf [OF len(1) i] i(2) by simp
  qed
  have "\<exists>t fl. foldM ?f (?t0, ?fl0, 0) (rev (tree.inners p)) = Some (t, fl, length (?D (rev (tree.inners p))))
      \<and> flags_after p ind (rev (tree.inners p)) fl \<and> ?inv (rev (tree.inners p)) t"
  proof (induction rule: tree.up_induct)
    case 1
    show ?case using flags_start [OF indl] leaf place_nth(1) [OF len(2) t] by (simp add: proof_nodes_def)
  next
    case (2 as l j bs)
    from 2(6) obtain t fl where IH: "foldM ?f (?t0, ?fl0, 0) as = Some (t, fl, length (?D as))"
      "flags_after p ind as fl" "?inv as t" by blast
    define rest where "rest = concat (concat (map (missing p ind leaves) bs))
      @ replicate (TREE_NODES_TO_STORE (tabs p) * HASH_DIGEST_LENGTH p - length D * HASH_DIGEST_LENGTH p) (0 :: byte)"
    have split: "mtp = concat (?D as) @ concat (missing p ind leaves (l, j)) @ rest"
      unfolding mtp_def D_def 2(1) rest_def by (simp add: proof_nodes_def)
    have flP: "fl ! tree.idx p (l, j) = 0"
      using IH(2) 2(2,3) tree.inners_nodes [OF 2(2)] by (simp add: flags_after_def)
    have child: "t ! tree.idx p (Suc l, 2 * j + k) = merkle_node p leaves (Suc l) (2 * j + k)"
      if "k < 2" "computed p ind (Suc l) (2 * j + k) = 1" for k
      using IH(3) that(2) 2(5) tree.child_node [OF 2(2) that(1)] by (auto simp: tree.in_leafpos)
    have "set as \<subseteq> set (tree.inners p)" by (rule 2(4))
    note pre = length_proof_nodes [OF len(1) lens this]
    have step: "recompute_pair p mtp (t, fl, length (?D as)) (Suc l, tree.idx p (Suc l, 2 * j)) =
     Some (if computed p ind l j = 1 then t[tree.idx p (l, j) := merkle_node p leaves l j] else t,
           fl[tree.idx p (l, j) := computed p ind l j], length (?D as) + length (missing p ind leaves (l, j)))"
      unfolding split
      by (rule recompute_pair_step [OF 2(2) indl flags_children [OF IH(2) 2(2) 2(5)] flP child length_merkle_node [OF len(1) lens] pre])
        (assumption | rule tree.child_node [OF 2(2)])+
    let ?t' = "if computed p ind l j = 1 then t[tree.idx p (l, j) := merkle_node p leaves l j] else t"
    have inv: "?inv (as @ [(l, j)]) ?t'"
    proof (intro conjI allI impI)
      show "length ?t' = NUM_NODES_TREE p" using IH(3) by simp
      fix l' j'
      assume mem: "(l', j') \<in> set (as @ [(l, j)]) \<or> (l', j') \<in> set (tree.leafpos p)" and comp: "computed p ind l' j' = 1"
      show "?t' ! tree.idx p (l', j') = merkle_node p leaves l' j'"
      proof (cases "(l', j') = (l, j)")
        case True
        then show ?thesis using comp IH(3) tree.idx_lt [OF tree.inners_nodes [OF 2(2)]] by (simp add: tree_size)
      next
        case False
        then have "(l', j') \<in> set as \<or> (l', j') \<in> set (tree.leafpos p)" using mem by auto
        moreover from this have "tree.idx p (l', j') \<noteq> tree.idx p (l, j)"
          using tree.idx_inj [of "(l', j')" p "(l, j)"] False 2(4) tree.inners_nodes [OF 2(2)] tree.inners_nodes tree.leafpos_nodes
          by blast
        moreover from calculation(1) have "t ! tree.idx p (l', j') = merkle_node p leaves l' j'" using IH(3) comp by blast
        ultimately show ?thesis by simp
      qed
    qed
    have "foldM ?f (?t0, ?fl0, 0) (as @ [(l, j)]) =
        Some (?t', fl[tree.idx p (l, j) := computed p ind l j], length (?D (as @ [(l, j)])))"
      unfolding foldM_snoc [OF IH(1)] fst_conv snd_conv step proof_nodes_snoc length_append ..
    then show ?case using flags_set [OF IH(2) 2(2)] inv by blast
  qed
  then obtain t fl where fin: "foldM ?f (?t0, ?fl0, 0) (rev (tree.inners p)) = Some (t, fl, length D)"
      "?inv (rev (tree.inners p)) t" unfolding D_def by blast
  have "(0, 0) \<in> set (rev (tree.inners p)) \<or> (0, 0) \<in> set (tree.leafpos p)"
    using tree.root_node [of p] by (auto simp: tree.in_leafpos)
  then have root: "t ! 0 = merkle_node p leaves 0 0"
    using fin(2) root_computed [OF ok] tree.idx_root [of p] by metis
  have dl: "length (concat D) = length D * ?HL"
    unfolding D_def by (rule length_proof_nodes [OF len(1) lens]) auto
  have "mtp ! i = 0" if "length D * ?HL \<le> i" "i < TREE_NODES_TO_STORE (tabs p) * ?HL" for i
    using that by (simp add: mtp_def nth_append dl)
  then have "foldl (\<lambda>error i. error OR mtp ! i) 0 [length D * ?HL..<TREE_NODES_TO_STORE (tabs p) * ?HL] = 0"
    by (intro or_all_zero) simp
  then show ?thesis
    unfolding recompute_root_def Let_def merkle_pairs_eq foldM_map fin(1) by (simp add: root)
qed

section \<open>The build without trees\<close>

lemma tree_proof_no_trees_store:
  assumes ok: "challenge_ok p ind" and len: "length leaves = par_T p"
    and lens: "\<And>x. x \<in> set leaves \<Longrightarrow> length x = HASH_DIGEST_LENGTH p"
    and mtp: "length mtp = par_W p * HASH_DIGEST_LENGTH p"
  shows "tree_proof_no_trees p mtp leaves ind =
     Some (concat (map (\<lambda>i. leaves ! i) (filter (\<lambda>i. ind ! i = 1) [0..<par_T p])), par_W p)"
proof -
  have n: "length (filter (\<lambda>i. ind ! i = 1) [0..<par_T p]) = par_W p"
    using filter_upt_nth [of "\<lambda>x. x = 1" ind] ok by (simp add: challenge_ok_def)
  have "tree_proof_no_trees p mtp leaves ind =
     Some (concat (map (\<lambda>i. leaves ! i) (filter (\<lambda>i. ind ! i = 1) [0..<par_T p]))
           @ drop (length (filter (\<lambda>i. ind ! i = 1) [0..<par_T p]) * HASH_DIGEST_LENGTH p) mtp,
           length (filter (\<lambda>i. ind ! i = 1) [0..<par_T p]))"
    unfolding tree_proof_no_trees_def
  proof (rule foldM_stores)
    show "length (filter (\<lambda>i. ind ! i = 1) [0..<par_T p]) * HASH_DIGEST_LENGTH p \<le> length mtp" by (simp only: n mtp)
  qed (simp add: len lens)
  then show ?thesis unfolding n by (simp add: mtp)
qed

lemma loads_rows:
  assumes len: "length xs = n" and val: "\<And>i. i < n \<Longrightarrow> sel i \<Longrightarrow> length (val i) = w"
  shows "foldM (\<lambda>(xs, m) i. if sel i
              then (case load_at (m * w) w (concat (map val (filter sel [0..<n])) @ rest) of
                      None \<Rightarrow> None | Some x \<Rightarrow> Some (xs[i := x], m + 1))
              else Some (xs, m)) (xs, 0) [0..<n]
       = Some (map (\<lambda>i. if sel i then val i else xs ! i) [0..<n], length (filter sel [0..<n]))"
proof -
  let ?f = "\<lambda>(xs, m) i. if sel i
              then (case load_at (m * w) w (concat (map val (filter sel [0..<n])) @ rest) of
                      None \<Rightarrow> None | Some x \<Rightarrow> Some (xs[i := x], m + 1))
              else Some (xs, m)"
  let ?r = "\<lambda>k. map (\<lambda>i. if sel i then val i else xs ! i) [0..<k] @ drop k xs"
  have "k \<le> n \<Longrightarrow> foldM ?f (xs, 0) [0..<k] = Some (?r k, length (filter sel [0..<k]))" for k
  proof (induction k)
    case (Suc k)
    then have IH: "foldM ?f (xs, 0) [0..<k] = Some (?r k, length (filter sel [0..<k]))" and k: "k < n" by auto
    have drop: "drop k xs = xs ! k # drop (Suc k) xs" using k len by (simp add: Cons_nth_drop_Suc)
    have upd: "(?r k)[k := x] = map (\<lambda>i. if sel i then val i else xs ! i) [0..<k] @ x # drop (Suc k) xs" for x
      by (simp add: list_update_append drop)
    have split: "[0..<n] = [0..<k] @ k # [Suc k..<n]"
      using k upt_add_eq_append [of 0 k "n - k"] by (simp add: upt_conv_Cons)
    have vals: "length (concat (map val (filter sel [0..<k]))) = length (filter sel [0..<k]) * w"
      by (rule length_concat_const) (use val k in auto)
    have load: "load_at (length (filter sel [0..<k]) * w) w (concat (map val (filter sel [0..<n])) @ rest) = Some (val k)" if "sel k"
      unfolding split using that vals val [OF k that] by (simp add: load_append)
    have "foldM ?f (xs, 0) ([0..<k] @ [k]) = Some (?r (Suc k), length (filter sel ([0..<k] @ [k])))"
      unfolding foldM_snoc [OF IH] using load upd by (cases "sel k") (simp_all add: drop)
    then show ?case by simp
  qed simp
  from this [of n] show ?thesis using len by simp
qed

lemma recompute_root_no_trees_ok:
  assumes ok: "challenge_ok p ind" and len: "length leaves = par_T p" "length leaves' = par_T p"
    and lens: "\<And>x. x \<in> set leaves \<Longrightarrow> length x = HASH_DIGEST_LENGTH p"
    and same: "\<And>i. i < par_T p \<Longrightarrow> ind ! i = 0 \<Longrightarrow> leaves' ! i = leaves ! i"
  shows "recompute_root_no_trees p leaves' (concat (map (\<lambda>i. leaves ! i) (filter (\<lambda>i. ind ! i = 1) [0..<par_T p])) @ rest) ind
     = Some (tree_root_no_trees p leaves, leaves, True)"
proof -
  have "leaves' ! i = leaves ! i" if "i < par_T p" "ind ! i \<noteq> 1" for i
  proof -
    have "ind ! i \<in> {0, 1}" using ok that(1) nth_mem [of i ind] unfolding challenge_ok_def by (metis subsetD)
    then show ?thesis using same that by auto
  qed
  then have "map (\<lambda>i. if ind ! i = 1 then leaves ! i else leaves' ! i) [0..<par_T p] = leaves"
    by (intro nth_equalityI) (auto simp: len)
  then show ?thesis
    using loads_rows [OF len(2), of "\<lambda>i. ind ! i = 1" "(!) leaves" "HASH_DIGEST_LENGTH p" rest] lens len
    unfolding recompute_root_no_trees_def by simp
qed

section \<open>The interface to the scheme\<close>

locale commitment =
  fixes n w cap :: nat and ok :: "nat list \<Rightarrow> bool"
    and root :: "bytes list \<Rightarrow> bytes"
    and proof_of :: "bytes \<Rightarrow> bytes list \<Rightarrow> nat list \<Rightarrow> (bytes \<times> nat) option"
    and recompute :: "bytes list \<Rightarrow> bytes \<Rightarrow> nat list \<Rightarrow> (bytes \<times> bool) option"
  assumes proof_fits: "ok ind \<Longrightarrow> length leaves = n \<Longrightarrow> (\<And>x. x \<in> set leaves \<Longrightarrow> length x = w) \<Longrightarrow>
       \<exists>mtp m. proof_of (replicate (cap * w) 0) leaves ind = Some (mtp, m) \<and> length mtp = cap * w"
    and proof_opens: "ok ind \<Longrightarrow> length leaves = n \<Longrightarrow> (\<And>x. x \<in> set leaves \<Longrightarrow> length x = w) \<Longrightarrow>
       proof_of (replicate (cap * w) 0) leaves ind = Some (mtp, m) \<Longrightarrow> length leaves' = n \<Longrightarrow>
       (\<And>i. i < n \<Longrightarrow> ind ! i = 0 \<Longrightarrow> leaves' ! i = leaves ! i) \<Longrightarrow>
       recompute leaves' mtp ind = Some (root leaves, True)"
begin

lemma opened:
  assumes "ok ind" and "length leaves = n" and "\<And>x. x \<in> set leaves \<Longrightarrow> length x = w"
  obtains mtp m where "proof_of (replicate (cap * w) 0) leaves ind = Some (mtp, m)" and "length mtp = cap * w"
    and "\<And>leaves'. length leaves' = n \<Longrightarrow> (\<And>i. i < n \<Longrightarrow> ind ! i = 0 \<Longrightarrow> leaves' ! i = leaves ! i) \<Longrightarrow>
       recompute leaves' mtp ind = Some (root leaves, True)"
proof -
  obtain mtp m where *: "proof_of (replicate (cap * w) 0) leaves ind = Some (mtp, m)" "length mtp = cap * w"
    using proof_fits [OF assms] by blast
  show thesis by (rule that [OF *], rule proof_opens [OF assms *(1)])
qed

end

interpretation plain_opening: commitment "par_T p" "HASH_DIGEST_LENGTH p" "par_W p" "challenge_ok p"
  "tree_root_no_trees p" "tree_proof_no_trees p"
  "\<lambda>leaves mtp ind. map_option (\<lambda>(root, leaves, b). (root, b)) (recompute_root_no_trees p leaves mtp ind)" for p
proof
  let ?HL = "HASH_DIGEST_LENGTH p"
  fix ind :: "nat list" and leaves :: "bytes list"
  assume ok: "challenge_ok p ind" and len: "length leaves = par_T p" and lens: "\<And>x. x \<in> set leaves \<Longrightarrow> length x = ?HL"
  note st = tree_proof_no_trees_store [OF ok len lens, of "replicate (par_W p * ?HL) 0", simplified length_replicate]
  have n: "length (filter (\<lambda>i. ind ! i = 1) [0..<par_T p]) = par_W p"
    using filter_upt_nth [of "\<lambda>x. x = 1" ind] ok by (simp add: challenge_ok_def)
  have "length (concat (map (\<lambda>i. leaves ! i) (filter (\<lambda>i. ind ! i = 1) [0..<par_T p]))) = par_W p * ?HL"
    unfolding n [symmetric] by (rule length_concat_const) (simp add: len lens)
  with st show "\<exists>mtp m. tree_proof_no_trees p (replicate (par_W p * ?HL) 0) leaves ind = Some (mtp, m) \<and> length mtp = par_W p * ?HL"
    by simp
  fix mtp :: bytes and m :: nat and leaves' :: "bytes list"
  assume "tree_proof_no_trees p (replicate (par_W p * ?HL) 0) leaves ind = Some (mtp, m)"
  then have mtp: "mtp = concat (map (\<lambda>i. leaves ! i) (filter (\<lambda>i. ind ! i = 1) [0..<par_T p])) @ []" using st by simp
  assume len': "length leaves' = par_T p" and same: "\<And>i. i < par_T p \<Longrightarrow> ind ! i = 0 \<Longrightarrow> leaves' ! i = leaves ! i"
  have "recompute_root_no_trees p leaves' mtp ind = Some (tree_root_no_trees p leaves, leaves, True)"
    unfolding mtp by (rule recompute_root_no_trees_ok [OF ok len len' lens same])
  then show "map_option (\<lambda>(root, leaves, b). (root, b)) (recompute_root_no_trees p leaves' mtp ind) = Some (tree_root_no_trees p leaves, True)"
    by simp
qed

text \<open>With trees the contents of the two uninitialised tree buffers do not matter.\<close>

interpretation tree_opening: commitment "par_T p" "HASH_DIGEST_LENGTH p" "TREE_NODES_TO_STORE (tabs p)" "challenge_ok p"
  "\<lambda>leaves. fst (tree_root p (map junk [0..<NUM_NODES_TREE p]) leaves)"
  "\<lambda>mtp leaves. tree_proof p mtp (snd (tree_root p (map junk [0..<NUM_NODES_TREE p]) leaves))"
  "recompute_root p (map junk' [0..<NUM_NODES_TREE p])" for p junk junk'
proof
  have J: "length (map junk [0..<NUM_NODES_TREE p]) = NUM_NODES_TREE p" by simp
  let ?HL = "HASH_DIGEST_LENGTH p" and ?J = "map junk [0..<NUM_NODES_TREE p]"
  fix ind :: "nat list" and leaves :: "bytes list"
  assume ok: "challenge_ok p ind" and len: "length leaves = par_T p" and lens: "\<And>x. x \<in> set leaves \<Longrightarrow> length x = ?HL"
  let ?D = "proof_nodes p ind leaves (rev (tree.inners p))" and ?st = "replicate (TREE_NODES_TO_STORE (tabs p) * ?HL) (0 :: byte)"
  have st: "tree_proof p ?st (snd (tree_root p ?J leaves)) ind = Some (concat ?D @ drop (length ?D * ?HL) ?st, length ?D)"
    by (rule tree_proof_store [OF ok len lens]) (simp_all add: tree_root_nodes [OF len J])
  have dl: "length (concat ?D) = length ?D * ?HL" by (rule length_proof_nodes [OF len lens]) auto
  have "length ?D * ?HL \<le> TREE_NODES_TO_STORE (tabs p) * ?HL" by (rule mult_le_mono1 [OF proof_nodes_capacity [OF ok]])
  then show "\<exists>mtp m. tree_proof p ?st (snd (tree_root p ?J leaves)) ind = Some (mtp, m)
      \<and> length mtp = TREE_NODES_TO_STORE (tabs p) * ?HL" unfolding st by (simp add: dl)
  fix mtp :: bytes and m :: nat and leaves' :: "bytes list"
  assume "tree_proof p ?st (snd (tree_root p ?J leaves)) ind = Some (mtp, m)"
  then have mtp: "mtp = concat ?D @ replicate (TREE_NODES_TO_STORE (tabs p) * ?HL - length ?D * ?HL) 0" unfolding st by auto
  assume len': "length leaves' = par_T p" and same: "\<And>i. i < par_T p \<Longrightarrow> ind ! i = 0 \<Longrightarrow> leaves' ! i = leaves ! i"
  have "recompute_root p (map junk' [0..<NUM_NODES_TREE p]) leaves' mtp ind = Some (merkle_node p leaves 0 0, True)"
    unfolding mtp by (rule recompute_root_ok [OF ok len len' lens _ same]) simp_all
  then show "recompute_root p (map junk' [0..<NUM_NODES_TREE p]) leaves' mtp ind = Some (fst (tree_root p ?J leaves), True)"
    by (simp add: tree_root_nodes [OF len J])
qed

end
