(* ===== verification/Cross.thy ===== *)
theory Cross
  imports Zk_Algebra Pack_Unpack Merkle
begin

text \<open>
  Key generation, signing and verification (\<open>lib/CROSS.c\<close>, \<open>include/CROSS.h\<close>), for
  both variants and both builds. The global generator of \<open>randombytes\<close> is passed
  and returned. A failed \<open>assert\<close> and an access outside a buffer are values of
  \<open>fault\<close>. Data that exist in one variant only (\<open>W_mat\<close>, the vectors of
  length \<open>M\<close>) are the empty list in the other; \<open>v_bar\<close> and \<open>v_G_bar\<close> of a response
  are one field. \<open>cmt_1\<close> is the list of its rows. Arrays the code reads although it
  may not have written them are arguments (\<open>junk\<close>): functions from the index to
  whatever the memory holds.
\<close>

section \<open>Data\<close>

record pk_t =
  pk_seed_pk :: bytes
  pk_s :: bytes

record sk_t =
  sk_seed_sk :: bytes

record resp_0_t =
  resp_y :: bytes
  resp_v :: bytes       \<comment> \<open>\<open>v_bar\<close>, or \<open>v_G_bar\<close> for RSDP(G)\<close>

record CROSS_sig_t =
  sig_salt :: bytes
  sig_digest_cmt :: bytes
  sig_digest_chall_2 :: bytes
  sig_path :: bytes
  sig_proof :: bytes
  sig_resp_1 :: "bytes list"
  sig_resp_0 :: "resp_0_t list"

datatype fault = ASSERT_FAILED | OUT_OF_BOUNDS

definition checked :: "'a option \<Rightarrow> fault + 'a" where
  "checked r = (case r of None \<Rightarrow> Inl OUT_OF_BOUNDS | Some x \<Rightarrow> Inr x)"

fun foldE :: "('s \<Rightarrow> 'a \<Rightarrow> 'e + 's) \<Rightarrow> 's \<Rightarrow> 'a list \<Rightarrow> 'e + 's" where
  "foldE f s [] = Inr s"
| "foldE f s (x # xs) = (case f s x of Inl e \<Rightarrow> Inl e | Inr s' \<Rightarrow> foldE f s' xs)"

definition path_nodes :: "cross_params \<Rightarrow> nat" where
  \<comment> \<open>slots of \<open>path\<close> and \<open>proof\<close> in the signature\<close>
  "path_nodes p = (if no_trees p then par_W p else TREE_NODES_TO_STORE (tabs p))"

definition packed_v_size :: "cross_params \<Rightarrow> nat" where
  "packed_v_size p = (case variant p of RSDP \<Rightarrow> DENSELY_PACKED_FZ_VEC_SIZE p
                                      | RSDPG \<Rightarrow> DENSELY_PACKED_FZ_RSDP_G_VEC_SIZE p)"

definition zero_sig :: "cross_params \<Rightarrow> CROSS_sig_t" where
  \<comment> \<open>\<open>memset(sig, 0, sizeof(CROSS_sig_t))\<close>\<close>
  "zero_sig p =
     \<lparr>sig_salt = replicate (SALT_LENGTH_BYTES p) 0,
      sig_digest_cmt = replicate (HASH_DIGEST_LENGTH p) 0,
      sig_digest_chall_2 = replicate (HASH_DIGEST_LENGTH p) 0,
      sig_path = replicate (path_nodes p * SEED_LENGTH_BYTES p) 0,
      sig_proof = replicate (path_nodes p * HASH_DIGEST_LENGTH p) 0,
      sig_resp_1 = replicate (par_T p - par_W p) (replicate (HASH_DIGEST_LENGTH p) 0),
      sig_resp_0 = replicate (par_T p - par_W p)
        \<lparr>resp_y = replicate (DENSELY_PACKED_FP_VEC_SIZE p) 0, resp_v = replicate (packed_v_size p) 0\<rparr>\<rparr>"

section \<open>Expansion of the keys\<close>

definition expand_pk :: "cross_params \<Rightarrow> bytes \<Rightarrow> nat list list \<times> nat list list" where
  \<comment> \<open>\<open>V_tr\<close> and \<open>W_mat\<close>\<close>
  "expand_pk p seed_pk =
     (let dsc_csprng_seed_pk = CSPRNG_DOMAIN_SEP_CONST + (3 * par_T p + 2);
          csprng_state_mat = csprng_initialize p seed_pk dsc_csprng_seed_pk
      in case variant p of
           RSDP \<Rightarrow> let (V_tr, csprng_state_mat) = csprng_fp_mat p csprng_state_mat in (V_tr, [])
         | RSDPG \<Rightarrow> let (W_mat, csprng_state_mat) = csprng_fz_mat p csprng_state_mat;
                        (V_tr, csprng_state_mat) = csprng_fp_mat p csprng_state_mat
                    in (V_tr, W_mat))"

definition expand_seed_sk :: "cross_params \<Rightarrow> bytes \<Rightarrow> bytes \<times> bytes" where
  \<comment> \<open>\<open>seed_e_seed_pk\<close>\<close>
  "expand_seed_sk p seed_sk =
     (let dsc_csprng_seed_sk = CSPRNG_DOMAIN_SEP_CONST + (3 * par_T p + 1);
          csprng_state = csprng_initialize p seed_sk dsc_csprng_seed_sk;
          (seed_e_seed_pk, csprng_state) = csprng_randombytes p (2 * KEYPAIR_SEED_LENGTH_BYTES p) csprng_state
      in (take (KEYPAIR_SEED_LENGTH_BYTES p) seed_e_seed_pk, drop (KEYPAIR_SEED_LENGTH_BYTES p) seed_e_seed_pk))"

definition expand_seed_e :: "cross_params \<Rightarrow> nat list list \<Rightarrow> bytes \<Rightarrow> nat list \<times> nat list" where
  \<comment> \<open>\<open>e_bar\<close> and \<open>e_G_bar\<close>\<close>
  "expand_seed_e p W_mat seed_e =
     (let dsc_csprng_seed_e = CSPRNG_DOMAIN_SEP_CONST + (3 * par_T p + 3);
          csprng_state_e_bar = csprng_initialize p seed_e dsc_csprng_seed_e
      in case variant p of
           RSDP \<Rightarrow> let (e_bar, csprng_state_e_bar) = csprng_fz_vec p csprng_state_e_bar in (e_bar, [])
         | RSDPG \<Rightarrow> let (e_G_bar, csprng_state_e_bar) = csprng_fz_inf_w p csprng_state_e_bar;
                        e_bar = fz_inf_w_by_fz_matrix p e_G_bar W_mat
                    in (fz_dz_norm_n p e_bar, e_G_bar))"

definition expand_sk :: "cross_params \<Rightarrow> bytes \<Rightarrow> nat list \<times> nat list \<times> nat list list \<times> nat list list" where
  \<comment> \<open>\<open>e_bar\<close>, \<open>e_G_bar\<close>, \<open>V_tr\<close>, \<open>W_mat\<close>\<close>
  "expand_sk p seed_sk =
     (let (seed_e, seed_pk) = expand_seed_sk p seed_sk;
          (V_tr, W_mat) = expand_pk p seed_pk;
          (e_bar, e_G_bar) = expand_seed_e p W_mat seed_e
      in (e_bar, e_G_bar, V_tr, W_mat))"

definition CROSS_keygen :: "cross_params \<Rightarrow> incctx \<Rightarrow> (sk_t \<times> pk_t) \<times> incctx" where
  "CROSS_keygen p platform_csprng_state =
     (let (seed_sk, platform_csprng_state) = randombytes p (KEYPAIR_SEED_LENGTH_BYTES p) platform_csprng_state;
          (seed_e, seed_pk) = expand_seed_sk p seed_sk;
          (V_tr, W_mat) = expand_pk p seed_pk;
          (e_bar, e_G_bar) = expand_seed_e p W_mat seed_e;
          s = restr_vec_by_fp_matrix p e_bar V_tr;
          s = fp_dz_norm_synd p s
      in ((\<lparr>sk_seed_sk = seed_sk\<rparr>, \<lparr>pk_seed_pk = seed_pk, pk_s = pack_fp_syn p s\<rparr>), platform_csprng_state))"

section \<open>The two tree builds\<close>

definition commit_seeds :: "cross_params \<Rightarrow> bytes \<Rightarrow> bytes \<Rightarrow> bytes list \<times> bytes" where
  \<comment> \<open>\<open>seed_tree\<close> and \<open>round_seeds\<close>\<close>
  "commit_seeds p root_seed salt =
     (if no_trees p then ([], fst (seed_leaves_no_trees p root_seed salt))
      else let seed_tree = gen_seed_tree p (replicate (NUM_NODES_TREE p) (replicate (SEED_LENGTH_BYTES p) 0)) root_seed salt
           in (seed_tree, seed_leaves p seed_tree))"

definition release_seeds :: "cross_params \<Rightarrow> bytes \<Rightarrow> bytes list \<times> bytes \<Rightarrow> nat list \<Rightarrow> (bytes \<times> nat) option" where
  "release_seeds p path seeds chall_2 =
     (if no_trees p then seed_path_no_trees p path (snd seeds) chall_2 else seed_path p path (fst seeds) chall_2)"

definition rebuild_seeds :: "cross_params \<Rightarrow> nat list \<Rightarrow> bytes \<Rightarrow> bytes \<Rightarrow> (bytes \<times> bool) option" where
  \<comment> \<open>\<open>round_seeds\<close> and \<open>is_stree_padding_ok\<close>\<close>
  "rebuild_seeds p chall_2 path salt =
     (if no_trees p then rebuild_leaves p (replicate (par_T p * SEED_LENGTH_BYTES p) 0) chall_2 path
      else (case rebuild_tree p (replicate (NUM_NODES_TREE p) (replicate (SEED_LENGTH_BYTES p) 0)) chall_2 path salt of
              None \<Rightarrow> None
            | Some (seed_tree, is_stree_padding_ok) \<Rightarrow> Some (seed_leaves p seed_tree, is_stree_padding_ok)))"

definition commit_root :: "cross_params \<Rightarrow> (nat \<Rightarrow> bytes) \<Rightarrow> bytes list \<Rightarrow> bytes \<times> bytes list" where
  \<comment> \<open>the root and \<open>merkle_tree_0\<close>, an uninitialised buffer before\<close>
  "commit_root p junk_tree cmt_0 =
     (if no_trees p then (tree_root_no_trees p cmt_0, [])
      else tree_root p (map junk_tree [0..<NUM_NODES_TREE p]) cmt_0)"

definition open_commitments :: "cross_params \<Rightarrow> bytes \<Rightarrow> bytes list \<Rightarrow> bytes list \<Rightarrow> nat list \<Rightarrow> (bytes \<times> nat) option" where
  "open_commitments p mtp cmt_0 merkle_tree_0 chall_2 =
     (if no_trees p then tree_proof_no_trees p mtp cmt_0 chall_2 else tree_proof p mtp merkle_tree_0 chall_2)"

definition recompute_commitment :: "cross_params \<Rightarrow> (nat \<Rightarrow> bytes) \<Rightarrow> bytes list \<Rightarrow> bytes \<Rightarrow> nat list \<Rightarrow> (bytes \<times> bool) option" where
  \<comment> \<open>the root and \<open>is_mtree_padding_ok\<close>\<close>
  "recompute_commitment p junk_tree cmt_0 mtp chall_2 =
     (if no_trees p
      then (case recompute_root_no_trees p cmt_0 mtp chall_2 of
              None \<Rightarrow> None | Some (root, cmt_0, ok) \<Rightarrow> Some (root, ok))
      else recompute_root p (map junk_tree [0..<NUM_NODES_TREE p]) cmt_0 mtp chall_2)"

section \<open>Signing\<close>

definition expand_round :: "cross_params \<Rightarrow> nat list list \<Rightarrow> bytes \<Rightarrow> bytes \<Rightarrow> nat \<Rightarrow> nat list \<times> nat list \<times> nat list" where
  \<comment> \<open>\<open>e_bar_prime\<close>, \<open>e_G_bar_prime\<close> and \<open>u_prime\<close> of a round\<close>
  "expand_round p W_mat seed salt i =
     (let csprng_input = seed @ salt;
          domain_sep_csprng = CSPRNG_DOMAIN_SEP_CONST + i + (2 * par_T p - 1);
          csprng_state = csprng_initialize p csprng_input domain_sep_csprng;
          (e_bar_prime, e_G_bar_prime, csprng_state) =
            (case variant p of
               RSDP \<Rightarrow> let (e_bar_prime, csprng_state) = csprng_fz_vec p csprng_state
                       in (e_bar_prime, [], csprng_state)
             | RSDPG \<Rightarrow> let (e_G_bar_prime, csprng_state) = csprng_fz_inf_w p csprng_state;
                            e_bar_prime = fz_inf_w_by_fz_matrix p e_G_bar_prime W_mat
                        in (fz_dz_norm_n p e_bar_prime, e_G_bar_prime, csprng_state));
          (u_prime, csprng_state) = csprng_fp_vec p csprng_state
      in (e_bar_prime, e_G_bar_prime, u_prime))"

record round_t =
  r_e_bar_prime :: "nat list"
  r_v_packed :: bytes      \<comment> \<open>\<open>v_bar[i]\<close> or \<open>v_G_bar[i]\<close>, as packed\<close>
  r_u_prime :: "nat list"
  r_cmt_0 :: bytes
  r_cmt_1 :: bytes

definition domain_sep_hash :: "cross_params \<Rightarrow> nat \<Rightarrow> nat" where
  "domain_sep_hash p i = HASH_DOMAIN_SEP_CONST + i + (2 * par_T p - 1)"

definition round_seed :: "cross_params \<Rightarrow> bytes \<Rightarrow> nat \<Rightarrow> bytes" where
  "round_seed p round_seeds i = read_at (i * SEED_LENGTH_BYTES p) (SEED_LENGTH_BYTES p) round_seeds"

definition sign_round ::
  "cross_params \<Rightarrow> nat list \<Rightarrow> nat list \<Rightarrow> nat list list \<Rightarrow> nat list list \<Rightarrow> bytes \<Rightarrow> bytes \<Rightarrow> nat \<Rightarrow> round_t" where
  "sign_round p e_bar e_G_bar V_tr W_mat salt round_seeds i =
     (let seed = round_seed p round_seeds i;
          (e_bar_prime, e_G_bar_prime, u_prime) = expand_round p W_mat seed salt i;
          v_bar = fz_vec_sub_n p e_bar e_bar_prime;
          v = convert_restr_vec_to_fp p v_bar;
          v_packed = (case variant p of
              RSDP \<Rightarrow> pack_fz_vec p (fz_dz_norm_n p v_bar)
            | RSDPG \<Rightarrow> pack_fz_rsdp_g_vec p (fz_dz_norm_m p (fz_vec_sub_m p e_G_bar e_G_bar_prime)));
          u = fp_vec_by_fp_vec_pointwise p v u_prime;
          s_prime = fp_vec_by_fp_matrix p u V_tr;
          s_prime = fp_dz_norm_synd p s_prime;
          cmt_0_i_input = pack_fp_syn p s_prime @ v_packed @ salt;
          cmt_1_i_input = seed @ salt
      in \<lparr>r_e_bar_prime = e_bar_prime, r_v_packed = v_packed, r_u_prime = u_prime,
          r_cmt_0 = hash p cmt_0_i_input (domain_sep_hash p i),
          r_cmt_1 = hash p cmt_1_i_input (domain_sep_hash p i)\<rparr>)"

definition digest_challenge_1 :: "cross_params \<Rightarrow> bytes \<Rightarrow> bytes \<Rightarrow> bytes \<Rightarrow> bytes" where
  "digest_challenge_1 p m digest_cmt salt =
     (let digest_msg_cmt_salt = hash p m HASH_DOMAIN_SEP_CONST @ digest_cmt @ salt
      in hash p digest_msg_cmt_salt HASH_DOMAIN_SEP_CONST)"

definition challenge_1 :: "cross_params \<Rightarrow> bytes \<Rightarrow> nat list" where
  "challenge_1 p digest_chall_1 =
     (let dsc_csprng_chall_1 = CSPRNG_DOMAIN_SEP_CONST + (3 * par_T p - 1);
          csprng_state = csprng_initialize p digest_chall_1 dsc_csprng_chall_1;
          (chall_1, csprng_state) = csprng_fp_vec_chall_1 p csprng_state
      in chall_1)"

definition response_1 :: "cross_params \<Rightarrow> nat list \<Rightarrow> nat \<Rightarrow> nat list \<Rightarrow> nat list" where
  "response_1 p e_bar_prime chall u_prime = fp_dz_norm p (fp_vec_by_restr_vec_scaled p e_bar_prime chall u_prime)"

definition digest_challenge_2 :: "cross_params \<Rightarrow> nat list list \<Rightarrow> bytes \<Rightarrow> bytes" where
  "digest_challenge_2 p y digest_chall_1 =
     (let y_digest_chall_1 = concat (map (\<lambda>x. pack_fp_vec p (y ! x)) [0..<par_T p]) @ digest_chall_1
      in hash p y_digest_chall_1 HASH_DOMAIN_SEP_CONST)"

definition commitment_digest :: "cross_params \<Rightarrow> bytes \<Rightarrow> bytes list \<Rightarrow> bytes" where
  "commitment_digest p root cmt_1 =
     (let digest_cmt0_cmt1 = root @ hash p (concat cmt_1) HASH_DOMAIN_SEP_CONST
      in hash p digest_cmt0_cmt1 HASH_DOMAIN_SEP_CONST)"

definition publish_response ::
  "cross_params \<Rightarrow> nat list list \<Rightarrow> round_t list \<Rightarrow> nat list \<Rightarrow>
   resp_0_t list \<times> bytes list \<times> nat \<Rightarrow> nat \<Rightarrow> fault + resp_0_t list \<times> bytes list \<times> nat" where
  "publish_response p y rounds chall_2 = (\<lambda>(resp_0, resp_1, published_rsps) i.
     if chall_2 ! i = 0
     then (if \<not> published_rsps < par_T p - par_W p
           then Inl (if ndebug p then OUT_OF_BOUNDS else ASSERT_FAILED)
           else Inr (resp_0[published_rsps := \<lparr>resp_y = pack_fp_vec p (y ! i), resp_v = r_v_packed (rounds ! i)\<rparr>],
                     resp_1[published_rsps := r_cmt_1 (rounds ! i)], published_rsps + 1))
     else Inr (resp_0, resp_1, published_rsps))"

definition CROSS_sign ::
  "cross_params \<Rightarrow> (nat \<Rightarrow> bytes) \<Rightarrow> sk_t \<Rightarrow> bytes \<Rightarrow> incctx \<Rightarrow> fault + CROSS_sig_t \<times> incctx" where
  "CROSS_sign p junk_tree SK m platform_csprng_state =
     (let sig = zero_sig p;
          (e_bar, e_G_bar, V_tr, W_mat) = expand_sk p (sk_seed_sk SK);
          (root_seed, platform_csprng_state) = randombytes p (SEED_LENGTH_BYTES p) platform_csprng_state;
          (salt, platform_csprng_state) = randombytes p (SALT_LENGTH_BYTES p) platform_csprng_state;
          seeds = commit_seeds p root_seed salt;
          rounds = map (sign_round p e_bar e_G_bar V_tr W_mat salt (snd seeds)) [0..<par_T p];
          cmt_0 = map r_cmt_0 rounds;
          cmt_1 = map r_cmt_1 rounds;
          (root, merkle_tree_0) = commit_root p junk_tree cmt_0;
          digest_cmt = commitment_digest p root cmt_1;
          digest_chall_1 = digest_challenge_1 p m digest_cmt salt;
          chall_1 = challenge_1 p digest_chall_1;
          y = map (\<lambda>i. response_1 p (r_e_bar_prime (rounds ! i)) (chall_1 ! i) (r_u_prime (rounds ! i))) [0..<par_T p];
          digest_chall_2 = digest_challenge_2 p y digest_chall_1;
          chall_2 = expand_digest_to_fixed_weight p digest_chall_2
      in case checked (open_commitments p (sig_proof sig) cmt_0 merkle_tree_0 chall_2) of
           Inl e \<Rightarrow> Inl e
         | Inr (mtp, _) \<Rightarrow>
             (case checked (release_seeds p (sig_path sig) seeds chall_2) of
                Inl e \<Rightarrow> Inl e
              | Inr (path, _) \<Rightarrow>
                  (case foldE (publish_response p y rounds chall_2) (sig_resp_0 sig, sig_resp_1 sig, 0) [0..<par_T p] of
                     Inl e \<Rightarrow> Inl e
                   | Inr (resp_0, resp_1, published_rsps) \<Rightarrow>
                       Inr (sig\<lparr>sig_salt := salt, sig_digest_cmt := digest_cmt, sig_digest_chall_2 := digest_chall_2,
                                sig_path := path, sig_proof := mtp, sig_resp_0 := resp_0, sig_resp_1 := resp_1\<rparr>,
                            platform_csprng_state))))"

section \<open>Verification\<close>

record junk_t =
  junk_tree :: "nat \<Rightarrow> bytes"
  junk_y :: "nat \<Rightarrow> nat \<Rightarrow> nat"      \<comment> \<open>\<open>y[i][j]\<close> before it is written\<close>
  junk_v :: "nat \<Rightarrow> nat \<Rightarrow> nat"      \<comment> \<open>\<open>v_bar[j]\<close> or \<open>v_G_bar[j]\<close> of iteration \<open>i\<close> before it is written\<close>

record verify_t =
  vf_y :: "nat list list"
  vf_cmt_0 :: "bytes list"
  vf_cmt_1 :: "bytes list"
  vf_used_rsps :: nat
  vf_is_signature_ok :: bool
  vf_is_packed_padd_ok :: bool

definition verify_start :: "cross_params \<Rightarrow> junk_t \<Rightarrow> verify_t" where
  "verify_start p junk =
     \<lparr>vf_y = map (\<lambda>i. map (\<lambda>j. fp_store (variant p) (junk_y junk i j)) [0..<par_N p]) [0..<par_T p],
      vf_cmt_0 = replicate (par_T p) (replicate (HASH_DIGEST_LENGTH p) 0),
      vf_cmt_1 = replicate (par_T p) (replicate (HASH_DIGEST_LENGTH p) 0),
      vf_used_rsps = 0, vf_is_signature_ok = True, vf_is_packed_padd_ok = True\<rparr>"

definition short_circuit :: "bool \<Rightarrow> 'a \<times> bool \<Rightarrow> 'a \<Rightarrow> 'a \<times> bool" where
  \<comment> \<open>\<open>ok = ok && unpack(dst, src)\<close>: with \<open>ok\<close> unset, \<open>dst\<close> stays as it was\<close>
  "short_circuit ok unpacked dst = (if ok then unpacked else (dst, False))"

definition verify_revealed ::
  "cross_params \<Rightarrow> nat list list \<Rightarrow> nat list \<Rightarrow> bytes \<Rightarrow> CROSS_sig_t \<Rightarrow> nat \<Rightarrow> verify_t \<Rightarrow> verify_t" where
  \<comment> \<open>the branch \<open>chall_2[i] == 1\<close>\<close>
  "verify_revealed p W_mat chall_1 round_seeds sig i st =
     (let seed = round_seed p round_seeds i;
          cmt_1_i_input = seed @ sig_salt sig;
          (e_bar_prime, _, u_prime) = expand_round p W_mat seed (sig_salt sig) i
      in st\<lparr>vf_cmt_1 := (vf_cmt_1 st)[i := hash p cmt_1_i_input (domain_sep_hash p i)],
            vf_y := (vf_y st)[i := response_1 p e_bar_prime (chall_1 ! i) u_prime]\<rparr>)"

definition verify_hidden ::
  "cross_params \<Rightarrow> nat list list \<Rightarrow> nat list list \<Rightarrow> nat list \<Rightarrow> nat list \<Rightarrow> CROSS_sig_t \<Rightarrow> junk_t \<Rightarrow> nat \<Rightarrow> verify_t \<Rightarrow> verify_t" where
  \<comment> \<open>the other branch\<close>
  "verify_hidden p V_tr W_mat s chall_1 sig junk i st =
     (let rsp = sig_resp_0 sig ! vf_used_rsps st;
          (y_i, padd) = short_circuit (vf_is_packed_padd_ok st) (unpack_fp_vec p (resp_y rsp)) (vf_y st ! i);
          (v_bar, padd, in_group) =
            (case variant p of
               RSDP \<Rightarrow>
                 let (v_bar, padd) = short_circuit padd (unpack_fz_vec p (resp_v rsp))
                        (map (\<lambda>j. fz_store (variant p) (junk_v junk i j)) [0..<par_N p])
                 in (v_bar, padd, is_fz_vec_in_restr_group_n p v_bar)
             | RSDPG \<Rightarrow>
                 let (v_G_bar, padd) = short_circuit padd (unpack_fz_rsdp_g_vec p (resp_v rsp))
                        (map (\<lambda>j. fz_store (variant p) (junk_v junk i j)) [0..<par_M p])
                 in (fz_inf_w_by_fz_matrix p v_G_bar W_mat, padd, is_fz_vec_in_restr_group_m p v_G_bar));
          v = convert_restr_vec_to_fp p v_bar;
          y_prime = fp_vec_by_fp_vec_pointwise p v y_i;
          y_prime_H = fp_vec_by_fp_matrix p y_prime V_tr;
          y_prime_H = fp_dz_norm_synd p y_prime_H;
          s_prime = fp_synd_minus_fp_vec_scaled p y_prime_H (chall_1 ! i) s;
          s_prime = fp_dz_norm_synd p s_prime;
          cmt_0_i_input = pack_fp_syn p s_prime @ resp_v rsp @ sig_salt sig
      in st\<lparr>vf_y := (vf_y st)[i := y_i],
            vf_cmt_0 := (vf_cmt_0 st)[i := hash p cmt_0_i_input (domain_sep_hash p i)],
            vf_cmt_1 := (vf_cmt_1 st)[i := sig_resp_1 sig ! vf_used_rsps st],
            vf_used_rsps := vf_used_rsps st + 1,
            vf_is_signature_ok := (vf_is_signature_ok st \<and> in_group),
            vf_is_packed_padd_ok := padd\<rparr>)"

definition verify_round ::
  "cross_params \<Rightarrow> nat list list \<Rightarrow> nat list list \<Rightarrow> nat list \<Rightarrow> nat list \<Rightarrow> nat list \<Rightarrow> bytes \<Rightarrow> CROSS_sig_t \<Rightarrow> junk_t \<Rightarrow>
   verify_t \<Rightarrow> nat \<Rightarrow> fault + verify_t" where
  "verify_round p V_tr W_mat s chall_1 chall_2 round_seeds sig junk st i =
     (if chall_2 ! i = 1 then Inr (verify_revealed p W_mat chall_1 round_seeds sig i st)
      else if vf_used_rsps st < length (sig_resp_0 sig) \<and> vf_used_rsps st < length (sig_resp_1 sig)
      then Inr (verify_hidden p V_tr W_mat s chall_1 sig junk i st)
      else Inl OUT_OF_BOUNDS)"

definition assert_holds :: "cross_params \<Rightarrow> bool \<Rightarrow> bool" where
  \<comment> \<open>\<open>assert\<close> under \<open>#ifndef SKIP_ASSERT\<close>\<close>
  "assert_holds p cond = (skip_assert p \<or> ndebug p \<or> cond)"

definition CROSS_verify :: "cross_params \<Rightarrow> junk_t \<Rightarrow> pk_t \<Rightarrow> bytes \<Rightarrow> CROSS_sig_t \<Rightarrow> fault + bool" where
  "CROSS_verify p junk PK m sig =
     (let (V_tr, W_mat) = expand_pk p (pk_seed_pk PK);
          (s, is_padd_key_ok) = unpack_fp_syn p (pk_s PK);
          digest_chall_1 = digest_challenge_1 p m (sig_digest_cmt sig) (sig_salt sig);
          chall_1 = challenge_1 p digest_chall_1;
          chall_2 = expand_digest_to_fixed_weight p (sig_digest_chall_2 sig)
      in case checked (rebuild_seeds p chall_2 (sig_path sig) (sig_salt sig)) of
           Inl e \<Rightarrow> Inl e
         | Inr (round_seeds, is_stree_padding_ok) \<Rightarrow>
             (case foldE (verify_round p V_tr W_mat s chall_1 chall_2 round_seeds sig junk) (verify_start p junk) [0..<par_T p] of
                Inl e \<Rightarrow> Inl e
              | Inr st \<Rightarrow>
                  if \<not> assert_holds p (vf_is_signature_ok st) then Inl ASSERT_FAILED
                  else (case checked (recompute_commitment p (junk_tree junk) (vf_cmt_0 st) (sig_proof sig) chall_2) of
                          Inl e \<Rightarrow> Inl e
                        | Inr (root, is_mtree_padding_ok) \<Rightarrow>
                            let digest_cmt_prime = commitment_digest p root (vf_cmt_1 st);
                                digest_chall_2_prime = digest_challenge_2 p (vf_y st) digest_chall_1;
                                does_digest_cmt_match = (digest_cmt_prime = sig_digest_cmt sig);
                                does_digest_chall_2_match = (digest_chall_2_prime = sig_digest_chall_2 sig)
                            in if \<not> assert_holds p does_digest_cmt_match then Inl ASSERT_FAILED
                               else if \<not> assert_holds p does_digest_chall_2_match then Inl ASSERT_FAILED
                               else Inr (vf_is_signature_ok st \<and> does_digest_cmt_match \<and> does_digest_chall_2_match
                                         \<and> is_mtree_padding_ok \<and> is_stree_padding_ok \<and> is_padd_key_ok
                                         \<and> vf_is_packed_padd_ok st))))"

end
