(* ===== verification/Cross_Correct.thy ===== *)
theory Cross_Correct
  imports Cross
begin

text \<open>
  Correctness of the scheme of \<open>Cross\<close>: both builds provide the seed release and
  the commitment opening the scheme relies on (interpretations of \<open>seed_release\<close>
  and \<open>commitment\<close>), the expansions of signer and verifier agree, the response of
  a hidden round leads the verifier to the commitment of the signer, and therefore
  an honest signature is produced without fault and accepted. The last section is
  about the signatures that are not accepted.
\<close>

section \<open>The two builds behind one interface\<close>

interpretation seeds: seed_release "par_T p" "SEED_LENGTH_BYTES p" "path_nodes p" "challenge_ok p"
  "commit_seeds p" snd "release_seeds p" "rebuild_seeds p" for p
proof
  let ?n = "par_T p" and ?w = "SEED_LENGTH_BYTES p"
  show "length (snd (commit_seeds p root salt)) = ?n * ?w" if "length root = ?w" for root salt
    using plain_seeds.leaves_length [OF that] tree_seeds.leaves_length [OF that]
    by (simp add: commit_seeds_def Let_def)
  show "\<exists>st m. release_seeds p (replicate (path_nodes p * ?w) 0) (commit_seeds p root salt) ind = Some (st, m)
      \<and> length st = path_nodes p * ?w" if "challenge_ok p ind" "length root = ?w" for ind root salt
    using plain_seeds.path_fits [OF that] tree_seeds.path_fits [OF that]
    by (simp add: commit_seeds_def release_seeds_def path_nodes_def Let_def)
  show "\<exists>r. rebuild_seeds p ind st salt = Some (r, True) \<and> length r = ?n * ?w
      \<and> (\<forall>i<?n. ind ! i = 1 \<longrightarrow> read_at (i * ?w) ?w r = read_at (i * ?w) ?w (snd (commit_seeds p root salt)))"
    if "challenge_ok p ind" "length root = ?w"
      "release_seeds p (replicate (path_nodes p * ?w) 0) (commit_seeds p root salt) ind = Some (st, m)"
    for ind root salt st m
  proof (cases "no_trees p")
    case True
    then show ?thesis using that(3) plain_seeds.path_rebuilds [OF that(1,2)]
      by (simp add: commit_seeds_def release_seeds_def path_nodes_def rebuild_seeds_def)
  next
    case False
    then have "seed_path p (replicate (TREE_NODES_TO_STORE (tabs p) * ?w) 0)
        (gen_seed_tree p (replicate (NUM_NODES_TREE p) (replicate ?w 0)) root salt) ind = Some (st, m)"
      using that(3) by (simp add: commit_seeds_def release_seeds_def path_nodes_def Let_def)
    from tree_seeds.path_rebuilds [OF that(1,2) this] False show ?thesis
      by (fastforce simp: commit_seeds_def rebuild_seeds_def Let_def split: option.splits)
  qed
qed

interpretation commits: commitment "par_T p" "HASH_DIGEST_LENGTH p" "path_nodes p" "challenge_ok p"
  "\<lambda>cmt_0. fst (commit_root p junk cmt_0)" "\<lambda>mtp cmt_0. open_commitments p mtp cmt_0 (snd (commit_root p junk cmt_0))"
  "recompute_commitment p junk'" for p junk junk'
proof
  let ?n = "par_T p" and ?w = "HASH_DIGEST_LENGTH p"
  show "\<exists>mtp m. open_commitments p (replicate (path_nodes p * ?w) 0) leaves (snd (commit_root p junk leaves)) ind
      = Some (mtp, m) \<and> length mtp = path_nodes p * ?w"
    if "challenge_ok p ind" "length leaves = ?n" "\<And>x. x \<in> set leaves \<Longrightarrow> length x = ?w" for ind leaves
    using plain_opening.proof_fits [OF that] tree_opening.proof_fits [OF that]
    by (simp add: commit_root_def open_commitments_def path_nodes_def)
  show "recompute_commitment p junk' leaves' mtp ind = Some (fst (commit_root p junk leaves), True)"
    if ok: "challenge_ok p ind" "length leaves = ?n" "\<And>x. x \<in> set leaves \<Longrightarrow> length x = ?w"
      and st: "open_commitments p (replicate (path_nodes p * ?w) 0) leaves (snd (commit_root p junk leaves)) ind = Some (mtp, m)"
      and l': "length leaves' = ?n" "\<And>i. i < ?n \<Longrightarrow> ind ! i = 0 \<Longrightarrow> leaves' ! i = leaves ! i"
    for ind leaves leaves' mtp m
  proof (cases "no_trees p")
    case True
    have proof_st: "tree_proof_no_trees p (replicate (par_W p * ?w) 0) leaves ind = Some (mtp, m)"
      using st True by (simp add: open_commitments_def path_nodes_def)
    have "map_option (\<lambda>(root, leaves, b). (root, b)) (recompute_root_no_trees p leaves' mtp ind)
        = Some (tree_root_no_trees p leaves, True)"
      by (rule plain_opening.proof_opens [OF ok proof_st l'])
    then obtain as where "recompute_root_no_trees p leaves' mtp ind = Some (tree_root_no_trees p leaves, as, True)"
      by (auto simp del: One_nat_def)
    with True show ?thesis by (simp add: recompute_commitment_def commit_root_def)
  next
    case False
    have proof_st: "tree_proof p (replicate (TREE_NODES_TO_STORE (tabs p) * ?w) 0)
        (snd (tree_root p (map junk [0..<NUM_NODES_TREE p]) leaves)) ind = Some (mtp, m)"
      using st False by (simp add: open_commitments_def path_nodes_def commit_root_def)
    have "recompute_root p (map junk' [0..<NUM_NODES_TREE p]) leaves' mtp ind
        = Some (fst (tree_root p (map junk [0..<NUM_NODES_TREE p]) leaves), True)"
      by (rule tree_opening.proof_opens [OF ok proof_st l'])
    with False show ?thesis by (simp add: recompute_commitment_def commit_root_def)
  qed
qed

lemma chall_2_ok: "challenge_ok p (expand_digest_to_fixed_weight p d)"
  using set_fixed_weight [of _ p d] count_fixed_weight [of p d] by (auto simp: challenge_ok_def)

lemma challenge_bit: "challenge_ok p ind \<Longrightarrow> i < par_T p \<Longrightarrow> ind ! i = 0 \<or> ind ! i = 1"
  unfolding challenge_ok_def using nth_mem [of i ind] by (metis empty_iff insert_iff subsetD)

section \<open>The expansions\<close>

definition keys_ok :: "cross_params \<Rightarrow> nat list list \<Rightarrow> nat list list \<Rightarrow> bool" where
  \<comment> \<open>the matrices of a public key\<close>
  "keys_ok p V_tr W_mat \<longleftrightarrow>
     mat_ok (par_P (variant p)) (par_K p) (par_N p - par_K p) V_tr
     \<and> (variant p = RSDPG \<longrightarrow> mat_ok (par_Z (variant p)) (par_M p) (par_N p - par_M p) W_mat)"

lemma expand_pk_ok: "expand_pk p seed = (V_tr, W_mat) \<Longrightarrow> keys_ok p V_tr W_mat"
  using sample_fp_mat sample_fz_mat
  by (fastforce simp: expand_pk_def keys_ok_def mat_ok_def Let_def split_beta split: rsdp_variant.splits)

definition exponents_ok :: "cross_params \<Rightarrow> nat list list \<Rightarrow> nat list \<Rightarrow> nat list \<Rightarrow> bool" where
  \<comment> \<open>\<open>e_bar\<close> and, for RSDP(G), the shorter vector it is computed from\<close>
  "exponents_ok p W_mat e e_G \<longleftrightarrow>
     length e = par_N p \<and> fz_canon (variant p) e
     \<and> (variant p = RSDPG \<longrightarrow> length e_G = par_M p \<and> fz_canon (variant p) e_G
          \<and> e = fz_dz_norm_n p (fz_inf_w_by_fz_matrix p e_G W_mat))"

lemma fz_canon_le: "fz_canon v xs \<Longrightarrow> i < length xs \<Longrightarrow> xs ! i \<le> par_Z v"
  by (simp add: fz_canon_nth less_imp_le)

lemma fz_inf_w_nth:
  assumes "length w = par_M p" and "i < par_N p"
  shows "fz_inf_w_by_fz_matrix p w W_mat ! i =
    (if i < par_N p - par_M p
     then mac_rows (\<lambda>x. fz_store (variant p) (FZRED_DOUBLE (variant p) x)) (\<lambda>i. w ! i) W_mat (par_M p)
            (replicate (par_N p - par_M p) 0) ! i
     else w ! (i - (par_N p - par_M p)))"
  using assms par_M_lt_N [of p] by (simp add: fz_inf_w_by_fz_matrix_def nth_append)

lemma fz_inf_w_ok:
  assumes G: "variant p = RSDPG" and w: "length w = par_M p" "fz_ok (variant p) w"
    and W: "mat_ok (par_Z (variant p)) (par_M p) (par_N p - par_M p) W_mat"
  shows "fz_ok (variant p) (fz_inf_w_by_fz_matrix p w W_mat)"
proof -
  have le: "w ! i \<le> 127" if "i < par_M p" for i using w G that by (auto simp: fz_ok_def)
  have rows: "W_mat ! i ! j \<le> 127" if "i < par_M p" "j < par_N p - par_M p" for i j
    using mat_ok_nth [OF W that] G by simp
  have "fz_inf_w_by_fz_matrix p w W_mat ! i \<le> 127" if "i < par_N p" for i
    unfolding fz_inf_w_nth [OF w(1) that] G
    using fz.mac_rows_nth [of i "replicate (par_N p - par_M p) 0" "par_M p" "\<lambda>i. w ! i" W_mat] le rows that
      par_M_lt_N [of p] by auto
  then show ?thesis using w(1) G by (auto simp: fz_ok_def in_set_conv_nth)
qed

text \<open>The map from the short vectors to the exponents is linear modulo \<open>Z\<close>.\<close>

lemma fz_inf_w_linear:
  assumes G: "variant p = RSDPG" and len: "length a = par_M p" "length b = par_M p" "length c = par_M p"
    and ok: "fz_ok (variant p) a" "fz_ok (variant p) b" "fz_ok (variant p) c"
    and W: "mat_ok (par_Z (variant p)) (par_M p) (par_N p - par_M p) W_mat"
    and sum: "\<And>i. i < par_M p \<Longrightarrow> c ! i mod 127 = (a ! i + b ! i) mod 127"
    and i: "i < par_N p"
  shows "fz_inf_w_by_fz_matrix p c W_mat ! i mod 127
       = (fz_inf_w_by_fz_matrix p a W_mat ! i + fz_inf_w_by_fz_matrix p b W_mat ! i) mod 127"
proof (cases "i < par_N p - par_M p")
  case True
  have le: "a ! i \<le> 127" "b ! i \<le> 127" "c ! i \<le> 127" if "i < par_M p" for i
    using ok len G that by (auto simp: fz_ok_def)
  have rows: "W_mat ! j ! i \<le> 127" if "j < par_M p" for j
    using mat_ok_nth [OF W that True] G by simp
  show ?thesis
    unfolding fz_inf_w_nth [OF len(1) i] fz_inf_w_nth [OF len(2) i] fz_inf_w_nth [OF len(3) i] G
    using True le rows sum fz.mac_rows_linear [of i "replicate (par_N p - par_M p) 0" "replicate (par_N p - par_M p) 0"
        "replicate (par_N p - par_M p) 0" "par_M p" "\<lambda>i. a ! i" "\<lambda>i. b ! i" "\<lambda>i. c ! i" W_mat 1]
    by simp
next
  case False
  then have "i - (par_N p - par_M p) < par_M p" using i by linarith
  then show ?thesis using False
    unfolding fz_inf_w_nth [OF len(1) i] fz_inf_w_nth [OF len(2) i] fz_inf_w_nth [OF len(3) i] by (simp add: sum)
qed

lemma drawn_exponents:
  assumes "keys_ok p V_tr W_mat"
  shows "variant p = RSDP \<Longrightarrow> exponents_ok p W_mat (fst (csprng_fz_vec p st)) e_G"
    and "variant p = RSDPG \<Longrightarrow>
      exponents_ok p W_mat (fz_dz_norm_n p (fz_inf_w_by_fz_matrix p (fst (csprng_fz_inf_w p st)) W_mat)) (fst (csprng_fz_inf_w p st))"
proof -
  have "fz_canon (variant p) (fst (csprng_fz_vec p st))" "fz_canon (variant p) (fst (csprng_fz_inf_w p st))"
    using samples_in_range(3,4) unfolding fz_canon_def by blast+
  note canon = this fz_canon_ok [OF this(2)]
  show "variant p = RSDP \<Longrightarrow> exponents_ok p W_mat (fst (csprng_fz_vec p st)) e_G"
    using canon unfolding exponents_ok_def by simp
  assume G: "variant p = RSDPG"
  then have "fz_ok (variant p) (fz_inf_w_by_fz_matrix p (fst (csprng_fz_inf_w p st)) W_mat)"
    using canon assms unfolding keys_ok_def by (intro fz_inf_w_ok) simp_all
  then have "fz_canon (variant p) (fz_dz_norm_n p (fz_inf_w_by_fz_matrix p (fst (csprng_fz_inf_w p st)) W_mat))"
    by (rule fz_dz_norm_n_spec(1)) simp
  then show "exponents_ok p W_mat (fz_dz_norm_n p (fz_inf_w_by_fz_matrix p (fst (csprng_fz_inf_w p st)) W_mat)) (fst (csprng_fz_inf_w p st))"
    using canon unfolding exponents_ok_def G by simp
qed

lemma expand_seed_e_ok:
  assumes "keys_ok p V_tr W_mat" and "expand_seed_e p W_mat seed = (e, e_G)"
  shows "exponents_ok p W_mat e e_G"
  using assms(2) drawn_exponents [OF assms(1)]
  by (cases "variant p") (auto simp: expand_seed_e_def Let_def split_beta)

lemma expand_round_ok:
  assumes "keys_ok p V_tr W_mat" and "expand_round p W_mat seed salt i = (e, e_G, u)"
  shows "exponents_ok p W_mat e e_G" and "length u = par_N p" and "fp_canon (variant p) u"
proof -
  show "exponents_ok p W_mat e e_G"
    using assms(2) drawn_exponents [OF assms(1)]
    by (cases "variant p") (auto simp: expand_round_def Let_def split_beta)
  have "\<exists>st. u = fst (csprng_fp_vec p st)"
    using assms(2) unfolding expand_round_def Let_def split_beta by blast
  then show "length u = par_N p" "fp_canon (variant p) u"
    using samples_in_range(1) [of _ p] by (auto simp: fp_canon_def)
qed

section \<open>One hidden round\<close>

lemma P_pow: "x < par_P v \<Longrightarrow> x < 2 ^ fp_bits v" and Z_pow: "x < par_Z v \<Longrightarrow> x < 2 ^ fz_bits v"
  using P_le_bits [of v] by simp_all

lemma fp_norm_lt: "x \<le> fp_top v \<Longrightarrow> fp_norm v x < par_P v"
  by (rule fp.norm_lt)

lemma response_1_lt:
  assumes "length e' = par_N p" "fz_ok (variant p) e'" "length u' = par_N p" "fp_canon (variant p) u'"
    and "c < par_P (variant p)" and "x \<in> set (response_1 p e' c u')"
  shows "x < par_P (variant p)"
proof -
  obtain i where i: "i < par_N p"
    and x: "x = fp_norm (variant p) (fp_red (variant p) (u' ! i + RESTR_TO_VAL (variant p) (e' ! i) * c))"
    using assms(6) by (auto simp: response_1_def fp_dz_norm_def fp_vec_by_restr_vec_scaled_def)
  have "e' ! i \<le> par_Z (variant p)" using assms(1,2) i by (auto simp: fz_ok_def)
  then show ?thesis unfolding x
    using i assms by (intro fp_norm_lt fp.red_le fp.prod_bound fp_lt_top) (simp_all add: RESTR_TO_VAL_lt fp_canon_nth)
qed

lemma length_response_1 [simp]: "length (response_1 p e' c u') = par_N p"
  by (simp add: response_1_def)

text \<open>
  What the verifier reads back from a response: for RSDP the difference of the
  exponents itself, for RSDP(G) the image of the difference of the short vectors.
  Both agree with the difference modulo \<open>Z\<close>.
\<close>

definition packed_difference :: "cross_params \<Rightarrow> nat list \<Rightarrow> nat list \<Rightarrow> nat list \<Rightarrow> nat list \<Rightarrow> bytes" where
  "packed_difference p e e' e_G e_G' = (case variant p of
      RSDP \<Rightarrow> pack_fz_vec p (fz_dz_norm_n p (fz_vec_sub_n p e e'))
    | RSDPG \<Rightarrow> pack_fz_rsdp_g_vec p (fz_dz_norm_m p (fz_vec_sub_m p e_G e_G')))"

definition read_difference :: "cross_params \<Rightarrow> nat list list \<Rightarrow> bytes \<Rightarrow> nat list \<times> bool \<times> bool" where
  "read_difference p W_mat packed = (case variant p of
      RSDP \<Rightarrow> let (v_bar, padd) = unpack_fz_vec p packed in (v_bar, padd, is_fz_vec_in_restr_group_n p v_bar)
    | RSDPG \<Rightarrow> let (v_G_bar, padd) = unpack_fz_rsdp_g_vec p packed
               in (fz_inf_w_by_fz_matrix p v_G_bar W_mat, padd, is_fz_vec_in_restr_group_m p v_G_bar))"

lemma read_difference_n:
  assumes v: "variant p = RSDP" and e: "exponents_ok p W_mat e e_G" and e': "exponents_ok p W_mat e' e_G'"
  obtains vr where "read_difference p W_mat (packed_difference p e e' e_G e_G') = (vr, True, True)"
    and "length vr = par_N p" and "fz_ok (variant p) vr"
    and "\<And>i. i < par_N p \<Longrightarrow> (vr ! i + e' ! i) mod par_Z (variant p) = e ! i mod par_Z (variant p)"
proof -
  have ok: "fz_ok (variant p) e" "fz_ok (variant p) e'" "length e = par_N p" "length e' = par_N p"
    using e e' by (simp_all add: exponents_ok_def fz_canon_ok)
  note sub = fz_vec_sub_n_spec [OF ok]
  define vr where "vr = fz_dz_norm_n p (fz_vec_sub_n p e e')"
  have c: "fz_canon (variant p) vr" "length vr = par_N p"
    and nth: "\<And>i. i < par_N p \<Longrightarrow> vr ! i = fz_vec_sub_n p e e' ! i mod par_Z (variant p)"
    unfolding vr_def using fz_dz_norm_n_spec [OF sub(1)] by simp_all
  have "unpack_fz_vec p (pack_fz_vec p vr) = (vr, True)"
    by (rule unpack_fz_vec_pack [OF c(2)], rule Z_pow) (use c(1) in \<open>simp add: fz_canon_def\<close>)
  moreover have "is_fz_vec_in_restr_group_n p vr"
    using c by (simp add: is_fz_vec_in_restr_group_n_iff fz_canon_nth)
  ultimately show thesis
    using c sub(2) v nth by (intro that [of vr])
      (simp_all add: read_difference_def packed_difference_def vr_def [symmetric] fz_canon_ok mod_add_left_eq)
qed

lemma read_difference_m:
  assumes v: "variant p = RSDPG" and K: "keys_ok p V_tr W_mat"
    and e: "exponents_ok p W_mat e e_G" and e': "exponents_ok p W_mat e' e_G'"
  obtains vr where "read_difference p W_mat (packed_difference p e e' e_G e_G') = (vr, True, True)"
    and "length vr = par_N p" and "fz_ok (variant p) vr"
    and "\<And>i. i < par_N p \<Longrightarrow> (vr ! i + e' ! i) mod par_Z (variant p) = e ! i mod par_Z (variant p)"
proof -
  have W: "mat_ok (par_Z (variant p)) (par_M p) (par_N p - par_M p) W_mat" using K v by (simp add: keys_ok_def)
  have ok: "fz_ok (variant p) e_G" "fz_ok (variant p) e_G'" "length e_G = par_M p" "length e_G' = par_M p"
    and eqs: "e = fz_dz_norm_n p (fz_inf_w_by_fz_matrix p e_G W_mat)" "e' = fz_dz_norm_n p (fz_inf_w_by_fz_matrix p e_G' W_mat)"
    using e e' v unfolding exponents_ok_def by (blast intro: fz_canon_ok)+
  note sub = fz_vec_sub_m_spec [OF ok]
  define w where "w = fz_dz_norm_m p (fz_vec_sub_m p e_G e_G')"
  have c: "fz_canon (variant p) w" "length w = par_M p"
    and nth: "\<And>i. i < par_M p \<Longrightarrow> w ! i = fz_vec_sub_m p e_G e_G' ! i mod par_Z (variant p)"
    unfolding w_def using fz_dz_norm_m_spec [OF sub(1)] by simp_all
  have "unpack_fz_rsdp_g_vec p (pack_fz_rsdp_g_vec p w) = (w, True)"
    by (rule unpack_fz_rsdp_g_vec_pack [OF c(2)], rule Z_pow) (use c(1) in \<open>simp add: fz_canon_def\<close>)
  moreover have "is_fz_vec_in_restr_group_m p w"
    using c by (simp add: is_fz_vec_in_restr_group_m_iff fz_canon_nth)
  ultimately have rd: "read_difference p W_mat (packed_difference p e e' e_G e_G') = (fz_inf_w_by_fz_matrix p w W_mat, True, True)"
    using v by (simp add: read_difference_def packed_difference_def w_def [symmetric])
  let ?f = "\<lambda>x i. fz_inf_w_by_fz_matrix p x W_mat ! i"
  have sum: "e_G ! i mod 127 = (w ! i + e_G' ! i) mod 127" if "i < par_M p" for i
    using nth [OF that] sub(2) [OF that] v by (simp add: mod_add_left_eq)
  have lin: "?f e_G i mod 127 = (?f w i + ?f e_G' i) mod 127" if "i < par_N p" for i
    by (rule fz_inf_w_linear [OF v c(2) ok(4,3) fz_canon_ok [OF c(1)] ok(2,1) W sum that])
  have norm: "fz_dz_norm_n p (fz_inf_w_by_fz_matrix p x W_mat) ! i = ?f x i mod 127"
    if "i < par_N p" "fz_ok (variant p) x" "length x = par_M p" for x i
    using fz_dz_norm_n_spec(2) [OF fz_inf_w_ok [OF v that(3,2) W] _ that(1)] that(3) v by simp
  show thesis
  proof (rule that [OF rd])
    show "fz_ok (variant p) (fz_inf_w_by_fz_matrix p w W_mat)" by (rule fz_inf_w_ok [OF v c(2) fz_canon_ok [OF c(1)] W])
    show "(?f w i + e' ! i) mod par_Z (variant p) = e ! i mod par_Z (variant p)" if "i < par_N p" for i
      unfolding eqs norm [OF that ok(2,4)] norm [OF that ok(1,3)] using lin [OF that] v by (simp add: mod_add_right_eq)
  qed (simp add: c(2))
qed

lemma read_difference_ok:
  assumes "keys_ok p V_tr W_mat" "exponents_ok p W_mat e e_G" "exponents_ok p W_mat e' e_G'"
  obtains vr where "read_difference p W_mat (packed_difference p e e' e_G e_G') = (vr, True, True)"
    and "length vr = par_N p" and "fz_ok (variant p) vr"
    and "\<And>i. i < par_N p \<Longrightarrow> (vr ! i + e' ! i) mod par_Z (variant p) = e ! i mod par_Z (variant p)"
proof (cases "variant p")
  case RSDP
  show thesis by (rule read_difference_n [OF RSDP assms(2,3)]) (rule that)
next
  case RSDPG
  show thesis by (rule read_difference_m [OF RSDPG assms]) (rule that)
qed

text \<open>
  With no padding failure so far, the verifier turns the response of an honest
  round into the commitment of that round, and finds the response well formed.
\<close>

lemma verify_hidden_honest:
  assumes r_def: "r = sign_round p e_bar e_G_bar V_tr W_mat salt seeds i"
    and y_def: "y = response_1 p (r_e_bar_prime r) (chall_1 ! i) (r_u_prime r)"
    and s_def: "s = fp_dz_norm_synd p (restr_vec_by_fp_matrix p e_bar V_tr)"
    and K: "keys_ok p V_tr W_mat" and e: "exponents_ok p W_mat e_bar e_G_bar"
    and c: "chall_1 ! i < par_P (variant p)" and padd: "vf_is_packed_padd_ok st"
    and rsp: "sig_resp_0 sig ! vf_used_rsps st = \<lparr>resp_y = pack_fp_vec p y, resp_v = r_v_packed r\<rparr>"
    and salt: "sig_salt sig = salt"
  shows "verify_hidden p V_tr W_mat s chall_1 sig junk i st =
    st\<lparr>vf_y := (vf_y st)[i := y], vf_cmt_0 := (vf_cmt_0 st)[i := r_cmt_0 r],
       vf_cmt_1 := (vf_cmt_1 st)[i := sig_resp_1 sig ! vf_used_rsps st],
       vf_used_rsps := vf_used_rsps st + 1\<rparr>"
proof -
  obtain e' e_G' u' where ex: "expand_round p W_mat (round_seed p seeds i) salt i = (e', e_G', u')"
    by (metis prod_cases3)
  note e' = expand_round_ok [OF K ex]
  let ?vs = "fz_vec_sub_n p e_bar e'"
  let ?s' = "fp_dz_norm_synd p (fp_vec_by_fp_matrix p
      (fp_vec_by_fp_vec_pointwise p (convert_restr_vec_to_fp p ?vs) u') V_tr)"
  have r: "r_e_bar_prime r = e'" "r_u_prime r = u'" "r_v_packed r = packed_difference p e_bar e' e_G_bar e_G'"
    "r_cmt_0 r = hash p (pack_fp_syn p ?s' @ r_v_packed r @ salt) (domain_sep_hash p i)"
    by (simp_all add: r_def sign_round_def ex packed_difference_def Let_def)
  have ok: "length e_bar = par_N p" "length e' = par_N p" "fz_ok (variant p) e_bar" "fz_ok (variant p) e'"
    using e e'(1) by (simp_all add: exponents_ok_def fz_canon_ok)
  note sub = fz_vec_sub_n_spec [OF ok(3,4,1,2)]
  obtain vr where vr: "read_difference p W_mat (r_v_packed r) = (vr, True, True)"
    and vr_ok: "length vr = par_N p" "fz_ok (variant p) vr"
      "\<And>i. i < par_N p \<Longrightarrow> (vr ! i + e' ! i) mod par_Z (variant p) = e_bar ! i mod par_Z (variant p)"
    by (rule read_difference_ok [OF K e e'(1), folded r(3)]) (rule that)
  have V: "mat_ok (par_P (variant p)) (par_K p) (par_N p - par_K p) V_tr" using K by (simp add: keys_ok_def)
  have y: "unpack_fp_vec p (pack_fp_vec p y) = (y, True)"
    unfolding y_def r(1,2)
    by (rule unpack_fp_vec_pack) (simp, rule P_pow, rule response_1_lt [OF ok(2,4) e'(2,3) c])
  have id: "fp_dz_norm_synd p (fp_synd_minus_fp_vec_scaled p (fp_dz_norm_synd p (fp_vec_by_fp_matrix p
      (fp_vec_by_fp_vec_pointwise p (convert_restr_vec_to_fp p vr) y) V_tr)) (chall_1 ! i) s) = ?s'"
    unfolding y_def r(1,2) s_def response_1_def
    by (rule response_identity [OF ok(1,2) e'(2) vr_ok(1) _ ok(3,4) vr_ok(2) sub(1) vr_ok(3) sub(2) e'(3) c V]) simp_all
  have rd: "(case variant p of
      RSDP \<Rightarrow> let (v_bar, padd) = short_circuit True (unpack_fz_vec p x) d1 in (v_bar, padd, is_fz_vec_in_restr_group_n p v_bar)
    | RSDPG \<Rightarrow> let (v_G_bar, padd) = short_circuit True (unpack_fz_rsdp_g_vec p x) d2
               in (fz_inf_w_by_fz_matrix p v_G_bar W_mat, padd, is_fz_vec_in_restr_group_m p v_G_bar)) = read_difference p W_mat x"
    for x d1 d2 by (cases "variant p") (simp_all add: short_circuit_def read_difference_def)
  have sc: "short_circuit True u d = u" for u :: "nat list \<times> bool" and d by (simp add: short_circuit_def)
  show ?thesis
    unfolding verify_hidden_def Let_def rsp resp_0_t.simps padd [THEN eqTrueI] sc y prod.case rd [unfolded Let_def sc] vr id salt r(4)
    using padd by simp
qed

section \<open>The loops over the rounds\<close>

lemma foldE_append: "foldE f s (xs @ ys) = (case foldE f s xs of Inl e \<Rightarrow> Inl e | Inr s' \<Rightarrow> foldE f s' ys)"
  by (induction xs arbitrary: s) (auto split: sum.splits)

lemma foldE_invariant:
  assumes "I 0 s" and "\<And>i s. i < n \<Longrightarrow> I i s \<Longrightarrow> \<exists>s'. f s i = Inr s' \<and> I (Suc i) s'"
  shows "\<exists>s'. foldE f s [0..<n] = Inr s' \<and> I n s'"
  using assms(2)
proof (induction n)
  case 0
  then show ?case using assms(1) by simp
next
  case (Suc n)
  then obtain s' where "foldE f s [0..<n] = Inr s'" "I n s'" by fastforce
  moreover from Suc.prems [OF lessI this(2)] obtain s'' where "f s' n = Inr s''" "I (Suc n) s''" by blast
  ultimately show ?case by (simp add: foldE_append)
qed

definition hidden_rounds :: "nat list \<Rightarrow> nat \<Rightarrow> nat list" where
  \<comment> \<open>the rounds before \<open>n\<close> whose seed stays hidden\<close>
  "hidden_rounds chall_2 n = filter (\<lambda>i. chall_2 ! i = 0) [0..<n]"

lemma hidden_rounds_simps [simp]:
  "hidden_rounds chall_2 0 = []"
  "hidden_rounds chall_2 (Suc n) = (if chall_2 ! n = 0 then hidden_rounds chall_2 n @ [n] else hidden_rounds chall_2 n)"
  by (simp_all add: hidden_rounds_def)

lemma hidden_rounds_take: "i \<le> n \<Longrightarrow> take (length (hidden_rounds chall_2 i)) (hidden_rounds chall_2 n) = hidden_rounds chall_2 i"
  using upt_add_eq_append [of 0 i "n - i"] by (simp add: hidden_rounds_def)

lemma hidden_rounds_nth:
  assumes "i < n" and "chall_2 ! i = 0"
  shows "length (hidden_rounds chall_2 i) < length (hidden_rounds chall_2 n)"
    and "hidden_rounds chall_2 n ! length (hidden_rounds chall_2 i) = i"
proof -
  have t: "take (length (hidden_rounds chall_2 i) + 1) (hidden_rounds chall_2 n) = hidden_rounds chall_2 i @ [i]"
    using hidden_rounds_take [of "Suc i" n chall_2] assms by simp
  then have "length (take (length (hidden_rounds chall_2 i) + 1) (hidden_rounds chall_2 n)) = length (hidden_rounds chall_2 i) + 1"
    by simp
  then show l: "length (hidden_rounds chall_2 i) < length (hidden_rounds chall_2 n)" by simp
  show "hidden_rounds chall_2 n ! length (hidden_rounds chall_2 i) = i"
    using t l by (metis (no_types, lifting) add_gr_0 less_add_one nth_append_length nth_take zero_less_one)
qed

lemma length_hidden_rounds: "challenge_ok p chall_2 \<Longrightarrow> length (hidden_rounds chall_2 (par_T p)) = par_T p - par_W p"
proof -
  assume ok: "challenge_ok p chall_2"
  then have "x \<in> set chall_2 \<Longrightarrow> (x = 0) = (x \<noteq> 1)" for x by (auto simp: challenge_ok_def)
  then have "filter (\<lambda>x. x = 0) chall_2 = filter (\<lambda>x. x \<noteq> 1) chall_2" by (intro filter_cong) auto
  then show ?thesis
    using filter_upt_nth [of "\<lambda>x. x = 0" chall_2] challenge_zeros [OF ok] ok by (simp add: hidden_rounds_def challenge_ok_def)
qed

lemma hidden_lt_capacity:
  "challenge_ok p chall_2 \<Longrightarrow> i < par_T p \<Longrightarrow> chall_2 ! i = 0 \<Longrightarrow> length (hidden_rounds chall_2 i) < par_T p - par_W p"
  using hidden_rounds_nth(1) [of i "par_T p" chall_2] by (simp add: length_hidden_rounds)

text \<open>The signer publishes one response per hidden round, in order, and the assertion on the count holds.\<close>

lemma map_update_next: "k < n \<Longrightarrow> length xs = n \<Longrightarrow> length ys = k \<Longrightarrow> (ys @ drop k xs)[k := v] = (ys @ [v]) @ drop (Suc k) xs"
  by (simp add: list_update_append Cons_nth_drop_Suc [symmetric])

lemma publish_responses:
  assumes ok: "challenge_ok p chall_2" and len: "length resp_0 = par_T p - par_W p" "length resp_1 = par_T p - par_W p"
  defines "Z \<equiv> hidden_rounds chall_2"
  shows "foldE (publish_response p y rounds chall_2) (resp_0, resp_1, 0) [0..<par_T p] =
    Inr (map (\<lambda>i. \<lparr>resp_y = pack_fp_vec p (y ! i), resp_v = r_v_packed (rounds ! i)\<rparr>) (Z (par_T p)),
         map (\<lambda>i. r_cmt_1 (rounds ! i)) (Z (par_T p)), par_T p - par_W p)"
proof -
  let ?a = "\<lambda>i. \<lparr>resp_y = pack_fp_vec p (y ! i), resp_v = r_v_packed (rounds ! i)\<rparr>" and ?b = "\<lambda>i. r_cmt_1 (rounds ! i)"
  define I where "I k s \<longleftrightarrow> s = (map ?a (Z k) @ drop (length (Z k)) resp_0, map ?b (Z k) @ drop (length (Z k)) resp_1, length (Z k))"
    for k s
  have "\<exists>s'. foldE (publish_response p y rounds chall_2) (resp_0, resp_1, 0) [0..<par_T p] = Inr s' \<and> I (par_T p) s'"
  proof (rule foldE_invariant [where I = I])
    show "I 0 (resp_0, resp_1, 0)" by (simp add: I_def Z_def)
    fix i s
    assume i: "i < par_T p" and I: "I i s"
    show "\<exists>s'. publish_response p y rounds chall_2 s i = Inr s' \<and> I (Suc i) s'"
    proof (cases "chall_2 ! i = 0")
      case True
      then have "length (Z i) < par_T p - par_W p" unfolding Z_def by (rule hidden_lt_capacity [OF ok i])
      then show ?thesis using True len I
        by (simp add: publish_response_def I_def Z_def map_update_next)
    next
      case False
      then show ?thesis using I by (simp add: publish_response_def I_def Z_def)
    qed
  qed
  then show ?thesis using len length_hidden_rounds [OF ok] by (simp add: I_def Z_def)
qed

text \<open>
  The verifier's loop: after \<open>k\<close> rounds it has recomputed the first responses and
  commitments and used as many responses as there were hidden rounds.
\<close>

definition verified :: "nat list \<Rightarrow> nat list list \<Rightarrow> round_t list \<Rightarrow> nat \<Rightarrow> verify_t \<Rightarrow> bool" where
  "verified chall_2 y rounds k st \<longleftrightarrow>
     length (vf_y st) = length rounds \<and> length (vf_cmt_0 st) = length rounds \<and> length (vf_cmt_1 st) = length rounds
     \<and> vf_used_rsps st = length (hidden_rounds chall_2 k) \<and> vf_is_signature_ok st \<and> vf_is_packed_padd_ok st
     \<and> (\<forall>i<k. vf_y st ! i = y ! i \<and> vf_cmt_1 st ! i = r_cmt_1 (rounds ! i)
           \<and> (chall_2 ! i = 0 \<longrightarrow> vf_cmt_0 st ! i = r_cmt_0 (rounds ! i)))"

lemma verify_revealed_honest:
  assumes "expand_round p W_mat (round_seed p seeds i) salt i = (e', e_G', u')"
    and "round_seed p round_seeds i = round_seed p seeds i" and "sig_salt sig = salt"
    and "r = sign_round p e_bar e_G_bar V_tr W_mat salt seeds i"
  shows "verify_revealed p W_mat chall_1 round_seeds sig i st =
    st\<lparr>vf_cmt_1 := (vf_cmt_1 st)[i := r_cmt_1 r],
       vf_y := (vf_y st)[i := response_1 p (r_e_bar_prime r) (chall_1 ! i) (r_u_prime r)]\<rparr>"
  using assms by (simp add: verify_revealed_def sign_round_def Let_def)

lemma verify_rounds_honest:
  fixes y :: "nat list list"
  assumes K: "keys_ok p V_tr W_mat" and e: "exponents_ok p W_mat e_bar e_G_bar"
    and s: "s = fp_dz_norm_synd p (restr_vec_by_fp_matrix p e_bar V_tr)"
    and c: "\<And>i. i < par_T p \<Longrightarrow> chall_1 ! i < par_P (variant p)" and ok: "challenge_ok p chall_2"
    and rounds: "rounds = map (sign_round p e_bar e_G_bar V_tr W_mat salt seeds) [0..<par_T p]"
    and y: "y = map (\<lambda>i. response_1 p (r_e_bar_prime (rounds ! i)) (chall_1 ! i) (r_u_prime (rounds ! i))) [0..<par_T p]"
    and sig: "sig_salt sig = salt"
      "sig_resp_0 sig = map (\<lambda>i. \<lparr>resp_y = pack_fp_vec p (y ! i), resp_v = r_v_packed (rounds ! i)\<rparr>) (hidden_rounds chall_2 (par_T p))"
      "sig_resp_1 sig = map (\<lambda>i. r_cmt_1 (rounds ! i)) (hidden_rounds chall_2 (par_T p))"
    and rs: "\<And>i. i < par_T p \<Longrightarrow> chall_2 ! i = 1 \<Longrightarrow> round_seed p round_seeds i = round_seed p seeds i"
  shows "\<exists>st. foldE (verify_round p V_tr W_mat s chall_1 chall_2 round_seeds sig junk) (verify_start p junk) [0..<par_T p] = Inr st
    \<and> verified chall_2 y rounds (par_T p) st"
proof (rule foldE_invariant)
  show "verified chall_2 y rounds 0 (verify_start p junk)"
    by (simp add: verified_def verify_start_def rounds)
  fix i st
  assume i: "i < par_T p" and st: "verified chall_2 y rounds i st"
  have r: "rounds ! i = sign_round p e_bar e_G_bar V_tr W_mat salt seeds i" using i by (simp add: rounds)
  have yi: "y ! i = response_1 p (r_e_bar_prime (rounds ! i)) (chall_1 ! i) (r_u_prime (rounds ! i))" using i by (simp add: y)
  have L: "length rounds = par_T p" by (simp add: rounds)
  show "\<exists>st'. verify_round p V_tr W_mat s chall_1 chall_2 round_seeds sig junk st i = Inr st'
      \<and> verified chall_2 y rounds (Suc i) st'"
  proof (cases "chall_2 ! i = 1")
    case True
    obtain e' e_G' u' where ex: "expand_round p W_mat (round_seed p seeds i) salt i = (e', e_G', u')"
      by (metis prod_cases3)
    have "verify_round p V_tr W_mat s chall_1 chall_2 round_seeds sig junk st i
        = Inr (st\<lparr>vf_cmt_1 := (vf_cmt_1 st)[i := r_cmt_1 (rounds ! i)], vf_y := (vf_y st)[i := y ! i]\<rparr>)"
      using verify_revealed_honest [OF ex rs [OF i True] sig(1) r] True unfolding verify_round_def yi by simp
    then show ?thesis using st True L i by (simp add: verified_def less_Suc_eq nth_list_update)
  next
    case False
    then have z: "chall_2 ! i = 0" using challenge_bit [OF ok i] by simp
    have u: "vf_used_rsps st = length (hidden_rounds chall_2 i)" "vf_is_packed_padd_ok st"
      using st by (simp_all add: verified_def)
    note nth = hidden_rounds_nth [OF i z]
    have "sig_resp_0 sig ! vf_used_rsps st = \<lparr>resp_y = pack_fp_vec p (y ! i), resp_v = r_v_packed (rounds ! i)\<rparr>"
      "sig_resp_1 sig ! vf_used_rsps st = r_cmt_1 (rounds ! i)"
      using nth by (simp_all add: sig u(1))
    note hid = verify_hidden_honest [OF r yi s K e c [OF i] u(2) this(1) sig(1), unfolded this(2)]
    have "verify_round p V_tr W_mat s chall_1 chall_2 round_seeds sig junk st i
        = Inr (st\<lparr>vf_y := (vf_y st)[i := y ! i], vf_cmt_0 := (vf_cmt_0 st)[i := r_cmt_0 (rounds ! i)],
             vf_cmt_1 := (vf_cmt_1 st)[i := r_cmt_1 (rounds ! i)], vf_used_rsps := vf_used_rsps st + 1\<rparr>)"
      using nth(1) False by (simp add: verify_round_def hid sig(2,3) u(1))
    then show ?thesis using st z L i u by (simp add: verified_def less_Suc_eq nth_list_update)
  qed
qed

section \<open>An honest signature is accepted\<close>

lemma keygen_expands:
  assumes "CROSS_keygen p st = ((SK, PK), st')"
  obtains e_bar e_G_bar V_tr W_mat where "expand_sk p (sk_seed_sk SK) = (e_bar, e_G_bar, V_tr, W_mat)"
    and "expand_pk p (pk_seed_pk PK) = (V_tr, W_mat)" and "keys_ok p V_tr W_mat" and "exponents_ok p W_mat e_bar e_G_bar"
    and "pk_s PK = pack_fp_syn p (fp_dz_norm_synd p (restr_vec_by_fp_matrix p e_bar V_tr))"
proof -
  obtain seed_sk st1 where r: "randombytes p (KEYPAIR_SEED_LENGTH_BYTES p) st = (seed_sk, st1)" by fastforce
  obtain seed_e seed_pk where s: "expand_seed_sk p seed_sk = (seed_e, seed_pk)" by fastforce
  obtain V_tr W_mat where V: "expand_pk p seed_pk = (V_tr, W_mat)" by fastforce
  obtain e_bar e_G_bar where e: "expand_seed_e p W_mat seed_e = (e_bar, e_G_bar)" by fastforce
  note K = expand_pk_ok [OF V]
  have "SK = \<lparr>sk_seed_sk = seed_sk\<rparr>"
    "PK = \<lparr>pk_seed_pk = seed_pk, pk_s = pack_fp_syn p (fp_dz_norm_synd p (restr_vec_by_fp_matrix p e_bar V_tr))\<rparr>"
    using assms by (simp_all add: CROSS_keygen_def r s V e)
  then show thesis by (intro that [of e_bar e_G_bar V_tr W_mat] K expand_seed_e_ok [OF K e]) (simp_all add: expand_sk_def s V e)
qed

lemma fp_dz_norm_synd_lt:
  assumes "\<And>j. j < par_N p - par_K p \<Longrightarrow> v ! j \<le> fp_top (variant p)" and "x \<in> set (fp_dz_norm_synd p v)"
  shows "x < par_P (variant p)"
  using assms by (auto simp: fp_dz_norm_synd_def intro: fp_norm_lt)

lemma public_syndrome_unpacks:
  assumes K: "keys_ok p V_tr W_mat" and e: "exponents_ok p W_mat e_bar e_G_bar"
  defines "s \<equiv> fp_dz_norm_synd p (restr_vec_by_fp_matrix p e_bar V_tr)"
  shows "unpack_fp_syn p (pack_fp_syn p s) = (s, True)"
proof (rule unpack_fp_syn_pack)
  have len: "length e_bar = par_N p" and "fz_ok (variant p) e_bar"
    using e by (simp_all add: exponents_ok_def fz_canon_ok)
  then have syn: "syn_ok p (convert_restr_vec_to_fp p e_bar) V_tr"
    using K convert_le unfolding keys_ok_def by (intro syn_okI) auto
  show "x < 2 ^ fp_bits (variant p)" if "x \<in> set s" for x
  proof (rule P_pow [OF fp_dz_norm_synd_lt])
    show "x \<in> set (fp_dz_norm_synd p (fp_vec_by_fp_matrix p (convert_restr_vec_to_fp p e_bar) V_tr))"
      using that unfolding s_def restr_syndrome_eq [OF len] .
  qed (rule syn_nth_le [OF syn])
qed (simp add: s_def)

lemma length_randombytes: "n < 2 ^ 32 \<Longrightarrow> length (fst (randombytes p n st)) = n"
  by (simp add: randombytes_def length_csprng_randombytes)

lemma seed_sizes: "SEED_LENGTH_BYTES p < 2 ^ 32" "SALT_LENGTH_BYTES p < 2 ^ 32" "KEYPAIR_SEED_LENGTH_BYTES p < 2 ^ 31"
  by (cases "variant p"; cases "cat p"; cases "corner p"; simp add: par_unfold SEED_LENGTH_BYTES_def SALT_LENGTH_BYTES_def KEYPAIR_SEED_LENGTH_BYTES_def)+

lemma challenge_1_lt: "i < par_T p \<Longrightarrow> challenge_1 p d ! i < par_P (variant p)"
proof -
  obtain st where "challenge_1 p d = fst (csprng_fp_vec_chall_1 p st)"
    by (simp add: challenge_1_def Let_def split_beta)
  then show "i < par_T p \<Longrightarrow> ?thesis" using samples_in_range(2) [of "challenge_1 p d ! i" p st] by simp
qed

definition sig_ok :: "cross_params \<Rightarrow> CROSS_sig_t \<Rightarrow> bool" where
  \<comment> \<open>every array has the size the structure gives it\<close>
  "sig_ok p sig \<longleftrightarrow>
     length (sig_salt sig) = SALT_LENGTH_BYTES p
     \<and> length (sig_digest_cmt sig) = HASH_DIGEST_LENGTH p \<and> length (sig_digest_chall_2 sig) = HASH_DIGEST_LENGTH p
     \<and> length (sig_path sig) = path_nodes p * SEED_LENGTH_BYTES p
     \<and> length (sig_proof sig) = path_nodes p * HASH_DIGEST_LENGTH p
     \<and> length (sig_resp_1 sig) = par_T p - par_W p \<and> (\<forall>x \<in> set (sig_resp_1 sig). length x = HASH_DIGEST_LENGTH p)
     \<and> length (sig_resp_0 sig) = par_T p - par_W p
     \<and> (\<forall>r \<in> set (sig_resp_0 sig). length (resp_y r) = DENSELY_PACKED_FP_VEC_SIZE p \<and> length (resp_v r) = packed_v_size p)"

lemma zero_sig_ok: "sig_ok p (zero_sig p)"
  by (simp add: sig_ok_def zero_sig_def)

text \<open>The message enters only through its digest, which reads a prefix of it.\<close>

lemma digest_challenge_1_prefix: "digest_challenge_1 p m = digest_challenge_1 p (take (length m mod 2 ^ 32) m)"
proof -
  have "length (take (length m mod 2 ^ 32) m) = length m mod 2 ^ 32" by simp
  then have "hash p m = hash p (take (length m mod 2 ^ 32) m)"
    unfolding fun_eq_iff hash_sponge [of p m] hash_sponge [of p "take _ _"] by simp
  then show ?thesis unfolding digest_challenge_1_def by simp
qed

lemma distinct_domains:
  "distinct (map (\<lambda>i. dsc_ordered (CSPRNG_DOMAIN_SEP_CONST + i)) [0..<3 * par_T p + 4]
     @ map dsc_ordered (HASH_DOMAIN_SEP_CONST # map (domain_sep_hash p) [0..<par_T p]))"
proof -
  let ?ds = "[0..<3 * par_T p + 4] @ HASH_DOMAIN_SEP_CONST # map (domain_sep_hash p) [0..<par_T p]"
  have eq: "dsc_ordered d = [of_nat (d mod 256), of_nat (d div 256 mod 256)]" for d
  proof -
    have "k AND 255 = k mod 256" for k :: nat using take_bit_eq_mask [of 8 k] by (simp add: mask_eq_exp_minus_1 take_bit_nat_def)
    then show ?thesis by (simp add: dsc_ordered_def drop_bit_nat_def)
  qed
  have inj: "d = e" if "dsc_ordered d = dsc_ordered e" "d < 2 ^ 16" "e < 2 ^ 16" for d e
  proof -
    have b: "x mod 256 = y mod 256" if "(of_nat (x mod 256) :: byte) = of_nat (y mod 256)" for x y :: nat
      using arg_cong [OF that, of unat] by (simp add: unat_of_nat_take_bit take_bit_nat_def)
    have "d mod 256 = e mod 256" "d div 256 mod 256 = e div 256 mod 256" using that(1) b by (auto simp: eq)
    moreover have "d div 256 mod 256 = d div 256" "e div 256 mod 256 = e div 256"
      using that(2,3) by (simp_all add: less_mult_imp_div_less)
    ultimately show ?thesis by (metis div_mult_mod_eq)
  qed
  have "d < 2 ^ 16" if "d \<in> set ?ds" for d
    using that par_T_le [of p] by (auto simp: domain_sep_hash_def HASH_DOMAIN_SEP_CONST_def)
  then have "inj_on dsc_ordered (set ?ds)" using inj by (meson inj_onI)
  moreover have "distinct ?ds"
    using par_T_le [of p] par_W_lt_T [of p] by (auto simp: domain_sep_hash_def HASH_DOMAIN_SEP_CONST_def distinct_map inj_on_def)
  ultimately have "distinct (map dsc_ordered ?ds)" by (intro iffD2 [OF distinct_map] conjI)
  then show ?thesis unfolding CSPRNG_DOMAIN_SEP_CONST_def by (simp only: map_append add_0_left)
qed

lemma sign_round_sizes:
  "length (r_cmt_0 (sign_round p e e_G V W salt seeds i)) = HASH_DIGEST_LENGTH p"
  "length (r_cmt_1 (sign_round p e e_G V W salt seeds i)) = HASH_DIGEST_LENGTH p"
  "length (r_v_packed (sign_round p e e_G V W salt seeds i)) = packed_v_size p"
  by (cases "variant p"; simp add: sign_round_def Let_def split_beta packed_v_size_def)+

text \<open>
  What an honest signature consists of: the second challenge decides which seeds
  are released, and each hidden round contributes its response.
\<close>

lemma sign_succeeds:
  assumes sk: "expand_sk p (sk_seed_sk SK) = (e_bar, e_G_bar, V_tr, W_mat)"
  obtains sig st' seeds rounds chall_1 y root_seed where
    "CROSS_sign p junk SK m st = Inr (sig, st')" "sig_ok p sig" "length root_seed = SEED_LENGTH_BYTES p"
    "seeds = commit_seeds p root_seed (sig_salt sig)"
    "rounds = map (sign_round p e_bar e_G_bar V_tr W_mat (sig_salt sig) (snd seeds)) [0..<par_T p]"
    "chall_1 = challenge_1 p (digest_challenge_1 p m (sig_digest_cmt sig) (sig_salt sig))"
    "y = map (\<lambda>i. response_1 p (r_e_bar_prime (rounds ! i)) (chall_1 ! i) (r_u_prime (rounds ! i))) [0..<par_T p]"
    "sig_digest_cmt sig = commitment_digest p (fst (commit_root p junk (map r_cmt_0 rounds))) (map r_cmt_1 rounds)"
    "sig_digest_chall_2 sig = digest_challenge_2 p y (digest_challenge_1 p m (sig_digest_cmt sig) (sig_salt sig))"
    "sig_resp_0 sig = map (\<lambda>i. \<lparr>resp_y = pack_fp_vec p (y ! i), resp_v = r_v_packed (rounds ! i)\<rparr>)
       (hidden_rounds (expand_digest_to_fixed_weight p (sig_digest_chall_2 sig)) (par_T p))"
    "sig_resp_1 sig = map (\<lambda>i. r_cmt_1 (rounds ! i))
       (hidden_rounds (expand_digest_to_fixed_weight p (sig_digest_chall_2 sig)) (par_T p))"
    "\<exists>m. release_seeds p (replicate (path_nodes p * SEED_LENGTH_BYTES p) 0) seeds
       (expand_digest_to_fixed_weight p (sig_digest_chall_2 sig)) = Some (sig_path sig, m)"
    "\<exists>m. open_commitments p (replicate (path_nodes p * HASH_DIGEST_LENGTH p) 0) (map r_cmt_0 rounds)
       (snd (commit_root p junk (map r_cmt_0 rounds))) (expand_digest_to_fixed_weight p (sig_digest_chall_2 sig)) = Some (sig_proof sig, m)"
proof -
  obtain root_seed st1 where rs: "randombytes p (SEED_LENGTH_BYTES p) st = (root_seed, st1)" by fastforce
  obtain salt st' where sa: "randombytes p (SALT_LENGTH_BYTES p) st1 = (salt, st')" by fastforce
  have lens: "length root_seed = SEED_LENGTH_BYTES p" "length salt = SALT_LENGTH_BYTES p"
    using length_randombytes [of "SEED_LENGTH_BYTES p" p st] length_randombytes [of "SALT_LENGTH_BYTES p" p st1]
      seed_sizes [of p] rs sa by simp_all
  define seeds where "seeds = commit_seeds p root_seed salt"
  define rounds where "rounds = map (sign_round p e_bar e_G_bar V_tr W_mat salt (snd seeds)) [0..<par_T p]"
  define cmt_0 where "cmt_0 = map r_cmt_0 rounds"
  define dc where "dc = commitment_digest p (fst (commit_root p junk cmt_0)) (map r_cmt_1 rounds)"
  define chall_1 where "chall_1 = challenge_1 p (digest_challenge_1 p m dc salt)"
  define y where "y = map (\<lambda>i. response_1 p (r_e_bar_prime (rounds ! i)) (chall_1 ! i) (r_u_prime (rounds ! i))) [0..<par_T p]"
  define d2 where "d2 = digest_challenge_2 p y (digest_challenge_1 p m dc salt)"
  let ?c = "expand_digest_to_fixed_weight p d2"
  have cmt_0: "length cmt_0 = par_T p" "\<And>x. x \<in> set cmt_0 \<Longrightarrow> length x = HASH_DIGEST_LENGTH p"
    by (auto simp: cmt_0_def rounds_def sign_round_sizes)
  obtain mtp k where mtp: "open_commitments p (replicate (path_nodes p * HASH_DIGEST_LENGTH p) 0) cmt_0 (snd (commit_root p junk cmt_0)) ?c = Some (mtp, k)"
    "length mtp = path_nodes p * HASH_DIGEST_LENGTH p" using commits.proof_fits [OF chall_2_ok cmt_0] by blast
  obtain path k' where path: "release_seeds p (replicate (path_nodes p * SEED_LENGTH_BYTES p) 0) seeds ?c = Some (path, k')"
    "length path = path_nodes p * SEED_LENGTH_BYTES p" using seeds.path_fits [OF chall_2_ok lens(1)] unfolding seeds_def by blast
  note pub = publish_responses [OF chall_2_ok [of p d2] length_replicate length_replicate, where y = y and rounds = rounds]
  let ?r0 = "map (\<lambda>i. \<lparr>resp_y = pack_fp_vec p (y ! i), resp_v = r_v_packed (rounds ! i)\<rparr>) (hidden_rounds ?c (par_T p))"
  let ?r1 = "map (\<lambda>i. r_cmt_1 (rounds ! i)) (hidden_rounds ?c (par_T p))"
  let ?sig = "\<lparr>sig_salt = salt, sig_digest_cmt = dc, sig_digest_chall_2 = d2, sig_path = path, sig_proof = mtp,
      sig_resp_1 = ?r1, sig_resp_0 = ?r0\<rparr>"
  have sign: "CROSS_sign p junk SK m st = Inr (?sig, st')"
    using mtp(1) path(1) pub
    by (simp del: map_map add: CROSS_sign_def sk rs sa zero_sig_def Let_def split_beta checked_def
        seeds_def [symmetric] rounds_def [symmetric] cmt_0_def [symmetric] dc_def [symmetric] chall_1_def [symmetric]
        y_def [symmetric] d2_def [symmetric])
  have sizes: "length (pack_fp_vec p (y ! i)) = DENSELY_PACKED_FP_VEC_SIZE p"
    "length (r_v_packed (rounds ! i)) = packed_v_size p" "length (r_cmt_1 (rounds ! i)) = HASH_DIGEST_LENGTH p"
    if "i \<in> set (hidden_rounds ?c (par_T p))" for i
    using that by (auto simp: hidden_rounds_def y_def rounds_def sign_round_sizes)
  have "length dc = HASH_DIGEST_LENGTH p" "length d2 = HASH_DIGEST_LENGTH p"
    by (simp_all add: dc_def d2_def commitment_digest_def digest_challenge_2_def)
  then have "sig_ok p ?sig"
    using sizes unfolding sig_ok_def by (simp add: lens path mtp length_hidden_rounds [OF chall_2_ok])
  then show thesis
    using sign lens mtp(1) path(1)
    by (intro that [of ?sig st' root_seed seeds rounds chall_1 y])
      (simp_all add: seeds_def rounds_def cmt_0_def dc_def chall_1_def y_def d2_def)
qed

lemma verify_accepts:
  assumes keys: "expand_sk p (sk_seed_sk SK) = (e_bar, e_G_bar, V_tr, W_mat)" "expand_pk p (pk_seed_pk PK) = (V_tr, W_mat)"
      "keys_ok p V_tr W_mat" "exponents_ok p W_mat e_bar e_G_bar"
      "pk_s PK = pack_fp_syn p (fp_dz_norm_synd p (restr_vec_by_fp_matrix p e_bar V_tr))"
    and sign: "CROSS_sign p junk_t SK m st = Inr (sig, st')"
  shows "CROSS_verify p junk PK m sig = Inr True"
proof -
  obtain seeds rounds chall_1 y root_seed where sig: "length root_seed = SEED_LENGTH_BYTES p"
    "seeds = commit_seeds p root_seed (sig_salt sig)"
    "rounds = map (sign_round p e_bar e_G_bar V_tr W_mat (sig_salt sig) (snd seeds)) [0..<par_T p]"
    "chall_1 = challenge_1 p (digest_challenge_1 p m (sig_digest_cmt sig) (sig_salt sig))"
    "y = map (\<lambda>i. response_1 p (r_e_bar_prime (rounds ! i)) (chall_1 ! i) (r_u_prime (rounds ! i))) [0..<par_T p]"
    and digests: "sig_digest_cmt sig = commitment_digest p (fst (commit_root p junk_t (map r_cmt_0 rounds))) (map r_cmt_1 rounds)"
    "sig_digest_chall_2 sig = digest_challenge_2 p y (digest_challenge_1 p m (sig_digest_cmt sig) (sig_salt sig))"
    and resp: "sig_resp_0 sig = map (\<lambda>i. \<lparr>resp_y = pack_fp_vec p (y ! i), resp_v = r_v_packed (rounds ! i)\<rparr>)
       (hidden_rounds (expand_digest_to_fixed_weight p (sig_digest_chall_2 sig)) (par_T p))"
    "sig_resp_1 sig = map (\<lambda>i. r_cmt_1 (rounds ! i))
       (hidden_rounds (expand_digest_to_fixed_weight p (sig_digest_chall_2 sig)) (par_T p))"
    and path: "\<exists>m. release_seeds p (replicate (path_nodes p * SEED_LENGTH_BYTES p) 0) seeds
       (expand_digest_to_fixed_weight p (sig_digest_chall_2 sig)) = Some (sig_path sig, m)"
    and mtp: "\<exists>m. open_commitments p (replicate (path_nodes p * HASH_DIGEST_LENGTH p) 0) (map r_cmt_0 rounds)
       (snd (commit_root p junk_t (map r_cmt_0 rounds))) (expand_digest_to_fixed_weight p (sig_digest_chall_2 sig)) = Some (sig_proof sig, m)"
    using sign by (auto intro: sign_succeeds [OF keys(1), of junk_t m st])
  let ?c = "expand_digest_to_fixed_weight p (sig_digest_chall_2 sig)"
  let ?s = "fp_dz_norm_synd p (restr_vec_by_fp_matrix p e_bar V_tr)"
  obtain k where path': "release_seeds p (replicate (path_nodes p * SEED_LENGTH_BYTES p) 0) seeds ?c = Some (sig_path sig, k)"
    using path ..
  obtain k' where mtp': "open_commitments p (replicate (path_nodes p * HASH_DIGEST_LENGTH p) 0) (map r_cmt_0 rounds)
       (snd (commit_root p junk_t (map r_cmt_0 rounds))) ?c = Some (sig_proof sig, k')" using mtp ..
  obtain r where r: "rebuild_seeds p ?c (sig_path sig) (sig_salt sig) = Some (r, True)"
    and same: "\<And>i. i < par_T p \<Longrightarrow> ?c ! i = 1 \<Longrightarrow> round_seed p r i = round_seed p (snd seeds) i"
    using seeds.path_rebuilds [OF chall_2_ok sig(1) path' [unfolded sig(2)]] unfolding round_seed_def sig(2) by blast
  obtain vs where vs: "foldE (verify_round p V_tr W_mat ?s chall_1 ?c r sig junk) (verify_start p junk) [0..<par_T p] = Inr vs"
    and v: "verified ?c y rounds (par_T p) vs"
    using verify_rounds_honest [OF keys(3,4) refl challenge_1_lt [of _ p "digest_challenge_1 p m (sig_digest_cmt sig) (sig_salt sig)", folded sig(4)]
        chall_2_ok sig(3,5) refl resp same] by blast
  have L: "length rounds = par_T p" "length y = par_T p" by (simp_all add: sig(3,5))
  have vy: "vf_y vs = y" "vf_cmt_1 vs = map r_cmt_1 rounds"
    using v L by (auto simp: verified_def intro: nth_equalityI)
  have cmt: "length (map r_cmt_0 rounds) = par_T p" "\<And>x. x \<in> set (map r_cmt_0 rounds) \<Longrightarrow> length x = HASH_DIGEST_LENGTH p"
    by (auto simp: sig(3) sign_round_sizes)
  have "recompute_commitment p (junk_tree junk) (vf_cmt_0 vs) (sig_proof sig) ?c
      = Some (fst (commit_root p junk_t (map r_cmt_0 rounds)), True)"
    by (rule commits.proof_opens [OF chall_2_ok cmt mtp']) (use v L in \<open>simp_all add: verified_def\<close>)
  moreover have "vf_is_signature_ok vs" "vf_is_packed_padd_ok vs" using v by (simp_all add: verified_def)
  ultimately show ?thesis
    using vs r public_syndrome_unpacks [OF keys(3,4)]
    by (simp add: CROSS_verify_def keys(2,5) checked_def Let_def sig(4) [symmetric] vy assert_holds_def digests [symmetric])
qed

theorem sign_verify:
  assumes "CROSS_keygen p st = ((SK, PK), st')"
  shows "\<exists>sig st''. CROSS_sign p junk_t SK m st1 = Inr (sig, st'') \<and> sig_ok p sig \<and> CROSS_verify p junk PK m sig = Inr True"
proof -
  obtain e_bar e_G_bar V_tr W_mat where k: "expand_sk p (sk_seed_sk SK) = (e_bar, e_G_bar, V_tr, W_mat)"
    "expand_pk p (pk_seed_pk PK) = (V_tr, W_mat)" "keys_ok p V_tr W_mat" "exponents_ok p W_mat e_bar e_G_bar"
    "pk_s PK = pack_fp_syn p (fp_dz_norm_synd p (restr_vec_by_fp_matrix p e_bar V_tr))"
    by (rule keygen_expands [OF assms])
  obtain sig st'' where s: "CROSS_sign p junk_t SK m st1 = Inr (sig, st'')" "sig_ok p sig"
    by (rule sign_succeeds [OF k(1)])
  with verify_accepts [OF k s(1)] show ?thesis by blast
qed

end
