(* ===== verification/Any_Signature.thy ===== *)
theory Any_Signature
  imports Cross_Correct
begin

text \<open>
  Verification of an arbitrary signature, of which only the sizes of the arrays are
  known: every read of the released seeds, of the proof and of the responses stays
  inside its array, whatever the digests select; acceptance does not depend on the
  memory the verifier reads before writing it; and an accepted signature passed every
  check of the code.
\<close>

section \<open>Reading the released seeds and the proof\<close>

lemma foldM_counts:
  assumes "\<And>s n q. q \<in> set qs \<Longrightarrow> n + k q \<le> cap \<Longrightarrow> \<exists>s'. f (s, n) q = Some (s', n + k q)"
    and "n + sum_list (map k qs) \<le> (cap :: nat)"
  shows "\<exists>s'. foldM f (s, n) qs = Some (s', n + sum_list (map k qs))"
  using assms
proof (induction qs arbitrary: s n)
  case (Cons q qs)
  then obtain s' where s': "f (s, n) q = Some (s', n + k q)" by fastforce
  moreover have "\<exists>s''. foldM f (s', n + k q) qs = Some (s'', n + k q + sum_list (map k qs))"
    by (rule Cons.IH) (use Cons.prems in \<open>auto simp: add.assoc\<close>)
  ultimately show ?case by (simp add: add.assoc)
qed simp

lemma load_slot: "n + 1 \<le> cap \<Longrightarrow> length xs = cap * w \<Longrightarrow> load_at (n * w) w xs = Some (read_at (n * w) w xs)"
  using slot_end [of n cap w] by (simp add: load_at_def)

lemma sum_of_bool_map: "sum_list (map (\<lambda>q. of_bool (P q)) qs) = (length (filter P qs) :: nat)"
  by (rule sum_of_bool_list)

lemma revealed_count:
  "challenge_ok p ind \<Longrightarrow> sum_list (map (\<lambda>i. of_bool (ind ! i = 1)) [0..<par_T p]) = par_W p"
  using filter_upt_nth [of "\<lambda>x. x = 1" ind] unfolding sum_of_bool_map by (simp add: challenge_ok_def)

lemma rebuild_leaves_any:
  assumes ok: "challenge_ok p ind" and st: "length stored = par_W p * SEED_LENGTH_BYTES p"
  shows "\<exists>r. rebuild_leaves p rs ind stored = Some (r, True)"
proof -
  let ?f = "\<lambda>(rounds_seeds, published) i. if ind ! i = 1
      then (case load_at (published * SEED_LENGTH_BYTES p) (SEED_LENGTH_BYTES p) stored of
              None \<Rightarrow> None
            | Some seed \<Rightarrow> Some (write_at (i * SEED_LENGTH_BYTES p) seed rounds_seeds, published + 1))
      else Some (rounds_seeds, published)"
  have "\<exists>r. foldM ?f (rs, 0) [0..<par_T p] = Some (r, 0 + sum_list (map (\<lambda>i. of_bool (ind ! i = 1)) [0..<par_T p]))"
    by (rule foldM_counts [where cap = "par_W p"]) (use revealed_count [OF ok] load_slot [OF _ st] in auto)
  then show ?thesis unfolding rebuild_leaves_def by auto
qed

lemma rebuild_node_any:
  assumes q: "q \<in> set (tl (tree.nodes p))" and st: "length stored = cap * SEED_LENGTH_BYTES p"
    and room: "n + of_bool (revealed p ind q) \<le> cap"
  shows "\<exists>t'. rebuild_node p (seed_flags p ind) stored salt (t, n) (fst q, snd q, tree.idx p q)
    = Some (t', n + of_bool (revealed p ind q))"
proof -
  obtain l j where [simp]: "q = (Suc l, j)" using q by (metis tree.in_tl_nodes not0_implies_Suc prod.collapse)
  have "revealed p ind q \<longleftrightarrow> seed_flags p ind ! tree.idx p q = 1
      \<and> seed_flags p ind ! parent_node p (fst q) (tree.idx p q) = 0"
    using q tree.parent_idx [of l j p] by (simp add: tree.in_tl_nodes revealed_def parent_node_def)
  then show ?thesis using room load_slot [OF _ st, of n] by (cases "revealed p ind q") (auto simp: rebuild_node_def)
qed

lemma rebuild_tree_any:
  assumes ok: "challenge_ok p ind" and st: "length stored = TREE_NODES_TO_STORE (tabs p) * SEED_LENGTH_BYTES p"
  shows "\<exists>r. rebuild_tree p t ind stored salt = Some r"
proof -
  let ?f = "\<lambda>s q. rebuild_node p (seed_flags p ind) stored salt s (fst q, snd q, tree.idx p q)"
  have "\<exists>t'. foldM ?f (t, 0) (tl (tree.nodes p))
      = Some (t', 0 + sum_list (map (\<lambda>q. of_bool (revealed p ind q)) (tl (tree.nodes p))))"
    by (rule foldM_counts [where cap = "TREE_NODES_TO_STORE (tabs p)"])
      (simp_all only: sum_of_bool_map rebuild_node_any [OF _ st] add_0 revealed_capacity [OF ok])
  then show ?thesis
    unfolding rebuild_tree_def Let_def seed_flags_def [symmetric] tree.level_nodes_all foldM_map by auto
qed

lemma rebuild_seeds_any:
  assumes "challenge_ok p ind" and "length path = path_nodes p * SEED_LENGTH_BYTES p"
  obtains r b where "rebuild_seeds p ind path salt = Some (r, b)"
proof (cases "no_trees p")
  case True
  then show thesis using rebuild_leaves_any [OF assms(1), of path] assms(2) that
    by (fastforce simp: rebuild_seeds_def path_nodes_def)
next
  case False
  then show thesis using rebuild_tree_any [OF assms(1), of path] assms(2) that
    by (fastforce simp: rebuild_seeds_def path_nodes_def split: option.splits)
qed

text \<open>
  A step of the recomputation of the root, run on two trees that agree on the known
  children: both runs read the same part of the proof and store the same digest.
\<close>

lemma recompute_pair_any:
  assumes q: "(l, j) \<in> set (tree.inners p)" and len: "length ind = par_T p"
    and fl: "fl ! tree.idx p (Suc l, 2 * j) = computed p ind (Suc l) (2 * j)"
      "fl ! tree.idx p (Suc l, 2 * j + 1) = computed p ind (Suc l) (2 * j + 1)"
    and flP: "fl ! tree.idx p (l, j) = 0"
    and agree: "\<And>k. k < 2 \<Longrightarrow> computed p ind (Suc l) (2 * j + k) = 1 \<Longrightarrow>
       t ! tree.idx p (Suc l, 2 * j + k) = t' ! tree.idx p (Suc l, 2 * j + k)"
    and mtp: "length mtp = cap * HASH_DIGEST_LENGTH p" and room: "n + length (missing p ind [] (l, j)) \<le> cap"
  shows "\<exists>x. \<forall>s\<in>{t, t'}. recompute_pair p mtp (s, fl, n) (Suc l, tree.idx p (Suc l, 2 * j)) =
     Some (if computed p ind l j = 1 then s[tree.idx p (l, j) := x] else s,
           fl[tree.idx p (l, j) := computed p ind l j], n + length (missing p ind [] (l, j)))"
proof -
  let ?a = "computed p ind (Suc l) (2 * j)" and ?b = "computed p ind (Suc l) (2 * j + 1)"
  let ?i = "tree.idx p (Suc l, 2 * j)" and ?i' = "tree.idx p (Suc l, 2 * j + 1)"
  let ?r = "read_at (n * HASH_DIGEST_LENGTH p) (HASH_DIGEST_LENGTH p) mtp"
  have nodes: "(Suc l, 2 * j) \<in> set (tree.nodes p)" "(Suc l, 2 * j + 1) \<in> set (tree.nodes p)"
    using tree.child_node [OF q, of 0] tree.child_node [OF q, of 1] by simp_all
  have bits: "?a = 0 \<or> ?a = 1" "?b = 0 \<or> ?b = 1"
    using computed_01 [OF len nodes(1)] computed_01 [OF len nodes(2)] by auto
  have t01: "?a = 1 \<Longrightarrow> t ! ?i = t' ! ?i" "?b = 1 \<Longrightarrow> t ! ?i' = t' ! ?i'"
    using agree [of 0] agree [of 1] by simp_all
  have same: "fl[tree.idx p (l, j) := 0] = fl" using flP by (metis list_update_id)
  note load = load_slot [OF _ mtp, of n]
  note unf = recompute_pair_def split_conv pair_nodes [OF q] missing_def Let_def fst_conv snd_conv fl
    computed_inner [OF q] take_node_def
  consider "?a = 0" "?b = 0" | "?a = 0" "?b = 1" | "?a = 1" "?b = 0" | "?a = 1" "?b = 1" using bits by metis
  then show ?thesis
  proof cases
    case 1
    then show ?thesis unfolding unf by (simp add: same)
  next
    case 2
    then have "load_at (n * HASH_DIGEST_LENGTH p) (HASH_DIGEST_LENGTH p) mtp = Some ?r"
      using room by (intro load) (simp add: missing_def)
    with 2 t01(2) show ?thesis unfolding unf
      by (intro exI [of _ "hash p (?r @ t ! ?i') HASH_DOMAIN_SEP_CONST"]) (simp add: fl del: One_nat_def)
  next
    case 3
    then have "load_at (n * HASH_DIGEST_LENGTH p) (HASH_DIGEST_LENGTH p) mtp = Some ?r"
      using room by (intro load) (simp add: missing_def)
    with 3 t01(1) show ?thesis unfolding unf
      by (intro exI [of _ "hash p (t ! ?i @ ?r) HASH_DOMAIN_SEP_CONST"]) (simp add: fl del: One_nat_def)
  next
    case 4
    with t01 show ?thesis unfolding unf
      by (intro exI [of _ "hash p (t ! ?i @ t ! ?i') HASH_DOMAIN_SEP_CONST"]) (simp add: fl del: One_nat_def)
  qed
qed

lemma recompute_root_any:
  assumes ok: "challenge_ok p ind" and lv: "length leaves = par_T p"
    and t: "length t = NUM_NODES_TREE p" "length t' = NUM_NODES_TREE p"
    and mtp: "length mtp = TREE_NODES_TO_STORE (tabs p) * HASH_DIGEST_LENGTH p"
  shows "\<exists>r. recompute_root p t leaves mtp ind = Some r \<and> recompute_root p t' leaves mtp ind = Some r"
proof -
  have indl: "length ind = par_T p" using ok by (simp add: challenge_ok_def)
  let ?f = "\<lambda>s q. recompute_pair p mtp s (Suc (fst q), tree.idx p (Suc (fst q), 2 * snd q))"
  let ?fl0 = "merkle_label_leaves p (replicate (NUM_NODES_TREE p) NOT_COMPUTED) ind"
  let ?t0 = "place_cmt_on_leaves p t leaves" and ?t0' = "place_cmt_on_leaves p t' leaves"
  let ?m = "\<lambda>as. length (proof_nodes p ind [] as)"
  let ?inv = "\<lambda>as t t'. length t = NUM_NODES_TREE p \<and> length t' = NUM_NODES_TREE p
      \<and> (\<forall>l j. (l, j) \<in> set as \<or> (l, j) \<in> set (tree.leafpos p) \<longrightarrow> computed p ind l j = 1 \<longrightarrow>
             t ! tree.idx p (l, j) = t' ! tree.idx p (l, j))"
  have leaf: "?t0 ! tree.idx p (l, j) = ?t0' ! tree.idx p (l, j)" if leaf: "(l, j) \<in> set (tree.leafpos p)" for l j
  proof -
    obtain i where "i < par_T p" "tree.leafpos p ! i = (l, j)" by (rule leafposE [OF leaf])
    then show ?thesis using place_nth(2) [OF lv t(1), of i] place_nth(2) [OF lv t(2), of i] by simp
  qed
  have "\<exists>s s' fl. foldM ?f (?t0, ?fl0, 0) (rev (tree.inners p)) = Some (s, fl, ?m (rev (tree.inners p)))
      \<and> foldM ?f (?t0', ?fl0, 0) (rev (tree.inners p)) = Some (s', fl, ?m (rev (tree.inners p)))
      \<and> flags_after p ind (rev (tree.inners p)) fl \<and> ?inv (rev (tree.inners p)) s s'"
  proof (induction rule: tree.up_induct)
    case 1
    show ?case using flags_start [OF indl] leaf place_nth(1) [OF lv t(1)] place_nth(1) [OF lv t(2)]
      by (simp add: proof_nodes_def)
  next
    case (2 as l j bs)
    from 2(6) obtain s s' fl where IH: "foldM ?f (?t0, ?fl0, 0) as = Some (s, fl, ?m as)"
      "foldM ?f (?t0', ?fl0, 0) as = Some (s', fl, ?m as)" "flags_after p ind as fl" "?inv as s s'" by blast
    have flP: "fl ! tree.idx p (l, j) = 0"
      using IH(3) 2(2,3) tree.inners_nodes [OF 2(2)] by (simp add: flags_after_def)
    have agree: "s ! tree.idx p (Suc l, 2 * j + k) = s' ! tree.idx p (Suc l, 2 * j + k)"
      if "k < 2" "computed p ind (Suc l) (2 * j + k) = 1" for k
      using IH(4) that(2) 2(5) tree.child_node [OF 2(2) that(1)] by (auto simp: tree.in_leafpos)
    have snoc: "?m (as @ [(l, j)]) = ?m as + length (missing p ind [] (l, j))" by (simp add: proof_nodes_def)
    have "?m as + length (missing p ind [] (l, j)) \<le> ?m (rev (tree.inners p))"
      unfolding 2(1) by (simp add: proof_nodes_def)
    then have room: "?m as + length (missing p ind [] (l, j)) \<le> TREE_NODES_TO_STORE (tabs p)"
      using proof_nodes_capacity [OF ok, of "[]"] by linarith
    obtain x where x: "\<forall>u\<in>{s, s'}. recompute_pair p mtp (u, fl, ?m as) (Suc l, tree.idx p (Suc l, 2 * j)) =
     Some (if computed p ind l j = 1 then u[tree.idx p (l, j) := x] else u,
           fl[tree.idx p (l, j) := computed p ind l j], ?m as + length (missing p ind [] (l, j)))"
      using recompute_pair_any [OF 2(2) indl flags_children [OF IH(3) 2(2) 2(5)] flP agree mtp room] by blast
    let ?u = "\<lambda>u. if computed p ind l j = 1 then u[tree.idx p (l, j) := x] else u"
    have lt: "tree.idx p (l, j) < NUM_NODES_TREE p" using tree.idx_lt [OF tree.inners_nodes [OF 2(2)]] by (simp add: tree_size)
    have "?u s ! tree.idx p (l', j') = ?u s' ! tree.idx p (l', j')"
      if mem: "(l', j') \<in> set (as @ [(l, j)]) \<or> (l', j') \<in> set (tree.leafpos p)" and comp: "computed p ind l' j' = 1" for l' j'
    proof (cases "tree.idx p (l', j') = tree.idx p (l, j)")
      case True
      have "(l', j') \<in> set (tree.nodes p)"
        using mem 2(2,4) tree.inners_nodes tree.leafpos_nodes by (metis Un_iff empty_iff insert_iff list.set set_append subsetD)
      then have "(l', j') = (l, j)" using tree.idx_inj [OF _ tree.inners_nodes [OF 2(2)] True] by blast
      then show ?thesis using comp IH(4) lt by simp
    next
      case False
      then have "(l', j') \<in> set as \<or> (l', j') \<in> set (tree.leafpos p)" using mem by auto
      then have "s ! tree.idx p (l', j') = s' ! tree.idx p (l', j')" using IH(4) comp by blast
      then show ?thesis using False by simp
    qed
    then have inv: "?inv (as @ [(l, j)]) (?u s) (?u s')" using IH(4) by simp
    have "foldM ?f (?t0, ?fl0, 0) (as @ [(l, j)]) = Some (?u s, fl[tree.idx p (l, j) := computed p ind l j], ?m (as @ [(l, j)]))"
      "foldM ?f (?t0', ?fl0, 0) (as @ [(l, j)]) = Some (?u s', fl[tree.idx p (l, j) := computed p ind l j], ?m (as @ [(l, j)]))"
      using x unfolding foldM_snoc [OF IH(1)] foldM_snoc [OF IH(2)] fst_conv snd_conv snoc by simp_all
    then show ?case using inv flags_set [OF IH(3) 2(2)] by blast
  qed
  then obtain s s' fl where fin: "foldM ?f (?t0, ?fl0, 0) (rev (tree.inners p)) = Some (s, fl, ?m (rev (tree.inners p)))"
    "foldM ?f (?t0', ?fl0, 0) (rev (tree.inners p)) = Some (s', fl, ?m (rev (tree.inners p)))"
    and inv: "?inv (rev (tree.inners p)) s s'" by blast
  have "s ! 0 = s' ! 0"
    using inv root_computed [OF ok] tree.nodes_cases [OF tree.root_node [of p]] by (metis set_rev tree.idx_root)
  then show ?thesis unfolding recompute_root_def Let_def merkle_pairs_eq foldM_map fin by simp
qed

lemma recompute_no_trees_any:
  assumes ok: "challenge_ok p ind" and mtp: "length mtp = par_W p * HASH_DIGEST_LENGTH p"
  shows "\<exists>r. recompute_root_no_trees p leaves mtp ind = Some r"
proof -
  let ?f = "\<lambda>(recomputed_leaves, published) i. if ind ! i = 1
      then (case load_at (published * HASH_DIGEST_LENGTH p) (HASH_DIGEST_LENGTH p) mtp of
              None \<Rightarrow> None | Some digest \<Rightarrow> Some (recomputed_leaves[i := digest], published + 1))
      else Some (recomputed_leaves, published)"
  have "\<exists>r. foldM ?f (leaves, 0) [0..<par_T p] = Some (r, 0 + sum_list (map (\<lambda>i. of_bool (ind ! i = 1)) [0..<par_T p]))"
    by (rule foldM_counts [where cap = "par_W p"]) (use revealed_count [OF ok] load_slot [OF _ mtp] in auto)
  then show ?thesis unfolding recompute_root_no_trees_def by auto
qed

lemma recompute_commitment_any:
  assumes ok: "challenge_ok p ind" and lv: "length leaves = par_T p"
    and mtp: "length mtp = path_nodes p * HASH_DIGEST_LENGTH p"
  shows "\<exists>r. recompute_commitment p junk leaves mtp ind = Some r \<and> recompute_commitment p junk' leaves mtp ind = Some r"
proof (cases "no_trees p")
  case True
  then show ?thesis using recompute_no_trees_any [OF ok, of mtp leaves] mtp
    by (fastforce simp: recompute_commitment_def path_nodes_def split: option.splits)
next
  case False
  then show ?thesis
    using recompute_root_any [OF ok lv, of "map junk [0..<NUM_NODES_TREE p]" "map junk' [0..<NUM_NODES_TREE p]" mtp] mtp
    by (simp add: recompute_commitment_def path_nodes_def)
qed

section \<open>What verification decides\<close>

text \<open>
  The specification: the values of a round are recovered from its seed or from its
  response, whichever the second challenge selects; the signature is accepted when
  every encoding is canonical, the responses lie in the restricted group, and the
  recovered values hash to the two digests.
\<close>

definition response_ok :: "cross_params \<Rightarrow> nat list list \<Rightarrow> resp_0_t \<Rightarrow> bool" where
  "response_ok p W_mat r \<longleftrightarrow> snd (unpack_fp_vec p (resp_y r)) \<and> snd (read_difference p W_mat (resp_v r)) = (True, True)"

definition rank_of :: "nat list \<Rightarrow> nat \<Rightarrow> nat" where
  "rank_of chall_2 i = length (hidden_rounds chall_2 i)"

definition recovered ::
  "cross_params \<Rightarrow> nat list list \<Rightarrow> nat list list \<Rightarrow> nat list \<Rightarrow> nat list \<Rightarrow> nat list \<Rightarrow> bytes \<Rightarrow> CROSS_sig_t \<Rightarrow> nat
   \<Rightarrow> nat list \<times> bytes \<times> bytes" where
  \<comment> \<open>the first response and the two commitments of a round\<close>
  "recovered p V_tr W_mat s chall_1 chall_2 round_seeds sig i =
     (if chall_2 ! i = 1
      then let seed = round_seed p round_seeds i; (e', _, u') = expand_round p W_mat seed (sig_salt sig) i
           in (response_1 p e' (chall_1 ! i) u', replicate (HASH_DIGEST_LENGTH p) 0,
               hash p (seed @ sig_salt sig) (domain_sep_hash p i))
      else let r = sig_resp_0 sig ! rank_of chall_2 i;
               y = fst (unpack_fp_vec p (resp_y r)); v = fst (read_difference p W_mat (resp_v r));
               yH = fp_dz_norm_synd p (fp_vec_by_fp_matrix p (fp_vec_by_fp_vec_pointwise p (convert_restr_vec_to_fp p v) y) V_tr);
               s' = fp_dz_norm_synd p (fp_synd_minus_fp_vec_scaled p yH (chall_1 ! i) s)
           in (y, hash p (pack_fp_syn p s' @ resp_v r @ sig_salt sig) (domain_sep_hash p i), sig_resp_1 sig ! rank_of chall_2 i))"

definition accepts :: "cross_params \<Rightarrow> pk_t \<Rightarrow> bytes \<Rightarrow> CROSS_sig_t \<Rightarrow> bool" where
  "accepts p PK m sig \<longleftrightarrow>
     (let (V_tr, W_mat) = expand_pk p (pk_seed_pk PK); (s, key_ok) = unpack_fp_syn p (pk_s PK);
          d1 = digest_challenge_1 p m (sig_digest_cmt sig) (sig_salt sig);
          chall_2 = expand_digest_to_fixed_weight p (sig_digest_chall_2 sig)
      in key_ok \<and> (\<forall>r \<in> set (sig_resp_0 sig). response_ok p W_mat r)
         \<and> (\<exists>round_seeds root. rebuild_seeds p chall_2 (sig_path sig) (sig_salt sig) = Some (round_seeds, True)
              \<and> (let val = recovered p V_tr W_mat s (challenge_1 p d1) chall_2 round_seeds sig
                 in recompute_commitment p (\<lambda>_. []) (map (\<lambda>i. fst (snd (val i))) [0..<par_T p]) (sig_proof sig) chall_2
                      = Some (root, True)
                    \<and> commitment_digest p root (map (\<lambda>i. snd (snd (val i))) [0..<par_T p]) = sig_digest_cmt sig
                    \<and> digest_challenge_2 p (map (\<lambda>i. fst (val i)) [0..<par_T p]) d1 = sig_digest_chall_2 sig)))"

lemma read_hidden_v:
  fixes v
  assumes "v = (case variant p of
      RSDP \<Rightarrow> let (v_bar, padd) = short_circuit padd (unpack_fz_vec p x) d1 in (v_bar, padd, is_fz_vec_in_restr_group_n p v_bar)
    | RSDPG \<Rightarrow> let (v_G_bar, padd) = short_circuit padd (unpack_fz_rsdp_g_vec p x) d2
               in (fz_inf_w_by_fz_matrix p v_G_bar W_mat, padd, is_fz_vec_in_restr_group_m p v_G_bar))"
  shows "padd \<Longrightarrow> v = read_difference p W_mat x" and "\<not> padd \<Longrightarrow> \<not> fst (snd v)"
  using assms by (cases "variant p"; simp add: short_circuit_def read_difference_def)+

lemma verify_hidden_any:
  assumes r: "r = sig_resp_0 sig ! vf_used_rsps st" and rank: "rank_of chall_2 i = vf_used_rsps st" and hid: "chall_2 ! i \<noteq> 1"
    and st'_def: "st' = verify_hidden p V_tr W_mat s chall_1 sig junk i st"
    and val_def: "val = recovered p V_tr W_mat s chall_1 chall_2 round_seeds sig i"
  shows "vf_is_packed_padd_ok st' \<longleftrightarrow>
      vf_is_packed_padd_ok st \<and> snd (unpack_fp_vec p (resp_y r)) \<and> fst (snd (read_difference p W_mat (resp_v r)))"
    and "vf_used_rsps st' = vf_used_rsps st + 1"
    and "length (vf_y st') = length (vf_y st)" "length (vf_cmt_0 st') = length (vf_cmt_0 st)"
      "length (vf_cmt_1 st') = length (vf_cmt_1 st)"
    and "vf_is_packed_padd_ok st' \<Longrightarrow> st' = st\<lparr>vf_y := (vf_y st)[i := fst val], vf_cmt_0 := (vf_cmt_0 st)[i := fst (snd val)],
        vf_cmt_1 := (vf_cmt_1 st)[i := snd (snd val)], vf_used_rsps := vf_used_rsps st + 1,
        vf_is_signature_ok := vf_is_signature_ok st \<and> snd (snd (read_difference p W_mat (resp_v r)))\<rparr>"
proof -
  let ?y = "short_circuit (vf_is_packed_padd_ok st) (unpack_fp_vec p (resp_y r)) (vf_y st ! i)"
  define vv where "vv = (case variant p of
      RSDP \<Rightarrow> let (v_bar, padd) = short_circuit (snd ?y) (unpack_fz_vec p (resp_v r))
                   (map (\<lambda>j. fz_store (variant p) (junk_v junk i j)) [0..<par_N p])
              in (v_bar, padd, is_fz_vec_in_restr_group_n p v_bar)
    | RSDPG \<Rightarrow> let (v_G_bar, padd) = short_circuit (snd ?y) (unpack_fz_rsdp_g_vec p (resp_v r))
                   (map (\<lambda>j. fz_store (variant p) (junk_v junk i j)) [0..<par_M p])
               in (fz_inf_w_by_fz_matrix p v_G_bar W_mat, padd, is_fz_vec_in_restr_group_m p v_G_bar))"
  note vv = read_hidden_v [OF vv_def]
  have y_flag: "snd ?y \<longleftrightarrow> vf_is_packed_padd_ok st \<and> snd (unpack_fp_vec p (resp_y r))"
    by (simp add: short_circuit_def)
  have st': "st' = st\<lparr>vf_y := (vf_y st)[i := fst ?y],
      vf_cmt_0 := (vf_cmt_0 st)[i := hash p (pack_fp_syn p (fp_dz_norm_synd p (fp_synd_minus_fp_vec_scaled p
          (fp_dz_norm_synd p (fp_vec_by_fp_matrix p (fp_vec_by_fp_vec_pointwise p (convert_restr_vec_to_fp p (fst vv)) (fst ?y)) V_tr))
          (chall_1 ! i) s)) @ resp_v r @ sig_salt sig) (domain_sep_hash p i)],
      vf_cmt_1 := (vf_cmt_1 st)[i := sig_resp_1 sig ! vf_used_rsps st], vf_used_rsps := vf_used_rsps st + 1,
      vf_is_signature_ok := vf_is_signature_ok st \<and> snd (snd vv), vf_is_packed_padd_ok := fst (snd vv)\<rparr>"
    unfolding st'_def verify_hidden_def r [symmetric] Let_def split_beta vv_def by (simp add: split_beta)
  have flag: "fst (snd vv) \<longleftrightarrow> snd ?y \<and> fst (snd (read_difference p W_mat (resp_v r)))"
    using vv by (cases "snd ?y") auto
  show "vf_is_packed_padd_ok st' \<longleftrightarrow>
      vf_is_packed_padd_ok st \<and> snd (unpack_fp_vec p (resp_y r)) \<and> fst (snd (read_difference p W_mat (resp_v r)))"
    unfolding st' using flag y_flag by simp
  show "vf_used_rsps st' = vf_used_rsps st + 1" "length (vf_y st') = length (vf_y st)"
    "length (vf_cmt_0 st') = length (vf_cmt_0 st)" "length (vf_cmt_1 st') = length (vf_cmt_1 st)"
    unfolding st' by simp_all
  assume "vf_is_packed_padd_ok st'"
  then have ok: "fst (snd vv)" "snd ?y" "vf_is_packed_padd_ok st" unfolding st' using flag y_flag by simp_all
  have y: "fst ?y = fst (unpack_fp_vec p (resp_y r))" using ok(3) by (simp add: short_circuit_def)
  have v: "vv = read_difference p W_mat (resp_v r)" by (rule vv(1) [OF ok(2)])
  have val: "val = (fst ?y, hash p (pack_fp_syn p (fp_dz_norm_synd p (fp_synd_minus_fp_vec_scaled p
          (fp_dz_norm_synd p (fp_vec_by_fp_matrix p (fp_vec_by_fp_vec_pointwise p (convert_restr_vec_to_fp p (fst vv)) (fst ?y)) V_tr))
          (chall_1 ! i) s)) @ resp_v r @ sig_salt sig) (domain_sep_hash p i), sig_resp_1 sig ! vf_used_rsps st)"
    unfolding val_def recovered_def y v by (simp add: hid rank r Let_def del: One_nat_def)
  show "st' = st\<lparr>vf_y := (vf_y st)[i := fst val], vf_cmt_0 := (vf_cmt_0 st)[i := fst (snd val)],
        vf_cmt_1 := (vf_cmt_1 st)[i := snd (snd val)], vf_used_rsps := vf_used_rsps st + 1,
        vf_is_signature_ok := vf_is_signature_ok st \<and> snd (snd (read_difference p W_mat (resp_v r)))\<rparr>"
    unfolding st' val using ok(1,3) v by simp
qed

definition running ::
  "cross_params \<Rightarrow> nat list list \<Rightarrow> nat list \<Rightarrow> CROSS_sig_t \<Rightarrow> (nat \<Rightarrow> nat list \<times> bytes \<times> bytes) \<Rightarrow> nat \<Rightarrow> verify_t \<Rightarrow> bool" where
  \<comment> \<open>the state of the verifier after \<open>k\<close> rounds\<close>
  "running p W_mat chall_2 sig val k st \<longleftrightarrow>
     length (vf_y st) = par_T p \<and> length (vf_cmt_0 st) = par_T p \<and> length (vf_cmt_1 st) = par_T p
     \<and> vf_used_rsps st = rank_of chall_2 k
     \<and> (vf_is_packed_padd_ok st \<and> vf_is_signature_ok st \<longleftrightarrow> (\<forall>n < rank_of chall_2 k. response_ok p W_mat (sig_resp_0 sig ! n)))
     \<and> (vf_is_packed_padd_ok st \<longrightarrow>
          (\<forall>i<k. vf_y st ! i = fst (val i) \<and> vf_cmt_0 st ! i = fst (snd (val i)) \<and> vf_cmt_1 st ! i = snd (snd (val i)))
          \<and> (\<forall>i. k \<le> i \<and> i < par_T p \<longrightarrow> vf_cmt_0 st ! i = replicate (HASH_DIGEST_LENGTH p) 0))"

lemma running_start: "running p W_mat chall_2 sig val 0 (verify_start p junk)"
  by (simp add: running_def verify_start_def rank_of_def)

lemma rank_Suc: "rank_of chall_2 (Suc i) = (if chall_2 ! i = 0 then rank_of chall_2 i + 1 else rank_of chall_2 i)"
  by (simp add: rank_of_def)

lemma running_step:
  assumes ok: "challenge_ok p chall_2" and sig: "length (sig_resp_0 sig) = par_T p - par_W p" "length (sig_resp_1 sig) = par_T p - par_W p"
    and i: "i < par_T p"
    and run: "running p W_mat chall_2 sig (recovered p V_tr W_mat s chall_1 chall_2 round_seeds sig) i st"
  shows "\<exists>st'. verify_round p V_tr W_mat s chall_1 chall_2 round_seeds sig junk st i = Inr st'
    \<and> running p W_mat chall_2 sig (recovered p V_tr W_mat s chall_1 chall_2 round_seeds sig) (Suc i) st'"
proof (cases "chall_2 ! i = 1")
  case True
  let ?val = "recovered p V_tr W_mat s chall_1 chall_2 round_seeds sig"
  have rank: "rank_of chall_2 (Suc i) = rank_of chall_2 i" using True by (simp add: rank_Suc)
  have st': "verify_revealed p W_mat chall_1 round_seeds sig i st
      = st\<lparr>vf_cmt_1 := (vf_cmt_1 st)[i := snd (snd (?val i))], vf_y := (vf_y st)[i := fst (?val i)]\<rparr>"
    and cmt_0: "fst (snd (?val i)) = replicate (HASH_DIGEST_LENGTH p) 0"
    using True by (simp_all add: verify_revealed_def recovered_def Let_def split_beta)
  have "running p W_mat chall_2 sig ?val (Suc i) (st\<lparr>vf_cmt_1 := (vf_cmt_1 st)[i := snd (snd (?val i))], vf_y := (vf_y st)[i := fst (?val i)]\<rparr>)"
    using run i unfolding running_def rank by (simp add: less_Suc_eq nth_list_update cmt_0)
  then show ?thesis using True by (simp add: verify_round_def st')
next
  case False
  let ?val = "recovered p V_tr W_mat s chall_1 chall_2 round_seeds sig" and ?r = "sig_resp_0 sig ! vf_used_rsps st"
  have z: "chall_2 ! i = 0" using challenge_bit [OF ok i] False by simp
  have rank: "rank_of chall_2 (Suc i) = rank_of chall_2 i + 1" "rank_of chall_2 i < par_T p - par_W p"
    using z hidden_lt_capacity [OF ok i z] by (simp_all add: rank_Suc rank_of_def)
  have used: "rank_of chall_2 i = vf_used_rsps st" using run by (simp add: running_def)
  define st' where "st' = verify_hidden p V_tr W_mat s chall_1 sig junk i st"
  note step = verify_hidden_any [OF refl used False st'_def refl [of "recovered p V_tr W_mat s chall_1 chall_2 round_seeds sig i"]]
  have flags: "vf_is_packed_padd_ok st' \<and> vf_is_signature_ok st'
      \<longleftrightarrow> (vf_is_packed_padd_ok st \<and> vf_is_signature_ok st) \<and> response_ok p W_mat ?r"
  proof (cases "vf_is_packed_padd_ok st'")
    case True
    then show ?thesis using step(1) step(6) [OF True]
      by (simp add: response_ok_def prod_eq_iff) 
  next
    case False
    then show ?thesis using step(1) by (auto simp: response_ok_def prod_eq_iff)
  qed
  have all: "(\<forall>n < rank_of chall_2 (Suc i). response_ok p W_mat (sig_resp_0 sig ! n))
      \<longleftrightarrow> (\<forall>n < rank_of chall_2 i. response_ok p W_mat (sig_resp_0 sig ! n)) \<and> response_ok p W_mat ?r"
    using rank(1) used by (auto simp: less_Suc_eq)
  have vals: "(\<forall>k<Suc i. vf_y st' ! k = fst (?val k) \<and> vf_cmt_0 st' ! k = fst (snd (?val k)) \<and> vf_cmt_1 st' ! k = snd (snd (?val k)))
          \<and> (\<forall>k. Suc i \<le> k \<and> k < par_T p \<longrightarrow> vf_cmt_0 st' ! k = replicate (HASH_DIGEST_LENGTH p) 0)"
    if padd: "vf_is_packed_padd_ok st'"
    unfolding step(6) [OF padd] using run i step(1) padd by (auto simp: running_def less_Suc_eq nth_list_update)
  have "running p W_mat chall_2 sig ?val (Suc i) st'"
    unfolding running_def flags all using run step(2-5) rank(1) used vals by (simp add: running_def)
  then show ?thesis using False rank(2) sig used by (simp add: verify_round_def st'_def)
qed

lemma verify_runs:
  assumes "challenge_ok p chall_2" and "length (sig_resp_0 sig) = par_T p - par_W p" "length (sig_resp_1 sig) = par_T p - par_W p"
  shows "\<exists>st. foldE (verify_round p V_tr W_mat s chall_1 chall_2 round_seeds sig junk) (verify_start p junk) [0..<par_T p] = Inr st
    \<and> running p W_mat chall_2 sig (recovered p V_tr W_mat s chall_1 chall_2 round_seeds sig) (par_T p) st"
  by (rule foldE_invariant [where I = "running p W_mat chall_2 sig (recovered p V_tr W_mat s chall_1 chall_2 round_seeds sig)"])
    (rule running_start running_step [OF assms]; assumption)+

text \<open>The run of the verifier on a signature of the right sizes: no access faults, three assertions.\<close>

lemma verify_run:
  assumes sig: "sig_ok p sig" and pk: "expand_pk p (pk_seed_pk PK) = (V_tr, W_mat)" "unpack_fp_syn p (pk_s PK) = (s, key_ok)"
    and d1: "d1 = digest_challenge_1 p m (sig_digest_cmt sig) (sig_salt sig)"
    and c2: "chall_2 = expand_digest_to_fixed_weight p (sig_digest_chall_2 sig)"
  obtains round_seeds seeds_ok st root proof_ok where
    "rebuild_seeds p chall_2 (sig_path sig) (sig_salt sig) = Some (round_seeds, seeds_ok)"
    "running p W_mat chall_2 sig (recovered p V_tr W_mat s (challenge_1 p d1) chall_2 round_seeds sig) (par_T p) st"
    "recompute_commitment p (\<lambda>_. []) (vf_cmt_0 st) (sig_proof sig) chall_2 = Some (root, proof_ok)"
    "CROSS_verify p junk PK m sig =
       (let cmt_ok = (commitment_digest p root (vf_cmt_1 st) = sig_digest_cmt sig);
            chall_ok = (digest_challenge_2 p (vf_y st) d1 = sig_digest_chall_2 sig)
        in if assert_holds p (vf_is_signature_ok st) \<and> assert_holds p cmt_ok \<and> assert_holds p chall_ok
           then Inr (vf_is_signature_ok st \<and> cmt_ok \<and> chall_ok \<and> proof_ok \<and> seeds_ok \<and> key_ok \<and> vf_is_packed_padd_ok st)
           else Inl ASSERT_FAILED)"
proof -
  have ok: "challenge_ok p chall_2" unfolding c2 by (rule chall_2_ok)
  have len: "length (sig_resp_0 sig) = par_T p - par_W p" "length (sig_resp_1 sig) = par_T p - par_W p"
    "length (sig_path sig) = path_nodes p * SEED_LENGTH_BYTES p" "length (sig_proof sig) = path_nodes p * HASH_DIGEST_LENGTH p"
    using sig by (simp_all add: sig_ok_def)
  obtain rs b where rs: "rebuild_seeds p chall_2 (sig_path sig) (sig_salt sig) = Some (rs, b)"
    by (rule rebuild_seeds_any [OF ok len(3)])
  obtain st where st: "foldE (verify_round p V_tr W_mat s (challenge_1 p d1) chall_2 rs sig junk) (verify_start p junk) [0..<par_T p] = Inr st"
    and run: "running p W_mat chall_2 sig (recovered p V_tr W_mat s (challenge_1 p d1) chall_2 rs sig) (par_T p) st"
    using verify_runs [OF ok len(1,2)] by blast
  have "length (vf_cmt_0 st) = par_T p" using run by (simp add: running_def)
  then obtain root b' where root: "recompute_commitment p (junk_tree junk) (vf_cmt_0 st) (sig_proof sig) chall_2 = Some (root, b')"
    "recompute_commitment p (\<lambda>_. []) (vf_cmt_0 st) (sig_proof sig) chall_2 = Some (root, b')"
    using recompute_commitment_any [OF ok _ len(4)] by (metis surj_pair)
  show thesis
    by (rule that [OF rs run root(2)])
      (simp add: CROSS_verify_def pk d1 [symmetric] c2 [symmetric] rs st root(1) checked_def Let_def)
qed

lemma verify_verdict:
  assumes sig: "sig_ok p sig"
  obtains a b c d where "CROSS_verify p junk PK m sig =
    (if assert_holds p a \<and> assert_holds p b \<and> assert_holds p c then Inr (a \<and> b \<and> c \<and> d) else Inl ASSERT_FAILED)"
proof -
  obtain V_tr W_mat s key_ok where pk: "expand_pk p (pk_seed_pk PK) = (V_tr, W_mat)" "unpack_fp_syn p (pk_s PK) = (s, key_ok)"
    by fastforce
  define d1 where "d1 = digest_challenge_1 p m (sig_digest_cmt sig) (sig_salt sig)"
  define c2 where "c2 = expand_digest_to_fixed_weight p (sig_digest_chall_2 sig)"
  show thesis
    by (rule verify_run [OF sig pk d1_def c2_def]) (rule that, simp add: Let_def)
qed

lemma verify_in_bounds: "sig_ok p sig \<Longrightarrow> CROSS_verify p junk PK m sig \<noteq> Inl OUT_OF_BOUNDS"
  by (rule verify_verdict [of p sig junk PK m]) auto

lemma verify_total: "sig_ok p sig \<Longrightarrow> skip_assert p \<or> ndebug p \<Longrightarrow> \<exists>b. CROSS_verify p junk PK m sig = Inr b"
  by (rule verify_verdict [of p sig junk PK m]) (auto simp: assert_holds_def)

lemma all_responses:
  assumes "challenge_ok p chall_2" and "length (sig_resp_0 sig) = par_T p - par_W p"
  shows "(\<forall>n < rank_of chall_2 (par_T p). Q (sig_resp_0 sig ! n)) \<longleftrightarrow> (\<forall>r \<in> set (sig_resp_0 sig). Q r)"
  using assms by (simp add: rank_of_def length_hidden_rounds all_set_conv_all_nth)

theorem verify_accepts_iff:
  assumes sig: "sig_ok p sig"
  shows "CROSS_verify p junk PK m sig = Inr True \<longleftrightarrow> accepts p PK m sig"
proof -
  obtain V_tr W_mat s key_ok where pk: "expand_pk p (pk_seed_pk PK) = (V_tr, W_mat)" "unpack_fp_syn p (pk_s PK) = (s, key_ok)"
    by fastforce
  define d1 where "d1 = digest_challenge_1 p m (sig_digest_cmt sig) (sig_salt sig)"
  define c2 where "c2 = expand_digest_to_fixed_weight p (sig_digest_chall_2 sig)"
  obtain rs seeds_ok st root proof_ok where rs: "rebuild_seeds p c2 (sig_path sig) (sig_salt sig) = Some (rs, seeds_ok)"
    and run: "running p W_mat c2 sig (recovered p V_tr W_mat s (challenge_1 p d1) c2 rs sig) (par_T p) st"
    and root: "recompute_commitment p (\<lambda>_. []) (vf_cmt_0 st) (sig_proof sig) c2 = Some (root, proof_ok)"
    and ver: "CROSS_verify p junk PK m sig =
       (let cmt_ok = (commitment_digest p root (vf_cmt_1 st) = sig_digest_cmt sig);
            chall_ok = (digest_challenge_2 p (vf_y st) d1 = sig_digest_chall_2 sig)
        in if assert_holds p (vf_is_signature_ok st) \<and> assert_holds p cmt_ok \<and> assert_holds p chall_ok
           then Inr (vf_is_signature_ok st \<and> cmt_ok \<and> chall_ok \<and> proof_ok \<and> seeds_ok \<and> key_ok \<and> vf_is_packed_padd_ok st)
           else Inl ASSERT_FAILED)"
    by (rule verify_run [OF sig pk d1_def c2_def])
  let ?val = "recovered p V_tr W_mat s (challenge_1 p d1) c2 rs sig"
  have resp: "vf_is_packed_padd_ok st \<and> vf_is_signature_ok st \<longleftrightarrow> (\<forall>r \<in> set (sig_resp_0 sig). response_ok p W_mat r)"
    using run all_responses [OF chall_2_ok, of sig p "sig_digest_chall_2 sig" "response_ok p W_mat"] sig
    by (simp add: running_def c2_def [symmetric] sig_ok_def)
  have vals: "vf_y st = map (\<lambda>i. fst (?val i)) [0..<par_T p]" "vf_cmt_0 st = map (\<lambda>i. fst (snd (?val i))) [0..<par_T p]"
    "vf_cmt_1 st = map (\<lambda>i. snd (snd (?val i))) [0..<par_T p]" if "vf_is_packed_padd_ok st"
    using run that by (auto simp: running_def intro: nth_equalityI)
  have acc: "CROSS_verify p junk PK m sig = Inr True \<longleftrightarrow> vf_is_signature_ok st \<and> vf_is_packed_padd_ok st \<and> key_ok \<and> seeds_ok \<and> proof_ok
      \<and> commitment_digest p root (vf_cmt_1 st) = sig_digest_cmt sig \<and> digest_challenge_2 p (vf_y st) d1 = sig_digest_chall_2 sig"
    unfolding ver Let_def by (auto simp: assert_holds_def)
  have spec: "accepts p PK m sig \<longleftrightarrow> key_ok \<and> (\<forall>r \<in> set (sig_resp_0 sig). response_ok p W_mat r) \<and> seeds_ok
      \<and> (\<exists>root. recompute_commitment p (\<lambda>_. []) (map (\<lambda>i. fst (snd (?val i))) [0..<par_T p]) (sig_proof sig) c2 = Some (root, True)
         \<and> commitment_digest p root (map (\<lambda>i. snd (snd (?val i))) [0..<par_T p]) = sig_digest_cmt sig
         \<and> digest_challenge_2 p (map (\<lambda>i. fst (?val i)) [0..<par_T p]) d1 = sig_digest_chall_2 sig)"
    unfolding accepts_def pk Let_def split_conv d1_def [symmetric] c2_def [symmetric] rs by auto
  show ?thesis
  proof (cases "vf_is_packed_padd_ok st")
    case True
    show ?thesis unfolding acc spec resp [symmetric] vals [OF True, symmetric] root using True by auto
  next
    case False
    then show ?thesis unfolding acc spec resp [symmetric] by simp
  qed
qed

end
