(* ===== verification/Sign_Api.thy ===== *)
theory Sign_Api
  imports Any_Signature
begin

text \<open>
  The byte-string interface (\<open>lib/sign.c\<close>, \<open>include/api.h\<close>). A cast between a byte
  pointer and a pointer to one of the three structures is the conversion between
  the bytes and the fields in the order of \<open>CROSS.h\<close>: every member is an array of
  bytes, so there is no padding. \<open>unsigned long long\<close> is a number below \<open>2^64\<close>.
\<close>

section \<open>The structures as bytes\<close>

fun split_fields :: "nat list \<Rightarrow> bytes \<Rightarrow> bytes list" where
  "split_fields [] bs = []"
| "split_fields (n # ns) bs = take n bs # split_fields ns (drop n bs)"

definition resp_0_bytes :: "resp_0_t \<Rightarrow> bytes" where
  "resp_0_bytes r = resp_y r @ resp_v r"

definition resp_0_of_bytes :: "cross_params \<Rightarrow> bytes \<Rightarrow> resp_0_t" where
  "resp_0_of_bytes p bs =
     (let xs = split_fields [DENSELY_PACKED_FP_VEC_SIZE p, packed_v_size p] bs in \<lparr>resp_y = xs ! 0, resp_v = xs ! 1\<rparr>)"

definition sizeof_resp_0_t :: "cross_params \<Rightarrow> nat" where
  "sizeof_resp_0_t p = DENSELY_PACKED_FP_VEC_SIZE p + packed_v_size p"

definition sig_sizes :: "cross_params \<Rightarrow> nat list" where
  "sig_sizes p = [SALT_LENGTH_BYTES p, HASH_DIGEST_LENGTH p, HASH_DIGEST_LENGTH p, path_nodes p * SEED_LENGTH_BYTES p,
     path_nodes p * HASH_DIGEST_LENGTH p, (par_T p - par_W p) * HASH_DIGEST_LENGTH p, (par_T p - par_W p) * sizeof_resp_0_t p]"

definition sizeof_CROSS_sig_t :: "cross_params \<Rightarrow> nat" where
  "sizeof_CROSS_sig_t p = sum_list (sig_sizes p)"

definition sig_bytes :: "CROSS_sig_t \<Rightarrow> bytes" where
  "sig_bytes sig = concat [sig_salt sig, sig_digest_cmt sig, sig_digest_chall_2 sig, sig_path sig, sig_proof sig,
     concat (sig_resp_1 sig), concat (map resp_0_bytes (sig_resp_0 sig))]"

definition sig_of_bytes :: "cross_params \<Rightarrow> bytes \<Rightarrow> CROSS_sig_t" where
  "sig_of_bytes p bs =
     (let xs = split_fields (sig_sizes p) bs
      in \<lparr>sig_salt = xs ! 0, sig_digest_cmt = xs ! 1, sig_digest_chall_2 = xs ! 2, sig_path = xs ! 3, sig_proof = xs ! 4,
          sig_resp_1 = chunks (HASH_DIGEST_LENGTH p) (par_T p - par_W p) (xs ! 5),
          sig_resp_0 = map (resp_0_of_bytes p) (chunks (sizeof_resp_0_t p) (par_T p - par_W p) (xs ! 6))\<rparr>)"

definition pk_bytes :: "pk_t \<Rightarrow> bytes" where
  "pk_bytes PK = pk_seed_pk PK @ pk_s PK"

definition pk_of_bytes :: "cross_params \<Rightarrow> bytes \<Rightarrow> pk_t" where
  "pk_of_bytes p bs =
     (let xs = split_fields [KEYPAIR_SEED_LENGTH_BYTES p, DENSELY_PACKED_FP_SYN_SIZE p] bs in \<lparr>pk_seed_pk = xs ! 0, pk_s = xs ! 1\<rparr>)"

definition sk_of_bytes :: "cross_params \<Rightarrow> bytes \<Rightarrow> sk_t" where
  "sk_of_bytes p bs = \<lparr>sk_seed_sk = take (KEYPAIR_SEED_LENGTH_BYTES p) bs\<rparr>"

definition ull :: "int \<Rightarrow> nat" where
  \<comment> \<open>the conversion to \<open>unsigned long long\<close>\<close>
  "ull n = nat (n mod 2 ^ 64)"

section \<open>The functions\<close>

definition crypto_sign_keypair :: "cross_params \<Rightarrow> incctx \<Rightarrow> (bytes \<times> bytes \<times> int) \<times> incctx" where
  \<comment> \<open>\<open>pk\<close>, \<open>sk\<close> and the returned value\<close>
  "crypto_sign_keypair p platform_csprng_state =
     (let ((SK, PK), platform_csprng_state) = CROSS_keygen p platform_csprng_state
      in ((pk_bytes PK, sk_seed_sk SK, 0), platform_csprng_state))"

definition crypto_sign ::
  "cross_params \<Rightarrow> (nat \<Rightarrow> bytes) \<Rightarrow> bytes \<Rightarrow> bytes \<Rightarrow> incctx \<Rightarrow> fault + (bytes \<times> nat \<times> int) \<times> incctx" where
  \<comment> \<open>\<open>sm\<close>, \<open>smlen\<close> and the returned value\<close>
  "crypto_sign p junk m sk platform_csprng_state =
     (case CROSS_sign p junk (sk_of_bytes p sk) m platform_csprng_state of
        Inl e \<Rightarrow> Inl e
      | Inr (sig, platform_csprng_state) \<Rightarrow>
          Inr ((m @ sig_bytes sig, ull (int (length m) + int (sizeof_CROSS_sig_t p)), 0), platform_csprng_state))"

definition crypto_sign_open :: "cross_params \<Rightarrow> junk_t \<Rightarrow> bytes \<Rightarrow> nat \<Rightarrow> bytes \<Rightarrow> fault + bytes \<times> nat \<times> int" where
  \<comment> \<open>\<open>sm\<close> is the buffer behind the pointer; \<open>m\<close>, \<open>mlen\<close> and the returned value\<close>
  "crypto_sign_open p junk sm smlen pk =
     (let mlen = ull (int smlen - int (sizeof_CROSS_sig_t p))
      in case checked (load_at 0 mlen sm) of
           Inl e \<Rightarrow> Inl e
         | Inr m \<Rightarrow>
             (case checked (load_at mlen (sizeof_CROSS_sig_t p) sm) of
                Inl e \<Rightarrow> Inl e
              | Inr s \<Rightarrow>
                  (case CROSS_verify p junk (pk_of_bytes p pk) m (sig_of_bytes p s) of
                     Inl e \<Rightarrow> Inl e
                   | Inr ok \<Rightarrow> Inr (m, mlen, of_bool ok - 1))))"

section \<open>Round trips of the structures\<close>

lemma length_fields [simp]: "length (split_fields ns bs) = length ns"
  by (induction ns arbitrary: bs) auto

lemma fields_concat: "ns = map length xs \<Longrightarrow> split_fields ns (concat xs) = xs"
  by (induction xs arbitrary: ns) auto

lemma concat_fields: "sum_list ns = length bs \<Longrightarrow> concat (split_fields ns bs) = bs"
  by (induction ns arbitrary: bs) auto

lemma length_field: "sum_list ns = length bs \<Longrightarrow> i < length ns \<Longrightarrow> length (split_fields ns bs ! i) = ns ! i"
proof (induction ns arbitrary: bs i)
  case (Cons n ns)
  then show ?case by (cases i) auto
qed simp

lemma length_rows: "(\<And>x. x \<in> set xs \<Longrightarrow> length (f x) = w) \<Longrightarrow> length (concat (map f xs)) = length xs * w"
  by (rule length_concat_const)

lemma sig_fields:
  assumes "sig_ok p sig"
  shows "map length [sig_salt sig, sig_digest_cmt sig, sig_digest_chall_2 sig, sig_path sig, sig_proof sig,
     concat (sig_resp_1 sig), concat (map resp_0_bytes (sig_resp_0 sig))] = sig_sizes p"
  using assms length_rows [of "sig_resp_1 sig" "\<lambda>x. x" "HASH_DIGEST_LENGTH p"]
    length_rows [of "sig_resp_0 sig" resp_0_bytes "sizeof_resp_0_t p"]
  by (simp add: sig_ok_def sig_sizes_def sizeof_resp_0_t_def resp_0_bytes_def)

lemma length_sig_bytes: "sig_ok p sig \<Longrightarrow> length (sig_bytes sig) = sizeof_CROSS_sig_t p"
  unfolding sig_bytes_def sizeof_CROSS_sig_t_def length_concat by (simp only: sig_fields)

lemma resp_0_roundtrip:
  "length (resp_y r) = DENSELY_PACKED_FP_VEC_SIZE p \<Longrightarrow> length (resp_v r) = packed_v_size p \<Longrightarrow>
   resp_0_of_bytes p (resp_0_bytes r) = r"
  by (simp add: resp_0_of_bytes_def resp_0_bytes_def)

lemma sig_roundtrip:
  assumes ok: "sig_ok p sig"
  shows "sig_of_bytes p (sig_bytes sig) = sig"
proof -
  have f: "split_fields (sig_sizes p) (sig_bytes sig) = [sig_salt sig, sig_digest_cmt sig, sig_digest_chall_2 sig, sig_path sig,
      sig_proof sig, concat (sig_resp_1 sig), concat (map resp_0_bytes (sig_resp_0 sig))]"
    unfolding sig_bytes_def by (rule fields_concat) (rule sig_fields [OF ok, symmetric])
  have r1: "chunks (HASH_DIGEST_LENGTH p) (par_T p - par_W p) (concat (sig_resp_1 sig)) = sig_resp_1 sig"
    using chunks_concat [of "sig_resp_1 sig" "HASH_DIGEST_LENGTH p" "[]"] ok by (simp add: sig_ok_def)
  have "length x = sizeof_resp_0_t p" if "x \<in> set (map resp_0_bytes (sig_resp_0 sig))" for x
    using that ok by (auto simp: sig_ok_def sizeof_resp_0_t_def resp_0_bytes_def)
  then have "chunks (sizeof_resp_0_t p) (length (map resp_0_bytes (sig_resp_0 sig))) (concat (map resp_0_bytes (sig_resp_0 sig)) @ [])
      = map resp_0_bytes (sig_resp_0 sig)" by (rule chunks_concat)
  then have r0: "chunks (sizeof_resp_0_t p) (par_T p - par_W p) (concat (map resp_0_bytes (sig_resp_0 sig))) = map resp_0_bytes (sig_resp_0 sig)"
    using ok by (simp add: sig_ok_def)
  have "map (resp_0_of_bytes p) (map resp_0_bytes (sig_resp_0 sig)) = sig_resp_0 sig"
    unfolding map_map by (rule map_idI) (use ok in \<open>auto simp: sig_ok_def resp_0_roundtrip\<close>)
  then show ?thesis unfolding sig_of_bytes_def f Let_def r0 nth_Cons_0 by (simp add: r0 r1)
qed

lemma sig_of_bytes_ok:
  assumes "length bs = sizeof_CROSS_sig_t p"
  shows "sig_ok p (sig_of_bytes p bs)"
proof -
  have len: "length (split_fields (sig_sizes p) bs ! i) = sig_sizes p ! i" if "i < 7" for i
    using length_field [of "sig_sizes p" bs i] assms that by (simp add: sizeof_CROSS_sig_t_def sig_sizes_def)
  let ?f = "\<lambda>i. split_fields (sig_sizes p) bs ! i"
  have lens: "length (?f 0) = SALT_LENGTH_BYTES p" "length (?f 1) = HASH_DIGEST_LENGTH p" "length (?f 2) = HASH_DIGEST_LENGTH p"
    "length (?f 3) = path_nodes p * SEED_LENGTH_BYTES p" "length (?f 4) = path_nodes p * HASH_DIGEST_LENGTH p"
    "length (?f 5) = (par_T p - par_W p) * HASH_DIGEST_LENGTH p" "length (?f 6) = (par_T p - par_W p) * sizeof_resp_0_t p"
    by (simp_all only: len) (simp_all add: sig_sizes_def)
  have rows: "length r = HASH_DIGEST_LENGTH p" if "r \<in> set (chunks (HASH_DIGEST_LENGTH p) (par_T p - par_W p) (?f 5))" for r
    using chunks_rows [OF lens(6) that] .
  have resp: "length (resp_y (resp_0_of_bytes p r)) = DENSELY_PACKED_FP_VEC_SIZE p \<and> length (resp_v (resp_0_of_bytes p r)) = packed_v_size p"
    if "r \<in> set (chunks (sizeof_resp_0_t p) (par_T p - par_W p) (?f 6))" for r
    using chunks_rows [OF lens(7) that] by (simp add: resp_0_of_bytes_def sizeof_resp_0_t_def)
  show ?thesis
    unfolding sig_ok_def sig_of_bytes_def Let_def CROSS_sig_t.simps using lens rows resp by simp
qed

lemma resp_0_bytes_of: "length b = sizeof_resp_0_t p \<Longrightarrow> resp_0_bytes (resp_0_of_bytes p b) = b"
  by (simp add: resp_0_bytes_def resp_0_of_bytes_def sizeof_resp_0_t_def)

lemma sig_bytes_of:
  assumes len: "length bs = sizeof_CROSS_sig_t p"
  shows "sig_bytes (sig_of_bytes p bs) = bs"
proof -
  let ?f = "\<lambda>i. split_fields (sig_sizes p) bs ! i"
  have sz: "sum_list (sig_sizes p) = length bs" by (simp add: len sizeof_CROSS_sig_t_def)
  have lens: "length (?f 5) = (par_T p - par_W p) * HASH_DIGEST_LENGTH p" "length (?f 6) = (par_T p - par_W p) * sizeof_resp_0_t p"
    using length_field [OF sz, of 5] length_field [OF sz, of 6] by (simp_all add: sig_sizes_def)
  have "map resp_0_bytes (map (resp_0_of_bytes p) (chunks (sizeof_resp_0_t p) (par_T p - par_W p) (?f 6)))
      = chunks (sizeof_resp_0_t p) (par_T p - par_W p) (?f 6)"
    unfolding map_map by (rule map_idI) (use chunks_rows [OF lens(2)] in \<open>simp add: resp_0_bytes_of\<close>)
  then have "sig_bytes (sig_of_bytes p bs) = concat [?f 0, ?f 1, ?f 2, ?f 3, ?f 4, ?f 5, ?f 6]"
    by (simp add: sig_bytes_def sig_of_bytes_def Let_def concat_chunks lens)
  also have "[?f 0, ?f 1, ?f 2, ?f 3, ?f 4, ?f 5, ?f 6] = split_fields (sig_sizes p) bs"
    by (simp add: sig_sizes_def)
  finally show ?thesis by (simp add: concat_fields [OF sz])
qed

lemma keygen_sizes:
  assumes "CROSS_keygen p st = ((SK, PK), st')"
  shows "length (sk_seed_sk SK) = KEYPAIR_SEED_LENGTH_BYTES p" and "length (pk_seed_pk PK) = KEYPAIR_SEED_LENGTH_BYTES p"
    and "length (pk_s PK) = DENSELY_PACKED_FP_SYN_SIZE p"
proof -
  have K: "KEYPAIR_SEED_LENGTH_BYTES p < 2 ^ 32" "2 * KEYPAIR_SEED_LENGTH_BYTES p < 2 ^ 32" using seed_sizes(3) [of p] by simp_all
  have "SK = \<lparr>sk_seed_sk = fst (randombytes p (KEYPAIR_SEED_LENGTH_BYTES p) st)\<rparr>"
    using assms by (simp add: CROSS_keygen_def Let_def split_beta)
  then show "length (sk_seed_sk SK) = KEYPAIR_SEED_LENGTH_BYTES p" by (simp add: length_randombytes [OF K(1)])
  have "pk_seed_pk PK = snd (expand_seed_sk p (fst (randombytes p (KEYPAIR_SEED_LENGTH_BYTES p) st)))"
    using assms by (auto simp: CROSS_keygen_def Let_def split_beta)
  then show "length (pk_seed_pk PK) = KEYPAIR_SEED_LENGTH_BYTES p"
    by (simp add: expand_seed_sk_def Let_def split_beta length_csprng_randombytes [OF K(2)])
  show "length (pk_s PK) = DENSELY_PACKED_FP_SYN_SIZE p"
    by (rule keygen_expands [OF assms]) simp
qed

lemma pk_roundtrip:
  "length (pk_seed_pk PK) = KEYPAIR_SEED_LENGTH_BYTES p \<Longrightarrow> length (pk_s PK) = DENSELY_PACKED_FP_SYN_SIZE p \<Longrightarrow>
   pk_of_bytes p (pk_bytes PK) = PK"
  by (simp add: pk_of_bytes_def pk_bytes_def)

lemma sk_roundtrip: "length (sk_seed_sk SK) = KEYPAIR_SEED_LENGTH_BYTES p \<Longrightarrow> sk_of_bytes p (sk_seed_sk SK) = SK"
  by (simp add: sk_of_bytes_def)

section \<open>The interface\<close>

lemma ull_add [simp]: "n + k < 2 ^ 64 \<Longrightarrow> ull (int n + int k) = n + k"
  by (simp add: ull_def nat_mod_as_int [symmetric] flip: of_nat_add)

lemma ull_sub: "k \<le> n \<Longrightarrow> n < 2 ^ 64 \<Longrightarrow> ull (int n - int k) = n - k"
  by (simp add: ull_def flip: of_nat_diff)

lemma ull_underflow: "n < k \<Longrightarrow> k < 2 ^ 64 \<Longrightarrow> ull (int n - int k) = 2 ^ 64 + n - k"
proof -
  assume "n < k" "k < 2 ^ 64"
  then have "(int n - int k) mod 2 ^ 64 = int n - int k + 2 ^ 64"
    by (subst mod_add_self2 [symmetric], subst mod_pos_pos_trivial) auto
  then show ?thesis using \<open>n < k\<close> \<open>k < 2 ^ 64\<close> by (simp add: ull_def)
qed

theorem sign_open:
  assumes "crypto_sign_keypair p st = ((pk, sk, r), st')" and mlen: "length m + sizeof_CROSS_sig_t p < 2 ^ 64"
  shows "\<exists>sm st2. crypto_sign p junk_nodes m sk st1 = Inr ((sm, length sm, 0), st2) \<and> length sm = length m + sizeof_CROSS_sig_t p
    \<and> crypto_sign_open p junk sm (length sm) pk = Inr (m, length m, 0)"
proof -
  obtain SK PK st'' where k: "CROSS_keygen p st = ((SK, PK), st'')" by (metis prod.collapse)
  then have keys: "pk = pk_bytes PK" "sk = sk_seed_sk SK" using assms(1) by (simp_all add: crypto_sign_keypair_def)
  have rt: "pk_of_bytes p pk = PK" "sk_of_bytes p sk = SK"
    unfolding keys using keygen_sizes [OF k] by (simp_all add: pk_roundtrip sk_roundtrip)
  obtain sig st2 where s: "CROSS_sign p junk_nodes SK m st1 = Inr (sig, st2)" "sig_ok p sig" "CROSS_verify p junk PK m sig = Inr True"
    using sign_verify [OF k] by blast
  note len = length_sig_bytes [OF s(2)]
  have load: "load_at 0 (length m) (m @ sig_bytes sig) = Some m"
    "load_at (length m) (sizeof_CROSS_sig_t p) (m @ sig_bytes sig) = Some (sig_bytes sig)"
    using load_append [of 0 "[]" "length m" m "sig_bytes sig"] load_append [of "length m" m "sizeof_CROSS_sig_t p" "sig_bytes sig" "[]"]
    by (simp_all add: len)
  have "crypto_sign_open p junk (m @ sig_bytes sig) (length m + sizeof_CROSS_sig_t p) pk = Inr (m, length m, 0)"
    using mlen by (simp add: crypto_sign_open_def ull_sub load checked_def rt sig_roundtrip [OF s(2)] s(3) Let_def del: of_nat_add)
  then show ?thesis
    using mlen by (simp add: crypto_sign_def rt s(1) len)
qed

lemma open_in_bounds:
  assumes "sizeof_CROSS_sig_t p \<le> smlen" and "smlen \<le> length sm" and "smlen < 2 ^ 64"
  shows "crypto_sign_open p junk sm smlen pk \<noteq> Inl OUT_OF_BOUNDS"
proof -
  let ?n = "smlen - sizeof_CROSS_sig_t p"
  have l: "load_at 0 ?n sm = Some (read_at 0 ?n sm)"
    "load_at ?n (sizeof_CROSS_sig_t p) sm = Some (read_at ?n (sizeof_CROSS_sig_t p) sm)"
    using assms by (simp_all add: load_at_def)
  have "sig_ok p (sig_of_bytes p (read_at ?n (sizeof_CROSS_sig_t p) sm))"
    using assms by (intro sig_of_bytes_ok) simp
  from verify_in_bounds [OF this] show ?thesis
    using assms by (auto simp: crypto_sign_open_def ull_sub l checked_def Let_def split: sum.splits)
qed

lemma sizeof_eq:
  "sizeof_CROSS_sig_t p = (let l = par_LAMBDA p div 8; t = par_T p - par_W p in
     6 * l + path_nodes p * (3 * l) + t * (2 * l + nbytes (fp_bits (variant p)) (par_N p)
       + nbytes (fz_bits (variant p)) (case variant p of RSDP \<Rightarrow> par_N p | RSDPG \<Rightarrow> par_M p)))"
proof -
  have v: "packed_v_size p = nbytes (fz_bits (variant p)) (case variant p of RSDP \<Rightarrow> par_N p | RSDPG \<Rightarrow> par_M p)"
    unfolding packed_v_size_def sizes_def by (cases "variant p") simp_all
  show ?thesis
    unfolding sizeof_CROSS_sig_t_def sig_sizes_def sizeof_resp_0_t_def v DENSELY_PACKED_FP_VEC_SIZE_def packed_sizes
    by (simp add: SALT_LENGTH_BYTES_def HASH_DIGEST_LENGTH_def SEED_LENGTH_BYTES_def Let_def algebra_simps)
qed

lemma sizeof_bound: "sizeof_CROSS_sig_t p < 2 ^ 20"
  unfolding sizeof_eq
  by (cases "variant p"; cases "cat p"; cases "corner p";
      simp add: path_nodes_def par_unfold tabs_def tables_defs fp_bits_def fz_bits_def nbytes_def)

lemma open_short:
  assumes "smlen < sizeof_CROSS_sig_t p" and "length sm < 2 ^ 63"
  shows "crypto_sign_open p junk sm smlen pk = Inl OUT_OF_BOUNDS"
proof -
  have "length sm < 2 ^ 64 + smlen - sizeof_CROSS_sig_t p" using assms sizeof_bound [of p] by simp
  then show ?thesis
    using assms sizeof_bound [of p] by (simp add: crypto_sign_open_def ull_underflow load_at_def checked_def Let_def)
qed

end
