(* ===== verification/Avx2.thy ===== *)
theory Avx2
  imports Keccak
begin

unbundle bit_operations_syntax

text \<open>
  The 256-bit registers of the optimised implementation and the compiler
  intrinsics it uses on them (\<open>immintrin.h\<close>, part of the compiler), as the vendor's
  manual describes them. A register is a word of 256 bits; lane \<open>i\<close> of width \<open>w\<close> are
  its bits from \<open>w * i\<close>, so that lanes of different widths overlap as they do in
  the machine. Every intrinsic has a lemma in \<open>avx\<close> that gives the lanes of its
  result.
\<close>

type_synonym m256i = "256 word"

named_theorems avx \<open>the lanes of the results of the intrinsics\<close>

section \<open>Lanes\<close>

definition lane :: "nat \<Rightarrow> m256i \<Rightarrow> 'a::len word" where
  "lane i v = ucast (drop_bit (LENGTH('a) * i) v)"

definition join :: "'a::len word list \<Rightarrow> 'b::len word" where
  \<comment> \<open>the parts from the lowest\<close>
  "join xs = foldr (\<lambda>x v. push_bit LENGTH('a) v OR ucast x) xs 0"

definition of_lanes :: "'a::len word list \<Rightarrow> m256i" where
  "of_lanes xs = join xs"

lemma bit_lane: "bit (lane i v :: 'a::len word) n \<longleftrightarrow> n < LENGTH('a) \<and> bit v (LENGTH('a) * i + n)"
  by (simp add: lane_def bit_ucast_iff bit_drop_bit_eq)

lemma bit_join:
  "bit (join xs :: 'b::len word) n \<longleftrightarrow>
     n < LENGTH('b) \<and> n div LENGTH('a) < length xs \<and> bit (xs ! (n div LENGTH('a))) (n mod LENGTH('a))"
  for xs :: "'a::len word list"
proof (induction xs arbitrary: n)
  case (Cons x xs)
  have step: "bit (join (x # xs) :: 'b word) n \<longleftrightarrow>
      (n < LENGTH('b) \<and> LENGTH('a) \<le> n \<and> bit (join xs :: 'b word) (n - LENGTH('a))) \<or> (n < LENGTH('b) \<and> n < LENGTH('a) \<and> bit x n)"
    by (auto simp: join_def bit_or_iff bit_push_bit_iff bit_ucast_iff dest: bit_imp_le_length)
  show ?case
  proof (cases "n < LENGTH('a)")
    case False
    then have "n div LENGTH('a) = Suc ((n - LENGTH('a)) div LENGTH('a))" "n mod LENGTH('a) = (n - LENGTH('a)) mod LENGTH('a)"
      by (simp_all add: le_div_geq le_mod_geq)
    with False show ?thesis unfolding step Cons.IH by auto
  qed (auto simp: step)
qed (simp add: join_def)

lemma bit_of_lanes:
  "bit (of_lanes xs) n \<longleftrightarrow> n < 256 \<and> n div LENGTH('a) < length xs \<and> bit (xs ! (n div LENGTH('a))) (n mod LENGTH('a))"
  for xs :: "'a::len word list"
  by (simp add: of_lanes_def bit_join)

lemma lane_of_lanes [avx, simp]:
  assumes "i < length xs" and "LENGTH('a) * length xs \<le> 256"
  shows "lane i (of_lanes xs) = (xs ! i :: 'a::len word)"
proof (rule bit_word_eqI)
  fix n assume n: "n < LENGTH('a)"
  have "LENGTH('a) * Suc i \<le> LENGTH('a) * length xs" using assms by (intro mult_le_mono2) simp
  then have "LENGTH('a) * i + n < 256" using assms n by simp
  then show "bit (lane i (of_lanes xs) :: 'a word) n = bit (xs ! i) n"
    using n assms by (simp add: bit_lane bit_of_lanes)
qed

lemma lanes_eqI:
  assumes "\<And>i. i < 256 div LENGTH('a) \<Longrightarrow> (lane i u :: 'a::len word) = lane i v" and "LENGTH('a) dvd 256"
  shows "u = v"
proof (rule bit_word_eqI)
  fix n assume "n < LENGTH(256)"
  then have "n div LENGTH('a) < 256 div LENGTH('a)"
    using assms(2) by (simp add: div_less_iff_less_mult less_mult_imp_div_less dvd_div_mult_self)
  then have "bit (lane (n div LENGTH('a)) u :: 'a word) (n mod LENGTH('a)) = bit (lane (n div LENGTH('a)) v :: 'a word) (n mod LENGTH('a))"
    by (simp add: assms(1))
  then show "bit u n = bit v n" by (simp add: bit_lane)
qed

lemma of_lanes_lane:
  "LENGTH('a) dvd 256 \<Longrightarrow> of_lanes (map (\<lambda>i. lane i v :: 'a::len word) [0..<256 div LENGTH('a)]) = v"
  by (rule lanes_eqI [where 'a = 'a]) simp_all

text \<open>Lanes of a narrower width inside a lane of a wider one.\<close>

lemma lane_lane: "n < LENGTH('a) \<Longrightarrow> LENGTH('a) = k * LENGTH('b) \<Longrightarrow>
    bit (lane i v :: 'a::len word) n = bit (lane (k * i + n div LENGTH('b)) v :: 'b::len word) (n mod LENGTH('b))"
  by (simp add: bit_lane algebra_simps)

section \<open>Bitwise intrinsics\<close>

definition mm256_xor_si256 :: "m256i \<Rightarrow> m256i \<Rightarrow> m256i" where "mm256_xor_si256 a b = a XOR b"
definition mm256_or_si256 :: "m256i \<Rightarrow> m256i \<Rightarrow> m256i" where "mm256_or_si256 a b = a OR b"
definition mm256_and_si256 :: "m256i \<Rightarrow> m256i \<Rightarrow> m256i" where "mm256_and_si256 a b = a AND b"
definition mm256_andnot_si256 :: "m256i \<Rightarrow> m256i \<Rightarrow> m256i" where "mm256_andnot_si256 a b = NOT a AND b"

lemma lane_bitwise [avx]:
  "lane i (mm256_xor_si256 a b) = (lane i a XOR lane i b :: 'a::len word)"
  "lane i (mm256_or_si256 a b) = (lane i a OR lane i b :: 'a::len word)"
  "lane i (mm256_and_si256 a b) = (lane i a AND lane i b :: 'a::len word)"
  by (rule bit_word_eqI; simp add: bit_lane bit_simps mm256_xor_si256_def mm256_or_si256_def mm256_and_si256_def)+

lemma lane_andnot [avx]:
  assumes "LENGTH('a) * Suc i \<le> 256"
  shows "lane i (mm256_andnot_si256 a b) = (NOT (lane i a) AND lane i b :: 'a::len word)"
  by (rule bit_word_eqI) (use assms in \<open>auto simp: bit_lane bit_simps mm256_andnot_si256_def dest: bit_imp_le_length\<close>)

section \<open>Arithmetic on lanes\<close>

definition map_lanes :: "('a::len word \<Rightarrow> 'a word) \<Rightarrow> m256i \<Rightarrow> m256i" where
  "map_lanes f a = of_lanes (map (\<lambda>i. f (lane i a)) [0..<256 div LENGTH('a)])"

definition map2_lanes :: "('a::len word \<Rightarrow> 'a word \<Rightarrow> 'a word) \<Rightarrow> m256i \<Rightarrow> m256i \<Rightarrow> m256i" where
  "map2_lanes f a b = of_lanes (map (\<lambda>i. f (lane i a) (lane i b)) [0..<256 div LENGTH('a)])"

lemma room: "LENGTH('a::len) * (256 div LENGTH('a)) \<le> 256"
  by simp

lemma lane_map_lanes [avx]:
  fixes f :: "'a::len word \<Rightarrow> 'a word" and g :: "'a word \<Rightarrow> 'a word \<Rightarrow> 'a word"
  shows "i < 256 div LENGTH('a) \<Longrightarrow> lane i (map_lanes f a) = f (lane i a)"
    and "i < 256 div LENGTH('a) \<Longrightarrow> lane i (map2_lanes g a b) = g (lane i a) (lane i b)"
  by (simp_all add: map_lanes_def map2_lanes_def)

definition mm256_add_epi8 :: "m256i \<Rightarrow> m256i \<Rightarrow> m256i" where "mm256_add_epi8 = map2_lanes (\<lambda>a b :: 8 word. a + b)"
definition mm256_add_epi16 :: "m256i \<Rightarrow> m256i \<Rightarrow> m256i" where "mm256_add_epi16 = map2_lanes (\<lambda>a b :: 16 word. a + b)"
definition mm256_add_epi32 :: "m256i \<Rightarrow> m256i \<Rightarrow> m256i" where "mm256_add_epi32 = map2_lanes (\<lambda>a b :: 32 word. a + b)"
definition mm256_sub_epi32 :: "m256i \<Rightarrow> m256i \<Rightarrow> m256i" where "mm256_sub_epi32 = map2_lanes (\<lambda>a b :: 32 word. a - b)"
definition mm256_mullo_epi16 :: "m256i \<Rightarrow> m256i \<Rightarrow> m256i" where "mm256_mullo_epi16 = map2_lanes (\<lambda>a b :: 16 word. a * b)"
definition mm256_mullo_epi32 :: "m256i \<Rightarrow> m256i \<Rightarrow> m256i" where "mm256_mullo_epi32 = map2_lanes (\<lambda>a b :: 32 word. a * b)"
definition mm256_min_epu32 :: "m256i \<Rightarrow> m256i \<Rightarrow> m256i" where "mm256_min_epu32 = map2_lanes (\<lambda>a b :: 32 word. min a b)"
definition mm256_srli_epi16 :: "m256i \<Rightarrow> nat \<Rightarrow> m256i" where "mm256_srli_epi16 a n = map_lanes (\<lambda>a :: 16 word. drop_bit n a) a"
definition mm256_srli_epi32 :: "m256i \<Rightarrow> nat \<Rightarrow> m256i" where "mm256_srli_epi32 a n = map_lanes (\<lambda>a :: 32 word. drop_bit n a) a"
definition mm256_srli_epi64 :: "m256i \<Rightarrow> nat \<Rightarrow> m256i" where "mm256_srli_epi64 a n = map_lanes (\<lambda>a :: 64 word. drop_bit n a) a"
definition mm256_slli_epi64 :: "m256i \<Rightarrow> nat \<Rightarrow> m256i" where "mm256_slli_epi64 a n = map_lanes (\<lambda>a :: 64 word. push_bit n a) a"

lemma lane_arith [avx]:
  "i < 32 \<Longrightarrow> lane i (mm256_add_epi8 a b) = (lane i a + lane i b :: 8 word)"
  "i < 16 \<Longrightarrow> lane i (mm256_add_epi16 a b) = (lane i a + lane i b :: 16 word)"
  "i < 8 \<Longrightarrow> lane i (mm256_add_epi32 a b) = (lane i a + lane i b :: 32 word)"
  "i < 8 \<Longrightarrow> lane i (mm256_sub_epi32 a b) = (lane i a - lane i b :: 32 word)"
  "i < 16 \<Longrightarrow> lane i (mm256_mullo_epi16 a b) = (lane i a * lane i b :: 16 word)"
  "i < 8 \<Longrightarrow> lane i (mm256_mullo_epi32 a b) = (lane i a * lane i b :: 32 word)"
  "i < 8 \<Longrightarrow> lane i (mm256_min_epu32 a b) = (min (lane i a) (lane i b) :: 32 word)"
  "i < 16 \<Longrightarrow> lane i (mm256_srli_epi16 a n) = (drop_bit n (lane i a) :: 16 word)"
  "i < 8 \<Longrightarrow> lane i (mm256_srli_epi32 a n) = (drop_bit n (lane i a) :: 32 word)"
  "i < 4 \<Longrightarrow> lane i (mm256_srli_epi64 a n) = (drop_bit n (lane i a) :: 64 word)"
  "i < 4 \<Longrightarrow> lane i (mm256_slli_epi64 a n) = (push_bit n (lane i a) :: 64 word)"
  by (simp_all add: mm256_add_epi8_def mm256_add_epi16_def mm256_add_epi32_def mm256_sub_epi32_def mm256_mullo_epi16_def
      mm256_mullo_epi32_def mm256_min_epu32_def mm256_srli_epi16_def mm256_srli_epi32_def mm256_srli_epi64_def
      mm256_slli_epi64_def lane_map_lanes)

section \<open>Constants and memory\<close>

definition mm256_set1_epi8 :: "8 word \<Rightarrow> m256i" where "mm256_set1_epi8 a = of_lanes (replicate 32 a)"
definition mm256_set1_epi16 :: "16 word \<Rightarrow> m256i" where "mm256_set1_epi16 a = of_lanes (replicate 16 a)"
definition mm256_set1_epi32 :: "32 word \<Rightarrow> m256i" where "mm256_set1_epi32 a = of_lanes (replicate 8 a)"
definition mm256_set1_epi64x :: "64 word \<Rightarrow> m256i" where "mm256_set1_epi64x a = of_lanes (replicate 4 a)"

definition mm256_set_epi16 :: "16 word list \<Rightarrow> m256i" where
  \<comment> \<open>the arguments from the highest lane down\<close>
  "mm256_set_epi16 es = of_lanes (rev es)"

definition mm256_set_epi64x :: "64 word \<Rightarrow> 64 word \<Rightarrow> 64 word \<Rightarrow> 64 word \<Rightarrow> m256i" where
  "mm256_set_epi64x d c b a = of_lanes [a, b, c, d]"

definition mm256_load :: "'a::len word list \<Rightarrow> nat \<Rightarrow> m256i" where
  \<comment> \<open>\<open>_mm256_load_si256\<close>, \<open>_mm256_loadu_si256\<close> and \<open>_mm256_lddqu_si256\<close> at element \<open>off\<close> of an array\<close>
  "mm256_load xs off = of_lanes (read_at off (256 div LENGTH('a)) xs)"

definition mm256_store :: "'a::len word list \<Rightarrow> nat \<Rightarrow> m256i \<Rightarrow> 'a word list" where
  \<comment> \<open>\<open>_mm256_store_si256\<close> and \<open>_mm256_storeu_si256\<close>\<close>
  "mm256_store xs off v = write_at off (map (\<lambda>i. lane i v) [0..<256 div LENGTH('a)]) xs"

lemma lane_set1 [avx]:
  "i < 32 \<Longrightarrow> lane i (mm256_set1_epi8 b) = b" "i < 16 \<Longrightarrow> lane i (mm256_set1_epi16 h) = h"
  "i < 8 \<Longrightarrow> lane i (mm256_set1_epi32 d) = d" "i < 4 \<Longrightarrow> lane i (mm256_set1_epi64x q) = q"
  by (simp_all add: mm256_set1_epi8_def mm256_set1_epi16_def mm256_set1_epi32_def mm256_set1_epi64x_def)

lemma lane_set [avx]:
  "i < 16 \<Longrightarrow> length es = 16 \<Longrightarrow> lane i (mm256_set_epi16 es) = es ! (15 - i)"
  "i < 4 \<Longrightarrow> lane i (mm256_set_epi64x d c b a) = [a, b, c, d] ! i"
  by (simp_all add: mm256_set_epi16_def mm256_set_epi64x_def rev_nth)

lemma lane_load [avx]:
  fixes xs :: "'a::len word list"
  shows "off + 256 div LENGTH('a) \<le> length xs \<Longrightarrow> i < 256 div LENGTH('a) \<Longrightarrow> lane i (mm256_load xs off) = xs ! (off + i)"
  by (simp add: mm256_load_def)

section \<open>Shuffles\<close>

definition mm256_shuffle_epi8 :: "m256i \<Rightarrow> m256i \<Rightarrow> m256i" where
  \<comment> \<open>bytes of \<open>a\<close> selected by those of \<open>b\<close>, within each half\<close>
  "mm256_shuffle_epi8 a b = of_lanes (map (\<lambda>j. let s = (lane j b :: byte)
     in if bit s 7 then 0 else (lane (16 * (j div 16) + unat (s AND 15)) a :: byte)) [0..<32])"

definition mm256_srli_si256 :: "m256i \<Rightarrow> nat \<Rightarrow> m256i" where
  \<comment> \<open>a shift by bytes within each half\<close>
  "mm256_srli_si256 a n = map_lanes (\<lambda>a :: 128 word. drop_bit (8 * n) a) a"

definition mm256_unpacklo_epi64 :: "m256i \<Rightarrow> m256i \<Rightarrow> m256i" where
  "mm256_unpacklo_epi64 a b = of_lanes [lane 0 a, lane 0 b, lane 2 a, lane 2 b :: 64 word]"

definition mm256_unpackhi_epi64 :: "m256i \<Rightarrow> m256i \<Rightarrow> m256i" where
  "mm256_unpackhi_epi64 a b = of_lanes [lane 1 a, lane 1 b, lane 3 a, lane 3 b :: 64 word]"

definition mm256_permute2f128_si256 :: "m256i \<Rightarrow> m256i \<Rightarrow> nat \<Rightarrow> m256i" where
  "mm256_permute2f128_si256 a b imm =
     (let halves = [lane 0 a, lane 1 a, lane 0 b, lane 1 b :: 128 word];
          select = (\<lambda>c :: nat. if bit c 3 then 0 else halves ! (c mod 4))
      in of_lanes [select (imm mod 16), select (imm div 16 mod 16)])"

definition mm256_shuffle_pd :: "m256i \<Rightarrow> m256i \<Rightarrow> nat \<Rightarrow> m256i" where
  \<comment> \<open>the casts to vectors of doubles around it do not change the bits\<close>
  "mm256_shuffle_pd a b imm =
     of_lanes [if bit imm 0 then lane 1 a else lane 0 a, if bit imm 1 then lane 1 b else lane 0 b,
               if bit imm 2 then lane 3 a else lane 2 a, if bit imm 3 then lane 3 b else lane 2 b :: 64 word]"

lemma lane_shuffle_epi8 [avx]:
  "j < 32 \<Longrightarrow> lane j (mm256_shuffle_epi8 a b) =
     (if bit (lane j b :: byte) 7 then 0 else (lane (16 * (j div 16) + unat (lane j b AND 15 :: byte)) a :: byte))"
  by (simp add: mm256_shuffle_epi8_def)

lemma lane_unpack [avx]:
  "i < 4 \<Longrightarrow> lane i (mm256_unpacklo_epi64 a b) = ([lane 0 a, lane 0 b, lane 2 a, lane 2 b] ! i :: 64 word)"
  "i < 4 \<Longrightarrow> lane i (mm256_unpackhi_epi64 a b) = ([lane 1 a, lane 1 b, lane 3 a, lane 3 b] ! i :: 64 word)"
  by (simp_all add: mm256_unpacklo_epi64_def mm256_unpackhi_epi64_def)

lemma lane_shuffle_pd [avx]:
  "i < 4 \<Longrightarrow> lane i (mm256_shuffle_pd a b 0) = ([lane 0 a, lane 0 b, lane 2 a, lane 2 b] ! i :: 64 word)"
  "i < 4 \<Longrightarrow> lane i (mm256_shuffle_pd a b 15) = ([lane 1 a, lane 1 b, lane 3 a, lane 3 b] ! i :: 64 word)"
proof -
  have "bit (15 :: nat) 0" "bit (15 :: nat) 1" "bit (15 :: nat) 2" "bit (15 :: nat) 3" by (simp_all add: bit_iff_odd)
  then show "i < 4 \<Longrightarrow> lane i (mm256_shuffle_pd a b 0) = ([lane 0 a, lane 0 b, lane 2 a, lane 2 b] ! i :: 64 word)"
    "i < 4 \<Longrightarrow> lane i (mm256_shuffle_pd a b 15) = ([lane 1 a, lane 1 b, lane 3 a, lane 3 b] ! i :: 64 word)"
    by (simp_all add: mm256_shuffle_pd_def)
qed

lemma half_lanes:
  fixes a :: m256i
  assumes "i < 4"
  shows "lane i (of_lanes [lane h a, lane k b :: 128 word]) = (if i < 2 then lane (2 * h + i) a else lane (2 * k + (i - 2)) b :: 64 word)"
proof (rule bit_word_eqI)
  fix n assume "n < LENGTH(64)"
  then have n: "n < 64" by simp
  show "bit (lane i (of_lanes [lane h a, lane k b :: 128 word]) :: 64 word) n
      = bit (if i < 2 then lane (2 * h + i) a else lane (2 * k + (i - 2)) b :: 64 word) n"
  proof (cases "i < 2")
    case True
    then have "(64 * i + n) div 128 = 0" "(64 * i + n) mod 128 = 64 * i + n" using n by auto
    moreover have "64 * (2 * h + i) + n = 128 * h + (64 * i + n)" by simp
    ultimately show ?thesis using True n by (simp add: bit_lane bit_of_lanes add.assoc)
  next
    case False
    then obtain j where j: "i = 2 + j" "j < 2" using assms by (metis add_diff_inverse_nat nat_add_left_cancel_less numeral_Bit0)
    have "64 * i + n = 128 + (64 * j + n)" "64 * j + n < 128" using j n by simp_all
    moreover have "(128 + m) div 128 = 1 \<and> (128 + m) mod 128 = m \<and> 128 + m < 256" if "m < 128" for m :: nat
      using that by simp
    ultimately have "(64 * i + n) div 128 = 1" "(64 * i + n) mod 128 = 64 * j + n" "64 * i + n < 256" by metis+
    moreover have "64 * (2 * k + j) + n = 128 * k + (64 * j + n)" by simp
    ultimately show ?thesis using j n by (simp add: bit_lane bit_of_lanes add.assoc)
  qed
qed

lemma permute2f128_halves:
  "mm256_permute2f128_si256 a b 0x20 = of_lanes [lane 0 a, lane 0 b :: 128 word]"
  "mm256_permute2f128_si256 a b 0x31 = of_lanes [lane 1 a, lane 1 b :: 128 word]"
proof -
  have nb: "\<not> bit (2 :: nat) 3" "\<not> bit (1 :: nat) 3" "\<not> bit (3 :: nat) 3" by (simp_all only: bit_iff_odd) simp_all
  show "mm256_permute2f128_si256 a b 0x20 = of_lanes [lane 0 a, lane 0 b :: 128 word]"
    "mm256_permute2f128_si256 a b 0x31 = of_lanes [lane 1 a, lane 1 b :: 128 word]"
    unfolding mm256_permute2f128_si256_def Let_def using nb by (simp_all del: One_nat_def add: bit_1_iff)
qed

lemma lane_permute2f128 [avx]:
  assumes "i < 4"
  shows "lane i (mm256_permute2f128_si256 a b 0x20) = ([lane 0 a, lane 1 a, lane 0 b, lane 1 b] ! i :: 64 word)"
    and "lane i (mm256_permute2f128_si256 a b 0x31) = ([lane 2 a, lane 3 a, lane 2 b, lane 3 b] ! i :: 64 word)"
proof -
  have "i = 0 \<or> i = 1 \<or> i = 2 \<or> i = 3" using assms by auto
  then show "lane i (mm256_permute2f128_si256 a b 0x20) = ([lane 0 a, lane 1 a, lane 0 b, lane 1 b] ! i :: 64 word)"
    "lane i (mm256_permute2f128_si256 a b 0x31) = ([lane 2 a, lane 3 a, lane 2 b, lane 3 b] ! i :: 64 word)"
    unfolding permute2f128_halves half_lanes [OF assms] by (auto simp: eval_nat_numeral)
qed

lemmas lanes4 = lane_unpack lane_shuffle_pd lane_permute2f128

end
