(* ===== verification/Keccak_x4.thy ===== *)
theory Keccak_x4
  imports Avx2
begin

unbundle bit_operations_syntax

text \<open>
  Four instances of Keccak-f[1600] in the lanes of 256-bit registers
  (\<open>Optimized_Implementation/lib/KeccakP-1600-times4-SIMD256.c\<close>, the functions that
  \<open>fips202x4.c\<close> calls). The state is an array of 25 registers; 64-bit lane \<open>k\<close> of
  register \<open>i\<close> is lane \<open>i\<close> of instance \<open>k\<close>. The round macro and the two interleaving
  macros are translated statement by statement. A pointer into a buffer is the
  buffer and an offset.

  Every operation is proved to act on instance \<open>k\<close> as the corresponding operation
  of the scalar implementation in \<open>Keccak\<close> acts on one state.
\<close>

section \<open>The code\<close>

definition XOR256 :: "m256i \<Rightarrow> m256i \<Rightarrow> m256i" where "XOR256 a b = mm256_xor_si256 a b"
definition ANDnu256 :: "m256i \<Rightarrow> m256i \<Rightarrow> m256i" where "ANDnu256 a b = mm256_andnot_si256 a b"

definition ROL64in256 :: "m256i \<Rightarrow> nat \<Rightarrow> m256i" where
  "ROL64in256 a n = mm256_or_si256 (mm256_slli_epi64 a n) (mm256_srli_epi64 a (64 - n))"

definition rho8 :: "u64 list" where
  "rho8 = [0x0605040302010007, 0x0E0D0C0B0A09080F, 0x1615141312111017, 0x1E1D1C1B1A19181F]"

definition rho56 :: "u64 list" where
  "rho56 = [0x0007060504030201, 0x080F0E0D0C0B0A09, 0x1017161514131211, 0x181F1E1D1C1B1A19]"

definition ROL64in256_8 :: "m256i \<Rightarrow> m256i" where
  "ROL64in256_8 a = mm256_shuffle_epi8 a (mm256_load rho8 0)"

definition ROL64in256_56 :: "m256i \<Rightarrow> m256i" where
  "ROL64in256_56 a = mm256_shuffle_epi8 a (mm256_load rho56 0)"

definition KeccakF1600RoundConstants :: "u64 list" where
  "KeccakF1600RoundConstants =
    [0x0000000000000001, 0x0000000000008082, 0x800000000000808a, 0x8000000080008000,
     0x000000000000808b, 0x0000000080000001, 0x8000000080008081, 0x8000000000008009,
     0x000000000000008a, 0x0000000000000088, 0x0000000080008009, 0x000000008000000a,
     0x000000008000808b, 0x800000000000008b, 0x8000000000008089, 0x8000000000008003,
     0x8000000000008002, 0x8000000000000080, 0x000000000000800a, 0x800000008000000a,
     0x8000000080008081, 0x8000000000008080, 0x0000000080000001, 0x8000000080008008]"

definition prepareTheta :: "m256i list \<Rightarrow> m256i list" where
  "prepareTheta A =
    (let Aba = A ! 0; Abe = A ! 1; Abi = A ! 2; Abo = A ! 3; Abu = A ! 4;
         Aga = A ! 5; Age = A ! 6; Agi = A ! 7; Ago = A ! 8; Agu = A ! 9;
         Aka = A ! 10; Ake = A ! 11; Aki = A ! 12; Ako = A ! 13; Aku = A ! 14;
         Ama = A ! 15; Ame = A ! 16; Ami = A ! 17; Amo = A ! 18; Amu = A ! 19;
         Asa = A ! 20; Ase = A ! 21; Asi = A ! 22; Aso = A ! 23; Asu = A ! 24;
         Ca = XOR256 Aba (XOR256 Aga (XOR256 Aka (XOR256 Ama Asa)));
         Ce = XOR256 Abe (XOR256 Age (XOR256 Ake (XOR256 Ame Ase)));
         Ci = XOR256 Abi (XOR256 Agi (XOR256 Aki (XOR256 Ami Asi)));
         Co = XOR256 Abo (XOR256 Ago (XOR256 Ako (XOR256 Amo Aso)));
         Cu = XOR256 Abu (XOR256 Agu (XOR256 Aku (XOR256 Amu Asu)))
     in [Ca, Ce, Ci, Co, Cu])"

definition thetaRhoPiChiIotaPrepareTheta :: "m256i \<Rightarrow> m256i list \<times> m256i list \<Rightarrow> m256i list \<times> m256i list" where
  "thetaRhoPiChiIotaPrepareTheta rc = (\<lambda>(A, C).
     let Aba = A ! 0; Abe = A ! 1; Abi = A ! 2; Abo = A ! 3; Abu = A ! 4;
         Aga = A ! 5; Age = A ! 6; Agi = A ! 7; Ago = A ! 8; Agu = A ! 9;
         Aka = A ! 10; Ake = A ! 11; Aki = A ! 12; Ako = A ! 13; Aku = A ! 14;
         Ama = A ! 15; Ame = A ! 16; Ami = A ! 17; Amo = A ! 18; Amu = A ! 19;
         Asa = A ! 20; Ase = A ! 21; Asi = A ! 22; Aso = A ! 23; Asu = A ! 24;
         Ca = C ! 0; Ce = C ! 1; Ci = C ! 2; Co = C ! 3; Cu = C ! 4;
         Ce1 = ROL64in256 Ce 1; Da = XOR256 Cu Ce1; Ci1 = ROL64in256 Ci 1; De = XOR256 Ca Ci1;
         Co1 = ROL64in256 Co 1; Di = XOR256 Ce Co1; Cu1 = ROL64in256 Cu 1; Do = XOR256 Ci Cu1;
         Ca1 = ROL64in256 Ca 1; Du = XOR256 Co Ca1; Aba = XOR256 Aba Da; Bba = Aba; Age = XOR256 Age De;
         Bbe = ROL64in256 Age 44; Aki = XOR256 Aki Di; Bbi = ROL64in256 Aki 43;
         Eba = XOR256 Bba (ANDnu256 Bbe Bbi); Eba = XOR256 Eba rc; Ca = Eba; Amo = XOR256 Amo Do;
         Bbo = ROL64in256 Amo 21; Ebe = XOR256 Bbe (ANDnu256 Bbi Bbo); Ce = Ebe; Asu = XOR256 Asu Du;
         Bbu = ROL64in256 Asu 14; Ebi = XOR256 Bbi (ANDnu256 Bbo Bbu); Ci = Ebi;
         Ebo = XOR256 Bbo (ANDnu256 Bbu Bba); Co = Ebo; Ebu = XOR256 Bbu (ANDnu256 Bba Bbe); Cu = Ebu;
         Abo = XOR256 Abo Do; Bga = ROL64in256 Abo 28; Agu = XOR256 Agu Du; Bge = ROL64in256 Agu 20;
         Aka = XOR256 Aka Da; Bgi = ROL64in256 Aka 3; Ega = XOR256 Bga (ANDnu256 Bge Bgi);
         Ca = XOR256 Ca Ega; Ame = XOR256 Ame De; Bgo = ROL64in256 Ame 45;
         Ege = XOR256 Bge (ANDnu256 Bgi Bgo); Ce = XOR256 Ce Ege; Asi = XOR256 Asi Di;
         Bgu = ROL64in256 Asi 61; Egi = XOR256 Bgi (ANDnu256 Bgo Bgu); Ci = XOR256 Ci Egi;
         Ego = XOR256 Bgo (ANDnu256 Bgu Bga); Co = XOR256 Co Ego; Egu = XOR256 Bgu (ANDnu256 Bga Bge);
         Cu = XOR256 Cu Egu; Abe = XOR256 Abe De; Bka = ROL64in256 Abe 1; Agi = XOR256 Agi Di;
         Bke = ROL64in256 Agi 6; Ako = XOR256 Ako Do; Bki = ROL64in256 Ako 25;
         Eka = XOR256 Bka (ANDnu256 Bke Bki); Ca = XOR256 Ca Eka; Amu = XOR256 Amu Du;
         Bko = ROL64in256_8 Amu; Eke = XOR256 Bke (ANDnu256 Bki Bko); Ce = XOR256 Ce Eke;
         Asa = XOR256 Asa Da; Bku = ROL64in256 Asa 18; Eki = XOR256 Bki (ANDnu256 Bko Bku);
         Ci = XOR256 Ci Eki; Eko = XOR256 Bko (ANDnu256 Bku Bka); Co = XOR256 Co Eko;
         Eku = XOR256 Bku (ANDnu256 Bka Bke); Cu = XOR256 Cu Eku; Abu = XOR256 Abu Du;
         Bma = ROL64in256 Abu 27; Aga = XOR256 Aga Da; Bme = ROL64in256 Aga 36; Ake = XOR256 Ake De;
         Bmi = ROL64in256 Ake 10; Ema = XOR256 Bma (ANDnu256 Bme Bmi); Ca = XOR256 Ca Ema;
         Ami = XOR256 Ami Di; Bmo = ROL64in256 Ami 15; Eme = XOR256 Bme (ANDnu256 Bmi Bmo);
         Ce = XOR256 Ce Eme; Aso = XOR256 Aso Do; Bmu = ROL64in256_56 Aso;
         Emi = XOR256 Bmi (ANDnu256 Bmo Bmu); Ci = XOR256 Ci Emi; Emo = XOR256 Bmo (ANDnu256 Bmu Bma);
         Co = XOR256 Co Emo; Emu = XOR256 Bmu (ANDnu256 Bma Bme); Cu = XOR256 Cu Emu;
         Abi = XOR256 Abi Di; Bsa = ROL64in256 Abi 62; Ago = XOR256 Ago Do; Bse = ROL64in256 Ago 55;
         Aku = XOR256 Aku Du; Bsi = ROL64in256 Aku 39; Esa = XOR256 Bsa (ANDnu256 Bse Bsi);
         Ca = XOR256 Ca Esa; Ama = XOR256 Ama Da; Bso = ROL64in256 Ama 41;
         Ese = XOR256 Bse (ANDnu256 Bsi Bso); Ce = XOR256 Ce Ese; Ase = XOR256 Ase De;
         Bsu = ROL64in256 Ase 2; Esi = XOR256 Bsi (ANDnu256 Bso Bsu); Ci = XOR256 Ci Esi;
         Eso = XOR256 Bso (ANDnu256 Bsu Bsa); Co = XOR256 Co Eso; Esu = XOR256 Bsu (ANDnu256 Bsa Bse);
         Cu = XOR256 Cu Esu
     in ([Eba, Ebe, Ebi, Ebo, Ebu,
         Ega, Ege, Egi, Ego, Egu,
         Eka, Eke, Eki, Eko, Eku,
         Ema, Eme, Emi, Emo, Emu,
         Esa, Ese, Esi, Eso, Esu],
         [Ca, Ce, Ci, Co, Cu]))"

definition rounds24 :: "m256i list \<Rightarrow> m256i list" where
  \<comment> \<open>six rounds unrolled; the roles of \<open>A\<close> and \<open>E\<close> alternate\<close>
  "rounds24 A =
     fst (foldl (\<lambda>AC i. foldl (\<lambda>AC j. thetaRhoPiChiIotaPrepareTheta
                                        (mm256_set1_epi64x (KeccakF1600RoundConstants ! (i + j))) AC) AC [0..<6])
           (A, prepareTheta A) (map (\<lambda>n. 6 * n) [0..<4]))"

definition KeccakP1600times4_PermuteAll_24rounds :: "m256i list \<Rightarrow> m256i list" where
  "KeccakP1600times4_PermuteAll_24rounds states = rounds24 states"

section \<open>The permutation\<close>

definition inst :: "nat \<Rightarrow> m256i list \<Rightarrow> u64 list" where
  \<comment> \<open>the state of one instance\<close>
  "inst k A = map (lane k) A"

lemma length_inst [simp]: "length (inst k A) = length A"
  by (simp add: inst_def)

lemma nth_inst [simp]: "i < length A \<Longrightarrow> inst k A ! i = lane k (A ! i)"
  by (simp add: inst_def)

lemma round_constants_same: "KeccakF1600RoundConstants = KeccakF_RoundConstants"
  by (simp only: KeccakF1600RoundConstants_def KeccakF_RoundConstants_def)

lemma lane_byte: "m < 8 \<Longrightarrow> (lane (8 * k + m) v :: byte) = ucast (drop_bit (8 * m) (lane k v :: u64))"
  by (rule bit_word_eqI) (simp add: bit_lane bit_simps algebra_simps)

lemma lane_ROL [avx]:
  assumes "k < 4" and "0 < n" and "n < 64"
  shows "lane k (ROL64in256 a n) = ROL (lane k a :: u64) n"
proof (rule bit_word_eqI)
  fix i assume "i < LENGTH(64)"
  then show "bit (lane k (ROL64in256 a n) :: u64) i = bit (ROL (lane k a) n) i"
    using assms by (auto simp: ROL64in256_def ROL_def avx bit_simps dest: bit_imp_le_length)
qed

lemma bit_lane_byte: "n < 64 \<Longrightarrow> bit (lane k v :: u64) n = bit (lane (8 * k + n div 8) v :: byte) (n mod 8)"
  using lane_lane [of n 8 k v, where 'a = 64 and 'b = 8] by simp

lemma shuffled_rotl:
  fixes a b :: m256i
  assumes k: "k < 4" and r: "0 < r" "r < 8"
    and sel: "\<And>m. m < 8 \<Longrightarrow> (lane (8 * k + m) (mm256_shuffle_epi8 a b) :: byte) = lane (8 * k + (m + r) mod 8) a"
  shows "lane k (mm256_shuffle_epi8 a b) = ROL (lane k a :: u64) (64 - 8 * r)"
proof -
  have "0 < 64 - 8 * r" "64 - 8 * r < 64" using r by simp_all
  note rotl = ROL_eq_word_rotl [OF this]
  show ?thesis unfolding rotl
  proof (rule bit_word_eqI)
  fix i assume "i < LENGTH(64)"
  then have m: "i div 8 < 8" and i: "i < 64" by simp_all
  have "(i + 8 * r) mod (8 * 8) = 8 * ((i + 8 * r) div 8 mod 8) + (i + 8 * r) mod 8" by (rule mod_mult2_eq)
  then have rot: "(i + 8 * r) mod 64 = 8 * ((i div 8 + r) mod 8) + i mod 8" by (simp add: add.commute [of _ r])
  have "(i + 8 * r) mod 64 < 64" by simp
  then have rot_lt: "8 * ((i div 8 + r) mod 8) + i mod 8 < 64" by (simp only: rot)
  have "bit (lane k (mm256_shuffle_epi8 a b) :: u64) i = bit (lane (8 * k + i div 8) (mm256_shuffle_epi8 a b) :: byte) (i mod 8)"
    by (rule bit_lane_byte [OF i])
  also have "\<dots> = bit (lane (8 * k + (i div 8 + r) mod 8) a :: byte) (i mod 8)" by (simp only: sel [OF m])
  also have "\<dots> = bit (lane k a :: u64) (8 * ((i div 8 + r) mod 8) + i mod 8)"
    using bit_lane_byte [OF rot_lt, of k a] by simp
  finally show "bit (lane k (mm256_shuffle_epi8 a b) :: u64) i = bit (word_rotl (64 - 8 * r) (lane k a :: u64)) i"
    using r i by (simp add: bit_word_rotl_iff rot)
  qed
qed

definition same_half :: "nat \<Rightarrow> u64 list \<Rightarrow> nat \<Rightarrow> nat \<Rightarrow> bool" where
  \<comment> \<open>the selector of byte \<open>m\<close> of lane \<open>k\<close> picks byte \<open>m + r\<close> of the lane\<close>
  "same_half r sel k m =
     (let s = (ucast (drop_bit (8 * m) (sel ! k)) :: byte)
      in \<not> bit s 7 \<and> 16 * ((8 * k + m) div 16) + unat (s AND 15) = 8 * k + (m + r) mod 8)"

lemma selectors:
  "list_all (\<lambda>k. list_all (same_half 7 rho8 k) [0..<8]) [0..<4]"
  "list_all (\<lambda>k. list_all (same_half 1 rho56 k) [0..<8]) [0..<4]"
  by code_simp+

lemma shuffle_selected:
  assumes "k < 4" and "m < 8" and "length sel = 4" and "same_half r sel k m"
  shows "(lane (8 * k + m) (mm256_shuffle_epi8 a (mm256_load sel 0)) :: byte) = lane (8 * k + (m + r) mod 8) a"
proof -
  have "(lane (8 * k + m) (mm256_load sel 0) :: byte) = ucast (drop_bit (8 * m) (sel ! k))"
    using assms by (simp add: lane_byte lane_load)
  then show ?thesis using assms by (simp add: lane_shuffle_epi8 same_half_def Let_def)
qed

lemma lane_ROL_shuffle [avx]:
  assumes "k < 4"
  shows "lane k (ROL64in256_8 a) = ROL (lane k a :: u64) 8" and "lane k (ROL64in256_56 a) = ROL (lane k a :: u64) 56"
proof -
  have pick: "same_half 7 rho8 k m" "same_half 1 rho56 k m" if "m < 8" for m
    using selectors that assms by (simp_all only: list_all_iff set_upt atLeastLessThan_iff) auto
  have len: "length rho8 = 4" "length rho56 = 4" by (simp_all add: rho8_def rho56_def)
  have "lane k (ROL64in256_8 a) = ROL (lane k a :: u64) (64 - 8 * 7)" unfolding ROL64in256_8_def
    by (rule shuffled_rotl [OF assms _ _ shuffle_selected [OF assms _ len(1) pick(1)]]) simp_all
  then show "lane k (ROL64in256_8 a) = ROL (lane k a :: u64) 8" by simp
  have "lane k (ROL64in256_56 a) = ROL (lane k a :: u64) (64 - 8 * 1)" unfolding ROL64in256_56_def
    by (rule shuffled_rotl [OF assms _ _ shuffle_selected [OF assms _ len(2) pick(2)]]) simp_all
  then show "lane k (ROL64in256_56 a) = ROL (lane k a :: u64) 56" by simp
qed

lemma lane_XOR256 [avx]: "lane k (XOR256 a b) = (lane k a XOR lane k b :: u64)"
  by (simp add: XOR256_def avx)

lemma lane_ANDnu256 [avx]: "k < 4 \<Longrightarrow> lane k (ANDnu256 a b) = (NOT (lane k a) AND lane k b :: u64)"
  by (simp add: ANDnu256_def lane_andnot)

lemma XOR256_assoc: "XOR256 (XOR256 a b) c = XOR256 a (XOR256 b c)"
  by (simp add: XOR256_def mm256_xor_si256_def xor.assoc)

lemma length_round [simp]:
  "length (fst (thetaRhoPiChiIotaPrepareTheta rc AC)) = 25"
  by (cases AC) (simp add: thetaRhoPiChiIotaPrepareTheta_def Let_def)

lemma nth_25:
  "(x # xs) ! 0 = x" "(x # xs) ! numeral n = xs ! pred_numeral n" "(x # xs) ! 1 = xs ! 0" "(x # xs) ! Suc n' = xs ! n'"
  by simp_all

lemma round_prepares:
  "snd (thetaRhoPiChiIotaPrepareTheta rc (A, C)) = prepareTheta (fst (thetaRhoPiChiIotaPrepareTheta rc (A, C)))"
  unfolding thetaRhoPiChiIotaPrepareTheta_def Let_def prod.case fst_conv snd_conv prepareTheta_def
  by (simp only: nth_25 pred_numeral_simps BitM.simps numeral_One XOR256_assoc)

lemma inst_round:
  assumes k: "k < 4" and len: "length A = 25"
  shows "inst k (fst (thetaRhoPiChiIotaPrepareTheta rc (A, prepareTheta A))) = keccak_round (lane k rc) (inst k A)"
proof -
  have A: "i < 25 \<Longrightarrow> inst k A ! i = lane k (A ! i)" for i using len by simp
  have "inst k (fst (thetaRhoPiChiIotaPrepareTheta rc (A, prepareTheta A))) = keccak_round_A_E (lane k rc) (inst k A)"
    unfolding thetaRhoPiChiIotaPrepareTheta_def keccak_round_A_E_def Let_def prod.case fst_conv prepareTheta_def inst_def list.map
    by (simp only: nth_25 pred_numeral_simps BitM.simps numeral_One lane_XOR256 lane_ANDnu256 lane_ROL lane_ROL_shuffle k
        A [unfolded inst_def] rel_simps zero_less_one one_less_numeral_iff xor.assoc)
  then show ?thesis by (simp only: keccak_round_A_E_eq)
qed


lemma rounds24_flat:
  "rounds24 A = fst (foldl (\<lambda>AC rc. thetaRhoPiChiIotaPrepareTheta (mm256_set1_epi64x rc) AC) (A, prepareTheta A) KeccakF1600RoundConstants)"
proof -
  have u: "map (\<lambda>n. 6 * n) [0..<4] = [0, 6, 12, 18 :: nat]" "[0..<6] = [0, 1, 2, 3, 4, 5]" by code_simp+
  show ?thesis unfolding rounds24_def u KeccakF1600RoundConstants_def by simp
qed

lemma inst_rounds:
  assumes "k < 4" and "length A = 25"
  shows "inst k (fst (foldl (\<lambda>AC rc. thetaRhoPiChiIotaPrepareTheta (mm256_set1_epi64x rc) AC) (A, prepareTheta A) rcs))
      = foldl (\<lambda>A rc. keccak_round rc A) (inst k A) rcs"
  using assms(2)
proof (induction rcs arbitrary: A)
  case (Cons rc rcs)
  let ?E = "fst (thetaRhoPiChiIotaPrepareTheta (mm256_set1_epi64x rc) (A, prepareTheta A))"
  have "thetaRhoPiChiIotaPrepareTheta (mm256_set1_epi64x rc) (A, prepareTheta A) = (?E, prepareTheta ?E)"
    by (rule prod_eqI) (simp_all add: round_prepares)
  then show ?case using Cons.IH [of ?E] Cons.prems assms(1) by (simp add: inst_round avx)
qed simp

lemma inst_PermuteAll:
  "k < 4 \<Longrightarrow> length A = 25 \<Longrightarrow> inst k (KeccakP1600times4_PermuteAll_24rounds A) = KeccakF1600_StatePermute (inst k A)"
  by (simp add: KeccakP1600times4_PermuteAll_24rounds_def rounds24_flat inst_rounds round_constants_same
      KeccakF1600_StatePermute_eq keccak_f_def)

lemma length_PermuteAll [simp]: "length (KeccakP1600times4_PermuteAll_24rounds A) = 25"
proof -
  have "length (fst (foldl (\<lambda>AC rc. thetaRhoPiChiIotaPrepareTheta (mm256_set1_epi64x rc) AC) AC (rcs @ [rc]))) = 25" for AC rcs rc
    by simp
  from this [of "(A, prepareTheta A)" "butlast KeccakF1600RoundConstants" "last KeccakF1600RoundConstants"] show ?thesis
    by (simp add: KeccakP1600times4_PermuteAll_24rounds_def rounds24_flat KeccakF1600RoundConstants_def)
qed

section \<open>Access to the lanes of one instance\<close>

definition KeccakP1600times4_InitializeAll :: "m256i list" where
  "KeccakP1600times4_InitializeAll = replicate 25 0"

definition xor_lane :: "m256i list \<Rightarrow> nat \<Rightarrow> nat \<Rightarrow> u64 \<Rightarrow> m256i list" where
  \<comment> \<open>\<open>statesAsLanes[laneIndex(instanceIndex, lanePosition)] ^= lane\<close>\<close>
  "xor_lane A instanceIndex lanePosition w =
     A[lanePosition := of_lanes ((map (\<lambda>j. lane j (A ! lanePosition) :: u64) [0..<4])
         [instanceIndex := lane instanceIndex (A ! lanePosition) XOR w])]"

definition le64 :: "bytes \<Rightarrow> u64" where
  \<comment> \<open>a lane in memory\<close>
  "le64 bs = join bs"

definition bytes64 :: "u64 \<Rightarrow> bytes" where
  "bytes64 w = map (\<lambda>j. ucast (drop_bit (8 * j) w)) [0..<8]"

function add_whole_lanes :: "m256i list \<Rightarrow> nat \<Rightarrow> bytes \<Rightarrow> nat \<Rightarrow> nat \<Rightarrow> m256i list \<times> bytes \<times> nat \<times> nat" where
  \<comment> \<open>the loop \<open>while(sizeLeft >= SnP_laneLengthInBytes)\<close>\<close>
  "add_whole_lanes A instanceIndex curData lanePosition sizeLeft =
     (if sizeLeft \<ge> 8
      then let w = le64 (take 8 curData)
           in add_whole_lanes (xor_lane A instanceIndex lanePosition w) instanceIndex (drop 8 curData) (lanePosition + 1) (sizeLeft - 8)
      else (A, curData, lanePosition, sizeLeft))"
  by auto
termination by (relation "measure (\<lambda>(A, k, d, i, n). n)") auto

declare add_whole_lanes.simps [simp del]

definition KeccakP1600times4_AddBytes :: "m256i list \<Rightarrow> nat \<Rightarrow> bytes \<Rightarrow> nat \<Rightarrow> nat \<Rightarrow> m256i list" where
  "KeccakP1600times4_AddBytes states instanceIndex data offset len =
     (let sizeLeft = len;
          lanePosition = offset div 8;
          offsetInLane = offset mod 8;
          (A, curData, lanePosition, sizeLeft) =
            (if sizeLeft > 0 \<and> offsetInLane \<noteq> 0
             then let bytesInLane = 8 - offsetInLane;
                      bytesInLane = (if bytesInLane > sizeLeft then sizeLeft else bytesInLane);
                      w = le64 (write_at offsetInLane (take bytesInLane data) (replicate 8 0))
                  in (xor_lane states instanceIndex lanePosition w, drop bytesInLane data, lanePosition + 1, sizeLeft - bytesInLane)
             else (states, data, lanePosition, sizeLeft));
          (A, curData, lanePosition, sizeLeft) = add_whole_lanes A instanceIndex curData lanePosition sizeLeft
      in if sizeLeft > 0
         then let w = le64 (write_at 0 (take sizeLeft curData) (replicate 8 0)) in xor_lane A instanceIndex lanePosition w
         else A)"

function extract_whole_lanes :: "m256i list \<Rightarrow> nat \<Rightarrow> nat \<Rightarrow> nat \<Rightarrow> bytes \<times> nat \<times> nat" where
  "extract_whole_lanes A instanceIndex lanePosition sizeLeft =
     (if sizeLeft \<ge> 8
      then let (ds, lanePosition', sizeLeft') = extract_whole_lanes A instanceIndex (lanePosition + 1) (sizeLeft - 8)
           in (bytes64 (lane instanceIndex (A ! lanePosition)) @ ds, lanePosition', sizeLeft')
      else ([], lanePosition, sizeLeft))"
  by auto
termination by (relation "measure (\<lambda>(A, k, i, n). n)") auto

declare extract_whole_lanes.simps [simp del]

definition KeccakP1600times4_ExtractBytes :: "m256i list \<Rightarrow> nat \<Rightarrow> nat \<Rightarrow> nat \<Rightarrow> bytes" where
  \<comment> \<open>the bytes written at \<open>data\<close>\<close>
  "KeccakP1600times4_ExtractBytes states instanceIndex offset len =
     (let sizeLeft = len;
          lanePosition = offset div 8;
          offsetInLane = offset mod 8;
          (ds, lanePosition, sizeLeft) =
            (if sizeLeft > 0 \<and> offsetInLane \<noteq> 0
             then let bytesInLane = 8 - offsetInLane;
                      bytesInLane = (if bytesInLane > sizeLeft then sizeLeft else bytesInLane)
                  in (read_at offsetInLane bytesInLane (bytes64 (lane instanceIndex (states ! lanePosition))),
                      lanePosition + 1, sizeLeft - bytesInLane)
             else ([], lanePosition, sizeLeft));
          (ds', lanePosition, sizeLeft) = extract_whole_lanes states instanceIndex lanePosition sizeLeft
      in ds @ ds' @ (if sizeLeft > 0 then take sizeLeft (bytes64 (lane instanceIndex (states ! lanePosition))) else []))"

subsection \<open>Correctness\<close>

lemma length_xor_lane [simp]: "length (xor_lane A k i w) = length A"
  by (simp add: xor_lane_def)

lemma inst_xor_lane:
  assumes "j < 4" and "k < 4" and "i < length A"
  shows "inst j (xor_lane A k i w) = (if j = k then (inst k A)[i := inst k A ! i XOR w] else inst j A)"
proof (rule nth_equalityI)
  fix m assume "m < length (inst j (xor_lane A k i w))"
  then show "inst j (xor_lane A k i w) ! m = (if j = k then (inst k A)[i := inst k A ! i XOR w] else inst j A) ! m"
    using assms by (cases "m = i") (auto simp: xor_lane_def nth_list_update)
qed simp

lemma length_bytes64 [simp]: "length (bytes64 w) = 8"
  by (simp add: bytes64_def)

lemma bytes64_state: "map (state_byte s) [8 * i..<8 * i + 8] = bytes64 (s ! i)"
  by (rule nth_equalityI) (simp_all add: bytes64_def state_byte_def)

lemma le64_bit: "bit (le64 bs) n \<longleftrightarrow> n < 64 \<and> n div 8 < length bs \<and> bit (bs ! (n div 8)) (n mod 8)"
  by (simp add: le64_def bit_join)

lemma le64_snoc:
  assumes "length bs < 8"
  shows "le64 (bs @ [b]) = le64 bs XOR push_bit (8 * length bs) (ucast b)"
proof (rule bit_word_eqI)
  fix n assume "n < LENGTH(64)"
  then have n: "n < 64" by simp
  have top: "n - 8 * length bs = n mod 8" if "n div 8 = length bs" using that by (simp add: minus_mult_div_eq_mod [symmetric])
  have "bit b (n - 8 * length bs) \<Longrightarrow> 8 * length bs \<le> n \<Longrightarrow> n div 8 = length bs"
    using bit_imp_le_length [of b "n - 8 * length bs"] by (simp add: div_nat_eqI)
  moreover have "n div 8 < length bs \<Longrightarrow> \<not> 8 * length bs \<le> n" by linarith
  ultimately show "bit (le64 (bs @ [b])) n = bit (le64 bs XOR push_bit (8 * length bs) (ucast b)) n"
    using n top assms by (auto simp: le64_bit bit_simps nth_append less_Suc_eq)
qed

lemma le64_zeros: "le64 (replicate n 0) = 0" "le64 (bs @ replicate n 0) = le64 bs"
  by (rule bit_word_eqI; auto simp: le64_bit nth_append)+

lemma xor_one_lane:
  "m + length bs \<le> 8 \<Longrightarrow> i < length s \<Longrightarrow>
     s[i := s ! i XOR le64 (replicate m 0 @ bs)] = KeccakF1600_StateXORBytes s bs (8 * i + m) (length bs)"
proof (induction bs rule: rev_induct)
  case Nil
  show ?case by (simp add: le64_zeros)
next
  case (snoc b bs)
  have cut: "KeccakF1600_StateXORBytes s (bs @ [b]) (8 * i + m) (length bs) = KeccakF1600_StateXORBytes s bs (8 * i + m) (length bs)"
    using XORBytes_take [of "length bs" "bs @ [b]" s "8 * i + m"] by simp
  have "le64 (replicate m 0 @ bs @ [b]) = le64 (replicate m 0 @ bs) XOR push_bit (8 * (m + length bs)) (ucast b)"
    using le64_snoc [of "replicate m 0 @ bs" b] snoc.prems by simp
  moreover have "(8 * i + m + length bs) div 8 = i" "(8 * i + m + length bs) mod 8 = m + length bs"
    using snoc.prems by (simp_all add: add.assoc)
  ultimately show ?case
    using snoc cut by (simp add: XORBytes_Suc xor_byte_def xor.assoc flip: snoc.IH)
qed

lemma write_zeros: "m + length bs \<le> 8 \<Longrightarrow> write_at m bs (replicate 8 0) = replicate m 0 @ bs @ replicate (8 - m - length bs) (0 :: byte)"
  by (simp add: write_at_def min_def)

definition xor_if :: "bool \<Rightarrow> u64 list \<Rightarrow> bytes \<Rightarrow> nat \<Rightarrow> nat \<Rightarrow> u64 list" where
  "xor_if c s d off n = (if c then KeccakF1600_StateXORBytes s d off n else s)"

lemma xor_if_add: "a \<le> length d \<Longrightarrow> xor_if c s d off (a + b) = xor_if c (xor_if c s d off a) (drop a d) (off + a) b"
  by (simp add: xor_if_def XORBytes_add)

lemma xor_if_0 [simp]: "xor_if c s d off 0 = s"
  by (simp add: xor_if_def)

lemma inst_xor_part:
  assumes "j < 4" and "k < 4" and "i < length A" and "m + n \<le> 8" and "n \<le> length d"
  shows "inst j (xor_lane A k i (le64 (write_at m (take n d) (replicate 8 0)))) = xor_if (j = k) (inst j A) d (8 * i + m) n"
proof -
  have "le64 (write_at m (take n d) (replicate 8 0)) = le64 (replicate m 0 @ take n d)"
    using write_zeros [of m "take n d"] le64_zeros(2) [of "replicate m 0 @ take n d"] assms by simp
  then show ?thesis
    using assms xor_one_lane [of m "take n d" i "inst k A"] by (simp add: xor_if_def inst_xor_lane XORBytes_take)
qed

lemma whole_write: "8 \<le> length d \<Longrightarrow> write_at 0 (take 8 d) (replicate 8 0) = take 8 (d :: bytes)"
  by (simp add: write_at_def)


lemma whole_lanes:
  assumes "j < 4" and "k < 4" and "8 * i + n \<le> 8 * length A" and "n \<le> length d"
    and "add_whole_lanes A k d i n = (A', d', i', n')"
  shows "inst j A' = xor_if (j = k) (inst j A) d (8 * i) (8 * (n div 8)) \<and> length A' = length A
    \<and> d' = drop (8 * (n div 8)) d \<and> i' = i + n div 8 \<and> n' = n mod 8"
  using assms(2-)
proof (induction A k d i n rule: add_whole_lanes.induct)
  case (1 A k d i n)
  show ?case
  proof (cases "8 \<le> n")
    case True
    let ?A = "xor_lane A k i (le64 (take 8 d))"
    have one: "inst j ?A = xor_if (j = k) (inst j A) d (8 * i) 8"
      using inst_xor_part [of j k i A 0 8 d] True 1(2-4) assms(1) whole_write [of d] by simp
    have q: "n div 8 = Suc ((n - 8) div 8)" "n mod 8 = (n - 8) mod 8" using True by (simp_all add: le_div_geq le_mod_geq)
    have rec: "add_whole_lanes ?A k (drop 8 d) (i + 1) (n - 8) = (A', d', i', n')"
      using 1(5) True by (subst (asm) add_whole_lanes.simps) (simp add: Let_def)
    have "8 * (i + 1) + (n - 8) \<le> 8 * length ?A" "n - 8 \<le> length (drop 8 d)" using True 1(3,4) by simp_all
    note IH = 1(1) [OF True refl 1(2) this rec]
    have "8 * (n div 8) = 8 + 8 * ((n - 8) div 8)" using q by simp
    then have "xor_if (j = k) (inst j A) d (8 * i) (8 * (n div 8)) = xor_if (j = k) (inst j ?A) (drop 8 d) (8 * (i + 1)) (8 * ((n - 8) div 8))"
      using one True 1(4) by (simp add: xor_if_add add.commute [of 8 "8 * i"])
    then show ?thesis using IH q by (simp add: add.commute)
  next
    case False
    then show ?thesis using 1(5) by (subst (asm) add_whole_lanes.simps) auto
  qed
qed

lemma first_part:
  fixes off n :: nat
  defines "m \<equiv> (if n > 0 \<and> off mod 8 \<noteq> 0 then min (8 - off mod 8) n else 0)"
    and "i1 \<equiv> off div 8 + (if n > 0 \<and> off mod 8 \<noteq> 0 then 1 else 0)"
  shows "m \<le> n" and "off mod 8 + m \<le> 8" and "m < n \<Longrightarrow> 8 * i1 = off + m"
proof -
  have "off = 8 * (off div 8) + off mod 8" "off mod 8 < 8" by simp_all
  then show "m < n \<Longrightarrow> 8 * i1 = off + m" unfolding m_def i1_def min_def by (simp split: if_splits; linarith)
qed (auto simp: m_def)

lemma inst_AddBytes:
  assumes j: "j < 4" and k: "k < 4" and len: "off + n \<le> 8 * length A" "n \<le> length d"
  shows "inst j (KeccakP1600times4_AddBytes A k d off n) = xor_if (j = k) (inst j A) d off n
    \<and> length (KeccakP1600times4_AddBytes A k d off n) = length A"
proof -
  define m where "m = (if n > 0 \<and> off mod 8 \<noteq> 0 then min (8 - off mod 8) n else 0)"
  define i1 where "i1 = off div 8 + (if n > 0 \<and> off mod 8 \<noteq> 0 then 1 else 0)"
  define A1 where "A1 = (if n > 0 \<and> off mod 8 \<noteq> 0 then xor_lane A k (off div 8) (le64 (write_at (off mod 8) (take m d) (replicate 8 0))) else A)"
  obtain A2 d2 i2 n2 where loop: "add_whole_lanes A1 k (drop m d) i1 (n - m) = (A2, d2, i2, n2)" by (metis prod_cases4)
  note m = first_part [where off = off and n = n, folded m_def i1_def]
  have code: "KeccakP1600times4_AddBytes A k d off n =
      (if n2 > 0 then xor_lane A2 k i2 (le64 (write_at 0 (take n2 d2) (replicate 8 0))) else A2)"
    unfolding KeccakP1600times4_AddBytes_def using loop
    by (cases "n > 0 \<and> off mod 8 \<noteq> 0") (auto simp: A1_def i1_def m_def min_def Let_def)
  have len1: "length A1 = length A" by (simp add: A1_def)
  have one: "inst j A1 = xor_if (j = k) (inst j A) d off m"
  proof (cases "n > 0 \<and> off mod 8 \<noteq> 0")
    case True
    then have "off div 8 < length A" using len by linarith
    then show ?thesis using True inst_xor_part [OF j k, of "off div 8" A "off mod 8" m d] m len by (simp add: A1_def)
  qed (auto simp: A1_def m_def)
  show ?thesis
  proof (cases "m < n")
    case False
    then have "n = m" using m by simp
    moreover from this have "A2 = A1 \<and> n2 = 0" using loop by (subst (asm) add_whole_lanes.simps) simp
    ultimately show ?thesis using code one len1 by simp
  next
    case True
    note at = m(3) [OF True]
    have two: "inst j A2 = xor_if (j = k) (inst j A1) (drop m d) (8 * i1) (8 * ((n - m) div 8)) \<and> length A2 = length A1
        \<and> d2 = drop (8 * ((n - m) div 8)) (drop m d) \<and> i2 = i1 + (n - m) div 8 \<and> n2 = (n - m) mod 8"
      by (rule whole_lanes [OF j k _ _ loop]) (use at len True len1 in simp_all)
    let ?q = "m + 8 * ((n - m) div 8)"
    have n: "n = ?q + n2" and at2: "8 * i2 = off + ?q" and d2: "d2 = drop ?q d" and q: "?q \<le> length d"
      using two at m len by (simp_all add: add.commute)
    have sofar: "inst j A2 = xor_if (j = k) (inst j A) d off ?q"
      using two one at m len by (simp add: xor_if_add)
    have "length d2 = length d - ?q" using d2 by simp
    then have room: "0 + n2 \<le> 8" "n2 \<le> length d2" using two n len(2) by linarith+
    have "i2 < length A2" if "n2 > 0" using at2 n len two len1 that by linarith
    then have "inst j (xor_lane A2 k i2 (le64 (write_at 0 (take n2 d2) (replicate 8 0)))) = xor_if (j = k) (inst j A2) d2 (8 * i2) n2" if "n2 > 0"
      using inst_xor_part [OF j k _ room, of i2 A2] that by (simp only: add_0_right)
    moreover have "xor_if (j = k) (inst j A) d off n = xor_if (j = k) (inst j A2) d2 (8 * i2) n2"
      using xor_if_add [OF q] n sofar d2 at2 by metis
    ultimately show ?thesis using code two len1 by (cases "n2 = 0") simp_all
  qed
qed

subsection \<open>Extraction\<close>

lemma state_bytes_lane:
  "m + n \<le> 8 \<Longrightarrow> i < length A \<Longrightarrow> read_at m n (bytes64 (lane k (A ! i))) = map (state_byte (inst k A)) [8 * i + m..<8 * i + m + n]"
proof (rule nth_equalityI)
  fix t assume h: "m + n \<le> 8" "i < length A" and "t < length (read_at m n (bytes64 (lane k (A ! i))))"
  then have t: "t < n" by simp
  then have "(8 * i + m + t) div 8 = i" "(8 * i + m + t) mod 8 = m + t" using h by (simp_all add: add.assoc)
  then show "read_at m n (bytes64 (lane k (A ! i))) ! t = map (state_byte (inst k A)) [8 * i + m..<8 * i + m + n] ! t"
    using h t by (simp add: bytes64_def state_byte_def)
qed simp

lemma upt_three: "[a..<a + b + c + d] = [a..<a + b] @ [a + b..<a + b + c] @ [a + b + c..<a + b + c + d]" for a :: nat
  using upt_add_eq_append [of a "a + b" "c + d"] upt_add_eq_append [of "a + b" "a + b + c" d] by (simp add: add.assoc)

lemma extract_whole:
  "8 * i + n \<le> 8 * length A \<Longrightarrow> extract_whole_lanes A k i n =
     (map (state_byte (inst k A)) [8 * i..<8 * i + 8 * (n div 8)], i + n div 8, n mod 8)"
proof (induction A k i n rule: extract_whole_lanes.induct)
  case (1 A k i n)
  show ?case
  proof (cases "8 \<le> n")
    case True
    then have i: "i < length A" and q: "n div 8 = Suc ((n - 8) div 8)" "n mod 8 = (n - 8) mod 8"
      using 1(2) by (simp_all add: le_div_geq le_mod_geq)
    have "[8 * i..<8 * i + 8 * (n div 8)] = [8 * i + 0..<8 * i + 0 + 8] @ [8 * (i + 1)..<8 * (i + 1) + 8 * ((n - 8) div 8)]"
      unfolding q using upt_add_eq_append [of "8 * i" "8 * i + 8" "8 * ((n - 8) div 8)"] by (simp add: ac_simps)
    then show ?thesis using True q 1(1) [OF True] 1(2) state_bytes_lane [of 0 8 i A k] i
      by (subst extract_whole_lanes.simps) (simp add: read_at_def)
  next
    case False
    then show ?thesis by (subst extract_whole_lanes.simps) simp
  qed
qed

lemma ExtractBytes_inst:
  assumes len: "off + n \<le> 8 * length A"
  shows "KeccakP1600times4_ExtractBytes A k off n = KeccakF1600_StateExtractBytes (inst k A) off n"
proof -
  define m where "m = (if n > 0 \<and> off mod 8 \<noteq> 0 then min (8 - off mod 8) n else 0)"
  define i1 where "i1 = off div 8 + (if n > 0 \<and> off mod 8 \<noteq> 0 then 1 else 0)"
  note m = first_part [where off = off and n = n, folded m_def i1_def]
  let ?s = "state_byte (inst k A)" and ?q = "(n - m) div 8" and ?r = "(n - m) mod 8"
  have one: "(if n > 0 \<and> off mod 8 \<noteq> 0 then read_at (off mod 8) m (bytes64 (lane k (A ! (off div 8)))) else []) = map ?s [off..<off + m]"
  proof (cases "n > 0 \<and> off mod 8 \<noteq> 0")
    case True
    then have "off div 8 < length A" using len by linarith
    then show ?thesis using True state_bytes_lane [of "off mod 8" m "off div 8" A k] m by simp
  qed (auto simp: m_def)
  have code: "KeccakP1600times4_ExtractBytes A k off n = map ?s [off..<off + m] @
      (case extract_whole_lanes A k i1 (n - m) of (ds, i2, n2) \<Rightarrow> ds @ (if n2 > 0 then take n2 (bytes64 (lane k (A ! i2))) else []))"
    unfolding one [symmetric] KeccakP1600times4_ExtractBytes_def
    by (cases "n > 0 \<and> off mod 8 \<noteq> 0") (auto simp: i1_def m_def min_def Let_def split: prod.splits)
  have spec: "KeccakF1600_StateExtractBytes (inst k A) off n = map ?s [off..<off + n]"
    unfolding ExtractBytes_eq by (rule nth_equalityI) simp_all
  show ?thesis
  proof (cases "m < n")
    case False
    then have "n = m" using m by simp
    then show ?thesis unfolding code spec by (subst extract_whole_lanes.simps) simp
  next
    case True
    note at = m(3) [OF True]
    have loop: "extract_whole_lanes A k i1 (n - m) = (map ?s [off + m..<off + m + 8 * ?q], i1 + ?q, ?r)"
      using extract_whole [of i1 "n - m" A k] at len True by simp
    have n: "off + n = off + m + 8 * ?q + ?r" using True by simp
    have at2: "8 * (i1 + ?q) = off + m + 8 * ?q" using at by simp
    have "8 * (i1 + ?q) + ?r \<le> 8 * length A" using len unfolding at2 n .
    moreover have "a < b" if "8 * a + r \<le> 8 * b" "r > 0" for a b r :: nat using that by linarith
    ultimately have "i1 + ?q < length A" if "?r > 0" using that by blast
    then have "take ?r (bytes64 (lane k (A ! (i1 + ?q)))) = map ?s [off + m + 8 * ?q..<off + m + 8 * ?q + ?r]" if "?r > 0"
      using state_bytes_lane [of 0 ?r "i1 + ?q" A k] that at2 by (simp add: read_at_def)
    moreover have "map ?s [off + m + 8 * ?q..<off + n] = []" if "?r = 0" unfolding n that by simp
    ultimately have last: "(if ?r > 0 then take ?r (bytes64 (lane k (A ! (i1 + ?q)))) else []) = map ?s [off + m + 8 * ?q..<off + n]"
      unfolding n by (cases "?r = 0") simp_all
    have "[off..<off + n] = [off..<off + m] @ [off + m..<off + m + 8 * ?q] @ [off + m + 8 * ?q..<off + n]"
      unfolding n by (rule upt_three)
    then show ?thesis unfolding code spec loop prod.case last by simp
  qed
qed

section \<open>Access to the lanes of all instances\<close>

definition u64_at :: "bytes \<Rightarrow> nat \<Rightarrow> nat \<Rightarrow> u64" where
  \<comment> \<open>\<open>((const uint64_t *)(data + pos))[i]\<close>\<close>
  "u64_at data pos i = le64 (read_at (pos + 8 * i) 8 data)"

definition LOAD256u :: "bytes \<Rightarrow> nat \<Rightarrow> nat \<Rightarrow> m256i" where
  \<comment> \<open>the register at element \<open>i\<close> of the same array\<close>
  "LOAD256u data pos i = of_lanes (map (\<lambda>j. u64_at data pos (i + j)) [0..<4])"

definition UNPACKL :: "m256i \<Rightarrow> m256i \<Rightarrow> m256i" where "UNPACKL a b = mm256_unpacklo_epi64 a b"
definition UNPACKH :: "m256i \<Rightarrow> m256i \<Rightarrow> m256i" where "UNPACKH a b = mm256_unpackhi_epi64 a b"
definition PERM128 :: "m256i \<Rightarrow> m256i \<Rightarrow> nat \<Rightarrow> m256i" where "PERM128 a b c = mm256_permute2f128_si256 a b c"
definition SHUFFLE64 :: "m256i \<Rightarrow> m256i \<Rightarrow> nat \<Rightarrow> m256i" where "SHUFFLE64 a b c = mm256_shuffle_pd a b c"

definition UNINTLEAVE :: "m256i \<times> m256i \<times> m256i \<times> m256i \<Rightarrow> m256i \<times> m256i \<times> m256i \<times> m256i" where
  "UNINTLEAVE = (\<lambda>(lanes0, lanes1, lanes2, lanes3).
     let lanesL01 = UNPACKL lanes0 lanes1;
         lanesH01 = UNPACKH lanes0 lanes1;
         lanesL23 = UNPACKL lanes2 lanes3;
         lanesH23 = UNPACKH lanes2 lanes3;
         lanes0 = PERM128 lanesL01 lanesL23 0x20;
         lanes2 = PERM128 lanesL01 lanesL23 0x31;
         lanes1 = PERM128 lanesH01 lanesH23 0x20;
         lanes3 = PERM128 lanesH01 lanesH23 0x31
     in (lanes0, lanes1, lanes2, lanes3))"

definition INTLEAVE :: "m256i \<times> m256i \<times> m256i \<times> m256i \<Rightarrow> m256i \<times> m256i \<times> m256i \<times> m256i" where
  "INTLEAVE = (\<lambda>(lanes0, lanes1, lanes2, lanes3).
     let lanesL01 = PERM128 lanes0 lanes2 0x20;
         lanesH01 = PERM128 lanes1 lanes3 0x20;
         lanesL23 = PERM128 lanes0 lanes2 0x31;
         lanesH23 = PERM128 lanes1 lanes3 0x31;
         lanes0 = SHUFFLE64 lanesL01 lanesH01 0x00;
         lanes1 = SHUFFLE64 lanesL01 lanesH01 0x0F;
         lanes2 = SHUFFLE64 lanesL23 lanesH23 0x00;
         lanes3 = SHUFFLE64 lanesL23 lanesH23 0x0F
     in (lanes0, lanes1, lanes2, lanes3))"

definition Xor_In :: "bytes \<Rightarrow> nat \<Rightarrow> nat \<Rightarrow> m256i list \<Rightarrow> nat \<Rightarrow> m256i list" where
  "Xor_In data pos laneOffset A i =
     A[i := XOR256 (A ! i) (mm256_set_epi64x (u64_at data (pos + laneOffset * 3 * 8) i) (u64_at data (pos + laneOffset * 2 * 8) i)
              (u64_at data (pos + laneOffset * 8) i) (u64_at data pos i))]"

definition Xor_In4 :: "bytes \<Rightarrow> nat \<Rightarrow> nat \<Rightarrow> m256i list \<Rightarrow> nat \<Rightarrow> m256i list" where
  "Xor_In4 data pos laneOffset A i =
     (let lanes0 = LOAD256u data pos i;
          lanes1 = LOAD256u data (pos + laneOffset * 8) i;
          lanes2 = LOAD256u data (pos + laneOffset * 2 * 8) i;
          lanes3 = LOAD256u data (pos + laneOffset * 3 * 8) i;
          (lanes0, lanes1, lanes2, lanes3) = INTLEAVE (lanes0, lanes1, lanes2, lanes3);
          A = A[i + 0 := XOR256 (A ! (i + 0)) lanes0];
          A = A[i + 1 := XOR256 (A ! (i + 1)) lanes1];
          A = A[i + 2 := XOR256 (A ! (i + 2)) lanes2]
      in A[i + 3 := XOR256 (A ! (i + 3)) lanes3])"

definition KeccakP1600times4_AddLanesAll :: "m256i list \<Rightarrow> bytes \<Rightarrow> nat \<Rightarrow> nat \<Rightarrow> nat \<Rightarrow> m256i list" where
  "KeccakP1600times4_AddLanesAll states data pos laneCount laneOffset =
     (if laneCount \<ge> 16
      then let A = Xor_In4 data pos laneOffset states 0;
               A = Xor_In4 data pos laneOffset A 4;
               A = Xor_In4 data pos laneOffset A 8;
               A = Xor_In4 data pos laneOffset A 12
           in if laneCount \<ge> 20
              then let A = Xor_In4 data pos laneOffset A 16
                   in foldl (Xor_In data pos laneOffset) A [20..<laneCount]
              else foldl (Xor_In data pos laneOffset) A [16..<laneCount]
      else foldl (Xor_In data pos laneOffset) states [0..<laneCount])"

definition Extr :: "m256i list \<Rightarrow> nat \<Rightarrow> nat \<Rightarrow> bytes \<Rightarrow> nat \<Rightarrow> bytes" where
  "Extr A pos laneOffset data i =
     (let data = write_at (pos + 8 * i) (bytes64 (lane 0 (A ! i))) data;
          data = write_at (pos + laneOffset * 1 * 8 + 8 * i) (bytes64 (lane 1 (A ! i))) data;
          data = write_at (pos + laneOffset * 2 * 8 + 8 * i) (bytes64 (lane 2 (A ! i))) data
      in write_at (pos + laneOffset * 3 * 8 + 8 * i) (bytes64 (lane 3 (A ! i))) data)"

definition STORE256u :: "m256i \<Rightarrow> bytes" where
  "STORE256u v = concat (map (\<lambda>j. bytes64 (lane j v)) [0..<4])"

definition Extr4 :: "m256i list \<Rightarrow> nat \<Rightarrow> nat \<Rightarrow> bytes \<Rightarrow> nat \<Rightarrow> bytes" where
  "Extr4 A pos laneOffset data i =
     (let (lanes0, lanes1, lanes2, lanes3) = UNINTLEAVE (A ! (i + 0), A ! (i + 1), A ! (i + 2), A ! (i + 3));
          data = write_at (pos + 8 * i) (STORE256u lanes0) data;
          data = write_at (pos + laneOffset * 1 * 8 + 8 * i) (STORE256u lanes1) data;
          data = write_at (pos + laneOffset * 2 * 8 + 8 * i) (STORE256u lanes2) data
      in write_at (pos + laneOffset * 3 * 8 + 8 * i) (STORE256u lanes3) data)"

definition KeccakP1600times4_ExtractLanesAll :: "m256i list \<Rightarrow> bytes \<Rightarrow> nat \<Rightarrow> nat \<Rightarrow> nat \<Rightarrow> bytes" where
  "KeccakP1600times4_ExtractLanesAll states data pos laneCount laneOffset =
     (if laneCount \<ge> 16
      then let data = Extr4 states pos laneOffset data 0;
               data = Extr4 states pos laneOffset data 4;
               data = Extr4 states pos laneOffset data 8;
               data = Extr4 states pos laneOffset data 12
           in if laneCount \<ge> 20
              then let data = Extr4 states pos laneOffset data 16
                   in foldl (Extr states pos laneOffset) data [20..<laneCount]
              else foldl (Extr states pos laneOffset) data [16..<laneCount]
      else foldl (Extr states pos laneOffset) data [0..<laneCount])"

subsection \<open>Correctness\<close>

lemma less_4: "j < 4 \<longleftrightarrow> j = 0 \<or> j = 1 \<or> j = 2 \<or> j = (3 :: nat)"
  by auto

lemmas lane_transposes = UNPACKL_def UNPACKH_def PERM128_def SHUFFLE64_def lane_unpack lane_permute2f128 lane_shuffle_pd

lemma INTLEAVE_lanes:
  "INTLEAVE (l0, l1, l2, l3) =
     (of_lanes [lane 0 l0, lane 0 l1, lane 0 l2, lane 0 l3 :: u64], of_lanes [lane 1 l0, lane 1 l1, lane 1 l2, lane 1 l3 :: u64],
      of_lanes [lane 2 l0, lane 2 l1, lane 2 l2, lane 2 l3 :: u64], of_lanes [lane 3 l0, lane 3 l1, lane 3 l2, lane 3 l3 :: u64])"
  unfolding INTLEAVE_def prod.case Let_def prod.inject
  by (intro conjI; rule lanes_eqI [where 'a = 64]; auto simp: less_4 lane_transposes)

lemma UNINTLEAVE_lanes:
  "UNINTLEAVE (l0, l1, l2, l3) =
     (of_lanes [lane 0 l0, lane 0 l1, lane 0 l2, lane 0 l3 :: u64], of_lanes [lane 1 l0, lane 1 l1, lane 1 l2, lane 1 l3 :: u64],
      of_lanes [lane 2 l0, lane 2 l1, lane 2 l2, lane 2 l3 :: u64], of_lanes [lane 3 l0, lane 3 l1, lane 3 l2, lane 3 l3 :: u64])"
  unfolding UNINTLEAVE_def prod.case Let_def prod.inject
  by (intro conjI; rule lanes_eqI [where 'a = 64]; auto simp: less_4 lane_transposes)


lemma upt_4: "[0..<4] = [0, 1, 2, 3 :: nat]"
  by (simp add: upt_rec)

lemma Xor_In4_eq:
  assumes "i + 3 < length A"
  shows "Xor_In4 data pos laneOffset A i = foldl (Xor_In data pos laneOffset) A [i, i + 1, i + 2, i + 3]"
proof -
  have load: "j < 4 \<Longrightarrow> (lane j (LOAD256u data q i) :: u64) = u64_at data q (i + j)" for q j
    by (simp add: LOAD256u_def)
  show ?thesis
    using assms by (simp add: Xor_In4_def Xor_In_def INTLEAVE_lanes Let_def load mm256_set_epi64x_def nth_list_update)
qed

lemma upt_split: "m \<le> n \<Longrightarrow> [0..<n] = [0..<m] @ [m..<n]"
  by (metis add_0 le_add_diff_inverse upt_add_eq_append zero_le)

lemma lanes_16: "[0..<16] = [0, 0 + 1, 0 + 2, 0 + 3] @ [4, 4 + 1, 4 + 2, 4 + 3] @ [8, 8 + 1, 8 + 2, 8 + 3] @ [12, 12 + 1, 12 + 2, 12 + 3 :: nat]"
  and lanes_20: "[0..<20] = [0..<16] @ [16, 16 + 1, 16 + 2, 16 + 3 :: nat]"
  by code_simp+

lemma length_Xor_In [simp]: "length (Xor_In data pos laneOffset A i) = length A"
  by (simp add: Xor_In_def)

lemma length_foldl_Xor_In [simp]: "length (foldl (Xor_In data pos laneOffset) A is) = length A"
  by (induction "is" arbitrary: A) simp_all

lemma AddLanesAll_eq:
  assumes "laneCount \<le> length A"
  shows "KeccakP1600times4_AddLanesAll A data pos laneCount laneOffset = foldl (Xor_In data pos laneOffset) A [0..<laneCount]"
  unfolding KeccakP1600times4_AddLanesAll_def Let_def
  using assms upt_split [of 16 laneCount] upt_split [of 20 laneCount]
  by (simp add: Xor_In4_eq lanes_16 lanes_20)


lemma inst_Xor_In:
  assumes "j < 4" and "i < length A"
  shows "inst j (Xor_In data pos laneOffset A i) = (inst j A)[i := inst j A ! i XOR u64_at data (pos + j * (laneOffset * 8)) i]"
proof (rule nth_equalityI)
  fix m assume "m < length (inst j (Xor_In data pos laneOffset A i))"
  then show "inst j (Xor_In data pos laneOffset A i) ! m =
      (inst j A)[i := inst j A ! i XOR u64_at data (pos + j * (laneOffset * 8)) i] ! m"
    using assms by (cases "m = i") (auto simp: Xor_In_def lane_XOR256 lane_set less_4 ac_simps)
qed simp

lemma inst_AddLanesAll:
  assumes j: "j < 4" and "laneCount \<le> length A" and "pos + j * (laneOffset * 8) + 8 * laneCount \<le> length data"
  shows "inst j (KeccakP1600times4_AddLanesAll A data pos laneCount laneOffset)
      = KeccakF1600_StateXORBytes (inst j A) (drop (pos + j * (laneOffset * 8)) data) 0 (8 * laneCount)"
  unfolding AddLanesAll_eq [OF assms(2)] using assms(2,3)
proof (induction laneCount)
  case (Suc n)
  let ?d = "drop (pos + j * (laneOffset * 8)) data"
  have eight: "8 * Suc n = 8 * n + 8" by simp
  have u: "u64_at data (pos + j * (laneOffset * 8)) n = le64 (take 8 (drop (8 * n) ?d))"
    by (simp add: u64_at_def read_at_def add.commute)
  have "length (take 8 (drop (8 * n) ?d)) = 8" using Suc.prems by simp
  then have "inst j (foldl (Xor_In data pos laneOffset) A [0..<Suc n]) =
      KeccakF1600_StateXORBytes (inst j (foldl (Xor_In data pos laneOffset) A [0..<n])) (take 8 (drop (8 * n) ?d)) (8 * n) 8"
    using xor_one_lane [of 0 "take 8 (drop (8 * n) ?d)" n "inst j (foldl (Xor_In data pos laneOffset) A [0..<n])"] j Suc.prems
    by (simp add: inst_Xor_In u)
  also have "\<dots> = KeccakF1600_StateXORBytes (KeccakF1600_StateXORBytes (inst j A) ?d 0 (8 * n)) (drop (8 * n) ?d) (8 * n) 8"
    using Suc by (subst XORBytes_take) simp_all
  also have "\<dots> = KeccakF1600_StateXORBytes (inst j A) ?d 0 (8 * Suc n)"
    unfolding eight by (subst XORBytes_add) (use Suc.prems in simp_all)
  finally show ?case .
qed simp

lemma length_AddLanesAll [simp]:
  "laneCount \<le> length A \<Longrightarrow> length (KeccakP1600times4_AddLanesAll A data pos laneCount laneOffset) = length A"
  by (simp add: AddLanesAll_eq)

text \<open>
  For the extraction the buffer holds four outputs of \<open>w = 8 * laneOffset\<close> bytes; each
  step continues each of them.
\<close>

lemma four_writes:
  fixes data :: bytes
  assumes "length data = 4 * w" and "off + n \<le> w" and "length x0 = n" "length x1 = n" "length x2 = n" "length x3 = n"
  defines "r \<equiv> write_at (w * 3 + off) x3 (write_at (w * 2 + off) x2 (write_at (w * 1 + off) x1 (write_at off x0 data)))"
  shows "length r = 4 * w" and "j < 4 \<Longrightarrow> read_at (j * w) w r = write_at off ([x0, x1, x2, x3] ! j) (read_at (j * w) w data)"
proof -
  have slot: "length (write_at (w * k + off) x d) = 4 * w \<and>
      (j < 4 \<longrightarrow> read_at (j * w) w (write_at (w * k + off) x d) = (if j = k then write_at off x (read_at (j * w) w d) else read_at (j * w) w d))"
    if "k < 4" "length x = n" "length d = 4 * w" for k x d
  proof -
    have "k * w + w \<le> 4 * w" using that(1) by (rule slot_end)
    then have "length (write_at (k * w + off) x d) = length d" using that assms(2) by (intro length_write_at) linarith
    then show ?thesis
      using read_write_within [of j 4 k off x w d] that assms(2) by (auto simp: mult.commute [of w])
  qed
  note s = slot [of 0 x0 data] slot [of 1 x1] slot [of 2 x2] slot [of 3 x3]
  show "length r = 4 * w" using s assms by simp
  show "j < 4 \<Longrightarrow> read_at (j * w) w r = write_at off ([x0, x1, x2, x3] ! j) (read_at (j * w) w data)"
    using s assms by (auto simp: less_4)
qed

lemma extr_step:
  assumes "length data = 4 * (8 * laneOffset)" and "pos + 8 * i + 8 \<le> 8 * laneOffset"
  shows "length (Extr A pos laneOffset data i) = 4 * (8 * laneOffset)"
    and "j < 4 \<Longrightarrow> read_at (j * (8 * laneOffset)) (8 * laneOffset) (Extr A pos laneOffset data i)
           = write_at (pos + 8 * i) (bytes64 (lane j (A ! i))) (read_at (j * (8 * laneOffset)) (8 * laneOffset) data)"
proof -
  let ?b = "\<lambda>k. bytes64 (lane k (A ! i))"
  have e: "Extr A pos laneOffset data i = write_at (8 * laneOffset * 3 + (pos + 8 * i)) (?b 3)
      (write_at (8 * laneOffset * 2 + (pos + 8 * i)) (?b 2) (write_at (8 * laneOffset * 1 + (pos + 8 * i)) (?b 1) (write_at (pos + 8 * i) (?b 0) data)))"
    by (simp add: Extr_def Let_def ac_simps)
  note f = four_writes [OF assms(1,2) length_bytes64 length_bytes64 length_bytes64 length_bytes64]
  show "length (Extr A pos laneOffset data i) = 4 * (8 * laneOffset)" unfolding e by (rule f(1))
  show "j < 4 \<Longrightarrow> read_at (j * (8 * laneOffset)) (8 * laneOffset) (Extr A pos laneOffset data i)
      = write_at (pos + 8 * i) (bytes64 (lane j (A ! i))) (read_at (j * (8 * laneOffset)) (8 * laneOffset) data)"
    unfolding e f(2) by (auto simp: less_4)
qed

lemma length_STORE256u [simp]: "length (STORE256u v) = 32"
  by (simp add: STORE256u_def upt_4)

lemma extr4_step:
  assumes "length data = 4 * (8 * laneOffset)" and "pos + 8 * i + 32 \<le> 8 * laneOffset"
  shows "length (Extr4 A pos laneOffset data i) = 4 * (8 * laneOffset)"
    and "j < 4 \<Longrightarrow> read_at (j * (8 * laneOffset)) (8 * laneOffset) (Extr4 A pos laneOffset data i)
           = write_at (pos + 8 * i) (concat (map (\<lambda>t. bytes64 (lane j (A ! (i + t)))) [0..<4])) (read_at (j * (8 * laneOffset)) (8 * laneOffset) data)"
proof -
  let ?b = "\<lambda>k. concat (map (\<lambda>t. bytes64 (lane k (A ! (i + t)))) [0..<4])"
  have e: "Extr4 A pos laneOffset data i = write_at (8 * laneOffset * 3 + (pos + 8 * i)) (?b 3)
      (write_at (8 * laneOffset * 2 + (pos + 8 * i)) (?b 2) (write_at (8 * laneOffset * 1 + (pos + 8 * i)) (?b 1) (write_at (pos + 8 * i) (?b 0) data)))"
    by (simp add: Extr4_def Let_def UNINTLEAVE_lanes STORE256u_def upt_4 ac_simps)
  have len: "length (?b k) = 32" for k by (simp add: upt_4)
  note f = four_writes [OF assms(1,2) len len len len]
  show "length (Extr4 A pos laneOffset data i) = 4 * (8 * laneOffset)" unfolding e by (rule f(1))
  show "j < 4 \<Longrightarrow> read_at (j * (8 * laneOffset)) (8 * laneOffset) (Extr4 A pos laneOffset data i)
      = write_at (pos + 8 * i) (?b j) (read_at (j * (8 * laneOffset)) (8 * laneOffset) data)"
    unfolding e f(2) by (auto simp: less_4)
qed

text \<open>After \<open>n\<close> lanes every output has been continued by the first \<open>8 n\<close> bytes of its state.\<close>

definition extracted :: "m256i list \<Rightarrow> bytes \<Rightarrow> nat \<Rightarrow> nat \<Rightarrow> nat \<Rightarrow> bytes \<Rightarrow> bool" where
  "extracted A data0 pos n laneOffset data \<longleftrightarrow> length data = 4 * (8 * laneOffset) \<and>
     (\<forall>j<4. read_at (j * (8 * laneOffset)) (8 * laneOffset) data =
        write_at pos (map (state_byte (inst j A)) [0..<8 * n]) (read_at (j * (8 * laneOffset)) (8 * laneOffset) data0))"

lemma state_bytes_add:
  "n < length A \<Longrightarrow> map (state_byte (inst j A)) [0..<8 * n] @ bytes64 (lane j (A ! n)) = map (state_byte (inst j A)) [0..<8 * Suc n]"
  using bytes64_state [of "inst j A" n] upt_add_eq_append [of 0 "8 * n" 8] by (simp add: add.commute)

lemma state_bytes_add4:
  assumes "n + 3 < length A"
  shows "map (state_byte (inst j A)) [0..<8 * n] @ concat (map (\<lambda>t. bytes64 (lane j (A ! (n + t)))) [0..<4])
       = map (state_byte (inst j A)) [0..<8 * (n + 4)]"
  using assms state_bytes_add [of n A j] state_bytes_add [of "n + 1" A j] state_bytes_add [of "n + 2" A j] state_bytes_add [of "n + 3" A j]
  by (simp add: upt_4 eval_nat_numeral flip: append_assoc)

lemma extracted_more:
  assumes ex: "extracted A data0 pos n laneOffset data" and "pos + 8 * (n + m) \<le> 8 * laneOffset"
    and "length data0 = 4 * (8 * laneOffset)" and "length data' = 4 * (8 * laneOffset)"
    and step: "\<And>j. j < 4 \<Longrightarrow> read_at (j * (8 * laneOffset)) (8 * laneOffset) data' =
      write_at (pos + 8 * n) (xs j) (read_at (j * (8 * laneOffset)) (8 * laneOffset) data)"
    and xs: "\<And>j. map (state_byte (inst j A)) [0..<8 * n] @ xs j = map (state_byte (inst j A)) [0..<8 * (n + m)]"
  shows "extracted A data0 pos (n + m) laneOffset data'"
  unfolding extracted_def
proof (intro conjI allI impI)
  fix j :: nat assume j: "j < 4"
  let ?w = "8 * laneOffset" and ?f = "\<lambda>n. map (state_byte (inst j A)) [0..<8 * n]"
  have "j * ?w + ?w \<le> 4 * ?w" using j by (rule slot_end)
  then have l0: "length (read_at (j * ?w) ?w data0) = ?w" using assms(3) by (intro length_read_at) simp
  have "8 * n + length (xs j) = 8 * (n + m)" using arg_cong [OF xs [of j], of length] by simp
  then have "pos + length (?f n) + length (xs j) \<le> length (read_at (j * ?w) ?w data0)" using l0 assms(2) by simp
  from write_at_adjacent [OF this] have "read_at (j * ?w) ?w data' = write_at pos (?f n @ xs j) (read_at (j * ?w) ?w data0)"
    using step [OF j] ex j by (simp add: extracted_def)
  then show "read_at (j * ?w) ?w data' = write_at pos (?f (n + m)) (read_at (j * ?w) ?w data0)" by (simp only: xs)
qed (rule assms(4))

lemma extracted_Extr:
  assumes ex: "extracted A data0 pos n laneOffset data" and "n < length A" and room: "pos + 8 * (n + 1) \<le> 8 * laneOffset"
    and l0: "length data0 = 4 * (8 * laneOffset)"
  shows "extracted A data0 pos (n + 1) laneOffset (Extr A pos laneOffset data n)"
proof -
  have "length data = 4 * (8 * laneOffset)" "pos + 8 * n + 8 \<le> 8 * laneOffset" using ex room by (simp_all add: extracted_def)
  note step = extr_step [OF this]
  show ?thesis
    using state_bytes_add [OF assms(2)] by (intro extracted_more [OF ex room l0 step]) simp_all
qed

lemma extracted_Extr4:
  assumes ex: "extracted A data0 pos n laneOffset data" and "n + 3 < length A" and room: "pos + 8 * (n + 4) \<le> 8 * laneOffset"
    and l0: "length data0 = 4 * (8 * laneOffset)"
  shows "extracted A data0 pos (n + 4) laneOffset (Extr4 A pos laneOffset data n)"
proof -
  have "length data = 4 * (8 * laneOffset)" "pos + 8 * n + 32 \<le> 8 * laneOffset" using ex room by (simp_all add: extracted_def)
  note step = extr4_step [OF this]
  show ?thesis
    by (rule extracted_more [OF ex room l0 step state_bytes_add4 [OF assms(2)]])
qed

lemma extracted_foldl:
  assumes "extracted A data0 pos a laneOffset data" and "a \<le> b" and "b \<le> length A" and "pos + 8 * b \<le> 8 * laneOffset"
    and "length data0 = 4 * (8 * laneOffset)"
  shows "extracted A data0 pos b laneOffset (foldl (Extr A pos laneOffset) data [a..<b])"
  using assms(2-4)
proof (induction b rule: dec_induct)
  case (step b)
  then show ?case using extracted_Extr [OF step.IH] assms(5) by simp
qed (use assms(1) in simp)

lemma ExtractLanesAll_correct:
  assumes l0: "length data = 4 * (8 * laneOffset)" and "laneCount \<le> length A" and "pos + 8 * laneCount \<le> 8 * laneOffset"
  shows "length (KeccakP1600times4_ExtractLanesAll A data pos laneCount laneOffset) = 4 * (8 * laneOffset)"
    and "j < 4 \<Longrightarrow> read_at (j * (8 * laneOffset)) (8 * laneOffset) (KeccakP1600times4_ExtractLanesAll A data pos laneCount laneOffset)
      = write_at pos (map (state_byte (inst j A)) [0..<8 * laneCount]) (read_at (j * (8 * laneOffset)) (8 * laneOffset) data)"
proof -
  let ?x = "\<lambda>d n. Extr4 A pos laneOffset d n"
  have e0: "extracted A data pos 0 laneOffset data" using l0 by (simp add: extracted_def write_at_def)
  have four: "extracted A data pos (n + 4) laneOffset (?x d n)"
    if "extracted A data pos n laneOffset d" "n + 4 \<le> laneCount" for d n
    by (rule extracted_Extr4 [OF that(1)]) (use that assms in simp_all)
  have e16: "extracted A data pos 16 laneOffset (?x (?x (?x (?x data 0) 4) 8) 12)" if "16 \<le> laneCount"
    using four [OF four [OF four [OF four [OF e0]]]] that by simp
  have e20: "extracted A data pos 20 laneOffset (?x (?x (?x (?x (?x data 0) 4) 8) 12) 16)" if "20 \<le> laneCount"
    using four [OF e16] that by simp
  have "extracted A data pos laneCount laneOffset (KeccakP1600times4_ExtractLanesAll A data pos laneCount laneOffset)"
    unfolding KeccakP1600times4_ExtractLanesAll_def Let_def
    using extracted_foldl [OF e0, of laneCount] extracted_foldl [OF e16, of laneCount] extracted_foldl [OF e20, of laneCount] assms by simp
  then show "length (KeccakP1600times4_ExtractLanesAll A data pos laneCount laneOffset) = 4 * (8 * laneOffset)"
    "j < 4 \<Longrightarrow> read_at (j * (8 * laneOffset)) (8 * laneOffset) (KeccakP1600times4_ExtractLanesAll A data pos laneCount laneOffset)
      = write_at pos (map (state_byte (inst j A)) [0..<8 * laneCount]) (read_at (j * (8 * laneOffset)) (8 * laneOffset) data)"
    by (simp_all add: extracted_def)
qed

end
