(* ===== verification/Fips202_x4.thy ===== *)
theory Fips202_x4
  imports Csprng Keccak_x4
begin

unbundle bit_operations_syntax

text \<open>
  The incremental sponge over four instances at once
  (\<open>Optimized_Implementation/lib/fips202x4.c\<close>, \<open>include/fips202x4.h\<close>). Inputs and outputs
  of the four instances pass through one buffer, four slots of the input or output
  length; depending on the alignment they are absorbed by whole lanes of all
  instances or byte-wise one instance after the other. The first contents of the
  output buffer (\<open>malloc\<close>) are an argument of the model.

  Each operation is proved to act on every instance as the scalar sponge of
  \<open>Fips202\<close>.
\<close>

section \<open>The code\<close>

definition RATE :: "cross_params \<Rightarrow> nat" where
  "RATE p = (if cat p = CATEGORY_1 then SHAKE128_RATE else SHAKE256_RATE)"

abbreviation (input) WORD :: nat where "WORD \<equiv> 64"
abbreviation (input) DS :: byte where "DS \<equiv> 0x1F"

definition MAX_LANES :: "cross_params \<Rightarrow> nat" where
  "MAX_LANES p = RATE p div (WORD div 8)"

record par_keccak_context =
  x4_state :: "m256i list"
  x4_offset :: nat

definition keccak_x4_init :: par_keccak_context where
  "keccak_x4_init = \<lparr>x4_state = KeccakP1600times4_InitializeAll, x4_offset = 0\<rparr>"

lemma RATE_lanes: "RATE p = 8 * MAX_LANES p"
  by (simp add: MAX_LANES_def RATE_def SHAKE128_RATE_def SHAKE256_RATE_def)

lemma RATE_bounds: "0 < RATE p" "1 < RATE p" "RATE p < 200" "MAX_LANES p \<le> 25" "0 < MAX_LANES p"
  by (simp_all add: MAX_LANES_def RATE_def SHAKE128_RATE_def SHAKE256_RATE_def)

function absorb_lanes :: "cross_params \<Rightarrow> bytes \<Rightarrow> par_keccak_context \<Rightarrow> nat \<Rightarrow> nat \<Rightarrow> nat \<Rightarrow> par_keccak_context" where
  \<comment> \<open>the loop \<open>while(lanes > 0)\<close>, \<open>pos\<close> is how far \<open>ins\<close> was advanced\<close>
  "absorb_lanes p ins ctx pos lns lane_offset =
     (if lns > 0
      then if lns \<ge> MAX_LANES p
           then let A = KeccakP1600times4_AddLanesAll (x4_state ctx) ins pos (MAX_LANES p) lane_offset;
                    A = KeccakP1600times4_PermuteAll_24rounds A
                in absorb_lanes p ins \<lparr>x4_state = A, x4_offset = 0\<rparr> (pos + MAX_LANES p * WORD div 8) (lns - MAX_LANES p) lane_offset
           else \<lparr>x4_state = KeccakP1600times4_AddLanesAll (x4_state ctx) ins pos lns lane_offset, x4_offset = lns * WORD div 8\<rparr>
      else ctx)"
  by auto
termination by (relation "measure (\<lambda>(p, ins, ctx, pos, lns, lo). lns)") (auto simp: RATE_bounds)

declare absorb_lanes.simps [simp del]

definition add_bytes_all :: "bytes \<Rightarrow> nat \<Rightarrow> nat \<Rightarrow> m256i list \<Rightarrow> nat \<Rightarrow> nat \<Rightarrow> m256i list" where
  \<comment> \<open>the loop over the instances; the slots are \<open>stride\<close> bytes apart\<close>
  "add_bytes_all ins pos stride A offset len =
     foldl (\<lambda>A instance. KeccakP1600times4_AddBytes A instance (drop (pos + instance * stride) ins) offset len) A [0..<4]"

function absorb_bytes :: "cross_params \<Rightarrow> bytes \<Rightarrow> nat \<Rightarrow> par_keccak_context \<Rightarrow> nat \<Rightarrow> nat \<Rightarrow> par_keccak_context" where
  "absorb_bytes p ins total_len ctx pos in_len =
     (if 0 < RATE p - x4_offset ctx \<and> in_len + x4_offset ctx \<ge> RATE p
      then let A = add_bytes_all ins pos (total_len div 4) (x4_state ctx) (x4_offset ctx) (RATE p - x4_offset ctx);
               in_len = in_len - (RATE p - x4_offset ctx);
               pos = pos + (RATE p - x4_offset ctx)
           in absorb_bytes p ins total_len \<lparr>x4_state = KeccakP1600times4_PermuteAll_24rounds A, x4_offset = 0\<rparr> pos in_len
      else \<lparr>x4_state = add_bytes_all ins pos (total_len div 4) (x4_state ctx) (x4_offset ctx) in_len,
            x4_offset = x4_offset ctx + in_len\<rparr>)"
  by auto
termination by (relation "measure (\<lambda>(p, ins, total, ctx, pos, in_len). in_len)") auto

declare absorb_bytes.simps [simp del]

definition keccak_x4_absorb ::
  "cross_params \<Rightarrow> par_keccak_context \<Rightarrow> bytes \<Rightarrow> bytes \<Rightarrow> bytes \<Rightarrow> bytes \<Rightarrow> nat \<Rightarrow> par_keccak_context" where
  "keccak_x4_absorb p ctx in1 in2 in3 in4 in_len =
     (let total_len = unsigned_int (4 * in_len);
          ins = take in_len in1 @ take in_len in2 @ take in_len in3 @ take in_len in4
      in if x4_offset ctx = 0 \<and> in_len mod (WORD div 8) = 0
         then let lns = unsigned_int (in_len * 8) div WORD; lane_offset = lns in absorb_lanes p ins ctx 0 lns lane_offset
         else absorb_bytes p ins total_len ctx 0 in_len)"

definition add_byte_all :: "m256i list \<Rightarrow> byte \<Rightarrow> nat \<Rightarrow> m256i list" where
  "add_byte_all A ds offset = foldl (\<lambda>A instance. KeccakP1600times4_AddBytes A instance [ds] offset 1) A [0..<4]"

definition keccak_x4_finalize :: "cross_params \<Rightarrow> par_keccak_context \<Rightarrow> par_keccak_context" where
  "keccak_x4_finalize p ctx =
     (let ds = DS
      in if x4_offset ctx = RATE p - 1
         then let ds = ds OR 128 in \<lparr>x4_state = add_byte_all (x4_state ctx) ds (x4_offset ctx), x4_offset = 0\<rparr>
         else let A = add_byte_all (x4_state ctx) ds (x4_offset ctx); ds = 128
              in \<lparr>x4_state = add_byte_all A ds (RATE p - 1), x4_offset = 0\<rparr>)"

function squeeze_lanes :: "cross_params \<Rightarrow> par_keccak_context \<Rightarrow> bytes \<Rightarrow> nat \<Rightarrow> nat \<Rightarrow> nat \<Rightarrow> bytes \<times> par_keccak_context" where
  "squeeze_lanes p ctx outs pos lns lane_offset =
     (if lns > 0
      then let A = KeccakP1600times4_PermuteAll_24rounds (x4_state ctx)
           in if lns \<ge> MAX_LANES p
              then let outs = KeccakP1600times4_ExtractLanesAll A outs pos (MAX_LANES p) lane_offset
                   in squeeze_lanes p \<lparr>x4_state = A, x4_offset = 0\<rparr> outs (pos + MAX_LANES p * WORD div 8) (lns - MAX_LANES p) lane_offset
              else (KeccakP1600times4_ExtractLanesAll A outs pos lns lane_offset,
                    \<lparr>x4_state = A, x4_offset = RATE p - lns * WORD div 8\<rparr>)
      else (outs, ctx))"
  by auto
termination by (relation "measure (\<lambda>(p, ctx, outs, pos, lns, lo). lns)") (auto simp: RATE_bounds)

declare squeeze_lanes.simps [simp del]

definition extract_bytes_all :: "m256i list \<Rightarrow> bytes \<Rightarrow> nat \<Rightarrow> nat \<Rightarrow> nat \<Rightarrow> nat \<Rightarrow> bytes" where
  "extract_bytes_all A outs pos stride offset len =
     foldl (\<lambda>outs instance. write_at (pos + instance * stride) (KeccakP1600times4_ExtractBytes A instance offset len) outs) outs [0..<4]"

function squeeze_bytes_x4 :: "cross_params \<Rightarrow> par_keccak_context \<Rightarrow> bytes \<Rightarrow> nat \<Rightarrow> nat \<Rightarrow> nat \<Rightarrow> bytes \<times> par_keccak_context" where
  \<comment> \<open>the loop \<open>while(out_len > 0)\<close>\<close>
  "squeeze_bytes_x4 p ctx outs pos total_len out_len =
     (if out_len > 0
      then let A = KeccakP1600times4_PermuteAll_24rounds (x4_state ctx);
               len = (if out_len < RATE p then out_len else RATE p);
               outs = extract_bytes_all A outs pos (total_len div 4) 0 len
           in squeeze_bytes_x4 p \<lparr>x4_state = A, x4_offset = RATE p - len\<rparr> outs (pos + len) total_len (out_len - len)
      else (outs, ctx))"
  by auto
termination by (relation "measure (\<lambda>(p, ctx, outs, pos, total, out_len). out_len)") (auto simp: RATE_bounds)

declare squeeze_bytes_x4.simps [simp del]

definition keccak_x4_squeeze ::
  "cross_params \<Rightarrow> (nat \<Rightarrow> byte) \<Rightarrow> par_keccak_context \<Rightarrow> nat \<Rightarrow> bytes list \<times> par_keccak_context" where
  \<comment> \<open>\<open>out1\<close>, \<open>out2\<close>, \<open>out3\<close>, \<open>out4\<close>\<close>
  "keccak_x4_squeeze p junk ctx out_len =
     (let total_len = unsigned_int (4 * out_len);
          outs = map junk [0..<total_len];
          original_out_len = out_len;
          (outs, ctx) =
            (if x4_offset ctx = 0 \<and> out_len mod (WORD div 8) = 0
             then let lns = unsigned_int (out_len * 8) div WORD; lane_offset = lns in squeeze_lanes p ctx outs 0 lns lane_offset
             else let len = (if out_len < x4_offset ctx then out_len else x4_offset ctx);
                      outs = extract_bytes_all (x4_state ctx) outs 0 (total_len div 4) (RATE p - x4_offset ctx) len
                  in squeeze_bytes_x4 p (ctx\<lparr>x4_offset := x4_offset ctx - len\<rparr>) outs len total_len (out_len - len))
      in (map (\<lambda>k. read_at (original_out_len * k) (total_len div 4) outs) [0..<4], ctx))"

section \<open>Each instance is a scalar sponge\<close>

definition x4_proj :: "nat \<Rightarrow> par_keccak_context \<Rightarrow> incctx" where
  "x4_proj k ctx = \<lparr>lanes = inst k (x4_state ctx), pending = x4_offset ctx\<rparr>"

definition x4_ok :: "cross_params \<Rightarrow> par_keccak_context \<Rightarrow> bool" where
  "x4_ok p ctx \<longleftrightarrow> length (x4_state ctx) = 25 \<and> x4_offset ctx < RATE p"

lemma init_x4 [simp]: "x4_ok p keccak_x4_init" "k < 4 \<Longrightarrow> x4_proj k keccak_x4_init = keccak_inc_init"
proof -
  have "lane k (0 :: m256i) = (0 :: u64)" by (simp add: lane_def)
  then show "x4_ok p keccak_x4_init" "k < 4 \<Longrightarrow> x4_proj k keccak_x4_init = keccak_inc_init"
    by (simp_all add: x4_ok_def x4_proj_def keccak_x4_init_def KeccakP1600times4_InitializeAll_def RATE_bounds keccak_inc_init_def inst_def)
qed

lemma add_all_prefix:
  assumes k: "k < 4" and A: "length A = 25" "offset + len \<le> 200" and d: "\<And>j. j < 4 \<Longrightarrow> len \<le> length (d j)"
  shows "m \<le> 4 \<Longrightarrow> inst k (foldl (\<lambda>A j. KeccakP1600times4_AddBytes A j (d j) offset len) A [0..<m]) = xor_if (k < m) (inst k A) (d k) offset len
    \<and> length (foldl (\<lambda>A j. KeccakP1600times4_AddBytes A j (d j) offset len) A [0..<m]) = 25"
proof (induction m)
  case (Suc m)
  let ?B = "foldl (\<lambda>A j. KeccakP1600times4_AddBytes A j (d j) offset len) A [0..<m]"
  have m: "m < 4" and l: "length ?B = 25" and i: "inst k ?B = xor_if (k < m) (inst k A) (d k) offset len" using Suc by simp_all
  have "inst k (KeccakP1600times4_AddBytes ?B m (d m) offset len) = xor_if (k = m) (inst k ?B) (d m) offset len
      \<and> length (KeccakP1600times4_AddBytes ?B m (d m) offset len) = length ?B"
    by (rule inst_AddBytes) (use k m l A d in simp_all)
  then show ?case using l i by (cases "k = m") (simp_all add: xor_if_def)
qed (simp add: A xor_if_def)

lemma add_bytes_all_inst:
  assumes k: "k < 4" and A: "length A = 25" "offset + len \<le> 200" and d: "\<And>j. j < 4 \<Longrightarrow> len \<le> length (drop (pos + j * stride) ins)"
  shows "length (add_bytes_all ins pos stride A offset len) = 25"
    and "inst k (add_bytes_all ins pos stride A offset len) = KeccakF1600_StateXORBytes (inst k A) (drop (pos + k * stride) ins) offset len"
  unfolding add_bytes_all_def
  using add_all_prefix [where m = 4 and d = "\<lambda>j. drop (pos + j * stride) ins", OF k A d] k by (simp_all add: xor_if_def)

lemma add_byte_all_inst:
  assumes k: "k < 4" and A: "length A = 25" "offset < 200"
  shows "length (add_byte_all A ds offset) = 25"
    and "inst k (add_byte_all A ds offset) = KeccakF1600_StateXORBytes (inst k A) [ds] offset 1"
  unfolding add_byte_all_def
  using add_all_prefix [where m = 4 and d = "\<lambda>j. [ds]" and len = 1 and offset = offset, OF k A(1)] A k by (simp_all add: xor_if_def)

lemma XORBytes_cut: "n \<le> a \<Longrightarrow> n \<le> length d \<Longrightarrow> KeccakF1600_StateXORBytes s (take a d) off n = KeccakF1600_StateXORBytes s d off n"
  using XORBytes_take [of n "take a d" s off] XORBytes_take [of n d s off] by (simp add: min_def)

lemma whole_bytes [simp]: "n * WORD div 8 = 8 * n"
  by simp

lemma slot_room: "k < 4 \<Longrightarrow> pos + n \<le> L \<Longrightarrow> pos + k * L + n \<le> 4 * (L :: nat)"
  using slot_end [of k 4 L] by linarith

lemma absorb_one_block:
  assumes "r \<le> length m" and "pending st = 0" and "0 < r"
  shows "keccak_inc_absorb st r m =
     keccak_inc_absorb \<lparr>lanes = KeccakF1600_StatePermute (KeccakF1600_StateXORBytes (lanes st) m 0 r), pending = 0\<rparr> r (drop r m)"
  by (subst keccak_inc_absorb.simps) (use assms in \<open>simp add: Let_def\<close>)

lemma absorb_rest:
  "length m + pending st < r \<Longrightarrow> keccak_inc_absorb st r m =
     \<lparr>lanes = KeccakF1600_StateXORBytes (lanes st) m (pending st) (length m), pending = pending st + length m\<rparr>"
  by (subst keccak_inc_absorb.simps) simp

lemma x4_absorb_lanes:
  assumes k: "k < 4"
  shows "length ins = 4 * (8 * L) \<Longrightarrow> x4_ok p ctx \<Longrightarrow> x4_offset ctx = 0 \<Longrightarrow> pos + 8 * n \<le> 8 * L \<Longrightarrow>
    x4_ok p (absorb_lanes p ins ctx pos n L) \<and>
    x4_proj k (absorb_lanes p ins ctx pos n L) = keccak_inc_absorb (x4_proj k ctx) (RATE p) (take (8 * n) (drop (pos + k * (8 * L)) ins))"
proof (induction p ins ctx pos n L rule: absorb_lanes.induct)
  case (1 p ins ctx pos n L)
  note len = 1(2) and ok = 1(3,4) and room = 1(5)
  let ?M = "MAX_LANES p" and ?d = "drop (pos + k * (8 * L)) ins"
  have slot: "pos + k * (8 * L) + 8 * n \<le> length ins"
    using slot_room [OF k room] len by simp
  have l25: "length (x4_state ctx) = 25" using ok by (simp add: x4_ok_def)
  have add: "inst k (KeccakP1600times4_AddLanesAll (x4_state ctx) ins pos j L) = KeccakF1600_StateXORBytes (inst k (x4_state ctx)) (take (8 * n) ?d) 0 (8 * j)
      \<and> length (KeccakP1600times4_AddLanesAll (x4_state ctx) ins pos j L) = 25" if "j \<le> n" "j \<le> 25" for j
    using inst_AddLanesAll [OF k, of j "x4_state ctx" pos L ins] slot l25 that by (simp add: XORBytes_cut ac_simps)
  consider (zero) "n = 0" | (block) "0 < n" "?M \<le> n" | (last) "0 < n" "n < ?M" by linarith
  then show ?case
  proof cases
    case zero
    then show ?thesis using ok by (simp add: absorb_lanes.simps [of p ins ctx pos] absorb_rest RATE_bounds x4_proj_def)
  next
    case block
    let ?A = "KeccakP1600times4_PermuteAll_24rounds (KeccakP1600times4_AddLanesAll (x4_state ctx) ins pos ?M L)"
    let ?c = "\<lparr>x4_state = ?A, x4_offset = 0\<rparr>"
    have step: "absorb_lanes p ins ctx pos n L = absorb_lanes p ins ?c (pos + 8 * ?M) (n - ?M) L"
      using block by (subst absorb_lanes.simps) simp
    have R: "RATE p = 8 * ?M" by (rule RATE_lanes)
    have ok': "x4_ok p ?c" by (simp add: x4_ok_def RATE_bounds)
    have "x4_proj k ?c = \<lparr>lanes = KeccakF1600_StatePermute (KeccakF1600_StateXORBytes (inst k (x4_state ctx)) (take (8 * n) ?d) 0 (RATE p)), pending = 0\<rparr>"
      using add [OF block(2) RATE_bounds(4)] k l25 by (simp add: x4_proj_def inst_PermuteAll R)
    then have "keccak_inc_absorb (x4_proj k ctx) (RATE p) (take (8 * n) ?d) = keccak_inc_absorb (x4_proj k ?c) (RATE p) (drop (RATE p) (take (8 * n) ?d))"
      using block slot ok by (subst absorb_one_block) (simp_all add: x4_proj_def R RATE_bounds(5))
    moreover have "drop (RATE p) (take (8 * n) ?d) = take (8 * (n - ?M)) (drop (pos + 8 * ?M + k * (8 * L)) ins)"
      by (simp add: R drop_take ac_simps diff_mult_distrib)
    moreover have "pos + 8 * ?M + 8 * (n - ?M) \<le> 8 * L" using room block by simp
    ultimately show ?thesis
      using 1(1) [OF block refl refl len ok'] step by simp
  next
    case last
    have R: "RATE p = 8 * ?M" by (rule RATE_lanes)
    have "n \<le> 25" using last RATE_bounds(4) [of p] by linarith
    then show ?thesis using add [of n] last slot ok
      by (subst (1 2) absorb_lanes.simps) (simp add: x4_ok_def x4_proj_def absorb_rest R)
  qed
qed

lemma x4_absorb_bytes:
  assumes k: "k < 4"
  shows "length ins = 4 * L \<Longrightarrow> tot = 4 * L \<Longrightarrow> x4_ok p ctx \<Longrightarrow> pos + n \<le> L \<Longrightarrow>
    x4_ok p (absorb_bytes p ins tot ctx pos n) \<and>
    x4_proj k (absorb_bytes p ins tot ctx pos n) = keccak_inc_absorb (x4_proj k ctx) (RATE p) (take n (drop (pos + k * L) ins))"
proof (induction p ins tot ctx pos n rule: absorb_bytes.induct)
  case (1 p ins tot ctx pos n)
  note len = 1(2,3) and ok = 1(4) and room = 1(5)
  let ?o = "x4_offset ctx" and ?d = "drop (pos + k * L) ins"
  have l25: "length (x4_state ctx) = 25" and o: "?o < RATE p" using ok by (simp_all add: x4_ok_def)
  have slot: "pos + j * L + n \<le> length ins" if "j < 4" for j
    using slot_room [OF that room] len by simp
  have add: "inst k (add_bytes_all ins pos (tot div 4) (x4_state ctx) ?o m) = KeccakF1600_StateXORBytes (inst k (x4_state ctx)) (take n ?d) ?o m
      \<and> length (add_bytes_all ins pos (tot div 4) (x4_state ctx) ?o m) = 25" if "m \<le> n" "?o + m \<le> RATE p" for m
  proof -
    have "m \<le> length (drop (pos + j * L) ins)" if "j < 4" for j using slot [OF that] \<open>m \<le> n\<close> by simp
    then show ?thesis
      using add_bytes_all_inst [OF k l25, of ?o m pos "tot div 4" ins] slot [OF k] that len RATE_bounds(3) [of p] by (simp add: XORBytes_cut)
  qed
  show ?case
  proof (cases "RATE p \<le> n + ?o")
    case True
    let ?r = "RATE p - ?o"
    let ?A = "KeccakP1600times4_PermuteAll_24rounds (add_bytes_all ins pos (tot div 4) (x4_state ctx) ?o ?r)"
    let ?c = "\<lparr>x4_state = ?A, x4_offset = 0\<rparr>"
    have guard: "0 < ?r \<and> RATE p \<le> n + ?o" using True o by simp
    have step: "absorb_bytes p ins tot ctx pos n = absorb_bytes p ins tot ?c (pos + ?r) (n - ?r)"
      using guard by (subst absorb_bytes.simps) (simp add: Let_def)
    have ok': "x4_ok p ?c" by (simp add: x4_ok_def RATE_bounds)
    have c: "x4_proj k ?c = \<lparr>lanes = KeccakF1600_StatePermute (KeccakF1600_StateXORBytes (inst k (x4_state ctx)) (take n ?d) ?o ?r), pending = 0\<rparr>"
      using add [of ?r] k True o by (simp add: x4_proj_def inst_PermuteAll)
    have "keccak_inc_absorb (x4_proj k ctx) (RATE p) (take n ?d) = keccak_inc_absorb (x4_proj k ?c) (RATE p) (drop ?r (take n ?d))"
      unfolding c using True slot [OF k] by (subst keccak_inc_absorb.simps) (simp add: x4_proj_def RATE_bounds Let_def)
    moreover have "drop ?r (take n ?d) = take (n - ?r) (drop (pos + ?r + k * L) ins)"
      by (simp add: drop_take ac_simps)
    moreover have "pos + ?r + (n - ?r) \<le> L" using room True by simp
    ultimately show ?thesis using 1(1) [OF guard refl refl refl len ok'] step by simp
  next
    case False
    then show ?thesis using add [of n] slot [OF k]
      by (subst (1 2) absorb_bytes.simps) (simp add: x4_ok_def x4_proj_def absorb_rest)
  qed
qed

theorem keccak_x4_absorb_inst:
  assumes k: "k < 4" and ok: "x4_ok p ctx" and len: "in_len \<le> length in1" "in_len \<le> length in2" "in_len \<le> length in3" "in_len \<le> length in4"
    and small: "in_len < 2 ^ 29"
  shows "x4_ok p (keccak_x4_absorb p ctx in1 in2 in3 in4 in_len)"
    and "x4_proj k (keccak_x4_absorb p ctx in1 in2 in3 in4 in_len) = keccak_inc_absorb (x4_proj k ctx) (RATE p) (take in_len ([in1, in2, in3, in4] ! k))"
proof -
  define ins where "ins = take in_len in1 @ take in_len in2 @ take in_len in3 @ take in_len in4"
  have l: "length ins = 4 * in_len" using len by (simp add: ins_def)
  have part: "take in_len (drop (k * in_len) ins) = take in_len ([in1, in2, in3, in4] ! k)"
    using k len by (auto simp: less_4 ins_def)
  have u: "unsigned_int (4 * in_len) = 4 * in_len" "unsigned_int (in_len * 8) = in_len * 8"
    using small by (simp_all add: unsigned_int_def take_bit_nat_eq_self_iff)
  have "x4_ok p (keccak_x4_absorb p ctx in1 in2 in3 in4 in_len) \<and>
    x4_proj k (keccak_x4_absorb p ctx in1 in2 in3 in4 in_len) = keccak_inc_absorb (x4_proj k ctx) (RATE p) (take in_len (drop (k * in_len) ins))"
  proof (cases "x4_offset ctx = 0 \<and> in_len mod 8 = 0")
    case True
    then have w: "8 * (in_len div 8) = in_len" "in_len * 8 div WORD = in_len div 8" by auto
    then show ?thesis
      using x4_absorb_lanes [OF k, of ins "in_len div 8" p ctx 0 "in_len div 8"] True ok l
      by (simp add: keccak_x4_absorb_def Let_def u flip: ins_def)
  next
    case False
    then show ?thesis
      using x4_absorb_bytes [OF k, of ins in_len "4 * in_len" p ctx 0 in_len] ok l
      by (auto simp add: keccak_x4_absorb_def Let_def u simp flip: ins_def)
  qed
  then show "x4_ok p (keccak_x4_absorb p ctx in1 in2 in3 in4 in_len)"
    "x4_proj k (keccak_x4_absorb p ctx in1 in2 in3 in4 in_len) = keccak_inc_absorb (x4_proj k ctx) (RATE p) (take in_len ([in1, in2, in3, in4] ! k))"
    by (simp_all only: part)
qed

theorem keccak_x4_finalize_inst:
  assumes k: "k < 4" and ok: "x4_ok p ctx"
  shows "x4_ok p (keccak_x4_finalize p ctx)" and "x4_offset (keccak_x4_finalize p ctx) = 0"
    and "x4_proj k (keccak_x4_finalize p ctx) = keccak_inc_finalize (x4_proj k ctx) (RATE p) 0x1F"
proof -
  have l: "length (x4_state ctx) = 25" and o: "x4_offset ctx < 200" "RATE p - 1 < 200" "0 < RATE p"
    using ok RATE_bounds(1,3) [of p] by (simp_all add: x4_ok_def)
  note add = add_byte_all_inst [OF k l o(1)] add_byte_all_inst [OF k add_byte_all_inst(1) [OF k l o(1)] o(2)]
  show "x4_ok p (keccak_x4_finalize p ctx)" "x4_offset (keccak_x4_finalize p ctx) = 0"
    using add o by (auto simp: keccak_x4_finalize_def x4_ok_def Let_def)
  show "x4_proj k (keccak_x4_finalize p ctx) = keccak_inc_finalize (x4_proj k ctx) (RATE p) 0x1F"
    using add by (auto simp: keccak_x4_finalize_def x4_proj_def keccak_inc_finalize_def Let_def)
qed

text \<open>The outputs, in the slots of the buffer.\<close>

abbreviation (input) slot_of :: "nat \<Rightarrow> nat \<Rightarrow> bytes \<Rightarrow> bytes" where
  "slot_of k L outs \<equiv> read_at (k * L) L outs"

lemma extract_bytes_all_slots:
  assumes "length A = 25" "offset + n \<le> 200" and len: "length outs = 4 * L" and room: "pos + n \<le> L"
  shows "length (extract_bytes_all A outs pos L offset n) = 4 * L"
    and "k < 4 \<Longrightarrow> slot_of k L (extract_bytes_all A outs pos L offset n) = write_at pos (KeccakF1600_StateExtractBytes (inst k A) offset n) (slot_of k L outs)"
proof -
  let ?x = "\<lambda>j. KeccakF1600_StateExtractBytes (inst j A) offset n"
  have "KeccakP1600times4_ExtractBytes A j offset n = ?x j" for j
    using assms by (intro ExtractBytes_inst) simp
  then have e: "extract_bytes_all A outs pos L offset n =
      write_at (L * 3 + pos) (?x 3) (write_at (L * 2 + pos) (?x 2) (write_at (L * 1 + pos) (?x 1) (write_at pos (?x 0) outs)))"
    by (simp add: extract_bytes_all_def upt_4 ac_simps)
  have n: "length (?x j) = n" for j by simp
  note f = four_writes [OF len room n n n n]
  show "length (extract_bytes_all A outs pos L offset n) = 4 * L" unfolding e by (rule f(1))
  show "k < 4 \<Longrightarrow> slot_of k L (extract_bytes_all A outs pos L offset n) = write_at pos (?x k) (slot_of k L outs)"
    unfolding e f(2) by (auto simp: less_4)
qed

lemma length_slot: "k < 4 \<Longrightarrow> length outs = 4 * L \<Longrightarrow> length (slot_of k L outs) = L"
  using slot_end [of k 4 L] by simp

lemma squeeze_one_block:
  assumes "0 < r" and "0 < n"
  shows "keccak_inc_squeeze_blocks n st r =
     (let len = min n r; s = KeccakF1600_StatePermute (lanes st); (hs, st) = keccak_inc_squeeze_blocks (n - len) \<lparr>lanes = s, pending = r - len\<rparr> r
      in (KeccakF1600_StateExtractBytes s 0 len @ hs, st))"
  by (subst keccak_inc_squeeze_blocks.simps) (use assms in \<open>auto simp: Let_def min_def\<close>)

lemma squeeze_none [simp]: "keccak_inc_squeeze_blocks 0 st r = ([], st)"
  by (subst keccak_inc_squeeze_blocks.simps) simp

lemma x4_squeeze_bytes:
  assumes k: "k < 4"
  shows "length outs = 4 * L \<Longrightarrow> tot = 4 * L \<Longrightarrow> x4_ok p ctx \<Longrightarrow> pos + n \<le> L \<Longrightarrow>
    length (fst (squeeze_bytes_x4 p ctx outs pos tot n)) = 4 * L \<and> x4_ok p (snd (squeeze_bytes_x4 p ctx outs pos tot n)) \<and>
    slot_of k L (fst (squeeze_bytes_x4 p ctx outs pos tot n)) =
      write_at pos (fst (keccak_inc_squeeze_blocks n (x4_proj k ctx) (RATE p))) (slot_of k L outs) \<and>
    x4_proj k (snd (squeeze_bytes_x4 p ctx outs pos tot n)) = snd (keccak_inc_squeeze_blocks n (x4_proj k ctx) (RATE p))"
proof (induction p ctx outs pos tot n rule: squeeze_bytes_x4.induct)
  case (1 p ctx outs pos tot n)
  note len = 1(2,3) and ok = 1(4) and room = 1(5)
  show ?case
  proof (cases "0 < n")
    case False
    then show ?thesis using len ok by (simp add: squeeze_bytes_x4.simps [of p ctx outs] write_at_def)
  next
    case True
    let ?A = "KeccakP1600times4_PermuteAll_24rounds (x4_state ctx)" and ?n = "min n (RATE p)"
    let ?outs = "extract_bytes_all ?A outs pos (tot div 4) 0 ?n" and ?c = "\<lparr>x4_state = ?A, x4_offset = RATE p - ?n\<rparr>"
    have if_min: "(if n < RATE p then n else RATE p) = ?n" by (simp add: min_def)
    have step: "squeeze_bytes_x4 p ctx outs pos tot n = squeeze_bytes_x4 p ?c ?outs (pos + ?n) tot (n - ?n)"
      using True by (subst squeeze_bytes_x4.simps) (simp add: Let_def if_min)
    have r: "0 < RATE p" "?n \<le> 200" "pos + ?n \<le> L" "tot div 4 = L" using RATE_bounds(1,3) [of p] room len by simp_all
    have x: "length ?outs = 4 * L" "slot_of k L ?outs = write_at pos (KeccakF1600_StateExtractBytes (inst k ?A) 0 ?n) (slot_of k L outs)"
      using extract_bytes_all_slots [of ?A 0 ?n outs L pos] k len r by simp_all
    have ok': "x4_ok p ?c" using True r(1) by (simp add: x4_ok_def)
    have c: "x4_proj k ?c = \<lparr>lanes = KeccakF1600_StatePermute (lanes (x4_proj k ctx)), pending = RATE p - ?n\<rparr>"
      using k ok by (simp add: x4_proj_def x4_ok_def inst_PermuteAll)
    have p: "inst k ?A = KeccakF1600_StatePermute (lanes (x4_proj k ctx))" using c by (simp add: x4_proj_def)
    define rest where "rest = keccak_inc_squeeze_blocks (n - ?n) (x4_proj k ?c) (RATE p)"
    have ref: "keccak_inc_squeeze_blocks n (x4_proj k ctx) (RATE p) = (KeccakF1600_StateExtractBytes (inst k ?A) 0 ?n @ fst rest, snd rest)"
      unfolding squeeze_one_block [OF r(1) True] rest_def p c by (simp add: Let_def split_beta)
    have l: "length (fst rest) = n - ?n" unfolding rest_def by (rule length_squeeze_blocks [OF r(1)])
    have "pos + ?n + (n - ?n) \<le> L" using room by simp
    note IH = 1(1) [OF True refl refl refl, unfolded if_min, OF x(1) len(2) ok' this]
    show ?thesis using IH unfolding step ref x rest_def [symmetric]
      using write_at_adjacent [of pos "KeccakF1600_StateExtractBytes (inst k ?A) 0 ?n" "fst rest" "slot_of k L outs"] l room length_slot [OF k len(1)]
      by simp
  qed
qed

lemma StateExtractBytes_map: "KeccakF1600_StateExtractBytes s 0 n = map (state_byte s) [0..<n]"
  by (simp add: ExtractBytes_eq)

lemma x4_squeeze_lanes:
  assumes k: "k < 4"
  shows "length outs = 4 * (8 * L) \<Longrightarrow> x4_ok p ctx \<Longrightarrow> pos + 8 * n \<le> 8 * L \<Longrightarrow>
    length (fst (squeeze_lanes p ctx outs pos n L)) = 4 * (8 * L) \<and> x4_ok p (snd (squeeze_lanes p ctx outs pos n L)) \<and>
    slot_of k (8 * L) (fst (squeeze_lanes p ctx outs pos n L)) =
      write_at pos (fst (keccak_inc_squeeze_blocks (8 * n) (x4_proj k ctx) (RATE p))) (slot_of k (8 * L) outs) \<and>
    x4_proj k (snd (squeeze_lanes p ctx outs pos n L)) = snd (keccak_inc_squeeze_blocks (8 * n) (x4_proj k ctx) (RATE p))"
proof (induction p ctx outs pos n L rule: squeeze_lanes.induct)
  case (1 p ctx outs pos n L)
  note len = 1(2) and ok = 1(3) and room = 1(4)
  let ?A = "KeccakP1600times4_PermuteAll_24rounds (x4_state ctx)" and ?M = "MAX_LANES p" and ?w = "8 * L"
  have R: "RATE p = 8 * ?M" by (rule RATE_lanes)
  have r: "0 < RATE p" "?M \<le> 25" "0 < ?M" using RATE_bounds by blast+
  have p: "inst k ?A = KeccakF1600_StatePermute (lanes (x4_proj k ctx))"
    using k ok by (simp add: x4_proj_def x4_ok_def inst_PermuteAll)
  have x: "length (KeccakP1600times4_ExtractLanesAll ?A outs pos m L) = 4 * ?w \<and>
      slot_of k ?w (KeccakP1600times4_ExtractLanesAll ?A outs pos m L) = write_at pos (KeccakF1600_StateExtractBytes (inst k ?A) 0 (8 * m)) (slot_of k ?w outs)"
    if "m \<le> n" "m \<le> 25" for m
    using ExtractLanesAll_correct [OF len, of m ?A pos] k room that by (simp add: StateExtractBytes_map)
  consider (zero) "n = 0" | (block) "0 < n" "?M \<le> n" | (last) "0 < n" "n < ?M" by linarith
  then show ?case
  proof cases
    case zero
    then show ?thesis using len ok by (simp add: squeeze_lanes.simps [of p ctx outs] write_at_def)
  next
    case block
    let ?outs = "KeccakP1600times4_ExtractLanesAll ?A outs pos ?M L" and ?c = "\<lparr>x4_state = ?A, x4_offset = 0\<rparr>"
    have step: "squeeze_lanes p ctx outs pos n L = squeeze_lanes p ?c ?outs (pos + 8 * ?M) (n - ?M) L"
      using block by (subst squeeze_lanes.simps) (simp add: Let_def)
    have ok': "x4_ok p ?c" using r(1) by (simp add: x4_ok_def)
    have c: "x4_proj k ?c = \<lparr>lanes = KeccakF1600_StatePermute (lanes (x4_proj k ctx)), pending = 0\<rparr>"
      using p by (simp add: x4_proj_def)
    define rest where "rest = keccak_inc_squeeze_blocks (8 * (n - ?M)) (x4_proj k ?c) (RATE p)"
    have m: "min (8 * n) (RATE p) = 8 * ?M" "8 * n - 8 * ?M = 8 * (n - ?M)" "RATE p - 8 * ?M = 0" using block by (simp_all add: R)
    have n: "0 < 8 * n" using block by simp
    have ref: "keccak_inc_squeeze_blocks (8 * n) (x4_proj k ctx) (RATE p) = (KeccakF1600_StateExtractBytes (inst k ?A) 0 (8 * ?M) @ fst rest, snd rest)"
      unfolding squeeze_one_block [OF r(1) n] rest_def p c m(1) by (simp add: Let_def split_beta m(2,3))
    have l: "length (fst rest) = 8 * (n - ?M)" unfolding rest_def by (rule length_squeeze_blocks [OF r(1)])
    have "pos + 8 * ?M + 8 * (n - ?M) \<le> 8 * L" using room block by simp
    note IH = 1(1) [OF block(1) refl block(2) refl, unfolded whole_bytes, OF _ ok' this, folded rest_def]
    show ?thesis using IH x [OF block(2) r(2)] unfolding step ref
      using write_at_adjacent [of pos "KeccakF1600_StateExtractBytes (inst k ?A) 0 (8 * ?M)" "fst rest" "slot_of k ?w outs"] l room block length_slot [OF k len]
      by simp
  next
    case last
    have step: "squeeze_lanes p ctx outs pos n L = (KeccakP1600times4_ExtractLanesAll ?A outs pos n L, \<lparr>x4_state = ?A, x4_offset = RATE p - 8 * n\<rparr>)"
      using last by (subst squeeze_lanes.simps) (simp add: Let_def)
    have m: "min (8 * n) (RATE p) = 8 * n" "8 * n - 8 * n = 0" using last by (simp_all add: R)
    have n: "0 < 8 * n" using last by simp
    have ref: "keccak_inc_squeeze_blocks (8 * n) (x4_proj k ctx) (RATE p) =
        (KeccakF1600_StateExtractBytes (inst k ?A) 0 (8 * n), \<lparr>lanes = inst k ?A, pending = RATE p - 8 * n\<rparr>)"
      unfolding squeeze_one_block [OF r(1) n] p m by (simp add: Let_def)
    show ?thesis unfolding step ref using x [of n] last r by (simp add: x4_ok_def x4_proj_def R)
  qed
qed

lemma squeeze_from_start:
  "pending st = 0 \<Longrightarrow> keccak_inc_squeeze n st r = keccak_inc_squeeze_blocks n st r"
  by (cases st) (simp add: keccak_inc_squeeze_def Let_def split_beta KeccakF1600_StateExtractBytes_def)

theorem keccak_x4_squeeze_inst:
  assumes k: "k < 4" and ok: "x4_ok p ctx" and small: "out_len < 2 ^ 29"
  shows "x4_ok p (snd (keccak_x4_squeeze p junk ctx out_len))"
    and "fst (keccak_x4_squeeze p junk ctx out_len) ! k = fst (keccak_inc_squeeze out_len (x4_proj k ctx) (RATE p))"
    and "x4_proj k (snd (keccak_x4_squeeze p junk ctx out_len)) = snd (keccak_inc_squeeze out_len (x4_proj k ctx) (RATE p))"
proof -
  define outs where "outs = map junk [0..<4 * out_len]"
  have l: "length outs = 4 * out_len" by (simp add: outs_def)
  have u: "unsigned_int (4 * out_len) = 4 * out_len" "unsigned_int (out_len * 8) = out_len * 8"
    using small by (simp_all add: unsigned_int_def take_bit_nat_eq_self_iff)
  have r: "0 < RATE p" "RATE p < 200" using RATE_bounds by blast+
  define loop where "loop = (if x4_offset ctx = 0 \<and> out_len mod (WORD div 8) = 0
     then squeeze_lanes p ctx outs 0 (out_len * 8 div WORD) (out_len * 8 div WORD)
     else let len = (if out_len < x4_offset ctx then out_len else x4_offset ctx);
              outs = extract_bytes_all (x4_state ctx) outs 0 out_len (RATE p - x4_offset ctx) len
          in squeeze_bytes_x4 p (ctx\<lparr>x4_offset := x4_offset ctx - len\<rparr>) outs len (4 * out_len) (out_len - len))"
  have e: "keccak_x4_squeeze p junk ctx out_len = (map (\<lambda>k. slot_of k out_len (fst loop)) [0..<4], snd loop)"
    unfolding keccak_x4_squeeze_def loop_def by (simp add: Let_def u split_beta mult.commute [of out_len] u(2) [simplified mult.commute [of out_len]] flip: outs_def)
  have full: "fst (keccak_inc_squeeze out_len (x4_proj k ctx) (RATE p)) = xs \<Longrightarrow> length xs = out_len \<Longrightarrow> write_at 0 xs (slot_of k out_len outs) = xs" for xs
    using length_slot [OF k l] by (simp add: write_at_def)
  have "x4_ok p (snd loop) \<and> slot_of k out_len (fst loop) = fst (keccak_inc_squeeze out_len (x4_proj k ctx) (RATE p))
    \<and> x4_proj k (snd loop) = snd (keccak_inc_squeeze out_len (x4_proj k ctx) (RATE p))"
  proof (cases "x4_offset ctx = 0 \<and> out_len mod 8 = 0")
    case True
    then have w: "8 * (out_len div 8) = out_len" "out_len * 8 div WORD = out_len div 8" by auto
    have s: "keccak_inc_squeeze out_len (x4_proj k ctx) (RATE p) = keccak_inc_squeeze_blocks out_len (x4_proj k ctx) (RATE p)"
      using True by (intro squeeze_from_start) (simp add: x4_proj_def)
    show ?thesis
      using x4_squeeze_lanes [OF k, of outs "out_len div 8" p ctx 0 "out_len div 8"] True ok l full [OF refl]
        length_squeeze_blocks [OF r(1), of out_len "x4_proj k ctx"]
      unfolding loop_def s by (simp add: w)
  next
    case False
    define len where "len = (if out_len < x4_offset ctx then out_len else x4_offset ctx)"
    then have le: "len \<le> out_len" "len \<le> x4_offset ctx" by simp_all
    let ?outs = "extract_bytes_all (x4_state ctx) outs 0 out_len (RATE p - x4_offset ctx) len" and ?c = "ctx\<lparr>x4_offset := x4_offset ctx - len\<rparr>"
    have o: "length (x4_state ctx) = 25" "x4_offset ctx < RATE p" using ok by (simp_all add: x4_ok_def)
    have x: "length ?outs = 4 * out_len"
      "slot_of k out_len ?outs = write_at 0 (KeccakF1600_StateExtractBytes (inst k (x4_state ctx)) (RATE p - x4_offset ctx) len) (slot_of k out_len outs)"
      using extract_bytes_all_slots [of "x4_state ctx" "RATE p - x4_offset ctx" len outs out_len 0] k l o r le by simp_all
    have c: "x4_ok p ?c" "x4_proj k ?c = (x4_proj k ctx)\<lparr>pending := x4_offset ctx - len\<rparr>" using o by (simp_all add: x4_ok_def x4_proj_def)
    have loop: "loop = squeeze_bytes_x4 p ?c ?outs len (4 * out_len) (out_len - len)"
      using False unfolding loop_def Let_def len_def by auto
    define rest where "rest = keccak_inc_squeeze_blocks (out_len - len) (x4_proj k ?c) (RATE p)"
    have ref: "keccak_inc_squeeze out_len (x4_proj k ctx) (RATE p) =
        (KeccakF1600_StateExtractBytes (inst k (x4_state ctx)) (RATE p - x4_offset ctx) len @ fst rest, snd rest)"
      unfolding keccak_inc_squeeze_def rest_def c(2) len_def by (simp add: Let_def split_beta x4_proj_def)
    have l': "length (fst rest) = out_len - len" unfolding rest_def by (rule length_squeeze_blocks [OF r(1)])
    show ?thesis
      using x4_squeeze_bytes [OF k x(1) refl c(1), of len "out_len - len", folded rest_def] full [OF refl] l'
        write_at_adjacent [of 0 "KeccakF1600_StateExtractBytes (inst k (x4_state ctx)) (RATE p - x4_offset ctx) len" "fst rest" "slot_of k out_len outs"]
        length_slot [OF k l] le
      unfolding loop ref x(2) by simp
  qed
  then show "x4_ok p (snd (keccak_x4_squeeze p junk ctx out_len))"
    "fst (keccak_x4_squeeze p junk ctx out_len) ! k = fst (keccak_inc_squeeze out_len (x4_proj k ctx) (RATE p))"
    "x4_proj k (snd (keccak_x4_squeeze p junk ctx out_len)) = snd (keccak_inc_squeeze out_len (x4_proj k ctx) (RATE p))"
    unfolding e using k by simp_all
qed

end
