(* ===== verification/Csprng_x4.thy ===== *)
theory Csprng_x4
  imports Fips202_x4
begin

unbundle bit_operations_syntax

text \<open>
  The generators and the hash of the optimised implementation on one to four inputs
  at once (\<open>Optimized_Implementation/include/sha3.h\<close>, \<open>include/csprng_hash.h\<close>). Four
  instances share the vectorised sponge, two run one after the other, three run as
  four with a discarded fourth whose input is not initialised: its bytes, and those of
  the buffers of the sponge, are an argument of the model.

  Every parallel call is proved to return what the single calls of \<open>Csprng\<close> return,
  whatever the uninitialised bytes are.
\<close>

section \<open>The code\<close>

subsection \<open>The SHAKE wrappers\<close>

definition xof_shake_x4_init :: par_keccak_context where
  "xof_shake_x4_init = keccak_x4_init"

definition xof_shake_x4_update ::
  "cross_params \<Rightarrow> par_keccak_context \<Rightarrow> bytes \<Rightarrow> bytes \<Rightarrow> bytes \<Rightarrow> bytes \<Rightarrow> nat \<Rightarrow> par_keccak_context" where
  "xof_shake_x4_update p states in1 in2 in3 in4 singleInputByteLen = keccak_x4_absorb p states in1 in2 in3 in4 singleInputByteLen"

definition xof_shake_x4_final :: "cross_params \<Rightarrow> par_keccak_context \<Rightarrow> par_keccak_context" where
  "xof_shake_x4_final p states = keccak_x4_finalize p states"

definition xof_shake_x4_extract ::
  "cross_params \<Rightarrow> (nat \<Rightarrow> byte) \<Rightarrow> par_keccak_context \<Rightarrow> nat \<Rightarrow> bytes list \<times> par_keccak_context" where
  "xof_shake_x4_extract p junk states singleOutputByteLen = keccak_x4_squeeze p junk states singleOutputByteLen"

record shake_x2_ctx =
  x2_state1 :: incctx
  x2_state2 :: incctx

definition xof_shake_x2_init :: "cross_params \<Rightarrow> shake_x2_ctx" where
  "xof_shake_x2_init p = \<lparr>x2_state1 = xof_shake_init p, x2_state2 = xof_shake_init p\<rparr>"

definition xof_shake_x2_update :: "cross_params \<Rightarrow> shake_x2_ctx \<Rightarrow> bytes \<Rightarrow> bytes \<Rightarrow> nat \<Rightarrow> shake_x2_ctx" where
  "xof_shake_x2_update p states in1 in2 singleInputByteLen =
     \<lparr>x2_state1 = xof_shake_update p (x2_state1 states) in1 singleInputByteLen,
      x2_state2 = xof_shake_update p (x2_state2 states) in2 singleInputByteLen\<rparr>"

definition xof_shake_x2_final :: "cross_params \<Rightarrow> shake_x2_ctx \<Rightarrow> shake_x2_ctx" where
  "xof_shake_x2_final p states =
     \<lparr>x2_state1 = xof_shake_final p (x2_state1 states), x2_state2 = xof_shake_final p (x2_state2 states)\<rparr>"

definition xof_shake_x2_extract :: "cross_params \<Rightarrow> shake_x2_ctx \<Rightarrow> nat \<Rightarrow> bytes list \<times> shake_x2_ctx" where
  "xof_shake_x2_extract p states singleOutputByteLen =
     (let (out1, s1) = xof_shake_extract p (x2_state1 states) singleOutputByteLen;
          (out2, s2) = xof_shake_extract p (x2_state2 states) singleOutputByteLen
      in ([out1, out2], \<lparr>x2_state1 = s1, x2_state2 = s2\<rparr>))"

subsection \<open>The parallel generators\<close>

record par_shake_ctx =
  par_state1 :: incctx
  par_state2 :: shake_x2_ctx
  par_state4 :: par_keccak_context

text \<open>What memory holds that the code never wrote: bytes of buffers and a state on the stack.\<close>

record uninitialised =
  stale_bytes :: "nat \<Rightarrow> byte"
  stale_states :: par_shake_ctx

definition csprng_initialize_x2 :: "cross_params \<Rightarrow> bytes \<Rightarrow> bytes \<Rightarrow> nat \<Rightarrow> nat \<Rightarrow> nat \<Rightarrow> shake_x2_ctx" where
  "csprng_initialize_x2 p seed1 seed2 seed_len_bytes dsc1 dsc2 =
     (let csprng_state = xof_shake_x2_init p;
          csprng_state = xof_shake_x2_update p csprng_state seed1 seed2 seed_len_bytes;
          csprng_state = xof_shake_x2_update p csprng_state (dsc_ordered dsc1) (dsc_ordered dsc2) 2
      in xof_shake_x2_final p csprng_state)"

definition csprng_initialize_x3 ::
  "cross_params \<Rightarrow> uninitialised \<Rightarrow> bytes \<Rightarrow> bytes \<Rightarrow> bytes \<Rightarrow> nat \<Rightarrow> nat \<Rightarrow> nat \<Rightarrow> nat \<Rightarrow> par_keccak_context" where
  "csprng_initialize_x3 p u seed1 seed2 seed3 seed_len_bytes dsc1 dsc2 dsc3 =
     (let seed4 = map (stale_bytes u) [0..<seed_len_bytes];
          csprng_state = xof_shake_x4_init;
          csprng_state = xof_shake_x4_update p csprng_state seed1 seed2 seed3 seed4 seed_len_bytes;
          dsc_ordered4 = map (stale_bytes u) [0..<2];
          csprng_state = xof_shake_x4_update p csprng_state (dsc_ordered dsc1) (dsc_ordered dsc2) (dsc_ordered dsc3) dsc_ordered4 2
      in xof_shake_x4_final p csprng_state)"

definition csprng_initialize_x4 ::
  "cross_params \<Rightarrow> bytes \<Rightarrow> bytes \<Rightarrow> bytes \<Rightarrow> bytes \<Rightarrow> nat \<Rightarrow> nat \<Rightarrow> nat \<Rightarrow> nat \<Rightarrow> nat \<Rightarrow> par_keccak_context" where
  "csprng_initialize_x4 p seed1 seed2 seed3 seed4 seed_len_bytes dsc1 dsc2 dsc3 dsc4 =
     (let csprng_state = xof_shake_x4_init;
          csprng_state = xof_shake_x4_update p csprng_state seed1 seed2 seed3 seed4 seed_len_bytes;
          csprng_state = xof_shake_x4_update p csprng_state (dsc_ordered dsc1) (dsc_ordered dsc2) (dsc_ordered dsc3) (dsc_ordered dsc4) 2
      in xof_shake_x4_final p csprng_state)"

definition csprng_randombytes_x2 :: "cross_params \<Rightarrow> nat \<Rightarrow> shake_x2_ctx \<Rightarrow> bytes list \<times> shake_x2_ctx" where
  "csprng_randombytes_x2 p xlen csprng_state = xof_shake_x2_extract p csprng_state (unsigned_int xlen)"

definition csprng_randombytes_x3 :: "cross_params \<Rightarrow> uninitialised \<Rightarrow> nat \<Rightarrow> par_keccak_context \<Rightarrow> bytes list \<times> par_keccak_context" where
  \<comment> \<open>the fourth output goes to a local buffer\<close>
  "csprng_randombytes_x3 p u xlen csprng_state =
     (let (xs, csprng_state) = xof_shake_x4_extract p (stale_bytes u) csprng_state (unsigned_int xlen) in (take 3 xs, csprng_state))"

definition csprng_randombytes_x4 :: "cross_params \<Rightarrow> uninitialised \<Rightarrow> nat \<Rightarrow> par_keccak_context \<Rightarrow> bytes list \<times> par_keccak_context" where
  "csprng_randombytes_x4 p u xlen csprng_state = xof_shake_x4_extract p (stale_bytes u) csprng_state (unsigned_int xlen)"

definition csprng_initialize_par ::
  "cross_params \<Rightarrow> uninitialised \<Rightarrow> nat \<Rightarrow> par_shake_ctx \<Rightarrow> bytes \<Rightarrow> bytes \<Rightarrow> bytes \<Rightarrow> bytes \<Rightarrow> nat \<Rightarrow>
     nat \<Rightarrow> nat \<Rightarrow> nat \<Rightarrow> nat \<Rightarrow> par_shake_ctx" where
  "csprng_initialize_par p u par_level states seed1 seed2 seed3 seed4 seed_len_bytes dsc1 dsc2 dsc3 dsc4 =
     (if par_level = 1 then states\<lparr>par_state1 := csprng_initialize p (take seed_len_bytes seed1) dsc1\<rparr>
      else if par_level = 2 then states\<lparr>par_state2 := csprng_initialize_x2 p seed1 seed2 seed_len_bytes dsc1 dsc2\<rparr>
      else if par_level = 3 then states\<lparr>par_state4 := csprng_initialize_x3 p u seed1 seed2 seed3 seed_len_bytes dsc1 dsc2 dsc3\<rparr>
      else if par_level = 4 then states\<lparr>par_state4 := csprng_initialize_x4 p seed1 seed2 seed3 seed4 seed_len_bytes dsc1 dsc2 dsc3 dsc4\<rparr>
      else states)"

definition csprng_randombytes_par :: "cross_params \<Rightarrow> uninitialised \<Rightarrow> nat \<Rightarrow> par_shake_ctx \<Rightarrow> nat \<Rightarrow> bytes list \<times> par_shake_ctx" where
  \<comment> \<open>the outputs written: none, or one for each instance\<close>
  "csprng_randombytes_par p u par_level states xlen =
     (if par_level = 1 then let (x, s) = csprng_randombytes p xlen (par_state1 states) in ([x], states\<lparr>par_state1 := s\<rparr>)
      else if par_level = 2 then let (xs, s) = csprng_randombytes_x2 p xlen (par_state2 states) in (xs, states\<lparr>par_state2 := s\<rparr>)
      else if par_level = 3 then let (xs, s) = csprng_randombytes_x3 p u xlen (par_state4 states) in (xs, states\<lparr>par_state4 := s\<rparr>)
      else if par_level = 4 then let (xs, s) = csprng_randombytes_x4 p u xlen (par_state4 states) in (xs, states\<lparr>par_state4 := s\<rparr>)
      else ([], states))"

definition hash_par ::
  "cross_params \<Rightarrow> uninitialised \<Rightarrow> nat \<Rightarrow> bytes \<Rightarrow> bytes \<Rightarrow> bytes \<Rightarrow> bytes \<Rightarrow> nat \<Rightarrow> nat \<Rightarrow> nat \<Rightarrow> nat \<Rightarrow> nat \<Rightarrow> bytes list" where
  \<comment> \<open>the digests written\<close>
  "hash_par p u par_level m_1 m_2 m_3 m_4 mlen dsc1 dsc2 dsc3 dsc4 =
     (let states = stale_states u;
          states = csprng_initialize_par p u par_level states m_1 m_2 m_3 m_4 (unsigned_int mlen) dsc1 dsc2 dsc3 dsc4
      in fst (csprng_randombytes_par p u par_level states (HASH_DIGEST_LENGTH p)))"

section \<open>Every instance is a single generator\<close>

lemma RATE_shake: "RATE p = shake_rate p"
  by (simp add: RATE_def shake_rate_def)

lemma x4_initialize:
  fixes p :: cross_params
  assumes k: "k < 4" and len: "n \<le> length s1" "n \<le> length s2" "n \<le> length s3" "n \<le> length s4"
    and d: "length d1 = 2" "length d2 = 2" "length d3 = 2" "length d4 = 2" and small: "n < 2 ^ 29"
    and st: "st = xof_shake_x4_final p (xof_shake_x4_update p (xof_shake_x4_update p xof_shake_x4_init s1 s2 s3 s4 n) d1 d2 d3 d4 2)"
  shows "x4_ok p st"
    and "x4_proj k st = xof_shake_final p (xof_shake_update p (xof_shake_update p (xof_shake_init p) ([s1, s2, s3, s4] ! k) n) ([d1, d2, d3, d4] ! k) 2)"
proof -
  note a = keccak_x4_absorb_inst [OF k init_x4(1) len small, of p]
  have two: "2 \<le> length d1" "2 \<le> length d2" "2 \<le> length d3" "2 \<le> length d4" "(2 :: nat) < 2 ^ 29" using d by simp_all
  note b = keccak_x4_absorb_inst [OF k a(1) two]
  note c = keccak_x4_finalize_inst [OF k b(1)]
  show "x4_ok p st" using c(1) by (simp add: st xof_shake_x4_final_def xof_shake_x4_update_def xof_shake_x4_init_def)
  show "x4_proj k st = xof_shake_final p (xof_shake_update p (xof_shake_update p (xof_shake_init p) ([s1, s2, s3, s4] ! k) n) ([d1, d2, d3, d4] ! k) 2)"
    using k by (simp add: st xof_shake_x4_final_def xof_shake_x4_update_def xof_shake_x4_init_def xof_shake_inc
        c(3) b(2) a(2) RATE_shake)
qed

lemma upt_3: "[0..<3] = [0, 1, 2 :: nat]"
  by (simp add: upt_rec)

lemma upt_2: "[0..<2] = [0, 1 :: nat]"
  by (simp add: upt_rec)

lemma length_x4_squeeze: "length (fst (keccak_x4_squeeze p junk ctx n)) = 4"
  by (simp add: keccak_x4_squeeze_def Let_def split_beta)

lemma map_nth_upto: "length xs = n \<Longrightarrow> (\<And>k. k < n \<Longrightarrow> xs ! k = f k) \<Longrightarrow> xs = map f [0..<n]"
  by (rule nth_equalityI) simp_all

lemma x4_extract:
  assumes "x4_ok p st" and "xlen < 2 ^ 29"
  shows "fst (xof_shake_x4_extract p junk st (unsigned_int xlen)) = map (\<lambda>k. fst (csprng_randombytes p xlen (x4_proj k st))) [0..<4]"
proof (rule map_nth_upto)
  fix k :: nat assume "k < 4"
  moreover have "unsigned_int xlen = xlen" using assms(2) by (simp add: unsigned_int_def take_bit_nat_eq_self)
  ultimately show "fst (xof_shake_x4_extract p junk st (unsigned_int xlen)) ! k = fst (csprng_randombytes p xlen (x4_proj k st))"
    using assms by (simp add: xof_shake_x4_extract_def keccak_x4_squeeze_inst csprng_randombytes_def xof_shake_inc RATE_shake)
qed (simp add: xof_shake_x4_extract_def length_x4_squeeze)

text \<open>The generator that instance \<open>k\<close> of a parallel call stands for.\<close>

definition single :: "cross_params \<Rightarrow> bytes list \<Rightarrow> nat \<Rightarrow> nat list \<Rightarrow> nat \<Rightarrow> incctx" where
  "single p seeds n dscs k = csprng_initialize p (take n (seeds ! k)) (dscs ! k)"

lemma single_state:
  "n < 2 ^ 29 \<Longrightarrow> n \<le> length (seeds ! k) \<Longrightarrow>
    single p seeds n dscs k = xof_shake_final p (xof_shake_update p (xof_shake_update p (xof_shake_init p) (seeds ! k) n) (dsc_ordered (dscs ! k)) 2)"
  by (simp add: single_def csprng_initialize_def Let_def unsigned_int_def take_bit_nat_eq_self min_def xof_shake_update_def)

lemma initialize_x4:
  assumes "k < 4" and "\<And>k. k < 4 \<Longrightarrow> n \<le> length ([s1, s2, s3, s4] ! k)" and "n < 2 ^ 29"
  shows "x4_ok p (csprng_initialize_x4 p s1 s2 s3 s4 n d1 d2 d3 d4)"
    and "x4_proj k (csprng_initialize_x4 p s1 s2 s3 s4 n d1 d2 d3 d4) = single p [s1, s2, s3, s4] n [d1, d2, d3, d4] k"
proof -
  have len: "n \<le> length s1" "n \<le> length s2" "n \<le> length s3" "n \<le> length s4"
    using assms(2) [of 0] assms(2) [of 1] assms(2) [of 2] assms(2) [of 3] by simp_all
  note i = x4_initialize [OF assms(1) len, of "dsc_ordered d1" "dsc_ordered d2" "dsc_ordered d3" "dsc_ordered d4",
      OF length_dsc_ordered length_dsc_ordered length_dsc_ordered length_dsc_ordered assms(3) refl]
  show "x4_ok p (csprng_initialize_x4 p s1 s2 s3 s4 n d1 d2 d3 d4)"
    using i(1) [of p] by (simp add: csprng_initialize_x4_def Let_def)
  have "[dsc_ordered d1, dsc_ordered d2, dsc_ordered d3, dsc_ordered d4] ! k = dsc_ordered ([d1, d2, d3, d4] ! k)"
    using assms(1) by (auto simp: less_4)
  then show "x4_proj k (csprng_initialize_x4 p s1 s2 s3 s4 n d1 d2 d3 d4) = single p [s1, s2, s3, s4] n [d1, d2, d3, d4] k"
    using i(2) [of p] assms by (simp add: csprng_initialize_x4_def Let_def single_state)
qed

lemma initialize_x3:
  assumes k: "k < 3" and "\<And>k. k < 3 \<Longrightarrow> n \<le> length ([s1, s2, s3] ! k)" and "n < 2 ^ 29"
  shows "x4_ok p (csprng_initialize_x3 p u s1 s2 s3 n d1 d2 d3)"
    and "x4_proj k (csprng_initialize_x3 p u s1 s2 s3 n d1 d2 d3) = single p [s1, s2, s3, s4] n [d1, d2, d3, d4] k"
proof -
  have len: "n \<le> length s1" "n \<le> length s2" "n \<le> length s3" "n \<le> length (map (stale_bytes u) [0..<n])"
    using assms(2) [of 0] assms(2) [of 1] assms(2) [of 2] by simp_all
  have k4: "k < 4" using k by simp
  have two: "length (map (stale_bytes u) [0..<2]) = 2" by simp
  note i = x4_initialize [OF k4 len, of "dsc_ordered d1" "dsc_ordered d2" "dsc_ordered d3",
      OF length_dsc_ordered length_dsc_ordered length_dsc_ordered two assms(3) refl]
  show "x4_ok p (csprng_initialize_x3 p u s1 s2 s3 n d1 d2 d3)"
    using i(1) [of p] by (simp add: csprng_initialize_x3_def Let_def)
  have three: "k = 0 \<or> k = 1 \<or> k = 2" using k by auto
  have "[dsc_ordered d1, dsc_ordered d2, dsc_ordered d3, map (stale_bytes u) [0..<2]] ! k = dsc_ordered ([d1, d2, d3, d4] ! k)"
    "[s1, s2, s3, map (stale_bytes u) [0..<n]] ! k = [s1, s2, s3, s4] ! k" "n \<le> length ([s1, s2, s3, s4] ! k)"
    using three len(1-3) by auto
  then show "x4_proj k (csprng_initialize_x3 p u s1 s2 s3 n d1 d2 d3) = single p [s1, s2, s3, s4] n [d1, d2, d3, d4] k"
    using i(2) [of p] assms(3) by (simp add: csprng_initialize_x3_def Let_def single_state)
qed

text \<open>The parallel calls, at every level the code uses, return the outputs of the single ones.\<close>

theorem par_generators:
  assumes level: "1 \<le> level" "level \<le> 4" and len: "\<And>k. k < level \<Longrightarrow> n \<le> length ([s1, s2, s3, s4] ! k)" and small: "n < 2 ^ 29" "xlen < 2 ^ 29"
  shows "fst (csprng_randombytes_par p u level (csprng_initialize_par p u level st s1 s2 s3 s4 n d1 d2 d3 d4) xlen) =
    map (\<lambda>k. fst (csprng_randombytes p xlen (csprng_initialize p (take n ([s1, s2, s3, s4] ! k)) ([d1, d2, d3, d4] ! k)))) [0..<level]"
proof -
  have u: "unsigned_int xlen = xlen" using small(2) by (simp add: unsigned_int_def take_bit_nat_eq_self)
  consider "level = 1" | "level = 2" | "level = 3" | "level = 4" using level by linarith
  then show ?thesis
  proof cases
    case 1
    then show ?thesis by (simp add: csprng_randombytes_par_def csprng_initialize_par_def split_beta)
  next
    case 2
    then have "n \<le> length s1" "n \<le> length s2" using len [of 0] len [of 1] by simp_all
    with 2 show ?thesis
      using single_state [OF small(1), of "[s1, s2, s3, s4]" 0 p "[d1, d2, d3, d4]"] single_state [OF small(1), of "[s1, s2, s3, s4]" 1 p "[d1, d2, d3, d4]"]
      by (simp add: csprng_randombytes_par_def csprng_initialize_par_def csprng_randombytes_x2_def csprng_initialize_x2_def
          xof_shake_x2_init_def xof_shake_x2_update_def xof_shake_x2_final_def xof_shake_x2_extract_def split_beta Let_def upt_2
          csprng_randombytes_def single_def)
  next
    case 3
    then have len': "n \<le> length ([s1, s2, s3] ! k)" if "k < 3" for k
      using len [of k] that by (auto simp: nth_Cons split: nat.splits)
    note i = initialize_x3 [OF _ len' small(1)]
    have "x4_ok p (csprng_initialize_x3 p u s1 s2 s3 n d1 d2 d3)" by (rule i(1) [of 0]) simp_all
    then have "fst (xof_shake_x4_extract p (stale_bytes u) (csprng_initialize_x3 p u s1 s2 s3 n d1 d2 d3) (unsigned_int xlen)) =
        map (\<lambda>k. fst (csprng_randombytes p xlen (x4_proj k (csprng_initialize_x3 p u s1 s2 s3 n d1 d2 d3)))) [0..<4]"
      by (rule x4_extract [OF _ small(2)])
    with 3 show ?thesis
      using i(2) [of 0 p u d1 d2 d3 s4 d4] i(2) [of 1 p u d1 d2 d3 s4 d4] i(2) [of 2 p u d1 d2 d3 s4 d4]
      by (simp add: csprng_randombytes_par_def csprng_initialize_par_def csprng_randombytes_x3_def split_beta upt_3 upt_4 single_def)
  next
    case 4
    note i = initialize_x4 [OF _ len [unfolded 4] small(1)]
    have "x4_ok p (csprng_initialize_x4 p s1 s2 s3 s4 n d1 d2 d3 d4)" by (rule i(1) [of 0]) simp_all
    then have "fst (xof_shake_x4_extract p (stale_bytes u) (csprng_initialize_x4 p s1 s2 s3 s4 n d1 d2 d3 d4) (unsigned_int xlen)) =
        map (\<lambda>k. fst (csprng_randombytes p xlen (x4_proj k (csprng_initialize_x4 p s1 s2 s3 s4 n d1 d2 d3 d4)))) [0..<4]"
      by (rule x4_extract [OF _ small(2)])
    with 4 show ?thesis
      using i(2) [of _ p d1 d2 d3 d4]
      by (simp add: csprng_randombytes_par_def csprng_initialize_par_def csprng_randombytes_x4_def split_beta single_def)
  qed
qed

lemma par_LAMBDA_le: "par_LAMBDA p \<le> 256"
  by (cases "variant p"; cases "cat p"; cases "corner p"; simp add: par_unfold)

lemma HASH_small: "HASH_DIGEST_LENGTH p < 2 ^ 29"
  using par_LAMBDA_le [of p] by (simp add: HASH_DIGEST_LENGTH_def)

theorem hash_par_single:
  assumes level: "1 \<le> level" "level \<le> 4" and len: "\<And>k. k < level \<Longrightarrow> n \<le> length ([m1, m2, m3, m4] ! k)" and small: "n < 2 ^ 29"
  shows "hash_par p u level m1 m2 m3 m4 n d1 d2 d3 d4 = map (\<lambda>k. hash p (take n ([m1, m2, m3, m4] ! k)) ([d1, d2, d3, d4] ! k)) [0..<level]"
proof -
  have u: "unsigned_int n = n" "unsigned_int (HASH_DIGEST_LENGTH p) = HASH_DIGEST_LENGTH p"
    using small HASH_small [of p] by (simp_all add: unsigned_int_def take_bit_nat_eq_self)
  show ?thesis
    unfolding hash_par_def Let_def u(1)
    using par_generators [OF level len small HASH_small, of p u "stale_states u" d1 d2 d3 d4]
    by (simp add: hash_def csprng_initialize_def csprng_randombytes_def Let_def u(2))
qed

lemma par_none [simp]:
  "csprng_randombytes_par p u 0 states xlen = ([], states)" "hash_par p u 0 m1 m2 m3 m4 n d1 d2 d3 d4 = []"
  by (simp_all add: csprng_randombytes_par_def hash_par_def)

end
