(* ===== verification/Batch.thy ===== *)
theory Batch
  imports Prelude
begin

text \<open>
  The queues of the optimised implementation. Its loops do not hash one input after
  the other: they collect up to four inputs and process them by one parallel call,
  when the queue is full or at the last iteration that may have filled it. A step of
  such a loop acts on the state and may enqueue a job; the locale \<open>batching\<close> says when
  postponing the jobs is correct, namely when a pending job commutes with the steps up
  to the call, and its theorem is that the loop then computes what the loop that
  does every job at once computes.
\<close>

section \<open>Loops with a queue\<close>

definition batch_step ::
  "('s \<Rightarrow> 'x \<Rightarrow> ('s \<times> 'j option) option) \<Rightarrow> ('j list \<Rightarrow> 's \<Rightarrow> 's) \<Rightarrow> ('x \<Rightarrow> bool) \<Rightarrow> 's \<times> 'j list \<Rightarrow> 'x \<Rightarrow> ('s \<times> 'j list) option" where
  "batch_step act exec flush = (\<lambda>(s, queue) x.
     case act s x of
       None \<Rightarrow> None
     | Some (s, job) \<Rightarrow>
         let queue = queue @ (case job of None \<Rightarrow> [] | Some j \<Rightarrow> [j])
         in if length queue = 4 \<or> flush x then Some (exec queue s, []) else Some (s, queue))"

definition direct_step :: "('s \<Rightarrow> 'x \<Rightarrow> ('s \<times> 'j option) option) \<Rightarrow> ('j \<Rightarrow> 's \<Rightarrow> 's) \<Rightarrow> 's \<Rightarrow> 'x \<Rightarrow> 's option" where
  "direct_step act put s x =
     (case act s x of None \<Rightarrow> None | Some (s, job) \<Rightarrow> Some (case job of None \<Rightarrow> s | Some j \<Rightarrow> put j s))"

definition same_run :: "('x \<Rightarrow> bool) \<Rightarrow> 'x list \<Rightarrow> 'x \<Rightarrow> 'x \<Rightarrow> bool" where
  \<comment> \<open>\<open>x\<close> follows \<open>y\<close> and no step from \<open>y\<close> up to \<open>x\<close> empties the queue because of its position\<close>
  "same_run flush xs y x \<longleftrightarrow> (\<exists>as cs bs. xs = as @ y # cs @ x # bs \<and> (\<forall>z\<in>set (y # cs). \<not> flush z))"

locale batching =
  fixes act :: "'s \<Rightarrow> 'x \<Rightarrow> ('s \<times> 'j option) option" and put :: "'j \<Rightarrow> 's \<Rightarrow> 's" and exec :: "'j list \<Rightarrow> 's \<Rightarrow> 's"
    and flush :: "'x \<Rightarrow> bool" and xs :: "'x list" and produces :: "'x \<Rightarrow> 'j \<Rightarrow> bool"
  assumes job_produced: "x \<in> set xs \<Longrightarrow> act s x = Some (s', Some j) \<Longrightarrow> produces x j"
    and job_commutes: "same_run flush xs y x \<Longrightarrow> produces y j \<Longrightarrow>
      act (put j s) x = map_option (\<lambda>(s', job). (put j s', job)) (act s x)"
    and exec_jobs: "length queue \<le> 4 \<Longrightarrow>
      sorted_wrt (\<lambda>j j'. \<exists>y x. same_run flush xs y x \<and> produces y j \<and> produces x j') queue \<Longrightarrow>
      exec queue s = foldl (\<lambda>s j. put j s) s queue"
    and run_flushed: "xs = as @ y # cs \<Longrightarrow> produces y j \<Longrightarrow> \<exists>z\<in>set (y # cs). flush z"
begin

definition waiting :: "'x list \<Rightarrow> 'j \<Rightarrow> bool" where
  "waiting as j \<longleftrightarrow> (\<exists>as' y cs. as = as' @ y # cs \<and> (\<forall>z\<in>set (y # cs). \<not> flush z) \<and> produces y j)"

definition queue_ok :: "'x list \<Rightarrow> 'j list \<Rightarrow> bool" where
  "queue_ok as queue \<longleftrightarrow> length queue < 4 \<and> (\<forall>j\<in>set queue. waiting as j) \<and>
     sorted_wrt (\<lambda>j j'. \<exists>y x. same_run flush xs y x \<and> produces y j \<and> produces x j') queue"

lemma waiting_run:
  assumes "waiting as j" and "xs = as @ x # bs"
  shows "\<exists>y. same_run flush xs y x \<and> produces y j"
proof -
  obtain as' y cs where "as = as' @ y # cs" "\<forall>z\<in>set (y # cs). \<not> flush z" "produces y j"
    using assms(1) by (auto simp: waiting_def)
  moreover from this assms(2) have "xs = as' @ y # cs @ x # bs" by simp
  ultimately show ?thesis unfolding same_run_def by blast
qed

lemma waiting_more: "waiting as j \<Longrightarrow> \<not> flush x \<Longrightarrow> waiting (as @ [x]) j"
proof -
  assume "waiting as j" "\<not> flush x"
  then obtain as' y cs where "as = as' @ y # cs" "\<forall>z\<in>set (y # cs). \<not> flush z" "produces y j" by (auto simp: waiting_def)
  with \<open>\<not> flush x\<close> have "as @ [x] = as' @ y # cs @ [x]" "\<forall>z\<in>set (y # cs @ [x]). \<not> flush z" "produces y j" by auto
  then show "waiting (as @ [x]) j" unfolding waiting_def by blast
qed

lemma waiting_new: "produces x j \<Longrightarrow> \<not> flush x \<Longrightarrow> waiting (as @ [x]) j"
  unfolding waiting_def by (rule exI [of _ as], rule exI [of _ x], rule exI [of _ "[]"]) simp

lemma jobs_commute:
  assumes "\<forall>j\<in>set queue. waiting as j" and split: "xs = as @ x # bs"
  shows "act (foldl (\<lambda>s j. put j s) s queue) x = map_option (\<lambda>(s', job). (foldl (\<lambda>s j. put j s) s' queue, job)) (act s x)"
  using assms(1)
proof (induction queue arbitrary: s)
  case (Cons j queue)
  obtain y where y: "same_run flush xs y x" "produces y j" using waiting_run [OF _ split, of j] Cons.prems by auto
  have "act (foldl (\<lambda>s j. put j s) (put j s) queue) x
      = map_option (\<lambda>(s', job). (foldl (\<lambda>s j. put j s) s' queue, job)) (map_option (\<lambda>(s', job). (put j s', job)) (act s x))"
    using Cons.IH [of "put j s"] Cons.prems job_commutes [OF y, of s] by simp
  then show ?case by (simp add: option.map_comp comp_def split_beta)
next
  case Nil
  show ?case by (cases "act s x") auto
qed

lemma queue_grows:
  assumes ok: "queue_ok as queue" and split: "xs = as @ x # bs" and job: "\<And>j. job = Some j \<Longrightarrow> produces x j"
  defines "queue' \<equiv> queue @ (case job of None \<Rightarrow> [] | Some j \<Rightarrow> [j])"
  shows "length queue' \<le> 4"
    and "sorted_wrt (\<lambda>j j'. \<exists>y x. same_run flush xs y x \<and> produces y j \<and> produces x j') queue'"
    and "length queue' \<noteq> 4 \<Longrightarrow> \<not> flush x \<Longrightarrow> queue_ok (as @ [x]) queue'"
proof -
  show len: "length queue' \<le> 4" using ok by (simp add: queue_ok_def queue'_def split: option.split)
  show sorted: "sorted_wrt (\<lambda>j j'. \<exists>y x. same_run flush xs y x \<and> produces y j \<and> produces x j') queue'"
    using ok job waiting_run [OF _ split] by (fastforce simp: queue_ok_def queue'_def sorted_wrt_append split: option.split)
  show "queue_ok (as @ [x]) queue'" if "length queue' \<noteq> 4" "\<not> flush x"
  proof -
    have "\<forall>j\<in>set queue'. waiting (as @ [x]) j"
      using ok job that(2) waiting_more waiting_new by (auto simp: queue_ok_def queue'_def split: option.splits)
    then show ?thesis using len sorted that(1) by (simp add: queue_ok_def)
  qed
qed

theorem batched:
  "foldM (batch_step act exec flush) (s, []) xs = map_option (\<lambda>s. (s, [])) (foldM (direct_step act put) s xs)"
proof -
  let ?P = "\<lambda>as. case foldM (batch_step act exec flush) (s, []) as of
      None \<Rightarrow> foldM (direct_step act put) s as = None
    | Some (t, queue) \<Rightarrow> queue_ok as queue \<and> foldM (direct_step act put) s as = Some (foldl (\<lambda>s j. put j s) t queue)"
  have P: "?P xs"
  proof (rule prefix_induct [where P = ?P])
    show "?P []" by (simp add: queue_ok_def)
  next
    fix as x bs assume split: "xs = as @ x # bs" and IH: "?P as"
    show "?P (as @ [x])"
    proof (cases "foldM (batch_step act exec flush) (s, []) as")
      case None
      then show ?thesis using IH by (simp add: foldM_append)
    next
      case (Some tq)
      obtain t queue where tq: "tq = (t, queue)" by (cases tq)
      have ok: "queue_ok as queue" and ref: "foldM (direct_step act put) s as = Some (foldl (\<lambda>s j. put j s) t queue)"
        using IH Some tq by simp_all
      note step = foldM_snoc [OF Some, of x] and ref_step = foldM_snoc [OF ref, of x]
      have comm: "act (foldl (\<lambda>s j. put j s) t queue) x = map_option (\<lambda>(s', job). (foldl (\<lambda>s j. put j s) s' queue, job)) (act t x)"
        using ok jobs_commute [OF _ split] by (simp add: queue_ok_def)
      show ?thesis
      proof (cases "act t x")
        case None
        then show ?thesis unfolding step ref_step using comm by (simp add: tq batch_step_def direct_step_def)
      next
        case (Some sj)
        obtain t' job where sj: "sj = (t', job)" by (cases sj)
        have job: "produces x j" if "job = Some j" for j
          using job_produced [of x t t' j] Some sj that split by simp
        note grow = queue_grows [OF ok split job]
        let ?q = "queue @ (case job of None \<Rightarrow> [] | Some j \<Rightarrow> [j])"
        have d: "foldM (direct_step act put) s (as @ [x]) = Some (foldl (\<lambda>s j. put j s) t' ?q)"
          unfolding ref_step direct_step_def comm using Some sj by (simp split: option.split)
        show ?thesis
        proof (cases "length ?q = 4 \<or> flush x")
          case True
          then have "foldM (batch_step act exec flush) (s, []) (as @ [x]) = Some (exec ?q t', [])"
            unfolding step using Some sj by (simp add: tq batch_step_def Let_def)
          then show ?thesis using d exec_jobs [OF grow(1,2)] by (simp add: queue_ok_def)
        next
          case False
          then have "foldM (batch_step act exec flush) (s, []) (as @ [x]) = Some (t', ?q)"
            unfolding step using Some sj by (simp add: tq batch_step_def Let_def)
          then show ?thesis using d grow(3) False by simp
        qed
      qed
    qed
  qed
  have "queue = []" if "queue_ok xs queue" for queue
  proof (rule ccontr)
    assume "queue \<noteq> []"
    then have "hd queue \<in> set queue" by simp
    then have "waiting xs (hd queue)" using that unfolding queue_ok_def by blast
    then show False using run_flushed unfolding waiting_def by blast
  qed
  then show ?thesis using P by (cases "foldM (batch_step act exec flush) (s, []) xs") fastforce+
qed

end

section \<open>Simulations of loops\<close>

lemma foldM_simulation:
  assumes "\<And>x c a. x \<in> set xs \<Longrightarrow> R c a \<Longrightarrow> rel_option R (f c x) (g a x)" and "R c a"
  shows "rel_option R (foldM f c xs) (foldM g a xs)"
  using assms
proof (induction xs arbitrary: c a)
  case (Cons x xs)
  have "rel_option R (f c x) (g a x)" by (rule Cons.prems) (simp_all add: Cons.prems(2))
  then show ?case by (cases rule: option.rel_cases) (auto intro!: Cons.IH simp: Cons.prems(1))
qed simp

lemma foldM_total: "foldM (\<lambda>s x. Some (f s x)) s xs = Some (foldl f s xs)"
  by (induction xs arbitrary: s) auto

text \<open>Loops over \<open>0 .. n - 1\<close> that empty their queues at the last iteration.\<close>

lemma same_run_upt: "same_run flush [0..<n] y x \<Longrightarrow> y < x \<and> x < n"
proof -
  assume "same_run flush [0..<n] y x"
  then obtain as cs bs where split: "[0..<n] = as @ y # cs @ x # bs" by (auto simp: same_run_def)
  have "sorted_wrt (<) (as @ y # cs @ x # bs)" unfolding split [symmetric] by (rule sorted_wrt_upt)
  moreover have "x \<in> set [0..<n]" unfolding split by simp
  ultimately show ?thesis by (simp add: sorted_wrt_append)
qed

lemma upt_flushed: "[0..<n] = as @ y # cs \<Longrightarrow> \<exists>z\<in>set (y # cs). z = n - 1"
proof -
  assume split: "[0..<n] = as @ y # cs"
  then have "n \<noteq> 0" by (metis list.distinct(1) Nil_is_append_conv upt_eq_Nil_conv)
  then have "last [0..<n] = n - 1" by simp
  then have "last (y # cs) = n - 1" unfolding split by simp
  then show ?thesis by (metis last_in_set list.discI)
qed

end
