(* ===== verification/Seed_Tree_x4.thy ===== *)
theory Seed_Tree_x4
  imports Seed_Tree Csprng_x4 Batch
begin

text \<open>
  The round seeds of the optimised implementation
  (\<open>Optimized_Implementation/lib/seedtree.c\<close>): nodes are expanded up to four at a time,
  and without trees the four quarters of the rounds at once. The functions that only
  copy seeds are those of the reference implementation and are not repeated. The
  arrays that hold the enqueued expansions keep their four entries, those past
  \<open>to_expand\<close> are stale.

  Both generators and the reconstruction are proved to compute what the reference
  implementation computes.
\<close>

section \<open>The code\<close>

definition stale_u16 :: "uninitialised \<Rightarrow> nat list" where
  "stale_u16 u = map (\<lambda>i. unat (stale_bytes u i)) [0..<4]"

definition seed_leaves_no_trees_x4 :: "cross_params \<Rightarrow> uninitialised \<Rightarrow> bytes \<Rightarrow> bytes \<Rightarrow> bytes \<times> nat" where
  "seed_leaves_no_trees_x4 p u root_seed salt =
     (let SL = SEED_LENGTH_BYTES p;
          csprng_input_len = SALT_LENGTH_BYTES p + SL;
          (quad_seed, _) = csprng_randombytes p (4 * SL) (csprng_initialize p (root_seed @ salt) 0);
          par_csprng_input = replicate 4 (replicate csprng_input_len 0);
          par_csprng_input = map (\<lambda>inp. write_at SL salt inp) par_csprng_input;
          par_csprng_input = map (\<lambda>i. write_at 0 (read_at (i * SL) SL quad_seed) (par_csprng_input ! i)) [0..<4];
          states = csprng_initialize_par p u 4 (stale_states u)
                     (par_csprng_input ! 0) (par_csprng_input ! 1) (par_csprng_input ! 2) (par_csprng_input ! 3) csprng_input_len
                     (CSPRNG_DOMAIN_SEP_CONST + 1) (CSPRNG_DOMAIN_SEP_CONST + 2) (CSPRNG_DOMAIN_SEP_CONST + 3) (CSPRNG_DOMAIN_SEP_CONST + 4);
          (par_csprng_output, _) = csprng_randombytes_par p u 4 states ((par_T p div 4 + 1) * SL);
          (rounds_seeds, offset) =
            foldl (\<lambda>(rounds_seeds, offset) i.
                (write_at (((par_T p div 4) * i + offset) * SL)
                   (take ((par_T p div 4 + remainders p ! i) * SL) (par_csprng_output ! i)) rounds_seeds,
                 offset + remainders p ! i))
              (replicate (par_T p * SL) 0, 0) [0..<4]
      in (rounds_seeds, par_T p))"

record expand_queue =
  to_expand :: nat
  in_queue :: "bytes list"
  in_queue_dsc :: "nat list"
  out_pos_queue :: "nat list"

definition init_expand_queue :: "cross_params \<Rightarrow> uninitialised \<Rightarrow> bytes \<Rightarrow> expand_queue" where
  \<comment> \<open>the salt is copied into all four inputs\<close>
  "init_expand_queue p u salt =
     \<lparr>to_expand = 0,
      in_queue = replicate 4 (write_at (SEED_LENGTH_BYTES p) salt (map (stale_bytes u) [0..<SALT_LENGTH_BYTES p + SEED_LENGTH_BYTES p])),
      in_queue_dsc = stale_u16 u, out_pos_queue = replicate 4 0\<rparr>"

definition enqueue_node :: "expand_queue \<Rightarrow> bytes list \<Rightarrow> nat \<Rightarrow> nat \<Rightarrow> expand_queue" where
  "enqueue_node q seed_tree father_node left_child_node =
     (let n = to_expand q + 1
      in \<lparr>to_expand = n,
          in_queue = (in_queue q)[n - 1 := write_at 0 (seed_tree ! father_node) (in_queue q ! (n - 1))],
          in_queue_dsc = (in_queue_dsc q)[n - 1 := CSPRNG_DOMAIN_SEP_CONST + father_node],
          out_pos_queue = (out_pos_queue q)[n - 1 := left_child_node]\<rparr>)"

definition expand_queued :: "cross_params \<Rightarrow> uninitialised \<Rightarrow> bytes list \<Rightarrow> expand_queue \<Rightarrow> bytes list \<times> expand_queue" where
  \<comment> \<open>the two parallel calls; what the state held before is overwritten by the first\<close>
  "expand_queued p u seed_tree q =
     (let tree_csprng_state = csprng_initialize_par p u (to_expand q) (stale_states u)
            (in_queue q ! 0) (in_queue q ! 1) (in_queue q ! 2) (in_queue q ! 3) (SALT_LENGTH_BYTES p + SEED_LENGTH_BYTES p)
            (in_queue_dsc q ! 0) (in_queue_dsc q ! 1) (in_queue_dsc q ! 2) (in_queue_dsc q ! 3);
          (outs, _) = csprng_randombytes_par p u (to_expand q) tree_csprng_state (2 * SEED_LENGTH_BYTES p)
      in (foldl (\<lambda>seed_tree (pos, out). put_children p seed_tree pos out) seed_tree (zip (out_pos_queue q) outs),
          q\<lparr>to_expand := 0\<rparr>))"

definition gen_node_x4 ::
  "cross_params \<Rightarrow> uninitialised \<Rightarrow> bytes list \<times> expand_queue \<Rightarrow> nat \<times> nat \<times> nat \<Rightarrow> bytes list \<times> expand_queue" where
  "gen_node_x4 p u = (\<lambda>(seed_tree, q) (level, node_in_level, father_node).
     let left_child_node = LEFT_CHILD father_node - tree_off p level;
         q = enqueue_node q seed_tree father_node left_child_node
     in if to_expand q = 4 \<or> node_in_level = tree_npl p level - tree_lpl p level - 1
        then expand_queued p u seed_tree q else (seed_tree, q))"

definition gen_seed_tree_x4 :: "cross_params \<Rightarrow> uninitialised \<Rightarrow> bytes list \<Rightarrow> bytes \<Rightarrow> bytes \<Rightarrow> bytes list" where
  "gen_seed_tree_x4 p u seed_tree root_seed salt =
     fst (foldl (gen_node_x4 p u) (seed_tree[0 := root_seed], init_expand_queue p u salt)
            (level_nodes (\<lambda>l. tree_npl p l - tree_lpl p l) (tree_npl p) [0..<tree_height p] 0))"

definition rebuild_node_x4 ::
  "cross_params \<Rightarrow> uninitialised \<Rightarrow> nat list \<Rightarrow> bytes \<Rightarrow> (bytes list \<times> nat) \<times> expand_queue \<Rightarrow> nat \<times> nat \<times> nat \<Rightarrow>
     ((bytes list \<times> nat) \<times> expand_queue) option" where
  "rebuild_node_x4 p u flags stored_seeds = (\<lambda>((seed_tree, nodes_used), q) (level, node_in_level, current_node).
     case (if flags ! current_node = TO_PUBLISH \<and> flags ! parent_node p level current_node = NOT_TO_PUBLISH
           then (case load_at (nodes_used * SEED_LENGTH_BYTES p) (SEED_LENGTH_BYTES p) stored_seeds of
                   None \<Rightarrow> None | Some seed \<Rightarrow> Some (seed_tree[current_node := seed], nodes_used + 1))
           else Some (seed_tree, nodes_used)) of
       None \<Rightarrow> None
     | Some (seed_tree, nodes_used) \<Rightarrow>
         let q = (if flags ! current_node = TO_PUBLISH \<and> node_in_level < tree_npl p level - tree_lpl p level
                  then enqueue_node q seed_tree current_node (LEFT_CHILD current_node - tree_off p level) else q)
         in if to_expand q = 4 \<or> int node_in_level = int (tree_npl p level) - int (tree_lpl p level) - 1
            then let (seed_tree, q) = expand_queued p u seed_tree q in Some ((seed_tree, nodes_used), q)
            else Some ((seed_tree, nodes_used), q))"

definition rebuild_tree_x4 ::
  "cross_params \<Rightarrow> uninitialised \<Rightarrow> bytes list \<Rightarrow> nat list \<Rightarrow> bytes \<Rightarrow> bytes \<Rightarrow> (bytes list \<times> bool) option" where
  "rebuild_tree_x4 p u seed_tree indices_to_publish stored_seeds salt =
     (let flags = compute_seeds_to_publish p (replicate (NUM_NODES_TREE p) 0) indices_to_publish
      in case foldM (rebuild_node_x4 p u flags stored_seeds) ((seed_tree, 0), init_expand_queue p u salt)
                (level_nodes (tree_npl p) (tree_npl p) [1..<Suc (tree_height p)] 1) of
           None \<Rightarrow> None
         | Some ((seed_tree, nodes_used), q) \<Rightarrow>
             Some (seed_tree,
               foldl (\<lambda>error i. error OR stored_seeds ! i) 0
                 [nodes_used * SEED_LENGTH_BYTES p..<TREE_NODES_TO_STORE (tabs p) * SEED_LENGTH_BYTES p] = 0))"

section \<open>Without trees\<close>

lemma par_lengths: "SEED_LENGTH_BYTES p \<le> 32" "SALT_LENGTH_BYTES p \<le> 64" "HASH_DIGEST_LENGTH p \<le> 64"
  using par_LAMBDA_le [of p] by (simp_all add: SEED_LENGTH_BYTES_def SALT_LENGTH_BYTES_def HASH_DIGEST_LENGTH_def)

lemma sizes_small:
  "SALT_LENGTH_BYTES p + SEED_LENGTH_BYTES p < 2 ^ 29" "2 * SEED_LENGTH_BYTES p < 2 ^ 29" "(par_T p div 4 + 1) * SEED_LENGTH_BYTES p < 2 ^ 29"
proof -
  have "(par_T p div 4 + 1) * SEED_LENGTH_BYTES p \<le> 209 * 32"
    using par_T_le [of p] par_lengths [of p] by (intro mult_le_mono) simp_all
  then show "SALT_LENGTH_BYTES p + SEED_LENGTH_BYTES p < 2 ^ 29" "2 * SEED_LENGTH_BYTES p < 2 ^ 29"
    "(par_T p div 4 + 1) * SEED_LENGTH_BYTES p < 2 ^ 29"
    using par_lengths [of p] by simp_all
qed

lemma randombytes_prefix:
  assumes "m \<le> n" and "n < 2 ^ 32"
  shows "take m (fst (csprng_randombytes p n (csprng_initialize p seed d))) = fst (csprng_randombytes p m (csprng_initialize p seed d))"
proof -
  have "unsigned_int n = n" "unsigned_int m = m" using assms by (simp_all add: unsigned_int_def take_bit_nat_eq_self)
  then show ?thesis using assms(1) by (simp add: csprng_randombytes_def csprng_initialize_sponge take_sponge)
qed

lemma seed_and_salt:
  "length slot = SALT_LENGTH_BYTES p + SEED_LENGTH_BYTES p \<Longrightarrow> length seed = SEED_LENGTH_BYTES p \<Longrightarrow>
    write_at 0 seed slot = seed @ drop (SEED_LENGTH_BYTES p) slot"
  "length slot = SALT_LENGTH_BYTES p + SEED_LENGTH_BYTES p \<Longrightarrow> length salt = SALT_LENGTH_BYTES p \<Longrightarrow>
    drop (SEED_LENGTH_BYTES p) (write_at (SEED_LENGTH_BYTES p) salt slot) = salt"
  by (simp_all add: write_at_def)

lemma remainders_le: "i < 4 \<Longrightarrow> remainders p ! i \<le> 1"
  using remainders_cases [of p "\<forall>i<4. remainders p ! i \<le> 1"] by (auto simp: less_4)

theorem seed_leaves_no_trees_same:
  assumes root: "length root_seed = SEED_LENGTH_BYTES p" and salt: "length salt = SALT_LENGTH_BYTES p"
  shows "seed_leaves_no_trees_x4 p u root_seed salt = seed_leaves_no_trees p root_seed salt"
proof -
  let ?SL = "SEED_LENGTH_BYTES p" and ?n = "SALT_LENGTH_BYTES p + SEED_LENGTH_BYTES p"
  define Q where "Q = quad_seed p root_seed salt"
  have Q: "fst (csprng_randombytes p (4 * ?SL) (csprng_initialize p (root_seed @ salt) 0)) = Q"
    by (simp add: Q_def quad_seed_def CSPRNG_DOMAIN_SEP_CONST_def)
  have "length Q = 4 * ?SL" using par_lengths(1) [of p] by (simp add: Q_def quad_seed_def length_csprng_randombytes)
  then have len: "length (read_at (i * ?SL) ?SL Q) = ?SL" if "i < 4" for i using slot_end [OF that, of ?SL] by simp
  let ?inp = "\<lambda>i. read_at (i * ?SL) ?SL Q @ salt"
  have inp: "write_at 0 (read_at (i * ?SL) ?SL Q) (write_at ?SL salt (replicate ?n 0)) = ?inp i" if "i < 4" for i
    using seed_and_salt(1) [of "write_at ?SL salt (replicate ?n 0)" p, OF _ len [OF that]] seed_and_salt(2) [of "replicate ?n 0" p salt] salt len [OF that] by simp
  have ls: "?n \<le> length ([?inp 0, ?inp 1, ?inp 2, ?inp 3] ! k)" if "k < 4" for k
    using that len [OF that] salt by (auto simp: less_4)
  have tk: "take ?n ([?inp 0, ?inp 1, ?inp 2, ?inp 3] ! k) = ?inp k" if "k < 4" for k
    using that len [OF that] salt by (auto simp: less_4)
  define C where "C = CSPRNG_DOMAIN_SEP_CONST"
  have ds: "[C + 1, C + 2, C + 3, C + 4] ! k = C + (k + 1)" if "k < 4" for k
    using that by (auto simp: less_4)
  define outs where "outs = fst (csprng_randombytes_par p u 4 (csprng_initialize_par p u 4 (stale_states u) (?inp 0) (?inp 1) (?inp 2) (?inp 3) ?n
      (C + 1) (C + 2) (C + 3) (C + 4)) ((par_T p div 4 + 1) * ?SL))"
  have outs: "outs ! k = fst (csprng_randombytes p ((par_T p div 4 + 1) * ?SL) (csprng_initialize p (?inp k) (C + (k + 1))))" if "k < 4" for k
    unfolding outs_def by (subst par_generators [OF _ _ ls sizes_small(1,3)]) (use that tk [OF that] ds [OF that] in simp_all)
  have out: "take ((par_T p div 4 + remainders p ! k) * ?SL) (outs ! k) = quarter p root_seed salt k" if "k < 4" for k
  proof -
    have "(par_T p div 4 + remainders p ! k) * ?SL \<le> (par_T p div 4 + 1) * ?SL" using remainders_le [OF that, of p] by (intro mult_le_mono1) simp
    then show ?thesis unfolding outs [OF that] quarter_def Q_def [symmetric] C_def
      using randombytes_prefix [of "(par_T p div 4 + remainders p ! k) * ?SL" "(par_T p div 4 + 1) * ?SL" p "?inp k" "CSPRNG_DOMAIN_SEP_CONST + (k + 1)"] sizes_small(3) [of p]
      by simp
  qed
  have ins: "map (\<lambda>i. write_at 0 (read_at (i * ?SL) ?SL Q) (map (\<lambda>inp. write_at ?SL salt inp) (replicate 4 (replicate ?n 0)) ! i)) [0..<4] = map ?inp [0..<4]"
    by (rule map_cong) (simp_all add: inp)
  have at: "map ?inp [0..<4] ! 0 = ?inp 0" "map ?inp [0..<4] ! 1 = ?inp 1" "map ?inp [0..<4] ! 2 = ?inp 2" "map ?inp [0..<4] ! 3 = ?inp 3"
    by (simp_all add: upt_4)
  define f where "f = (\<lambda>(rs, off) i. (write_at (((par_T p div 4) * i + off) * ?SL) (quarter p root_seed salt i) rs, off + remainders p ! i))"
  define g where "g = (\<lambda>(rs, off, dsc) i. (write_at (((par_T p div 4) * i + off) * ?SL)
         (fst (csprng_randombytes p ((par_T p div 4 + remainders p ! i) * ?SL) (csprng_initialize p (?inp i) (C + (dsc + 1))))) rs, off + remainders p ! i, dsc + 1))"
  define init where "init = replicate (par_T p * ?SL) (0 :: byte)"
  have x4: "seed_leaves_no_trees_x4 p u root_seed salt = (fst (foldl f (init, 0) [0..<4]), par_T p)"
  proof -
    have "foldl (\<lambda>(rs, off) i. (write_at (((par_T p div 4) * i + off) * ?SL) (take ((par_T p div 4 + remainders p ! i) * ?SL) (outs ! i)) rs,
        off + remainders p ! i)) (init, 0) [0..<4] = foldl f (init, 0) [0..<4]"
      by (rule foldl_cong) (auto simp: f_def out)
    then show ?thesis
      unfolding seed_leaves_no_trees_x4_def Let_def split_beta Q ins at C_def [symmetric] outs_def [symmetric] init_def [symmetric] by simp
  qed
  have "g (rs, off, i) i = (fst (f (rs, off) i), snd (f (rs, off) i), i + 1)" for rs off i
    by (simp add: g_def f_def quarter_def Q_def C_def)
  then have "foldl g (init, 0, 0) [0..<n] = (fst (foldl f (init, 0) [0..<n]), snd (foldl f (init, 0) [0..<n]), n)" for n
    by (induction n) simp_all
  then have "seed_leaves_no_trees p root_seed salt = (fst (foldl f (init, 0) [0..<4]), par_T p)"
    by (simp add: seed_leaves_no_trees_def Let_def split_beta Q_def quad_seed_def C_def g_def init_def)
  with x4 show ?thesis by simp
qed

section \<open>The queue of expansions\<close>

type_synonym expansion = "nat \<times> bytes \<times> nat"   \<comment> \<open>position of the left child, input, domain separation\<close>

definition expansions :: "expand_queue \<Rightarrow> expansion list" where
  "expansions q = map (\<lambda>k. (out_pos_queue q ! k, in_queue q ! k, in_queue_dsc q ! k)) [0..<to_expand q]"

fun put_expansion :: "cross_params \<Rightarrow> expansion \<Rightarrow> bytes list \<Rightarrow> bytes list" where
  "put_expansion p (pos, inp, dsc) seed_tree =
     put_children p seed_tree pos (fst (csprng_randombytes p (2 * SEED_LENGTH_BYTES p) (csprng_initialize p inp dsc)))"

definition equeue_ok :: "cross_params \<Rightarrow> bytes \<Rightarrow> expand_queue \<Rightarrow> bool" where
  "equeue_ok p salt q \<longleftrightarrow> to_expand q \<le> 4 \<and> length (in_queue q) = 4 \<and> length (in_queue_dsc q) = 4 \<and> length (out_pos_queue q) = 4 \<and>
     (\<forall>inp\<in>set (in_queue q). length inp = SALT_LENGTH_BYTES p + SEED_LENGTH_BYTES p \<and> drop (SEED_LENGTH_BYTES p) inp = salt)"

lemma init_expand_queue_ok:
  "length salt = SALT_LENGTH_BYTES p \<Longrightarrow> equeue_ok p salt (init_expand_queue p u salt)"
  "expansions (init_expand_queue p u salt) = []" "to_expand (init_expand_queue p u salt) = 0"
  by (simp_all add: equeue_ok_def init_expand_queue_def stale_u16_def seed_and_salt(2) expansions_def)

lemma enqueue_node_ok:
  assumes ok: "equeue_ok p salt q" and room: "to_expand q < 4" and seed: "length (t ! f) = SEED_LENGTH_BYTES p"
  shows "equeue_ok p salt (enqueue_node q t f c)" and "to_expand (enqueue_node q t f c) = Suc (to_expand q)"
    and "expansions (enqueue_node q t f c) = expansions q @ [(c, t ! f @ salt, CSPRNG_DOMAIN_SEP_CONST + f)]"
proof -
  let ?n = "to_expand q"
  have slot: "length (in_queue q ! ?n) = SALT_LENGTH_BYTES p + SEED_LENGTH_BYTES p" "drop (SEED_LENGTH_BYTES p) (in_queue q ! ?n) = salt"
    using ok room by (simp_all add: equeue_ok_def)
  have inp: "write_at 0 (t ! f) (in_queue q ! ?n) = t ! f @ salt" using seed_and_salt(1) [OF slot(1) seed] slot(2) by simp
  have salt: "length salt = SALT_LENGTH_BYTES p" using slot by auto
  have "length x = SALT_LENGTH_BYTES p + SEED_LENGTH_BYTES p \<and> drop (SEED_LENGTH_BYTES p) x = salt"
    if "x \<in> set ((in_queue q)[?n := t ! f @ salt])" for x
    using that ok seed salt set_update_subset_insert [of "in_queue q" ?n "t ! f @ salt"] by (auto simp: equeue_ok_def)
  then show "equeue_ok p salt (enqueue_node q t f c)"
    using ok room inp by (simp add: equeue_ok_def enqueue_node_def Let_def)
  show "to_expand (enqueue_node q t f c) = Suc ?n" by (simp add: enqueue_node_def Let_def)
  show "expansions (enqueue_node q t f c) = expansions q @ [(c, t ! f @ salt, CSPRNG_DOMAIN_SEP_CONST + f)]"
    using ok room inp by (simp add: expansions_def enqueue_node_def Let_def equeue_ok_def)
qed

lemma expand_queued_eq:
  assumes ok: "equeue_ok p salt q"
  shows "expand_queued p u t q = (foldl (\<lambda>t j. put_expansion p j t) t (expansions q), q\<lparr>to_expand := 0\<rparr>)"
proof -
  let ?n = "SALT_LENGTH_BYTES p + SEED_LENGTH_BYTES p" and ?l = "to_expand q"
  let ?ins = "[in_queue q ! 0, in_queue q ! 1, in_queue q ! 2, in_queue q ! 3]"
  let ?ds = "[in_queue_dsc q ! 0, in_queue_dsc q ! 1, in_queue_dsc q ! 2, in_queue_dsc q ! 3]"
  define outs where "outs = fst (csprng_randombytes_par p u ?l (csprng_initialize_par p u ?l (stale_states u)
      (in_queue q ! 0) (in_queue q ! 1) (in_queue q ! 2) (in_queue q ! 3) ?n
      (in_queue_dsc q ! 0) (in_queue_dsc q ! 1) (in_queue_dsc q ! 2) (in_queue_dsc q ! 3)) (2 * SEED_LENGTH_BYTES p))"
  have l: "?l \<le> 4" using ok by (simp add: equeue_ok_def)
  have same: "?ins ! k = in_queue q ! k" "?ds ! k = in_queue_dsc q ! k" "length (in_queue q ! k) = ?n" if "k < 4" for k
    using ok that by (auto simp: less_4 equeue_ok_def)
  have outs: "outs = map (\<lambda>k. fst (csprng_randombytes p (2 * SEED_LENGTH_BYTES p) (csprng_initialize p (in_queue q ! k) (in_queue_dsc q ! k)))) [0..<?l]"
  proof (cases "?l = 0")
    case False
    have "?n \<le> length (?ins ! k)" if "k < ?l" for k using same [of k] l that by simp
    then have "outs = map (\<lambda>k. fst (csprng_randombytes p (2 * SEED_LENGTH_BYTES p) (csprng_initialize p (take ?n (?ins ! k)) (?ds ! k)))) [0..<?l]"
      unfolding outs_def using False l by (intro par_generators sizes_small) simp_all
    also have "\<dots> = map (\<lambda>k. fst (csprng_randombytes p (2 * SEED_LENGTH_BYTES p) (csprng_initialize p (in_queue q ! k) (in_queue_dsc q ! k)))) [0..<?l]"
      using same l by (intro map_cong) simp_all
    finally show ?thesis .
  qed (simp add: outs_def)
  have z: "zip (out_pos_queue q) outs = map (\<lambda>k. (out_pos_queue q ! k, outs ! k)) [0..<?l]"
    using l ok by (intro nth_equalityI) (simp_all add: outs equeue_ok_def)
  have "foldl (\<lambda>t (pos, out). put_children p t pos out) t (zip (out_pos_queue q) outs) = foldl (\<lambda>t j. put_expansion p j t) t (expansions q)"
    unfolding z expansions_def foldl_map by (intro foldl_cong) (simp_all add: outs)
  then show ?thesis unfolding expand_queued_def Let_def split_beta outs_def [symmetric] by simp
qed

section \<open>Nodes of one run lie on one level\<close>

lemma run_before:
  assumes split: "xs = as @ y # cs @ x # bs" and run: "\<forall>z\<in>set (y # cs). \<not> flush z"
    and sorted: "sorted_wrt R xs" and asym: "\<And>a b. R a b \<Longrightarrow> \<not> R b a" and e: "e \<in> set xs" "flush e" "e = y \<or> R y e"
  shows "R y x" and "e = x \<or> R x e"
proof -
  have s: "sorted_wrt R (as @ y # cs @ x # bs)" using sorted split by simp
  then show "R y x" by (simp add: sorted_wrt_append)
  have "R a y" if "a \<in> set as" for a using s that by (simp add: sorted_wrt_append)
  then have "e \<notin> set as" using e(3) asym by blast
  then have "e = x \<or> e \<in> set bs" using e run split by auto
  then show "e = x \<or> R x e" using s by (auto simp: sorted_wrt_append)
qed

lemma end_after:
  assumes "sorted_wrt R xs" and "\<And>a b. R a b \<Longrightarrow> \<not> R b a" and "xs = as @ y # cs" and "e \<in> set xs" and "e = y \<or> R y e"
  shows "e \<in> set (y # cs)"
proof -
  have "e \<notin> set as"
  proof
    assume "e \<in> set as"
    then have "R e y" using assms(1,3) by (simp add: sorted_wrt_append)
    then show False using assms(2,5) by blast
  qed
  then show ?thesis using assms(3,4) by auto
qed

context tree_shape begin

lemma idx_bounds: "q \<in> set nodes \<Longrightarrow> base (fst q) \<le> idx q \<and> idx q < base (Suc (fst q))"
  by (simp add: in_nodes idx_def base_Suc)

lemma level_mono: "q \<in> set nodes \<Longrightarrow> r \<in> set nodes \<Longrightarrow> idx q \<le> idx r \<Longrightarrow> fst q \<le> fst r"
  using idx_bounds [of q] idx_bounds [of r] base_mono [of "Suc (fst r)" "fst q"] by (cases "fst q \<le> fst r") auto

lemma last_inner: "y \<in> set inners \<Longrightarrow> (fst y, inner (fst y) - 1) \<in> set inners \<and> ((fst y, inner (fst y) - 1) = y \<or> idx y < idx (fst y, inner (fst y) - 1))"
  by (cases y) (auto simp: in_inners idx_def)

lemma run_level_down:
  assumes xs: "sorted_wrt (\<lambda>a b. idx a < idx b) xs" "set xs \<subseteq> set nodes" and split: "xs = as @ y # cs @ x # bs"
    and run: "\<forall>z\<in>set (y # cs). \<not> flush z" and y: "y \<in> set inners"
    and e: "(fst y, inner (fst y) - 1) \<in> set xs" "flush (fst y, inner (fst y) - 1)"
  shows "fst x = fst y"
proof -
  note l = last_inner [OF y]
  note r = run_before [OF split run xs(1) _ e(1,2) conjunct2 [OF l]]
  have "x \<in> set nodes" "y \<in> set nodes" "(fst y, inner (fst y) - 1) \<in> set nodes" using split xs(2) e(1) by auto
  then have "fst y \<le> fst x \<and> (idx x \<le> idx (fst y, inner (fst y) - 1) \<longrightarrow> fst x \<le> fst (fst y, inner (fst y) - 1))"
    using r(1) level_mono [of y x] level_mono [of x "(fst y, inner (fst y) - 1)"] by simp
  then show ?thesis using r(2) by auto
qed

end

lemma same_run_map:
  assumes "same_run flush (map f xs) y x"
  obtains y' x' as cs bs where "y = f y'" and "x = f x'" and "xs = as @ y' # cs @ x' # bs" and "\<forall>z\<in>set (y' # cs). \<not> flush (f z)"
proof -
  obtain as cs bs where s: "map f xs = as @ y # cs @ x # bs" "\<forall>z\<in>set (y # cs). \<not> flush z" using assms by (auto simp: same_run_def)
  obtain as' rest where a: "xs = as' @ rest" "map f rest = y # cs @ x # bs" using s(1) by (auto simp: map_eq_append_conv)
  obtain y' rest' where b: "rest = y' # rest'" "f y' = y" "map f rest' = cs @ x # bs" using a(2) by auto
  obtain cs' rest'' where c: "rest' = cs' @ rest''" "map f cs' = cs" "map f rest'' = x # bs" using b(3) by (auto simp: map_eq_append_conv)
  obtain x' bs' where d: "rest'' = x' # bs'" "f x' = x" using c(3) by auto
  have "\<forall>z\<in>set (y' # cs'). \<not> flush (f z)" using s(2) b(2) c(2) by auto
  then show thesis using that [of y' x' as' cs' bs'] a b c d by simp
qed

section \<open>The generator\<close>

definition tree_ok :: "cross_params \<Rightarrow> bytes list \<Rightarrow> bool" where
  "tree_ok p t \<longleftrightarrow> length t = NUM_NODES_TREE p \<and> (\<forall>x\<in>set t. length x = SEED_LENGTH_BYTES p)"

lemma tree_ok_put_children: "tree_ok p t \<Longrightarrow> length out = 2 * SEED_LENGTH_BYTES p \<Longrightarrow> tree_ok p (put_children p t pos out)"
  unfolding tree_ok_def by (intro conjI put_children_lengths) (simp_all add: put_children_def)

lemma tree_ok_put: "tree_ok p t \<Longrightarrow> tree_ok p (put_expansion p j t)"
  using sizes_small(2) [of p] by (cases j) (auto intro!: tree_ok_put_children length_csprng_randombytes)

definition children_at :: "cross_params \<Rightarrow> nat \<times> nat \<times> nat \<Rightarrow> expansion \<Rightarrow> bool" where
  "children_at p = (\<lambda>(level, k, node) j. (level, k) \<in> set (tree.inners p) \<and> node = tree.idx p (level, k) \<and> fst j = LEFT_CHILD node - tree_off p level)"

lemma put_elsewhere:
  assumes "children_at p (l, k, node) j" and "(l, k') \<in> set (tree.nodes p)"
  shows "put_expansion p j t ! tree.idx p (l, k') = t ! tree.idx p (l, k')"
    and "put_expansion p j (t[tree.idx p (l, k') := v]) = (put_expansion p j t)[tree.idx p (l, k') := v]"
proof -
  have "fst j = tree.idx p (Suc l, 2 * k)" using assms(1) tree.left_child_idx [of l k p] by (auto simp: children_at_def)
  moreover have "tree.idx p (l, k') < tree.idx p (Suc l, 2 * k)"
    using tree.idx_bounds [OF assms(2)] by (simp add: tree.idx_def)
  ultimately show "put_expansion p j t ! tree.idx p (l, k') = t ! tree.idx p (l, k')"
    "put_expansion p j (t[tree.idx p (l, k') := v]) = (put_expansion p j t)[tree.idx p (l, k') := v]"
    by (cases j; simp add: put_children_def list_update_swap)+
qed

definition gen_items :: "cross_params \<Rightarrow> (nat \<times> nat \<times> nat) list" where
  "gen_items p = level_nodes (\<lambda>l. tree_npl p l - tree_lpl p l) (tree_npl p) [0..<tree_height p] 0"

definition last_of_level :: "cross_params \<Rightarrow> nat \<times> nat \<times> nat \<Rightarrow> bool" where
  "last_of_level p = (\<lambda>(level, node_in_level, node). int node_in_level = int (tree_npl p level) - int (tree_lpl p level) - 1)"

definition gen_act :: "cross_params \<Rightarrow> bytes \<Rightarrow> bytes list \<Rightarrow> nat \<times> nat \<times> nat \<Rightarrow> (bytes list \<times> expansion option) option" where
  "gen_act p salt t = (\<lambda>(level, k, node). Some (t, Some (LEFT_CHILD node - tree_off p level, t ! node @ salt, CSPRNG_DOMAIN_SEP_CONST + node)))"

definition put_all :: "('j \<Rightarrow> 's \<Rightarrow> 's) \<Rightarrow> 'j list \<Rightarrow> 's \<Rightarrow> 's" where
  "put_all put queue s = foldl (\<lambda>s j. put j s) s queue"

lemma gen_items_eq: "gen_items p = map (\<lambda>q. (fst q, snd q, tree.idx p q)) (tree.inners p)"
  by (simp add: gen_items_def tree.level_nodes_inner)

lemma inner_count: "l < tree_height p \<Longrightarrow> tree.inner p l = tree_npl p l - tree_lpl p l"
  by (simp add: tree.inner_def)

lemma last_of_level_iff: "(l, k) \<in> set (tree.inners p) \<Longrightarrow> last_of_level p (l, k, n) \<longleftrightarrow> k = tree.inner p l - 1"
  using tree.in_inners [of "(l, k)" p] tree.lpl_le [of l p] by (auto simp: last_of_level_def inner_count)

lemma last_inner_last: "y \<in> set (tree.inners p) \<Longrightarrow> last_of_level p (fst y, tree.inner p (fst y) - 1, n)"
  using last_of_level_iff [OF conjunct1 [OF tree.last_inner, unfolded prod.collapse]] by blast

interpretation gen_batch: batching "gen_act p salt" "put_expansion p" "put_all (put_expansion p)" "last_of_level p" "gen_items p" "children_at p"
  for p salt
proof
  fix x s s' j assume "x \<in> set (gen_items p)" "gen_act p salt s x = Some (s', Some j)"
  then show "children_at p x j" by (auto simp: gen_items_eq gen_act_def children_at_def)
next
  fix y x j s assume run: "same_run (last_of_level p) (gen_items p) y x" and j: "children_at p y j"
  obtain y' x' as cs bs where y: "y = (fst y', snd y', tree.idx p y')" and x: "x = (fst x', snd x', tree.idx p x')"
    and s: "tree.inners p = as @ y' # cs @ x' # bs" and r: "\<forall>z\<in>set (y' # cs). \<not> last_of_level p (fst z, snd z, tree.idx p z)"
    using run unfolding gen_items_eq by (rule same_run_map)
  have y': "y' \<in> set (tree.inners p)" and x': "x' \<in> set (tree.inners p)" using s by simp_all
  have sub: "set (tree.inners p) \<subseteq> set (tree.nodes p)" using tree.inners_nodes by blast
  have "fst x' = fst y'"
    by (rule tree.run_level_down [OF tree.inners_sorted sub s r y' conjunct1 [OF tree.last_inner [OF y']]]) (use last_inner_last [OF y'] in simp)
  then have "put_expansion p j s ! tree.idx p x' = s ! tree.idx p x'"
    using put_elsewhere(1) [OF j [unfolded y], of "snd x'" s] x' sub by (metis prod.collapse subsetD)
  then show "gen_act p salt (put_expansion p j s) x = map_option (\<lambda>(s', job). (put_expansion p j s', job)) (gen_act p salt s x)"
    by (simp add: gen_act_def x)
next
  fix as y cs j assume s: "gen_items p = as @ y # cs" and j: "children_at p y j"
  obtain as' y' cs' where y: "y = (fst y', snd y', tree.idx p y')" and s': "tree.inners p = as' @ y' # cs'" and cs: "cs = map (\<lambda>q. (fst q, snd q, tree.idx p q)) cs'"
    using s unfolding gen_items_eq by (auto simp: map_eq_append_conv)
  let ?e = "(fst y', tree.inner p (fst y') - 1)"
  have y': "y' \<in> set (tree.inners p)" using s' by simp
  note e = tree.last_inner [OF y']
  have "?e \<in> set (y' # cs')" by (rule end_after [OF tree.inners_sorted _ s']) (use e in auto)
  moreover have "set (y # cs) = (\<lambda>q. (fst q, snd q, tree.idx p q)) ` set (y' # cs')" by (simp add: y cs)
  ultimately have "(fst ?e, snd ?e, tree.idx p ?e) \<in> set (y # cs)" by blast
  then show "\<exists>z\<in>set (y # cs). last_of_level p z" using last_inner_last [OF y'] by (intro bexI) simp_all
qed (simp add: put_all_def)

lemma tree_ok_put_all: "tree_ok p t \<Longrightarrow> tree_ok p (put_all (put_expansion p) queue t)"
  by (induction queue arbitrary: t) (simp_all add: put_all_def tree_ok_put)

lemma emptied: "equeue_ok p salt q \<Longrightarrow> equeue_ok p salt (q\<lparr>to_expand := 0\<rparr>)" "expansions (q\<lparr>to_expand := 0\<rparr>) = []"
  by (simp_all add: equeue_ok_def expansions_def)

text \<open>The arrays of the code stand for the list of pending jobs.\<close>

definition queued :: "cross_params \<Rightarrow> bytes \<Rightarrow> bytes list \<times> expand_queue \<Rightarrow> bytes list \<times> expansion list \<Rightarrow> bool" where
  "queued p salt = (\<lambda>(t, q) (t', jobs). t' = t \<and> tree_ok p t \<and> equeue_ok p salt q \<and> to_expand q < 4 \<and> jobs = expansions q)"

lemma gen_node_queued:
  assumes x: "x \<in> set (gen_items p)" and R: "queued p salt c a"
  shows "rel_option (queued p salt) (Some (gen_node_x4 p u c x)) (batch_step (gen_act p salt) (put_all (put_expansion p)) (last_of_level p) a x)"
proof -
  obtain t q jobs where c: "c = (t, q)" and a: "a = (t, jobs)" and ok: "tree_ok p t" "equeue_ok p salt q" "to_expand q < 4" "jobs = expansions q"
    using R by (cases c; cases a) (auto simp: queued_def)
  obtain l k where q: "(l, k) \<in> set (tree.inners p)" and x: "x = (l, k, tree.idx p (l, k))" using x by (auto simp: gen_items_eq)
  let ?n = "tree.idx p (l, k)"
  have "?n < length t" using tree.idx_lt [OF tree.inners_nodes [OF q]] ok(1) by (simp add: tree_size tree_ok_def)
  then have seed: "length (t ! ?n) = SEED_LENGTH_BYTES p" using ok(1) by (simp add: tree_ok_def)
  let ?q = "enqueue_node q t ?n (LEFT_CHILD ?n - tree_off p l)"
  note enq = enqueue_node_ok [OF ok(2,3) seed, of "LEFT_CHILD ?n - tree_off p l"]
  have flush: "k = tree_npl p l - tree_lpl p l - 1 \<longleftrightarrow> last_of_level p x"
    using last_of_level_iff [OF q, of ?n] q by (simp add: x tree.in_inners inner_count)
  have "length (expansions ?q) = to_expand ?q" by (simp add: expansions_def)
  then have b: "batch_step (gen_act p salt) (put_all (put_expansion p)) (last_of_level p) a x =
      Some (if to_expand ?q = 4 \<or> last_of_level p x then (put_all (put_expansion p) (expansions ?q) t, []) else (t, expansions ?q))"
    using enq(3) by (simp add: batch_step_def a x gen_act_def ok(4))
  have g: "gen_node_x4 p u c x = (if to_expand ?q = 4 \<or> last_of_level p x then (put_all (put_expansion p) (expansions ?q) t, ?q\<lparr>to_expand := 0\<rparr>) else (t, ?q))"
    unfolding gen_node_x4_def c using flush by (simp add: x Let_def expand_queued_eq [OF enq(1)] put_all_def)
  show ?thesis unfolding b g using ok enq tree_ok_put_all [OF ok(1)] emptied(1) [OF enq(1)] emptied(2) by (auto simp: queued_def)
qed

lemma direct_gen:
  "direct_step (gen_act p salt) (put_expansion p) t (l, k, n) = Some (put_children p t (LEFT_CHILD n - tree_off p l) (expand_node p salt (t ! n) n))"
  by (simp add: direct_step_def gen_act_def expand_node_def Let_def)

theorem gen_seed_tree_same:
  assumes t: "tree_ok p t" and root: "length root_seed = SEED_LENGTH_BYTES p" and salt: "length salt = SALT_LENGTH_BYTES p"
  shows "gen_seed_tree_x4 p u t root_seed salt = gen_seed_tree p t root_seed salt"
proof -
  let ?t = "t[0 := root_seed]"
  have t': "tree_ok p ?t" using t root set_update_subset_insert [of t 0 root_seed] by (auto simp: tree_ok_def)
  have "rel_option (queued p salt) (foldM (\<lambda>s x. Some (gen_node_x4 p u s x)) (?t, init_expand_queue p u salt) (gen_items p))
      (foldM (batch_step (gen_act p salt) (put_all (put_expansion p)) (last_of_level p)) (?t, []) (gen_items p))"
    by (rule foldM_simulation [OF gen_node_queued]) (use t' init_expand_queue_ok(1) [OF salt] init_expand_queue_ok(2,3) in \<open>simp_all add: queued_def\<close>)
  moreover have "foldM (direct_step (gen_act p salt) (put_expansion p)) ?t (gen_items p) = Some (gen_seed_tree p t root_seed salt)"
    unfolding gen_seed_tree_def gen_items_def [symmetric] foldM_total [symmetric]
    by (intro foldM_cong) (auto simp: direct_gen)
  ultimately show ?thesis
    unfolding gen_batch.batched foldM_total by (auto simp: queued_def gen_seed_tree_x4_def gen_items_def [symmetric] split_beta)
qed

section \<open>The reconstruction\<close>

definition rebuild_items :: "cross_params \<Rightarrow> (nat \<times> nat \<times> nat) list" where
  "rebuild_items p = level_nodes (tree_npl p) (tree_npl p) [1..<Suc (tree_height p)] 1"

definition load_seed :: "cross_params \<Rightarrow> nat list \<Rightarrow> bytes \<Rightarrow> nat \<Rightarrow> nat \<Rightarrow> bytes list \<times> nat \<Rightarrow> (bytes list \<times> nat) option" where
  "load_seed p flags stored_seeds level node = (\<lambda>(t, n).
     if flags ! node = TO_PUBLISH \<and> flags ! parent_node p level node = NOT_TO_PUBLISH
     then (case load_at (n * SEED_LENGTH_BYTES p) (SEED_LENGTH_BYTES p) stored_seeds of
             None \<Rightarrow> None | Some seed \<Rightarrow> Some (t[node := seed], n + 1))
     else Some (t, n))"

definition expands :: "cross_params \<Rightarrow> nat list \<Rightarrow> nat \<times> nat \<times> nat \<Rightarrow> bool" where
  "expands p flags = (\<lambda>(level, k, node). flags ! node = TO_PUBLISH \<and> k < tree_npl p level - tree_lpl p level)"

definition rebuild_act ::
  "cross_params \<Rightarrow> nat list \<Rightarrow> bytes \<Rightarrow> bytes \<Rightarrow> bytes list \<times> nat \<Rightarrow> nat \<times> nat \<times> nat \<Rightarrow> ((bytes list \<times> nat) \<times> expansion option) option" where
  "rebuild_act p flags stored_seeds salt s = (\<lambda>(level, k, node).
     map_option (\<lambda>(t, n). ((t, n), if expands p flags (level, k, node)
        then Some (LEFT_CHILD node - tree_off p level, t ! node @ salt, CSPRNG_DOMAIN_SEP_CONST + node) else None))
       (load_seed p flags stored_seeds level node s))"

definition put_seeds :: "cross_params \<Rightarrow> expansion \<Rightarrow> bytes list \<times> nat \<Rightarrow> bytes list \<times> nat" where
  "put_seeds p j = (\<lambda>(t, n). (put_expansion p j t, n))"

lemma rebuild_items_eq: "rebuild_items p = map (\<lambda>q. (fst q, snd q, tree.idx p q)) (tl (tree.nodes p))"
  by (simp only: rebuild_items_def tree.level_nodes_all)

lemma tl_nodes_sorted: "sorted_wrt (\<lambda>a b. tree.idx p a < tree.idx p b) (tl (tree.nodes p))"
  using tree.nodes_sorted [of p] tree.nodes_root [of p] by (metis sorted_wrt.simps(2))

lemma expands_inner: "(l, k) \<in> set (tl (tree.nodes p)) \<Longrightarrow> expands p flags (l, k, n) \<Longrightarrow> (l, k) \<in> set (tree.inners p)"
  using tree.in_tl_nodes [of "(l, k)" p] tree.lpl_H [of p]
  by (cases "l = tree_height p") (auto simp: expands_def tree.in_inners tree.in_nodes inner_count)

lemma load_seed_commutes:
  assumes "children_at p (l, k, node) j" and "(l, k') \<in> set (tree.nodes p)"
  shows "load_seed p flags stored l (tree.idx p (l, k')) (put_seeds p j s) = map_option (put_seeds p j) (load_seed p flags stored l (tree.idx p (l, k')) s)"
  using put_elsewhere(2) [OF assms] by (cases s) (auto simp: load_seed_def put_seeds_def split: option.split)

interpretation rebuild_batch: batching "rebuild_act p flags stored salt" "put_seeds p" "put_all (put_seeds p)" "last_of_level p" "rebuild_items p"
    "\<lambda>x j. x \<in> set (rebuild_items p) \<and> children_at p x j"
  for p flags stored salt
proof
  fix x s s' j assume "x \<in> set (rebuild_items p)" "rebuild_act p flags stored salt s x = Some (s', Some j)"
  then show "x \<in> set (rebuild_items p) \<and> children_at p x j"
    by (auto simp: rebuild_items_eq rebuild_act_def children_at_def expands_inner split: if_splits)
next
  fix y x j s assume run: "same_run (last_of_level p) (rebuild_items p) y x" and j: "y \<in> set (rebuild_items p) \<and> children_at p y j"
  obtain y' x' as cs bs where y: "y = (fst y', snd y', tree.idx p y')" and x: "x = (fst x', snd x', tree.idx p x')"
    and s: "tl (tree.nodes p) = as @ y' # cs @ x' # bs" and r: "\<forall>z\<in>set (y' # cs). \<not> last_of_level p (fst z, snd z, tree.idx p z)"
    using run unfolding rebuild_items_eq by (rule same_run_map)
  have y': "y' \<in> set (tree.inners p)" using j by (auto simp: y children_at_def)
  have sub: "set (tl (tree.nodes p)) \<subseteq> set (tree.nodes p)" by (auto simp: tree.in_tl_nodes)
  have x': "x' \<in> set (tree.nodes p)" using sub unfolding s by auto
  have "y' \<in> set (tl (tree.nodes p))" unfolding s by simp
  then have e: "(fst y', tree.inner p (fst y') - 1) \<in> set (tl (tree.nodes p))"
    using tree.inners_nodes [OF conjunct1 [OF tree.last_inner [OF y']]] by (simp add: tree.in_tl_nodes)
  have "fst x' = fst y'"
    by (rule tree.run_level_down [OF tl_nodes_sorted sub s r y' e]) (use last_inner_last [OF y'] in simp)
  then have k: "(fst y', snd x') \<in> set (tree.nodes p)" "x' = (fst y', snd x')" using x' by (metis prod.collapse)+
  note c = load_seed_commutes [OF conjunct2 [OF j, unfolded y] k(1), folded k(2)] put_elsewhere(1) [OF conjunct2 [OF j, unfolded y] k(1), folded k(2)]
  show "rebuild_act p flags stored salt (put_seeds p j s) x = map_option (\<lambda>(s', job). (put_seeds p j s', job)) (rebuild_act p flags stored salt s x)"
    using \<open>fst x' = fst y'\<close> by (simp add: rebuild_act_def x c option.map_comp comp_def) (auto simp: put_seeds_def c(2) intro!: option.map_cong0)
next
  fix as y cs j assume s: "rebuild_items p = as @ y # cs" and j: "y \<in> set (rebuild_items p) \<and> children_at p y j"
  obtain as' y' cs' where y: "y = (fst y', snd y', tree.idx p y')" and s': "tl (tree.nodes p) = as' @ y' # cs'" and cs: "cs = map (\<lambda>q. (fst q, snd q, tree.idx p q)) cs'"
    using s unfolding rebuild_items_eq by (auto simp: map_eq_append_conv)
  let ?e = "(fst y', tree.inner p (fst y') - 1)"
  have y': "y' \<in> set (tree.inners p)" using j by (auto simp: y children_at_def)
  note e = tree.last_inner [OF y']
  have "y' \<in> set (tl (tree.nodes p))" unfolding s' by simp
  then have "?e \<in> set (tl (tree.nodes p))"
    using tree.inners_nodes [OF conjunct1 [OF e]] by (simp add: tree.in_tl_nodes)
  from end_after [OF tl_nodes_sorted _ s' this] have "?e \<in> set (y' # cs')" using e by auto
  moreover have "set (y # cs) = (\<lambda>q. (fst q, snd q, tree.idx p q)) ` set (y' # cs')" by (simp add: y cs)
  ultimately have "(fst ?e, snd ?e, tree.idx p ?e) \<in> set (y # cs)" by blast
  then show "\<exists>z\<in>set (y # cs). last_of_level p z" using last_inner_last [OF y'] by (intro bexI) simp_all
qed (simp add: put_all_def)

lemma load_seed_ok:
  assumes "load_seed p flags stored l node (t, n) = Some (t', n')" and "tree_ok p t"
  shows "tree_ok p t'"
proof -
  have "length seed = SEED_LENGTH_BYTES p" if "load_at m (SEED_LENGTH_BYTES p) stored = Some seed" for m seed
    using that by (auto simp: load_at_def split: if_splits)
  then show ?thesis
    using assms set_update_subset_insert by (fastforce simp: load_seed_def tree_ok_def split: if_splits option.splits)
qed

definition queued2 :: "cross_params \<Rightarrow> bytes \<Rightarrow> (bytes list \<times> nat) \<times> expand_queue \<Rightarrow> (bytes list \<times> nat) \<times> expansion list \<Rightarrow> bool" where
  "queued2 p salt = (\<lambda>((t, n), q) ((t', n'), jobs). n' = n \<and> queued p salt (t, q) (t', jobs))"

lemma put_all_seeds: "put_all (put_seeds p) queue (t, n) = (put_all (put_expansion p) queue t, n)"
  by (induction queue arbitrary: t) (simp_all add: put_all_def put_seeds_def)

lemma rebuild_node_queued:
  assumes x: "x \<in> set (rebuild_items p)" and R: "queued2 p salt c a"
  shows "rel_option (queued2 p salt) (rebuild_node_x4 p u flags stored c x)
    (batch_step (rebuild_act p flags stored salt) (put_all (put_seeds p)) (last_of_level p) a x)"
proof -
  obtain t n q jobs where c: "c = ((t, n), q)" and a: "a = ((t, n), jobs)" and ok: "tree_ok p t" "equeue_ok p salt q" "to_expand q < 4" "jobs = expansions q"
    using R by (cases c; cases a) (auto simp: queued2_def queued_def)
  obtain l k where q: "(l, k) \<in> set (tl (tree.nodes p))" and x: "x = (l, k, tree.idx p (l, k))" using x by (auto simp: rebuild_items_eq)
  let ?n = "tree.idx p (l, k)" and ?load = "load_seed p flags stored l (tree.idx p (l, k)) (t, n)"
  have node: "rebuild_node_x4 p u flags stored c x = (case ?load of None \<Rightarrow> None | Some (t, n) \<Rightarrow>
       let q = (if expands p flags x then enqueue_node q t ?n (LEFT_CHILD ?n - tree_off p l) else q)
       in if to_expand q = 4 \<or> last_of_level p x then let (t, q) = expand_queued p u t q in Some ((t, n), q) else Some ((t, n), q))"
    unfolding rebuild_node_x4_def c x load_seed_def expands_def last_of_level_def prod.case ..
  show ?thesis
  proof (cases ?load)
    case None
    then show ?thesis unfolding node by (simp add: batch_step_def a x rebuild_act_def)
  next
    case (Some tn)
    obtain t' n' where tn: "tn = (t', n')" by (cases tn)
    have t': "tree_ok p t'" by (rule load_seed_ok [OF Some [unfolded tn] ok(1)])
    let ?q = "if expands p flags x then enqueue_node q t' ?n (LEFT_CHILD ?n - tree_off p l) else q"
    have "?n < length t'" using tree.idx_lt [of "(l, k)" p] q t' by (simp add: tree.in_tl_nodes tree_size tree_ok_def)
    then have seed: "length (t' ! ?n) = SEED_LENGTH_BYTES p" using t' by (simp add: tree_ok_def)
    note enq = enqueue_node_ok [OF ok(2,3) seed, of "LEFT_CHILD ?n - tree_off p l"]
    have q': "equeue_ok p salt ?q" "to_expand ?q \<le> 4" using ok enq by (auto simp: equeue_ok_def)
    have "length (expansions ?q) = to_expand ?q" by (simp add: expansions_def)
    moreover have "expansions ?q = jobs @ (if expands p flags x then [(LEFT_CHILD ?n - tree_off p l, t' ! ?n @ salt, CSPRNG_DOMAIN_SEP_CONST + ?n)] else [])"
      using enq(3) ok(4) by simp
    ultimately have b: "batch_step (rebuild_act p flags stored salt) (put_all (put_seeds p)) (last_of_level p) a x =
        Some (if to_expand ?q = 4 \<or> last_of_level p x then ((put_all (put_expansion p) (expansions ?q) t', n'), []) else ((t', n'), expansions ?q))"
      using Some by (cases "expands p flags x") (simp_all add: batch_step_def a x rebuild_act_def tn put_all_seeds)
    have g: "rebuild_node_x4 p u flags stored c x =
        Some (if to_expand ?q = 4 \<or> last_of_level p x then ((put_all (put_expansion p) (expansions ?q) t', n'), ?q\<lparr>to_expand := 0\<rparr>) else ((t', n'), ?q))"
      unfolding node Some tn by (simp only: option.case prod.case Let_def expand_queued_eq [OF q'(1)] put_all_def if_distrib [of Some])
    show ?thesis unfolding b g using t' q' tree_ok_put_all [OF t'] emptied(1) [OF q'(1)] emptied(2) [of ?q] by (simp add: queued2_def queued_def)
  qed
qed

lemma direct_rebuild:
  "direct_step (rebuild_act p flags stored salt) (put_seeds p) s (l, k, n) = rebuild_node p flags stored salt s (l, k, n)"
  by (cases s) (auto simp: direct_step_def rebuild_act_def rebuild_node_def load_seed_def expands_def put_seeds_def expand_node_def Let_def split: option.splits)

theorem rebuild_tree_same:
  assumes t: "tree_ok p t" and salt: "length salt = SALT_LENGTH_BYTES p"
  shows "rebuild_tree_x4 p u t ind stored salt = rebuild_tree p t ind stored salt"
proof -
  let ?flags = "compute_seeds_to_publish p (replicate (NUM_NODES_TREE p) 0) ind"
  have sim: "rel_option (queued2 p salt) (foldM (rebuild_node_x4 p u ?flags stored) ((t, 0), init_expand_queue p u salt) (rebuild_items p))
      (foldM (batch_step (rebuild_act p ?flags stored salt) (put_all (put_seeds p)) (last_of_level p)) ((t, 0), []) (rebuild_items p))"
    by (rule foldM_simulation [OF rebuild_node_queued])
      (use t init_expand_queue_ok(1) [OF salt] init_expand_queue_ok(2,3) in \<open>simp_all add: queued_def queued2_def\<close>)
  have ref: "foldM (direct_step (rebuild_act p ?flags stored salt) (put_seeds p)) (t, 0) (rebuild_items p)
      = foldM (rebuild_node p ?flags stored salt) (t, 0) (rebuild_items p)"
    by (intro foldM_cong) (auto simp: direct_rebuild)
  show ?thesis
    using sim unfolding rebuild_batch.batched ref rebuild_tree_x4_def rebuild_tree_def Let_def rebuild_items_def [symmetric]
    by (cases rule: option.rel_cases) (auto simp: queued2_def queued_def split_beta)
qed

end
