(* ===== verification/Merkle_x4.thy ===== *)
theory Merkle_x4
  imports Merkle Seed_Tree_x4
begin

text \<open>
  The Merkle tree of the optimised implementation
  (\<open>Optimized_Implementation/lib/merkle.c\<close>): the pairs of a level are hashed up to four
  at a time, and \<open>recompute_root\<close> copies the nodes of the proof into its tree before it
  hashes them. The other functions are those of the reference implementation.

  The root over given leaves and the root recomputed from a proof are proved to be
  those of the reference implementation.
\<close>

section \<open>The code\<close>

text \<open>The pairs with the loop variable \<open>i\<close>, as triples (level, i, current node).\<close>

fun level_pair_steps :: "(nat \<Rightarrow> nat) \<Rightarrow> nat list \<Rightarrow> nat \<Rightarrow> (nat \<times> nat \<times> nat) list" where
  "level_pair_steps npl [] start_node = []"
| "level_pair_steps npl (level # levels) start_node =
     map (\<lambda>k. let i = npl level - 2 - 2 * k in (level, i, start_node + i)) [0..<npl level div 2]
     @ level_pair_steps npl levels (start_node - npl (level - 1))"

definition merkle_steps :: "cross_params \<Rightarrow> (nat \<times> nat \<times> nat) list" where
  "merkle_steps p = level_pair_steps (tree_npl p) (rev [1..<Suc (tree_height p)]) (TREE_LEAVES_START_INDICES (tabs p) ! 0)"

record hash_queue =
  to_hash :: nat
  in_pos_queue :: "nat list"
  hash_pos_queue :: "nat list"

definition init_hash_queue :: hash_queue where
  "init_hash_queue = \<lparr>to_hash = 0, in_pos_queue = replicate 4 0, hash_pos_queue = replicate 4 0\<rparr>"

definition enqueue_pair :: "hash_queue \<Rightarrow> nat \<Rightarrow> nat \<Rightarrow> hash_queue" where
  "enqueue_pair q current_node parent =
     (let n = to_hash q + 1
      in \<lparr>to_hash = n, in_pos_queue = (in_pos_queue q)[n - 1 := current_node], hash_pos_queue = (hash_pos_queue q)[n - 1 := parent]\<rparr>)"

definition pair_at :: "bytes list \<Rightarrow> nat \<Rightarrow> bytes" where
  \<comment> \<open>the two nodes from a position on\<close>
  "pair_at tree pos = tree ! pos @ tree ! (pos + 1)"

definition hash_queued :: "cross_params \<Rightarrow> uninitialised \<Rightarrow> bytes list \<Rightarrow> hash_queue \<Rightarrow> bytes list \<times> hash_queue" where
  "hash_queued p u tree q =
     (let digests = hash_par p u (to_hash q)
            (pair_at tree (in_pos_queue q ! 0)) (pair_at tree (in_pos_queue q ! 1)) (pair_at tree (in_pos_queue q ! 2)) (pair_at tree (in_pos_queue q ! 3))
            (2 * HASH_DIGEST_LENGTH p) HASH_DOMAIN_SEP_CONST HASH_DOMAIN_SEP_CONST HASH_DOMAIN_SEP_CONST HASH_DOMAIN_SEP_CONST
      in (foldl (\<lambda>tree (pos, digest). tree[pos := digest]) tree (zip (hash_pos_queue q) digests), q\<lparr>to_hash := 0\<rparr>))"

definition root_pair_x4 ::
  "cross_params \<Rightarrow> uninitialised \<Rightarrow> bytes list \<times> hash_queue \<Rightarrow> nat \<times> nat \<times> nat \<Rightarrow> bytes list \<times> hash_queue" where
  "root_pair_x4 p u = (\<lambda>(tree, q) (level, i, current_node).
     let q = enqueue_pair q current_node (parent_node p level current_node)
     in if to_hash q = 4 \<or> i = 0 then hash_queued p u tree q else (tree, q))"

definition tree_root_x4 :: "cross_params \<Rightarrow> uninitialised \<Rightarrow> bytes list \<Rightarrow> bytes list \<Rightarrow> bytes \<times> bytes list" where
  "tree_root_x4 p u tree leaves =
     (let tree = place_cmt_on_leaves p tree leaves;
          (tree, q) = foldl (root_pair_x4 p u) (tree, init_hash_queue) (merkle_steps p)
      in (tree ! 0, tree))"

definition load_node :: "cross_params \<Rightarrow> nat list \<Rightarrow> bytes \<Rightarrow> nat \<Rightarrow> nat \<Rightarrow> bytes list \<times> nat \<Rightarrow> (bytes list \<times> nat) option" where
  \<comment> \<open>a node that was not computed is taken from the proof, into the tree at \<open>pos\<close>\<close>
  "load_node p flag_tree mtp node pos = (\<lambda>(tree, published).
     if flag_tree ! node \<noteq> COMPUTED
     then (case load_at (published * HASH_DIGEST_LENGTH p) (HASH_DIGEST_LENGTH p) mtp of
             None \<Rightarrow> None | Some digest \<Rightarrow> Some (tree[pos := digest], published + 1))
     else Some (tree, published))"

type_synonym recompute_state = "bytes list \<times> nat list \<times> nat"   \<comment> \<open>tree, flag tree, nodes of the proof used\<close>

definition recompute_pair_x4 ::
  "cross_params \<Rightarrow> uninitialised \<Rightarrow> bytes \<Rightarrow> recompute_state \<times> hash_queue \<Rightarrow> nat \<times> nat \<times> nat \<Rightarrow> (recompute_state \<times> hash_queue) option" where
  "recompute_pair_x4 p u mtp = (\<lambda>((tree, flag_tree, published), q) (level, i, current_node).
     let parent = parent_node p level current_node;
         are_both_siblings_unused = (flag_tree ! current_node = NOT_COMPUTED \<and> flag_tree ! SIBLING current_node = NOT_COMPUTED)
     in case (if \<not> are_both_siblings_unused
              then let q = enqueue_pair q current_node parent
                   in (case load_node p flag_tree mtp current_node current_node (tree, published) of
                         None \<Rightarrow> None
                       | Some tree_published \<Rightarrow>
                           (case load_node p flag_tree mtp (SIBLING current_node) (current_node + 1) tree_published of
                              None \<Rightarrow> None
                            | Some (tree, published) \<Rightarrow> Some ((tree, flag_tree[parent := COMPUTED], published), q)))
              else Some ((tree, flag_tree, published), q)) of
          None \<Rightarrow> None
        | Some ((tree, flag_tree, published), q) \<Rightarrow>
            if to_hash q = 4 \<or> i = 0
            then let (tree, q) = hash_queued p u tree q in Some ((tree, flag_tree, published), q)
            else Some ((tree, flag_tree, published), q))"

definition stale_tree :: "cross_params \<Rightarrow> uninitialised \<Rightarrow> bytes list" where
  \<comment> \<open>an array of \<open>NUM_NODES_MERKLE_TREE\<close> digests that is not initialised\<close>
  "stale_tree p u = chunks (HASH_DIGEST_LENGTH p) (NUM_NODES_TREE p) (map (stale_bytes u) [0..<NUM_NODES_TREE p * HASH_DIGEST_LENGTH p])"

definition recompute_root_x4 :: "cross_params \<Rightarrow> uninitialised \<Rightarrow> bytes list \<Rightarrow> bytes \<Rightarrow> nat list \<Rightarrow> (bytes \<times> bool) option" where
  "recompute_root_x4 p u recomputed_leaves mtp leaves_to_reveal =
     (let tree = place_cmt_on_leaves p (stale_tree p u) recomputed_leaves;
          flag_tree = merkle_label_leaves p (replicate (NUM_NODES_TREE p) NOT_COMPUTED) leaves_to_reveal
      in case foldM (recompute_pair_x4 p u mtp) ((tree, flag_tree, 0), init_hash_queue) (merkle_steps p) of
           None \<Rightarrow> None
         | Some ((tree, flag_tree, published), q) \<Rightarrow>
             Some (tree ! 0,
               foldl (\<lambda>error i. error OR mtp ! i) 0
                 [published * HASH_DIGEST_LENGTH p..<TREE_NODES_TO_STORE (tabs p) * HASH_DIGEST_LENGTH p] = 0))"

section \<open>The order of the pairs\<close>

lemma level_pair_steps_pairs: "map (\<lambda>(level, i, node). (level, node)) (level_pair_steps npl levels start) = level_pairs npl levels start"
  by (induction npl levels start rule: level_pairs.induct) (simp_all add: Let_def comp_def)

definition step_at :: "cross_params \<Rightarrow> tpos \<Rightarrow> nat \<times> nat \<times> nat" where
  \<comment> \<open>the step that computes the inner node\<close>
  "step_at p q = (Suc (fst q), 2 * snd q, tree.idx p (Suc (fst q), 2 * snd q))"

context tree_shape begin

lemma level_pair_steps_eq:
  "n \<le> H \<Longrightarrow> level_pair_steps npl (rev [1..<Suc n]) (base n) =
     map (\<lambda>q. (Suc (fst q), 2 * snd q, idx (Suc (fst q), 2 * snd q))) (rev (concat (map (\<lambda>l. map (Pair l) [0..<inner l]) [0..<n])))"
proof (induction n)
  case (Suc n)
  then have n: "n < H" by simp
  have npl: "npl (Suc n) = 2 * inner n" by (rule npl_inner [OF n])
  have "map (\<lambda>k. let i = npl (Suc n) - 2 - 2 * k in (Suc n, i, base (Suc n) + i)) [0..<npl (Suc n) div 2]
      = map (\<lambda>q. (Suc (fst q), 2 * snd q, idx (Suc (fst q), 2 * snd q))) (rev (map (Pair n) [0..<inner n]))"
    by (rule nth_equalityI) (auto simp: npl rev_nth idx_def Let_def)
  with Suc show ?case by (simp add: base_Suc)
qed simp

lemma first_inner: "y \<in> set inners \<Longrightarrow> (fst y, 0) \<in> set inners \<and> ((fst y, 0) = y \<or> idx (fst y, 0) < idx y)"
  by (cases y) (auto simp: in_inners idx_def)

lemma run_level_up:
  assumes split: "rev inners = as @ y # cs @ x # bs" and run: "\<forall>z\<in>set (y # cs). \<not> flush z" and e: "flush (fst y, 0)"
  shows "fst x = fst y" and "snd x < snd y"
proof -
  have mem: "y \<in> set inners" "x \<in> set inners" using split by (auto simp flip: set_rev [of inners])
  note f = first_inner [OF mem(1)]
  have sorted: "sorted_wrt (\<lambda>a b. idx b < idx a) (rev inners)" using inners_sorted by (simp add: sorted_wrt_rev)
  note r = run_before [OF split run sorted, of "(fst y, 0)", OF _ _ e]
  have b: "idx x < idx y" "(fst y, 0) = x \<or> idx (fst y, 0) < idx x" using r f by auto
  then have "fst x \<le> fst y \<and> fst (fst y, 0) \<le> fst x"
    using level_mono [of x y] level_mono [of "(fst y, 0)" x] inners_nodes [OF mem(1)] inners_nodes [OF mem(2)] inners_nodes [OF conjunct1 [OF f]] by auto
  then show "fst x = fst y" by simp
  then show "snd x < snd y" using b by (simp add: idx_def)
qed

end

lemma merkle_steps_eq: "merkle_steps p = map (step_at p) (rev (tree.inners p))"
  using tree.level_pair_steps_eq [of "tree_height p" p]
  by (simp add: merkle_steps_def leaf_start step_at_def [abs_def] tree.inners_levels)

section \<open>The queue of pairs\<close>

type_synonym pair_job = "nat \<times> nat"   \<comment> \<open>position of the pair and of its parent\<close>

definition pair_jobs :: "hash_queue \<Rightarrow> pair_job list" where
  "pair_jobs q = map (\<lambda>k. (in_pos_queue q ! k, hash_pos_queue q ! k)) [0..<to_hash q]"

fun put_digest :: "cross_params \<Rightarrow> pair_job \<Rightarrow> bytes list \<Rightarrow> bytes list" where
  "put_digest p (pos, parent) tree = tree[parent := hash p (pair_at tree pos) HASH_DOMAIN_SEP_CONST]"

definition exec_pairs :: "cross_params \<Rightarrow> pair_job list \<Rightarrow> bytes list \<Rightarrow> bytes list" where
  \<comment> \<open>all digests over the nodes before the first is stored\<close>
  "exec_pairs p queue tree =
     foldl (\<lambda>t (parent, digest). t[parent := digest]) tree (map (\<lambda>(pos, parent). (parent, hash p (pair_at tree pos) HASH_DOMAIN_SEP_CONST)) queue)"

definition hqueue_ok :: "hash_queue \<Rightarrow> bool" where
  "hqueue_ok q \<longleftrightarrow> to_hash q \<le> 4 \<and> length (in_pos_queue q) = 4 \<and> length (hash_pos_queue q) = 4"

lemma init_hash_queue_ok [simp]: "hqueue_ok init_hash_queue" "pair_jobs init_hash_queue = []" "to_hash init_hash_queue = 0"
  by (simp_all add: hqueue_ok_def init_hash_queue_def pair_jobs_def)

lemma enqueue_pair_ok:
  assumes "hqueue_ok q" and "to_hash q < 4"
  shows "hqueue_ok (enqueue_pair q c f)" and "to_hash (enqueue_pair q c f) = Suc (to_hash q)"
    and "pair_jobs (enqueue_pair q c f) = pair_jobs q @ [(c, f)]"
  using assms by (simp_all add: hqueue_ok_def enqueue_pair_def Let_def pair_jobs_def)

lemma length_pair_jobs [simp]: "length (pair_jobs q) = to_hash q"
  by (simp add: pair_jobs_def)

lemma hash_emptied [simp]: "hqueue_ok q \<Longrightarrow> hqueue_ok (q\<lparr>to_hash := 0\<rparr>)" "pair_jobs (q\<lparr>to_hash := 0\<rparr>) = []"
  by (simp_all add: hqueue_ok_def pair_jobs_def)

definition digests_ok :: "cross_params \<Rightarrow> bytes list \<Rightarrow> bool" where
  "digests_ok p t \<longleftrightarrow> length t = NUM_NODES_TREE p \<and> (\<forall>x\<in>set t. length x = HASH_DIGEST_LENGTH p)"

definition pairs_inside :: "cross_params \<Rightarrow> hash_queue \<Rightarrow> bool" where
  "pairs_inside p q \<longleftrightarrow> (\<forall>j\<in>set (pair_jobs q). fst j + 1 < NUM_NODES_TREE p)"

lemma hash_queued_eq:
  assumes ok: "hqueue_ok q" and t: "digests_ok p t" and inside: "pairs_inside p q"
  shows "hash_queued p u t q = (exec_pairs p (pair_jobs q) t, q\<lparr>to_hash := 0\<rparr>)"
proof -
  let ?l = "to_hash q" and ?C = HASH_DOMAIN_SEP_CONST and ?n = "2 * HASH_DIGEST_LENGTH p"
  let ?ins = "[pair_at t (in_pos_queue q ! 0), pair_at t (in_pos_queue q ! 1), pair_at t (in_pos_queue q ! 2), pair_at t (in_pos_queue q ! 3)]"
  define ds where "ds = hash_par p u ?l (pair_at t (in_pos_queue q ! 0)) (pair_at t (in_pos_queue q ! 1)) (pair_at t (in_pos_queue q ! 2)) (pair_at t (in_pos_queue q ! 3))
      ?n ?C ?C ?C ?C"
  have l: "?l \<le> 4" using ok by (simp add: hqueue_ok_def)
  have same: "?ins ! k = pair_at t (in_pos_queue q ! k)" "[?C, ?C, ?C, ?C] ! k = ?C" if "k < 4" for k
    using that by (auto simp: less_4)
  have len: "length (pair_at t (in_pos_queue q ! k)) = ?n" if "k < ?l" for k
  proof -
    have "in_pos_queue q ! k + 1 < length t" using inside that t by (simp add: pairs_inside_def pair_jobs_def digests_ok_def)
    then have "length (t ! (in_pos_queue q ! k)) = HASH_DIGEST_LENGTH p" "length (t ! (in_pos_queue q ! k + 1)) = HASH_DIGEST_LENGTH p"
      using t by (simp_all add: digests_ok_def)
    then show ?thesis by (simp add: pair_at_def)
  qed
  have ds: "ds = map (\<lambda>k. hash p (pair_at t (in_pos_queue q ! k)) ?C) [0..<?l]"
  proof (cases "?l = 0")
    case False
    have "?n \<le> length (?ins ! k)" if "k < ?l" for k using same(1) [of k] len [OF that] l that by simp
    then have "ds = map (\<lambda>k. hash p (take ?n (?ins ! k)) ([?C, ?C, ?C, ?C] ! k)) [0..<?l]"
      unfolding ds_def using False l par_lengths(3) [of p] by (intro hash_par_single) simp_all
    also have "\<dots> = map (\<lambda>k. hash p (pair_at t (in_pos_queue q ! k)) ?C) [0..<?l]"
      using same len l by (intro map_cong) simp_all
    finally show ?thesis .
  qed (simp add: ds_def)
  have "zip (hash_pos_queue q) ds = map (\<lambda>(pos, parent). (parent, hash p (pair_at t pos) ?C)) (pair_jobs q)"
    using l ok by (intro nth_equalityI) (simp_all add: ds pair_jobs_def hqueue_ok_def)
  then show ?thesis unfolding hash_queued_def Let_def exec_pairs_def ds_def [symmetric] by simp
qed

lemma foldl_stores_nth:
  "n \<notin> fst ` set ps \<Longrightarrow> foldl (\<lambda>t (parent, digest). t[parent := digest]) t ps ! n = t ! n"
  by (induction ps arbitrary: t) auto

lemma exec_pairs_sequential:
  assumes "sorted_wrt (\<lambda>j j'. snd j \<noteq> fst j' \<and> snd j \<noteq> fst j' + 1) queue"
  shows "exec_pairs p queue t = foldl (\<lambda>t j. put_digest p j t) t queue"
  using assms
proof (induction queue rule: rev_induct)
  case (snoc j queue)
  obtain pos parent where j: "j = (pos, parent)" by (cases j)
  have IH: "exec_pairs p queue t = foldl (\<lambda>t j. put_digest p j t) t queue"
    and apart: "\<And>i. i \<in> set queue \<Longrightarrow> snd i \<noteq> pos \<and> snd i \<noteq> pos + 1"
    using snoc by (auto simp: sorted_wrt_append j)
  have "pair_at (exec_pairs p queue t) pos = pair_at t pos"
    unfolding pair_at_def exec_pairs_def by (subst (1 2) foldl_stores_nth) (auto simp: image_iff dest!: apart)
  then show ?case unfolding j foldl_append IH [symmetric] by (simp add: exec_pairs_def)
qed (simp add: exec_pairs_def)

section \<open>The pairs of one run\<close>

definition at_left_end :: "nat \<times> nat \<times> nat \<Rightarrow> bool" where
  "at_left_end = (\<lambda>(level, i, node). i = 0)"

definition job_of :: "cross_params \<Rightarrow> nat \<times> nat \<times> nat \<Rightarrow> pair_job" where
  "job_of p = (\<lambda>(level, i, node). (node, parent_node p level node))"

definition step_job :: "cross_params \<Rightarrow> nat \<times> nat \<times> nat \<Rightarrow> pair_job \<Rightarrow> bool" where
  "step_job p x j \<longleftrightarrow> x \<in> set (merkle_steps p) \<and> j = job_of p x"

lemma job_of_step: "(l, k) \<in> set (tree.inners p) \<Longrightarrow> job_of p (step_at p (l, k)) = (tree.idx p (Suc l, 2 * k), tree.idx p (l, k))"
  by (simp add: job_of_def step_at_def pair_nodes)

lemma merkle_run:
  assumes "same_run at_left_end (merkle_steps p) y x"
  obtains l k k' where "y = step_at p (l, k)" and "x = step_at p (l, k')" and "(l, k) \<in> set (tree.inners p)"
    and "(l, k') \<in> set (tree.inners p)" and "k' < k"
proof -
  obtain y' x' as cs bs where y: "y = step_at p y'" and x: "x = step_at p x'" and s: "rev (tree.inners p) = as @ y' # cs @ x' # bs"
    and r: "\<forall>z\<in>set (y' # cs). \<not> at_left_end (step_at p z)"
    using assms unfolding merkle_steps_eq by (rule same_run_map)
  have e: "at_left_end (step_at p (fst y', 0))" by (simp add: at_left_end_def step_at_def)
  note lv = tree.run_level_up [OF s r e]
  have "y' \<in> set (rev (tree.inners p))" "x' \<in> set (rev (tree.inners p))" unfolding s by simp_all
  then show thesis using that [of "fst y'" "snd y'" "snd x'"] y x lv by (metis prod.collapse set_rev)
qed

lemma pairs_apart:
  assumes "(l, k) \<in> set (tree.inners p)" and "(l, k') \<in> set (tree.inners p)" and "k' < k"
  shows "tree.idx p (l, k) \<noteq> tree.idx p (Suc l, 2 * k')" "tree.idx p (l, k) \<noteq> tree.idx p (Suc l, 2 * k') + 1"
    and "tree.idx p (Suc l, 2 * k') + 1 < tree.idx p (Suc l, 2 * k)"
  using tree.idx_bounds [OF tree.inners_nodes [OF assms(1)]] assms(3) by (simp_all add: tree.idx_def)

lemma merkle_run_jobs:
  assumes "same_run at_left_end (merkle_steps p) y x" and "step_job p y j" and "step_job p x j'"
  shows "snd j \<noteq> fst j' \<and> snd j \<noteq> fst j' + 1"
  by (rule merkle_run [OF assms(1)]) (use assms(2,3) pairs_apart in \<open>auto simp: step_job_def job_of_step\<close>)

lemma merkle_exec:
  assumes "sorted_wrt (\<lambda>j j'. \<exists>y x. same_run at_left_end (merkle_steps p) y x \<and> step_job p y j \<and> step_job p x j') queue"
  shows "exec_pairs p queue t = put_all (put_digest p) queue t"
  unfolding put_all_def
proof (rule exec_pairs_sequential)
  show "sorted_wrt (\<lambda>j j'. snd j \<noteq> fst j' \<and> snd j \<noteq> fst j' + 1) queue"
    by (rule sorted_wrt_mono_rel [OF _ assms]) (use merkle_run_jobs in blast)
qed

lemma merkle_ends:
  assumes s: "merkle_steps p = as @ y # cs"
  shows "\<exists>z\<in>set (y # cs). at_left_end z"
proof -
  obtain as' y' cs' where y: "y = step_at p y'" and s': "rev (tree.inners p) = as' @ y' # cs'" and cs: "cs = map (step_at p) cs'"
    using s unfolding merkle_steps_eq by (auto simp: map_eq_append_conv)
  let ?e = "(fst y', 0)"
  have "y' \<in> set (rev (tree.inners p))" unfolding s' by simp
  then have e: "?e \<in> set (rev (tree.inners p))" "?e = y' \<or> tree.idx p ?e < tree.idx p y'"
    using tree.first_inner [of y' p] by simp_all
  have sorted: "sorted_wrt (\<lambda>a b. tree.idx p b < tree.idx p a) (rev (tree.inners p))"
    using tree.inners_sorted by (simp add: sorted_wrt_rev)
  have "?e \<in> set (y' # cs')" by (rule end_after [OF sorted _ s' e]) simp
  moreover have "set (y # cs) = step_at p ` set (y' # cs')" by (simp add: y cs)
  ultimately have "step_at p ?e \<in> set (y # cs)" by blast
  then show ?thesis by (rule bexI [rotated]) (simp add: at_left_end_def step_at_def)
qed

section \<open>The root\<close>

definition root_act :: "cross_params \<Rightarrow> bytes list \<Rightarrow> nat \<times> nat \<times> nat \<Rightarrow> (bytes list \<times> pair_job option) option" where
  "root_act p t x = Some (t, Some (job_of p x))"

interpretation root_batch: batching "root_act p" "put_digest p" "exec_pairs p" at_left_end "merkle_steps p" "step_job p"
  for p
proof
  fix queue :: "pair_job list" and s
  assume "sorted_wrt (\<lambda>j j'. \<exists>y x. same_run at_left_end (merkle_steps p) y x \<and> step_job p y j \<and> step_job p x j') queue"
  then show "exec_pairs p queue s = foldl (\<lambda>s j. put_digest p j s) s queue"
    using merkle_exec [of p queue s] by (simp add: put_all_def)
qed (use merkle_ends in \<open>auto simp: root_act_def step_job_def\<close>)

definition hqueued :: "cross_params \<Rightarrow> bytes list \<times> hash_queue \<Rightarrow> bytes list \<times> pair_job list \<Rightarrow> bool" where
  "hqueued p = (\<lambda>(t, q) (t', jobs). t' = t \<and> digests_ok p t \<and> hqueue_ok q \<and> pairs_inside p q \<and> to_hash q < 4 \<and> jobs = pair_jobs q)"

lemma digests_ok_update: "digests_ok p t \<Longrightarrow> length x = HASH_DIGEST_LENGTH p \<Longrightarrow> digests_ok p (t[k := x])"
  using set_update_subset_insert [of t k x] by (auto simp: digests_ok_def)

lemma digests_ok_stores:
  "\<forall>x\<in>set ps. length (snd x) = HASH_DIGEST_LENGTH p \<Longrightarrow> digests_ok p t \<Longrightarrow> digests_ok p (foldl (\<lambda>t (k, x). t[k := x]) t ps)"
  by (induction ps arbitrary: t) (auto simp: digests_ok_update)

lemma digests_ok_exec: "digests_ok p t \<Longrightarrow> digests_ok p (exec_pairs p queue t)"
  unfolding exec_pairs_def by (rule digests_ok_stores) auto

lemma step_inside: "(l, k) \<in> set (tree.inners p) \<Longrightarrow> tree.idx p (Suc l, 2 * k) + 1 < NUM_NODES_TREE p"
  using tree.child_idx(2) [of l k p] by (simp add: tree_size tree.idx_def)

lemma flush_pairs:
  assumes q: "hqueue_ok q" "pairs_inside p q" and t: "digests_ok p t"
  shows "hqueued p (if to_hash q = 4 \<or> b then hash_queued p u t q else (t, q))
    (if length (pair_jobs q) = 4 \<or> b then (exec_pairs p (pair_jobs q) t, []) else (t, pair_jobs q))"
proof -
  have "pairs_inside p (q\<lparr>to_hash := 0\<rparr>)" by (simp add: pairs_inside_def)
  then show ?thesis
    using q t digests_ok_exec [OF t] by (auto simp: hqueued_def hash_queued_eq [OF q(1) t q(2)] hqueue_ok_def)
qed

lemma enqueued:
  assumes "hqueued p (t, q) (t', jobs)" and "x \<in> set (merkle_steps p)" and "job_of p x = (c, f)"
  shows "hqueue_ok (enqueue_pair q c f)" and "pairs_inside p (enqueue_pair q c f)" and "pair_jobs (enqueue_pair q c f) = jobs @ [job_of p x]"
proof -
  obtain l k where "x = step_at p (l, k)" "(l, k) \<in> set (tree.inners p)" using assms(2) by (auto simp: merkle_steps_eq)
  then have "c + 1 < NUM_NODES_TREE p" using assms(3) step_inside [of l k p] by (auto simp: job_of_step)
  then show "hqueue_ok (enqueue_pair q c f)" "pairs_inside p (enqueue_pair q c f)" "pair_jobs (enqueue_pair q c f) = jobs @ [job_of p x]"
    using assms enqueue_pair_ok [of q c f] by (auto simp: hqueued_def pairs_inside_def)
qed

lemma root_pair_queued:
  assumes x: "x \<in> set (merkle_steps p)" and R: "hqueued p c a"
  shows "rel_option (hqueued p) (Some (root_pair_x4 p u c x)) (batch_step (root_act p) (exec_pairs p) at_left_end a x)"
proof -
  obtain t q where c: "c = (t, q)" by (cases c)
  obtain jobs where a: "a = (t, jobs)" using R c by (cases a) (auto simp: hqueued_def)
  obtain level i node where x': "x = (level, i, node)" by (cases x)
  note enq = enqueued [OF R [unfolded c a] x, of "fst (job_of p x)" "snd (job_of p x)", unfolded prod.collapse, OF refl]
  let ?q = "enqueue_pair q (fst (job_of p x)) (snd (job_of p x))"
  have t: "digests_ok p t" using R by (simp add: hqueued_def c a)
  have "root_pair_x4 p u c x = (if to_hash ?q = 4 \<or> at_left_end x then hash_queued p u t ?q else (t, ?q))"
    by (simp add: root_pair_x4_def c x' at_left_end_def job_of_def Let_def)
  moreover have "batch_step (root_act p) (exec_pairs p) at_left_end a x =
      Some (if length (pair_jobs ?q) = 4 \<or> at_left_end x then (exec_pairs p (pair_jobs ?q) t, []) else (t, pair_jobs ?q))"
    by (simp only: batch_step_def root_act_def a enq(3) prod.case option.case Let_def if_distrib [of Some])
  ultimately show ?thesis using flush_pairs [OF enq(1,2) t, of "at_left_end x" u] by simp
qed

lemma place_digests:
  assumes "digests_ok p t" and "\<And>x. x \<in> set leaves \<Longrightarrow> length x = HASH_DIGEST_LENGTH p"
  shows "digests_ok p (place_cmt_on_leaves p t leaves)"
  unfolding place_cmt_on_leaves_def by (rule digests_ok_stores) (use assms in \<open>auto dest: set_zip_rightD\<close>)

theorem tree_root_same:
  assumes t: "digests_ok p t" and leaves: "\<And>x. x \<in> set leaves \<Longrightarrow> length x = HASH_DIGEST_LENGTH p"
  shows "tree_root_x4 p u t leaves = tree_root p t leaves"
proof -
  let ?t = "place_cmt_on_leaves p t leaves"
  have "rel_option (hqueued p) (foldM (\<lambda>s x. Some (root_pair_x4 p u s x)) (?t, init_hash_queue) (merkle_steps p))
      (foldM (batch_step (root_act p) (exec_pairs p) at_left_end) (?t, []) (merkle_steps p))"
    by (rule foldM_simulation [OF root_pair_queued]) (use place_digests [OF t leaves] in \<open>simp_all add: hqueued_def pairs_inside_def\<close>)
  moreover have "foldM (direct_step (root_act p) (put_digest p)) ?t (merkle_steps p) = Some (snd (tree_root p t leaves))"
  proof -
    have "direct_step (root_act p) (put_digest p) =
        (\<lambda>s x. Some (s[parent_node p (fst x) (snd (snd x)) := hash p (s ! snd (snd x) @ s ! (snd (snd x) + 1)) HASH_DOMAIN_SEP_CONST]))"
      by (auto simp: direct_step_def root_act_def job_of_def pair_at_def fun_eq_iff)
    then have "foldM (direct_step (root_act p) (put_digest p)) ?t (merkle_steps p) =
        Some (foldl (\<lambda>s x. s[parent_node p (fst x) (snd (snd x)) := hash p (s ! snd (snd x) @ s ! (snd (snd x) + 1)) HASH_DOMAIN_SEP_CONST]) ?t (merkle_steps p))"
      by (simp only: foldM_total)
    moreover have "merkle_pairs p = map (\<lambda>(level, i, node). (level, node)) (merkle_steps p)"
      by (simp only: merkle_pairs_def merkle_steps_def level_pair_steps_pairs)
    ultimately show ?thesis by (simp add: tree_root_def Let_def foldl_map split_beta)
  qed
  ultimately show ?thesis
    unfolding root_batch.batched foldM_total by (auto simp: hqueued_def tree_root_x4_def tree_root_def Let_def split_beta)
qed

section \<open>The root from a proof\<close>

definition recompute_act :: "cross_params \<Rightarrow> bytes \<Rightarrow> recompute_state \<Rightarrow> nat \<times> nat \<times> nat \<Rightarrow> (recompute_state \<times> pair_job option) option" where
  "recompute_act p mtp = (\<lambda>(tree, flag_tree, published) (level, i, node).
     if flag_tree ! node = NOT_COMPUTED \<and> flag_tree ! SIBLING node = NOT_COMPUTED then Some ((tree, flag_tree, published), None)
     else map_option (\<lambda>(tree, published). ((tree, flag_tree[parent_node p level node := COMPUTED], published), Some (job_of p (level, i, node))))
       (Option.bind (load_node p flag_tree mtp node node (tree, published)) (load_node p flag_tree mtp (SIBLING node) (node + 1))))"

definition put_tree :: "('j \<Rightarrow> bytes list \<Rightarrow> bytes list) \<Rightarrow> 'j \<Rightarrow> recompute_state \<Rightarrow> recompute_state" where
  "put_tree put j = (\<lambda>(tree, flag_tree, published). (put j tree, flag_tree, published))"

lemma put_digest_elsewhere:
  assumes "fst j \<noteq> n" and "fst j + 1 \<noteq> n" and "snd j \<noteq> n"
  shows "put_digest p j (t[n := d]) = (put_digest p j t)[n := d]"
  using assms by (cases j) (auto simp: pair_at_def list_update_swap)

lemma load_node_put:
  assumes "fst j \<noteq> pos" and "fst j + 1 \<noteq> pos" and "snd j \<noteq> pos"
  shows "load_node p fl mtp node pos (put_digest p j t, n) = map_option (\<lambda>(t, n). (put_digest p j t, n)) (load_node p fl mtp node pos (t, n))"
  using put_digest_elsewhere [OF assms] by (auto simp: load_node_def split: option.split)

lemma put_all_tree: "put_all (put_tree put) queue (t, fl, n) = (put_all put queue t, fl, n)"
  by (induction queue arbitrary: t) (simp_all add: put_all_def put_tree_def)

interpretation recompute_batch: batching "recompute_act p mtp" "put_tree (put_digest p)" "put_tree (exec_pairs p)" at_left_end "merkle_steps p" "step_job p"
  for p mtp
proof
  fix x s s' j assume "x \<in> set (merkle_steps p)" "recompute_act p mtp s x = Some (s', Some j)"
  then show "step_job p x j" by (auto simp: recompute_act_def step_job_def split: if_splits prod.splits)
next
  fix y x j and s :: recompute_state assume run: "same_run at_left_end (merkle_steps p) y x" and j: "step_job p y j"
  obtain l k k' where y: "y = step_at p (l, k)" and x: "x = step_at p (l, k')" and q: "(l, k) \<in> set (tree.inners p)"
    and q': "(l, k') \<in> set (tree.inners p)" "k' < k" using run by (rule merkle_run)
  let ?n = "tree.idx p (Suc l, 2 * k')"
  have jv: "fst j = tree.idx p (Suc l, 2 * k)" "snd j = tree.idx p (l, k)" using j by (simp_all add: step_job_def y job_of_step q)
  have a: "fst j \<noteq> ?n" "fst j + 1 \<noteq> ?n" "snd j \<noteq> ?n" and b: "fst j \<noteq> ?n + 1" "fst j + 1 \<noteq> ?n + 1" "snd j \<noteq> ?n + 1"
    using pairs_apart [OF q q'] unfolding jv by simp_all
  obtain t fl n where s: "s = (t, fl, n)" by (cases s)
  show "recompute_act p mtp (put_tree (put_digest p) j s) x = map_option (\<lambda>(s', job). (put_tree (put_digest p) j s', job)) (recompute_act p mtp s x)"
    using load_node_put [OF a, of p fl mtp ?n t n] load_node_put [OF b, of p fl mtp "SIBLING ?n"]
    by (cases "load_node p fl mtp ?n ?n (t, n)")
      (auto simp: recompute_act_def s x step_at_def put_tree_def option.map_comp comp_def split_beta)
next
  fix queue :: "pair_job list" and s :: recompute_state
  assume "sorted_wrt (\<lambda>j j'. \<exists>y x. same_run at_left_end (merkle_steps p) y x \<and> step_job p y j \<and> step_job p x j') queue"
  from merkle_exec [OF this] show "put_tree (exec_pairs p) queue s = foldl (\<lambda>s j. put_tree (put_digest p) j s) s queue"
    using put_all_tree [of "put_digest p" queue "fst s" "fst (snd s)" "snd (snd s)"]
    by (simp add: put_all_def [of "put_tree (put_digest p)"] put_tree_def split_beta)
qed (use merkle_ends in auto)

definition hqueued3 :: "cross_params \<Rightarrow> recompute_state \<times> hash_queue \<Rightarrow> recompute_state \<times> pair_job list \<Rightarrow> bool" where
  "hqueued3 p = (\<lambda>((t, fl, n), q) ((t', fl', n'), jobs). fl' = fl \<and> n' = n \<and> hqueued p (t, q) (t', jobs))"

lemma load_node_ok:
  assumes "load_node p fl mtp node pos (t, n) = Some (t', n')" and "digests_ok p t"
  shows "digests_ok p t'"
proof -
  have "length x = HASH_DIGEST_LENGTH p" if "load_at m (HASH_DIGEST_LENGTH p) mtp = Some x" for m x
    using that by (auto simp: load_at_def split: if_splits)
  then show ?thesis using assms by (auto simp: load_node_def digests_ok_update split: if_splits option.splits)
qed

lemma recompute_pair_queued:
  assumes x: "x \<in> set (merkle_steps p)" and R: "hqueued3 p c a"
  shows "rel_option (hqueued3 p) (recompute_pair_x4 p u mtp c x) (batch_step (recompute_act p mtp) (put_tree (exec_pairs p)) at_left_end a x)"
proof -
  obtain t fl n q where c: "c = ((t, fl, n), q)" by (cases c) auto
  obtain jobs where a: "a = ((t, fl, n), jobs)" and Q: "hqueued p (t, q) (t, jobs)" using R c by (cases a) (auto simp: hqueued3_def hqueued_def)
  obtain level i node where x': "x = (level, i, node)" by (cases x)
  note enq = enqueued [OF Q x, of "fst (job_of p x)" "snd (job_of p x)", unfolded prod.collapse, OF refl]
  define after :: "recompute_state \<Rightarrow> hash_queue \<Rightarrow> recompute_state \<times> hash_queue" where "after = (\<lambda>(t, fl, n) q. if to_hash q = 4 \<or> i = 0 then let (t, q) = hash_queued p u t q in ((t, fl, n), q) else ((t, fl, n), q))"
  define batch :: "recompute_state \<Rightarrow> pair_job list \<Rightarrow> recompute_state \<times> pair_job list" where "batch = (\<lambda>s queue. if length queue = 4 \<or> at_left_end x then (put_tree (exec_pairs p) queue s, []) else (s, queue))"
  have flushed: "hqueued3 p (after (t', fl', n') q') (batch (t', fl', n') (pair_jobs q'))"
    if "hqueue_ok q'" "pairs_inside p q'" "digests_ok p t'" for t' fl' n' q'
    using flush_pairs [OF that, of "at_left_end x" u]
    by (auto simp: after_def batch_def hqueued3_def put_tree_def at_left_end_def x' split_beta split: if_splits)
  show ?thesis
  proof (cases "fl ! node = NOT_COMPUTED \<and> fl ! SIBLING node = NOT_COMPUTED")
    case True
    then have "recompute_pair_x4 p u mtp c x = Some (after (t, fl, n) q)"
      by (simp add: recompute_pair_x4_def c x' after_def Let_def split_beta)
    moreover have "batch_step (recompute_act p mtp) (put_tree (exec_pairs p)) at_left_end a x = Some (batch (t, fl, n) (pair_jobs q))"
      using True Q by (simp add: batch_step_def recompute_act_def a x' batch_def hqueued_def)
    ultimately show ?thesis using flushed [of q t fl n] Q by (simp add: hqueued_def)
  next
    case False
    let ?q = "enqueue_pair q (fst (job_of p x)) (snd (job_of p x))"
    let ?loads = "Option.bind (load_node p fl mtp node node (t, n)) (load_node p fl mtp (SIBLING node) (node + 1))"
    let ?fl = "fl[parent_node p level node := COMPUTED]"
    have X: "recompute_pair_x4 p u mtp c x = map_option (\<lambda>(t, n). after (t, ?fl, n) ?q) ?loads"
      using False unfolding recompute_pair_x4_def c x' after_def Let_def
      by (cases "load_node p fl mtp node node (t, n)") (auto simp: job_of_def split_beta split: option.split)
    have B: "batch_step (recompute_act p mtp) (put_tree (exec_pairs p)) at_left_end a x = map_option (\<lambda>(t, n). batch (t, ?fl, n) (jobs @ [job_of p x])) ?loads"
      using False unfolding batch_step_def recompute_act_def a x' batch_def Let_def
      by (cases ?loads) (auto simp: split_beta)
    show ?thesis
    proof (cases ?loads)
      case None
      then show ?thesis unfolding X B by simp
    next
      case (Some tn)
      obtain t' n' where tn: "tn = (t', n')" by (cases tn)
      obtain t1 n1 where l: "load_node p fl mtp node node (t, n) = Some (t1, n1)" "load_node p fl mtp (SIBLING node) (node + 1) (t1, n1) = Some (t', n')"
        using Some tn by (auto simp: bind_eq_Some_conv)
      have "digests_ok p t" using Q by (simp add: hqueued_def)
      then have t': "digests_ok p t'" using load_node_ok [OF l(2)] load_node_ok [OF l(1)] by blast
      show ?thesis unfolding X B Some tn using flushed [OF enq(1,2) t', of ?fl n'] by (simp add: enq(3))
    qed
  qed
qed

text \<open>
  Copying the nodes of the proof into the tree makes no difference to the nodes that
  are flagged as computed.
\<close>

definition agree :: "cross_params \<Rightarrow> recompute_state \<Rightarrow> recompute_state \<Rightarrow> bool" where
  "agree p = (\<lambda>(t, fl, n) (t', fl', n'). fl' = fl \<and> n' = n \<and> length t = NUM_NODES_TREE p \<and> length t' = NUM_NODES_TREE p \<and>
     length fl = NUM_NODES_TREE p \<and> (\<forall>k<NUM_NODES_TREE p. fl ! k = COMPUTED \<longrightarrow> t ! k = t' ! k))"

lemma load_take:
  assumes "load_node p fl mtp node node (t, n) = Some (t1, n1)" and "take_node p t' fl mtp node n = Some (x, n2)"
    and "fl ! node = COMPUTED \<Longrightarrow> t ! node = t' ! node" and "node < length t"
  shows "n1 = n2" and "t1 ! node = x" and "\<And>k. k \<noteq> node \<or> fl ! k = COMPUTED \<Longrightarrow> t1 ! k = t ! k" and "length t1 = length t"
  using assms by (auto simp: load_node_def take_node_def split: if_splits option.splits)

lemma load_take_None: "load_node p fl mtp node node (t, n) = None \<longleftrightarrow> take_node p t' fl mtp node n = None"
  by (auto simp: load_node_def take_node_def split: if_splits option.splits)

lemma recompute_agree:
  assumes q: "(l, k) \<in> set (tree.inners p)" and A: "agree p s s'"
  shows "rel_option (agree p) (direct_step (recompute_act p mtp) (put_tree (put_digest p)) s (step_at p (l, k)))
    (recompute_pair p mtp s' (Suc l, tree.idx p (Suc l, 2 * k)))"
proof -
  obtain t fl n where s: "s = (t, fl, n)" by (cases s)
  obtain t' where s': "s' = (t', fl, n)" using A s by (cases s') (auto simp: agree_def)
  let ?a = "tree.idx p (Suc l, 2 * k)" and ?f = "tree.idx p (l, k)"
  have node: "parent_node p (Suc l) ?a = ?f" "SIBLING ?a = Suc ?a" using pair_nodes [OF q] by simp_all
  have lt: "?a < NUM_NODES_TREE p" "Suc ?a < NUM_NODES_TREE p" "?f < NUM_NODES_TREE p"
    using step_inside [OF q] tree.idx_lt [OF tree.inners_nodes [OF q]] by (simp_all add: tree_size)
  have lens: "length t = NUM_NODES_TREE p" "length t' = NUM_NODES_TREE p" "length fl = NUM_NODES_TREE p"
    and same: "\<And>k. k < NUM_NODES_TREE p \<Longrightarrow> fl ! k = COMPUTED \<Longrightarrow> t ! k = t' ! k" using A by (simp_all add: agree_def s s')
  show ?thesis
  proof (cases "fl ! ?a = NOT_COMPUTED \<and> fl ! Suc ?a = NOT_COMPUTED")
    case True
    then show ?thesis using A by (simp add: direct_step_def recompute_act_def recompute_pair_def step_at_def s s' node)
  next
    case used: False
    show ?thesis
    proof (cases "take_node p t' fl mtp ?a n")
      case None
      then show ?thesis using used load_take_None [of p fl mtp ?a t n t']
        by (auto simp: direct_step_def recompute_act_def recompute_pair_def step_at_def s s' node)
    next
      case (Some left)
      obtain x n1 where x: "take_node p t' fl mtp ?a n = Some (x, n1)" using Some by (cases left) auto
      then obtain t1 where t1: "load_node p fl mtp ?a ?a (t, n) = Some (t1, n1)"
        using load_take_None [of p fl mtp ?a t n t'] load_take(1) [OF _ x, of t] same lt lens by (cases "load_node p fl mtp ?a ?a (t, n)") auto
      note one = load_take [OF t1 x same [OF lt(1)] lt(1) [folded lens(1)]]
      have same1: "fl ! Suc ?a = COMPUTED \<Longrightarrow> t1 ! Suc ?a = t' ! Suc ?a" using one(3) same lt(2) by simp
      show ?thesis
      proof (cases "take_node p t' fl mtp (Suc ?a) n1")
        case None
        then show ?thesis using used x t1 load_take_None [of p fl mtp "Suc ?a" t1 n1 t']
          by (auto simp: direct_step_def recompute_act_def recompute_pair_def step_at_def s s' node)
      next
        case (Some right)
        obtain y n2 where y: "take_node p t' fl mtp (Suc ?a) n1 = Some (y, n2)" using Some by (cases right) auto
        have lt1: "Suc ?a < length t1" using one(4) lens lt by simp
        obtain t2 where t2: "load_node p fl mtp (Suc ?a) (Suc ?a) (t1, n1) = Some (t2, n2)"
          using load_take_None [of p fl mtp "Suc ?a" t1 n1 t'] load_take(1) [OF _ y, of t1] same1 lt1 y by (cases "load_node p fl mtp (Suc ?a) (Suc ?a) (t1, n1)") auto
        note two = load_take [OF t2 y same1 lt1]
        have D: "direct_step (recompute_act p mtp) (put_tree (put_digest p)) s (step_at p (l, k)) =
            Some (t2[?f := hash p (x @ y) HASH_DOMAIN_SEP_CONST], fl[?f := COMPUTED], n2)"
          using used t1 t2 one(2) two(2) two(3) [of ?a]
          by (auto simp: direct_step_def recompute_act_def step_at_def s node put_tree_def job_of_def pair_at_def)
        have Rf: "recompute_pair p mtp s' (Suc l, ?a) = Some (t'[?f := hash p (x @ y) HASH_DOMAIN_SEP_CONST], fl[?f := COMPUTED], n2)"
          using used x y by (auto simp: recompute_pair_def s' node)
        have "t2 ! k = t' ! k" if "k < NUM_NODES_TREE p" "fl ! k = COMPUTED" for k
          using same [OF that] one(3) [of k] two(3) [of k] that by simp
        then show ?thesis unfolding D Rf using lens one(4) two(4) lt(3) by (auto simp: agree_def nth_list_update)
      qed
    qed
  qed
qed

lemma recompute_flags:
  assumes ok: "challenge_ok p ind" and t: "length t0 = NUM_NODES_TREE p"
    and run: "foldM (recompute_pair p mtp) (t0, merkle_label_leaves p (replicate (NUM_NODES_TREE p) NOT_COMPUTED) ind, 0) (merkle_pairs p) = Some (t, fl, n)"
  shows "fl ! 0 = COMPUTED"
proof -
  have ind: "length ind = par_T p" using ok by (simp add: challenge_ok_def)
  let ?f = "\<lambda>s q. recompute_pair p mtp s (Suc (fst q), tree.idx p (Suc (fst q), 2 * snd q))"
  let ?s = "(t0, merkle_label_leaves p (replicate (NUM_NODES_TREE p) NOT_COMPUTED) ind, 0)"
  let ?P = "\<lambda>as. \<forall>t fl n. foldM ?f ?s as = Some (t, fl, n) \<longrightarrow> flags_after p ind as fl"
  have "?P (rev (tree.inners p))"
  proof (induction rule: tree.up_induct)
    case 1
    then show ?case using flags_start [OF ind] by simp
  next
    case (2 as l j bs)
    show ?case
    proof (intro allI impI)
      fix t fl n assume run: "foldM ?f ?s (as @ [(l, j)]) = Some (t, fl, n)"
      then obtain t1 fl1 n1 where r1: "foldM ?f ?s as = Some (t1, fl1, n1)" and step: "?f (t1, fl1, n1) (l, j) = Some (t, fl, n)"
        by (auto simp: foldM_append split: option.splits)
      have fa: "flags_after p ind as fl1" using 2(6) r1 by blast
      note ch = flags_children [OF fa 2(2) 2(5)]
      have c01: "computed p ind (Suc l) (2 * j) \<in> {0, 1}" "computed p ind (Suc l) (2 * j + 1) \<in> {0, 1}"
        using computed_01 [OF ind tree.child_node [OF 2(2), of 0]] computed_01 [OF ind tree.child_node [OF 2(2), of 1]] by simp_all
      have zero: "fl1 ! tree.idx p (l, j) = 0" using fa 2(2,3) tree.inners_nodes [OF 2(2)] by (simp add: flags_after_def)
      have "fl = fl1[tree.idx p (l, j) := computed p ind l j]"
      proof (cases "fl1 ! tree.idx p (Suc l, 2 * j) = 0 \<and> fl1 ! tree.idx p (Suc l, 2 * j + 1) = 0")
        case True
        then have "computed p ind l j = 0" "fl = fl1" using step ch computed_inner [OF 2(2), of ind] by (simp_all add: recompute_pair_def pair_nodes [OF 2(2)])
        then show ?thesis using zero by (metis list_update_id)
      next
        case False
        then have "computed p ind l j = 1" using ch c01 computed_inner [OF 2(2), of ind] by auto
        moreover have "fl = fl1[tree.idx p (l, j) := 1]"
          using step False by (auto simp: recompute_pair_def pair_nodes [OF 2(2)] split: option.splits prod.splits)
        ultimately show ?thesis by simp
      qed
      then show "flags_after p ind (as @ [(l, j)]) fl" using flags_set [OF fa 2(2)] by simp
    qed
  qed
  then have "flags_after p ind (rev (tree.inners p)) fl" using run unfolding merkle_pairs_eq foldM_map by blast
  then have "fl ! tree.idx p (0, 0) = computed p ind 0 0" using tree.root_node [of p] unfolding flags_after_def by (metis DiffD1 DiffD2 set_rev)
  then show ?thesis using root_computed [OF ok] by simp
qed

lemma stale_tree_ok: "digests_ok p (stale_tree p u)"
  unfolding digests_ok_def stale_tree_def by (auto dest: chunks_rows [rotated])

lemma node_at: "k < NUM_NODES_TREE p \<Longrightarrow> \<exists>q\<in>set (tree.nodes p). k = tree.idx p q"
  using tree.idx_nodes [of p] unfolding tree_size by (metis atLeastLessThan_iff imageE list.set_map set_upt zero_le)

lemma start_agree:
  assumes ok: "challenge_ok p ind" and leaves: "length leaves = par_T p" and t: "length t = NUM_NODES_TREE p" "length t' = NUM_NODES_TREE p"
  defines "fl \<equiv> merkle_label_leaves p (replicate (NUM_NODES_TREE p) NOT_COMPUTED) ind"
  shows "agree p (place_cmt_on_leaves p t leaves, fl, 0) (place_cmt_on_leaves p t' leaves, fl, 0)"
proof -
  have ind: "length ind = par_T p" using ok by (simp add: challenge_ok_def)
  have fa: "flags_after p ind [] fl" unfolding fl_def by (rule flags_start [OF ind])
  have "place_cmt_on_leaves p t leaves ! k = place_cmt_on_leaves p t' leaves ! k" if k: "k < NUM_NODES_TREE p" "fl ! k = COMPUTED" for k
  proof -
    obtain q where q: "q \<in> set (tree.nodes p)" "k = tree.idx p q" using node_at [OF k(1)] by blast
    obtain l j where lj: "q = (l, j)" by (cases q)
    have "q \<notin> set (tree.inners p)" using fa q k(2) unfolding flags_after_def lj by (auto split: if_splits)
    then have "(l, j) \<in> set (tree.leafpos p)" using q lj by (simp add: tree.in_leafpos)
    then obtain i where i: "i < par_T p" "tree.leafpos p ! i = (l, j)" by (rule leafposE)
    show ?thesis using place_nth(2) [OF leaves t(1) i(1)] place_nth(2) [OF leaves t(2) i(1)] i(2) q lj by simp
  qed
  then show ?thesis using place_nth(1) [OF leaves] t fa by (simp add: agree_def flags_after_def)
qed

theorem recompute_root_same:
  assumes ok: "challenge_ok p ind" and leaves: "length leaves = par_T p" "\<And>x. x \<in> set leaves \<Longrightarrow> length x = HASH_DIGEST_LENGTH p"
    and t: "length t = NUM_NODES_TREE p"
  shows "recompute_root_x4 p u leaves mtp ind = recompute_root p t leaves mtp ind"
proof -
  define fl where "fl = merkle_label_leaves p (replicate (NUM_NODES_TREE p) NOT_COMPUTED) ind"
  let ?t = "place_cmt_on_leaves p (stale_tree p u) leaves" and ?t' = "place_cmt_on_leaves p t leaves"
  let ?direct = "foldM (direct_step (recompute_act p mtp) (put_tree (put_digest p))) (?t, fl, 0) (merkle_steps p)"
  have sim: "rel_option (hqueued3 p) (foldM (recompute_pair_x4 p u mtp) ((?t, fl, 0), init_hash_queue) (merkle_steps p))
      (map_option (\<lambda>s. (s, [])) ?direct)"
    unfolding recompute_batch.batched [symmetric]
    by (rule foldM_simulation [OF recompute_pair_queued])
      (use place_digests [OF stale_tree_ok leaves(2)] in \<open>simp_all add: hqueued3_def hqueued_def pairs_inside_def\<close>)
  have "length (stale_tree p u) = NUM_NODES_TREE p" using stale_tree_ok by (simp add: digests_ok_def)
  note start = start_agree [OF ok leaves(1) this t, folded fl_def]
  have agr: "rel_option (agree p) ?direct (foldM (recompute_pair p mtp) (?t', fl, 0) (merkle_pairs p))"
    unfolding merkle_steps_eq merkle_pairs_eq foldM_map
    by (rule foldM_simulation [where R = "agree p"]) (use recompute_agree start in auto)
  show ?thesis
  proof (cases "foldM (recompute_pair p mtp) (?t', fl, 0) (merkle_pairs p)")
    case None
    then show ?thesis using agr sim by (simp add: recompute_root_x4_def recompute_root_def fl_def [symmetric])
  next
    case (Some s)
    obtain tr flr n where s: "s = (tr, flr, n)" by (cases s)
    have root: "flr ! 0 = COMPUTED" "0 < NUM_NODES_TREE p"
      using recompute_flags [OF ok place_nth(1) [OF leaves(1) t]] Some s tree.idx_lt [OF tree.root_node, of p] by (simp_all add: fl_def tree_size)
    obtain td where td: "?direct = Some (td, flr, n)" "td ! 0 = tr ! 0" using agr Some s root by (auto simp: agree_def option_rel_Some2)
    then obtain q where "foldM (recompute_pair_x4 p u mtp) ((?t, fl, 0), init_hash_queue) (merkle_steps p) = Some ((td, flr, n), q)"
      using sim by (auto simp: option_rel_Some2 hqueued3_def hqueued_def)
    then show ?thesis using Some s td(2) by (simp add: recompute_root_x4_def recompute_root_def fl_def [symmetric])
  qed
qed

end
