(* ===== verification/Arith_Avx2.thy ===== *)
theory Arith_Avx2
  imports Avx2 Zk_Algebra
begin

unbundle bit_operations_syntax

text \<open>
  The arithmetic of the optimised implementation
  (\<open>Optimized_Implementation/include/fp_arith.h\<close> and \<open>restr_arith.h\<close>). The products with
  the matrices run over registers of 16 lanes of 16 bits or 8 lanes of 32 bits and
  postpone the reductions; the response of RSDP is computed by a table lookup in the
  bytes of a register. The functions that are the reference implementation's word for
  word are not repeated.

  Every function is proved to give, after the normalisation that follows it in the
  scheme, the vector the reference implementation gives.
\<close>

type_synonym u16 = "16 word"
type_synonym u32 = "32 word"

section \<open>The code\<close>

definition pad_rows :: "nat \<Rightarrow> nat list list \<Rightarrow> nat \<Rightarrow> nat \<Rightarrow> 'a::len word list list" where
  \<comment> \<open>\<open>V_tr_avx\<close> and \<open>W_mat_avx\<close>: rows of \<open>width\<close> cells, zero past the columns of the matrix\<close>
  "pad_rows width A rows cols = map (\<lambda>i. write_at 0 (map (\<lambda>j. of_nat (A ! i ! j)) [0..<cols]) (replicate width 0)) [0..<rows]"

definition mersenne_mac :: "m256i \<Rightarrow> m256i \<Rightarrow> m256i \<Rightarrow> m256i" where
  \<comment> \<open>product, vector Mersenne reduction and sum\<close>
  "mersenne_mac e_coeff row_slice res_w =
     (let mred_mask = mm256_set1_epi16 0x007f;
          tmp = mm256_mullo_epi16 e_coeff row_slice;
          tmp2 = mm256_and_si256 tmp mred_mask;
          tmp = mm256_srli_epi16 tmp 7;
          tmp = mm256_add_epi16 tmp tmp2
      in mm256_add_epi16 res_w tmp)"

definition mac_rows_epi16 :: "(nat \<Rightarrow> nat) \<Rightarrow> u16 list list \<Rightarrow> nat \<Rightarrow> nat \<Rightarrow> u16 list \<Rightarrow> u16 list" where
  "mac_rows_epi16 coef rows k width res_dprec =
     foldl (\<lambda>res i. foldl (\<lambda>res j.
         let res_w = mm256_load res (j * 16);
             e_coeff = mm256_set1_epi16 (of_nat (coef i));
             row_slice = mm256_load (rows ! i) (j * 16)
         in mm256_store res (j * 16) (mersenne_mac e_coeff row_slice res_w)) res [0..<width div 16])
       res_dprec [0..<k]"

definition reduce_avx2_32 :: "m256i \<Rightarrow> m256i" where
  "reduce_avx2_32 a =
     (let b_shift = 18;
          b_mul = 2 ^ b_shift div par_P RSDPG;
          b_mul_32 = mm256_set1_epi32 (of_nat b_mul);
          p_32 = mm256_set1_epi32 (of_nat (par_P RSDPG));
          r = mm256_mullo_epi32 a b_mul_32;
          r = mm256_srli_epi32 r b_shift;
          r = mm256_mullo_epi32 r p_32;
          r = mm256_sub_epi32 a r;
          rs = mm256_sub_epi32 r p_32
      in mm256_min_epu32 r rs)"

definition mac_rows_epi32 :: "(nat \<Rightarrow> nat) \<Rightarrow> u32 list list \<Rightarrow> nat \<Rightarrow> nat \<Rightarrow> u32 list \<Rightarrow> u32 list" where
  "mac_rows_epi32 coef rows k width res_dprec =
     foldl (\<lambda>res i. foldl (\<lambda>res j.
         let e_coeff = mm256_set1_epi32 (of_nat (coef i));
             res_w = mm256_load res (j * 8);
             row_slice = mm256_load (rows ! i) (j * 8);
             a = mm256_mullo_epi32 e_coeff row_slice;
             res_w = mm256_add_epi32 res_w a;
             res_w = (if i = k div 3 \<or> i = k div 3 * 2 \<or> i = k - 1 then reduce_avx2_32 res_w else res_w)
         in mm256_store res (j * 8) res_w) res [0..<width div 8])
       res_dprec [0..<k]"

definition fp_vec_by_fp_matrix_avx :: "cross_params \<Rightarrow> nat list \<Rightarrow> nat list list \<Rightarrow> nat list" where
  \<comment> \<open>with the copy of the matrix the callers make\<close>
  "fp_vec_by_fp_matrix_avx p e V_tr =
     (let n = par_N p - par_K p; k = par_K p
      in case variant p of
           RSDP \<Rightarrow>
             let width = ROUND_UP n 16;
                 V_tr_avx = pad_rows width V_tr k n;
                 res_dprec = write_at 0 (map (\<lambda>i. of_nat (e ! (k + i))) [0..<n]) (replicate width 0);
                 res_dprec = mac_rows_epi16 (\<lambda>i. e ! i) V_tr_avx k width res_dprec
             in map (\<lambda>i. fp_store RSDP (FPRED_DOUBLE RSDP (unat (res_dprec ! i)))) [0..<n]
         | RSDPG \<Rightarrow>
             let width = ROUND_UP n 8;
                 V_tr_avx = pad_rows width V_tr k n;
                 res_dprec = write_at 0 (map (\<lambda>i. of_nat (e ! (k + i))) [0..<n]) (replicate width 0);
                 res_dprec = mac_rows_epi32 (\<lambda>i. e ! i) V_tr_avx k width res_dprec
             in map (\<lambda>i. fp_store RSDPG (unat (res_dprec ! i))) [0..<n])"

definition fz_inf_w_by_fz_matrix_avx :: "cross_params \<Rightarrow> nat list \<Rightarrow> nat list list \<Rightarrow> nat list" where
  "fz_inf_w_by_fz_matrix_avx p e W_mat =
     (let n = par_N p - par_M p; m = par_M p; width = ROUND_UP n 16;
          W_mat_avx = pad_rows width W_mat m n;
          res_dprec = mac_rows_epi16 (\<lambda>i. e ! i) W_mat_avx m width (replicate width 0)
      in map (\<lambda>i. fz_store (variant p) (FZRED_DOUBLE (variant p) (unat (res_dprec ! i)))) [0..<n] @ take m e)"

definition FP_DOUBLEPREC_BITS :: "rsdp_variant \<Rightarrow> nat" where
  "FP_DOUBLEPREC_BITS v = (case v of RSDP \<Rightarrow> 16 | RSDPG \<Rightarrow> 32)"

definition restr_vec_by_fp_matrix_avx :: "cross_params \<Rightarrow> nat list \<Rightarrow> nat list list \<Rightarrow> nat list" where
  "restr_vec_by_fp_matrix_avx p e V_tr =
     (let v = variant p; n = par_N p - par_K p;
          dprec = take_bit (FP_DOUBLEPREC_BITS v);
          res_dprec = map (\<lambda>i. RESTR_TO_VAL v (e ! (par_K p + i))) [0..<n];
          res_dprec = foldl (\<lambda>res_dprec i. map (\<lambda>j.
              let r = dprec (res_dprec ! j + FPRED_SINGLE v (RESTR_TO_VAL v (e ! i) * V_tr ! i ! j))
              in if i = par_P v - 1 then dprec (FPRED_SINGLE v r) else r) [0..<n]) res_dprec [0..<par_K p]
      in map (\<lambda>i. fp_store v (FPRED_SINGLE v (res_dprec ! i))) [0..<n])"

definition fp_vec_by_fp_vec_pointwise_avx :: "cross_params \<Rightarrow> nat list \<Rightarrow> nat list \<Rightarrow> nat list" where
  "fp_vec_by_fp_vec_pointwise_avx p in1 in2 =
     map (\<lambda>i. fp_store (variant p) (FPRED_SINGLE (variant p) (in1 ! i * in2 ! i))) [0..<par_N p]"

definition restr_by_fp_vec_pointwise_avx :: "cross_params \<Rightarrow> nat list \<Rightarrow> nat list \<Rightarrow> nat list" where
  "restr_by_fp_vec_pointwise_avx p in1 in2 =
     map (\<lambda>i. fp_store (variant p) (FPRED_SINGLE (variant p) (RESTR_TO_VAL (variant p) (in1 ! i) * in2 ! i))) [0..<par_N p]"

definition scaled_table :: "nat \<Rightarrow> m256i" where
  \<comment> \<open>\<open>LUT_sparse\<close>: the multiples of \<open>chall_1\<close> by the restricted values\<close>
  "scaled_table chall_1 =
     (let mred_mask = mm256_set1_epi16 0x007f;
          chall_1_comb = mm256_set1_epi16 (of_nat chall_1);
          LUT_sparse = mm256_set_epi16 [0x0001, 0x0020, 0x0008, 0x0002, 0x0040, 0x0010, 0x0004, 0x0001,
                                        0x0001, 0x0020, 0x0008, 0x0002, 0x0040, 0x0010, 0x0004, 0x0001];
          LUT_sparse = mm256_mullo_epi16 LUT_sparse chall_1_comb;
          tmp = mm256_and_si256 LUT_sparse mred_mask;
          LUT_sparse = mm256_srli_epi16 LUT_sparse 7;
          LUT_sparse = mm256_add_epi16 tmp LUT_sparse;
          tmp = mm256_srli_si256 LUT_sparse 7
      in mm256_or_si256 LUT_sparse tmp)"

definition scaled_word :: "m256i \<Rightarrow> m256i \<Rightarrow> m256i \<Rightarrow> m256i" where
  "scaled_word LUT_sparse e_word u_prime_word =
     (let dense_mred_mask = mm256_set1_epi8 0x7f;
          dense_neg_mred_mask = mm256_set1_epi8 0x80;
          e_word = mm256_shuffle_epi8 LUT_sparse e_word;
          res_word = mm256_add_epi8 e_word u_prime_word;
          tmp = mm256_and_si256 res_word dense_mred_mask;
          res_word = mm256_srli_epi16 (mm256_and_si256 res_word dense_neg_mred_mask) 7
      in mm256_add_epi8 res_word tmp)"

definition fp_vec_by_restr_vec_scaled_avx :: "cross_params \<Rightarrow> (nat \<Rightarrow> byte) \<Rightarrow> nat list \<Rightarrow> nat \<Rightarrow> nat list \<Rightarrow> nat list" where
  \<comment> \<open>\<open>stale\<close>: the aligned copies past their first \<open>N\<close> bytes, and the result before it is written\<close>
  "fp_vec_by_restr_vec_scaled_avx p stale e chall_1 u_prime =
     (case variant p of
        RSDP \<Rightarrow>
          let width = ROUND_UP (par_N p) 32;
              e_align = write_at 0 (map (\<lambda>i. of_nat (e ! i)) [0..<par_N p]) (map stale [0..<width]);
              u_prime_align = write_at 0 (map (\<lambda>i. of_nat (u_prime ! i)) [0..<par_N p]) (map stale [0..<width]);
              LUT_sparse = scaled_table chall_1;
              res_align = foldl (\<lambda>res i. mm256_store res (i * 32)
                  (scaled_word LUT_sparse (mm256_load e_align (i * 32)) (mm256_load u_prime_align (i * 32))))
                (map stale [0..<width]) [0..<width div 32]
          in map (\<lambda>i. unat (res_align ! i)) [0..<par_N p]
      | RSDPG \<Rightarrow>
          map (\<lambda>i. fp_store RSDPG (FPRED_SINGLE RSDPG (u_prime ! i + RESTR_TO_VAL RSDPG (e ! i) * chall_1))) [0..<par_N p])"

definition fp_synd_minus_fp_vec_scaled_avx :: "cross_params \<Rightarrow> nat list \<Rightarrow> nat \<Rightarrow> nat list \<Rightarrow> nat list" where
  "fp_synd_minus_fp_vec_scaled_avx p synd chall_1 s =
     map (\<lambda>j. let tmp = fp_store (variant p) (FPRED_SINGLE (variant p) (s ! j * chall_1));
                  tmp = fp_norm (variant p) tmp
              in fp_store (variant p) (FPRED_SINGLE (variant p) (synd ! j + FPRED_OPPOSITE (variant p) tmp)))
       [0..<par_N p - par_K p]"

section \<open>Loops over registers\<close>

lemma ROUND_UP_facts: "0 < w \<Longrightarrow> n \<le> ROUND_UP n w" "0 < w \<Longrightarrow> ROUND_UP n w div w * w = ROUND_UP n w"
proof -
  assume w: "0 < w"
  have "(n + w - 1) mod w < w" using w by simp
  moreover have "(n + w - 1) div w * w = (n + w - 1) - (n + w - 1) mod w" by (simp add: minus_mod_eq_div_mult)
  ultimately show "n \<le> ROUND_UP n w" using w unfolding ROUND_UP_def by linarith
  show "ROUND_UP n w div w * w = ROUND_UP n w" using w by (simp add: ROUND_UP_def)
qed

lemma register_loop:
  fixes res :: "'a::len word list"
  assumes L: "L = 256 div LENGTH('a)" and len: "length res = m * L"
    and step: "\<And>j i v. j < m \<Longrightarrow> i < L \<Longrightarrow> lane i (f j v) = g (j * L + i) (lane i v :: 'a word)"
  shows "foldl (\<lambda>res j. mm256_store res (j * L) (f j (mm256_load res (j * L)))) res [0..<m] = map (\<lambda>x. g x (res ! x)) [0..<m * L]"
proof -
  let ?R = "\<lambda>n. foldl (\<lambda>res j. mm256_store res (j * L) (f j (mm256_load res (j * L)))) res [0..<n]"
  have "?R n = map (\<lambda>x. if x < n * L then g x (res ! x) else res ! x) [0..<m * L]" if "n \<le> m" for n
    using that
  proof (induction n)
    case 0
    then show ?case by (simp add: len [symmetric] map_nth)
  next
    case (Suc n)
    let ?r = "map (\<lambda>x. if x < n * L then g x (res ! x) else res ! x) [0..<m * L]"
    have r: "?R n = ?r" by (rule Suc.IH) (use Suc.prems in simp)
    have end': "n * L + L \<le> m * L" using Suc.prems by (intro slot_end) simp
    have lanes: "lane i (f n (mm256_load ?r (n * L))) = g (n * L + i) (res ! (n * L + i))" if i: "i < L" for i
    proof -
      have "lane i (mm256_load ?r (n * L)) = ?r ! (n * L + i)" by (rule lane_load) (use end' i L in simp_all)
      also have "\<dots> = res ! (n * L + i)" using end' i by simp
      finally show ?thesis using step [of n i] i Suc.prems by simp
    qed
    have row: "map (\<lambda>i. lane i (f n (mm256_load ?r (n * L))) :: 'a word) [0..<L] = map (\<lambda>i. g (n * L + i) (res ! (n * L + i))) [0..<L]"
      by (rule map_cong [OF refl]) (rule lanes, simp)
    have "?R (Suc n) = mm256_store ?r (n * L) (f n (mm256_load ?r (n * L)))" by (simp add: r)
    also have "\<dots> = write_at (n * L) (map (\<lambda>i. g (n * L + i) (res ! (n * L + i))) [0..<L]) ?r"
      unfolding mm256_store_def L [symmetric] row ..
    also have "\<dots> = map (\<lambda>x. if x < Suc n * L then g x (res ! x) else res ! x) [0..<m * L]" (is "?w = _")
    proof (rule nth_equalityI)
      show len': "length ?w = length (map (\<lambda>x. if x < Suc n * L then g x (res ! x) else res ! x) [0..<m * L])" using end' by simp
      fix x assume "x < length ?w"
      then have x: "x < m * L" unfolding len' by simp
      show "?w ! x = map (\<lambda>x. if x < Suc n * L then g x (res ! x) else res ! x) [0..<m * L] ! x"
        by (subst nth_write_at) (use x end' in auto)
    qed
    finally show ?case .
  qed
  from this [of m] show ?thesis by (simp cong: map_cong)
qed

lemma length_register_loop:
  fixes res :: "'a::len word list"
  shows "m * (256 div LENGTH('a)) \<le> length res \<Longrightarrow> L = 256 div LENGTH('a) \<Longrightarrow>
    length (foldl (\<lambda>res j. mm256_store res (j * L) (g res j)) res [0..<m]) = length res"
  by (induction m) (simp_all add: mm256_store_def)

lemma pad_rows_nth:
  assumes "i < rows" and "cols \<le> width"
  shows "length (pad_rows width A rows cols ! i) = width"
    and "x < width \<Longrightarrow> pad_rows width A rows cols ! i ! x = (if x < cols then of_nat (A ! i ! x) else 0)"
  using assms by (simp_all add: pad_rows_def nth_write_at)

lemma pad_vector_nth:
  "n \<le> width \<Longrightarrow> x < width \<Longrightarrow>
    write_at 0 (map f [0..<n]) (replicate width 0) ! x = (if x < n then f x else 0)"
  by (simp add: nth_write_at)

section \<open>Products with postponed reductions, 16 bits\<close>

lemma lane_mersenne_mac:
  "i < 16 \<Longrightarrow> lane i (mersenne_mac (mm256_set1_epi16 c) row_slice res_w) =
     (let t = c * lane i row_slice :: u16 in lane i res_w + (drop_bit 7 t + (t AND 0x7f)))"
  by (simp add: mersenne_mac_def avx Let_def)

lemma unat_fold7:
  fixes t :: u16
  shows "unat (drop_bit 7 t + (t AND 0x7f)) = FPRED_SINGLE RSDP (unat t)"
proof -
  have a: "unat (t AND 0x7f) = unat t mod 128" by (simp add: unsigned_and_eq fold7(1) [symmetric])
  have d: "unat (drop_bit 7 t) = unat t div 128" by (simp add: unat_drop_bit_eq fold7)
  have "unat t < 2 ^ 16" using unsigned_less [of t, where 'a = nat] by simp
  then have "unat t div 128 < 512" by (simp add: less_mult_imp_div_less)
  moreover have "unat t mod 128 < 128" by simp
  ultimately have "unat (drop_bit 7 t) + unat (t AND 0x7f) < 2 ^ LENGTH(16)" unfolding a d by simp
  then have "unat (drop_bit 7 t + (t AND 0x7f)) = unat (drop_bit 7 t) + unat (t AND 0x7f)" by (rule iffD1 [OF unat_add_lem])
  then show ?thesis by (simp only: a d FPRED_SINGLE.simps fold7 add.commute)
qed

lemma length_mac_rows_epi16 [simp]:
  assumes "length res = width" and "width div 16 * 16 = width"
  shows "length (mac_rows_epi16 coef rows k width res) = width"
  using assms
  by (induction k) (simp_all add: mac_rows_epi16_def Let_def length_register_loop)

lemma mac_rows_epi16_Suc:
  assumes "length res = width" and "width div 16 * 16 = width" and "length (rows ! k) = width"
  shows "mac_rows_epi16 coef rows (Suc k) width res =
    map (\<lambda>x. let t = of_nat (coef k) * rows ! k ! x :: u16
              in mac_rows_epi16 coef rows k width res ! x + (drop_bit 7 t + (t AND 0x7f))) [0..<width]"
proof -
  let ?r = "mac_rows_epi16 coef rows k width res"
  have r: "length ?r = width div 16 * 16" using assms by simp
  have "mac_rows_epi16 coef rows (Suc k) width res = foldl (\<lambda>res j. mm256_store res (j * 16)
      (mersenne_mac (mm256_set1_epi16 (of_nat (coef k))) (mm256_load (rows ! k) (j * 16)) (mm256_load res (j * 16)))) ?r [0..<width div 16]"
    by (simp add: mac_rows_epi16_def)
  also have "\<dots> = map (\<lambda>x. (\<lambda>x w. let t = of_nat (coef k) * rows ! k ! x in w + (drop_bit 7 t + (t AND 0x7f))) x (?r ! x)) [0..<width div 16 * 16]"
  proof (rule register_loop [OF _ r])
    fix j i :: nat and v assume "j < width div 16" and i: "i < 16"
    then have "j * 16 + 16 \<le> length (rows ! k)" using slot_end [of j "width div 16" 16] assms by simp
    then have "lane i (mm256_load (rows ! k) (j * 16)) = rows ! k ! (j * 16 + i)" using i by (intro lane_load) simp_all
    then show "lane i (mersenne_mac (mm256_set1_epi16 (of_nat (coef k))) (mm256_load (rows ! k) (j * 16)) v) =
        (let t = of_nat (coef k) * rows ! k ! (j * 16 + i) in lane i v + (drop_bit 7 t + (t AND 0x7f)))"
      by (simp add: lane_mersenne_mac i)
  qed simp
  finally show ?thesis using assms(2) by simp
qed

lemma FPRED_SINGLE_RSDP_le: "x \<le> 255 * 127 \<Longrightarrow> FPRED_SINGLE RSDP x \<le> 380"
proof -
  assume "x \<le> 255 * 127"
  then have "x div 128 \<le> 255 * 127 div 128" by (rule div_le_mono)
  moreover have "x mod 128 < 128" by simp
  ultimately show ?thesis by (simp add: fold7)
qed

lemma mac_rows_epi16_nth:
  assumes len: "length res = width" "width div 16 * 16 = width" "\<And>i. i < k \<Longrightarrow> length (rows ! i) = width" and x: "x < width"
    and coef: "\<And>i. i < k \<Longrightarrow> coef i \<le> 255" and row: "\<And>i. i < k \<Longrightarrow> unat (rows ! i ! x) \<le> 127"
    and res: "unat (res ! x) \<le> 255" and k: "k \<le> 150"
  defines "s \<equiv> unat (res ! x) + (\<Sum>i<k. FPRED_SINGLE RSDP (coef i * unat (rows ! i ! x)))"
  shows "unat (mac_rows_epi16 coef rows k width res ! x) = s" and "s \<le> 255 + k * 380"
proof -
  have "unat (mac_rows_epi16 coef rows k width res ! x) = unat (res ! x) + (\<Sum>i<k. FPRED_SINGLE RSDP (coef i * unat (rows ! i ! x)))
      \<and> unat (res ! x) + (\<Sum>i<k. FPRED_SINGLE RSDP (coef i * unat (rows ! i ! x))) \<le> 255 + k * 380"
    using len(3) coef row k
  proof (induction k)
    case 0
    then show ?case using res by (simp add: mac_rows_epi16_def)
  next
    case (Suc k)
    let ?r = "mac_rows_epi16 coef rows k width res" and ?t = "of_nat (coef k) * rows ! k ! x :: u16"
    have IH: "unat (?r ! x) = unat (res ! x) + (\<Sum>i<k. FPRED_SINGLE RSDP (coef i * unat (rows ! i ! x)))"
      "unat (res ! x) + (\<Sum>i<k. FPRED_SINGLE RSDP (coef i * unat (rows ! i ! x))) \<le> 255 + k * 380"
      using Suc by simp_all
    have p: "coef k * unat (rows ! k ! x) \<le> 255 * 127" using Suc.prems by (intro mult_le_mono) simp_all
    have c: "unat (of_nat (coef k) :: u16) = coef k" using Suc.prems(2) [of k] by (simp add: unat_of_nat)
    have t: "unat ?t = coef k * unat (rows ! k ! x)" using p by (simp add: unat_word_ariths c del: unat_of_nat)
    have f: "unat (drop_bit 7 ?t + (?t AND 0x7f)) = FPRED_SINGLE RSDP (coef k * unat (rows ! k ! x))" by (simp only: unat_fold7 t)
    have le: "FPRED_SINGLE RSDP (coef k * unat (rows ! k ! x)) \<le> 380" using p by (rule FPRED_SINGLE_RSDP_le)
    have "unat (?r ! x) + unat (drop_bit 7 ?t + (?t AND 0x7f)) < 2 ^ LENGTH(16)" using IH le Suc.prems(4) unfolding f by simp
    then have "unat (?r ! x + (drop_bit 7 ?t + (?t AND 0x7f))) = unat (?r ! x) + FPRED_SINGLE RSDP (coef k * unat (rows ! k ! x))"
      unfolding f [symmetric] by (rule iffD1 [OF unat_add_lem])
    moreover have "mac_rows_epi16 coef rows (Suc k) width res ! x = ?r ! x + (drop_bit 7 ?t + (?t AND 0x7f))"
      unfolding mac_rows_epi16_Suc [OF len(1,2) Suc.prems(1) [OF lessI]] using x by (simp add: Let_def)
    ultimately show ?case using IH le by (simp only: sum.lessThan_Suc mult_Suc) linarith
  qed
  then show "unat (mac_rows_epi16 coef rows k width res ! x) = s" "s \<le> 255 + k * 380" by (simp_all add: s_def)
qed

section \<open>Products with postponed reductions, 32 bits\<close>

text \<open>
  Barrett's method with \<open>2^18 / 509\<close> rounded down to 515: the quotient is at most one
  too small, and the product with 515 stays in 32 bits, as long as the argument is below
  8339743 (the comment in the code includes 8339743, whose product wraps around).
\<close>

lemma barrett:
  fixes x :: nat
  assumes "x < 8339743"
  defines "r \<equiv> x - x * 515 div 2 ^ 18 * 509"
  shows "x * 515 div 2 ^ 18 * 509 \<le> x" and "r < 2 * 509" and "r mod 509 = x mod 509"
proof -
  let ?q = "x * 515 div 2 ^ 18"
  have le: "?q * 2 ^ 18 \<le> x * 515" by simp
  have gt: "x * 515 < ?q * 2 ^ 18 + 2 ^ 18" by (simp add: dividend_less_div_times)
  show q: "?q * 509 \<le> x" using le by simp
  show "r < 2 * 509" using gt assms(1) unfolding r_def by simp
  have "x = r + ?q * 509" using q unfolding r_def by simp
  then show "r mod 509 = x mod 509" by (metis mod_mult_self1)
qed

lemma min_subtract:
  fixes w :: u32
  assumes "unat w < 2 * 509"
  shows "unat (min w (w - 509)) = unat w mod 509"
proof (cases "unat w < 509")
  case True
  then have "unat (w - 509) = 2 ^ 32 + unat w - 509" by (simp add: unat_sub_if')
  then show ?thesis using True by (simp add: min_def word_le_nat_alt)
next
  case False
  then have "unat (w - 509) = unat w - 509" by (simp add: unat_sub_if')
  moreover have "unat w - 509 = unat w mod 509" using False assms by (simp add: le_mod_geq)
  ultimately show ?thesis using False by (simp add: min_def word_le_nat_alt)
qed

lemma lane_reduce_avx2_32:
  assumes "i < 8" and "unat (lane i a :: u32) < 8339743"
  shows "unat (lane i (reduce_avx2_32 a) :: u32) = unat (lane i a :: u32) mod 509"
proof -
  let ?w = "lane i a :: u32" and ?x = "unat (lane i a :: u32)"
  let ?q = "?x * 515 div 2 ^ 18" and ?R = "?x - ?x * 515 div 2 ^ 18 * 509"
  note b = barrett [OF assms(2)]
  have q: "drop_bit 18 (?w * 515) = of_nat ?q"
  proof -
    have "?x * 515 < 2 ^ 32" using assms(2) by simp
    then have "unat (?w * 515) = ?x * 515" by (simp add: unat_word_ariths)
    then have "unat (drop_bit 18 (?w * 515)) = ?q" by (simp add: unat_drop_bit_eq drop_bit_nat_def)
    from arg_cong [OF this, of "of_nat :: nat \<Rightarrow> u32"] show ?thesis by simp
  qed
  let ?r = "?w - drop_bit 18 (?w * 515) * 509"
  have rw: "?r = of_nat ?R" unfolding q using b(1) by (simp add: of_nat_diff)
  have "?R < 2 ^ LENGTH(32)" using b(2) by simp
  then have r: "unat ?r = ?R" unfolding rw unat_of_nat by (rule mod_less)
  have lane: "lane i (reduce_avx2_32 a) = min ?r (?r - 509)"
    by (simp add: reduce_avx2_32_def avx assms(1) Let_def)
  show ?thesis unfolding lane using b(2,3) r by (simp only: min_subtract)
qed

lemma reduce_avx2_32_wraps:
  "unat (lane 0 (reduce_avx2_32 (mm256_set1_epi32 8339743)) :: u32) = 8339234" "8339743 mod 509 \<noteq> (8339234 :: nat)"
  by (simp_all add: reduce_avx2_32_def avx Let_def min_def)

definition epi32_step :: "nat \<Rightarrow> nat \<Rightarrow> u32 \<Rightarrow> u32 \<Rightarrow> u32" where
  \<comment> \<open>one lane of an iteration of the outer loop\<close>
  "epi32_step k i a w =
     (if i = k div 3 \<or> i = k div 3 * 2 \<or> i = k - 1 then lane 0 (reduce_avx2_32 (mm256_set1_epi32 (w + a))) else w + a)"

lemma lane_reduce_local: "i < 8 \<Longrightarrow> lane i (reduce_avx2_32 a) = (lane 0 (reduce_avx2_32 (mm256_set1_epi32 (lane i a))) :: u32)"
  by (simp add: reduce_avx2_32_def avx Let_def)

lemma length_mac_rows_epi32 [simp]:
  assumes "length res = width" and "width div 8 * 8 = width"
  shows "length (mac_rows_epi32 coef rows k width res) = width"
proof -
  have "length (foldl (\<lambda>res i. foldl (\<lambda>res j. mm256_store res (j * 8) (g i res j)) res [0..<width div 8]) res [0..<n]) = width" for g n
    using assms by (induction n) (simp_all add: length_register_loop)
  then show ?thesis unfolding mac_rows_epi32_def Let_def .
qed

definition epi32_run :: "nat \<Rightarrow> (nat \<Rightarrow> nat) \<Rightarrow> u32 list list \<Rightarrow> nat \<Rightarrow> nat \<Rightarrow> u32 list \<Rightarrow> u32 list" where
  \<comment> \<open>the first \<open>n\<close> iterations\<close>
  "epi32_run k coef rows n width res =
     foldl (\<lambda>res i. map (\<lambda>x. epi32_step k i (of_nat (coef i) * rows ! i ! x) (res ! x)) [0..<width]) res [0..<n]"

lemma mac_rows_epi32_run:
  assumes "length res = width" and "width div 8 * 8 = width" and "\<And>i. i < k \<Longrightarrow> length (rows ! i) = width"
  shows "mac_rows_epi32 coef rows k width res = epi32_run k coef rows k width res"
proof -
  let ?g = "\<lambda>res i. foldl (\<lambda>res j.
         let e_coeff = mm256_set1_epi32 (of_nat (coef i));
             res_w = mm256_load res (j * 8);
             row_slice = mm256_load (rows ! i) (j * 8);
             a = mm256_mullo_epi32 e_coeff row_slice;
             res_w = mm256_add_epi32 res_w a;
             res_w = (if i = k div 3 \<or> i = k div 3 * 2 \<or> i = k - 1 then reduce_avx2_32 res_w else res_w)
         in mm256_store res (j * 8) res_w) res [0..<width div 8]"
  have row: "?g r i = map (\<lambda>x. epi32_step k i (of_nat (coef i) * rows ! i ! x) (r ! x)) [0..<width]"
    if i: "i < k" and r: "length r = width div 8 * 8" for r i
  proof -
    let ?f = "\<lambda>j v. let res_w = mm256_add_epi32 v (mm256_mullo_epi32 (mm256_set1_epi32 (of_nat (coef i))) (mm256_load (rows ! i) (j * 8)))
        in if i = k div 3 \<or> i = k div 3 * 2 \<or> i = k - 1 then reduce_avx2_32 res_w else res_w"
    have "?g r i = foldl (\<lambda>res j. mm256_store res (j * 8) (?f j (mm256_load res (j * 8)))) r [0..<width div 8]"
      by (simp only: Let_def)
    also have "\<dots> = map (\<lambda>x. (\<lambda>x. epi32_step k i (of_nat (coef i) * rows ! i ! x)) x (r ! x)) [0..<width div 8 * 8]"
    proof (rule register_loop [OF _ r])
      fix j l :: nat and v assume "j < width div 8" and l: "l < 8"
      then have "j * 8 + 8 \<le> length (rows ! i)" using slot_end [of j "width div 8" 8] assms(2) assms(3) [OF i] by simp
      then have "lane l (mm256_load (rows ! i) (j * 8)) = rows ! i ! (j * 8 + l)" using l by (intro lane_load) simp_all
      then show "lane l (?f j v) = epi32_step k i (of_nat (coef i) * rows ! i ! (j * 8 + l)) (lane l v)"
        using l by (simp add: epi32_step_def lane_reduce_local [OF l] avx Let_def)
    qed simp
    finally show ?thesis using assms(2) by simp
  qed
  have "foldl ?g res [0..<n] = epi32_run k coef rows n width res \<and> length (epi32_run k coef rows n width res) = width" if "n \<le> k" for n
    using that
  proof (induction n)
    case (Suc n)
    then have "foldl ?g res [0..<Suc n] = ?g (epi32_run k coef rows n width res) n" by simp
    then show ?case using Suc assms(2) row [of n "epi32_run k coef rows n width res"] by (simp add: epi32_run_def)
  qed (simp add: epi32_run_def assms)
  from this [of k] show ?thesis unfolding mac_rows_epi32_def by simp
qed

text \<open>How many products were added since the last reduction.\<close>

definition unreduced :: "nat \<Rightarrow> nat \<Rightarrow> nat" where
  "unreduced k n = (if n \<le> k div 3 then n else if n \<le> k div 3 * 2 then n - (k div 3 + 1)
                    else if n < k then n - (k div 3 * 2 + 1) else 0)"

lemma unreduced_step:
  assumes "n < k" and "3 \<le> k"
  shows "unreduced k n \<le> k div 3"
    and "unreduced k (Suc n) = (if n = k div 3 \<or> n = k div 3 * 2 \<or> n = k - 1 then 0 else unreduced k n + 1)"
  using assms unfolding unreduced_def by (auto; linarith)+

lemma epi32_run_nth:
  assumes x: "x < width" and k: "3 \<le> k" "k \<le> 93" and n: "n \<le> k"
    and coef: "\<And>i. i < k \<Longrightarrow> coef i \<le> 508" and row: "\<And>i. i < k \<Longrightarrow> unat (rows ! i ! x) \<le> 508"
    and len: "length res = width" and res: "unat (res ! x) \<le> 508"
  shows "unat (epi32_run k coef rows n width res ! x) mod 509 = (unat (res ! x) + (\<Sum>i<n. coef i * unat (rows ! i ! x))) mod 509
    \<and> unat (epi32_run k coef rows n width res ! x) \<le> 508 + unreduced k n * 508 ^ 2"
  using n
proof (induction n)
  case 0
  then show ?case using res by (simp add: epi32_run_def)
next
  case (Suc n)
  let ?w = "epi32_run k coef rows n width res ! x" and ?a = "of_nat (coef n) * rows ! n ! x :: u32"
  let ?c = "coef n * unat (rows ! n ! x)"
  have IH: "unat ?w mod 509 = (unat (res ! x) + (\<Sum>i<n. coef i * unat (rows ! i ! x))) mod 509"
    "unat ?w \<le> 508 + unreduced k n * 508 ^ 2" using Suc by simp_all
  have nk: "n < k" using Suc.prems by simp
  have c: "?c \<le> 508 * 508" using coef [OF nk] row [OF nk] by (rule mult_le_mono)
  have "unat (of_nat (coef n) :: u32) = coef n" using coef [OF nk] by (simp add: unat_of_nat)
  then have a: "unat ?a = ?c" using c by (simp add: unat_word_ariths del: unat_of_nat)
  have "unreduced k n \<le> 31" using unreduced_step(1) [OF nk k(1)] k(2) by linarith
  then have "unat ?w + ?c \<le> 508 + 31 * 508 ^ 2 + 508 * 508" using IH(2) c by (simp add: power2_eq_square)
  then have small: "unat ?w + ?c < 8339743" by simp
  have sum: "unat (?w + ?a) = unat ?w + ?c"
    unfolding a [symmetric] by (rule iffD1 [OF unat_add_lem]) (use small a in simp)
  have red: "unat (lane 0 (reduce_avx2_32 (mm256_set1_epi32 (?w + ?a))) :: u32) = (unat ?w + ?c) mod 509"
    using lane_reduce_avx2_32 [of 0 "mm256_set1_epi32 (?w + ?a)"] small sum by (simp add: avx)
  have new: "epi32_run k coef rows (Suc n) width res ! x = epi32_step k n ?a ?w"
    using x by (simp add: epi32_run_def)
  have "(unat ?w + ?c) mod 509 = (unat (res ! x) + (\<Sum>i<n. coef i * unat (rows ! i ! x)) + ?c) mod 509"
    by (rule mod_add_cong [OF IH(1) refl])
  then have val: "(unat ?w + ?c) mod 509 = (unat (res ! x) + (\<Sum>i<Suc n. coef i * unat (rows ! i ! x))) mod 509"
    by (simp add: add.assoc)
  show ?case
  proof (cases "n = k div 3 \<or> n = k div 3 * 2 \<or> n = k - 1")
    case True
    then have "unat (epi32_step k n ?a ?w) = (unat ?w + ?c) mod 509" by (simp only: epi32_step_def if_True red)
    moreover have "unreduced k (Suc n) = 0" using True unreduced_step(2) [OF nk k(1)] by simp
    moreover have "(unat ?w + ?c) mod 509 \<le> 508" by (simp add: less_Suc_eq_le [symmetric])
    ultimately show ?thesis unfolding new val by (simp only: mod_mod_trivial mult_0 add_0_right)
  next
    case False
    then have "unat (epi32_step k n ?a ?w) = unat ?w + ?c" by (simp only: epi32_step_def if_False sum)
    moreover have "unreduced k (Suc n) = unreduced k n + 1" using False unreduced_step(2) [OF nk k(1)] by simp
    moreover have "unat ?w + ?c \<le> 508 + (unreduced k n + 1) * 508 ^ 2"
      using IH(2) c by (simp add: power2_eq_square)
    ultimately show ?thesis unfolding new val [symmetric] by (simp only:)
  qed
qed

section \<open>The products are those of the reference implementation\<close>

lemma par_K_bounds: "3 \<le> par_K p" "variant p = RSDP \<Longrightarrow> par_K p \<le> 150" "variant p = RSDPG \<Longrightarrow> par_K p \<le> 93" "par_M p \<le> 150"
  by (cases "variant p"; cases "cat p"; cases "corner p"; simp add: par_unfold)+

definition dot :: "cross_params \<Rightarrow> nat list \<Rightarrow> nat list list \<Rightarrow> nat \<Rightarrow> nat" where
  \<comment> \<open>component \<open>j\<close> of \<open>e\<close> times \<open>[V I]\<close>\<close>
  "dot p e V j = e ! (par_K p + j) + (\<Sum>i<par_K p. e ! i * V ! i ! j)"

definition fp_wide :: "rsdp_variant \<Rightarrow> nat" where
  \<comment> \<open>largest entry the lazy arithmetic leaves before a normalisation\<close>
  "fp_wide v = (case v of RSDP \<Rightarrow> 253 | RSDPG \<Rightarrow> 508)"

lemma fp_wide_simps [simp]: "fp_wide RSDP = 253" "fp_wide RSDPG = 508"
  by (simp_all add: fp_wide_def)

lemma fp_top_le_wide: "x \<le> fp_top v \<Longrightarrow> x \<le> fp_wide v"
  by (cases v) simp_all

lemma fp_norm_wide: "x \<le> fp_wide v \<Longrightarrow> fp_norm v x = x mod par_P v"
proof (cases v)
  case RSDP
  assume "x \<le> fp_wide v"
  then have le: "x \<le> 253" by (simp add: RSDP)
  have n: "FP_DOUBLE_ZERO_NORM RSDP x = (x + (x + 1) div 128) mod 128" by (simp add: fold7)
  have "(x + (x + 1) div 128) mod 128 = x mod 127"
  proof (cases "x < 127")
    case False
    then have "(x + 1) div 128 = 1" using le by (simp add: div_nat_eqI)
    moreover have "(x + 1) mod 128 = x - 127" using False le by (simp add: le_mod_geq)
    moreover have "x mod 127 = x - 127" using False le by (simp add: le_mod_geq)
    ultimately show ?thesis by simp
  qed simp
  moreover have "x mod 127 \<le> 127" by (simp add: less_imp_le)
  ultimately show ?thesis by (simp add: fp_norm_def RSDP n del: FP_DOUBLE_ZERO_NORM.simps)
qed (simp add: fp_norm_def)

lemma fp_store_wide [simp]: "x \<le> fp_wide v \<Longrightarrow> fp_store v x = x"
  by (cases v) (auto simp: fp_store_def take_bit_nat_eq_self_iff)

lemma FPRED_DOUBLE_16:
  assumes "x < 2 ^ 16"
  shows "FPRED_DOUBLE RSDP x \<le> 253" and "FPRED_DOUBLE RSDP x mod 127 = x mod 127"
proof -
  have "x div 128 \<le> 511" "x mod 128 \<le> 127" using assms by (auto simp: less_Suc_eq_le [symmetric] less_mult_imp_div_less)
  then have s: "FPRED_SINGLE RSDP x \<le> 638" by (simp add: fold7)
  then have "FPRED_SINGLE RSDP x div 128 \<le> 638 div 128" by (rule div_le_mono)
  moreover have "FPRED_SINGLE RSDP x mod 128 \<le> 127" by (simp add: less_Suc_eq_le [symmetric])
  ultimately show "FPRED_DOUBLE RSDP x \<le> 253" unfolding FPRED_DOUBLE.simps FPRED_SINGLE.simps(1) [of "FPRED_SINGLE RSDP x"] fold7 by simp
  show "FPRED_DOUBLE RSDP x mod 127 = x mod 127" unfolding FPRED_DOUBLE.simps FPRED_SINGLE_127_mod ..
qed

lemma fp_vec_by_fp_matrix_avx_nth:
  assumes e: "\<And>i. i < par_N p \<Longrightarrow> e ! i \<le> fp_wide (variant p)"
    and V: "mat_ok (par_P (variant p)) (par_K p) (par_N p - par_K p) V" and j: "j < par_N p - par_K p"
  shows "fp_vec_by_fp_matrix_avx p e V ! j \<le> fp_wide (variant p)"
    and "fp_vec_by_fp_matrix_avx p e V ! j mod par_P (variant p) = dot p e V j mod par_P (variant p)"
proof -
  define n where "n = par_N p - par_K p"
  have jn: "j < n" and ek: "e ! (par_K p + i) \<le> fp_wide (variant p)" if "i < n" for i
    using j e [of "par_K p + i"] that by (simp_all add: n_def)
  note jn = jn [OF j [folded n_def]]
  have ei: "e ! i \<le> fp_wide (variant p)" if "i < par_K p" for i using e [of i] that par_K_lt_N [of p] by simp
  have Vij: "V ! i ! j < par_P (variant p)" if "i < par_K p" for i using mat_ok_nth [OF V that j] .
  have "fp_vec_by_fp_matrix_avx p e V ! j \<le> fp_wide (variant p)
      \<and> fp_vec_by_fp_matrix_avx p e V ! j mod par_P (variant p) = dot p e V j mod par_P (variant p)"
  proof (cases "variant p")
    case RSDP
    define width where "width = ROUND_UP n 16"
    have w: "n \<le> width" "width div 16 * 16 = width" using ROUND_UP_facts [of 16 n] by (simp_all add: width_def)
    define rows :: "u16 list list" where "rows = pad_rows width V (par_K p) n"
    define res :: "u16 list" where "res = write_at 0 (map (\<lambda>i. of_nat (e ! (par_K p + i))) [0..<n]) (replicate width 0)"
    have res: "unat (res ! j) = e ! (par_K p + j)" "length res = width"
      using ek [OF jn] jn w(1) unfolding res_def by (simp_all add: RSDP pad_vector_nth unat_of_nat)
    have row: "unat (rows ! i ! j) = V ! i ! j" "length (rows ! i) = width" if "i < par_K p" for i
      using Vij [OF that] jn w(1) that unfolding rows_def by (simp_all add: RSDP pad_rows_nth unat_of_nat)
    have e255: "e ! i \<le> 255" if "i < par_K p" for i using ei [OF that] RSDP by simp
    let ?s = "unat (mac_rows_epi16 (\<lambda>i. e ! i) rows (par_K p) width res ! j)"
    have s: "?s = e ! (par_K p + j) + (\<Sum>i<par_K p. FPRED_SINGLE RSDP (e ! i * V ! i ! j))" and le: "?s \<le> 255 + par_K p * 380"
      using mac_rows_epi16_nth [where res = res and width = width and k = "par_K p" and rows = rows and coef = "\<lambda>i. e ! i" and x = j]
        res row e255 Vij ek [OF jn] jn w par_K_bounds(2) [OF RSDP] RSDP by (simp_all add: less_imp_le cong: sum.cong_simp)
    have "(\<Sum>i<par_K p. FPRED_SINGLE RSDP (e ! i * V ! i ! j)) mod 127 = (\<Sum>i<par_K p. FPRED_SINGLE RSDP (e ! i * V ! i ! j) mod 127) mod 127"
      by (rule mod_sum_eq [symmetric])
    also have "\<dots> = (\<Sum>i<par_K p. e ! i * V ! i ! j) mod 127" unfolding FPRED_SINGLE_127_mod by (rule mod_sum_eq)
    finally have "?s mod 127 = dot p e V j mod 127" unfolding s dot_def by (rule mod_add_cong [OF refl])
    moreover have "fp_vec_by_fp_matrix_avx p e V ! j = fp_store RSDP (FPRED_DOUBLE RSDP ?s)"
      unfolding fp_vec_by_fp_matrix_avx_def RSDP Let_def rsdp_variant.case n_def [symmetric] width_def [symmetric]
        rows_def [symmetric] res_def [symmetric] using jn by simp
    moreover have "?s < 2 ^ 16" using le par_K_bounds(2) [OF RSDP] by simp
    note FPRED_DOUBLE_16 [OF this]
    ultimately show ?thesis using fp_store_wide [of "FPRED_DOUBLE RSDP ?s" RSDP] by (simp add: RSDP del: FPRED_DOUBLE.simps)
  next
    case RSDPG
    define width where "width = ROUND_UP n 8"
    have w: "n \<le> width" "width div 8 * 8 = width" using ROUND_UP_facts [of 8 n] by (simp_all add: width_def)
    define rows :: "u32 list list" where "rows = pad_rows width V (par_K p) n"
    define res :: "u32 list" where "res = write_at 0 (map (\<lambda>i. of_nat (e ! (par_K p + i))) [0..<n]) (replicate width 0)"
    have res: "unat (res ! j) = e ! (par_K p + j)" "length res = width"
      using ek [OF jn] jn w(1) unfolding res_def by (simp_all add: RSDPG pad_vector_nth unat_of_nat)
    have row: "unat (rows ! i ! j) = V ! i ! j" "length (rows ! i) = width" if "i < par_K p" for i
      using Vij [OF that] jn w(1) that unfolding rows_def by (simp_all add: RSDPG pad_rows_nth unat_of_nat)
    let ?s = "unat (mac_rows_epi32 (\<lambda>i. e ! i) rows (par_K p) width res ! j)"
    have run: "mac_rows_epi32 (\<lambda>i. e ! i) rows (par_K p) width res = epi32_run (par_K p) (\<lambda>i. e ! i) rows (par_K p) width res"
      by (rule mac_rows_epi32_run) (simp_all add: res row w)
    have s: "?s mod 509 = dot p e V j mod 509 \<and> ?s \<le> 508 + unreduced (par_K p) (par_K p) * 508 ^ 2"
      unfolding run dot_def
      using epi32_run_nth [where x = j and width = width and k = "par_K p" and n = "par_K p" and coef = "\<lambda>i. e ! i" and rows = rows and res = res]
        res row ei Vij ek [OF jn] jn w par_K_bounds(1) [of p] par_K_bounds(3) [OF RSDPG] RSDPG
      by (simp add: less_Suc_eq_le [symmetric] cong: sum.cong_simp)
    have "unreduced (par_K p) (par_K p) = 0" using par_K_bounds(1) [of p] by (simp add: unreduced_def)
    then have le: "?s \<le> 508" using s by simp
    have "fp_vec_by_fp_matrix_avx p e V ! j = fp_store RSDPG ?s"
      unfolding fp_vec_by_fp_matrix_avx_def RSDPG Let_def rsdp_variant.case n_def [symmetric] width_def [symmetric]
        rows_def [symmetric] res_def [symmetric] using jn by simp
    then show ?thesis using s le by (simp add: RSDPG)
  qed
  then show "fp_vec_by_fp_matrix_avx p e V ! j \<le> fp_wide (variant p)"
    and "fp_vec_by_fp_matrix_avx p e V ! j mod par_P (variant p) = dot p e V j mod par_P (variant p)" by auto
qed

lemma dot_cong:
  assumes "\<And>i. i < par_N p \<Longrightarrow> e ! i mod q = e' ! i mod q" and "j < par_N p - par_K p"
  shows "dot p e V j mod q = dot p e' V j mod q"
proof -
  have "(\<Sum>i<par_K p. e ! i * V ! i ! j) mod q = (\<Sum>i<par_K p. e ! i * V ! i ! j mod q) mod q" by (rule mod_sum_eq [symmetric])
  also have "\<dots> = (\<Sum>i<par_K p. e' ! i * V ! i ! j mod q) mod q"
    by (intro arg_cong [where f = "\<lambda>s. s mod q"] sum.cong refl mod_mult_cong assms(1)) (use par_K_lt_N [of p] in auto)
  also have "\<dots> = (\<Sum>i<par_K p. e' ! i * V ! i ! j) mod q" by (rule mod_sum_eq)
  finally show ?thesis unfolding dot_def using assms by (intro mod_add_cong) simp_all
qed

lemma fp_vec_by_fp_matrix_nth:
  assumes "syn_ok p e V" and j: "j < par_N p - par_K p"
  shows "fp_vec_by_fp_matrix p e V ! j mod par_P (variant p) = dot p e V j mod par_P (variant p)"
proof -
  have e: "length e = par_N p" "\<And>i. i < par_N p \<Longrightarrow> e ! i \<le> fp_top (variant p)"
    and V: "\<And>i. i < par_K p \<Longrightarrow> V ! i ! j \<le> fp_top (variant p)"
    using assms mat_ok_nth fp_lt_top unfolding syn_ok_def by (fastforce simp: in_set_conv_nth)+
  have "mac_rows (fp_red (variant p)) (\<lambda>i. e ! i) V (par_K p) (read_at (par_K p) (par_N p - par_K p) e) ! j mod par_P (variant p)
      = (read_at (par_K p) (par_N p - par_K p) e ! j + (\<Sum>i<par_K p. e ! i * V ! i ! j)) mod par_P (variant p)"
    by (rule conjunct1 [OF fp.mac_rows_nth]) (use e V j par_K_lt_N [of p] in simp_all)
  then show ?thesis using e(1) j par_K_lt_N [of p] by (simp add: fp_vec_by_fp_matrix_def dot_def)
qed

lemma fp_dz_norm_synd_eqI:
  assumes "\<And>j. j < par_N p - par_K p \<Longrightarrow> a ! j \<le> fp_wide (variant p) \<and> b ! j \<le> fp_wide (variant p) \<and>
      a ! j mod par_P (variant p) = b ! j mod par_P (variant p)"
  shows "fp_dz_norm_synd p a = fp_dz_norm_synd p b"
  unfolding fp_dz_norm_synd_def by (rule map_cong) (simp_all add: fp_norm_wide assms)

lemma fp_dz_norm_eqI:
  assumes "\<And>j. j < par_N p \<Longrightarrow> a ! j \<le> fp_wide (variant p) \<and> b ! j \<le> fp_wide (variant p) \<and>
      a ! j mod par_P (variant p) = b ! j mod par_P (variant p)"
  shows "fp_dz_norm p a = fp_dz_norm p b"
  unfolding fp_dz_norm_def by (rule map_cong) (simp_all add: fp_norm_wide assms)

theorem fp_vec_by_fp_matrix_avx_same:
  assumes e: "\<And>i. i < par_N p \<Longrightarrow> e ! i \<le> fp_wide (variant p)"
    and e': "syn_ok p e' V" and same: "\<And>i. i < par_N p \<Longrightarrow> e ! i mod par_P (variant p) = e' ! i mod par_P (variant p)"
  shows "fp_dz_norm_synd p (fp_vec_by_fp_matrix_avx p e V) = fp_dz_norm_synd p (fp_vec_by_fp_matrix p e' V)"
proof (rule fp_dz_norm_synd_eqI)
  fix j assume j: "j < par_N p - par_K p"
  have V: "mat_ok (par_P (variant p)) (par_K p) (par_N p - par_K p) V" using e' by (simp add: syn_ok_def)
  show "fp_vec_by_fp_matrix_avx p e V ! j \<le> fp_wide (variant p) \<and> fp_vec_by_fp_matrix p e' V ! j \<le> fp_wide (variant p) \<and>
      fp_vec_by_fp_matrix_avx p e V ! j mod par_P (variant p) = fp_vec_by_fp_matrix p e' V ! j mod par_P (variant p)"
    using fp_vec_by_fp_matrix_avx_nth [OF e V j] syn_nth_le [OF e' j] fp_vec_by_fp_matrix_nth [OF e' j] dot_cong [OF same j]
    by (simp add: fp_top_le_wide)
qed

section \<open>Products by powers of two modulo 127\<close>

text \<open>A product of a 7-bit number with a power of two folds to a rotation of the number.\<close>

lemma fold_rotation:
  assumes "c < 128" and "k \<le> 7"
  shows "FPRED_SINGLE RSDP (2 ^ k * c) \<le> 127"
proof -
  have pw: "(128 :: nat) = 2 ^ k * 2 ^ (7 - k)" using assms(2) by (simp add: power_add [symmetric])
  have a: "2 ^ k * c mod 128 = 2 ^ k * (c mod 2 ^ (7 - k))" unfolding pw by (rule mult_mod_right [symmetric])
  have "c mod 2 ^ (7 - k) + 1 \<le> (2 :: nat) ^ (7 - k)" by (simp add: Suc_leI)
  then have "2 ^ k * (c mod 2 ^ (7 - k) + 1) \<le> 2 ^ k * (2 :: nat) ^ (7 - k)" by (rule mult_le_mono2)
  then have m: "2 ^ k * c mod 128 + 2 ^ k \<le> 128" unfolding a by (simp only: pw add_mult_distrib2 mult_1_right)
  have "2 ^ k * c div 128 = c div 2 ^ (7 - k)" unfolding pw by (rule div_mult_mult1) simp
  moreover have "c div 2 ^ (7 - k) < 2 ^ k" using assms(1) unfolding pw by (simp add: less_mult_imp_div_less)
  ultimately show ?thesis using m by (simp add: fold7)
qed

lemma fold7_le: "x div 128 \<le> a \<Longrightarrow> FPRED_SINGLE RSDP x \<le> a + 127"
proof -
  assume "x div 128 \<le> a"
  moreover have "x mod 128 < 128" by simp
  ultimately show ?thesis unfolding FPRED_SINGLE.simps(1) fold7 by linarith
qed

lemma RESTR_TO_VAL_RSDP: "x \<le> 7 \<Longrightarrow> \<exists>k \<le> 6. RESTR_TO_VAL RSDP x = 2 ^ k"
proof -
  assume "x \<le> 7"
  then have "x \<in> {0, 1, 2, 3, 4, 5, 6, 7}" by auto
  then have "RESTR_TO_VAL RSDP x = 2 ^ (x mod 7)" by (auto simp: restr_table_rsdp)
  moreover have "x mod 7 \<le> 6" by (simp add: less_Suc_eq_le [symmetric])
  ultimately show ?thesis by blast
qed

lemma FPRED_SINGLE_restr:
  assumes "x \<le> par_Z v" and "c \<le> fp_top v"
  shows "FPRED_SINGLE v (RESTR_TO_VAL v x * c) \<le> fp_top v"
    and "FPRED_SINGLE v (RESTR_TO_VAL v x * c) mod par_P v = RESTR_TO_VAL v x * c mod par_P v"
proof -
  have "FPRED_SINGLE v (RESTR_TO_VAL v x * c) \<le> fp_top v \<and>
      FPRED_SINGLE v (RESTR_TO_VAL v x * c) mod par_P v = RESTR_TO_VAL v x * c mod par_P v"
  proof (cases v)
    case RSDP
    then obtain k where "k \<le> 6" "RESTR_TO_VAL RSDP x = 2 ^ k" using assms(1) RESTR_TO_VAL_RSDP by auto
    then show ?thesis using assms(2) fold_rotation [of c k] FPRED_SINGLE_127_mod [of "2 ^ k * c"]
      by (simp add: RSDP del: FPRED_SINGLE.simps RESTR_TO_VAL.simps)
  next
    case RSDPG
    have "RESTR_TO_VAL RSDPG x * c \<le> 508 * 508"
      using RESTR_TO_VAL_lt [OF assms(1)] assms(2) by (intro mult_le_mono) (simp_all add: RSDPG)
    then have "FPRED_SINGLE RSDPG (RESTR_TO_VAL RSDPG x * c) = RESTR_TO_VAL RSDPG x * c mod 509"
      by (intro FPRED_SINGLE_509) simp
    then show ?thesis by (simp add: RSDPG less_Suc_eq_le [symmetric] del: FPRED_SINGLE.simps RESTR_TO_VAL.simps)
  qed
  then show "FPRED_SINGLE v (RESTR_TO_VAL v x * c) \<le> fp_top v"
    and "FPRED_SINGLE v (RESTR_TO_VAL v x * c) mod par_P v = RESTR_TO_VAL v x * c mod par_P v" by auto
qed

section \<open>The other products\<close>

lemma fp_vec_by_fp_vec_pointwise_avx_restr:
  assumes "i < par_N p" and "e ! i \<le> par_Z (variant p)" and "b ! i \<le> fp_top (variant p)"
  defines "r \<equiv> fp_vec_by_fp_vec_pointwise_avx p (convert_restr_vec_to_fp p e) b ! i"
    and "r' \<equiv> fp_vec_by_fp_vec_pointwise p (convert_restr_vec_to_fp p e) b ! i"
  shows "r \<le> fp_top (variant p)" and "r' \<le> fp_top (variant p)" and "r mod par_P (variant p) = r' mod par_P (variant p)"
proof -
  let ?x = "RESTR_TO_VAL (variant p) (e ! i)"
  have r: "r = fp_store (variant p) (FPRED_SINGLE (variant p) (?x * b ! i))" "r' = fp_red (variant p) (?x * b ! i)"
    using assms(1) by (simp_all add: r_def r'_def fp_vec_by_fp_vec_pointwise_avx_def fp_vec_by_fp_vec_pointwise_def convert_restr_vec_to_fp_def)
  have "?x \<le> fp_top (variant p)" using RESTR_TO_VAL_lt [OF assms(2)] by (rule fp_lt_top)
  note fp.prod_bound0 [OF this assms(3)]
  with FPRED_SINGLE_restr [OF assms(2,3)] show "r \<le> fp_top (variant p)" "r' \<le> fp_top (variant p)"
    "r mod par_P (variant p) = r' mod par_P (variant p)"
    unfolding r by (simp_all add: fp.red_le fp.red_mod)
qed

definition fold_bound :: "rsdp_variant \<Rightarrow> nat \<Rightarrow> nat" where
  \<comment> \<open>after \<open>n\<close> additions of \<open>restr_vec_by_fp_matrix\<close>\<close>
  "fold_bound v n = (case v of RSDP \<Rightarrow> if n \<le> 126 then 127 + n * 127 else 254 + (n - 127) * 127 | RSDPG \<Rightarrow> 508 + n * 508)"

lemma restr_mac_step:
  assumes x: "x \<le> par_Z v" and c: "c \<le> fp_top v" and r: "r \<le> fold_bound v n" and n: "n < 150"
  defines "w \<equiv> take_bit (FP_DOUBLEPREC_BITS v) (r + FPRED_SINGLE v (RESTR_TO_VAL v x * c))"
  defines "r' \<equiv> (if n = par_P v - 1 then take_bit (FP_DOUBLEPREC_BITS v) (FPRED_SINGLE v w) else w)"
  shows "r' \<le> fold_bound v (Suc n) \<and> r' mod par_P v = (r + RESTR_TO_VAL v x * c) mod par_P v"
proof -
  let ?s = "r + FPRED_SINGLE v (RESTR_TO_VAL v x * c)"
  note f = FPRED_SINGLE_restr [OF x c]
  have s: "?s mod par_P v = (r + RESTR_TO_VAL v x * c) mod par_P v" by (rule mod_add_cong [OF refl f(2)])
  show ?thesis
  proof (cases v)
    case RSDP
    have le: "?s \<le> fold_bound v n + 127" using r f(1) by (simp add: RSDP del: FPRED_SINGLE.simps RESTR_TO_VAL.simps)
    also have "\<dots> < 2 ^ 16" using n by (auto simp: fold_bound_def RSDP split: if_splits)
    finally have w: "w = ?s" by (simp add: w_def RSDP FP_DOUBLEPREC_BITS_def take_bit_nat_eq_self del: FPRED_SINGLE.simps RESTR_TO_VAL.simps)
    show ?thesis
    proof (cases "n = 126")
      case False
      then have "r' = ?s" by (simp add: r'_def w RSDP del: FPRED_SINGLE.simps RESTR_TO_VAL.simps)
      moreover have "fold_bound v n + 127 \<le> fold_bound v (Suc n)" using False by (auto simp: fold_bound_def RSDP Suc_diff_le)
      ultimately show ?thesis using le s by simp
    next
      case True
      then have "?s \<le> 128 * 127" using le by (simp add: fold_bound_def RSDP del: FPRED_SINGLE.simps RESTR_TO_VAL.simps)
      then have "?s div 128 \<le> 127" using div_le_mono [of ?s "128 * 127" 128] by simp
      moreover have "?s mod 128 < 128" by simp
      ultimately have b: "FPRED_SINGLE RSDP ?s \<le> 254" unfolding FPRED_SINGLE.simps(1) [of ?s] fold7 by linarith
      then have "r' = FPRED_SINGLE RSDP ?s" using True
        by (simp add: r'_def w RSDP FP_DOUBLEPREC_BITS_def take_bit_nat_eq_self del: FPRED_SINGLE.simps RESTR_TO_VAL.simps)
      moreover have "fold_bound v (Suc n) = 254" by (simp add: True fold_bound_def RSDP)
      ultimately show ?thesis using b s FPRED_SINGLE_127_mod [of ?s] by (simp add: RSDP del: FPRED_SINGLE.simps RESTR_TO_VAL.simps)
    qed
  next
    case RSDPG
    have le: "?s \<le> fold_bound v (Suc n)" using r f(1) by (simp add: RSDPG fold_bound_def del: FPRED_SINGLE.simps RESTR_TO_VAL.simps)
    also have "\<dots> < 2 ^ 32" using n by (simp add: fold_bound_def RSDPG)
    finally have w: "w = ?s" by (simp add: w_def RSDPG FP_DOUBLEPREC_BITS_def take_bit_nat_eq_self del: FPRED_SINGLE.simps RESTR_TO_VAL.simps)
    have "r' = ?s" using n by (simp add: r'_def w RSDPG del: FPRED_SINGLE.simps RESTR_TO_VAL.simps)
    then show ?thesis using le s by simp
  qed
qed

lemma restr_mac_final:
  assumes "r \<le> fold_bound v n" and "n \<le> 150"
  shows "fp_store v (FPRED_SINGLE v r) \<le> fp_wide v" and "fp_store v (FPRED_SINGLE v r) mod par_P v = r mod par_P v"
proof -
  have "FPRED_SINGLE v r \<le> fp_wide v \<and> FPRED_SINGLE v r mod par_P v = r mod par_P v"
  proof (cases v)
    case RSDP
    have "r < 128 * 127" using assms by (auto simp: fold_bound_def RSDP split: if_splits)
    then have "r div 128 < 127" by (simp add: less_mult_imp_div_less)
    moreover have "r mod 128 < 128" by simp
    ultimately have "FPRED_SINGLE RSDP r \<le> 253" unfolding FPRED_SINGLE.simps(1) fold7 by linarith
    then show ?thesis using FPRED_SINGLE_127_mod [of r] by (simp add: RSDP del: FPRED_SINGLE.simps)
  next
    case RSDPG
    then have "FPRED_SINGLE RSDPG r = r mod 509" using assms by (intro FPRED_SINGLE_509) (simp add: fold_bound_def)
    then show ?thesis by (simp add: RSDPG less_Suc_eq_le [symmetric] del: FPRED_SINGLE.simps)
  qed
  then show "fp_store v (FPRED_SINGLE v r) \<le> fp_wide v" and "fp_store v (FPRED_SINGLE v r) mod par_P v = r mod par_P v" by simp_all
qed

theorem restr_vec_by_fp_matrix_avx_same:
  assumes e: "length e = par_N p" "fz_ok (variant p) e"
    and V: "mat_ok (par_P (variant p)) (par_K p) (par_N p - par_K p) V"
  shows "fp_dz_norm_synd p (restr_vec_by_fp_matrix_avx p e V) = fp_dz_norm_synd p (restr_vec_by_fp_matrix p e V)"
proof (rule fp_dz_norm_synd_eqI)
  fix j assume j: "j < par_N p - par_K p"
  let ?v = "variant p" and ?n = "par_N p - par_K p" and ?x = "\<lambda>i. RESTR_TO_VAL (variant p) (e ! i)"
  define step where "step res_dprec i = map (\<lambda>j.
      let r = take_bit (FP_DOUBLEPREC_BITS ?v) (res_dprec ! j + FPRED_SINGLE ?v (?x i * V ! i ! j))
      in if i = par_P ?v - 1 then take_bit (FP_DOUBLEPREC_BITS ?v) (FPRED_SINGLE ?v r) else r) [0..<?n]" for res_dprec i
  have ei: "e ! i \<le> par_Z ?v" if "i < par_N p" for i using e that by (auto simp: fz_ok_def)
  let ?r = "\<lambda>k. foldl step (map (\<lambda>i. ?x (par_K p + i)) [0..<?n]) [0..<k] ! j"
  have k: "par_K p \<le> 150" using par_K_bounds(2,3) [of p] by (cases ?v) simp_all
  have run: "?r k \<le> fold_bound ?v k \<and> ?r k mod par_P ?v = (?x (par_K p + j) + (\<Sum>i<k. ?x i * V ! i ! j)) mod par_P ?v"
    if "k \<le> par_K p" for k
    using that
  proof (induction k)
    case 0
    have "?x (par_K p + j) \<le> fold_bound ?v 0"
      using RESTR_TO_VAL_lt [of "e ! (par_K p + j)" ?v] ei [of "par_K p + j"] j
      by (cases ?v) (simp_all add: fold_bound_def del: RESTR_TO_VAL.simps)
    then show ?case using j by simp
  next
    case (Suc k)
    have kK: "k < par_K p" using Suc.prems by simp
    have "V ! k ! j < par_P ?v" by (rule mat_ok_nth [OF V kK j])
    then have c: "V ! k ! j \<le> fp_top ?v" by (rule fp_lt_top)
    have ek: "e ! k \<le> par_Z ?v" using ei kK par_K_lt_N [of p] by simp
    have "k < 150" using kK \<open>par_K p \<le> 150\<close> by simp
    have IH: "?r k \<le> fold_bound ?v k" using Suc by simp
    let ?w = "take_bit (FP_DOUBLEPREC_BITS ?v) (?r k + FPRED_SINGLE ?v (?x k * V ! k ! j))"
    have new: "?r (Suc k) = (if k = par_P ?v - 1 then take_bit (FP_DOUBLEPREC_BITS ?v) (FPRED_SINGLE ?v ?w) else ?w)"
      using j by (simp add: step_def Let_def)
    have "?r (Suc k) \<le> fold_bound ?v (Suc k) \<and> ?r (Suc k) mod par_P ?v = (?r k + ?x k * V ! k ! j) mod par_P ?v"
      unfolding new by (rule restr_mac_step [OF ek c IH \<open>k < 150\<close>])
    moreover have "(?r k + ?x k * V ! k ! j) mod par_P ?v
        = (?x (par_K p + j) + (\<Sum>i<k. ?x i * V ! i ! j) + ?x k * V ! k ! j) mod par_P ?v"
      by (rule mod_add_cong [OF _ refl]) (use Suc in simp)
    ultimately show ?case by (simp add: add.assoc)
  qed
  have avx: "restr_vec_by_fp_matrix_avx p e V ! j = fp_store ?v (FPRED_SINGLE ?v (?r (par_K p)))"
    using j by (simp add: restr_vec_by_fp_matrix_avx_def Let_def step_def [abs_def])
  have conv: "syn_ok p (convert_restr_vec_to_fp p e) V"
    by (rule syn_okI) (use e V in \<open>simp_all add: convert_le\<close>)
  have "dot p (convert_restr_vec_to_fp p e) V j = ?x (par_K p + j) + (\<Sum>i<par_K p. ?x i * V ! i ! j)"
  proof -
    have "par_K p + j < par_N p" using j by linarith
    then show ?thesis using par_K_lt_N [of p] by (simp add: dot_def convert_restr_vec_to_fp_def)
  qed
  with fp_vec_by_fp_matrix_nth [OF conv j] syn_nth_le [OF conv j] restr_mac_final [OF conjunct1 [OF run [OF order_refl]] k] run [OF order_refl]
  show "restr_vec_by_fp_matrix_avx p e V ! j \<le> fp_wide ?v \<and> restr_vec_by_fp_matrix p e V ! j \<le> fp_wide ?v \<and>
      restr_vec_by_fp_matrix_avx p e V ! j mod par_P ?v = restr_vec_by_fp_matrix p e V ! j mod par_P ?v"
    unfolding avx restr_syndrome_eq [OF e(1)] by (simp add: fp_top_le_wide)
qed

lemma FPRED_SINGLE_scaled:
  assumes "s \<le> fp_top v" and "c < par_P v"
  shows "fp_norm v (fp_store v (FPRED_SINGLE v (s * c))) = fp_norm v (fp_red v (s * c))"
proof -
  have "FPRED_SINGLE v (s * c) \<le> fp_wide v \<and> FPRED_SINGLE v (s * c) mod par_P v = s * c mod par_P v"
  proof (cases v)
    case RSDP
    have "s * c \<le> 127 * 126" using assms by (intro mult_le_mono) (simp_all add: RSDP)
    then have "s * c div 128 \<le> 127 * 126 div 128" by (rule div_le_mono)
    from fold7_le [OF this] have "FPRED_SINGLE RSDP (s * c) \<le> 253" by simp
    then show ?thesis using FPRED_SINGLE_127_mod [of "s * c"] by (simp add: RSDP del: FPRED_SINGLE.simps)
  next
    case RSDPG
    have "s * c \<le> 508 * 508" using assms by (intro mult_le_mono) (simp_all add: RSDPG)
    then have "FPRED_SINGLE RSDPG (s * c) = s * c mod 509" by (intro FPRED_SINGLE_509) simp
    then show ?thesis by (simp add: RSDPG less_Suc_eq_le [symmetric] del: FPRED_SINGLE.simps)
  qed
  moreover have "fp_red v (s * c) \<le> fp_top v \<and> fp_red v (s * c) mod par_P v = s * c mod par_P v"
    using fp.prod_bound0 [OF assms(1) fp_lt_top [OF assms(2)]] fp.red_le fp.red_mod by blast
  ultimately show ?thesis by (simp add: fp_norm_wide fp_top_le_wide)
qed

theorem fp_synd_minus_fp_vec_scaled_avx_same:
  assumes "\<And>j. j < par_N p - par_K p \<Longrightarrow> s ! j \<le> fp_top (variant p)" and "c < par_P (variant p)"
  shows "fp_synd_minus_fp_vec_scaled_avx p synd c s = fp_synd_minus_fp_vec_scaled p synd c s"
  unfolding fp_synd_minus_fp_vec_scaled_avx_def fp_synd_minus_fp_vec_scaled_def Let_def
  by (rule map_cong) (simp_all add: FPRED_SINGLE_scaled assms)

section \<open>The product of the exponents\<close>

lemma fz_inf_w_avx_nth:
  assumes G: "variant p = RSDPG" and w: "length w = par_M p" "\<And>i. i < par_M p \<Longrightarrow> w ! i \<le> 127"
    and W: "mat_ok 127 (par_M p) (par_N p - par_M p) W" and j: "j < par_N p - par_M p"
  shows "fz_inf_w_by_fz_matrix_avx p w W ! j \<le> 127"
    and "fz_inf_w_by_fz_matrix_avx p w W ! j mod 127 = (\<Sum>i<par_M p. w ! i * W ! i ! j) mod 127"
proof -
  define n where "n = par_N p - par_M p"
  define width where "width = ROUND_UP n 16"
  have wd: "n \<le> width" "width div 16 * 16 = width" using ROUND_UP_facts [of 16 n] by (simp_all add: width_def)
  define rows :: "u16 list list" where "rows = pad_rows width W (par_M p) n"
  have jn: "j < n" using j by (simp add: n_def)
  have Wij: "W ! i ! j \<le> 126" if "i < par_M p" for i using mat_ok_nth [OF W that j] by simp
  have row: "unat (rows ! i ! j) = W ! i ! j" "length (rows ! i) = width" if "i < par_M p" for i
    using Wij [OF that] jn wd(1) that unfolding rows_def by (simp_all add: pad_rows_nth unat_of_nat)
  let ?m = "mac_rows_epi16 (\<lambda>i. w ! i) rows (par_M p) width (replicate width 0)"
  let ?s = "unat (?m ! j)"
  have w255: "w ! i \<le> 255" if "i < par_M p" for i using w(2) [OF that] by simp
  have s: "?s = (\<Sum>i<par_M p. FPRED_SINGLE RSDP (w ! i * W ! i ! j))"
    using mac_rows_epi16_nth(1) [where res = "replicate width 0" and width = width and k = "par_M p" and rows = rows and coef = "\<lambda>i. w ! i" and x = j]
      row w255 Wij jn wd par_K_bounds(4) [of p] by (simp add: order_trans [OF Wij] cong: sum.cong_simp)
  have le: "FPRED_SINGLE RSDP (w ! i * W ! i ! j) \<le> 252" if "i < par_M p" for i
  proof -
    have "w ! i * W ! i ! j \<le> 127 * 126" using w(2) Wij that by (intro mult_le_mono) simp_all
    then have "w ! i * W ! i ! j div 128 \<le> 127 * 126 div 128" by (rule div_le_mono)
    from fold7_le [OF this] show ?thesis by simp
  qed
  have "?s \<le> (\<Sum>i<par_M p. 252)" unfolding s by (rule sum_mono) (use le in simp)
  moreover have "par_M p \<le> 64" by (cases "variant p"; cases "cat p"; cases "corner p"; simp add: par_unfold)
  ultimately have "?s \<le> 127 + 127 * 127" by simp
  then have d: "FZRED_DOUBLE RSDPG ?s \<le> 127" by (rule FZRED_DOUBLE_le)
  have "(\<Sum>i<par_M p. FPRED_SINGLE RSDP (w ! i * W ! i ! j)) mod 127 = (\<Sum>i<par_M p. FPRED_SINGLE RSDP (w ! i * W ! i ! j) mod 127) mod 127"
    by (rule mod_sum_eq [symmetric])
  also have "\<dots> = (\<Sum>i<par_M p. w ! i * W ! i ! j) mod 127" unfolding FPRED_SINGLE_127_mod by (rule mod_sum_eq)
  finally have m: "FZRED_DOUBLE RSDPG ?s mod 127 = (\<Sum>i<par_M p. w ! i * W ! i ! j) mod 127"
    using FZRED_DOUBLE_mod [of RSDPG ?s] by (simp add: s)
  have "fz_inf_w_by_fz_matrix_avx p w W ! j = fz_store RSDPG (FZRED_DOUBLE RSDPG ?s)"
    unfolding fz_inf_w_by_fz_matrix_avx_def G Let_def n_def [symmetric] width_def [symmetric] rows_def [symmetric]
    using jn by (simp add: nth_append)
  with d m show "fz_inf_w_by_fz_matrix_avx p w W ! j \<le> 127"
    "fz_inf_w_by_fz_matrix_avx p w W ! j mod 127 = (\<Sum>i<par_M p. w ! i * W ! i ! j) mod 127" by simp_all
qed

theorem fz_inf_w_by_fz_matrix_avx_same:
  assumes G: "variant p = RSDPG" and w: "length w = par_M p" "fz_ok (variant p) w"
    and W: "mat_ok (par_Z (variant p)) (par_M p) (par_N p - par_M p) W" and i: "i < par_N p"
  shows "fz_inf_w_by_fz_matrix_avx p w W ! i \<le> 127" and "fz_inf_w_by_fz_matrix p w W ! i \<le> 127"
    and "fz_inf_w_by_fz_matrix_avx p w W ! i mod 127 = fz_inf_w_by_fz_matrix p w W ! i mod 127"
proof -
  have le: "w ! i \<le> 127" if "i < par_M p" for i using w G that by (auto simp: fz_ok_def)
  have W': "mat_ok 127 (par_M p) (par_N p - par_M p) W" using W G by simp
  have len: "length (fz_inf_w_by_fz_matrix_avx p w W) = par_N p - par_M p + par_M p"
    using w by (simp add: fz_inf_w_by_fz_matrix_avx_def Let_def)
  have "fz_inf_w_by_fz_matrix_avx p w W ! i \<le> 127 \<and> fz_inf_w_by_fz_matrix p w W ! i \<le> 127 \<and>
      fz_inf_w_by_fz_matrix_avx p w W ! i mod 127 = fz_inf_w_by_fz_matrix p w W ! i mod 127"
  proof (cases "i < par_N p - par_M p")
    case True
    have rows: "W ! k ! i \<le> 127" if "k < par_M p" for k using mat_ok_nth [OF W' that True] by simp
    have ref: "fz_inf_w_by_fz_matrix p w W ! i = mac_rows (\<lambda>x. fz_store RSDPG (FZRED_DOUBLE RSDPG x)) (\<lambda>i. w ! i) W (par_M p)
        (replicate (par_N p - par_M p) 0) ! i"
      using True by (simp add: fz_inf_w_by_fz_matrix_def nth_append G)
    show ?thesis using fz_inf_w_avx_nth [OF G w(1) le W' True]
        fz.mac_rows_nth [of i "replicate (par_N p - par_M p) 0" "par_M p" "\<lambda>i. w ! i" W] le rows True
      unfolding ref by simp
  next
    case False
    then have "i - (par_N p - par_M p) < par_M p" using i by linarith
    then show ?thesis using False le w
      by (simp add: fz_inf_w_by_fz_matrix_avx_def fz_inf_w_by_fz_matrix_def Let_def nth_append)
  qed
  then show "fz_inf_w_by_fz_matrix_avx p w W ! i \<le> 127" "fz_inf_w_by_fz_matrix p w W ! i \<le> 127"
    "fz_inf_w_by_fz_matrix_avx p w W ! i mod 127 = fz_inf_w_by_fz_matrix p w W ! i mod 127" by auto
qed

lemma fz_norm_elem_eq:
  "a \<le> par_Z v \<Longrightarrow> b \<le> par_Z v \<Longrightarrow> a mod par_Z v = b mod par_Z v \<Longrightarrow>
    fz_store v (FZ_DOUBLE_ZERO_NORM v a) = fz_store v (FZ_DOUBLE_ZERO_NORM v b)"
  by (simp add: fz_norm_elem)

lemma RESTR_TO_VAL_cong:
  assumes "a \<le> par_Z v" and "b \<le> par_Z v" and "a mod par_Z v = b mod par_Z v"
  shows "RESTR_TO_VAL v a = RESTR_TO_VAL v b"
  unfolding RESTR_TO_VAL_eq [OF assms(1)] RESTR_TO_VAL_eq [OF assms(2)]
  using restr_gen_pow_mod [of v a] restr_gen_pow_mod [of v b] assms(3) by simp

lemma fz_inf_w_avx_norm:
  assumes "variant p = RSDPG" and "length w = par_M p" and "fz_ok (variant p) w"
    and "mat_ok (par_Z (variant p)) (par_M p) (par_N p - par_M p) W"
  shows "fz_dz_norm_n p (fz_inf_w_by_fz_matrix_avx p w W) = fz_dz_norm_n p (fz_inf_w_by_fz_matrix p w W)"
    and "convert_restr_vec_to_fp p (fz_inf_w_by_fz_matrix_avx p w W) = convert_restr_vec_to_fp p (fz_inf_w_by_fz_matrix p w W)"
proof -
  note same = fz_inf_w_by_fz_matrix_avx_same [OF assms]
  show "fz_dz_norm_n p (fz_inf_w_by_fz_matrix_avx p w W) = fz_dz_norm_n p (fz_inf_w_by_fz_matrix p w W)"
    unfolding fz_dz_norm_n_def by (rule map_cong [OF refl], rule fz_norm_elem_eq) (use same assms(1) in auto)
  show "convert_restr_vec_to_fp p (fz_inf_w_by_fz_matrix_avx p w W) = convert_restr_vec_to_fp p (fz_inf_w_by_fz_matrix p w W)"
    unfolding convert_restr_vec_to_fp_def by (rule map_cong [OF refl], rule RESTR_TO_VAL_cong) (use same assms(1) in auto)
qed

section \<open>The responses of RSDP by table lookup\<close>

lemma byte_of_lane16:
  "(lane (2 * k) v :: byte) = ucast (lane k v :: u16)" "(lane (2 * k + 1) v :: byte) = ucast (drop_bit 8 (lane k v :: u16))"
proof -
  have pos: "8 * (2 * k) + n = 16 * k + n" "8 * (2 * k + 1) + n = 16 * k + (8 + n)" for n :: nat by simp_all
  show "(lane (2 * k) v :: byte) = ucast (lane k v :: u16)" "(lane (2 * k + 1) v :: byte) = ucast (drop_bit 8 (lane k v :: u16))"
    by (rule bit_word_eqI; simp add: bit_lane bit_ucast_iff bit_drop_bit_eq pos add.assoc del: mult_Suc_right One_nat_def)+
qed

lemma lane_srli_si256_7:
  assumes "h < 2" and "b < 16"
  shows "(lane (16 * h + b) (mm256_srli_si256 a 7) :: byte) = (if b + 7 < 16 then lane (16 * h + b + 7) a else 0)"
proof (rule bit_word_eqI)
  fix n assume n: "n < LENGTH(8)"
  have q: "8 * (16 * h + b) + n = 128 * h + (8 * b + n)" and lt: "8 * b + n < 128" using n assms(2) by simp_all
  then have d: "(8 * (16 * h + b) + n) div 128 = h" "(8 * (16 * h + b) + n) mod 128 = 8 * b + n" unfolding q by simp_all
  have "8 * (16 * h + b) + n < 256" using assms lt by simp
  then have "bit (lane (16 * h + b) (mm256_srli_si256 a 7) :: byte) n = bit (lane h a :: 128 word) (56 + (8 * b + n))"
    using n assms d lt by (simp add: bit_lane mm256_srli_si256_def map_lanes_def bit_of_lanes bit_drop_bit_eq)
  also have "\<dots> = bit (if b + 7 < 16 then lane (16 * h + b + 7) a else 0 :: byte) n"
  proof (cases "b + 7 < 16")
    case True
    then have "56 + (8 * b + n) < 128" using n by simp
    moreover have "128 * h + (56 + (8 * b + n)) = 8 * (16 * h + b + 7) + n" by simp
    ultimately show ?thesis using True n by (simp add: bit_lane ac_simps)
  qed (auto simp: bit_lane)
  finally show "bit (lane (16 * h + b) (mm256_srli_si256 a 7) :: byte) n = bit (if b + 7 < 16 then lane (16 * h + b + 7) a else 0 :: byte) n" .
qed

lemma lane_high_bits:
  assumes "i < 32"
  shows "(lane i (mm256_srli_epi16 (mm256_and_si256 x (mm256_set1_epi8 0x80)) 7) :: byte) = drop_bit 7 (lane i x)"
proof (rule bit_word_eqI)
  fix n assume n: "n < LENGTH(8)"
  let ?y = "mm256_and_si256 x (mm256_set1_epi8 0x80)"
  have y: "(lane j ?y :: byte) = lane j x AND 0x80" if "j < 32" for j using that by (simp add: avx)
  have b80: "bit (0x80 :: byte) m \<longleftrightarrow> m = 7" if "m < 8" for m
  proof -
    have "m \<in> {0, 1, 2, 3, 4, 5, 6, 7}" using that by auto
    then show ?thesis by (auto simp: bit_iff_odd)
  qed
  define k r where "k = i div 2" and "r = i mod 2"
  have i: "i = 2 * k + r" "r < 2" "k < 16" using assms by (simp_all add: k_def r_def)
  have pos: "8 * i + n = 16 * k + (8 * r + n)" and lt: "8 * r + n < 16" using i n by simp_all
  have "bit (lane i (mm256_srli_epi16 ?y 7) :: byte) n = bit (lane k (mm256_srli_epi16 ?y 7) :: u16) (8 * r + n)"
    using n lt by (simp add: bit_lane pos)
  also have "\<dots> = bit (lane k ?y :: u16) (7 + (8 * r + n))" by (simp only: lane_arith(8) [OF i(3)] bit_drop_bit_eq comp_apply)
  also have "\<dots> = (7 + (8 * r + n) < 16 \<and> bit ?y (8 * i + (n + 7)))" by (simp add: bit_lane i algebra_simps)
  also have "\<dots> = (n = 0 \<and> bit (lane i x :: byte) 7)"
  proof (cases "n = 0")
    case True
    have "bit ?y (8 * i + 7) = bit (lane i ?y :: byte) 7" by (simp add: bit_lane)
    then show ?thesis using True lt y [OF assms] b80 [of 7] by (simp add: bit_and_iff)
  next
    case False
    show ?thesis
    proof (cases "7 + (8 * r + n) < 16")
      case True
      then have "i + 1 < 32" using False i by simp
      have q: "8 * i + (n + 7) = 8 * (i + 1) + (n - 1)" using False by simp
      have "bit ?y (8 * i + (n + 7)) = bit (lane (i + 1) ?y :: byte) (n - 1)" unfolding q using n by (subst bit_lane) auto
      also have "\<dots> = False" using y [OF \<open>i + 1 < 32\<close>] b80 [of "n - 1"] n by (auto simp: bit_and_iff)
      finally show ?thesis using False by simp
    qed (use False in simp)
  qed
  also have "\<dots> = bit (drop_bit 7 (lane i x) :: byte) n"
    using n by (cases "n = 0") (auto simp: bit_drop_bit_eq bit_lane)
  finally show "bit (lane i (mm256_srli_epi16 ?y 7) :: byte) n = bit (drop_bit 7 (lane i x) :: byte) n" .
qed

lemma scaled_lanes:
  fixes c :: nat
  assumes c: "c < 128" and k: "k < 16"
  defines "lut \<equiv> mm256_add_epi16 (mm256_and_si256 (mm256_mullo_epi16 (mm256_set_epi16
      [0x0001, 0x0020, 0x0008, 0x0002, 0x0040, 0x0010, 0x0004, 0x0001,
       0x0001, 0x0020, 0x0008, 0x0002, 0x0040, 0x0010, 0x0004, 0x0001]) (mm256_set1_epi16 (of_nat c))) (mm256_set1_epi16 0x007f))
      (mm256_srli_epi16 (mm256_mullo_epi16 (mm256_set_epi16
      [0x0001, 0x0020, 0x0008, 0x0002, 0x0040, 0x0010, 0x0004, 0x0001,
       0x0001, 0x0020, 0x0008, 0x0002, 0x0040, 0x0010, 0x0004, 0x0001]) (mm256_set1_epi16 (of_nat c))) 7)"
  shows "unat (lane k lut :: u16) = FPRED_SINGLE RSDP (2 ^ ([0, 2, 4, 6, 1, 3, 5, 0] ! (k mod 8)) * c)"
    and "unat (lane k lut :: u16) \<le> 127"
proof -
  let ?t = "[0x0001, 0x0020, 0x0008, 0x0002, 0x0040, 0x0010, 0x0004, 0x0001,
       0x0001, 0x0020, 0x0008, 0x0002, 0x0040, 0x0010, 0x0004, 0x0001] ! (15 - k) :: u16"
  have "k = 0 \<or> k = 1 \<or> k = 2 \<or> k = 3 \<or> k = 4 \<or> k = 5 \<or> k = 6 \<or> k = 7 \<or> k = 8 \<or> k = 9 \<or> k = 10 \<or> k = 11
      \<or> k = 12 \<or> k = 13 \<or> k = 14 \<or> k = 15" using k by presburger
  then have t: "unat ?t = 2 ^ ([0, 2, 4, 6, 1, 3, 5, 0] ! (k mod 8))" and e: "[0, 2, 4, 6, 1, 3, 5, 0] ! (k mod 8) \<le> (6 :: nat)"
    by (elim disjE; simp)+
  let ?e = "[0, 2, 4, 6, 1, 3, 5, 0] ! (k mod 8) :: nat"
  have "(2 :: nat) ^ ?e \<le> 2 ^ 6" using e by (rule power_increasing) simp
  then have "2 ^ ?e * c \<le> 2 ^ 6 * 127" using c by (intro mult_le_mono) simp_all
  then have prod: "unat (?t * of_nat c) = 2 ^ ?e * c"
    using c by (simp add: unat_word_ariths unat_of_nat t)
  have "(lane k lut :: u16) = (?t * of_nat c AND 0x7f) + drop_bit 7 (?t * of_nat c)"
    unfolding lut_def using k by (simp add: avx)
  then show l: "unat (lane k lut :: u16) = FPRED_SINGLE RSDP (2 ^ ?e * c)"
    using unat_fold7 [of "?t * of_nat c"] by (simp only: prod add.commute)
  show "unat (lane k lut :: u16) \<le> 127" unfolding l using c e by (intro fold_rotation) simp_all
qed

lemma scaled_table_byte:
  assumes c: "c < 128" and h: "h < 2" and x: "x \<le> 7"
  shows "unat (lane (16 * h + x) (scaled_table c) :: byte) = FPRED_SINGLE RSDP (RESTR_TO_VAL RSDP x * c)"
    and "unat (lane (16 * h + x) (scaled_table c) :: byte) \<le> 127"
proof -
  define lut where "lut = mm256_add_epi16 (mm256_and_si256 (mm256_mullo_epi16 (mm256_set_epi16
      [0x0001, 0x0020, 0x0008, 0x0002, 0x0040, 0x0010, 0x0004, 0x0001,
       0x0001, 0x0020, 0x0008, 0x0002, 0x0040, 0x0010, 0x0004, 0x0001]) (mm256_set1_epi16 (of_nat c))) (mm256_set1_epi16 0x007f))
      (mm256_srli_epi16 (mm256_mullo_epi16 (mm256_set_epi16
      [0x0001, 0x0020, 0x0008, 0x0002, 0x0040, 0x0010, 0x0004, 0x0001,
       0x0001, 0x0020, 0x0008, 0x0002, 0x0040, 0x0010, 0x0004, 0x0001]) (mm256_set1_epi16 (of_nat c))) 7)"
  let ?val = "\<lambda>k. FPRED_SINGLE RSDP (2 ^ ([0, 2, 4, 6, 1, 3, 5, 0] ! (k mod 8)) * c)"
  have lanes: "unat (lane k lut :: u16) = ?val k" "unat (lane k lut :: u16) \<le> 127" if "k < 16" for k
    unfolding lut_def using scaled_lanes [OF c that] by simp_all
  have even: "unat (lane (2 * k) lut :: byte) = ?val k" and odd: "lane (2 * k + 1) lut = (0 :: byte)" if "k < 16" for k
  proof -
    show "unat (lane (2 * k) lut :: byte) = ?val k"
      unfolding byte_of_lane16 using lanes [OF that] by (simp add: unsigned_ucast_eq take_bit_nat_eq_self del: FPRED_SINGLE.simps)
    have "unat (drop_bit 8 (lane k lut :: u16)) = 0" using lanes(2) [OF that] by (simp add: unat_drop_bit_eq drop_bit_nat_def)
    then have "drop_bit 8 (lane k lut :: u16) = 0" by (simp add: unsigned_eq_0_iff)
    then show "lane (2 * k + 1) lut = (0 :: byte)" unfolding byte_of_lane16 by simp
  qed
  have tab: "(lane (16 * h + x) (scaled_table c) :: byte) = lane (16 * h + x) lut OR lane (16 * h + x + 7) lut"
  proof -
    have "scaled_table c = mm256_or_si256 lut (mm256_srli_si256 lut 7)" by (simp add: scaled_table_def lut_def Let_def)
    moreover have "(lane (16 * h + x) (mm256_srli_si256 lut 7) :: byte) = lane (16 * h + x + 7) lut"
      using lane_srli_si256_7 [OF h, of x lut] x by simp
    ultimately show ?thesis by (simp add: avx)
  qed
  have x8: "x < 8" using x by simp
  have *: "unat (lane (16 * h + x) (scaled_table c) :: byte) = FPRED_SINGLE RSDP (2 ^ (x mod 7) * c)"
  proof (cases "even x")
    case True
    then obtain k where k: "x = 2 * k" by blast
    then have "k < 4" using x by simp
    have pos: "16 * h + x = 2 * (8 * h + k)" "16 * h + x + 7 = 2 * (8 * h + k + 3) + 1" by (simp_all add: k)
    have lt: "8 * h + k < 16" "8 * h + k + 3 < 16" using h \<open>k < 4\<close> by simp_all
    have "k = 0 \<or> k = 1 \<or> k = 2 \<or> k = 3" using \<open>k < 4\<close> by linarith
    then have "[0, 2, 4, 6, 1, 3, 5, 0] ! ((8 * h + k) mod 8) = x mod 7" by (auto simp: k)
    then show ?thesis unfolding tab pos(2) unfolding pos(1) odd [OF lt(2)] or.right_neutral even [OF lt(1)] by (simp only:)
  next
    case False
    then obtain k where k: "x = 2 * k + 1" by (auto elim: oddE)
    then have "k < 4" using x by simp
    have pos: "16 * h + x = 2 * (8 * h + k) + 1" "16 * h + x + 7 = 2 * (8 * h + k + 4)" by (simp_all add: k)
    have lt: "8 * h + k < 16" "8 * h + k + 4 < 16" using h \<open>k < 4\<close> by simp_all
    have "k = 0 \<or> k = 1 \<or> k = 2 \<or> k = 3" using \<open>k < 4\<close> by linarith
    then have "[0, 2, 4, 6, 1, 3, 5, 0] ! ((8 * h + k + 4) mod 8) = x mod 7" by (auto simp: k add.assoc mod_mult_self4)
    then show ?thesis unfolding tab pos(2) unfolding pos(1) odd [OF lt(1)] or.left_neutral even [OF lt(2)] by (simp only:)
  qed
  have "x \<in> {0, 1, 2, 3, 4, 5, 6, 7}" using x by auto
  then have "RESTR_TO_VAL RSDP x = 2 ^ (x mod 7)" by (auto simp: restr_table_rsdp)
  then show "unat (lane (16 * h + x) (scaled_table c) :: byte) = FPRED_SINGLE RSDP (RESTR_TO_VAL RSDP x * c)" by (simp only: *)
  have "x mod 7 \<le> 6" by (simp add: less_Suc_eq_le [symmetric])
  then show "unat (lane (16 * h + x) (scaled_table c) :: byte) \<le> 127" unfolding * using c by (intro fold_rotation) simp_all
qed

lemma unat_fold7_byte:
  fixes t :: byte
  shows "unat (drop_bit 7 t + (t AND 0x7f)) = FPRED_SINGLE RSDP (unat t)"
proof -
  have a: "unat (t AND 0x7f) = unat t mod 128" by (simp add: unsigned_and_eq fold7(1) [symmetric])
  have d: "unat (drop_bit 7 t) = unat t div 128" by (simp add: unat_drop_bit_eq fold7)
  have t: "unat t < 256" using unsigned_less [of t, where 'a = nat] by simp
  have "unat t div 128 + unat t mod 128 < 2 ^ LENGTH(8)"
  proof (cases "unat t < 128")
    case False
    then have "unat t div 128 = 1" "unat t mod 128 = unat t - 128" using t by (simp_all add: div_nat_eqI le_mod_geq)
    then show ?thesis using t by simp
  qed simp
  then have "unat (drop_bit 7 t + (t AND 0x7f)) = unat (drop_bit 7 t) + unat (t AND 0x7f)"
    unfolding a [symmetric] d [symmetric] by (rule iffD1 [OF unat_add_lem])
  then show ?thesis by (simp only: a d FPRED_SINGLE.simps fold7 add.commute)
qed

lemma scaled_word_byte:
  assumes c: "c < 128" and i: "i < 32" and x: "x \<le> 7" and e: "lane i e_word = (of_nat x :: byte)"
    and u: "unat (lane i u_word :: byte) \<le> 127"
  shows "unat (lane i (scaled_word (scaled_table c) e_word u_word) :: byte)
    = FPRED_SINGLE RSDP (FPRED_SINGLE RSDP (RESTR_TO_VAL RSDP x * c) + unat (lane i u_word :: byte))"
proof -
  have "x = 0 \<or> x = 1 \<or> x = 2 \<or> x = 3 \<or> x = 4 \<or> x = 5 \<or> x = 6 \<or> x = 7" using x by linarith
  then have b: "\<not> bit (of_nat x :: byte) 7" "unat (of_nat x AND 15 :: byte) = x"
    by (elim disjE; simp add: bit_iff_odd)+
  have h: "i div 16 < 2" using i by simp
  note T = scaled_table_byte [OF c h x]
  let ?v = "lane (16 * (i div 16) + x) (scaled_table c) :: byte" and ?u = "lane i u_word :: byte"
  have sum: "unat (?v + ?u) = FPRED_SINGLE RSDP (RESTR_TO_VAL RSDP x * c) + unat ?u"
  proof -
    have "unat ?v + unat ?u < 2 ^ LENGTH(8)" using T(2) u by simp
    then have "unat (?v + ?u) = unat ?v + unat ?u" by (rule iffD1 [OF unat_add_lem])
    then show ?thesis by (simp only: T(1))
  qed
  have look: "lane i (mm256_shuffle_epi8 (scaled_table c) e_word) = ?v"
    using i e b by (simp add: lane_shuffle_epi8)
  have "lane i (scaled_word (scaled_table c) e_word u_word) = drop_bit 7 (?v + ?u) + ((?v + ?u) AND 0x7f)"
    using i by (simp add: scaled_word_def Let_def lane_high_bits lane_arith(1) lane_bitwise(3) lane_set1(1) look)
  then show ?thesis by (simp only: unat_fold7_byte sum)
qed

lemma fp_vec_by_restr_vec_scaled_avx_nth:
  assumes e: "\<And>i. i < par_N p \<Longrightarrow> e ! i \<le> par_Z (variant p)" and u: "\<And>i. i < par_N p \<Longrightarrow> u' ! i \<le> fp_top (variant p)"
    and c: "c < par_P (variant p)" and i: "i < par_N p" and r_def: "r = fp_vec_by_restr_vec_scaled_avx p stale e c u' ! i"
  shows "r \<le> fp_top (variant p)"
    and "r mod par_P (variant p) = (u' ! i + RESTR_TO_VAL (variant p) (e ! i) * c) mod par_P (variant p)"
proof -
  let ?x = "RESTR_TO_VAL (variant p) (e ! i)"
  have "r \<le> fp_top (variant p) \<and> r mod par_P (variant p) = (u' ! i + ?x * c) mod par_P (variant p)"
  proof (cases "variant p")
    case RSDP
    define width where "width = ROUND_UP (par_N p) 32"
    have w: "par_N p \<le> width" "width div 32 * 32 = width" using ROUND_UP_facts [of 32 "par_N p"] by (simp_all add: width_def)
    define e_align :: bytes where "e_align = write_at 0 (map (\<lambda>i. of_nat (e ! i)) [0..<par_N p]) (map stale [0..<width])"
    define u_align :: bytes where "u_align = write_at 0 (map (\<lambda>i. of_nat (u' ! i)) [0..<par_N p]) (map stale [0..<width])"
    have len: "length e_align = width" "length u_align = width" using w by (simp_all add: e_align_def u_align_def)
    have nth: "e_align ! i = of_nat (e ! i)" "u_align ! i = of_nat (u' ! i)"
      using i w by (simp_all add: e_align_def u_align_def nth_write_at)
    let ?f = "\<lambda>j. scaled_word (scaled_table c) (mm256_load e_align (j * 32)) (mm256_load u_align (j * 32))"
    have "foldl (\<lambda>res j. mm256_store res (j * 32) (?f j)) (map stale [0..<width]) [0..<width div 32]
        = map (\<lambda>x. (\<lambda>x w. lane (x mod 32) (?f (x div 32)) :: byte) x (map stale [0..<width] ! x)) [0..<width div 32 * 32]"
      by (rule register_loop [where L = 32 and f = "\<lambda>j v. ?f j"]) (simp_all add: w)
    then have "r = unat (lane (i mod 32) (?f (i div 32)) :: byte)"
      unfolding r_def fp_vec_by_restr_vec_scaled_avx_def RSDP Let_def rsdp_variant.case width_def [symmetric]
        e_align_def [symmetric] u_align_def [symmetric] using i w by simp
    moreover have "i div 32 < width div 32" using i w by (simp add: less_mult_imp_div_less)
    then have "i div 32 * 32 + 32 \<le> width" using slot_end [of "i div 32" "width div 32" 32] w(2) by simp
    then have "lane (i mod 32) (mm256_load e_align (i div 32 * 32)) = e_align ! (i div 32 * 32 + i mod 32)"
      "lane (i mod 32) (mm256_load u_align (i div 32 * 32)) = u_align ! (i div 32 * 32 + i mod 32)"
      using len by (intro lane_load; simp)+
    then have "lane (i mod 32) (mm256_load e_align (i div 32 * 32)) = (of_nat (e ! i) :: byte)"
      "lane (i mod 32) (mm256_load u_align (i div 32 * 32)) = (of_nat (u' ! i) :: byte)"
      by (simp_all only: div_mult_mod_eq nth)
    moreover have "unat (of_nat (u' ! i) :: byte) = u' ! i" using u [OF i] by (simp add: RSDP unat_of_nat)
    ultimately have r: "r = FPRED_SINGLE RSDP (FPRED_SINGLE RSDP (RESTR_TO_VAL RSDP (e ! i) * c) + u' ! i)"
      using scaled_word_byte [of c "i mod 32" "e ! i"] e [OF i] u [OF i] c RSDP
      by (simp del: FPRED_SINGLE.simps RESTR_TO_VAL.simps)
    have f: "FPRED_SINGLE RSDP (RESTR_TO_VAL RSDP (e ! i) * c) \<le> 127"
      "FPRED_SINGLE RSDP (RESTR_TO_VAL RSDP (e ! i) * c) mod 127 = RESTR_TO_VAL RSDP (e ! i) * c mod 127"
      using FPRED_SINGLE_restr [of "e ! i" RSDP c] e [OF i] c by (simp_all add: RSDP del: FPRED_SINGLE.simps RESTR_TO_VAL.simps)
    have "r mod 127 = (FPRED_SINGLE RSDP (RESTR_TO_VAL RSDP (e ! i) * c) + u' ! i) mod 127" unfolding r by (rule FPRED_SINGLE_127_mod)
    also have "\<dots> = (RESTR_TO_VAL RSDP (e ! i) * c + u' ! i) mod 127" by (rule mod_add_cong [OF f(2) refl])
    finally have "r mod 127 = (u' ! i + RESTR_TO_VAL RSDP (e ! i) * c) mod 127" by (simp only: add.commute)
    moreover have "r \<le> 127" unfolding r using FPRED_SINGLE_sum(2) [of _ RSDP "u' ! i"] f(1) u [OF i]
      by (simp add: RSDP del: FPRED_SINGLE.simps RESTR_TO_VAL.simps)
    ultimately show ?thesis by (simp add: RSDP)
  next
    case RSDPG
    have "?x \<le> 508" using RESTR_TO_VAL_lt [OF e [OF i]] by (simp add: RSDPG)
    then have "?x * c \<le> 508 * 508" using c by (intro mult_le_mono) (simp_all add: RSDPG)
    then have "u' ! i + ?x * c < 2 ^ 32" using u [OF i] by (simp add: RSDPG)
    then have "FPRED_SINGLE RSDPG (u' ! i + ?x * c) = (u' ! i + ?x * c) mod 509" by (rule FPRED_SINGLE_509)
    moreover have "(u' ! i + ?x * c) mod 509 \<le> 508" by (simp add: less_Suc_eq_le [symmetric])
    ultimately show ?thesis unfolding r_def fp_vec_by_restr_vec_scaled_avx_def RSDPG rsdp_variant.case
      using i fp_store_id [of "(u' ! i + ?x * c) mod 509" RSDPG] by (simp add: RSDPG del: FPRED_SINGLE.simps RESTR_TO_VAL.simps)
  qed
  then show "r \<le> fp_top (variant p)" "r mod par_P (variant p) = (u' ! i + ?x * c) mod par_P (variant p)" by auto
qed

theorem fp_vec_by_restr_vec_scaled_avx_same:
  assumes "length e = par_N p" "fz_ok (variant p) e" and "length u' = par_N p" "fp_canon (variant p) u'" and "c < par_P (variant p)"
  shows "fp_dz_norm p (fp_vec_by_restr_vec_scaled_avx p stale e c u') = fp_dz_norm p (fp_vec_by_restr_vec_scaled p e c u')"
proof (rule fp_dz_norm_eqI)
  fix i assume i: "i < par_N p"
  have e: "e ! k \<le> par_Z (variant p)" if "k < par_N p" for k using assms(1,2) that by (auto simp: fz_ok_def)
  have u: "u' ! k \<le> fp_top (variant p)" if "k < par_N p" for k using assms(3,4) that by (simp add: fp_canon_nth fp_lt_top)
  have "u' ! i + RESTR_TO_VAL (variant p) (e ! i) * c \<le> fp_top (variant p) + fp_top (variant p) * fp_top (variant p)"
    by (intro fp.prod_bound u i fp_lt_top RESTR_TO_VAL_lt e assms(5))
  then show "fp_vec_by_restr_vec_scaled_avx p stale e c u' ! i \<le> fp_wide (variant p) \<and>
      fp_vec_by_restr_vec_scaled p e c u' ! i \<le> fp_wide (variant p) \<and>
      fp_vec_by_restr_vec_scaled_avx p stale e c u' ! i mod par_P (variant p) = fp_vec_by_restr_vec_scaled p e c u' ! i mod par_P (variant p)"
    using fp_vec_by_restr_vec_scaled_avx_nth [OF e u assms(5) i refl, of stale] i
    by (simp add: fp_vec_by_restr_vec_scaled_def fp.red_le fp.red_mod fp_top_le_wide)
qed

end
