(* ===== verification/Cross_x4.thy ===== *)
theory Cross_x4
  imports Cross Merkle_x4 Arith_Avx2
begin

text \<open>
  The scheme of the optimised implementation (\<open>Optimized_Implementation/lib/CROSS.c\<close>):
  the arithmetic runs on AVX2 registers, the trees are built in batches, and the loops
  over the rounds do not hash the commitments of a round at once. Signing keeps one
  queue of up to four rounds and hashes both commitments of all of them by two
  parallel calls; verification keeps two queues, since a revealed round needs its
  second commitment recomputed and a hidden round its first. Memory that is not
  initialised is an argument of the model.
\<close>

section \<open>Key generation\<close>

definition expand_seed_e_x4 :: "cross_params \<Rightarrow> nat list list \<Rightarrow> bytes \<Rightarrow> nat list \<times> nat list" where
  \<comment> \<open>\<open>e_bar\<close> and \<open>e_G_bar\<close>\<close>
  "expand_seed_e_x4 p W_mat seed_e =
     (let dsc_csprng_seed_e = CSPRNG_DOMAIN_SEP_CONST + (3 * par_T p + 3);
          csprng_state_e_bar = csprng_initialize p seed_e dsc_csprng_seed_e
      in case variant p of
           RSDP \<Rightarrow> let (e_bar, csprng_state_e_bar) = csprng_fz_vec p csprng_state_e_bar in (e_bar, [])
         | RSDPG \<Rightarrow> let (e_G_bar, csprng_state_e_bar) = csprng_fz_inf_w p csprng_state_e_bar;
                        e_bar = fz_inf_w_by_fz_matrix_avx p e_G_bar W_mat
                    in (fz_dz_norm_n p e_bar, e_G_bar))"

definition expand_sk_x4 :: "cross_params \<Rightarrow> bytes \<Rightarrow> nat list \<times> nat list \<times> nat list list \<times> nat list list" where
  "expand_sk_x4 p seed_sk =
     (let (seed_e, seed_pk) = expand_seed_sk p seed_sk;
          (V_tr, W_mat) = expand_pk p seed_pk;
          (e_bar, e_G_bar) = expand_seed_e_x4 p W_mat seed_e
      in (e_bar, e_G_bar, V_tr, W_mat))"

definition CROSS_keygen_x4 :: "cross_params \<Rightarrow> incctx \<Rightarrow> (sk_t \<times> pk_t) \<times> incctx" where
  "CROSS_keygen_x4 p platform_csprng_state =
     (let (seed_sk, platform_csprng_state) = randombytes p (KEYPAIR_SEED_LENGTH_BYTES p) platform_csprng_state;
          (seed_e, seed_pk) = expand_seed_sk p seed_sk;
          (V_tr, W_mat) = expand_pk p seed_pk;
          (e_bar, e_G_bar) = expand_seed_e_x4 p W_mat seed_e;
          s = restr_vec_by_fp_matrix_avx p e_bar V_tr;
          s = fp_dz_norm_synd p s
      in ((\<lparr>sk_seed_sk = seed_sk\<rparr>, \<lparr>pk_seed_pk = seed_pk, pk_s = pack_fp_syn p s\<rparr>), platform_csprng_state))"

section \<open>The two tree builds\<close>

definition commit_seeds_x4 :: "cross_params \<Rightarrow> uninitialised \<Rightarrow> bytes \<Rightarrow> bytes \<Rightarrow> bytes list \<times> bytes" where
  "commit_seeds_x4 p u root_seed salt =
     (if no_trees p then ([], fst (seed_leaves_no_trees_x4 p u root_seed salt))
      else let seed_tree = gen_seed_tree_x4 p u (replicate (NUM_NODES_TREE p) (replicate (SEED_LENGTH_BYTES p) 0)) root_seed salt
           in (seed_tree, seed_leaves p seed_tree))"

definition rebuild_seeds_x4 :: "cross_params \<Rightarrow> uninitialised \<Rightarrow> nat list \<Rightarrow> bytes \<Rightarrow> bytes \<Rightarrow> (bytes \<times> bool) option" where
  "rebuild_seeds_x4 p u chall_2 path salt =
     (if no_trees p then rebuild_leaves p (replicate (par_T p * SEED_LENGTH_BYTES p) 0) chall_2 path
      else (case rebuild_tree_x4 p u (replicate (NUM_NODES_TREE p) (replicate (SEED_LENGTH_BYTES p) 0)) chall_2 path salt of
              None \<Rightarrow> None
            | Some (seed_tree, is_stree_padding_ok) \<Rightarrow> Some (seed_leaves p seed_tree, is_stree_padding_ok)))"

definition commit_root_x4 :: "cross_params \<Rightarrow> uninitialised \<Rightarrow> bytes list \<Rightarrow> bytes \<times> bytes list" where
  \<comment> \<open>the root and \<open>merkle_tree\<close>, an uninitialised buffer before\<close>
  "commit_root_x4 p u cmt_0 =
     (if no_trees p then (tree_root_no_trees p cmt_0, []) else tree_root_x4 p u (stale_tree p u) cmt_0)"

definition recompute_commitment_x4 :: "cross_params \<Rightarrow> uninitialised \<Rightarrow> bytes list \<Rightarrow> bytes \<Rightarrow> nat list \<Rightarrow> (bytes \<times> bool) option" where
  "recompute_commitment_x4 p u cmt_0 mtp chall_2 =
     (if no_trees p
      then (case recompute_root_no_trees p cmt_0 mtp chall_2 of
              None \<Rightarrow> None | Some (root, cmt_0, ok) \<Rightarrow> Some (root, ok))
      else recompute_root_x4 p u cmt_0 mtp chall_2)"

section \<open>Hashing a queue\<close>

definition cmt_0_input_size :: "cross_params \<Rightarrow> nat" where
  "cmt_0_input_size p = DENSELY_PACKED_FP_SYN_SIZE p + packed_v_size p + SALT_LENGTH_BYTES p"

definition cmt_1_input_size :: "cross_params \<Rightarrow> nat" where
  "cmt_1_input_size p = SEED_LENGTH_BYTES p + SALT_LENGTH_BYTES p"

definition salted_inputs :: "uninitialised \<Rightarrow> nat \<Rightarrow> bytes \<Rightarrow> bytes list" where
  \<comment> \<open>four inputs with the salt placed at their end\<close>
  "salted_inputs u offset_salt salt =
     replicate 4 (write_at offset_salt salt (map (stale_bytes u) [0..<offset_salt + length salt]))"

definition hash_batch ::
  "cross_params \<Rightarrow> uninitialised \<Rightarrow> (nat \<Rightarrow> bytes \<Rightarrow> 's \<Rightarrow> 's) \<Rightarrow> nat \<Rightarrow> nat list \<Rightarrow> bytes list \<Rightarrow> nat list \<Rightarrow> nat \<Rightarrow> 's \<Rightarrow> 's" where
  \<comment> \<open>\<open>hash_par\<close> with the digests stored at the rounds of the queue\<close>
  "hash_batch p u put n round_idx_queue inputs dscs len s =
     foldl (\<lambda>s (i, digest). put i digest s) s
       (zip round_idx_queue
          (hash_par p u n (inputs ! 0) (inputs ! 1) (inputs ! 2) (inputs ! 3) len (dscs ! 0) (dscs ! 1) (dscs ! 2) (dscs ! 3)))"

section \<open>Signing\<close>

definition expand_round_x4 :: "cross_params \<Rightarrow> nat list list \<Rightarrow> bytes \<Rightarrow> bytes \<Rightarrow> nat \<Rightarrow> nat list \<times> nat list \<times> nat list" where
  "expand_round_x4 p W_mat seed salt i =
     (let csprng_input = seed @ salt;
          domain_sep_csprng = CSPRNG_DOMAIN_SEP_CONST + i + (2 * par_T p - 1);
          csprng_state = csprng_initialize p csprng_input domain_sep_csprng;
          (e_bar_prime, e_G_bar_prime, csprng_state) =
            (case variant p of
               RSDP \<Rightarrow> let (e_bar_prime, csprng_state) = csprng_fz_vec p csprng_state
                       in (e_bar_prime, [], csprng_state)
             | RSDPG \<Rightarrow> let (e_G_bar_prime, csprng_state) = csprng_fz_inf_w p csprng_state;
                            e_bar_prime = fz_inf_w_by_fz_matrix_avx p e_G_bar_prime W_mat
                        in (fz_dz_norm_n p e_bar_prime, e_G_bar_prime, csprng_state));
          (u_prime, csprng_state) = csprng_fp_vec p csprng_state
      in (e_bar_prime, e_G_bar_prime, u_prime))"

record sign_queue =
  sq_to_hash :: nat
  sq_round_idx :: "nat list"
  sq_in_0 :: "bytes list"
  sq_dsc_0 :: "nat list"
  sq_in_1 :: "bytes list"
  sq_dsc_1 :: "nat list"

definition init_sign_queue :: "cross_params \<Rightarrow> uninitialised \<Rightarrow> bytes \<Rightarrow> sign_queue" where
  "init_sign_queue p u salt =
     \<lparr>sq_to_hash = 0, sq_round_idx = replicate 4 0,
      sq_in_0 = salted_inputs u (DENSELY_PACKED_FP_SYN_SIZE p + packed_v_size p) salt, sq_dsc_0 = stale_u16 u,
      sq_in_1 = salted_inputs u (SEED_LENGTH_BYTES p) salt, sq_dsc_1 = stale_u16 u\<rparr>"

definition enqueue_round :: "cross_params \<Rightarrow> sign_queue \<Rightarrow> nat \<Rightarrow> bytes \<Rightarrow> bytes \<Rightarrow> bytes \<Rightarrow> sign_queue" where
  "enqueue_round p q i s_packed v_packed seed =
     (let n = sq_to_hash q + 1;
          cmt_0_i_input = write_at 0 s_packed (sq_in_0 q ! (n - 1));
          cmt_0_i_input = write_at (DENSELY_PACKED_FP_SYN_SIZE p) v_packed cmt_0_i_input;
          cmt_1_i_input = write_at 0 seed (sq_in_1 q ! (n - 1))
      in \<lparr>sq_to_hash = n, sq_round_idx = (sq_round_idx q)[n - 1 := i],
          sq_in_0 = (sq_in_0 q)[n - 1 := cmt_0_i_input], sq_dsc_0 = (sq_dsc_0 q)[n - 1 := domain_sep_hash p i],
          sq_in_1 = (sq_in_1 q)[n - 1 := cmt_1_i_input], sq_dsc_1 = (sq_dsc_1 q)[n - 1 := domain_sep_hash p i]\<rparr>)"

definition put_cmt_0 :: "nat \<Rightarrow> bytes \<Rightarrow> round_t list \<Rightarrow> round_t list" where
  "put_cmt_0 i digest rounds = rounds[i := (rounds ! i)\<lparr>r_cmt_0 := digest\<rparr>]"

definition put_cmt_1 :: "nat \<Rightarrow> bytes \<Rightarrow> round_t list \<Rightarrow> round_t list" where
  "put_cmt_1 i digest rounds = rounds[i := (rounds ! i)\<lparr>r_cmt_1 := digest\<rparr>]"

definition hash_rounds :: "cross_params \<Rightarrow> uninitialised \<Rightarrow> round_t list \<Rightarrow> sign_queue \<Rightarrow> round_t list \<times> sign_queue" where
  "hash_rounds p u rounds q =
     (let rounds = hash_batch p u put_cmt_0 (sq_to_hash q) (sq_round_idx q) (sq_in_0 q) (sq_dsc_0 q) (cmt_0_input_size p) rounds;
          rounds = hash_batch p u put_cmt_1 (sq_to_hash q) (sq_round_idx q) (sq_in_1 q) (sq_dsc_1 q) (cmt_1_input_size p) rounds
      in (rounds, q\<lparr>sq_to_hash := 0\<rparr>))"

definition round_values ::
  "cross_params \<Rightarrow> nat list \<Rightarrow> nat list \<Rightarrow> nat list list \<Rightarrow> nat list list \<Rightarrow> bytes \<Rightarrow> bytes \<Rightarrow> nat \<Rightarrow>
     nat list \<times> nat list \<times> bytes \<times> bytes" where
  \<comment> \<open>\<open>e_bar_prime[i]\<close>, \<open>u_prime[i]\<close>, and \<open>v_bar[i]\<close> (or \<open>v_G_bar[i]\<close>) and \<open>s_prime\<close> as packed\<close>
  "round_values p e_bar e_G_bar V_tr W_mat salt seed i =
     (let (e_bar_prime, e_G_bar_prime, u_prime) = expand_round_x4 p W_mat seed salt i;
          v_bar = fz_vec_sub_n p e_bar e_bar_prime;
          v = convert_restr_vec_to_fp p v_bar;
          v_packed = (case variant p of
              RSDP \<Rightarrow> pack_fz_vec p (fz_dz_norm_n p v_bar)
            | RSDPG \<Rightarrow> pack_fz_rsdp_g_vec p (fz_dz_norm_m p (fz_vec_sub_m p e_G_bar e_G_bar_prime)));
          u = fp_vec_by_fp_vec_pointwise_avx p v u_prime;
          s_prime = fp_vec_by_fp_matrix_avx p u V_tr;
          s_prime = fp_dz_norm_synd p s_prime
      in (e_bar_prime, u_prime, v_packed, pack_fp_syn p s_prime))"

definition set_round :: "nat \<Rightarrow> nat list \<Rightarrow> nat list \<Rightarrow> bytes \<Rightarrow> round_t list \<Rightarrow> round_t list" where
  "set_round i e_bar_prime u_prime v_packed rounds =
     rounds[i := (rounds ! i)\<lparr>r_e_bar_prime := e_bar_prime, r_v_packed := v_packed, r_u_prime := u_prime\<rparr>]"

definition sign_round_x4 ::
  "cross_params \<Rightarrow> uninitialised \<Rightarrow> nat list \<Rightarrow> nat list \<Rightarrow> nat list list \<Rightarrow> nat list list \<Rightarrow> bytes \<Rightarrow> bytes \<Rightarrow>
     round_t list \<times> sign_queue \<Rightarrow> nat \<Rightarrow> round_t list \<times> sign_queue" where
  "sign_round_x4 p u e_bar e_G_bar V_tr W_mat salt round_seeds = (\<lambda>(rounds, q) i.
     let seed = round_seed p round_seeds i;
         (e_bar_prime, u_prime, v_packed, s_packed) = round_values p e_bar e_G_bar V_tr W_mat salt seed i;
         rounds = set_round i e_bar_prime u_prime v_packed rounds;
         q = enqueue_round p q i s_packed v_packed seed
     in if sq_to_hash q = 4 \<or> i = par_T p - 1 then hash_rounds p u rounds q else (rounds, q))"

definition stale_rounds :: "cross_params \<Rightarrow> uninitialised \<Rightarrow> round_t list" where
  \<comment> \<open>the arrays of the rounds, one entry for row \<open>i\<close> of each; only the commitments are initialised\<close>
  "stale_rounds p u =
     (let stale = map (\<lambda>j. unat (stale_bytes u j)) [0..<par_N p]
      in replicate (par_T p)
           \<lparr>r_e_bar_prime = stale, r_v_packed = map (stale_bytes u) [0..<packed_v_size p], r_u_prime = stale,
            r_cmt_0 = replicate (HASH_DIGEST_LENGTH p) 0, r_cmt_1 = replicate (HASH_DIGEST_LENGTH p) 0\<rparr>)"

definition response_1_x4 :: "cross_params \<Rightarrow> uninitialised \<Rightarrow> nat list \<Rightarrow> nat \<Rightarrow> nat list \<Rightarrow> nat list" where
  "response_1_x4 p u e_bar_prime chall u_prime =
     fp_dz_norm p (fp_vec_by_restr_vec_scaled_avx p (stale_bytes u) e_bar_prime chall u_prime)"

definition CROSS_sign_x4 ::
  "cross_params \<Rightarrow> uninitialised \<Rightarrow> sk_t \<Rightarrow> bytes \<Rightarrow> incctx \<Rightarrow> fault + CROSS_sig_t \<times> incctx" where
  "CROSS_sign_x4 p u SK m platform_csprng_state =
     (let sig = zero_sig p;
          (e_bar, e_G_bar, V_tr, W_mat) = expand_sk_x4 p (sk_seed_sk SK);
          (root_seed, platform_csprng_state) = randombytes p (SEED_LENGTH_BYTES p) platform_csprng_state;
          (salt, platform_csprng_state) = randombytes p (SALT_LENGTH_BYTES p) platform_csprng_state;
          seeds = commit_seeds_x4 p u root_seed salt;
          (rounds, q) = foldl (sign_round_x4 p u e_bar e_G_bar V_tr W_mat salt (snd seeds))
                          (stale_rounds p u, init_sign_queue p u salt) [0..<par_T p];
          cmt_0 = map r_cmt_0 rounds;
          cmt_1 = map r_cmt_1 rounds;
          (root, merkle_tree) = commit_root_x4 p u cmt_0;
          digest_cmt = commitment_digest p root cmt_1;
          digest_chall_1 = digest_challenge_1 p m digest_cmt salt;
          chall_1 = challenge_1 p digest_chall_1;
          y = map (\<lambda>i. response_1_x4 p u (r_e_bar_prime (rounds ! i)) (chall_1 ! i) (r_u_prime (rounds ! i))) [0..<par_T p];
          digest_chall_2 = digest_challenge_2 p y digest_chall_1;
          chall_2 = expand_digest_to_fixed_weight p digest_chall_2
      in case checked (open_commitments p (sig_proof sig) cmt_0 merkle_tree chall_2) of
           Inl e \<Rightarrow> Inl e
         | Inr (mtp, _) \<Rightarrow>
             (case checked (release_seeds p (sig_path sig) seeds chall_2) of
                Inl e \<Rightarrow> Inl e
              | Inr (path, _) \<Rightarrow>
                  (case foldE (publish_response p y rounds chall_2) (sig_resp_0 sig, sig_resp_1 sig, 0) [0..<par_T p] of
                     Inl e \<Rightarrow> Inl e
                   | Inr (resp_0, resp_1, published_rsps) \<Rightarrow>
                       Inr (sig\<lparr>sig_salt := salt, sig_digest_cmt := digest_cmt, sig_digest_chall_2 := digest_chall_2,
                                sig_path := path, sig_proof := mtp, sig_resp_0 := resp_0, sig_resp_1 := resp_1\<rparr>,
                            platform_csprng_state))))"

section \<open>Verification\<close>

record verify_queue =
  vq_to_hash :: nat
  vq_round_idx :: "nat list"
  vq_in :: "bytes list"
  vq_dsc :: "nat list"

definition init_verify_queue :: "uninitialised \<Rightarrow> nat \<Rightarrow> bytes \<Rightarrow> verify_queue" where
  "init_verify_queue u offset_salt salt =
     \<lparr>vq_to_hash = 0, vq_round_idx = replicate 4 0, vq_in = salted_inputs u offset_salt salt, vq_dsc = stale_u16 u\<rparr>"

definition enqueue_input :: "cross_params \<Rightarrow> verify_queue \<Rightarrow> nat \<Rightarrow> (bytes \<Rightarrow> bytes) \<Rightarrow> verify_queue" where
  \<comment> \<open>\<open>fill\<close> writes the parts of the input in front of the salt\<close>
  "enqueue_input p q i fill =
     (let n = vq_to_hash q + 1
      in \<lparr>vq_to_hash = n, vq_round_idx = (vq_round_idx q)[n - 1 := i],
          vq_in = (vq_in q)[n - 1 := fill (vq_in q ! (n - 1))], vq_dsc = (vq_dsc q)[n - 1 := domain_sep_hash p i]\<rparr>)"

definition set_cmt_0 :: "nat \<Rightarrow> bytes \<Rightarrow> verify_t \<Rightarrow> verify_t" where
  "set_cmt_0 i digest st = st\<lparr>vf_cmt_0 := (vf_cmt_0 st)[i := digest]\<rparr>"

definition set_cmt_1 :: "nat \<Rightarrow> bytes \<Rightarrow> verify_t \<Rightarrow> verify_t" where
  "set_cmt_1 i digest st = st\<lparr>vf_cmt_1 := (vf_cmt_1 st)[i := digest]\<rparr>"

definition hash_inputs ::
  "cross_params \<Rightarrow> uninitialised \<Rightarrow> (nat \<Rightarrow> bytes \<Rightarrow> verify_t \<Rightarrow> verify_t) \<Rightarrow> nat \<Rightarrow> bool \<Rightarrow> verify_t \<Rightarrow> verify_queue \<Rightarrow>
     verify_t \<times> verify_queue" where
  "hash_inputs p u put len last_round st q =
     (if vq_to_hash q = 4 \<or> last_round
      then (hash_batch p u put (vq_to_hash q) (vq_round_idx q) (vq_in q) (vq_dsc q) len st, q\<lparr>vq_to_hash := 0\<rparr>)
      else (st, q))"

definition verify_revealed_x4 ::
  "cross_params \<Rightarrow> uninitialised \<Rightarrow> nat list list \<Rightarrow> nat list \<Rightarrow> bytes \<Rightarrow> CROSS_sig_t \<Rightarrow> nat \<Rightarrow>
     verify_t \<times> verify_queue \<Rightarrow> verify_t \<times> verify_queue" where
  "verify_revealed_x4 p u W_mat chall_1 round_seeds sig i = (\<lambda>(st, q1).
     let seed = round_seed p round_seeds i;
         (e_bar_prime, _, u_prime) = expand_round_x4 p W_mat seed (sig_salt sig) i
     in (st\<lparr>vf_y := (vf_y st)[i := response_1_x4 p u e_bar_prime (chall_1 ! i) u_prime]\<rparr>,
         enqueue_input p q1 i (write_at 0 seed)))"

definition hidden_values ::
  "cross_params \<Rightarrow> nat list list \<Rightarrow> nat list list \<Rightarrow> nat list \<Rightarrow> nat list \<Rightarrow> CROSS_sig_t \<Rightarrow> junk_t \<Rightarrow> nat \<Rightarrow> verify_t \<Rightarrow>
     verify_t \<times> bytes" where
  \<comment> \<open>the branch up to the enqueueing, with \<open>s_prime\<close> as packed\<close>
  "hidden_values p V_tr W_mat s chall_1 sig junk i st =
     (let rsp = sig_resp_0 sig ! vf_used_rsps st;
          (y_i, padd) = short_circuit (vf_is_packed_padd_ok st) (unpack_fp_vec p (resp_y rsp)) (vf_y st ! i);
          (v_bar, padd, in_group) =
            (case variant p of
               RSDP \<Rightarrow>
                 let (v_bar, padd) = short_circuit padd (unpack_fz_vec p (resp_v rsp))
                        (map (\<lambda>j. fz_store (variant p) (junk_v junk i j)) [0..<par_N p])
                 in (v_bar, padd, is_fz_vec_in_restr_group_n p v_bar)
             | RSDPG \<Rightarrow>
                 let (v_G_bar, padd) = short_circuit padd (unpack_fz_rsdp_g_vec p (resp_v rsp))
                        (map (\<lambda>j. fz_store (variant p) (junk_v junk i j)) [0..<par_M p])
                 in (fz_inf_w_by_fz_matrix_avx p v_G_bar W_mat, padd, is_fz_vec_in_restr_group_m p v_G_bar));
          v = convert_restr_vec_to_fp p v_bar;
          y_prime = fp_vec_by_fp_vec_pointwise_avx p v y_i;
          y_prime_H = fp_vec_by_fp_matrix_avx p y_prime V_tr;
          y_prime_H = fp_dz_norm_synd p y_prime_H;
          s_prime = fp_synd_minus_fp_vec_scaled_avx p y_prime_H (chall_1 ! i) s;
          s_prime = fp_dz_norm_synd p s_prime
      in (st\<lparr>vf_y := (vf_y st)[i := y_i],
             vf_cmt_1 := (vf_cmt_1 st)[i := sig_resp_1 sig ! vf_used_rsps st],
             vf_used_rsps := vf_used_rsps st + 1,
             vf_is_signature_ok := (vf_is_signature_ok st \<and> in_group),
             vf_is_packed_padd_ok := padd\<rparr>, pack_fp_syn p s_prime))"

definition verify_hidden_x4 ::
  "cross_params \<Rightarrow> nat list list \<Rightarrow> nat list list \<Rightarrow> nat list \<Rightarrow> nat list \<Rightarrow> CROSS_sig_t \<Rightarrow> junk_t \<Rightarrow> nat \<Rightarrow>
     verify_t \<times> verify_queue \<Rightarrow> verify_t \<times> verify_queue" where
  "verify_hidden_x4 p V_tr W_mat s chall_1 sig junk i = (\<lambda>(st, q0).
     let rsp = sig_resp_0 sig ! vf_used_rsps st;
         (st, s_packed) = hidden_values p V_tr W_mat s chall_1 sig junk i st
     in (st, enqueue_input p q0 i (\<lambda>cmt_0_i_input. write_at 0 s_packed (write_at (DENSELY_PACKED_FP_SYN_SIZE p) (resp_v rsp) cmt_0_i_input))))"

definition verify_round_x4 ::
  "cross_params \<Rightarrow> uninitialised \<Rightarrow> nat list list \<Rightarrow> nat list list \<Rightarrow> nat list \<Rightarrow> nat list \<Rightarrow> nat list \<Rightarrow> bytes \<Rightarrow> CROSS_sig_t \<Rightarrow> junk_t \<Rightarrow>
     (verify_t \<times> verify_queue) \<times> verify_queue \<Rightarrow> nat \<Rightarrow> ((verify_t \<times> verify_queue) \<times> verify_queue) option" where
  \<comment> \<open>the state and the queues of the second and of the first commitments; \<open>None\<close> is a read past the responses\<close>
  "verify_round_x4 p u V_tr W_mat s chall_1 chall_2 round_seeds sig junk = (\<lambda>((st, q1), q0) i.
     case (if chall_2 ! i = 1
           then let (st, q1) = verify_revealed_x4 p u W_mat chall_1 round_seeds sig i (st, q1) in Some (st, q1, q0)
           else if vf_used_rsps st < length (sig_resp_0 sig) \<and> vf_used_rsps st < length (sig_resp_1 sig)
           then let (st, q0) = verify_hidden_x4 p V_tr W_mat s chall_1 sig junk i (st, q0) in Some (st, q1, q0)
           else None) of
       None \<Rightarrow> None
     | Some (st, q1, q0) \<Rightarrow>
         let (st, q1) = hash_inputs p u set_cmt_1 (cmt_1_input_size p) (i = par_T p - 1) st q1;
             (st, q0) = hash_inputs p u set_cmt_0 (cmt_0_input_size p) (i = par_T p - 1) st q0
         in Some ((st, q1), q0))"

definition CROSS_verify_x4 :: "cross_params \<Rightarrow> uninitialised \<Rightarrow> junk_t \<Rightarrow> pk_t \<Rightarrow> bytes \<Rightarrow> CROSS_sig_t \<Rightarrow> fault + bool" where
  "CROSS_verify_x4 p u junk PK m sig =
     (let (V_tr, W_mat) = expand_pk p (pk_seed_pk PK);
          (s, is_padd_key_ok) = unpack_fp_syn p (pk_s PK);
          digest_chall_1 = digest_challenge_1 p m (sig_digest_cmt sig) (sig_salt sig);
          chall_1 = challenge_1 p digest_chall_1;
          chall_2 = expand_digest_to_fixed_weight p (sig_digest_chall_2 sig)
      in case checked (rebuild_seeds_x4 p u chall_2 (sig_path sig) (sig_salt sig)) of
           Inl e \<Rightarrow> Inl e
         | Inr (round_seeds, is_stree_padding_ok) \<Rightarrow>
             (case checked (foldM (verify_round_x4 p u V_tr W_mat s chall_1 chall_2 round_seeds sig junk)
                ((verify_start p junk, init_verify_queue u (SEED_LENGTH_BYTES p) (sig_salt sig)),
                 init_verify_queue u (DENSELY_PACKED_FP_SYN_SIZE p + packed_v_size p) (sig_salt sig)) [0..<par_T p]) of
                Inl e \<Rightarrow> Inl e
              | Inr ((st, q1), q0) \<Rightarrow>
                  if \<not> assert_holds p (vf_is_signature_ok st) then Inl ASSERT_FAILED
                  else (case checked (recompute_commitment_x4 p u (vf_cmt_0 st) (sig_proof sig) chall_2) of
                          Inl e \<Rightarrow> Inl e
                        | Inr (root, is_mtree_padding_ok) \<Rightarrow>
                            let digest_cmt_prime = commitment_digest p root (vf_cmt_1 st);
                                digest_chall_2_prime = digest_challenge_2 p (vf_y st) digest_chall_1;
                                does_digest_cmt_match = (digest_cmt_prime = sig_digest_cmt sig);
                                does_digest_chall_2_match = (digest_chall_2_prime = sig_digest_chall_2 sig)
                            in if \<not> assert_holds p does_digest_cmt_match then Inl ASSERT_FAILED
                               else if \<not> assert_holds p does_digest_chall_2_match then Inl ASSERT_FAILED
                               else Inr (vf_is_signature_ok st \<and> does_digest_cmt_match \<and> does_digest_chall_2_match
                                         \<and> is_mtree_padding_ok \<and> is_stree_padding_ok \<and> is_padd_key_ok
                                         \<and> vf_is_packed_padd_ok st))))"

end
