(* ===== verification/Cross_x4_Correct.thy ===== *)
theory Cross_x4_Correct
  imports Any_Signature Cross_x4
begin

text \<open>
  The optimised scheme of \<open>Cross_x4\<close> against the reference scheme of \<open>Cross\<close>. Keys and
  signatures are the same byte for byte, and the two verifiers accept the same
  signatures. The queues of the loops are handled by interpretations of \<open>batching\<close>: one
  for the signer, whose jobs are pairs of inputs, and two for the verifier, the outer
  one with the queue of the second commitments as part of its state. What memory holds
  that was not initialised does not matter.
\<close>

section \<open>The keys\<close>

lemma expand_seed_e_x4_same:
  assumes K: "keys_ok p V_tr W_mat"
  shows "expand_seed_e_x4 p W_mat seed_e = expand_seed_e p W_mat seed_e"
proof (cases "variant p")
  case RSDPG
  have e: "length (fst (csprng_fz_inf_w p st)) = par_M p" "fz_ok (variant p) (fst (csprng_fz_inf_w p st))" for st
    using samples_in_range(4) [of _ p st] fz_canon_ok [of "variant p" "fst (csprng_fz_inf_w p st)"] by (simp_all add: fz_canon_def)
  show ?thesis
    using K fz_inf_w_avx_norm(1) [OF RSDPG e, of W_mat] RSDPG
    by (simp add: expand_seed_e_x4_def expand_seed_e_def Let_def split_beta keys_ok_def)
qed (simp add: expand_seed_e_x4_def expand_seed_e_def)

lemma expand_round_x4_same:
  assumes K: "keys_ok p V_tr W_mat"
  shows "expand_round_x4 p W_mat seed salt i = expand_round p W_mat seed salt i"
proof (cases "variant p")
  case RSDPG
  have e: "length (fst (csprng_fz_inf_w p st)) = par_M p" "fz_ok (variant p) (fst (csprng_fz_inf_w p st))" for st
    using samples_in_range(4) [of _ p st] fz_canon_ok [of "variant p" "fst (csprng_fz_inf_w p st)"] by (simp_all add: fz_canon_def)
  show ?thesis
    using K fz_inf_w_avx_norm(1) [OF RSDPG e, of W_mat] RSDPG
    by (simp add: expand_round_x4_def expand_round_def Let_def split_beta keys_ok_def)
qed (simp add: expand_round_x4_def expand_round_def)

lemma expand_sk_x4_same: "expand_sk_x4 p seed_sk = expand_sk p seed_sk"
  unfolding expand_sk_x4_def expand_sk_def Let_def
  by (auto simp: split_beta expand_seed_e_x4_same [OF expand_pk_ok [OF prod.collapse [symmetric]]])

theorem keygen_x4_same: "CROSS_keygen_x4 p st = CROSS_keygen p st"
proof -
  obtain seed_sk st' where r: "randombytes p (KEYPAIR_SEED_LENGTH_BYTES p) st = (seed_sk, st')" by fastforce
  obtain seed_e seed_pk where s: "expand_seed_sk p seed_sk = (seed_e, seed_pk)" by fastforce
  obtain V_tr W_mat where V: "expand_pk p seed_pk = (V_tr, W_mat)" by fastforce
  obtain e_bar e_G_bar where e: "expand_seed_e p W_mat seed_e = (e_bar, e_G_bar)" by fastforce
  note K = expand_pk_ok [OF V]
  note ok = expand_seed_e_ok [OF K e]
  have "fp_dz_norm_synd p (restr_vec_by_fp_matrix_avx p e_bar V_tr) = fp_dz_norm_synd p (restr_vec_by_fp_matrix p e_bar V_tr)"
    using ok K by (intro restr_vec_by_fp_matrix_avx_same) (simp_all add: exponents_ok_def fz_canon_ok keys_ok_def)
  then show ?thesis
    by (simp add: CROSS_keygen_x4_def CROSS_keygen_def r s V e expand_seed_e_x4_same [OF K])
qed

section \<open>The two tree builds\<close>

lemma zero_tree_ok: "tree_ok p (replicate (NUM_NODES_TREE p) (replicate (SEED_LENGTH_BYTES p) 0))"
  by (simp add: tree_ok_def)

lemma commit_seeds_x4_same:
  "length root_seed = SEED_LENGTH_BYTES p \<Longrightarrow> length salt = SALT_LENGTH_BYTES p \<Longrightarrow>
    commit_seeds_x4 p u root_seed salt = commit_seeds p root_seed salt"
  by (simp add: commit_seeds_x4_def commit_seeds_def seed_leaves_no_trees_same gen_seed_tree_same [OF zero_tree_ok])

lemma rebuild_seeds_x4_same:
  "length salt = SALT_LENGTH_BYTES p \<Longrightarrow> rebuild_seeds_x4 p u chall_2 path salt = rebuild_seeds p chall_2 path salt"
  by (simp add: rebuild_seeds_x4_def rebuild_seeds_def rebuild_tree_same [OF zero_tree_ok])

lemma commit_root_x4_same:
  assumes "length cmt_0 = par_T p" and "\<And>x. x \<in> set cmt_0 \<Longrightarrow> length x = HASH_DIGEST_LENGTH p"
  shows "commit_root_x4 p u cmt_0 = commit_root p junk cmt_0"
proof -
  have "length (stale_tree p u) = NUM_NODES_TREE p" using stale_tree_ok by (simp add: digests_ok_def)
  then show ?thesis
    using assms by (simp add: commit_root_x4_def commit_root_def tree_root_same [OF stale_tree_ok assms(2)] tree_root_eq)
qed

lemma recompute_commitment_x4_same:
  assumes "challenge_ok p chall_2" and "length cmt_0 = par_T p" and "\<And>x. x \<in> set cmt_0 \<Longrightarrow> length x = HASH_DIGEST_LENGTH p"
  shows "recompute_commitment_x4 p u cmt_0 mtp chall_2 = recompute_commitment p junk cmt_0 mtp chall_2"
  using recompute_root_same [OF assms, of "map junk [0..<NUM_NODES_TREE p]" u mtp]
  by (simp add: recompute_commitment_x4_def recompute_commitment_def)

section \<open>Queues of hash inputs\<close>

type_synonym hash_job = "nat \<times> bytes"   \<comment> \<open>round and input\<close>

definition queue_jobs :: "nat \<Rightarrow> nat list \<Rightarrow> bytes list \<Rightarrow> hash_job list" where
  "queue_jobs n idx inputs = map (\<lambda>k. (idx ! k, inputs ! k)) [0..<n]"

definition hash_queue_ok :: "cross_params \<Rightarrow> nat \<Rightarrow> bytes \<Rightarrow> nat \<Rightarrow> nat list \<Rightarrow> bytes list \<Rightarrow> nat list \<Rightarrow> bool" where
  \<comment> \<open>four slots that end in the salt, and the domain of its round with every queued input\<close>
  "hash_queue_ok p off salt n idx inputs dscs \<longleftrightarrow>
     n \<le> 4 \<and> length idx = 4 \<and> length inputs = 4 \<and> length dscs = 4
     \<and> (\<forall>inp\<in>set inputs. length inp = off + length salt \<and> drop off inp = salt)
     \<and> (\<forall>k<n. dscs ! k = domain_sep_hash p (idx ! k))"

lemma hash_batch_jobs:
  assumes ok: "hash_queue_ok p off salt n idx inputs dscs" and small: "off + length salt < 2 ^ 29"
  shows "hash_batch p u put n idx inputs dscs (off + length salt) s =
    foldl (\<lambda>s (i, x). put i (hash p x (domain_sep_hash p i)) s) s (queue_jobs n idx inputs)"
proof -
  let ?len = "off + length salt"
  let ?ins = "[inputs ! 0, inputs ! 1, inputs ! 2, inputs ! 3]" and ?ds = "[dscs ! 0, dscs ! 1, dscs ! 2, dscs ! 3]"
  define ds where "ds = hash_par p u n (inputs ! 0) (inputs ! 1) (inputs ! 2) (inputs ! 3) ?len (dscs ! 0) (dscs ! 1) (dscs ! 2) (dscs ! 3)"
  have n: "n \<le> 4" using ok by (simp add: hash_queue_ok_def)
  have same: "?ins ! k = inputs ! k" "?ds ! k = dscs ! k" "length (inputs ! k) = ?len" if "k < 4" for k
    using ok that by (auto simp: less_4 hash_queue_ok_def)
  have "ds = map (\<lambda>k. hash p (inputs ! k) (domain_sep_hash p (idx ! k))) [0..<n]"
  proof (cases "n = 0")
    case False
    have "?len \<le> length (?ins ! k)" if "k < n" for k using same [of k] n that by simp
    then have "ds = map (\<lambda>k. hash p (take ?len (?ins ! k)) (?ds ! k)) [0..<n]"
      unfolding ds_def using False n by (intro hash_par_single small) simp_all
    also have "\<dots> = map (\<lambda>k. hash p (inputs ! k) (domain_sep_hash p (idx ! k))) [0..<n]"
      using same n ok by (intro map_cong) (simp_all add: hash_queue_ok_def)
    finally show ?thesis .
  qed (simp add: ds_def)
  then have z: "zip idx ds = map (\<lambda>(i, x). (i, hash p x (domain_sep_hash p i))) (queue_jobs n idx inputs)"
    using n ok by (intro nth_equalityI) (simp_all add: queue_jobs_def hash_queue_ok_def)
  show ?thesis unfolding hash_batch_def ds_def [symmetric] z foldl_map by (intro foldl_cong) auto
qed

lemma enqueue_slot:
  assumes ok: "hash_queue_ok p off salt n idx inputs dscs" and room: "n < 4"
    and new: "new = pre @ salt" and pre: "length pre = off"
  shows "hash_queue_ok p off salt (Suc n) (idx[n := i]) (inputs[n := new]) (dscs[n := domain_sep_hash p i])"
    and "queue_jobs (Suc n) (idx[n := i]) (inputs[n := new]) = queue_jobs n idx inputs @ [(i, pre @ salt)]"
proof -
  have "length x = off + length salt \<and> drop off x = salt" if "x \<in> set (inputs[n := new])" for x
    using that ok pre new set_update_subset_insert [of inputs n new] by (auto simp: hash_queue_ok_def)
  then show "hash_queue_ok p off salt (Suc n) (idx[n := i]) (inputs[n := new]) (dscs[n := domain_sep_hash p i])"
    using ok room by (auto simp: hash_queue_ok_def nth_list_update)
  show "queue_jobs (Suc n) (idx[n := i]) (inputs[n := new]) = queue_jobs n idx inputs @ [(i, pre @ salt)]"
    using ok room new by (simp add: queue_jobs_def hash_queue_ok_def)
qed

lemma salted_inputs_ok: "hash_queue_ok p off salt 0 (replicate 4 0) (salted_inputs u off salt) (stale_u16 u)"
  by (simp add: hash_queue_ok_def salted_inputs_def stale_u16_def write_at_def)

lemma queue_slot:
  assumes "hash_queue_ok p off salt n idx inputs dscs" and "n < 4"
  shows "length (inputs ! n) = off + length salt" and "drop off (inputs ! n) = salt"
  using assms by (simp_all add: hash_queue_ok_def)

lemma queue_jobs_none [simp]: "queue_jobs 0 idx inputs = []"
  by (simp add: queue_jobs_def)

lemma length_queue_jobs [simp]: "length (queue_jobs n idx inputs) = n"
  by (simp add: queue_jobs_def)

lemma hash_queue_emptied: "hash_queue_ok p off salt n idx inputs dscs \<Longrightarrow> hash_queue_ok p off salt 0 idx inputs dscs"
  by (simp add: hash_queue_ok_def)

text \<open>Filling a slot in front of the salt, with one part or with two in either order.\<close>

lemma fill_one: "length slot = off + length salt \<Longrightarrow> drop off slot = salt \<Longrightarrow> length a = off \<Longrightarrow> write_at 0 a slot = a @ salt"
  by (simp add: write_at_def)

lemma fill_two:
  assumes "length slot = length a + length b + length salt" and "drop (length a + length b) slot = salt"
  shows "write_at (length a) b (write_at 0 a slot) = a @ b @ salt" and "write_at 0 a (write_at (length a) b slot) = a @ b @ salt"
  using assms by (simp_all add: write_at_def min_def add.commute)

section \<open>The rounds of the signer\<close>

lemma foldl_interleave:
  assumes "\<And>x y s. f x (g y s) = g y (f x s)"
  shows "foldl (\<lambda>s x. g x s) (foldl (\<lambda>s x. f x s) s xs) xs = foldl (\<lambda>s x. g x (f x s)) s xs"
proof (induction xs rule: rev_induct)
  case (snoc x xs)
  have "foldl (\<lambda>s y. g y s) (f x t) ys = f x (foldl (\<lambda>s y. g y s) t ys)" for t ys
    by (induction ys arbitrary: t) (simp_all flip: assms)
  with snoc show ?case by simp
qed simp

lemma foldl_rows:
  assumes "\<And>r i. i < length rs \<Longrightarrow> length r = length rs \<Longrightarrow> g r i = r[i := f i]"
  shows "foldl g rs [0..<length rs] = map f [0..<length rs]"
proof -
  have "n \<le> length rs \<Longrightarrow> foldl g rs [0..<n] = map f [0..<n] @ drop n rs" for n
  proof (induction n)
    case (Suc n)
    then have "g (map f [0..<n] @ drop n rs) n = (map f [0..<n] @ drop n rs)[n := f n]" by (intro assms) simp_all
    also have "\<dots> = map f [0..<Suc n] @ drop (Suc n) rs" using Suc.prems map_update_next [of n "length rs" rs "map f [0..<n]" "f n"] by simp
    finally show ?case using Suc by simp
  qed simp
  from this [of "length rs"] show ?thesis by simp
qed

type_synonym commit_job = "nat \<times> bytes \<times> bytes"   \<comment> \<open>round and the inputs of its two commitments\<close>

definition sign_jobs :: "sign_queue \<Rightarrow> commit_job list" where
  "sign_jobs q = map (\<lambda>k. (sq_round_idx q ! k, sq_in_0 q ! k, sq_in_1 q ! k)) [0..<sq_to_hash q]"

definition sign_queue_ok :: "cross_params \<Rightarrow> bytes \<Rightarrow> sign_queue \<Rightarrow> bool" where
  "sign_queue_ok p salt q \<longleftrightarrow>
     hash_queue_ok p (DENSELY_PACKED_FP_SYN_SIZE p + packed_v_size p) salt (sq_to_hash q) (sq_round_idx q) (sq_in_0 q) (sq_dsc_0 q)
     \<and> hash_queue_ok p (SEED_LENGTH_BYTES p) salt (sq_to_hash q) (sq_round_idx q) (sq_in_1 q) (sq_dsc_1 q)"

fun put_commitments :: "cross_params \<Rightarrow> commit_job \<Rightarrow> round_t list \<Rightarrow> round_t list" where
  "put_commitments p (i, a, b) rounds =
     put_cmt_1 i (hash p b (domain_sep_hash p i)) (put_cmt_0 i (hash p a (domain_sep_hash p i)) rounds)"

lemma put_commitments_row:
  "put_commitments p (i, a, b) rounds =
     rounds[i := (rounds ! i)\<lparr>r_cmt_0 := hash p a (domain_sep_hash p i), r_cmt_1 := hash p b (domain_sep_hash p i)\<rparr>]"
  by (cases "i < length rounds") (simp_all add: put_cmt_0_def put_cmt_1_def list_update_beyond)

lemma update_rounds:
  "put_cmt_0 i d (put_cmt_1 j d' rounds) = put_cmt_1 j d' (put_cmt_0 i d rounds)"
  "i \<noteq> j \<Longrightarrow> set_round i e u v (put_commitments p (j, a, b) rounds) = put_commitments p (j, a, b) (set_round i e u v rounds)"
proof -
  show "put_cmt_0 i d (put_cmt_1 j d' rounds) = put_cmt_1 j d' (put_cmt_0 i d rounds)"
  proof (cases "i = j \<and> i < length rounds")
    case True
    then show ?thesis by (cases "rounds ! j") (simp add: put_cmt_0_def put_cmt_1_def)
  next
    case False
    then show ?thesis by (cases "i = j") (simp_all add: put_cmt_0_def put_cmt_1_def list_update_swap nth_list_update list_update_beyond)
  qed
  show "i \<noteq> j \<Longrightarrow> set_round i e u v (put_commitments p (j, a, b) rounds) = put_commitments p (j, a, b) (set_round i e u v rounds)"
    unfolding put_commitments_row by (simp add: set_round_def list_update_swap)
qed

lemma input_sizes_small: "cmt_0_input_size p < 2 ^ 29" "cmt_1_input_size p < 2 ^ 29"
proof -
  have "DENSELY_PACKED_FP_SYN_SIZE p + packed_v_size p < 2 ^ 20"
    unfolding packed_v_size_def sizes_def
    by (cases "variant p"; cases "cat p"; cases "corner p"; simp add: par_unfold fp_bits_def fz_bits_def nbytes_def)
  then show "cmt_0_input_size p < 2 ^ 29" "cmt_1_input_size p < 2 ^ 29"
    using par_lengths [of p] by (simp_all add: cmt_0_input_size_def cmt_1_input_size_def)
qed

lemma hash_rounds_eq:
  assumes ok: "sign_queue_ok p salt q" and salt: "length salt = SALT_LENGTH_BYTES p"
  shows "hash_rounds p u rounds q = (put_all (put_commitments p) (sign_jobs q) rounds, q\<lparr>sq_to_hash := 0\<rparr>)"
proof -
  let ?n = "sq_to_hash q" and ?J = "sign_jobs q"
  let ?f = "\<lambda>(j :: commit_job). put_cmt_0 (fst j) (hash p (fst (snd j)) (domain_sep_hash p (fst j)))"
    and ?g = "\<lambda>(j :: commit_job). put_cmt_1 (fst j) (hash p (snd (snd j)) (domain_sep_hash p (fst j)))"
  have ok0: "hash_queue_ok p (DENSELY_PACKED_FP_SYN_SIZE p + packed_v_size p) salt ?n (sq_round_idx q) (sq_in_0 q) (sq_dsc_0 q)"
    and ok1: "hash_queue_ok p (SEED_LENGTH_BYTES p) salt ?n (sq_round_idx q) (sq_in_1 q) (sq_dsc_1 q)"
    using ok by (simp_all add: sign_queue_ok_def)
  have J: "queue_jobs ?n (sq_round_idx q) (sq_in_0 q) = map (\<lambda>j. (fst j, fst (snd j))) ?J"
    "queue_jobs ?n (sq_round_idx q) (sq_in_1 q) = map (\<lambda>j. (fst j, snd (snd j))) ?J"
    by (simp_all add: queue_jobs_def sign_jobs_def)
  have "hash_batch p u put_cmt_0 ?n (sq_round_idx q) (sq_in_0 q) (sq_dsc_0 q) (cmt_0_input_size p) r = foldl (\<lambda>r j. ?f j r) r ?J" for r
    using hash_batch_jobs [OF ok0, of u put_cmt_0 r] input_sizes_small(1) [of p]
    by (simp add: cmt_0_input_size_def salt J foldl_map)
  moreover have "hash_batch p u put_cmt_1 ?n (sq_round_idx q) (sq_in_1 q) (sq_dsc_1 q) (cmt_1_input_size p) r = foldl (\<lambda>r j. ?g j r) r ?J" for r
    using hash_batch_jobs [OF ok1, of u put_cmt_1 r] input_sizes_small(2) [of p]
    by (simp add: cmt_1_input_size_def salt J foldl_map)
  moreover have "foldl (\<lambda>r j. ?g j r) (foldl (\<lambda>r j. ?f j r) rounds ?J) ?J = foldl (\<lambda>r j. ?g j (?f j r)) rounds ?J"
    by (rule foldl_interleave) (rule update_rounds(1))
  moreover have "foldl (\<lambda>r j. ?g j (?f j r)) rounds ?J = put_all (put_commitments p) ?J rounds"
    unfolding put_all_def by (intro foldl_cong) auto
  ultimately show ?thesis by (simp add: hash_rounds_def Let_def)
qed

lemma enqueue_round_ok:
  assumes ok: "sign_queue_ok p salt q" and room: "sq_to_hash q < 4"
    and len: "length s_packed = DENSELY_PACKED_FP_SYN_SIZE p" "length v_packed = packed_v_size p" "length seed = SEED_LENGTH_BYTES p"
  shows "sign_queue_ok p salt (enqueue_round p q i s_packed v_packed seed)"
    and "sq_to_hash (enqueue_round p q i s_packed v_packed seed) = Suc (sq_to_hash q)"
    and "sign_jobs (enqueue_round p q i s_packed v_packed seed) = sign_jobs q @ [(i, s_packed @ v_packed @ salt, seed @ salt)]"
proof -
  let ?n = "sq_to_hash q" and ?q = "enqueue_round p q i s_packed v_packed seed"
  have ok0: "hash_queue_ok p (DENSELY_PACKED_FP_SYN_SIZE p + packed_v_size p) salt ?n (sq_round_idx q) (sq_in_0 q) (sq_dsc_0 q)"
    and ok1: "hash_queue_ok p (SEED_LENGTH_BYTES p) salt ?n (sq_round_idx q) (sq_in_1 q) (sq_dsc_1 q)"
    using ok by (simp_all add: sign_queue_ok_def)
  have in0: "write_at (DENSELY_PACKED_FP_SYN_SIZE p) v_packed (write_at 0 s_packed (sq_in_0 q ! ?n)) = (s_packed @ v_packed) @ salt"
    using fill_two(1) [of "sq_in_0 q ! ?n" s_packed v_packed salt] queue_slot [OF ok0 room] len by simp
  have in1: "write_at 0 seed (sq_in_1 q ! ?n) = seed @ salt"
    using queue_slot [OF ok1 room] len(3) by (intro fill_one) simp_all
  note e0 = enqueue_slot [OF ok0 room in0] and e1 = enqueue_slot [OF ok1 room in1 len(3)]
  show "sign_queue_ok p salt ?q" "sq_to_hash ?q = Suc ?n"
    using e0(1) e1(1) len by (simp_all add: sign_queue_ok_def enqueue_round_def Let_def)
  show "sign_jobs ?q = sign_jobs q @ [(i, s_packed @ v_packed @ salt, seed @ salt)]"
    using ok0 ok1 room in0 in1 by (simp add: sign_jobs_def enqueue_round_def Let_def hash_queue_ok_def)
qed

lemma round_values_same:
  assumes K: "keys_ok p V_tr W_mat" and e: "exponents_ok p W_mat e_bar e_G_bar"
    and r_def: "r = sign_round p e_bar e_G_bar V_tr W_mat salt seeds i"
  obtains s_packed where
    "round_values p e_bar e_G_bar V_tr W_mat salt (round_seed p seeds i) i = (r_e_bar_prime r, r_u_prime r, r_v_packed r, s_packed)"
    and "length s_packed = DENSELY_PACKED_FP_SYN_SIZE p"
    and "r_cmt_0 r = hash p (s_packed @ r_v_packed r @ salt) (domain_sep_hash p i)"
    and "r_cmt_1 r = hash p (round_seed p seeds i @ salt) (domain_sep_hash p i)"
proof -
  obtain e' e_G' u' where ex: "expand_round p W_mat (round_seed p seeds i) salt i = (e', e_G', u')"
    by (metis prod_cases3)
  note e' = expand_round_ok [OF K ex]
  let ?v = "fz_vec_sub_n p e_bar e'"
  let ?u = "fp_vec_by_fp_vec_pointwise p (convert_restr_vec_to_fp p ?v) u'"
    and ?u_avx = "fp_vec_by_fp_vec_pointwise_avx p (convert_restr_vec_to_fp p ?v) u'"
  have ok: "length e_bar = par_N p" "length e' = par_N p" "fz_ok (variant p) e_bar" "fz_ok (variant p) e'"
    using e e'(1) by (simp_all add: exponents_ok_def fz_canon_ok)
  have v: "?v ! k \<le> par_Z (variant p)" if "k < par_N p" for k
    using fz_vec_sub_n_spec(1) [OF ok(3,4,1,2)] that by (simp add: fz_ok_def)
  have u: "u' ! k \<le> fp_top (variant p)" if "k < par_N p" for k
    using e'(2,3) that by (simp add: fp_canon_nth fp_lt_top)
  note pw = fp_vec_by_fp_vec_pointwise_avx_restr [OF _ v u]
  have "syn_ok p ?u V_tr" using K pw(2) by (intro syn_okI) (simp_all add: keys_ok_def)
  then have same: "fp_dz_norm_synd p (fp_vec_by_fp_matrix_avx p ?u_avx V_tr) = fp_dz_norm_synd p (fp_vec_by_fp_matrix p ?u V_tr)"
    using pw(1,3) by (intro fp_vec_by_fp_matrix_avx_same fp_top_le_wide) simp_all
  show thesis
    by (rule that [of "pack_fp_syn p (fp_dz_norm_synd p (fp_vec_by_fp_matrix p ?u V_tr))"])
      (simp_all add: r_def round_values_def sign_round_def expand_round_x4_same [OF K] ex same Let_def)
qed

definition sign_act ::
  "cross_params \<Rightarrow> nat list \<Rightarrow> nat list \<Rightarrow> nat list list \<Rightarrow> nat list list \<Rightarrow> bytes \<Rightarrow> bytes \<Rightarrow> round_t list \<Rightarrow> nat \<Rightarrow>
     (round_t list \<times> commit_job option) option" where
  "sign_act p e_bar e_G_bar V_tr W_mat salt round_seeds rounds i =
     (let seed = round_seed p round_seeds i;
          (e_bar_prime, u_prime, v_packed, s_packed) = round_values p e_bar e_G_bar V_tr W_mat salt seed i
      in Some (set_round i e_bar_prime u_prime v_packed rounds, Some (i, s_packed @ v_packed @ salt, seed @ salt)))"

interpretation sign_batch: batching "sign_act p e_bar e_G_bar V_tr W_mat salt round_seeds" "put_commitments p" "put_all (put_commitments p)"
  "\<lambda>i. i = par_T p - 1" "[0..<par_T p]" "\<lambda>i j. fst j = i"
  for p e_bar e_G_bar V_tr W_mat salt round_seeds
proof
  fix y x s and j :: commit_job
  assume "same_run (\<lambda>i. i = par_T p - 1) [0..<par_T p] y x" and "fst j = y"
  then have "x \<noteq> fst j" using same_run_upt by fastforce
  then show "sign_act p e_bar e_G_bar V_tr W_mat salt round_seeds (put_commitments p j s) x
      = map_option (\<lambda>(s', job). (put_commitments p j s', job)) (sign_act p e_bar e_G_bar V_tr W_mat salt round_seeds s x)"
    by (cases j) (simp add: sign_act_def Let_def split_beta update_rounds(2) del: put_commitments.simps)
qed (auto simp: sign_act_def Let_def split_beta put_all_def dest: upt_flushed)

definition squeued :: "cross_params \<Rightarrow> bytes \<Rightarrow> round_t list \<times> sign_queue \<Rightarrow> round_t list \<times> commit_job list \<Rightarrow> bool" where
  "squeued p salt = (\<lambda>(rounds, q) (rounds', jobs). rounds' = rounds \<and> sign_queue_ok p salt q \<and> sq_to_hash q < 4 \<and> jobs = sign_jobs q)"

lemma length_sign_jobs [simp]: "length (sign_jobs q) = sq_to_hash q"
  by (simp add: sign_jobs_def)

lemma init_sign_queue_ok [simp]: "sign_queue_ok p salt (init_sign_queue p u salt)" "sign_jobs (init_sign_queue p u salt) = []"
  "sq_to_hash (init_sign_queue p u salt) = 0"
  by (simp_all add: sign_queue_ok_def init_sign_queue_def salted_inputs_ok sign_jobs_def)

lemma sign_round_queued:
  assumes K: "keys_ok p V_tr W_mat" and e: "exponents_ok p W_mat e_bar e_G_bar" and salt: "length salt = SALT_LENGTH_BYTES p"
    and seeds: "length round_seeds = par_T p * SEED_LENGTH_BYTES p" and i: "i < par_T p" and R: "squeued p salt c a"
  shows "rel_option (squeued p salt) (Some (sign_round_x4 p u e_bar e_G_bar V_tr W_mat salt round_seeds c i))
    (batch_step (sign_act p e_bar e_G_bar V_tr W_mat salt round_seeds) (put_all (put_commitments p)) (\<lambda>i. i = par_T p - 1) a i)"
proof -
  obtain rounds q where c: "c = (rounds, q)" by (cases c)
  have a: "a = (rounds, sign_jobs q)" and ok: "sign_queue_ok p salt q" "sq_to_hash q < 4"
    using R by (cases a; simp add: squeued_def c)+
  define r where "r = sign_round p e_bar e_G_bar V_tr W_mat salt round_seeds i"
  let ?seed = "round_seed p round_seeds i"
  have "i * SEED_LENGTH_BYTES p + SEED_LENGTH_BYTES p \<le> par_T p * SEED_LENGTH_BYTES p" using slot_end [OF i] .
  then have seed: "length ?seed = SEED_LENGTH_BYTES p" using seeds by (simp add: round_seed_def read_at_def)
  obtain s_packed where v: "round_values p e_bar e_G_bar V_tr W_mat salt ?seed i = (r_e_bar_prime r, r_u_prime r, r_v_packed r, s_packed)"
    and s: "length s_packed = DENSELY_PACKED_FP_SYN_SIZE p" by (rule round_values_same [OF K e r_def])
  have rv: "length (r_v_packed r) = packed_v_size p" by (simp add: r_def sign_round_sizes)
  note enq = enqueue_round_ok [OF ok s rv seed, of i]
  let ?q = "enqueue_round p q i s_packed (r_v_packed r) ?seed"
  have "sign_queue_ok p salt (?q\<lparr>sq_to_hash := 0\<rparr>)" "sign_jobs (?q\<lparr>sq_to_hash := 0\<rparr>) = []"
    using enq(1) by (auto simp: sign_queue_ok_def sign_jobs_def dest: hash_queue_emptied)
  then show ?thesis
    using enq ok by (auto simp: sign_round_x4_def batch_step_def sign_act_def c a v squeued_def Let_def hash_rounds_eq [OF enq(1) salt])
qed

lemma sign_rounds_direct:
  assumes K: "keys_ok p V_tr W_mat" and e: "exponents_ok p W_mat e_bar e_G_bar" and len: "length rounds = par_T p"
  shows "foldM (direct_step (sign_act p e_bar e_G_bar V_tr W_mat salt round_seeds) (put_commitments p)) rounds [0..<par_T p]
    = Some (map (sign_round p e_bar e_G_bar V_tr W_mat salt round_seeds) [0..<par_T p])"
proof -
  let ?step = "direct_step (sign_act p e_bar e_G_bar V_tr W_mat salt round_seeds) (put_commitments p)"
  let ?r = "sign_round p e_bar e_G_bar V_tr W_mat salt round_seeds"
  define f where "f rs i = the (?step rs i)" for rs i
  have "?step = (\<lambda>rs i. Some (f rs i))"
    by (simp add: f_def fun_eq_iff direct_step_def sign_act_def Let_def split_beta)
  then have "foldM ?step rounds [0..<par_T p] = Some (foldl f rounds [0..<par_T p])"
    by (simp only: foldM_total)
  moreover have "f rs i = rs[i := ?r i]" if "i < length rounds" "length rs = length rounds" for rs i
  proof -
    obtain s_packed where v: "round_values p e_bar e_G_bar V_tr W_mat salt (round_seed p round_seeds i) i =
        (r_e_bar_prime (?r i), r_u_prime (?r i), r_v_packed (?r i), s_packed)"
      and h: "r_cmt_0 (?r i) = hash p (s_packed @ r_v_packed (?r i) @ salt) (domain_sep_hash p i)"
        "r_cmt_1 (?r i) = hash p (round_seed p round_seeds i @ salt) (domain_sep_hash p i)"
      by (rule round_values_same [OF K e refl])
    have full: "x\<lparr>r_e_bar_prime := r_e_bar_prime y, r_v_packed := r_v_packed y, r_u_prime := r_u_prime y,
        r_cmt_0 := r_cmt_0 y, r_cmt_1 := r_cmt_1 y\<rparr> = y" for x y :: round_t
      by (cases x; cases y) simp
    have "f rs i = rs[i := (rs ! i)\<lparr>r_e_bar_prime := r_e_bar_prime (?r i), r_v_packed := r_v_packed (?r i), r_u_prime := r_u_prime (?r i),
        r_cmt_0 := r_cmt_0 (?r i), r_cmt_1 := r_cmt_1 (?r i)\<rparr>]"
      using that by (simp add: f_def direct_step_def sign_act_def v put_commitments_row h [symmetric] set_round_def Let_def del: put_commitments.simps)
    then show ?thesis unfolding full .
  qed
  ultimately show ?thesis using foldl_rows [of rounds f ?r] len by simp
qed

lemma sign_rounds_x4_same:
  assumes K: "keys_ok p V_tr W_mat" and e: "exponents_ok p W_mat e_bar e_G_bar" and salt: "length salt = SALT_LENGTH_BYTES p"
    and seeds: "length round_seeds = par_T p * SEED_LENGTH_BYTES p"
  shows "fst (foldl (sign_round_x4 p u e_bar e_G_bar V_tr W_mat salt round_seeds) (stale_rounds p u, init_sign_queue p u salt) [0..<par_T p])
    = map (sign_round p e_bar e_G_bar V_tr W_mat salt round_seeds) [0..<par_T p]"
proof -
  have len: "length (stale_rounds p u) = par_T p" by (simp add: stale_rounds_def Let_def)
  have "rel_option (squeued p salt)
      (foldM (\<lambda>s i. Some (sign_round_x4 p u e_bar e_G_bar V_tr W_mat salt round_seeds s i)) (stale_rounds p u, init_sign_queue p u salt) [0..<par_T p])
      (foldM (batch_step (sign_act p e_bar e_G_bar V_tr W_mat salt round_seeds) (put_all (put_commitments p)) (\<lambda>i. i = par_T p - 1))
        (stale_rounds p u, []) [0..<par_T p])"
    by (rule foldM_simulation [OF sign_round_queued [OF K e salt seeds]]) (simp_all add: squeued_def)
  then show ?thesis unfolding foldM_total sign_batch.batched sign_rounds_direct [OF K e len] by (auto simp: squeued_def)
qed

section \<open>The signatures\<close>

lemma response_1_x4_same:
  assumes "exponents_ok p W_mat e' e_G'" and "length u' = par_N p" and "fp_canon (variant p) u'" and "c < par_P (variant p)"
  shows "response_1_x4 p u e' c u' = response_1 p e' c u'"
  unfolding response_1_x4_def response_1_def
  using assms by (intro fp_vec_by_restr_vec_scaled_avx_same) (simp_all add: exponents_ok_def fz_canon_ok)

text \<open>The reference result does not depend on what its tree buffer held.\<close>

theorem sign_x4_same: "CROSS_sign_x4 p u SK m st = CROSS_sign p junk SK m st"
proof -
  obtain seed_e seed_pk where s: "expand_seed_sk p (sk_seed_sk SK) = (seed_e, seed_pk)" by fastforce
  obtain V_tr W_mat where V: "expand_pk p seed_pk = (V_tr, W_mat)" by fastforce
  obtain e_bar e_G_bar where E: "expand_seed_e p W_mat seed_e = (e_bar, e_G_bar)" by fastforce
  note K = expand_pk_ok [OF V] and e = expand_seed_e_ok [OF expand_pk_ok [OF V] E]
  have sk: "expand_sk p (sk_seed_sk SK) = (e_bar, e_G_bar, V_tr, W_mat)" by (simp add: expand_sk_def s V E)
  obtain root_seed st1 where r1: "randombytes p (SEED_LENGTH_BYTES p) st = (root_seed, st1)" by fastforce
  obtain salt st2 where r2: "randombytes p (SALT_LENGTH_BYTES p) st1 = (salt, st2)" by fastforce
  have lens: "length root_seed = SEED_LENGTH_BYTES p" "length salt = SALT_LENGTH_BYTES p"
    using length_randombytes [of "SEED_LENGTH_BYTES p" p st] length_randombytes [of "SALT_LENGTH_BYTES p" p st1]
      seed_sizes [of p] r1 r2 by simp_all
  define seeds where "seeds = commit_seeds p root_seed salt"
  define rounds where "rounds = map (sign_round p e_bar e_G_bar V_tr W_mat salt (snd seeds)) [0..<par_T p]"
  have seeds: "length (snd seeds) = par_T p * SEED_LENGTH_BYTES p" unfolding seeds_def by (rule seeds.leaves_length [OF lens(1)])
  obtain q where rounds: "foldl (sign_round_x4 p u e_bar e_G_bar V_tr W_mat salt (snd seeds)) (stale_rounds p u, init_sign_queue p u salt) [0..<par_T p]
      = (rounds, q)"
    using sign_rounds_x4_same [OF K e lens(2) seeds, of u] unfolding rounds_def by (metis prod.collapse)
  have cmt_0: "length (map r_cmt_0 rounds) = par_T p" "\<And>x. x \<in> set (map r_cmt_0 rounds) \<Longrightarrow> length x = HASH_DIGEST_LENGTH p"
    by (auto simp: rounds_def sign_round_sizes)
  have root: "commit_root_x4 p u (map r_cmt_0 rounds) = commit_root p junk (map r_cmt_0 rounds)"
    by (rule commit_root_x4_same) (use cmt_0 in auto)
  have y: "map (\<lambda>i. response_1_x4 p u (r_e_bar_prime (rounds ! i)) (challenge_1 p d ! i) (r_u_prime (rounds ! i))) [0..<par_T p]
      = map (\<lambda>i. response_1 p (r_e_bar_prime (rounds ! i)) (challenge_1 p d ! i) (r_u_prime (rounds ! i))) [0..<par_T p]" for d
  proof (rule map_cong [OF refl])
    fix i assume "i \<in> set [0..<par_T p]"
    then have i: "i < par_T p" by simp
    obtain e' e_G' u' where ex: "expand_round p W_mat (round_seed p (snd seeds) i) salt i = (e', e_G', u')" by (metis prod_cases3)
    have "r_e_bar_prime (rounds ! i) = e'" "r_u_prime (rounds ! i) = u'" using i by (simp_all add: rounds_def sign_round_def ex Let_def)
    then show "response_1_x4 p u (r_e_bar_prime (rounds ! i)) (challenge_1 p d ! i) (r_u_prime (rounds ! i))
        = response_1 p (r_e_bar_prime (rounds ! i)) (challenge_1 p d ! i) (r_u_prime (rounds ! i))"
      using response_1_x4_same [OF expand_round_ok [OF K ex] challenge_1_lt [OF i]] by simp
  qed
  show ?thesis
    unfolding CROSS_sign_x4_def CROSS_sign_def Let_def expand_sk_x4_same sk r1 r2 prod.case
      commit_seeds_x4_same [OF lens] seeds_def [symmetric] rounds rounds_def [symmetric]
      root y ..
qed

section \<open>The rounds of the verifier\<close>

subsection \<open>The two queues\<close>

definition vqueue_ok :: "cross_params \<Rightarrow> nat \<Rightarrow> bytes \<Rightarrow> verify_queue \<Rightarrow> bool" where
  "vqueue_ok p off salt q \<longleftrightarrow> hash_queue_ok p off salt (vq_to_hash q) (vq_round_idx q) (vq_in q) (vq_dsc q)"

definition verify_jobs :: "verify_queue \<Rightarrow> hash_job list" where
  "verify_jobs q = queue_jobs (vq_to_hash q) (vq_round_idx q) (vq_in q)"

definition put_hash :: "cross_params \<Rightarrow> (nat \<Rightarrow> bytes \<Rightarrow> 's \<Rightarrow> 's) \<Rightarrow> hash_job \<Rightarrow> 's \<Rightarrow> 's" where
  "put_hash p put = (\<lambda>(i, x). put i (hash p x (domain_sep_hash p i)))"

lemma length_verify_jobs [simp]: "length (verify_jobs q) = vq_to_hash q"
  by (simp add: verify_jobs_def)

lemma init_verify_queue_ok [simp]: "vqueue_ok p off salt (init_verify_queue u off salt)" "verify_jobs (init_verify_queue u off salt) = []"
  "vq_to_hash (init_verify_queue u off salt) = 0"
  by (simp_all add: vqueue_ok_def init_verify_queue_def salted_inputs_ok verify_jobs_def)

lemma vqueue_emptied [simp]: "vqueue_ok p off salt q \<Longrightarrow> vqueue_ok p off salt (q\<lparr>vq_to_hash := 0\<rparr>)" "verify_jobs (q\<lparr>vq_to_hash := 0\<rparr>) = []"
  by (simp_all add: vqueue_ok_def verify_jobs_def hash_queue_emptied)

lemma hash_inputs_eq:
  assumes "vqueue_ok p off salt q" and "off + length salt < 2 ^ 29"
  shows "hash_inputs p u put (off + length salt) b st q =
    (if length (verify_jobs q) = 4 \<or> b then (put_all (put_hash p put) (verify_jobs q) st, q\<lparr>vq_to_hash := 0\<rparr>) else (st, q))"
proof -
  have "hash_batch p u put (vq_to_hash q) (vq_round_idx q) (vq_in q) (vq_dsc q) (off + length salt) st = put_all (put_hash p put) (verify_jobs q) st"
    unfolding hash_batch_jobs [OF assms(1) [unfolded vqueue_ok_def] assms(2)] put_all_def verify_jobs_def
    by (intro foldl_cong) (auto simp: put_hash_def)
  then show ?thesis by (simp add: hash_inputs_def)
qed

lemma enqueue_input_ok:
  assumes ok: "vqueue_ok p off salt q" and room: "vq_to_hash q < 4" and pre: "length pre = off"
    and fill: "\<And>slot. length slot = off + length salt \<Longrightarrow> drop off slot = salt \<Longrightarrow> fill slot = pre @ salt"
  shows "vqueue_ok p off salt (enqueue_input p q i fill)" and "verify_jobs (enqueue_input p q i fill) = verify_jobs q @ [(i, pre @ salt)]"
proof -
  have "fill (vq_in q ! vq_to_hash q) = pre @ salt" using queue_slot [OF ok [unfolded vqueue_ok_def] room] by (rule fill)
  note e = enqueue_slot [OF ok [unfolded vqueue_ok_def] room this pre, of i]
  show "vqueue_ok p off salt (enqueue_input p q i fill)" "verify_jobs (enqueue_input p q i fill) = verify_jobs q @ [(i, pre @ salt)]"
    using e by (simp_all add: vqueue_ok_def verify_jobs_def enqueue_input_def Let_def)
qed

subsection \<open>The loop with both hashes done at once\<close>

definition verify_act ::
  "cross_params \<Rightarrow> uninitialised \<Rightarrow> nat list list \<Rightarrow> nat list list \<Rightarrow> nat list \<Rightarrow> nat list \<Rightarrow> nat list \<Rightarrow> bytes \<Rightarrow> CROSS_sig_t \<Rightarrow> junk_t \<Rightarrow>
     verify_t \<Rightarrow> nat \<Rightarrow> (verify_t \<times> hash_job option \<times> hash_job option) option" where
  \<comment> \<open>the state, and the input of the second or of the first commitment of the round\<close>
  "verify_act p u V_tr W_mat s chall_1 chall_2 round_seeds sig junk st i =
     (if chall_2 ! i = 1
      then let seed = round_seed p round_seeds i; (e_bar_prime, _, u_prime) = expand_round_x4 p W_mat seed (sig_salt sig) i
           in Some (st\<lparr>vf_y := (vf_y st)[i := response_1_x4 p u e_bar_prime (chall_1 ! i) u_prime]\<rparr>, Some (i, seed @ sig_salt sig), None)
      else if vf_used_rsps st < length (sig_resp_0 sig) \<and> vf_used_rsps st < length (sig_resp_1 sig)
      then let (st', s_packed) = hidden_values p V_tr W_mat s chall_1 sig junk i st
           in Some (st', None, Some (i, s_packed @ resp_v (sig_resp_0 sig ! vf_used_rsps st) @ sig_salt sig))
      else None)"

definition put_job :: "('j \<Rightarrow> 's \<Rightarrow> 's) \<Rightarrow> 'j option \<Rightarrow> 's \<Rightarrow> 's" where
  "put_job put job s = (case job of None \<Rightarrow> s | Some j \<Rightarrow> put j s)"

definition inner_act :: "('s \<Rightarrow> 'x \<Rightarrow> ('s \<times> 'j option \<times> 'k option) option) \<Rightarrow> ('k \<Rightarrow> 's \<Rightarrow> 's) \<Rightarrow> 's \<Rightarrow> 'x \<Rightarrow> ('s \<times> 'j option) option" where
  "inner_act act put0 s x = map_option (\<lambda>(s, j1, j0). (put_job put0 j0 s, j1)) (act s x)"

definition outer_act ::
  "('s \<Rightarrow> 'x \<Rightarrow> ('s \<times> 'j option \<times> 'k option) option) \<Rightarrow> ('j list \<Rightarrow> 's \<Rightarrow> 's) \<Rightarrow> ('x \<Rightarrow> bool) \<Rightarrow> 's \<times> 'j list \<Rightarrow> 'x \<Rightarrow>
     (('s \<times> 'j list) \<times> 'k option) option" where
  "outer_act act exec1 flush = (\<lambda>(s, queue) x.
     map_option (\<lambda>(s, j1, j0).
        let queue = queue @ (case j1 of None \<Rightarrow> [] | Some j \<Rightarrow> [j])
        in (if length queue = 4 \<or> flush x then (exec1 queue s, []) else (s, queue), j0)) (act s x))"

lemma direct_outer:
  assumes "\<And>j queue s. exec1 queue (put0 j s) = put0 j (exec1 queue s)"
  shows "direct_step (outer_act act exec1 flush) (\<lambda>j (s, queue). (put0 j s, queue)) = batch_step (inner_act act put0) exec1 flush"
proof (intro ext, clarify)
  fix s queue x
  show "direct_step (outer_act act exec1 flush) (\<lambda>j (s, queue). (put0 j s, queue)) (s, queue) x = batch_step (inner_act act put0) exec1 flush (s, queue) x"
    by (cases "act s x")
      (auto simp: direct_step_def outer_act_def batch_step_def inner_act_def put_job_def Let_def assms split: option.splits prod.splits)
qed

text \<open>The commitments of other rounds are neither read nor written.\<close>

lemma hidden_values_cmt:
  "hidden_values p V_tr W_mat s chall_1 sig junk i (set_cmt_0 k d st) = map_prod (set_cmt_0 k d) id (hidden_values p V_tr W_mat s chall_1 sig junk i st)"
  "k \<noteq> i \<Longrightarrow> hidden_values p V_tr W_mat s chall_1 sig junk i (set_cmt_1 k d st) = map_prod (set_cmt_1 k d) id (hidden_values p V_tr W_mat s chall_1 sig junk i st)"
  by (simp_all add: hidden_values_def set_cmt_0_def set_cmt_1_def Let_def split_beta list_update_swap)

lemma set_cmt_fields [simp]:
  "vf_used_rsps (set_cmt_0 k d st) = vf_used_rsps st" "vf_used_rsps (set_cmt_1 k d st) = vf_used_rsps st"
  "vf_y (set_cmt_0 k d st) = vf_y st" "vf_y (set_cmt_1 k d st) = vf_y st"
  "(set_cmt_0 k d st)\<lparr>vf_y := y\<rparr> = set_cmt_0 k d (st\<lparr>vf_y := y\<rparr>)" "(set_cmt_1 k d st)\<lparr>vf_y := y\<rparr> = set_cmt_1 k d (st\<lparr>vf_y := y\<rparr>)"
  "set_cmt_1 k d (set_cmt_0 j x st) = set_cmt_0 j x (set_cmt_1 k d st)"
  by (simp_all add: set_cmt_0_def set_cmt_1_def)

lemma verify_act_put:
  "verify_act p u V_tr W_mat s chall_1 chall_2 round_seeds sig junk (put_hash p set_cmt_0 j st) i
     = map_option (\<lambda>(st', jobs). (put_hash p set_cmt_0 j st', jobs)) (verify_act p u V_tr W_mat s chall_1 chall_2 round_seeds sig junk st i)"
  "fst j \<noteq> i \<Longrightarrow> verify_act p u V_tr W_mat s chall_1 chall_2 round_seeds sig junk (put_hash p set_cmt_1 j st) i
     = map_option (\<lambda>(st', jobs). (put_hash p set_cmt_1 j st', jobs)) (verify_act p u V_tr W_mat s chall_1 chall_2 round_seeds sig junk st i)"
  by (cases j; simp add: verify_act_def put_hash_def hidden_values_cmt Let_def split_beta)+

lemma put_queue_elsewhere:
  "put_all (put_hash p set_cmt_1) queue (put_hash p set_cmt_0 j st) = put_hash p set_cmt_0 j (put_all (put_hash p set_cmt_1) queue st)"
  unfolding put_all_def by (induction queue arbitrary: st) (auto simp: put_hash_def split_beta)

definition verify_jobs_at ::
  "cross_params \<Rightarrow> uninitialised \<Rightarrow> nat list list \<Rightarrow> nat list list \<Rightarrow> nat list \<Rightarrow> nat list \<Rightarrow> nat list \<Rightarrow> bytes \<Rightarrow> CROSS_sig_t \<Rightarrow> junk_t \<Rightarrow>
     verify_t \<Rightarrow> nat \<Rightarrow> (verify_t \<times> hash_job option) option" where
  \<comment> \<open>the first commitment hashed at once, the second left to the queue\<close>
  "verify_jobs_at p u V_tr W_mat s chall_1 chall_2 round_seeds sig junk =
     inner_act (verify_act p u V_tr W_mat s chall_1 chall_2 round_seeds sig junk) (put_hash p set_cmt_0)"

lemma verify_act_jobs:
  assumes "verify_act p u V_tr W_mat s chall_1 chall_2 round_seeds sig junk st i = Some (st', j1, j0)"
  shows "j1 = Some j \<Longrightarrow> fst j = i" and "j0 = Some j' \<Longrightarrow> fst j' = i"
  using assms by (auto simp: verify_act_def Let_def split_beta split: if_splits)

interpretation cmt_1_batch: batching "verify_jobs_at p u V_tr W_mat s chall_1 chall_2 round_seeds sig junk" "put_hash p set_cmt_1"
  "put_all (put_hash p set_cmt_1)" "\<lambda>i. i = par_T p - 1" "[0..<par_T p]" "\<lambda>i j. fst j = i"
  for p u V_tr W_mat s chall_1 chall_2 round_seeds sig junk
proof
  fix x st st' and j :: hash_job
  assume "verify_jobs_at p u V_tr W_mat s chall_1 chall_2 round_seeds sig junk st x = Some (st', Some j)"
  then show "fst j = x" using verify_act_jobs(1) unfolding verify_jobs_at_def inner_act_def by fastforce
next
  fix y x st and j :: hash_job
  assume "same_run (\<lambda>i. i = par_T p - 1) [0..<par_T p] y x" and "fst j = y"
  then have ne: "fst j \<noteq> x" using same_run_upt by fastforce
  have "put_job (put_hash p set_cmt_0) j0 (put_hash p set_cmt_1 j st) = put_hash p set_cmt_1 j (put_job (put_hash p set_cmt_0) j0 st)" for j0 st
    using put_queue_elsewhere [of p "[j]"] by (cases j0) (simp_all add: put_job_def put_all_def)
  then show "verify_jobs_at p u V_tr W_mat s chall_1 chall_2 round_seeds sig junk (put_hash p set_cmt_1 j st) x
      = map_option (\<lambda>(st', job). (put_hash p set_cmt_1 j st', job)) (verify_jobs_at p u V_tr W_mat s chall_1 chall_2 round_seeds sig junk st x)"
    by (simp add: verify_jobs_at_def inner_act_def verify_act_put(2) [OF ne] option.map_comp comp_def split_beta)
qed (auto simp: put_all_def dest: upt_flushed)

definition put_first :: "cross_params \<Rightarrow> hash_job \<Rightarrow> verify_t \<times> hash_job list \<Rightarrow> verify_t \<times> hash_job list" where
  "put_first p j = (\<lambda>(st, queue). (put_hash p set_cmt_0 j st, queue))"

definition verify_both_at ::
  "cross_params \<Rightarrow> uninitialised \<Rightarrow> nat list list \<Rightarrow> nat list list \<Rightarrow> nat list \<Rightarrow> nat list \<Rightarrow> nat list \<Rightarrow> bytes \<Rightarrow> CROSS_sig_t \<Rightarrow> junk_t \<Rightarrow>
     verify_t \<times> hash_job list \<Rightarrow> nat \<Rightarrow> ((verify_t \<times> hash_job list) \<times> hash_job option) option" where
  \<comment> \<open>both commitments left to queues, that of the second ones part of the state\<close>
  "verify_both_at p u V_tr W_mat s chall_1 chall_2 round_seeds sig junk =
     outer_act (verify_act p u V_tr W_mat s chall_1 chall_2 round_seeds sig junk) (put_all (put_hash p set_cmt_1)) (\<lambda>i. i = par_T p - 1)"

interpretation cmt_0_batch: batching "verify_both_at p u V_tr W_mat s chall_1 chall_2 round_seeds sig junk" "put_first p"
  "put_all (put_first p)" "\<lambda>i. i = par_T p - 1" "[0..<par_T p]" "\<lambda>i j. fst j = i"
  for p u V_tr W_mat s chall_1 chall_2 round_seeds sig junk
proof
  fix x st st' and j :: hash_job
  assume "verify_both_at p u V_tr W_mat s chall_1 chall_2 round_seeds sig junk st x = Some (st', Some j)"
  then obtain sv j1 where "verify_act p u V_tr W_mat s chall_1 chall_2 round_seeds sig junk (fst st) x = Some (sv, j1, Some j)"
    by (cases st) (auto simp: verify_both_at_def outer_act_def Let_def split_beta)
  then show "fst j = x" by (rule verify_act_jobs(2)) simp
next
  fix y x st and j :: hash_job
  show "verify_both_at p u V_tr W_mat s chall_1 chall_2 round_seeds sig junk (put_first p j st) x
      = map_option (\<lambda>(st', job). (put_first p j st', job)) (verify_both_at p u V_tr W_mat s chall_1 chall_2 round_seeds sig junk st x)"
    by (cases st) (auto simp: verify_both_at_def outer_act_def put_first_def verify_act_put(1) put_queue_elsewhere
        option.map_comp comp_def split_beta Let_def intro!: map_option_cong)
qed (auto simp: put_all_def dest: upt_flushed)

lemma direct_both:
  "direct_step (verify_both_at p u V_tr W_mat s chall_1 chall_2 round_seeds sig junk) (put_first p)
     = batch_step (verify_jobs_at p u V_tr W_mat s chall_1 chall_2 round_seeds sig junk) (put_all (put_hash p set_cmt_1)) (\<lambda>i. i = par_T p - 1)"
  unfolding verify_both_at_def verify_jobs_at_def put_first_def [abs_def] by (rule direct_outer) (rule put_queue_elsewhere)

lemma put_first_all: "put_all (put_first p) queue (st, jobs) = (put_all (put_hash p set_cmt_0) queue st, jobs)"
  unfolding put_all_def by (induction queue arbitrary: st) (simp_all add: put_first_def)

subsection \<open>The queues of the code\<close>

definition vqueued :: "cross_params \<Rightarrow> bytes \<Rightarrow> (verify_t \<times> verify_queue) \<times> verify_queue \<Rightarrow> (verify_t \<times> hash_job list) \<times> hash_job list \<Rightarrow> bool" where
  "vqueued p salt = (\<lambda>((st, q1), q0) ((st', jobs1), jobs0).
     st' = st \<and> vqueue_ok p (SEED_LENGTH_BYTES p) salt q1 \<and> vq_to_hash q1 < 4 \<and> jobs1 = verify_jobs q1
     \<and> vqueue_ok p (DENSELY_PACKED_FP_SYN_SIZE p + packed_v_size p) salt q0 \<and> vq_to_hash q0 < 4 \<and> jobs0 = verify_jobs q0)"

lemma length_hidden_packed: "length (snd (hidden_values p V_tr W_mat s chall_1 sig junk i st)) = DENSELY_PACKED_FP_SYN_SIZE p"
  by (simp add: hidden_values_def Let_def split_beta)

text \<open>The end of an iteration, in the code and on the lists of jobs.\<close>

definition hash_both ::
  "cross_params \<Rightarrow> uninitialised \<Rightarrow> bool \<Rightarrow> verify_t \<Rightarrow> verify_queue \<Rightarrow> verify_queue \<Rightarrow> (verify_t \<times> verify_queue) \<times> verify_queue" where
  "hash_both p u b st q1 q0 =
     (let (st, q1) = hash_inputs p u set_cmt_1 (cmt_1_input_size p) b st q1; (st, q0) = hash_inputs p u set_cmt_0 (cmt_0_input_size p) b st q0
      in ((st, q1), q0))"

definition put_both :: "cross_params \<Rightarrow> bool \<Rightarrow> verify_t \<Rightarrow> hash_job list \<Rightarrow> hash_job list \<Rightarrow> (verify_t \<times> hash_job list) \<times> hash_job list" where
  "put_both p b st jobs1 jobs0 =
     (let s = (if length jobs1 = 4 \<or> b then (put_all (put_hash p set_cmt_1) jobs1 st, []) else (st, jobs1))
      in if length jobs0 = 4 \<or> b then (put_all (put_first p) jobs0 s, []) else (s, jobs0))"

lemma both_hashed:
  assumes q1: "vqueue_ok p (SEED_LENGTH_BYTES p) salt q1" and q0: "vqueue_ok p (DENSELY_PACKED_FP_SYN_SIZE p + packed_v_size p) salt q0"
    and salt: "length salt = SALT_LENGTH_BYTES p"
  shows "vqueued p salt (hash_both p u b st q1 q0) (put_both p b st (verify_jobs q1) (verify_jobs q0))"
proof -
  have h: "hash_inputs p u set_cmt_1 (cmt_1_input_size p) b st q1 =
      (if length (verify_jobs q1) = 4 \<or> b then (put_all (put_hash p set_cmt_1) (verify_jobs q1) st, q1\<lparr>vq_to_hash := 0\<rparr>) else (st, q1))"
    "hash_inputs p u set_cmt_0 (cmt_0_input_size p) b st q0 =
      (if length (verify_jobs q0) = 4 \<or> b then (put_all (put_hash p set_cmt_0) (verify_jobs q0) st, q0\<lparr>vq_to_hash := 0\<rparr>) else (st, q0))" for st
    using hash_inputs_eq [OF q1, of u set_cmt_1 b st] hash_inputs_eq [OF q0, of u set_cmt_0 b st] input_sizes_small [of p]
    by (simp_all add: cmt_0_input_size_def cmt_1_input_size_def salt)
  have le: "vq_to_hash q1 \<le> 4" "vq_to_hash q0 \<le> 4" using q1 q0 by (simp_all add: vqueue_ok_def hash_queue_ok_def)
  show ?thesis using q1 q0 le by (auto simp: hash_both_def put_both_def h vqueued_def put_first_all)
qed

definition job_list :: "'j option \<Rightarrow> 'j list" where
  "job_list job = (case job of None \<Rightarrow> [] | Some j \<Rightarrow> [j])"

lemma batch_both:
  "batch_step (verify_both_at p u V_tr W_mat s chall_1 chall_2 round_seeds sig junk) (put_all (put_first p)) (\<lambda>i. i = par_T p - 1) ((st, jobs1), jobs0) i
     = map_option (\<lambda>(st, j1, j0). put_both p (i = par_T p - 1) st (jobs1 @ job_list j1) (jobs0 @ job_list j0))
         (verify_act p u V_tr W_mat s chall_1 chall_2 round_seeds sig junk st i)"
  by (cases "verify_act p u V_tr W_mat s chall_1 chall_2 round_seeds sig junk st i")
    (auto simp: batch_step_def verify_both_at_def outer_act_def put_both_def job_list_def Let_def split_beta)

lemma verify_round_queued:
  assumes sig: "sig_ok p sig" and seeds: "length round_seeds = par_T p * SEED_LENGTH_BYTES p" and i: "i < par_T p"
    and R: "vqueued p (sig_salt sig) c a"
  shows "rel_option (vqueued p (sig_salt sig)) (verify_round_x4 p u V_tr W_mat s chall_1 chall_2 round_seeds sig junk c i)
    (batch_step (verify_both_at p u V_tr W_mat s chall_1 chall_2 round_seeds sig junk) (put_all (put_first p)) (\<lambda>i. i = par_T p - 1) a i)"
proof -
  let ?salt = "sig_salt sig"
  obtain st q1 q0 where c: "c = ((st, q1), q0)" by (cases c) auto
  have a: "a = ((st, verify_jobs q1), verify_jobs q0)" and q1: "vqueue_ok p (SEED_LENGTH_BYTES p) ?salt q1" "vq_to_hash q1 < 4"
    and q0: "vqueue_ok p (DENSELY_PACKED_FP_SYN_SIZE p + packed_v_size p) ?salt q0" "vq_to_hash q0 < 4"
    using R by (cases a; auto simp: vqueued_def c)+
  have salt: "length ?salt = SALT_LENGTH_BYTES p" using sig by (simp add: sig_ok_def)
  show ?thesis
  proof (cases "chall_2 ! i = 1")
    case True
    let ?seed = "round_seed p round_seeds i"
    have "i * SEED_LENGTH_BYTES p + SEED_LENGTH_BYTES p \<le> par_T p * SEED_LENGTH_BYTES p" using slot_end [OF i] .
    then have seed: "length ?seed = SEED_LENGTH_BYTES p" using seeds by (simp add: round_seed_def read_at_def)
    have "write_at 0 ?seed slot = ?seed @ ?salt" if "length slot = SEED_LENGTH_BYTES p + length ?salt" "drop (SEED_LENGTH_BYTES p) slot = ?salt" for slot
      using that seed by (rule fill_one)
    note enq = enqueue_input_ok [where i = i and fill = "write_at 0 ?seed", OF q1 seed this]
    show ?thesis
      using both_hashed [where u = u and b = "i = par_T p - 1", OF enq(1) q0(1) salt] True unfolding a batch_both
      by (simp add: verify_round_x4_def verify_revealed_x4_def verify_act_def c hash_both_def enq(2) job_list_def Let_def split_beta)
  next
    case False
    let ?r = "sig_resp_0 sig ! vf_used_rsps st" and ?v = "hidden_values p V_tr W_mat s chall_1 sig junk i st"
    show ?thesis
    proof (cases "vf_used_rsps st < length (sig_resp_0 sig) \<and> vf_used_rsps st < length (sig_resp_1 sig)")
      case inside: True
      then have r: "length (resp_v ?r) = packed_v_size p" using sig by (simp add: sig_ok_def)
      have pre: "length (snd ?v @ resp_v ?r) = DENSELY_PACKED_FP_SYN_SIZE p + packed_v_size p" using r by (simp add: length_hidden_packed)
      have "write_at 0 (snd ?v) (write_at (DENSELY_PACKED_FP_SYN_SIZE p) (resp_v ?r) slot) = (snd ?v @ resp_v ?r) @ ?salt"
        if "length slot = DENSELY_PACKED_FP_SYN_SIZE p + packed_v_size p + length ?salt" "drop (DENSELY_PACKED_FP_SYN_SIZE p + packed_v_size p) slot = ?salt" for slot
        using fill_two(2) [of slot "snd ?v" "resp_v ?r" ?salt] that r by (simp add: length_hidden_packed)
      note enq = enqueue_input_ok [where i = i and fill = "\<lambda>x. write_at 0 (snd ?v) (write_at (DENSELY_PACKED_FP_SYN_SIZE p) (resp_v ?r) x)", OF q0 pre this]
      show ?thesis
        using both_hashed [where u = u and b = "i = par_T p - 1", OF q1(1) enq(1) salt] False inside unfolding a batch_both
        by (simp add: verify_round_x4_def verify_hidden_x4_def verify_act_def c hash_both_def enq(2) job_list_def Let_def split_beta)
    next
      case outside: False
      then show ?thesis using False
        unfolding a batch_both by (auto simp: verify_round_x4_def verify_act_def c)
    qed
  qed
qed

definition verify_direct ::
  "cross_params \<Rightarrow> uninitialised \<Rightarrow> nat list list \<Rightarrow> nat list list \<Rightarrow> nat list \<Rightarrow> nat list \<Rightarrow> nat list \<Rightarrow> bytes \<Rightarrow> CROSS_sig_t \<Rightarrow> junk_t \<Rightarrow>
     verify_t \<Rightarrow> nat \<Rightarrow> verify_t option" where
  "verify_direct p u V_tr W_mat s chall_1 chall_2 round_seeds sig junk =
     direct_step (verify_jobs_at p u V_tr W_mat s chall_1 chall_2 round_seeds sig junk) (put_hash p set_cmt_1)"

lemma verify_loop_x4:
  assumes sig: "sig_ok p sig" and seeds: "length round_seeds = par_T p * SEED_LENGTH_BYTES p"
  shows "map_option (\<lambda>c. fst (fst c)) (foldM (verify_round_x4 p u V_tr W_mat s chall_1 chall_2 round_seeds sig junk)
      ((st, init_verify_queue u (SEED_LENGTH_BYTES p) (sig_salt sig)),
       init_verify_queue u (DENSELY_PACKED_FP_SYN_SIZE p + packed_v_size p) (sig_salt sig)) [0..<par_T p])
    = foldM (verify_direct p u V_tr W_mat s chall_1 chall_2 round_seeds sig junk) st [0..<par_T p]"
proof -
  let ?c = "((st, init_verify_queue u (SEED_LENGTH_BYTES p) (sig_salt sig)),
       init_verify_queue u (DENSELY_PACKED_FP_SYN_SIZE p + packed_v_size p) (sig_salt sig))"
  have "rel_option (vqueued p (sig_salt sig)) (foldM (verify_round_x4 p u V_tr W_mat s chall_1 chall_2 round_seeds sig junk) ?c [0..<par_T p])
    (foldM (batch_step (verify_both_at p u V_tr W_mat s chall_1 chall_2 round_seeds sig junk) (put_all (put_first p)) (\<lambda>i. i = par_T p - 1))
      ((st, []), []) [0..<par_T p])"
    by (rule foldM_simulation [OF verify_round_queued [OF sig seeds]]) (simp_all add: vqueued_def)
  then show ?thesis
    unfolding cmt_0_batch.batched direct_both cmt_1_batch.batched verify_direct_def [symmetric]
    by (cases rule: option.rel_cases) (auto simp: vqueued_def)
qed

subsection \<open>The values of a hidden round\<close>

lemma unpacked_values:
  "length bs = DENSELY_PACKED_FP_VEC_SIZE p \<Longrightarrow> i < par_N p \<Longrightarrow> fst (unpack_fp_vec p bs) ! i < 2 ^ fp_bits (variant p)"
  "length bs = DENSELY_PACKED_FP_SYN_SIZE p \<Longrightarrow> i < par_N p - par_K p \<Longrightarrow> fst (unpack_fp_syn p bs) ! i < 2 ^ fp_bits (variant p)"
  "length bs = DENSELY_PACKED_FZ_VEC_SIZE p \<Longrightarrow> i < par_N p \<Longrightarrow> fst (unpack_fz_vec p bs) ! i < 2 ^ fz_bits (variant p)"
  "length bs = DENSELY_PACKED_FZ_RSDP_G_VEC_SIZE p \<Longrightarrow> length (fst (unpack_fz_rsdp_g_vec p bs)) = par_M p
     \<and> (\<forall>x\<in>set (fst (unpack_fz_rsdp_g_vec p bs)). x < 2 ^ fz_bits (variant p))"
  unfolding unpack_fp_vec_def unpack_fp_syn_def unpack_fz_vec_def unpack_fz_rsdp_g_vec_def sizes_def
  by (simp_all add: fp_codec.unpack_lt fp_codec.length_unpack fz_codec.unpack_lt fz_codec.length_unpack)

lemma below_width: "x < 2 ^ fz_bits v \<Longrightarrow> x \<le> par_Z v" "x < 2 ^ fp_bits RSDP \<Longrightarrow> x \<le> fp_top RSDP"
  by (cases v) (auto simp: fz_bits_def fp_bits_def)

lemma pointwise_unpacked:
  assumes i: "i < par_N p" and e: "e ! i \<le> par_Z (variant p)" and y: "y ! i < 2 ^ fp_bits (variant p)"
  defines "r \<equiv> fp_vec_by_fp_vec_pointwise_avx p (convert_restr_vec_to_fp p e) y ! i"
    and "r' \<equiv> fp_vec_by_fp_vec_pointwise p (convert_restr_vec_to_fp p e) y ! i"
  shows "r \<le> fp_top (variant p) \<and> r' \<le> fp_top (variant p) \<and> r mod par_P (variant p) = r' mod par_P (variant p)"
proof (cases "variant p")
  case RSDP
  then show ?thesis using fp_vec_by_fp_vec_pointwise_avx_restr [OF i e] below_width(2) y by (simp add: r_def r'_def)
next
  case RSDPG
  let ?x = "RESTR_TO_VAL (variant p) (e ! i)"
  have "?x \<le> 508" "y ! i \<le> 511" using RESTR_TO_VAL_lt [OF e] y by (simp_all add: RSDPG fp_bits_def del: RESTR_TO_VAL.simps)
  then have "?x * y ! i \<le> 508 * 511" by (rule mult_le_mono)
  then have "FPRED_SINGLE RSDPG (?x * y ! i) = (?x * y ! i) mod 509" by (intro FPRED_SINGLE_509) simp
  moreover have "(?x * y ! i) mod 509 \<le> 508" by (simp add: less_Suc_eq_le [symmetric])
  ultimately have "fp_red RSDPG (?x * y ! i) \<le> 508"
    using fp_store_id [of "(?x * y ! i) mod 509" RSDPG] by (simp add: fp_red_def RSDPG del: FPRED_SINGLE.simps RESTR_TO_VAL.simps)
  moreover have "r = fp_red RSDPG (?x * y ! i)" "r' = fp_red RSDPG (?x * y ! i)"
    using i by (simp_all add: r_def r'_def RSDPG fp_red_def fp_vec_by_fp_vec_pointwise_avx_def fp_vec_by_fp_vec_pointwise_def
        convert_restr_vec_to_fp_def del: FPRED_SINGLE.simps RESTR_TO_VAL.simps)
  ultimately show ?thesis by (simp add: RSDPG)
qed

lemma hidden_syndrome_same:
  assumes K: "keys_ok p V_tr W_mat" and c: "c < par_P (variant p)"
    and v: "\<And>i. i < par_N p \<Longrightarrow> v ! i \<le> par_Z (variant p)" and y: "\<And>i. i < par_N p \<Longrightarrow> y ! i < 2 ^ fp_bits (variant p)"
    and s: "\<And>i. i < par_N p - par_K p \<Longrightarrow> s ! i < 2 ^ fp_bits (variant p)"
  shows "fp_synd_minus_fp_vec_scaled_avx p
      (fp_dz_norm_synd p (fp_vec_by_fp_matrix_avx p (fp_vec_by_fp_vec_pointwise_avx p (convert_restr_vec_to_fp p v) y) V_tr)) c s
    = fp_synd_minus_fp_vec_scaled p
      (fp_dz_norm_synd p (fp_vec_by_fp_matrix p (fp_vec_by_fp_vec_pointwise p (convert_restr_vec_to_fp p v) y) V_tr)) c s"
proof -
  let ?a = "fp_vec_by_fp_vec_pointwise_avx p (convert_restr_vec_to_fp p v) y" and ?b = "fp_vec_by_fp_vec_pointwise p (convert_restr_vec_to_fp p v) y"
  note pw = pointwise_unpacked [OF _ v y]
  have "syn_ok p ?b V_tr" using K pw by (intro syn_okI) (simp_all add: keys_ok_def)
  then have H: "fp_dz_norm_synd p (fp_vec_by_fp_matrix_avx p ?a V_tr) = fp_dz_norm_synd p (fp_vec_by_fp_matrix p ?b V_tr)"
    using pw by (intro fp_vec_by_fp_matrix_avx_same fp_top_le_wide) simp_all
  show ?thesis
  proof (cases "variant p")
    case RSDP
    then show ?thesis unfolding H using s below_width(2) by (intro fp_synd_minus_fp_vec_scaled_avx_same c) simp
  next
    case RSDPG
    then show ?thesis unfolding H
      by (simp add: fp_synd_minus_fp_vec_scaled_avx_def fp_synd_minus_fp_vec_scaled_def fp_red_def
          del: FPRED_SINGLE.simps FPRED_OPPOSITE.simps)
  qed
qed

lemma read_v_same:
  fixes vx vr :: "nat list \<times> bool \<times> bool"
  assumes K: "keys_ok p V_tr W_mat" and x: "length x = packed_v_size p"
    and vx_def: "vx = (case variant p of
      RSDP \<Rightarrow> let (v_bar, padd) = short_circuit padd (unpack_fz_vec p x) d1 in (v_bar, padd, is_fz_vec_in_restr_group_n p v_bar)
    | RSDPG \<Rightarrow> let (v_G_bar, padd) = short_circuit padd (unpack_fz_rsdp_g_vec p x) d2
               in (fz_inf_w_by_fz_matrix_avx p v_G_bar W_mat, padd, is_fz_vec_in_restr_group_m p v_G_bar))"
    and vr_def: "vr = (case variant p of
      RSDP \<Rightarrow> let (v_bar, padd) = short_circuit padd (unpack_fz_vec p x) d1 in (v_bar, padd, is_fz_vec_in_restr_group_n p v_bar)
    | RSDPG \<Rightarrow> let (v_G_bar, padd) = short_circuit padd (unpack_fz_rsdp_g_vec p x) d2
               in (fz_inf_w_by_fz_matrix p v_G_bar W_mat, padd, is_fz_vec_in_restr_group_m p v_G_bar))"
  shows "snd vx = snd vr"
    and "fst (snd vr) \<Longrightarrow> convert_restr_vec_to_fp p (fst vx) = convert_restr_vec_to_fp p (fst vr) \<and> (\<forall>i<par_N p. fst vr ! i \<le> par_Z (variant p))"
proof -
  show "snd vx = snd vr" by (cases "variant p") (simp_all add: vx_def vr_def Let_def split_beta)
  assume ok: "fst (snd vr)"
  show "convert_restr_vec_to_fp p (fst vx) = convert_restr_vec_to_fp p (fst vr) \<and> (\<forall>i<par_N p. fst vr ! i \<le> par_Z (variant p))"
  proof (cases "variant p")
    case RSDP
    then have "padd" using ok by (auto simp: vr_def short_circuit_def Let_def split_beta split: if_splits)
    then have "fst vr = fst (unpack_fz_vec p x)" "fst vx = fst vr" by (simp_all add: vr_def vx_def short_circuit_def RSDP Let_def split_beta)
    moreover have "fst (unpack_fz_vec p x) ! i \<le> par_Z (variant p)" if "i < par_N p" for i
      by (rule below_width(1), rule unpacked_values(3)) (use x that in \<open>simp_all add: packed_v_size_def RSDP\<close>)
    ultimately show ?thesis by simp
  next
    case RSDPG
    then have "padd" using ok by (auto simp: vr_def short_circuit_def Let_def split_beta split: if_splits)
    let ?w = "fst (unpack_fz_rsdp_g_vec p x)"
    have vs: "fst vr = fz_inf_w_by_fz_matrix p ?w W_mat" "fst vx = fz_inf_w_by_fz_matrix_avx p ?w W_mat"
      using \<open>padd\<close> by (simp_all add: vr_def vx_def short_circuit_def RSDPG Let_def split_beta)
    have w: "length ?w = par_M p" "fz_ok (variant p) ?w"
    proof -
      have u: "length ?w = par_M p \<and> (\<forall>x\<in>set ?w. x < 2 ^ fz_bits (variant p))"
        by (rule unpacked_values(4)) (use x in \<open>simp add: packed_v_size_def RSDPG\<close>)
      then show "length ?w = par_M p" by simp
      show "fz_ok (variant p) ?w" unfolding fz_ok_def using u below_width(1) by blast
    qed
    have W: "mat_ok (par_Z (variant p)) (par_M p) (par_N p - par_M p) W_mat" using K by (simp add: keys_ok_def RSDPG)
    show ?thesis unfolding vs using fz_inf_w_avx_norm(2) [OF RSDPG w W] fz_inf_w_by_fz_matrix_avx_same(2) [OF RSDPG w W] by (simp add: RSDPG)
  qed
qed

definition vrel :: "cross_params \<Rightarrow> verify_t \<Rightarrow> verify_t \<Rightarrow> bool" where
  \<comment> \<open>the first commitments agree as long as no padding was rejected\<close>
  "vrel p x y \<longleftrightarrow> (\<exists>c. x = y\<lparr>vf_cmt_0 := c\<rparr> \<and> length c = par_T p \<and> (\<forall>d\<in>set c. length d = HASH_DIGEST_LENGTH p)
     \<and> (vf_is_packed_padd_ok y \<longrightarrow> c = vf_cmt_0 y))"

lemma hidden_values_same:
  assumes K: "keys_ok p V_tr W_mat" and c: "chall_1 ! i < par_P (variant p)"
    and s: "\<And>i. i < par_N p - par_K p \<Longrightarrow> s ! i < 2 ^ fp_bits (variant p)"
    and r_def: "r = sig_resp_0 sig ! vf_used_rsps st" and r: "length (resp_y r) = DENSELY_PACKED_FP_VEC_SIZE p" "length (resp_v r) = packed_v_size p"
    and hv_def: "hv = hidden_values p V_tr W_mat s chall_1 sig junk i st" and st'_def: "st' = verify_hidden p V_tr W_mat s chall_1 sig junk i st"
  shows "fst hv = st'\<lparr>vf_cmt_0 := vf_cmt_0 st\<rparr>"
    and "vf_is_packed_padd_ok st' \<Longrightarrow> vf_is_packed_padd_ok st
      \<and> vf_cmt_0 st' = (vf_cmt_0 st)[i := hash p (snd hv @ resp_v r @ sig_salt sig) (domain_sep_hash p i)]"
proof -
  let ?y = "short_circuit (vf_is_packed_padd_ok st) (unpack_fp_vec p (resp_y r)) (vf_y st ! i)"
  define vx where "vx = (case variant p of
      RSDP \<Rightarrow> let (v_bar, padd) = short_circuit (snd ?y) (unpack_fz_vec p (resp_v r))
                   (map (\<lambda>j. fz_store (variant p) (junk_v junk i j)) [0..<par_N p])
              in (v_bar, padd, is_fz_vec_in_restr_group_n p v_bar)
    | RSDPG \<Rightarrow> let (v_G_bar, padd) = short_circuit (snd ?y) (unpack_fz_rsdp_g_vec p (resp_v r))
                   (map (\<lambda>j. fz_store (variant p) (junk_v junk i j)) [0..<par_M p])
               in (fz_inf_w_by_fz_matrix_avx p v_G_bar W_mat, padd, is_fz_vec_in_restr_group_m p v_G_bar))"
  define vr where "vr = (case variant p of
      RSDP \<Rightarrow> let (v_bar, padd) = short_circuit (snd ?y) (unpack_fz_vec p (resp_v r))
                   (map (\<lambda>j. fz_store (variant p) (junk_v junk i j)) [0..<par_N p])
              in (v_bar, padd, is_fz_vec_in_restr_group_n p v_bar)
    | RSDPG \<Rightarrow> let (v_G_bar, padd) = short_circuit (snd ?y) (unpack_fz_rsdp_g_vec p (resp_v r))
                   (map (\<lambda>j. fz_store (variant p) (junk_v junk i j)) [0..<par_M p])
               in (fz_inf_w_by_fz_matrix p v_G_bar W_mat, padd, is_fz_vec_in_restr_group_m p v_G_bar))"
  note v = read_v_same [OF K r(2) vx_def vr_def]
  have flag: "fst (snd vr) \<Longrightarrow> snd ?y"
    unfolding vr_def by (cases "variant p") (auto simp: short_circuit_def Let_def split_beta split: if_splits)
  let ?f = "\<lambda>pw mat synd v. pack_fp_syn p (fp_dz_norm_synd p (synd p
      (fp_dz_norm_synd p (mat p (pw p (convert_restr_vec_to_fp p v) (fst ?y)) V_tr)) (chall_1 ! i) s))"
  have hv: "hv = (st\<lparr>vf_y := (vf_y st)[i := fst ?y], vf_cmt_1 := (vf_cmt_1 st)[i := sig_resp_1 sig ! vf_used_rsps st],
      vf_used_rsps := vf_used_rsps st + 1, vf_is_signature_ok := vf_is_signature_ok st \<and> snd (snd vx), vf_is_packed_padd_ok := fst (snd vx)\<rparr>,
      ?f fp_vec_by_fp_vec_pointwise_avx fp_vec_by_fp_matrix_avx fp_synd_minus_fp_vec_scaled_avx (fst vx))"
    unfolding hv_def hidden_values_def r_def [symmetric] Let_def split_beta vx_def by (simp add: split_beta)
  have st': "st' = st\<lparr>vf_y := (vf_y st)[i := fst ?y],
      vf_cmt_0 := (vf_cmt_0 st)[i := hash p (?f fp_vec_by_fp_vec_pointwise fp_vec_by_fp_matrix fp_synd_minus_fp_vec_scaled (fst vr)
          @ resp_v r @ sig_salt sig) (domain_sep_hash p i)],
      vf_cmt_1 := (vf_cmt_1 st)[i := sig_resp_1 sig ! vf_used_rsps st], vf_used_rsps := vf_used_rsps st + 1,
      vf_is_signature_ok := vf_is_signature_ok st \<and> snd (snd vr), vf_is_packed_padd_ok := fst (snd vr)\<rparr>"
    unfolding st'_def verify_hidden_def r_def [symmetric] Let_def split_beta vr_def by (simp add: split_beta)
  show "fst hv = st'\<lparr>vf_cmt_0 := vf_cmt_0 st\<rparr>" unfolding hv st' v(1) by simp
  assume "vf_is_packed_padd_ok st'"
  then have ok: "fst (snd vr)" by (simp add: st')
  have st: "vf_is_packed_padd_ok st" using flag [OF ok] by (auto simp: short_circuit_def split: if_splits)
  then have y: "fst ?y ! k < 2 ^ fp_bits (variant p)" if "k < par_N p" for k
    using unpacked_values(1) [OF r(1) that] by (simp add: short_circuit_def)
  have "?f fp_vec_by_fp_vec_pointwise_avx fp_vec_by_fp_matrix_avx fp_synd_minus_fp_vec_scaled_avx (fst vx)
      = ?f fp_vec_by_fp_vec_pointwise fp_vec_by_fp_matrix fp_synd_minus_fp_vec_scaled (fst vr)"
    using v(2) [OF ok] hidden_syndrome_same [where v = "fst vr" and y = "fst ?y", OF K c _ y s] by simp
  then show "vf_is_packed_padd_ok st \<and> vf_cmt_0 st' = (vf_cmt_0 st)[i := hash p (snd hv @ resp_v r @ sig_salt sig) (domain_sep_hash p i)]"
    using st by (simp add: st' hv)
qed

subsection \<open>The loop and the decision\<close>

definition verify_round_opt ::
  "cross_params \<Rightarrow> nat list list \<Rightarrow> nat list list \<Rightarrow> nat list \<Rightarrow> nat list \<Rightarrow> nat list \<Rightarrow> bytes \<Rightarrow> CROSS_sig_t \<Rightarrow> junk_t \<Rightarrow>
   verify_t \<Rightarrow> nat \<Rightarrow> verify_t option" where
  \<comment> \<open>\<open>verify_round\<close> with its only fault as \<open>None\<close>\<close>
  "verify_round_opt p V_tr W_mat s chall_1 chall_2 round_seeds sig junk st i =
     (if chall_2 ! i = 1 then Some (verify_revealed p W_mat chall_1 round_seeds sig i st)
      else if vf_used_rsps st < length (sig_resp_0 sig) \<and> vf_used_rsps st < length (sig_resp_1 sig)
      then Some (verify_hidden p V_tr W_mat s chall_1 sig junk i st) else None)"

lemma foldE_checked: "(\<And>s x. f s x = checked (g s x)) \<Longrightarrow> foldE f s xs = checked (foldM g s xs)"
  by (induction xs arbitrary: s) (auto simp: checked_def split: option.split)

lemma verify_loop_checked:
  "foldE (verify_round p V_tr W_mat s chall_1 chall_2 round_seeds sig junk) st xs
     = checked (foldM (verify_round_opt p V_tr W_mat s chall_1 chall_2 round_seeds sig junk) st xs)"
  by (rule foldE_checked) (simp add: verify_round_def verify_round_opt_def checked_def)

lemma vrel_update:
  assumes "length c = par_T p" and "\<forall>d\<in>set c. length d = HASH_DIGEST_LENGTH p" and "length x = HASH_DIGEST_LENGTH p"
  shows "length (c[i := x]) = par_T p \<and> (\<forall>d\<in>set (c[i := x]). length d = HASH_DIGEST_LENGTH p)"
  using assms set_update_subset_insert [of c i x] by auto

lemma verify_direct_same:
  assumes K: "keys_ok p V_tr W_mat" and c: "chall_1 ! i < par_P (variant p)" and sig: "sig_ok p sig"
    and s: "\<And>i. i < par_N p - par_K p \<Longrightarrow> s ! i < 2 ^ fp_bits (variant p)" and R: "vrel p x y"
  shows "rel_option (vrel p) (verify_direct p u V_tr W_mat s chall_1 chall_2 round_seeds sig junk x i)
    (verify_round_opt p V_tr W_mat s chall_1 chall_2 round_seeds sig junk y i)"
proof -
  obtain cmt where x: "x = y\<lparr>vf_cmt_0 := cmt\<rparr>" and cmt: "length cmt = par_T p" "\<forall>d\<in>set cmt. length d = HASH_DIGEST_LENGTH p"
    and same: "vf_is_packed_padd_ok y \<Longrightarrow> cmt = vf_cmt_0 y" using R by (auto simp: vrel_def)
  note dir = verify_direct_def direct_step_def verify_jobs_at_def inner_act_def put_job_def put_hash_def verify_act_def
  show ?thesis
  proof (cases "chall_2 ! i = 1")
    case True
    let ?seed = "round_seed p round_seeds i"
    obtain e' e_G' u' where ex: "expand_round p W_mat ?seed (sig_salt sig) i = (e', e_G', u')" by (metis prod_cases3)
    note r = response_1_x4_same [OF expand_round_ok [OF K ex] c, of u]
    have "vrel p (y\<lparr>vf_cmt_0 := cmt, vf_y := ys, vf_cmt_1 := c1\<rparr>) (y\<lparr>vf_cmt_1 := c1, vf_y := ys\<rparr>)" for ys c1
      unfolding vrel_def by (rule exI [of _ cmt]) (use cmt same in simp)
    then show ?thesis
      using True by (simp add: dir verify_round_opt_def verify_revealed_def expand_round_x4_same [OF K] ex r set_cmt_1_def x Let_def)
  next
    case hid: False
    show ?thesis
    proof (cases "vf_used_rsps y < length (sig_resp_0 sig) \<and> vf_used_rsps y < length (sig_resp_1 sig)")
      case True
      define r where "r = sig_resp_0 sig ! vf_used_rsps y"
      define hv where "hv = hidden_values p V_tr W_mat s chall_1 sig junk i y"
      define st' where "st' = verify_hidden p V_tr W_mat s chall_1 sig junk i y"
      have len: "length (resp_y r) = DENSELY_PACKED_FP_VEC_SIZE p" "length (resp_v r) = packed_v_size p"
        using sig True by (simp_all add: r_def sig_ok_def)
      note h = hidden_values_same [OF K c s r_def len hv_def st'_def]
      have hx: "hidden_values p V_tr W_mat s chall_1 sig junk i x = map_prod (\<lambda>st. st\<lparr>vf_cmt_0 := cmt\<rparr>) id hv"
        unfolding hv_def x by (simp add: hidden_values_def Let_def split_beta)
      let ?d = "hash p (snd hv @ resp_v r @ sig_salt sig) (domain_sep_hash p i)"
      have "vrel p (st'\<lparr>vf_cmt_0 := cmt[i := ?d]\<rparr>) st'"
        unfolding vrel_def by (rule exI [of _ "cmt[i := ?d]"]) (use h(2) same vrel_update [OF cmt, of ?d i] in auto)
      then show ?thesis
        using hid True by (simp add: dir verify_round_opt_def hx h(1) set_cmt_0_def st'_def [symmetric] Let_def split_beta)
          (simp add: x r_def)
    next
      case False
      then show ?thesis using hid by (auto simp: dir verify_round_opt_def x)
    qed
  qed
qed

lemma foldM_preserves: "foldM f s xs = Some s' \<Longrightarrow> I s \<Longrightarrow> (\<And>s x s'. x \<in> set xs \<Longrightarrow> f s x = Some s' \<Longrightarrow> I s \<Longrightarrow> I s') \<Longrightarrow> I s'"
  by (induction xs arbitrary: s) (fastforce split: option.splits)+

lemma rebuilt_tree_ok:
  assumes run: "rebuild_tree p t ind stored salt = Some (t', b)" and t: "tree_ok p t"
  shows "tree_ok p t'"
proof -
  let ?flags = "compute_seeds_to_publish p (replicate (NUM_NODES_TREE p) 0) ind"
  obtain n where run': "foldM (rebuild_node p ?flags stored salt) (t, 0) (level_nodes (tree_npl p) (tree_npl p) [1..<Suc (tree_height p)] 1) = Some (t', n)"
    using run by (auto simp: rebuild_tree_def Let_def split: option.splits)
  have pres: "tree_ok p (fst s')" if step: "rebuild_node p ?flags stored salt s x = Some s'" and s: "tree_ok p (fst s)" for s x s'
  proof -
    obtain l k node where x: "x = (l, k, node)" by (cases x) auto
    have eq: "rebuild_node p ?flags stored salt s x = map_option (\<lambda>(t, n).
        (if ?flags ! node = TO_PUBLISH \<and> k < tree_npl p l - tree_lpl p l
         then put_children p t (LEFT_CHILD node - tree_off p l) (expand_node p salt (t ! node) node) else t, n)) (load_seed p ?flags stored l node s)"
      by (cases s) (auto simp: rebuild_node_def load_seed_def x split: option.split)
    obtain t n where l: "load_seed p ?flags stored l node s = Some (t, n)"
      and s': "fst s' = t \<or> fst s' = put_children p t (LEFT_CHILD node - tree_off p l) (expand_node p salt (t ! node) node)"
      using step unfolding eq by (cases "load_seed p ?flags stored l node s") auto
    have t: "tree_ok p t" using load_seed_ok [of p ?flags stored l node "fst s" "snd s"] l s by simp
    show ?thesis using s' t tree_ok_put_children [OF t length_expand_node] by auto
  qed
  have "tree_ok p (fst (t', n))"
    by (rule foldM_preserves [where I = "\<lambda>s. tree_ok p (fst s)", OF run']) (simp add: t, rule pres)
  then show ?thesis by simp
qed

lemma length_rebuilt_seeds:
  assumes "rebuild_seeds p ind path salt = Some (round_seeds, ok)"
  shows "length round_seeds = par_T p * SEED_LENGTH_BYTES p"
proof (cases "no_trees p")
  case True
  let ?f = "\<lambda>(rounds_seeds, published) i. if ind ! i = TO_PUBLISH
              then (case load_at (published * SEED_LENGTH_BYTES p) (SEED_LENGTH_BYTES p) path of
                      None \<Rightarrow> None
                    | Some seed \<Rightarrow> Some (write_at (i * SEED_LENGTH_BYTES p) seed rounds_seeds, published + 1))
              else Some (rounds_seeds, published)"
  obtain n where "foldM ?f (replicate (par_T p * SEED_LENGTH_BYTES p) 0, 0) [0..<par_T p] = Some (round_seeds, n)"
    using assms True by (auto simp: rebuild_seeds_def rebuild_leaves_def split: option.splits)
  then have "length (fst (round_seeds, n)) = par_T p * SEED_LENGTH_BYTES p"
    by (rule foldM_preserves [where I = "\<lambda>s. length (fst s) = par_T p * SEED_LENGTH_BYTES p"])
      (auto simp: load_at_def slot_end split: if_splits prod.splits)
  then show ?thesis by simp
next
  case False
  then obtain t where t: "rebuild_tree p (replicate (NUM_NODES_TREE p) (replicate (SEED_LENGTH_BYTES p) 0)) ind path salt = Some (t, ok)"
    and rs: "round_seeds = seed_leaves p t" using assms by (auto simp: rebuild_seeds_def split: option.splits)
  have ok: "tree_ok p t" by (rule rebuilt_tree_ok [OF t zero_tree_ok])
  have "length (t ! tree.idx p q) = SEED_LENGTH_BYTES p" if "q \<in> set (tree.leafpos p)" for q
  proof -
    have "q \<in> set (tree.nodes p)" using that tree.leafpos_nodes by blast
    then have "tree.idx p q < length t" using tree.idx_lt [of q p] ok by (simp add: tree_size tree_ok_def)
    then show ?thesis using ok by (simp add: tree_ok_def)
  qed
  moreover have "seed_leaves p t = concat (map (\<lambda>q. t ! tree.idx p q) (tree.leafpos p))"
    by (simp add: seed_leaves_def tree.leaves_idx comp_def)
  ultimately show ?thesis
    unfolding rs using length_concat_const [of "tree.leafpos p" "\<lambda>q. t ! tree.idx p q" "SEED_LENGTH_BYTES p"] by simp
qed

definition decision :: "cross_params \<Rightarrow> CROSS_sig_t \<Rightarrow> bool \<Rightarrow> bytes \<Rightarrow> (bytes \<times> bool) option \<Rightarrow> verify_t \<Rightarrow> fault + bool" where
  \<comment> \<open>what both verifiers do after the loop; \<open>ok\<close> are the flags computed before it\<close>
  "decision p sig ok digest_chall_1 recomputed st =
     (if \<not> assert_holds p (vf_is_signature_ok st) then Inl ASSERT_FAILED
      else (case checked recomputed of
              Inl e \<Rightarrow> Inl e
            | Inr (root, is_mtree_padding_ok) \<Rightarrow>
                let does_digest_cmt_match = (commitment_digest p root (vf_cmt_1 st) = sig_digest_cmt sig);
                    does_digest_chall_2_match = (digest_challenge_2 p (vf_y st) digest_chall_1 = sig_digest_chall_2 sig)
                in if \<not> assert_holds p does_digest_cmt_match then Inl ASSERT_FAILED
                   else if \<not> assert_holds p does_digest_chall_2_match then Inl ASSERT_FAILED
                   else Inr (vf_is_signature_ok st \<and> does_digest_cmt_match \<and> does_digest_chall_2_match
                             \<and> is_mtree_padding_ok \<and> ok \<and> vf_is_packed_padd_ok st)))"

lemma decision_padding: "decision p sig ok d c st = Inr True \<Longrightarrow> vf_is_packed_padd_ok st"
  by (auto simp: decision_def Let_def split: if_splits sum.splits)

lemma verify_start_rel: "vrel p (verify_start p junk) (verify_start p junk)"
  unfolding vrel_def by (rule exI [of _ "vf_cmt_0 (verify_start p junk)"]) (simp add: verify_start_def)

theorem verify_x4_accepts:
  assumes sig: "sig_ok p sig" and pk: "length (pk_s PK) = DENSELY_PACKED_FP_SYN_SIZE p"
  shows "CROSS_verify_x4 p u junk PK m sig = Inr True \<longleftrightarrow> CROSS_verify p junk PK m sig = Inr True"
proof -
  obtain V_tr W_mat where V: "expand_pk p (pk_seed_pk PK) = (V_tr, W_mat)" by fastforce
  note K = expand_pk_ok [OF V]
  obtain s key_ok where S: "unpack_fp_syn p (pk_s PK) = (s, key_ok)" by fastforce
  have s: "s ! i < 2 ^ fp_bits (variant p)" if "i < par_N p - par_K p" for i
    using unpacked_values(2) [OF pk that] S by simp
  have salt: "length (sig_salt sig) = SALT_LENGTH_BYTES p" using sig by (simp add: sig_ok_def)
  let ?chall_2 = "expand_digest_to_fixed_weight p (sig_digest_chall_2 sig)"
  let ?chall_1 = "challenge_1 p (digest_challenge_1 p m (sig_digest_cmt sig) (sig_salt sig))"
  show ?thesis
  proof (cases "rebuild_seeds p ?chall_2 (sig_path sig) (sig_salt sig)")
    case None
    then show ?thesis by (simp add: CROSS_verify_x4_def CROSS_verify_def V S rebuild_seeds_x4_same [OF salt] checked_def)
  next
    case (Some rs)
    obtain round_seeds ok where rs: "rs = (round_seeds, ok)" by (cases rs)
    have "rebuild_seeds p ?chall_2 (sig_path sig) (sig_salt sig) = Some (round_seeds, ok)" using Some rs by simp
    then have seeds: "length round_seeds = par_T p * SEED_LENGTH_BYTES p" by (rule length_rebuilt_seeds)
    let ?init = "((verify_start p junk, init_verify_queue u (SEED_LENGTH_BYTES p) (sig_salt sig)),
       init_verify_queue u (DENSELY_PACKED_FP_SYN_SIZE p + packed_v_size p) (sig_salt sig))"
    let ?x4 = "foldM (verify_round_x4 p u V_tr W_mat s ?chall_1 ?chall_2 round_seeds sig junk) ?init [0..<par_T p]"
    let ?ref = "foldM (verify_round_opt p V_tr W_mat s ?chall_1 ?chall_2 round_seeds sig junk) (verify_start p junk) [0..<par_T p]"
    have sim: "rel_option (vrel p) (foldM (verify_direct p u V_tr W_mat s ?chall_1 ?chall_2 round_seeds sig junk) (verify_start p junk) [0..<par_T p]) ?ref"
      by (rule foldM_simulation [where R = "vrel p"]) (use verify_direct_same [OF K challenge_1_lt sig s] verify_start_rel in auto)
    show ?thesis
    proof (cases ?ref)
      case None
      then have "?x4 = None" using sim verify_loop_x4 [OF sig seeds, of u V_tr W_mat s ?chall_1 ?chall_2 junk "verify_start p junk"] by simp
      then show ?thesis using None Some
        by (simp add: CROSS_verify_x4_def CROSS_verify_def V S rs rebuild_seeds_x4_same [OF salt] verify_loop_checked checked_def)
    next
      case (Some y)
      then obtain x where dx: "foldM (verify_direct p u V_tr W_mat s ?chall_1 ?chall_2 round_seeds sig junk) (verify_start p junk) [0..<par_T p] = Some x"
        and xy: "vrel p x y" using sim by (auto simp: option_rel_Some2)
      obtain q1 q0 where cx: "?x4 = Some ((x, q1), q0)"
        using verify_loop_x4 [OF sig seeds, of u V_tr W_mat s ?chall_1 ?chall_2 junk "verify_start p junk"] dx
        by (cases ?x4) auto
      let ?d1 = "digest_challenge_1 p m (sig_digest_cmt sig) (sig_salt sig)"
      have X: "CROSS_verify_x4 p u junk PK m sig
          = decision p sig (ok \<and> key_ok) ?d1 (recompute_commitment_x4 p u (vf_cmt_0 x) (sig_proof sig) ?chall_2) x"
        using cx \<open>rebuild_seeds p _ _ _ = Some (round_seeds, ok)\<close>
        by (simp add: CROSS_verify_x4_def V S rebuild_seeds_x4_same [OF salt] checked_def decision_def Let_def split: option.split)
      have Y: "CROSS_verify p junk PK m sig
          = decision p sig (ok \<and> key_ok) ?d1 (recompute_commitment p (junk_tree junk) (vf_cmt_0 y) (sig_proof sig) ?chall_2) y"
        using Some \<open>rebuild_seeds p _ _ _ = Some (round_seeds, ok)\<close>
        by (simp add: CROSS_verify_def V S verify_loop_checked checked_def decision_def Let_def split: option.split)
      show ?thesis
      proof (cases "vf_is_packed_padd_ok y")
        case True
        then have "x = y" "length (vf_cmt_0 x) = par_T p" "\<And>d. d \<in> set (vf_cmt_0 x) \<Longrightarrow> length d = HASH_DIGEST_LENGTH p"
          using xy by (auto simp: vrel_def)
        then have "recompute_commitment_x4 p u (vf_cmt_0 x) (sig_proof sig) ?chall_2
            = recompute_commitment p (junk_tree junk) (vf_cmt_0 y) (sig_proof sig) ?chall_2"
          using recompute_commitment_x4_same [OF chall_2_ok, of "vf_cmt_0 x" p] by simp
        then show ?thesis unfolding X Y using \<open>x = y\<close> by simp
      next
        case False
        moreover have "vf_is_packed_padd_ok x = vf_is_packed_padd_ok y" using xy by (auto simp: vrel_def)
        ultimately show ?thesis unfolding X Y using decision_padding by blast
      qed
    qed
  qed
qed

end
