(* ===== verification/Less_Parameters.thy ===== *)
theory Less_Parameters
  imports Parameters
begin

text \<open>
  The compile-time parameters of LESS,
  \<^verbatim>\<open>less/Reference_Implementation/include/parameters.h\<close>: the seven parameter sets
  selected by \<open>CATEGORY\<close> and \<open>TARGET\<close> and the toy parameters of a build without
  \<open>CATEGORY\<close>, for which the header defines the code and the rounds but no tree.
  The macros \<open>BITS_TO_REPRESENT\<close> and \<open>LOG2\<close> are those of the header of CROSS.
\<close>

datatype less_params = LESS_TOY | LESS_252_192 | LESS_252_68 | LESS_252_45
  | LESS_400_220 | LESS_400_102 | LESS_548_345 | LESS_548_137

definition less_Q :: nat where
  "less_Q = 127"

fun less_N :: "less_params \<Rightarrow> nat" where
  "less_N LESS_TOY = 16"
| "less_N LESS_252_192 = 252"
| "less_N LESS_252_68 = 252"
| "less_N LESS_252_45 = 252"
| "less_N LESS_400_220 = 400"
| "less_N LESS_400_102 = 400"
| "less_N LESS_548_345 = 548"
| "less_N LESS_548_137 = 548"

definition less_K :: "less_params \<Rightarrow> nat" where
  \<comment> \<open>the header lists \<open>K\<close> beside \<open>N\<close>, half of it in every set\<close>
  "less_K p = (case p of LESS_TOY \<Rightarrow> 8 | LESS_252_192 \<Rightarrow> 126 | LESS_252_68 \<Rightarrow> 126 | LESS_252_45 \<Rightarrow> 126
     | LESS_400_220 \<Rightarrow> 200 | LESS_400_102 \<Rightarrow> 200 | LESS_548_345 \<Rightarrow> 274 | LESS_548_137 \<Rightarrow> 274)"

fun less_SEED_LENGTH_BYTES :: "less_params \<Rightarrow> nat" where
  "less_SEED_LENGTH_BYTES LESS_TOY = 16"
| "less_SEED_LENGTH_BYTES LESS_252_192 = 16"
| "less_SEED_LENGTH_BYTES LESS_252_68 = 16"
| "less_SEED_LENGTH_BYTES LESS_252_45 = 16"
| "less_SEED_LENGTH_BYTES LESS_400_220 = 24"
| "less_SEED_LENGTH_BYTES LESS_400_102 = 24"
| "less_SEED_LENGTH_BYTES LESS_548_345 = 32"
| "less_SEED_LENGTH_BYTES LESS_548_137 = 32"

fun SIGN_PIVOT_REUSE_LIMIT :: "less_params \<Rightarrow> nat" where
  "SIGN_PIVOT_REUSE_LIMIT LESS_TOY = 51"
| "SIGN_PIVOT_REUSE_LIMIT LESS_252_192 = 25"
| "SIGN_PIVOT_REUSE_LIMIT LESS_252_68 = 25"
| "SIGN_PIVOT_REUSE_LIMIT LESS_252_45 = 25"
| "SIGN_PIVOT_REUSE_LIMIT LESS_400_220 = 51"
| "SIGN_PIVOT_REUSE_LIMIT LESS_400_102 = 51"
| "SIGN_PIVOT_REUSE_LIMIT LESS_548_345 = 79"
| "SIGN_PIVOT_REUSE_LIMIT LESS_548_137 = 79"

fun NUM_KEYPAIRS :: "less_params \<Rightarrow> nat" where
  "NUM_KEYPAIRS LESS_TOY = 3"
| "NUM_KEYPAIRS LESS_252_192 = 2"
| "NUM_KEYPAIRS LESS_252_68 = 4"
| "NUM_KEYPAIRS LESS_252_45 = 8"
| "NUM_KEYPAIRS LESS_400_220 = 2"
| "NUM_KEYPAIRS LESS_400_102 = 4"
| "NUM_KEYPAIRS LESS_548_345 = 2"
| "NUM_KEYPAIRS LESS_548_137 = 4"

fun less_T :: "less_params \<Rightarrow> nat" where
  "less_T LESS_TOY = 106"
| "less_T LESS_252_192 = 192"
| "less_T LESS_252_68 = 68"
| "less_T LESS_252_45 = 45"
| "less_T LESS_400_220 = 220"
| "less_T LESS_400_102 = 102"
| "less_T LESS_548_345 = 345"
| "less_T LESS_548_137 = 137"

fun less_W :: "less_params \<Rightarrow> nat" where
  "less_W LESS_TOY = 57"
| "less_W LESS_252_192 = 36"
| "less_W LESS_252_68 = 42"
| "less_W LESS_252_45 = 34"
| "less_W LESS_400_220 = 68"
| "less_W LESS_400_102 = 61"
| "less_W LESS_548_345 = 75"
| "less_W LESS_548_137 = 79"

record less_tree_tables =
  less_TREE_OFFSETS :: "nat list"
  less_TREE_NODES_PER_LEVEL :: "nat list"
  less_TREE_LEAVES_PER_LEVEL :: "nat list"
  less_TREE_SUBROOTS :: nat
  less_TREE_LEAVES_START_INDICES :: "nat list"
  less_TREE_CONSECUTIVE_LEAVES :: "nat list"
  MAX_PUBLISHED_SEEDS :: nat

fun less_tree_shape :: "less_params \<Rightarrow> less_tree_tables" where
  "less_tree_shape LESS_TOY =
     \<lparr>less_TREE_OFFSETS = [], less_TREE_NODES_PER_LEVEL = [],
      less_TREE_LEAVES_PER_LEVEL = [], less_TREE_SUBROOTS = 0,
      less_TREE_LEAVES_START_INDICES = [], less_TREE_CONSECUTIVE_LEAVES = [], MAX_PUBLISHED_SEEDS = 0\<rparr>"
| "less_tree_shape LESS_252_192 =
     \<lparr>less_TREE_OFFSETS = [0, 0, 0, 0, 0, 0, 0, 0, 128], less_TREE_NODES_PER_LEVEL = [1, 2, 4, 8, 16, 32, 64, 128, 128],
      less_TREE_LEAVES_PER_LEVEL = [0, 0, 0, 0, 0, 0, 0, 64, 128], less_TREE_SUBROOTS = 2,
      less_TREE_LEAVES_START_INDICES = [255, 191], less_TREE_CONSECUTIVE_LEAVES = [128, 64], MAX_PUBLISHED_SEEDS = 87\<rparr>"
| "less_tree_shape LESS_252_68 =
     \<lparr>less_TREE_OFFSETS = [0, 0, 0, 0, 8, 8, 8, 8], less_TREE_NODES_PER_LEVEL = [1, 2, 4, 8, 8, 16, 32, 64],
      less_TREE_LEAVES_PER_LEVEL = [0, 0, 0, 4, 0, 0, 0, 64], less_TREE_SUBROOTS = 2,
      less_TREE_LEAVES_START_INDICES = [71, 11], less_TREE_CONSECUTIVE_LEAVES = [64, 4], MAX_PUBLISHED_SEEDS = 26\<rparr>"
| "less_tree_shape LESS_252_45 =
     \<lparr>less_TREE_OFFSETS = [0, 0, 0, 0, 2, 2, 26], less_TREE_NODES_PER_LEVEL = [1, 2, 4, 8, 14, 28, 32],
      less_TREE_LEAVES_PER_LEVEL = [0, 0, 0, 1, 0, 12, 32], less_TREE_SUBROOTS = 3,
      less_TREE_LEAVES_START_INDICES = [57, 45, 14], less_TREE_CONSECUTIVE_LEAVES = [32, 12, 1], MAX_PUBLISHED_SEEDS = 11\<rparr>"
| "less_tree_shape LESS_400_220 =
     \<lparr>less_TREE_OFFSETS = [0, 0, 0, 0, 0, 0, 0, 8, 56], less_TREE_NODES_PER_LEVEL = [1, 2, 4, 8, 16, 32, 64, 120, 192],
      less_TREE_LEAVES_PER_LEVEL = [0, 0, 0, 0, 0, 0, 4, 24, 192], less_TREE_SUBROOTS = 3,
      less_TREE_LEAVES_START_INDICES = [247, 223, 123], less_TREE_CONSECUTIVE_LEAVES = [192, 24, 4], MAX_PUBLISHED_SEEDS = 119\<rparr>"
| "less_tree_shape LESS_400_102 =
     \<lparr>less_TREE_OFFSETS = [0, 0, 0, 0, 0, 4, 12, 12], less_TREE_NODES_PER_LEVEL = [1, 2, 4, 8, 16, 28, 48, 96],
      less_TREE_LEAVES_PER_LEVEL = [0, 0, 0, 0, 2, 4, 0, 96], less_TREE_SUBROOTS = 3,
      less_TREE_LEAVES_START_INDICES = [107, 55, 29], less_TREE_CONSECUTIVE_LEAVES = [96, 4, 2], MAX_PUBLISHED_SEEDS = 41\<rparr>"
| "less_tree_shape LESS_548_345 =
     \<lparr>less_TREE_OFFSETS = [0, 0, 0, 0, 0, 2, 2, 2, 50, 178], less_TREE_NODES_PER_LEVEL = [1, 2, 4, 8, 16, 30, 60, 120, 192, 256],
      less_TREE_LEAVES_PER_LEVEL = [0, 0, 0, 0, 1, 0, 0, 24, 64, 256], less_TREE_SUBROOTS = 4,
      less_TREE_LEAVES_START_INDICES = [433, 369, 217, 30], less_TREE_CONSECUTIVE_LEAVES = [256, 64, 24, 1], MAX_PUBLISHED_SEEDS = 169\<rparr>"
| "less_tree_shape LESS_548_137 =
     \<lparr>less_TREE_OFFSETS = [0, 0, 0, 2, 2, 2, 18, 18, 18], less_TREE_NODES_PER_LEVEL = [1, 2, 4, 6, 12, 24, 32, 64, 128],
      less_TREE_LEAVES_PER_LEVEL = [0, 0, 1, 0, 0, 8, 0, 0, 128], less_TREE_SUBROOTS = 3,
      less_TREE_LEAVES_START_INDICES = [145, 41, 6], less_TREE_CONSECUTIVE_LEAVES = [128, 8, 1], MAX_PUBLISHED_SEEDS = 58\<rparr>"

definition NEXT_MULTIPLE :: "nat \<Rightarrow> nat \<Rightarrow> nat" where
  "NEXT_MULTIPLE x n = ((x + (n - 1)) div n) * n"

definition Q_pad :: nat where
  "Q_pad = NEXT_MULTIPLE less_Q 8"

definition NUM_BITS_Q :: nat where
  "NUM_BITS_Q = BITS_TO_REPRESENT less_Q"

definition less_N8 :: "less_params \<Rightarrow> nat" where
  "less_N8 p = (less_N p + 7) div 8"

definition less_HASH_DIGEST_LENGTH :: "less_params \<Rightarrow> nat" where
  "less_HASH_DIGEST_LENGTH p = 2 * less_SEED_LENGTH_BYTES p"

definition PRIVATE_KEY_SEED_LENGTH_BYTES :: "less_params \<Rightarrow> nat" where
  "PRIVATE_KEY_SEED_LENGTH_BYTES p = 2 * less_SEED_LENGTH_BYTES p"

definition VERIFY_PIVOT_REUSE_LIMIT :: "less_params \<Rightarrow> nat" where
  "VERIFY_PIVOT_REUSE_LIMIT p = less_K p"

definition RREF_MAT_PACKEDBYTES :: "less_params \<Rightarrow> nat" where
  "RREF_MAT_PACKEDBYTES p = (BITS_TO_REPRESENT less_Q * (less_N p - less_K p) * less_K p + 7) div 8
     + (less_N p + 7) div 8"

definition SEED_TREE_MAX_PUBLISHED_BYTES :: "less_params \<Rightarrow> nat" where
  "SEED_TREE_MAX_PUBLISHED_BYTES p =
     MAX_PUBLISHED_SEEDS (less_tree_shape p) * less_SEED_LENGTH_BYTES p + 1"

definition LESS_SIGNATURE_SIZE :: "less_params \<Rightarrow> nat \<Rightarrow> nat" where
  "LESS_SIGNATURE_SIZE p NR_LEAVES = less_HASH_DIGEST_LENGTH p * 2 + less_N8 p * less_W p
     + NR_LEAVES * less_SEED_LENGTH_BYTES p + 1"

section \<open>Facts about all parameter sets\<close>

lemma less_N_K: "less_N p = 2 * less_K p"
  by (cases p) (simp_all add: less_K_def)

lemma less_N_minus_K [simp]: "less_N p - less_K p = less_K p"
  by (simp add: less_N_K)

lemma less_K_bounds: "8 \<le> less_K p" "less_K p \<le> 274" "less_K p mod 2 = 0"
  by (cases p; simp add: less_K_def)+

lemma less_K_pos [simp]: "0 < less_K p"
  using less_K_bounds [of p] by simp

lemma Q_pad_128 [simp]: "Q_pad = 128"
  by (simp add: Q_pad_def NEXT_MULTIPLE_def less_Q_def)

lemma NUM_BITS_Q_7 [simp]: "NUM_BITS_Q = 7"
  by (simp add: NUM_BITS_Q_def less_Q_def BITS_TO_REPRESENT_eqI)

end
