(* ===== verification/Less_Fq.thy ===== *)
theory Less_Fq
  imports Less_Parameters
begin

unbundle bit_operations_syntax

text \<open>
  The field of LESS, \<^verbatim>\<open>less/Reference_Implementation/include/fq_arith.h\<close>: the
  reductions modulo 127 on \<open>uint8_t\<close> and \<open>uint16_t\<close>, the table of inverses, and the
  loops over a row of a matrix. The bytes below 127 are related to the elements
  of a type with 127 elements, an instance of the library's class of fields, so
  that the linear algebra of the scheme is done in a field and carried back.
\<close>

section \<open>The code\<close>

subsection \<open>Elements\<close>

definition fq_cond_sub :: "byte \<Rightarrow> byte" where
  "fq_cond_sub x =
     (let sub_q = x - 127;
          mask = - (drop_bit 7 sub_q)
      in (mask AND 127) + sub_q)"

definition fq_red :: "16 word \<Rightarrow> byte" where
  "fq_red x = fq_cond_sub (ucast (drop_bit 7 x) + (ucast x AND 127))"

definition fq_sub :: "byte \<Rightarrow> byte \<Rightarrow> byte" where
  "fq_sub x y = fq_cond_sub (x + 127 - y)"

definition fq_mul :: "byte \<Rightarrow> byte \<Rightarrow> byte" where
  "fq_mul x y = fq_red (ucast x * ucast y)"

definition fq_add :: "byte \<Rightarrow> byte \<Rightarrow> byte" where
  "fq_add x y = fq_cond_sub (x + y)"

definition fq_inv_table :: "byte list" where
  "fq_inv_table = [
   0, 1, 64, 85, 32, 51, 106, 109, 16, 113, 89, 104, 53, 88, 118, 17, 8, 15, 120, 107, 108, 121,
   52, 116, 90, 61, 44, 80, 59, 92, 72, 41, 4, 77, 71, 98, 60, 103, 117, 114, 54, 31, 124, 65, 26,
   48, 58, 100, 45, 70, 94, 5, 22, 12, 40, 97, 93, 78, 46, 28, 36, 25, 84, 125, 2, 43, 102, 91, 99,
   81, 49, 34, 30, 87, 115, 105, 122, 33, 57, 82, 27, 69, 79, 101, 62, 3, 96, 73, 13, 10, 24, 67,
   29, 56, 50, 123, 86, 55, 35, 68, 47, 83, 66, 37, 11, 75, 6, 19, 20, 7, 112, 119, 110, 9, 39, 74,
   23, 38, 14, 111, 18, 21, 76, 95, 42, 63, 126, 0]"

definition fq_inv :: "byte \<Rightarrow> byte" where
  "fq_inv x = fq_inv_table ! unat x"

function fq_pow_loop :: "16 word \<Rightarrow> 16 word \<Rightarrow> byte \<Rightarrow> 16 word" where
  "fq_pow_loop accum xlift e =
     (if e = 0 then accum
      else let accum = (if e AND 1 \<noteq> 0 then ucast (fq_red (accum * xlift)) else accum);
               xlift = ucast (fq_red (xlift * xlift))
           in fq_pow_loop accum xlift (drop_bit 1 e))"
  by auto
termination
proof (relation "measure (\<lambda>(accum, xlift, e). unat e)", goal_cases)
  case (2 accum xlift e accum' xlift')
  then show ?case by (simp add: unat_drop_bit_eq unat_gt_0 drop_bit_nat_def)
qed simp

declare fq_pow_loop.simps [simp del]

definition fq_pow :: "byte \<Rightarrow> byte \<Rightarrow> byte" where
  "fq_pow x e = fq_red (fq_pow_loop 1 (ucast x) e)"

subsection \<open>Rows\<close>

text \<open>The loops run over the \<open>N - K\<close> elements of a row.\<close>

definition row_acc :: "less_params \<Rightarrow> bytes \<Rightarrow> byte" where
  "row_acc p d = foldl (\<lambda>s col. fq_add s (d ! col)) 0 [0..<less_N p - less_K p]"

definition row_acc_inv :: "less_params \<Rightarrow> bytes \<Rightarrow> byte" where
  "row_acc_inv p d = foldl (\<lambda>s col. fq_add s (fq_inv (d ! col))) 0 [0..<less_N p - less_K p]"

definition row_mul :: "less_params \<Rightarrow> bytes \<Rightarrow> byte \<Rightarrow> bytes" where
  "row_mul p row s = map (\<lambda>col. fq_mul s (row ! col)) [0..<less_N p - less_K p]"

definition row_mul2 :: "less_params \<Rightarrow> bytes \<Rightarrow> byte \<Rightarrow> bytes" where
  "row_mul2 p inp s = map (\<lambda>col. fq_mul s (inp ! col)) [0..<less_N p - less_K p]"

definition row_mul3 :: "less_params \<Rightarrow> bytes \<Rightarrow> bytes \<Rightarrow> bytes" where
  "row_mul3 p in1 in2 = map (\<lambda>col. fq_mul (in1 ! col) (in2 ! col)) [0..<less_N p - less_K p]"

definition row_inv2 :: "less_params \<Rightarrow> bytes \<Rightarrow> bytes" where
  "row_inv2 p inp = map (\<lambda>col. fq_inv (inp ! col)) [0..<less_N p - less_K p]"

definition row_all_same :: "less_params \<Rightarrow> bytes \<Rightarrow> bool" where
  "row_all_same p inp = (\<forall>col \<in> set [1..<less_N p - less_K p]. inp ! col = inp ! (col - 1))"

definition row_contains_zero :: "less_params \<Rightarrow> bytes \<Rightarrow> bool" where
  "row_contains_zero p inp = (\<exists>col \<in> set [0..<less_N p - less_K p]. inp ! col = 0)"

definition row_count_zero :: "less_params \<Rightarrow> bytes \<Rightarrow> nat" where
  "row_count_zero p inp = foldl (\<lambda>r col. r + of_bool (inp ! col = 0)) 0 [0..<less_N p - less_K p]"

section \<open>The field with 127 elements\<close>

typedef gf127 = "{..<127 :: nat}" morphisms gf_nat gf_abs
  by (rule exI [of _ 0]) simp

definition gf_of_nat :: "nat \<Rightarrow> gf127" where
  "gf_of_nat n = gf_abs (n mod 127)"

lemma gf_nat_of_nat [simp]: "gf_nat (gf_of_nat n) = n mod 127"
  by (simp add: gf_of_nat_def gf_abs_inverse)

lemma gf_nat_lt [simp]: "gf_nat x < 127"
  using gf_nat [of x] by simp

lemma gf_of_nat_nat [simp]: "gf_of_nat (gf_nat x) = x"
  by (simp add: gf_of_nat_def gf_nat_inverse)

lemma gf_of_nat_eq: "gf_of_nat m = gf_of_nat n \<longleftrightarrow> m mod 127 = n mod 127"
  by (metis gf_nat_of_nat gf_of_nat_def)

lemma gf_induct [case_names nat, cases type: gf127]:
  "(\<And>n. n < 127 \<Longrightarrow> x = gf_of_nat n \<Longrightarrow> P) \<Longrightarrow> P"
  using gf_of_nat_nat [of x] gf_nat_lt [of x] by metis

text \<open>The table of the code holds the inverses.\<close>

fun inverses_from :: "nat \<Rightarrow> byte list \<Rightarrow> bool" where
  "inverses_from n [] = True"
| "inverses_from n (i # is) = (n * unat i mod 127 = 1 \<and> unat i < 127 \<and> inverses_from (n + 1) is)"

lemma inverses_from_nth:
  "inverses_from n xs \<Longrightarrow> k < length xs \<Longrightarrow> (n + k) * unat (xs ! k) mod 127 = 1 \<and> unat (xs ! k) < 127"
proof (induction n xs arbitrary: k rule: inverses_from.induct)
  case (2 n i "is")
  then show ?case by (cases k) auto
qed simp

lemma table_inverses: "inverses_from 1 (butlast (tl fq_inv_table))"
  by (simp add: fq_inv_table_def)

lemma table_nth:
  assumes "0 < n" and "n < 127"
  shows "n * unat (fq_inv_table ! n) mod 127 = 1" and "unat (fq_inv_table ! n) < 127"
proof -
  have l: "length fq_inv_table = 128" by (simp add: fq_inv_table_def)
  have "butlast (tl fq_inv_table) ! (n - 1) = fq_inv_table ! n"
    using assms l by (simp add: nth_butlast nth_tl)
  then show "n * unat (fq_inv_table ! n) mod 127 = 1" and "unat (fq_inv_table ! n) < 127"
    using inverses_from_nth [OF table_inverses, of "n - 1"] assms l by auto
qed

instantiation gf127 :: field
begin

definition zero_gf127 :: gf127 where "zero_gf127 = gf_of_nat 0"
definition one_gf127 :: gf127 where "one_gf127 = gf_of_nat 1"
definition plus_gf127 :: "gf127 \<Rightarrow> gf127 \<Rightarrow> gf127" where
  "plus_gf127 x y = gf_of_nat (gf_nat x + gf_nat y)"
definition times_gf127 :: "gf127 \<Rightarrow> gf127 \<Rightarrow> gf127" where
  "times_gf127 x y = gf_of_nat (gf_nat x * gf_nat y)"
definition uminus_gf127 :: "gf127 \<Rightarrow> gf127" where
  "uminus_gf127 x = gf_of_nat (127 - gf_nat x)"
definition minus_gf127 :: "gf127 \<Rightarrow> gf127 \<Rightarrow> gf127" where
  "minus_gf127 x y = gf_of_nat (gf_nat x + (127 - gf_nat y))"
definition inverse_gf127 :: "gf127 \<Rightarrow> gf127" where
  "inverse_gf127 x = gf_of_nat (unat (fq_inv_table ! gf_nat x))"
definition divide_gf127 :: "gf127 \<Rightarrow> gf127 \<Rightarrow> gf127" where
  "divide_gf127 x y = x * inverse y"

lemmas gf_ops = zero_gf127_def one_gf127_def plus_gf127_def times_gf127_def uminus_gf127_def minus_gf127_def

instance
proof
  fix a b c :: gf127
  show "a + b + c = a + (b + c)" "a * b * c = a * (b * c)"
    by (simp_all add: gf_ops gf_of_nat_eq mod_add_left_eq mod_add_right_eq mod_mult_left_eq mod_mult_right_eq ac_simps)
  show "a + b = b + a" "a * b = b * a" by (simp_all add: gf_ops ac_simps)
  show "0 + a = a" "1 * a = a" by (simp_all add: gf_ops)
  have "127 - gf_nat a + gf_nat a = 127" using gf_nat_lt [of a] by linarith
  then show "- a + a = 0" by (simp add: gf_ops gf_of_nat_eq mod_add_left_eq)
  show "a - b = a + - b" by (simp add: gf_ops gf_of_nat_eq mod_add_right_eq)
  show "(a + b) * c = a * c + b * c"
    by (simp add: gf_ops gf_of_nat_eq mod_mult_left_eq mod_add_eq add_mult_distrib)
  show "(0 :: gf127) \<noteq> 1" by (simp add: gf_ops gf_of_nat_eq)
  show "a div b = a * inverse b" by (simp add: divide_gf127_def)
  show "inverse (0 :: gf127) = 0"
    by (simp add: inverse_gf127_def zero_gf127_def fq_inv_table_def)
  assume "a \<noteq> 0"
  then have "0 < gf_nat a" by (metis gf_of_nat_nat gr0I zero_gf127_def)
  then show "inverse a * a = 1"
    using table_nth [of "gf_nat a"] by (simp add: inverse_gf127_def gf_ops gf_of_nat_eq mod_mult_left_eq mult.commute)
qed

end

text \<open>A byte below 127 and the element it stands for.\<close>

definition gf :: "byte \<Rightarrow> gf127" where
  "gf x = gf_of_nat (unat x)"

definition reduced :: "byte \<Rightarrow> bool" where
  "reduced x \<longleftrightarrow> unat x < 127"

lemma reduced_0 [simp]: "reduced 0" and reduced_1 [simp]: "reduced 1" and reduced_126 [simp]: "reduced 126"
  by (simp_all add: reduced_def)

lemma gf_0 [simp]: "gf 0 = 0" and gf_1 [simp]: "gf 1 = 1"
  by (simp_all add: gf_def zero_gf127_def one_gf127_def)

lemma gf_inject: "reduced x \<Longrightarrow> reduced y \<Longrightarrow> gf x = gf y \<longleftrightarrow> x = y"
  by (simp add: gf_def reduced_def gf_of_nat_eq word_unat_eq_iff)

lemma gf_eq_0 [simp]: "reduced x \<Longrightarrow> gf x = 0 \<longleftrightarrow> x = 0"
  using gf_inject [of x 0] by simp

lemma gf_surj: obtains x where "gf x = y" "reduced x"
proof
  have lt: "gf_nat y < 2 ^ LENGTH(8)" by (rule order_less_trans [OF gf_nat_lt]) simp
  then have "unat (of_nat (gf_nat y) :: byte) = gf_nat y" by (simp add: unat_of_nat)
  then show "gf (of_nat (gf_nat y)) = y" and "reduced (of_nat (gf_nat y))"
    by (simp_all add: gf_def reduced_def)
qed

subsection \<open>The operations are those of the field\<close>

lemma unat_drop_7: "unat (drop_bit 7 (w :: byte)) = unat w div 128"
  by (simp add: unat_drop_bit_eq drop_bit_nat_def)

lemma unat_cond_sub:
  assumes "unat x < 254"
  shows "unat (fq_cond_sub x) = unat x mod 127"
proof (cases "unat x < 127")
  case True
  have u: "unat (x - 127) = unat x + 129"
    using True by (subst unat_sub_if') (simp add: word_le_nat_alt)
  have "(unat x + 129) div 128 = 1" using True by (intro div_nat_eqI) simp_all
  then have "unat (drop_bit 7 (x - 127)) = unat (1 :: byte)" unfolding unat_drop_7 u by simp
  then have d: "drop_bit 7 (x - 127) = 1" by (simp only: word_unat_eq_iff)
  have m: "(- 1 :: byte) AND 127 = 127" by simp
  show ?thesis unfolding fq_cond_sub_def Let_def d m using True by simp
next
  case False
  have u: "unat (x - 127) = unat x - 127"
    using False by (subst unat_sub_if') (simp add: word_le_nat_alt)
  have "unat (drop_bit 7 (x - 127)) = unat (0 :: byte)" unfolding unat_drop_7 u using assms False by simp
  then have d: "drop_bit 7 (x - 127) = 0" by (simp only: word_unat_eq_iff)
  show ?thesis unfolding fq_cond_sub_def Let_def d using assms False u
    by (simp add: mod_if)
qed

lemma unat_ucast_and_127: "unat (ucast (x :: 16 word) AND 127 :: byte) = unat x mod 128"
proof -
  have "ucast x AND 127 = (take_bit 7 (ucast x) :: byte)" by (simp add: take_bit_eq_mask mask_numeral)
  then show ?thesis by (simp add: unsigned_take_bit_eq unsigned_ucast_eq take_bit_nat_def mod_mod_cancel)
qed

lemma unat_fq_red:
  assumes "unat x div 128 + unat x mod 128 < 254"
  shows "unat (fq_red x) = unat x mod 127"
proof -
  have d: "unat (ucast (drop_bit 7 x) :: byte) = unat x div 128"
    using assms by (simp add: unsigned_ucast_eq unsigned_drop_bit_eq take_bit_nat_def drop_bit_nat_def)
  have s: "unat (ucast (drop_bit 7 x) + (ucast x AND 127) :: byte) = unat x div 128 + unat x mod 128"
    using assms by (simp add: unat_word_ariths d unat_ucast_and_127)
  have "unat x = (unat x div 128 + unat x mod 128) + (unat x div 128) * 127"
    using div_mult_mod_eq [of "unat x" 128] by linarith
  then have "(unat x div 128 + unat x mod 128) mod 127 = unat x mod 127"
    by (metis mod_mult_self1)
  then show ?thesis unfolding fq_red_def using assms s by (simp add: unat_cond_sub)
qed

lemma fq_add_gf: "reduced x \<Longrightarrow> reduced y \<Longrightarrow> reduced (fq_add x y) \<and> gf (fq_add x y) = gf x + gf y"
  by (simp add: fq_add_def reduced_def gf_def plus_gf127_def gf_of_nat_eq unat_cond_sub unat_word_ariths mod_add_eq)

lemma fq_sub_gf: "reduced x \<Longrightarrow> reduced y \<Longrightarrow> reduced (fq_sub x y) \<and> gf (fq_sub x y) = gf x - gf y"
proof -
  assume "reduced x" "reduced y"
  then have r: "unat x < 127" "unat y < 127" by (simp_all add: reduced_def)
  have p: "unat (x + 127) = unat x + 127" using r by (simp add: unat_word_ariths)
  have "unat (x + 127 - y) = unat x + 127 - unat y"
    using r by (subst unat_sub_if') (simp add: p)
  then show ?thesis using r
    by (simp add: fq_sub_def reduced_def gf_def minus_gf127_def gf_of_nat_eq unat_cond_sub)
qed

lemma product_folds:
  assumes "a \<le> 126" and "b \<le> (126 :: nat)"
  shows "a * b div 128 + a * b mod 128 < 254"
proof -
  have "a * b \<le> 126 * 126" using assms by (intro mult_mono) simp_all
  then have "a * b div 128 \<le> 126 * 126 div 128" by (rule div_le_mono)
  moreover have "a * b mod 128 < 128" by simp
  ultimately show ?thesis by simp
qed

lemma unat_mul: "unat (ucast x * ucast y :: 16 word) = unat (x :: byte) * unat (y :: byte)"
proof -
  have "unat x * unat y < 2 ^ 8 * 2 ^ 8" using unat_byte_lt [of x] unat_byte_lt [of y] by (rule mult_strict_mono) simp_all
  moreover have "unat (ucast z :: 16 word) = unat z" for z :: byte
    using unat_byte_lt [of z] by (simp add: unsigned_ucast_eq take_bit_nat_eq_self)
  ultimately show ?thesis by (simp add: unat_word_ariths)
qed

lemma fq_mul_gf: "reduced x \<Longrightarrow> reduced y \<Longrightarrow> reduced (fq_mul x y) \<and> gf (fq_mul x y) = gf x * gf y"
proof -
  assume "reduced x" "reduced y"
  then have "unat x * unat y div 128 + unat x * unat y mod 128 < 254"
    by (intro product_folds) (simp_all add: reduced_def)
  then have "unat (fq_mul x y) = unat x * unat y mod 127" by (simp add: fq_mul_def unat_fq_red unat_mul)
  then show ?thesis by (simp add: reduced_def gf_def times_gf127_def gf_of_nat_eq mod_mult_eq)
qed

lemma fq_inv_gf: "reduced x \<Longrightarrow> reduced (fq_inv x) \<and> gf (fq_inv x) = inverse (gf x)"
proof (cases "x = 0")
  case False
  assume "reduced x"
  then have "unat x < 127" "0 < unat x" using False by (simp_all add: reduced_def unat_gt_0)
  then show ?thesis using table_nth(2) by (simp add: fq_inv_def gf_def inverse_gf127_def reduced_def)
qed (simp add: fq_inv_def fq_inv_table_def)


subsection \<open>The remaining routines of the header\<close>

lemma unat_fq_red_square: "unat x < 127 \<Longrightarrow> unat y < 127 \<Longrightarrow> unat (fq_red (x * y)) = unat x * unat y mod 127"
proof -
  assume x: "unat x < 127" "unat y < 127"
  then have "unat x * unat y \<le> 126 * 126" by (intro mult_mono) simp_all
  then have "unat (x * y) = unat x * unat y" by (simp add: unat_word_ariths)
  then show ?thesis using product_folds [of "unat x" "unat y"] x by (simp add: unat_fq_red)
qed

lemma unat_16_byte: "unat (ucast z :: 16 word) = unat (z :: byte)"
  using unat_byte_lt [of z] by (simp add: unsigned_ucast_eq take_bit_nat_eq_self)

lemma low_bit: "(e AND 1 \<noteq> 0) = odd (unat (e :: byte))"
proof -
  have "odd (unat e) = bit e 0" by (simp add: bit_unsigned_iff flip: bit_0)
  then show ?thesis by (simp add: and_one_eq bit_0 flip: even_iff_mod_2_eq_zero)
qed

lemma fq_pow_loop_power:
  assumes "unat accum < 127" and "unat xlift < 127"
  shows "unat (fq_pow_loop accum xlift e) = unat accum * unat xlift ^ unat e mod 127"
  using assms
proof (induction accum xlift e rule: fq_pow_loop.induct)
  case (1 accum xlift e)
  show ?case
  proof (cases "e = 0")
    case True
    then show ?thesis using "1.prems" by (simp add: fq_pow_loop.simps)
  next
    case False
    define accum' where "accum' = (if e AND 1 \<noteq> 0 then ucast (fq_red (accum * xlift)) else accum)"
    define xlift' :: "16 word" where "xlift' = ucast (fq_red (xlift * xlift))"
    have x': "unat xlift' = unat xlift * unat xlift mod 127"
      using "1.prems" by (simp add: xlift'_def unat_16_byte unat_fq_red_square)
    have half: "unat (drop_bit 1 e) = unat e div 2"
      by (simp add: unat_drop_bit_eq drop_bit_nat_def)
    have low: "(e AND 1 \<noteq> 0) = odd (unat e)"
      by (simp add: low_bit)
    have a': "unat accum' mod 127 = unat accum * unat xlift ^ (unat e mod 2) mod 127" "unat accum' < 127"
      using "1.prems" by (simp_all add: accum'_def unat_16_byte unat_fq_red_square low odd_iff_mod_2_eq_one)
    have "unat (fq_pow_loop accum xlift e) = unat (fq_pow_loop accum' xlift' (drop_bit 1 e))"
      using False by (subst fq_pow_loop.simps) (simp add: accum'_def xlift'_def Let_def)
    also have "\<dots> = unat accum' * unat xlift' ^ (unat e div 2) mod 127"
      using "1.IH" [OF False refl refl] a' x' by (simp add: half [simplified] accum'_def [symmetric] xlift'_def [symmetric])
    also have "\<dots> = (unat accum * unat xlift ^ (unat e mod 2)) * (unat xlift * unat xlift) ^ (unat e div 2) mod 127"
      by (rule mod_mult_cong [OF a'(1)]) (simp add: x' power_mod)
    also have "(unat xlift * unat xlift) ^ (unat e div 2) = unat xlift ^ (2 * (unat e div 2))"
      by (simp add: power_mult power2_eq_square)
    also have "(unat accum * unat xlift ^ (unat e mod 2)) * unat xlift ^ (2 * (unat e div 2)) = unat accum * unat xlift ^ unat e"
      by (simp add: mult.assoc flip: power_add)
    finally show ?thesis .
  qed
qed

lemma fq_pow_power:
  assumes "reduced x"
  shows "gf (fq_pow x e) = gf x ^ unat e"
proof -
  have pw: "gf_of_nat n ^ k = gf_of_nat (n ^ k)" for n k
    by (induction k) (simp_all add: one_gf127_def times_gf127_def gf_of_nat_eq mod_mult_eq)
  have l: "unat (fq_pow_loop 1 (ucast x) e) = unat x ^ unat e mod 127"
    using fq_pow_loop_power [of 1 "ucast x" e] assms by (simp add: reduced_def unat_16_byte)
  have "unat (fq_pow_loop 1 (ucast x) e) < 127" unfolding l by simp
  then have "unat (fq_pow x e) = unat x ^ unat e mod 127"
    unfolding fq_pow_def by (subst unat_fq_red) (simp_all add: l)
  then show ?thesis by (simp add: gf_def pw gf_of_nat_eq)
qed

subsection \<open>Rows over the field\<close>

definition row_ok :: "less_params \<Rightarrow> bytes \<Rightarrow> bool" where
  "row_ok p r \<longleftrightarrow> length r = less_K p \<and> (\<forall>x \<in> set r. reduced x)"

lemma row_ok_nth: "row_ok p r \<Longrightarrow> j < less_K p \<Longrightarrow> reduced (r ! j)"
  by (simp add: row_ok_def)

lemma row_ok_length: "row_ok p r \<Longrightarrow> length r = less_K p"
  by (simp add: row_ok_def)

lemma row_okI: "length r = less_K p \<Longrightarrow> (\<And>j. j < less_K p \<Longrightarrow> reduced (r ! j)) \<Longrightarrow> row_ok p r"
  by (auto simp: row_ok_def in_set_conv_nth)

lemma row_eqI:
  assumes "row_ok p r" and "row_ok p s" and "\<And>j. j < less_K p \<Longrightarrow> gf (r ! j) = gf (s ! j)"
  shows "r = s"
proof (rule nth_equalityI)
  show "length r = length s" using assms(1,2) by (simp add: row_ok_length)
  fix j assume "j < length r"
  then have j: "j < less_K p" using assms(1) by (simp add: row_ok_length)
  show "r ! j = s ! j"
    using assms(3) [OF j] gf_inject [OF row_ok_nth [OF assms(1) j] row_ok_nth [OF assms(2) j]] by blast
qed

lemma row_mul_ok: "row_ok p r \<Longrightarrow> reduced s \<Longrightarrow> row_ok p (row_mul p r s)"
  by (rule row_okI) (simp_all add: row_mul_def fq_mul_gf row_ok_nth)

lemma gf_row_mul: "row_ok p r \<Longrightarrow> reduced s \<Longrightarrow> j < less_K p \<Longrightarrow> gf (row_mul p r s ! j) = gf s * gf (r ! j)"
  by (simp add: row_mul_def fq_mul_gf row_ok_nth)

lemma row_mul2_row_mul: "row_mul2 p r s = row_mul p r s"
  by (simp add: row_mul2_def row_mul_def)

lemma row_mul3_ok: "row_ok p r \<Longrightarrow> row_ok p s \<Longrightarrow> row_ok p (row_mul3 p r s)"
  by (rule row_okI) (simp_all add: row_mul3_def fq_mul_gf row_ok_nth)

lemma gf_row_mul3: "row_ok p r \<Longrightarrow> row_ok p s \<Longrightarrow> j < less_K p \<Longrightarrow> gf (row_mul3 p r s ! j) = gf (r ! j) * gf (s ! j)"
  by (simp add: row_mul3_def fq_mul_gf row_ok_nth)

lemma row_inv2_ok: "row_ok p r \<Longrightarrow> row_ok p (row_inv2 p r)"
  by (rule row_okI) (simp_all add: row_inv2_def fq_inv_gf row_ok_nth)

lemma gf_row_inv2: "row_ok p r \<Longrightarrow> j < less_K p \<Longrightarrow> gf (row_inv2 p r ! j) = inverse (gf (r ! j))"
  by (simp add: row_inv2_def fq_inv_gf row_ok_nth)

lemma fq_add_foldl:
  assumes "\<And>j. j < n \<Longrightarrow> reduced (f j)"
  shows "reduced (foldl (\<lambda>s j. fq_add s (f j)) 0 [0..<n])
    \<and> gf (foldl (\<lambda>s j. fq_add s (f j)) 0 [0..<n]) = (\<Sum>j<n. gf (f j))"
  using assms by (induction n) (simp_all add: fq_add_gf)

lemma gf_row_acc: "row_ok p r \<Longrightarrow> reduced (row_acc p r) \<and> gf (row_acc p r) = (\<Sum>j<less_K p. gf (r ! j))"
  using fq_add_foldl [of "less_K p" "\<lambda>j. r ! j"] by (simp add: row_acc_def row_ok_nth)

lemma gf_row_acc_inv:
  "row_ok p r \<Longrightarrow> reduced (row_acc_inv p r) \<and> gf (row_acc_inv p r) = (\<Sum>j<less_K p. inverse (gf (r ! j)))"
  using fq_add_foldl [of "less_K p" "\<lambda>j. fq_inv (r ! j)"] by (simp add: row_acc_inv_def row_ok_nth fq_inv_gf)

lemma row_all_same_iff: "row_all_same p r \<longleftrightarrow> (\<forall>j<less_K p. r ! j = r ! 0)"
proof
  assume s: "row_all_same p r"
  have "r ! j = r ! 0" if "j < less_K p" for j
    using that
  proof (induction j)
    case (Suc j)
    then have "Suc j \<in> set [1..<less_N p - less_K p]" by simp
    from s [unfolded row_all_same_def, THEN bspec, OF this] have "r ! Suc j = r ! j" by simp
    then show ?case using Suc by simp
  qed simp
  then show "\<forall>j<less_K p. r ! j = r ! 0" by blast
next
  assume "\<forall>j<less_K p. r ! j = r ! 0"
  then have "r ! col = r ! (col - 1)" if "col < less_K p" for col
    using that less_imp_diff_less [OF that, of 1] by metis
  then show "row_all_same p r" unfolding row_all_same_def by simp
qed

lemma row_contains_zero_iff: "row_contains_zero p r \<longleftrightarrow> (\<exists>j<less_K p. r ! j = 0)"
  by (auto simp: row_contains_zero_def)

lemma row_count_zero_eq: "row_count_zero p r = card {j. j < less_K p \<and> r ! j = 0}"
proof -
  have "foldl (\<lambda>r' col. r' + of_bool (r ! col = 0)) 0 [0..<n] = card {j. j < n \<and> r ! j = 0}" for n
  proof (induction n)
    case (Suc n)
    have "{j. j < Suc n \<and> r ! j = 0} = (if r ! n = 0 then insert n {j. j < n \<and> r ! j = 0} else {j. j < n \<and> r ! j = 0})"
      by (auto simp: less_Suc_eq)
    with Suc show ?case by simp
  qed simp
  then show ?thesis by (simp add: row_count_zero_def)
qed

end
