(* ===== verification/Less_Transpose.thy ===== *)
theory Less_Transpose
  imports Less_Parameters
begin

unbundle bit_operations_syntax

text \<open>
  Transposition of the square byte matrices of LESS,
  \<^verbatim>\<open>less/Reference_Implementation/lib/transpose.c\<close>: blocks of eight by eight bytes
  are transposed in eight 64-bit registers by three rounds of masks and shifts,
  and the remaining rows and columns byte by byte. A matrix is its buffer of
  bytes in row-major order; the destination is not initialised.
\<close>

section \<open>The code\<close>

definition load_u64 :: "bytes \<Rightarrow> nat \<Rightarrow> u64" where
  \<comment> \<open>\<open>*((uint64_t*)(src + off))\<close>, little endian\<close>
  "load_u64 src off = foldl (\<lambda>w i. w OR push_bit (8 * i) (ucast (src ! (off + i)))) 0 [0..<8]"

definition store_u64 :: "bytes \<Rightarrow> nat \<Rightarrow> u64 \<Rightarrow> bytes" where
  "store_u64 dst off w = write_at off (map (\<lambda>i. ucast (drop_bit (8 * i) w)) [0..<8]) dst"

definition transpose_words :: "u64 list \<Rightarrow> u64 list" where
  "transpose_words a =
    (let a0 = a ! 0; a1 = a ! 1; a2 = a ! 2; a3 = a ! 3; a4 = a ! 4; a5 = a ! 5; a6 = a ! 6; a7 = a ! 7;
         b0 = (a0 AND 0x00ff00ff00ff00ff) OR (push_bit 8 a1 AND 0xff00ff00ff00ff00);
         b1 = (a1 AND 0xff00ff00ff00ff00) OR (drop_bit 8 a0 AND 0x00ff00ff00ff00ff);
         b2 = (a2 AND 0x00ff00ff00ff00ff) OR (push_bit 8 a3 AND 0xff00ff00ff00ff00);
         b3 = (a3 AND 0xff00ff00ff00ff00) OR (drop_bit 8 a2 AND 0x00ff00ff00ff00ff);
         b4 = (a4 AND 0x00ff00ff00ff00ff) OR (push_bit 8 a5 AND 0xff00ff00ff00ff00);
         b5 = (a5 AND 0xff00ff00ff00ff00) OR (drop_bit 8 a4 AND 0x00ff00ff00ff00ff);
         b6 = (a6 AND 0x00ff00ff00ff00ff) OR (push_bit 8 a7 AND 0xff00ff00ff00ff00);
         b7 = (a7 AND 0xff00ff00ff00ff00) OR (drop_bit 8 a6 AND 0x00ff00ff00ff00ff);
         c0 = (b0 AND 0x0000ffff0000ffff) OR (push_bit 16 b2 AND 0xffff0000ffff0000);
         c1 = (b1 AND 0x0000ffff0000ffff) OR (push_bit 16 b3 AND 0xffff0000ffff0000);
         c2 = (b2 AND 0xffff0000ffff0000) OR (drop_bit 16 b0 AND 0x0000ffff0000ffff);
         c3 = (b3 AND 0xffff0000ffff0000) OR (drop_bit 16 b1 AND 0x0000ffff0000ffff);
         c4 = (b4 AND 0x0000ffff0000ffff) OR (push_bit 16 b6 AND 0xffff0000ffff0000);
         c5 = (b5 AND 0x0000ffff0000ffff) OR (push_bit 16 b7 AND 0xffff0000ffff0000);
         c6 = (b6 AND 0xffff0000ffff0000) OR (drop_bit 16 b4 AND 0x0000ffff0000ffff);
         c7 = (b7 AND 0xffff0000ffff0000) OR (drop_bit 16 b5 AND 0x0000ffff0000ffff);
         d0 = (c0 AND 0x00000000ffffffff) OR (push_bit 32 c4 AND 0xffffffff00000000);
         d1 = (c1 AND 0x00000000ffffffff) OR (push_bit 32 c5 AND 0xffffffff00000000);
         d2 = (c2 AND 0x00000000ffffffff) OR (push_bit 32 c6 AND 0xffffffff00000000);
         d3 = (c3 AND 0x00000000ffffffff) OR (push_bit 32 c7 AND 0xffffffff00000000);
         d4 = (c4 AND 0xffffffff00000000) OR (drop_bit 32 c0 AND 0x00000000ffffffff);
         d5 = (c5 AND 0xffffffff00000000) OR (drop_bit 32 c1 AND 0x00000000ffffffff);
         d6 = (c6 AND 0xffffffff00000000) OR (drop_bit 32 c2 AND 0x00000000ffffffff);
         d7 = (c7 AND 0xffffffff00000000) OR (drop_bit 32 c3 AND 0x00000000ffffffff)
     in [d0, d1, d2, d3, d4, d5, d6, d7])"

definition matrix_transpose8x8 :: "nat \<Rightarrow> nat \<Rightarrow> bytes \<Rightarrow> nat \<Rightarrow> nat \<Rightarrow> bytes \<Rightarrow> bytes" where
  \<comment> \<open>the blocks at \<open>dst + doff\<close> and \<open>src + soff\<close>\<close>
  "matrix_transpose8x8 doff soff src src_stride dst_stride dst =
     (let d = transpose_words (map (\<lambda>i. load_u64 src (soff + i * src_stride)) [0..<8])
      in foldl (\<lambda>dst i. store_u64 dst (doff + i * dst_stride) (d ! i)) dst [0..<8])"

definition matrix_transpose8xN :: "bytes \<Rightarrow> nat \<Rightarrow> bytes \<Rightarrow> bytes" where
  "matrix_transpose8xN src n dst =
     (let bsize = 8;
          dst = foldl (\<lambda>dst rb. matrix_transpose8x8 ((rb * n + 0) * bsize) ((0 * n + rb) * bsize) src n n dst)
                  dst [0..<n div bsize]
      in foldl (\<lambda>dst rb. foldl (\<lambda>dst j. dst[rb * n + j := src ! (j * n + rb)]) dst [0..<8])
           dst [n div bsize * bsize..<n])"

definition matrix_transposeNx8 :: "bytes \<Rightarrow> nat \<Rightarrow> bytes \<Rightarrow> bytes" where
  "matrix_transposeNx8 src n dst =
     (let bsize = 8;
          dst = foldl (\<lambda>dst cb. matrix_transpose8x8 ((0 * n + cb) * bsize) ((cb * n + 0) * bsize) src n n dst)
                  dst [0..<n div bsize]
      in foldl (\<lambda>dst cb. foldl (\<lambda>dst j. dst[j * n + cb := src ! (cb * n + j)]) dst [0..<8])
           dst [n div bsize * bsize..<n])"

definition transpose_blocks :: "nat \<Rightarrow> nat \<Rightarrow> bytes \<Rightarrow> nat \<Rightarrow> bytes \<Rightarrow> bytes" where
  \<comment> \<open>the blocks of 64 by 64 bytes, each in 64 blocks of 8 by 8\<close>
  "transpose_blocks src_stride dst_stride src c dst =
     foldl (\<lambda>dst rb. foldl (\<lambda>dst cb.
         let srcb_origin = (rb * src_stride + cb) * 64;
             dstb_origin = (cb * dst_stride + rb) * 64
         in foldl (\<lambda>dst rw. foldl (\<lambda>dst cw.
              matrix_transpose8x8 (dstb_origin + (rw * dst_stride + cw) * 8)
                (srcb_origin + (cw * src_stride + rw) * 8) src src_stride dst_stride dst)
              dst [0..<64 div 8]) dst [0..<64 div 8])
       dst [0..<c div 64]) dst [0..<c div 64]"

definition matrix_transpose_opt :: "less_params \<Rightarrow> bytes \<Rightarrow> bytes \<Rightarrow> nat \<Rightarrow> nat \<Rightarrow> bytes" where
  "matrix_transpose_opt p dst src r c =
     (let bsize = 64; src_stride = less_K p; dst_stride = less_N p - less_K p
      in if c < bsize \<or> r < bsize
         then if c \<le> 8 then matrix_transposeNx8 src r dst
              else if r \<le> 8 then matrix_transpose8xN src c dst
              else foldl (\<lambda>dst i. foldl (\<lambda>dst j. dst[j * dst_stride + i := src ! (i * src_stride + j)])
                     dst [0..<c]) dst [0..<r]
         else let dst = transpose_blocks src_stride dst_stride src c dst;
                  rb = c div bsize
              in if c mod bsize \<noteq> 0
                 then let rb = rb * (64 div bsize);
                          dst = foldl (\<lambda>dst i. foldl (\<lambda>dst j. dst[j * dst_stride + i := src ! (i * src_stride + j)])
                            dst [0..<c]) dst [rb * bsize..<c]
                      in foldl (\<lambda>dst i. foldl (\<lambda>dst j. dst[j * dst_stride + i := src ! (i * src_stride + j)])
                            dst [rb * bsize..<c]) dst [0..<c]
                 else dst)"

section \<open>Eight by eight bytes in registers\<close>

lemma mask_bits:
  assumes "k < 64"
  shows "bit (0x00ff00ff00ff00ff :: u64) k = even (k div 8)" "bit (0xff00ff00ff00ff00 :: u64) k = odd (k div 8)"
    "bit (0x0000ffff0000ffff :: u64) k = even (k div 16)" "bit (0xffff0000ffff0000 :: u64) k = odd (k div 16)"
    "bit (0x00000000ffffffff :: u64) k = even (k div 32)" "bit (0xffffffff00000000 :: u64) k = odd (k div 32)"
proof -
  have "\<forall>k \<in> set [0..<64]. bit (0x00ff00ff00ff00ff :: u64) k = even (k div 8)
      \<and> bit (0xff00ff00ff00ff00 :: u64) k = odd (k div 8)
      \<and> bit (0x0000ffff0000ffff :: u64) k = even (k div 16) \<and> bit (0xffff0000ffff0000 :: u64) k = odd (k div 16)
      \<and> bit (0x00000000ffffffff :: u64) k = even (k div 32) \<and> bit (0xffffffff00000000 :: u64) k = odd (k div 32)"
    by (simp add: upt_rec)
  with assms show "bit (0x00ff00ff00ff00ff :: u64) k = even (k div 8)" "bit (0xff00ff00ff00ff00 :: u64) k = odd (k div 8)"
    "bit (0x0000ffff0000ffff :: u64) k = even (k div 16)" "bit (0xffff0000ffff0000 :: u64) k = odd (k div 16)"
    "bit (0x00000000ffffffff :: u64) k = even (k div 32)" "bit (0xffffffff00000000 :: u64) k = odd (k div 32)"
    by auto
qed

lemma keep_shift_bits:
  assumes "k < 64"
  shows "bit ((x AND 0x00ff00ff00ff00ff) OR (push_bit 8 y AND 0xff00ff00ff00ff00) :: u64) k = (if even (k div 8) then bit x k else bit y (k - 8))"
    "bit ((x AND 0xff00ff00ff00ff00) OR (drop_bit 8 y AND 0x00ff00ff00ff00ff) :: u64) k = (if odd (k div 8) then bit x k else bit y (k + 8))"
    "bit ((x AND 0x0000ffff0000ffff) OR (push_bit 16 y AND 0xffff0000ffff0000) :: u64) k = (if even (k div 16) then bit x k else bit y (k - 16))"
    "bit ((x AND 0xffff0000ffff0000) OR (drop_bit 16 y AND 0x0000ffff0000ffff) :: u64) k = (if odd (k div 16) then bit x k else bit y (k + 16))"
    "bit ((x AND 0x00000000ffffffff) OR (push_bit 32 y AND 0xffffffff00000000) :: u64) k = (if even (k div 32) then bit x k else bit y (k - 32))"
    "bit ((x AND 0xffffffff00000000) OR (drop_bit 32 y AND 0x00000000ffffffff) :: u64) k = (if odd (k div 32) then bit x k else bit y (k + 32))"
proof -
  have s: "s \<le> k" if "odd (k div s)" for s using that by (cases "k < s") auto
  show "bit ((x AND 0x00ff00ff00ff00ff) OR (push_bit 8 y AND 0xff00ff00ff00ff00) :: u64) k = (if even (k div 8) then bit x k else bit y (k - 8))"
    "bit ((x AND 0xff00ff00ff00ff00) OR (drop_bit 8 y AND 0x00ff00ff00ff00ff) :: u64) k = (if odd (k div 8) then bit x k else bit y (k + 8))"
    "bit ((x AND 0x0000ffff0000ffff) OR (push_bit 16 y AND 0xffff0000ffff0000) :: u64) k = (if even (k div 16) then bit x k else bit y (k - 16))"
    "bit ((x AND 0xffff0000ffff0000) OR (drop_bit 16 y AND 0x0000ffff0000ffff) :: u64) k = (if odd (k div 16) then bit x k else bit y (k + 16))"
    "bit ((x AND 0x00000000ffffffff) OR (push_bit 32 y AND 0xffffffff00000000) :: u64) k = (if even (k div 32) then bit x k else bit y (k - 32))"
    "bit ((x AND 0xffffffff00000000) OR (drop_bit 32 y AND 0x00000000ffffffff) :: u64) k = (if odd (k div 32) then bit x k else bit y (k + 32))"
    unfolding bit_or_iff bit_and_iff mask_bits [OF assms] using assms s
    by (auto simp: bit_push_bit_iff bit_drop_bit_eq add.commute dest: s)
qed

definition octet :: "u64 \<Rightarrow> nat \<Rightarrow> byte" where
  "octet w j = ucast (drop_bit (8 * j) w)"

lemma bit_octet: "bit (octet w j) n \<longleftrightarrow> n < 8 \<and> bit w (8 * j + n)"
  by (auto simp: octet_def bit_ucast_iff bit_drop_bit_eq add.commute)

lemma octets:
  assumes "j < 8"
  shows "octet ((x AND 0x00ff00ff00ff00ff) OR (push_bit 8 y AND 0xff00ff00ff00ff00)) j = (if even j then octet x j else octet y (j - 1))"
    "octet ((x AND 0xff00ff00ff00ff00) OR (drop_bit 8 y AND 0x00ff00ff00ff00ff)) j = (if odd j then octet x j else octet y (j + 1))"
    "octet ((x AND 0x0000ffff0000ffff) OR (push_bit 16 y AND 0xffff0000ffff0000)) j = (if even (j div 2) then octet x j else octet y (j - 2))"
    "octet ((x AND 0xffff0000ffff0000) OR (drop_bit 16 y AND 0x0000ffff0000ffff)) j = (if odd (j div 2) then octet x j else octet y (j + 2))"
    "octet ((x AND 0x00000000ffffffff) OR (push_bit 32 y AND 0xffffffff00000000)) j = (if even (j div 4) then octet x j else octet y (j - 4))"
    "octet ((x AND 0xffffffff00000000) OR (drop_bit 32 y AND 0x00000000ffffffff)) j = (if odd (j div 4) then octet x j else octet y (j + 4))"
proof -
  have k: "8 * j + n < 64" "(8 * j + n) div 8 = j" "(8 * j + n) div 16 = j div 2" "(8 * j + n) div 32 = j div 4" if "n < 8" for n
    using that assms by simp_all
  have sub: "odd j \<Longrightarrow> 8 * j + n - 8 = 8 * (j - 1) + n" "odd (j div 2) \<Longrightarrow> 8 * j + n - 16 = 8 * (j - 2) + n"
    "odd (j div 4) \<Longrightarrow> 8 * j + n - 32 = 8 * (j - 4) + n" for n
    by presburger+
  have add: "8 * j + n + 8 = 8 * (j + 1) + n" "8 * j + n + 16 = 8 * (j + 2) + n" "8 * j + n + 32 = 8 * (j + 4) + n" for n
    by simp_all
  show "octet ((x AND 0x00ff00ff00ff00ff) OR (push_bit 8 y AND 0xff00ff00ff00ff00)) j = (if even j then octet x j else octet y (j - 1))"
    "octet ((x AND 0xff00ff00ff00ff00) OR (drop_bit 8 y AND 0x00ff00ff00ff00ff)) j = (if odd j then octet x j else octet y (j + 1))"
    "octet ((x AND 0x0000ffff0000ffff) OR (push_bit 16 y AND 0xffff0000ffff0000)) j = (if even (j div 2) then octet x j else octet y (j - 2))"
    "octet ((x AND 0xffff0000ffff0000) OR (drop_bit 16 y AND 0x0000ffff0000ffff)) j = (if odd (j div 2) then octet x j else octet y (j + 2))"
    "octet ((x AND 0x00000000ffffffff) OR (push_bit 32 y AND 0xffffffff00000000)) j = (if even (j div 4) then octet x j else octet y (j - 4))"
    "octet ((x AND 0xffffffff00000000) OR (drop_bit 32 y AND 0x00000000ffffffff)) j = (if odd (j div 4) then octet x j else octet y (j + 4))"
    unfolding bit_eq_iff bit_octet
    by (auto simp: bit_octet keep_shift_bits k sub add)
qed

lemma less_8_cases: "(\<forall>n<8. P n) = (P 0 \<and> P 1 \<and> P 2 \<and> P 3 \<and> P 4 \<and> P 5 \<and> P 6 \<and> P (7 :: nat))"
  by (simp add: numeral_eq_Suc All_less_Suc ac_simps)

definition keep_push_8 :: "u64 \<Rightarrow> u64 \<Rightarrow> u64" where
  "keep_push_8 x y = (x AND 0x00ff00ff00ff00ff) OR (push_bit 8 y AND 0xff00ff00ff00ff00)"

definition keep_drop_8 :: "u64 \<Rightarrow> u64 \<Rightarrow> u64" where
  "keep_drop_8 x y = (x AND 0xff00ff00ff00ff00) OR (drop_bit 8 y AND 0x00ff00ff00ff00ff)"

definition keep_push_16 :: "u64 \<Rightarrow> u64 \<Rightarrow> u64" where
  "keep_push_16 x y = (x AND 0x0000ffff0000ffff) OR (push_bit 16 y AND 0xffff0000ffff0000)"

definition keep_drop_16 :: "u64 \<Rightarrow> u64 \<Rightarrow> u64" where
  "keep_drop_16 x y = (x AND 0xffff0000ffff0000) OR (drop_bit 16 y AND 0x0000ffff0000ffff)"

definition keep_push_32 :: "u64 \<Rightarrow> u64 \<Rightarrow> u64" where
  "keep_push_32 x y = (x AND 0x00000000ffffffff) OR (push_bit 32 y AND 0xffffffff00000000)"

definition keep_drop_32 :: "u64 \<Rightarrow> u64 \<Rightarrow> u64" where
  "keep_drop_32 x y = (x AND 0xffffffff00000000) OR (drop_bit 32 y AND 0x00000000ffffffff)"

lemma transpose_words_rounds: "transpose_words a =
   [keep_push_32 (keep_push_16 (keep_push_8 (a ! 0) (a ! 1)) (keep_push_8 (a ! 2) (a ! 3))) (keep_push_16 (keep_push_8 (a ! 4) (a ! 5)) (keep_push_8 (a ! 6) (a ! 7))),
    keep_push_32 (keep_push_16 (keep_drop_8 (a ! 1) (a ! 0)) (keep_drop_8 (a ! 3) (a ! 2))) (keep_push_16 (keep_drop_8 (a ! 5) (a ! 4)) (keep_drop_8 (a ! 7) (a ! 6))),
    keep_push_32 (keep_drop_16 (keep_push_8 (a ! 2) (a ! 3)) (keep_push_8 (a ! 0) (a ! 1))) (keep_drop_16 (keep_push_8 (a ! 6) (a ! 7)) (keep_push_8 (a ! 4) (a ! 5))),
    keep_push_32 (keep_drop_16 (keep_drop_8 (a ! 3) (a ! 2)) (keep_drop_8 (a ! 1) (a ! 0))) (keep_drop_16 (keep_drop_8 (a ! 7) (a ! 6)) (keep_drop_8 (a ! 5) (a ! 4))),
    keep_drop_32 (keep_push_16 (keep_push_8 (a ! 4) (a ! 5)) (keep_push_8 (a ! 6) (a ! 7))) (keep_push_16 (keep_push_8 (a ! 0) (a ! 1)) (keep_push_8 (a ! 2) (a ! 3))),
    keep_drop_32 (keep_push_16 (keep_drop_8 (a ! 5) (a ! 4)) (keep_drop_8 (a ! 7) (a ! 6))) (keep_push_16 (keep_drop_8 (a ! 1) (a ! 0)) (keep_drop_8 (a ! 3) (a ! 2))),
    keep_drop_32 (keep_drop_16 (keep_push_8 (a ! 6) (a ! 7)) (keep_push_8 (a ! 4) (a ! 5))) (keep_drop_16 (keep_push_8 (a ! 2) (a ! 3)) (keep_push_8 (a ! 0) (a ! 1))),
    keep_drop_32 (keep_drop_16 (keep_drop_8 (a ! 7) (a ! 6)) (keep_drop_8 (a ! 5) (a ! 4))) (keep_drop_16 (keep_drop_8 (a ! 3) (a ! 2)) (keep_drop_8 (a ! 1) (a ! 0)))]"
  unfolding transpose_words_def Let_def keep_push_8_def keep_drop_8_def keep_push_16_def keep_drop_16_def keep_push_32_def keep_drop_32_def
  by (rule refl)

lemmas octet_rounds = octets [folded keep_push_8_def keep_drop_8_def keep_push_16_def keep_drop_16_def keep_push_32_def keep_drop_32_def]

lemma transpose_words_octets: "i < 8 \<Longrightarrow> j < 8 \<Longrightarrow> octet (transpose_words a ! i) j = octet (a ! j) i"
proof -
  have "\<forall>i<8. \<forall>j<8. octet (transpose_words a ! i) j = octet (a ! j) i"
    unfolding less_8_cases transpose_words_rounds
    by (simp add: octet_rounds del: One_nat_def) (simp add: numeral_2_eq_2 numeral_3_eq_3)
  then show "i < 8 \<Longrightarrow> j < 8 \<Longrightarrow> octet (transpose_words a ! i) j = octet (a ! j) i" by blast
qed


lemma octet_or: "octet (x OR y) j = octet x j OR octet y j"
  by (rule bit_word_eqI) (auto simp: bit_octet bit_or_iff)

lemma octet_0 [simp]: "octet 0 j = 0"
  by (simp add: octet_def)

lemma octet_push:
  assumes "i < 8" and "j < 8"
  shows "octet (push_bit (8 * i) (ucast b)) j = (if i = j then b else 0)"
proof (rule bit_word_eqI)
  fix n assume n: "n < LENGTH(8)"
  have "8 * j + n - 8 * i < 8 \<and> 8 * i \<le> 8 * j + n \<longleftrightarrow> i = j" using n by auto
  moreover have "bit b (8 * j + n - 8 * i) \<Longrightarrow> 8 * j + n - 8 * i < 8" using bit_imp_le_length by fastforce
  ultimately show "bit (octet (push_bit (8 * i) (ucast b)) j) n = bit (if i = j then b else 0) n"
    using n assms by (auto simp: bit_octet bit_push_bit_iff bit_ucast_iff)
qed

lemma octet_foldl:
  assumes "j < 8"
  shows "n \<le> 8 \<Longrightarrow> octet (foldl (\<lambda>w i. w OR push_bit (8 * i) (ucast (g i))) 0 [0..<n]) j = (if j < n then g j else 0)"
proof (induction n)
  case (Suc n)
  then show ?case using assms octet_push [of n j "g n"] by (auto simp: octet_or less_Suc_eq)
qed (simp add: octet_0)

lemma octet_load: "j < 8 \<Longrightarrow> octet (load_u64 src off) j = src ! (off + j)"
  unfolding load_u64_def by (subst octet_foldl) simp_all

lemma store_u64_nth:
  assumes "off + 8 \<le> length dst" and "k < length dst"
  shows "store_u64 dst off w ! k = (if off \<le> k \<and> k < off + 8 then octet w (k - off) else dst ! k)"
  using assms by (auto simp: store_u64_def nth_write_at octet_def)

lemma length_store_u64: "off + 8 \<le> length dst \<Longrightarrow> length (store_u64 dst off w) = length dst"
  by (simp add: store_u64_def)

section \<open>The cells a loop has filled\<close>

definition filled :: "nat \<Rightarrow> bytes \<Rightarrow> (nat \<times> nat) set \<Rightarrow> bytes \<Rightarrow> bool" where
  \<comment> \<open>\<open>dst\<close> holds the transposed entries at the positions of a set\<close>
  "filled n src S dst \<longleftrightarrow> length dst = n * n \<and> (\<forall>(u, v) \<in> S. u < n \<longrightarrow> v < n \<longrightarrow> dst ! (u * n + v) = src ! (v * n + u))"

lemma filled_foldl:
  assumes "filled n src S dst"
    and "\<And>x S dst. x \<in> set xs \<Longrightarrow> filled n src S dst \<Longrightarrow> filled n src (S \<union> W x) (f dst x)"
  shows "filled n src (S \<union> (\<Union>x \<in> set xs. W x)) (foldl f dst xs)"
  using assms
proof (induction xs arbitrary: S dst)
  case (Cons x xs)
  have "filled n src (S \<union> W x \<union> (\<Union>x \<in> set xs. W x)) (foldl f (f dst x) xs)"
    by (rule Cons.IH) (use Cons.prems in auto)
  then show ?case by (simp add: Un_assoc)
qed simp

lemma filled_mono: "filled n src S dst \<Longrightarrow> T \<subseteq> S \<Longrightarrow> filled n src T dst"
  by (auto simp: filled_def)

lemma cell_less: "u < n \<Longrightarrow> v < n \<Longrightarrow> u * n + v < n * (n :: nat)"
  using slot_end [of u n n] by linarith

lemma cell_inj: "v < n \<Longrightarrow> v' < n \<Longrightarrow> u * n + v = u' * n + v' \<longleftrightarrow> u = u' \<and> v = (v' :: nat)"
proof
  assume v: "v < n" "v' < n" and eq: "u * n + v = u' * n + v'"
  have "(u * n + v) div n = u" "(u' * n + v') div n = u'" using v by simp_all
  with eq show "u = u' \<and> v = v'" by simp
qed simp

lemma filled_cell:
  assumes "filled n src S dst" and "u < n" and "v < n"
  shows "filled n src (S \<union> {(u, v)}) (dst[u * n + v := src ! (v * n + u)])"
  using assms cell_less [of u n v] by (auto simp: filled_def nth_list_update cell_inj)


lemma transpose8x8_cells:
  assumes f: "filled n src S dst" and u: "u0 + 8 \<le> n" and v: "v0 + 8 \<le> n"
  shows "filled n src (S \<union> {u0..<u0 + 8} \<times> {v0..<v0 + 8}) (matrix_transpose8x8 (u0 * n + v0) (v0 * n + u0) src n n dst)"
proof -
  define d where "d = transpose_words (map (\<lambda>i. load_u64 src (v0 * n + u0 + i * n)) [0..<8])"
  have octet_d: "octet (d ! i) j = src ! ((v0 + j) * n + (u0 + i))" if "i < 8" "j < 8" for i j
    using that by (simp add: d_def transpose_words_octets octet_load algebra_simps)
  have row: "filled n src (S \<union> {u0 + i} \<times> {v0..<v0 + 8}) (store_u64 dst (u0 * n + v0 + i * n) (d ! i))"
    if "i < 8" and f: "filled n src S dst" for i S dst
  proof -
    have pos: "u0 * n + v0 + i * n = (u0 + i) * n + v0" by (simp add: algebra_simps)
    have "(u0 + i) * n + n \<le> n * n" using slot_end [of "u0 + i" n n] that u by simp
    then have room: "(u0 + i) * n + v0 + 8 \<le> length dst" using f v by (simp add: filled_def)
    have nth: "store_u64 dst ((u0 + i) * n + v0) (d ! i) ! (u * n + v)
        = (if u = u0 + i \<and> v0 \<le> v \<and> v < v0 + 8 then octet (d ! i) (v - v0) else dst ! (u * n + v))"
      if "u < n" "v < n" for u v
    proof (cases "u = u0 + i")
      case True
      then show ?thesis using room cell_less [OF that] f by (simp add: store_u64_nth filled_def)
    next
      case False
      have "u * n + n \<le> (u0 + i) * n \<or> (u0 + i) * n + n \<le> u * n"
        using False slot_end [of u "u0 + i" n] slot_end [of "u0 + i" u n] by linarith
      then have "\<not> ((u0 + i) * n + v0 \<le> u * n + v \<and> u * n + v < (u0 + i) * n + v0 + 8)"
        using that v by linarith
      moreover have "length dst = n * n" using f by (simp add: filled_def)
      ultimately show ?thesis using False cell_less [OF that] by (subst store_u64_nth [OF room]) auto
    qed
    show ?thesis unfolding pos filled_def
      using f \<open>i < 8\<close> octet_d by (auto simp: filled_def length_store_u64 [OF room] nth)
  qed
  have "filled n src (S \<union> (\<Union>i \<in> set [0..<8]. {u0 + i} \<times> {v0..<v0 + 8}))
      (foldl (\<lambda>dst i. store_u64 dst (u0 * n + v0 + i * n) (d ! i)) dst [0..<8])"
    by (rule filled_foldl [OF f]) (use row in auto)
  moreover have "{u0..<u0 + 8} \<times> {v0..<v0 + 8} \<subseteq> (\<Union>i \<in> set [0..<8]. {u0 + i} \<times> {v0..<v0 + 8})"
  proof clarsimp
    fix u v assume "u0 \<le> u" "u < u0 + 8"
    then show "\<exists>x\<in>{0..<8}. u = u0 + x" by (intro bexI [of _ "u - u0"]) auto
  qed
  ultimately show ?thesis unfolding matrix_transpose8x8_def Let_def d_def [symmetric]
    using filled_mono [OF _ Un_mono [OF order_refl]] by blast
qed

lemma filled_rows:
  assumes "filled n src S dst" and "b \<le> n" and "d \<le> n"
  shows "filled n src (S \<union> {c..<d} \<times> {a..<b})
    (foldl (\<lambda>dst i. foldl (\<lambda>dst j. dst[j * n + i := src ! (i * n + j)]) dst [c..<d]) dst [a..<b])"
proof -
  have inner: "filled n src (S \<union> {c..<d} \<times> {i}) (foldl (\<lambda>dst j. dst[j * n + i := src ! (i * n + j)]) dst [c..<d])"
    if "filled n src S dst" and "i < n" for S dst i
  proof -
    have "filled n src (S \<union> (\<Union>j \<in> set [c..<d]. {(j, i)})) (foldl (\<lambda>dst j. dst[j * n + i := src ! (i * n + j)]) dst [c..<d])"
      by (rule filled_foldl [OF that(1)]) (use filled_cell that(2) assms(3) in auto)
    moreover have "(\<Union>j \<in> set [c..<d]. {(j, i)}) = {c..<d} \<times> {i}" by auto
    ultimately show ?thesis by simp
  qed
  have "filled n src (S \<union> (\<Union>i \<in> set [a..<b]. {c..<d} \<times> {i}))
    (foldl (\<lambda>dst i. foldl (\<lambda>dst j. dst[j * n + i := src ! (i * n + j)]) dst [c..<d]) dst [a..<b])"
    by (rule filled_foldl [OF assms(1)]) (use inner assms(2) in auto)
  then show ?thesis by (rule filled_mono) auto
qed

lemma blocks_fill:
  assumes f: "filled n src S dst" and c: "c \<le> n"
  shows "filled n src (S \<union> {..<64 * (c div 64)} \<times> {..<64 * (c div 64)}) (transpose_blocks n n src c dst)"
proof -
  define B where "B = c div 64"
  have B: "64 * B \<le> n" using c unfolding B_def by (metis div_times_less_eq_dividend le_trans mult.commute)
  let ?W = "\<lambda>rb cb rw cw. {cb * 64 + rw * 8..<cb * 64 + rw * 8 + 8} \<times> {rb * 64 + cw * 8..<rb * 64 + cw * 8 + 8}"
  have one: "filled n src (S \<union> ?W rb cb rw cw)
      (matrix_transpose8x8 ((cb * n + rb) * 64 + (rw * n + cw) * 8) ((rb * n + cb) * 64 + (cw * n + rw) * 8) src n n dst)"
    if "filled n src S dst" "rb < B" "cb < B" "rw < 8" "cw < 8" for S dst rb cb rw cw
  proof -
    have "cb * 64 + rw * 8 + 8 \<le> n" "rb * 64 + cw * 8 + 8 \<le> n" using that B by linarith+
    from transpose8x8_cells [OF that(1) this] show ?thesis by (simp add: algebra_simps)
  qed
  have cws: "filled n src (S \<union> (\<Union>cw \<in> set [0..<64 div 8]. ?W rb cb rw cw))
      (foldl (\<lambda>dst cw. matrix_transpose8x8 ((cb * n + rb) * 64 + (rw * n + cw) * 8) ((rb * n + cb) * 64 + (cw * n + rw) * 8) src n n dst) dst [0..<64 div 8])"
    if "filled n src S dst" "rb < B" "cb < B" "rw < 8" for S dst rb cb rw
    by (rule filled_foldl [OF that(1)]) (use one that in auto)
  have rws: "filled n src (S \<union> (\<Union>rw \<in> set [0..<64 div 8]. \<Union>cw \<in> set [0..<64 div 8]. ?W rb cb rw cw))
      (foldl (\<lambda>dst rw. foldl (\<lambda>dst cw. matrix_transpose8x8 ((cb * n + rb) * 64 + (rw * n + cw) * 8) ((rb * n + cb) * 64 + (cw * n + rw) * 8) src n n dst) dst [0..<64 div 8]) dst [0..<64 div 8])"
    if "filled n src S dst" "rb < B" "cb < B" for S dst rb cb
    by (rule filled_foldl [OF that(1)]) (use cws that in auto)
  have cbs: "filled n src (S \<union> (\<Union>cb \<in> set [0..<B]. \<Union>rw \<in> set [0..<64 div 8]. \<Union>cw \<in> set [0..<64 div 8]. ?W rb cb rw cw))
      (foldl (\<lambda>dst cb. foldl (\<lambda>dst rw. foldl (\<lambda>dst cw. matrix_transpose8x8 ((cb * n + rb) * 64 + (rw * n + cw) * 8) ((rb * n + cb) * 64 + (cw * n + rw) * 8) src n n dst) dst [0..<64 div 8]) dst [0..<64 div 8]) dst [0..<B])"
    if "filled n src S dst" "rb < B" for S dst rb
    by (rule filled_foldl [OF that(1)]) (use rws that in auto)
  have all: "filled n src (S \<union> (\<Union>rb \<in> set [0..<B]. \<Union>cb \<in> set [0..<B]. \<Union>rw \<in> set [0..<64 div 8]. \<Union>cw \<in> set [0..<64 div 8]. ?W rb cb rw cw))
      (transpose_blocks n n src c dst)"
    unfolding transpose_blocks_def Let_def B_def [symmetric]
    by (rule filled_foldl [OF f]) (use cbs in auto)
  have near: "u div 64 * 64 + u mod 64 div 8 * 8 \<le> u \<and> u < u div 64 * 64 + u mod 64 div 8 * 8 + 8" for u :: nat
    using div_mult_mod_eq [of u 64] div_mult_mod_eq [of "u mod 64" 8] mod_less_divisor [of 8 "u mod 64"] by linarith
  have inside: "u div 64 < B" "u mod 64 div 8 < 64 div 8" if "u < 64 * B" for u
    using that by (simp_all add: less_mult_imp_div_less mult.commute)
  have "{..<64 * B} \<times> {..<64 * B}
      \<subseteq> (\<Union>rb \<in> set [0..<B]. \<Union>cb \<in> set [0..<B]. \<Union>rw \<in> set [0..<64 div 8]. \<Union>cw \<in> set [0..<64 div 8]. ?W rb cb rw cw)"
  proof
    fix x assume "x \<in> {..<64 * B} \<times> {..<64 * B}"
    then obtain u v where x: "x = (u, v)" and u: "u < 64 * B" and v: "v < 64 * B" by blast
    have W: "x \<in> ?W (v div 64) (u div 64) (u mod 64 div 8) (v mod 64 div 8)"
      unfolding x mem_Sigma_iff atLeastLessThan_iff by (intro conjI near [THEN conjunct1] near [THEN conjunct2])
    have mem: "v div 64 \<in> set [0..<B]" "u div 64 \<in> set [0..<B]" "u mod 64 div 8 \<in> set [0..<64 div 8]"
      "v mod 64 div 8 \<in> set [0..<64 div 8]"
      unfolding set_upt atLeastLessThan_iff using inside [OF u] inside [OF v] by blast+
    show "x \<in> (\<Union>rb \<in> set [0..<B]. \<Union>cb \<in> set [0..<B]. \<Union>rw \<in> set [0..<64 div 8]. \<Union>cw \<in> set [0..<64 div 8]. ?W rb cb rw cw)"
      by (rule UN_I [where a = "v div 64"], rule mem, rule UN_I [where a = "u div 64"], rule mem,
          rule UN_I [where a = "u mod 64 div 8"], rule mem, rule UN_I [where a = "v mod 64 div 8"], rule mem, rule W)
  qed
  with all show ?thesis unfolding B_def [symmetric] by (rule filled_mono [OF _ Un_mono [OF order_refl]])
qed


section \<open>The whole matrix\<close>

lemma transpose_opt_filled:
  assumes "length dst = less_K p * less_K p"
  shows "filled (less_K p) src ({..<less_K p} \<times> {..<less_K p}) (matrix_transpose_opt p dst src (less_K p) (less_K p))"
proof -
  define n where "n = less_K p"
  have f: "filled n src {} dst" using assms by (simp add: filled_def n_def)
  have nn [simp]: "less_N p - n = n" by (simp add: n_def)
  consider "n = 8" | "64 \<le> n" by (cases p) (simp_all add: n_def less_K_def)
  then have "filled n src ({..<n} \<times> {..<n}) (matrix_transpose_opt p dst src n n)"
  proof cases
    case 1
    have "matrix_transpose_opt p dst src n n = matrix_transpose8x8 0 0 src n n dst"
      by (simp add: matrix_transpose_opt_def matrix_transposeNx8_def 1)
    with transpose8x8_cells [OF f, of 0 0] 1 show ?thesis by (simp add: lessThan_atLeast0)
  next
    case 2
    define m where "m = 64 * (n div 64)"
    have m: "m \<le> n" by (simp add: m_def)
    let ?rows = "\<lambda>a b c d dst. foldl (\<lambda>dst i. foldl (\<lambda>dst j. dst[j * n + i := src ! (i * n + j)]) dst [c..<d]) dst [a..<b]"
    have blocks: "filled n src ({} \<union> {..<m} \<times> {..<m}) (transpose_blocks n n src n dst)"
      unfolding m_def by (rule blocks_fill [OF f]) simp
    show ?thesis
    proof (cases "n mod 64 = 0")
      case True
      then have "m = n" using mult_div_mod_eq [of 64 n] by (simp add: m_def)
      moreover have "matrix_transpose_opt p dst src n n = transpose_blocks n n src n dst"
        using 2 True by (simp add: matrix_transpose_opt_def n_def [symmetric])
      ultimately show ?thesis using blocks by simp
    next
      case False
      have e: "matrix_transpose_opt p dst src n n = ?rows 0 n m n (?rows m n 0 n (transpose_blocks n n src n dst))"
        using 2 False by (simp add: matrix_transpose_opt_def n_def [symmetric] Let_def m_def mult.commute)
      have "filled n src ({} \<union> {..<m} \<times> {..<m} \<union> {0..<n} \<times> {m..<n} \<union> {m..<n} \<times> {0..<n}) (matrix_transpose_opt p dst src n n)"
        unfolding e by (intro filled_rows blocks order_refl)
      then show ?thesis by (rule filled_mono) (use m in auto)
    qed
  qed
  then show ?thesis by (simp add: n_def)
qed

definition transposed :: "nat \<Rightarrow> bytes list \<Rightarrow> bytes list" where
  "transposed n V = map (\<lambda>j. map (\<lambda>i. V ! i ! j) [0..<n]) [0..<n]"

lemma length_transposed [simp]: "length (transposed n V) = n"
  by (simp add: transposed_def)

lemma transposed_nth [simp]: "i < n \<Longrightarrow> j < n \<Longrightarrow> transposed n V ! j ! i = V ! i ! j"
  by (simp add: transposed_def)

lemma length_transposed_row: "r \<in> set (transposed n V) \<Longrightarrow> length r = n"
  by (auto simp: transposed_def)

lemma transposed_transposed:
  assumes "length V = n" and "\<And>r. r \<in> set V \<Longrightarrow> length r = n"
  shows "transposed n (transposed n V) = V"
  using assms by (intro nth_equalityI) (auto simp: transposed_def intro!: nth_equalityI)

lemma nth_concat_rows:
  assumes "\<And>r. r \<in> set V \<Longrightarrow> length r = n" and "i < length V" and "j < n"
  shows "concat V ! (i * n + j) = V ! i ! j"
  using assms
proof (induction V arbitrary: i)
  case (Cons r V)
  then show ?case by (cases i) (auto simp: nth_append)
qed simp

text \<open>The routine transposes, whatever the destination held.\<close>

lemma transpose_opt_transposed:
  assumes V: "length V = less_K p" "\<And>r. r \<in> set V \<Longrightarrow> length r = less_K p"
    and dst: "length dst = less_K p * less_K p"
  shows "matrix_transpose_opt p dst (concat V) (less_K p) (less_K p) = concat (transposed (less_K p) V)"
proof -
  define n where "n = less_K p"
  have f: "filled n (concat V) ({..<n} \<times> {..<n}) (matrix_transpose_opt p dst (concat V) n n)"
    using transpose_opt_filled [OF dst] by (simp add: n_def)
  have len: "length (concat (transposed n V)) = n * n"
    using length_concat_const [of "transposed n V" id n] by (simp add: length_transposed_row)
  have "matrix_transpose_opt p dst (concat V) n n ! k = concat (transposed n V) ! k" if k: "k < n * n" for k
  proof -
    have n0: "0 < n" using k by (cases n) auto
    have u: "k div n < n" "k mod n < n" using k n0 by (simp_all add: less_mult_imp_div_less)
    have "matrix_transpose_opt p dst (concat V) n n ! (k div n * n + k mod n) = concat V ! (k mod n * n + k div n)"
      using f u unfolding filled_def by blast
    also have "\<dots> = concat (transposed n V) ! (k div n * n + k mod n)"
      by (subst (1 2) nth_concat_rows) (use u V in \<open>simp_all add: n_def length_transposed_row\<close>)
    finally show ?thesis by simp
  qed
  then show ?thesis unfolding n_def [symmetric]
    using f len by (intro nth_equalityI) (simp_all add: filled_def)
qed

end
