(* ===== verification/Less_Sort.thy ===== *)
theory Less_Sort
  imports Less_Fq Less_Transpose "HOL-Library.List_Lexorder" "HOL-Library.Multiset"
begin

unbundle bit_operations_syntax

text \<open>
  Sorting the rows and the columns of the non-identity part of a generator
  matrix, \<^verbatim>\<open>less/Reference_Implementation/lib/sort.c\<close> and the swaps of
  \<^verbatim>\<open>lib/utils.c\<close>, \<^verbatim>\<open>include/utils.h\<close> and \<^verbatim>\<open>lib/codes.c\<close>. Both routines sort an
  array of row pointers and a permutation by a quicksort with an explicit stack
  of fixed size and apply the permutation to the matrix by following its cycles.
  A pointer to the row number \<open>i\<close> of an array of rows is the word \<open>i\<close>; a write
  beyond the stack is \<open>None\<close>.
\<close>

section \<open>The code\<close>

subsection \<open>Swaps\<close>

definition SWAP :: "nat \<Rightarrow> nat \<Rightarrow> nat list \<Rightarrow> nat list" where
  \<comment> \<open>\<open>SWAP(P[i], P[j])\<close>: three exclusive ors, also when both are the same cell\<close>
  "SWAP i j P =
     (let P = P[i := P ! i XOR P ! j];
          P = P[j := P ! j XOR P ! i]
      in P[i := P ! i XOR P ! j])"

definition cswap :: "nat \<Rightarrow> nat \<Rightarrow> u64 \<Rightarrow> u64 list \<Rightarrow> u64 list" where
  \<comment> \<open>\<open>cswap(&ptr[i], &ptr[j], mask)\<close>\<close>
  "cswap i j msk ptr =
     (let ptr = ptr[i := ptr ! i XOR (msk AND ptr ! j)];
          ptr = ptr[j := ptr ! j XOR (msk AND ptr ! i)]
      in ptr[i := ptr ! i XOR (msk AND ptr ! j)])"

definition normalized_row_swap :: "less_params \<Rightarrow> nat \<Rightarrow> nat \<Rightarrow> bytes list \<Rightarrow> bytes list" where
  "normalized_row_swap p row1 row2 V =
     (if row1 = row2 then V
      else foldl (\<lambda>V i. let tmp = V ! row1 ! i;
                            V = V[row1 := (V ! row1)[i := V ! row2 ! i]]
                        in V[row2 := (V ! row2)[i := tmp]]) V [0..<less_N p - less_K p])"

definition row_at :: "bytes list \<Rightarrow> u64 \<Rightarrow> bytes" where
  \<comment> \<open>the row a pointer points to\<close>
  "row_at rows a = rows ! unat a"

subsection \<open>Comparisons\<close>

function first_difference :: "nat \<Rightarrow> bytes \<Rightarrow> bytes \<Rightarrow> nat \<Rightarrow> nat" where
  \<comment> \<open>\<open>while ((i < n) && (xs[i] == ys[i])) i++;\<close>\<close>
  "first_difference n xs ys i = (if i < n \<and> xs ! i = ys ! i then first_difference n xs ys (i + 1) else i)"
  by auto
termination by (relation "measure (\<lambda>(n, xs, ys, i). n - i)") auto

declare first_difference.simps [simp del]

definition compare_rows :: "bytes \<Rightarrow> bytes \<Rightarrow> int" where
  "compare_rows row1 row2 =
     (let i = first_difference (less_Q - 1) row1 row2 0 in uint (row2 ! i) - uint (row1 ! i))"

definition SortCols_internal_compare :: "less_params \<Rightarrow> bytes \<Rightarrow> bytes \<Rightarrow> int" where
  "SortCols_internal_compare p row pivot =
     (let i = first_difference (less_N p - less_K p - 1) row pivot 0 in - (uint (row ! i) - uint (pivot ! i)))"

definition sort_histogram :: "bytes \<Rightarrow> nat \<Rightarrow> bytes" where
  \<comment> \<open>the function \<open>sort\<close>: a histogram in \<open>uint8_t\<close> cells\<close>
  "sort_histogram inp len = foldl (\<lambda>out i. out[unat (inp ! i) := out ! unat (inp ! i) + 1]) (replicate Q_pad 0) [0..<len]"

subsection \<open>Quicksort\<close>

definition partition_step ::
    "(u64 list \<Rightarrow> int \<Rightarrow> bool) \<Rightarrow> int \<times> u64 list \<times> nat list \<Rightarrow> int \<Rightarrow> int \<times> u64 list \<times> nat list" where
  \<comment> \<open>one pass of \<open>for (j = l; j <= h - 1; j++)\<close>\<close>
  "partition_step before = (\<lambda>(i, ptr, P) j.
     (if before ptr j
      then let i = i + 1
           in if i = j then (i, ptr, P)
              else (i, cswap (nat i) (nat j) (-1) ptr, SWAP (nat i) (nat j) P)
      else (i, ptr, P)))"

definition hoare_partition ::
    "(u64 list \<Rightarrow> int \<Rightarrow> bool) \<Rightarrow> u64 list \<Rightarrow> nat list \<Rightarrow> int \<Rightarrow> int \<Rightarrow> int \<times> u64 list \<times> nat list" where
  "hoare_partition before ptr P l h =
     (let (i, ptr, P) = foldl (partition_step before) (l - 1, ptr, P) [l..h - 1]
      in if i + 1 \<noteq> h then (i + 1, cswap (nat (i + 1)) (nat h) (-1) ptr, SWAP (nat (i + 1)) (nat h) P)
         else (i + 1, ptr, P))"

definition SortRows_internal_hoare_partition ::
    "bytes list \<Rightarrow> u64 list \<Rightarrow> nat list \<Rightarrow> int \<Rightarrow> int \<Rightarrow> int \<times> u64 list \<times> nat list" where
  "SortRows_internal_hoare_partition rows ptr P l h =
     hoare_partition (\<lambda>ptr j. compare_rows (row_at rows (ptr ! nat j)) (row_at rows (ptr ! nat h)) < 0) ptr P l h"

definition SortCols_internal_hoare_partition ::
    "less_params \<Rightarrow> bytes list \<Rightarrow> u64 list \<Rightarrow> nat list \<Rightarrow> int \<Rightarrow> int \<Rightarrow> int \<times> u64 list \<times> nat list" where
  "SortCols_internal_hoare_partition p rows ptr P l h =
     (let pivot_row = map (\<lambda>i. row_at rows (ptr ! nat h) ! i) [0..<less_N p - less_K p]
      in hoare_partition (\<lambda>ptr j. SortCols_internal_compare p (row_at rows (ptr ! nat j)) pivot_row > 0) ptr P l h)"

definition push_range :: "nat \<Rightarrow> int \<Rightarrow> int \<Rightarrow> int list \<Rightarrow> int list option" where
  \<comment> \<open>\<open>stack[++s] = l; stack[++s] = h\<close> on a stack of \<open>cap\<close> cells, the top first\<close>
  "push_range cap l h stack = (if length stack + 2 \<le> cap then Some (h # l # stack) else None)"

partial_function (option) quick_loop ::
    "nat \<Rightarrow> (u64 list \<Rightarrow> nat list \<Rightarrow> int \<Rightarrow> int \<Rightarrow> int \<times> u64 list \<times> nat list)
     \<Rightarrow> int list \<Rightarrow> u64 list \<Rightarrow> nat list \<Rightarrow> (u64 list \<times> nat list) option" where
  [code]: "quick_loop cap part stack ptr P =
     (case stack of h # l # stack \<Rightarrow>
        let (pos, ptr, P) = part ptr P l h
        in (case (if pos - 1 > l then push_range cap l (pos - 1) stack else Some stack) of
              None \<Rightarrow> None
            | Some stack \<Rightarrow>
                (case (if pos + 1 < h then push_range cap (pos + 1) h stack else Some stack) of
                   None \<Rightarrow> None
                 | Some stack \<Rightarrow> quick_loop cap part stack ptr P))
      | _ \<Rightarrow> Some (ptr, P))"

definition SortRows_internal :: "bytes list \<Rightarrow> u64 list \<Rightarrow> nat list \<Rightarrow> nat \<Rightarrow> (u64 list \<times> nat list) option" where
  "SortRows_internal rows ptr P n =
     (let l = 0; h = int n - 1
      in quick_loop 128 (SortRows_internal_hoare_partition rows) [h, l] ptr P)"

definition SortCols_internal ::
    "less_params \<Rightarrow> bytes list \<Rightarrow> u64 list \<Rightarrow> nat list \<Rightarrow> int \<Rightarrow> int \<Rightarrow> (u64 list \<times> nat list) option" where
  "SortCols_internal p rows ptr P l h =
     quick_loop 64 (SortCols_internal_hoare_partition p rows) [h, l] ptr P"

subsection \<open>Rows and columns of a matrix\<close>

partial_function (option) follow_cycle :: "nat list \<Rightarrow> nat \<Rightarrow> nat \<Rightarrow> nat option" where
  \<comment> \<open>\<open>while(ind<t) { ind = P[ind]; }\<close>\<close>
  [code]: "follow_cycle P t ind = (if ind < t then follow_cycle P t (P ! ind) else Some ind)"

definition apply_permutation :: "less_params \<Rightarrow> nat list \<Rightarrow> nat \<Rightarrow> bytes list \<Rightarrow> bytes list option" where
  "apply_permutation p P n V =
     foldM (\<lambda>V t. case follow_cycle P t (P ! t) of None \<Rightarrow> None | Some ind \<Rightarrow> Some (normalized_row_swap p t ind V)) V [0..<n]"

definition SortRows :: "less_params \<Rightarrow> bytes list \<Rightarrow> nat \<Rightarrow> bytes option \<Rightarrow> (bool \<times> bytes list) option" where
  \<comment> \<open>\<open>L\<close> is the null pointer as \<open>None\<close>; the returned flag is 0 or 1\<close>
  "SortRows p G n L =
     (let tmp = map (\<lambda>i. sort_histogram (G ! i) (less_N p - less_K p)) [0..<n];
          max_zeros = foldl (\<lambda>m i. if unat (tmp ! i ! 0) > m then unat (tmp ! i ! 0) else m) 0 [0..<n];
          ptr = map of_nat [0..<n];
          P = [0..<n]
      in case L of None \<Rightarrow> None
       | Some L \<Rightarrow>
           if max_zeros < unat (L ! 0) then Some (False, G)
           else case SortRows_internal tmp ptr P n of None \<Rightarrow> None
             | Some (ptr, P) \<Rightarrow>
                 (case apply_permutation p P n G of None \<Rightarrow> None | Some G \<Rightarrow> Some (True, G)))"

definition SortCols :: "less_params \<Rightarrow> bytes \<Rightarrow> bytes list \<Rightarrow> nat \<Rightarrow> bytes list option" where
  \<comment> \<open>\<open>VT\<close> is what the uninitialised local matrix holds\<close>
  "SortCols p VT V z =
     (let VT = chunks (less_N p - less_K p) (less_K p) (matrix_transpose_opt p VT (concat V) z (less_K p));
          ptr = map of_nat [0..<less_K p];
          P = [0..<less_K p]
      in case SortCols_internal p VT ptr P 0 (int (less_K p) - 1) of None \<Rightarrow> None
       | Some (ptr, P) \<Rightarrow>
           (case apply_permutation p P (less_K p) VT of None \<Rightarrow> None
            | Some VT \<Rightarrow>
                Some (chunks (less_N p - less_K p) (less_K p) (matrix_transpose_opt p (concat V) (concat VT) (less_K p) z))))"


section \<open>The swaps\<close>

definition swap_at :: "nat \<Rightarrow> nat \<Rightarrow> 'a list \<Rightarrow> 'a list" where
  "swap_at i j xs = xs[i := xs ! j, j := xs ! i]"

lemma length_swap_at [simp]: "length (swap_at i j xs) = length xs"
  by (simp add: swap_at_def)

lemma nth_swap_at:
  "i < length xs \<Longrightarrow> j < length xs \<Longrightarrow> swap_at i j xs ! k = (if k = i then xs ! j else if k = j then xs ! i else xs ! k)"
  by (auto simp: swap_at_def nth_list_update)

lemma swap_at_same [simp]: "swap_at i i xs = xs"
  by (simp add: swap_at_def)

lemma map_swap_at: "i < length xs \<Longrightarrow> j < length xs \<Longrightarrow> map f (swap_at i j xs) = swap_at i j (map f xs)"
  by (simp add: swap_at_def map_update)

lemma swap_at_blocks:
  "i = length A \<Longrightarrow> j = length A + Suc (length B) \<Longrightarrow> swap_at i j (A @ x # B @ y # C) = A @ y # B @ x # C"
  by (simp add: swap_at_def list_update_append nth_append)

lemma xor_back: "a XOR (b XOR a) = b" "a XOR (a XOR b) = b" for a b :: nat
  by (rule bit_eqI, auto simp: bit_xor_iff)+

lemma SWAP_swap: "i \<noteq> j \<Longrightarrow> i < length P \<Longrightarrow> j < length P \<Longrightarrow> SWAP i j P = swap_at i j P"
  by (rule nth_equalityI) (auto simp: SWAP_def swap_at_def nth_list_update Let_def xor.assoc xor_back)

lemma cswap_swap: "i \<noteq> j \<Longrightarrow> i < length ptr \<Longrightarrow> j < length ptr \<Longrightarrow> cswap i j (-1) ptr = swap_at i j ptr"
  by (rule nth_equalityI) (auto simp: cswap_def swap_at_def nth_list_update Let_def xor.assoc, simp_all add: xor.left_commute)

lemma row_swap_swap:
  assumes "row1 < length V" and "row2 < length V" and "length (V ! row1) = less_K p" and "length (V ! row2) = less_K p"
  shows "normalized_row_swap p row1 row2 V = swap_at row1 row2 V"
proof (cases "row1 = row2")
  case False
  define a where "a = V ! row1"
  define b where "b = V ! row2"
  have "foldl (\<lambda>V i. let tmp = V ! row1 ! i;
                            V = V[row1 := (V ! row1)[i := V ! row2 ! i]]
                        in V[row2 := (V ! row2)[i := tmp]]) V [0..<m]
     = V[row1 := take m b @ drop m a, row2 := take m a @ drop m b]" if "m \<le> less_K p" for m
    using that
  proof (induction m)
    case 0
    then show ?case by (simp add: a_def b_def)
  next
    case (Suc m)
    have l: "length a = less_K p" "length b = less_K p" using assms by (simp_all add: a_def b_def)
    have upd: "(take m x @ drop m y)[m := x ! m] = take (Suc m) x @ drop (Suc m) y"
      if "length x = less_K p" "length y = less_K p" for x y :: bytes
      using that Suc.prems by (simp add: list_update_append take_Suc_conv_app_nth Cons_nth_drop_Suc [symmetric])
    have nth: "(take m x @ drop m y) ! m = y ! m"
      if "length x = less_K p" "length y = less_K p" for x y :: bytes
      using that Suc.prems by (simp add: nth_append)
    show ?case using Suc False assms(1,2) l
      by (simp add: Let_def nth upd list_update_swap [of row1 row2])
  qed
  from this [of "less_K p"] show ?thesis
    using False assms by (simp add: normalized_row_swap_def swap_at_def a_def b_def)
qed (simp add: normalized_row_swap_def)

section \<open>The comparisons are lexicographic orders\<close>

lemma first_difference_spec:
  assumes "i \<le> n"
  shows "i \<le> first_difference n xs ys i \<and> first_difference n xs ys i \<le> n
    \<and> (\<forall>k. i \<le> k \<longrightarrow> k < first_difference n xs ys i \<longrightarrow> xs ! k = ys ! k)
    \<and> (first_difference n xs ys i < n \<longrightarrow> xs ! first_difference n xs ys i \<noteq> ys ! first_difference n xs ys i)"
  using assms
proof (induction n xs ys i rule: first_difference.induct)
  case (1 n xs ys i)
  show ?case
  proof (cases "i < n \<and> xs ! i = ys ! i")
    case True
    then have e: "first_difference n xs ys i = first_difference n xs ys (i + 1)" by (subst first_difference.simps) simp
    have "k = i \<or> i + 1 \<le> k" if "i \<le> k" for k using that by linarith
    with 1 True show ?thesis unfolding e by (metis Suc_eq_plus1 Suc_leD Suc_leI)
  next
    case False
    then have "first_difference n xs ys i = i" by (subst first_difference.simps) auto
    with False 1(2) show ?thesis by auto
  qed
qed

lemma lex_at_difference:
  fixes us vs :: "'a::linorder list"
  assumes "length us = length vs" and "d < length us" and "\<And>k. k < d \<Longrightarrow> us ! k = vs ! k"
    and "us ! d \<noteq> vs ! d \<or> Suc d = length us"
  shows "us < vs \<longleftrightarrow> us ! d < vs ! d"
proof -
  have u: "us = take d us @ us ! d # drop (Suc d) us" and v: "vs = take d us @ vs ! d # drop (Suc d) vs"
    using assms(1-3) by (metis id_take_nth_drop, metis id_take_nth_drop nth_take_lemma order_less_imp_le)
  have app: "(xs @ ys < xs @ zs) = (ys < zs)" for xs ys zs :: "'a list" by (induction xs) auto
  have "us < vs \<longleftrightarrow> us ! d # drop (Suc d) us < vs ! d # drop (Suc d) vs"
    by (subst u, subst v) (rule app)
  then show ?thesis using assms(1,4) by auto
qed


section \<open>Quicksort by a key\<close>

definition stack_need :: "nat \<Rightarrow> nat" where
  \<comment> \<open>cells that sorting a range of \<open>n\<close> elements may push\<close>
  "stack_need n = 2 * ((n + 1) div 3)"

lemma stack_need_mono: "m \<le> n \<Longrightarrow> stack_need m \<le> stack_need n"
  by (simp add: stack_need_def div_le_mono)

lemma stack_need_step: "m + 3 \<le> n \<Longrightarrow> stack_need m + 2 \<le> stack_need n"
proof -
  assume "m + 3 \<le> n"
  then have "(m + 1 + 3) div 3 \<le> (n + 1) div 3" by (intro div_le_mono) simp
  moreover have "(m + 1 + 3) div 3 = (m + 1) div 3 + 1" by (rule div_add_self2) simp
  ultimately show ?thesis unfolding stack_need_def by linarith
qed

text \<open>
  What both quicksorts need of their partition: on valid pointers it runs the
  loop with a comparison that tells whether the key of an element is below
  that of the last one.
\<close>

locale key_partition =
  fixes part :: "u64 list \<Rightarrow> nat list \<Rightarrow> int \<Rightarrow> int \<Rightarrow> int \<times> u64 list \<times> nat list"
    and key :: "u64 \<Rightarrow> 'k::linorder" and valid :: "u64 set"
  assumes part_by_key: "set ptr \<subseteq> valid \<Longrightarrow> h < length ptr \<Longrightarrow>
    \<exists>before. part ptr P (int l) (int h) = hoare_partition before ptr P (int l) (int h) \<and>
      (\<forall>ptr' j. j < h \<longrightarrow> length ptr' = length ptr \<longrightarrow> set ptr' \<subseteq> valid \<longrightarrow> ptr' ! h = ptr ! h \<longrightarrow>
        before ptr' (int j) = (key (ptr' ! j) < key (ptr ! h)))"
begin

lemma partition_loop:
  assumes before: "\<And>ptr' j. j < length A + length S \<Longrightarrow> length ptr' = length (A @ S @ x # B) \<Longrightarrow> set ptr' \<subseteq> valid \<Longrightarrow>
        ptr' ! (length A + length S) = x \<Longrightarrow> before ptr' (int j) = (key (ptr' ! j) < key x)"
    and V: "set (A @ S @ x # B) \<subseteq> valid" and n: "n \<le> length S"
  shows "\<exists>Lo Hi. foldl (partition_step before) (int (length A) - 1, A @ S @ x # B, map unat (A @ S @ x # B))
        (map (\<lambda>k. int (length A + k)) [0..<n])
      = (int (length A + length Lo) - 1, A @ Lo @ Hi @ drop n S @ x # B, map unat (A @ Lo @ Hi @ drop n S @ x # B))
    \<and> mset (Lo @ Hi) = mset (take n S) \<and> (\<forall>y \<in> set Lo. key y < key x) \<and> (\<forall>y \<in> set Hi. \<not> key y < key x)"
  using n
proof (induction n)
  case 0
  then show ?case by (intro exI [of _ "[]"]) simp
next
  case (Suc n)
  then obtain Lo Hi where IH: "foldl (partition_step before) (int (length A) - 1, A @ S @ x # B, map unat (A @ S @ x # B))
        (map (\<lambda>k. int (length A + k)) [0..<n])
      = (int (length A + length Lo) - 1, A @ Lo @ Hi @ drop n S @ x # B, map unat (A @ Lo @ Hi @ drop n S @ x # B))"
    and m: "mset (Lo @ Hi) = mset (take n S)" and lo: "\<forall>y \<in> set Lo. key y < key x" and hi: "\<forall>y \<in> set Hi. \<not> key y < key x"
    by auto
  define y where "y = S ! n"
  have d: "drop n S = y # drop (Suc n) S" using Suc.prems by (simp add: y_def Cons_nth_drop_Suc)
  have tk: "mset (take (Suc n) S) = mset (take n S) + {#y#}" using Suc.prems by (simp add: take_Suc_conv_app_nth y_def)
  have lens: "length Lo + length Hi = n" using m Suc.prems by (metis length_append length_take mset_eq_length min.absorb2 Suc_leD)
  define cur where "cur = A @ Lo @ Hi @ drop n S @ x # B"
  have "set cur = set (A @ S @ x # B)"
    using mset_eq_setD [OF m] set_append [of "take n S" "drop n S"] by (auto simp: cur_def)
  then have vc: "set cur \<subseteq> valid" using V by simp
  have lc: "length cur = length (A @ S @ x # B)" using lens Suc.prems by (simp add: cur_def)
  have "length (A @ Lo @ Hi @ drop n S) = length A + length S" using lens Suc.prems by simp
  then have pc: "cur ! (length A + length S) = x"
    using nth_append_length [of "A @ Lo @ Hi @ drop n S" x B] by (simp add: cur_def)
  have "length (A @ Lo @ Hi) = length A + n" using lens by simp
  then have jc: "cur ! (length A + n) = y"
    using nth_append_length [of "A @ Lo @ Hi" y "drop (Suc n) S @ x # B"] by (simp add: cur_def d)
  have b: "before cur (int (length A + n)) = (key y < key x)"
    using before [OF _ lc vc pc, of "length A + n"] Suc.prems jc by simp
  have step: "foldl (partition_step before) (int (length A) - 1, A @ S @ x # B, map unat (A @ S @ x # B))
        (map (\<lambda>k. int (length A + k)) [0..<Suc n])
      = partition_step before (int (length A + length Lo) - 1, cur, map unat cur) (int (length A + n))"
    using IH by (simp add: cur_def)
  show ?case
  proof (cases "key y < key x")
    case False
    then have "partition_step before (int (length A + length Lo) - 1, cur, map unat cur) (int (length A + n))
        = (int (length A + length Lo) - 1, cur, map unat cur)" using b by (simp add: partition_step_def)
    then show ?thesis unfolding step using m lo hi False tk d
      by (intro exI [of _ Lo] exI [of _ "Hi @ [y]"]) (simp add: cur_def)
  next
    case True
    show ?thesis
    proof (cases Hi)
      case Nil
      have "partition_step before (int (length A + length Lo) - 1, cur, map unat cur) (int (length A + n))
          = (int (length A + length Lo), cur, map unat cur)" using b True lens Nil by (simp add: partition_step_def Let_def)
      then show ?thesis unfolding step using m lo True tk d Nil
        by (intro exI [of _ "Lo @ [y]"] exI [of _ "[]"]) (simp add: cur_def)
    next
      case (Cons z Hi')
      have ne: "length A + length Lo \<noteq> length A + n" using lens Cons by simp
      have sw: "swap_at (length A + length Lo) (length A + n) cur = A @ Lo @ y # Hi' @ z # drop (Suc n) S @ x # B"
      proof -
        have "length A + n = length (A @ Lo) + Suc (length Hi')" using lens Cons by simp
        from swap_at_blocks [OF _ this, of "length A + length Lo" z y "drop (Suc n) S @ x # B"]
        show ?thesis using Cons d by (simp add: cur_def)
      qed
      have "partition_step before (int (length A + length Lo) - 1, cur, map unat cur) (int (length A + n))
          = (int (length A + length Lo), swap_at (length A + length Lo) (length A + n) cur,
             swap_at (length A + length Lo) (length A + n) (map unat cur))"
        using b True lens Cons ne lc Suc.prems
        by (simp add: partition_step_def Let_def cswap_swap SWAP_swap nat_add_distrib)
      also have "swap_at (length A + length Lo) (length A + n) (map unat cur) = map unat (swap_at (length A + length Lo) (length A + n) cur)"
        using lc lens Suc.prems by (subst map_swap_at) simp_all
      finally show ?thesis unfolding step sw using m lo hi True tk Cons
        by (intro exI [of _ "Lo @ [y]"] exI [of _ "Hi' @ [z]"]) simp
    qed
  qed
qed

lemma partition_splits:
  assumes V: "set (A @ S @ x # B) \<subseteq> valid"
  shows "\<exists>Lo Hi. part (A @ S @ x # B) (map unat (A @ S @ x # B)) (int (length A)) (int (length A + length S))
      = (int (length A + length Lo), A @ Lo @ x # Hi @ B, map unat (A @ Lo @ x # Hi @ B))
    \<and> mset (Lo @ Hi) = mset S \<and> (\<forall>y \<in> set Lo. key y < key x) \<and> (\<forall>y \<in> set Hi. key x \<le> key y)"
proof -
  define ptr where "ptr = A @ S @ x # B"
  have px: "ptr ! (length A + length S) = x" by (simp add: ptr_def nth_append)
  obtain before where e: "part ptr (map unat ptr) (int (length A)) (int (length A + length S))
      = hoare_partition before ptr (map unat ptr) (int (length A)) (int (length A + length S))"
    and b: "\<And>ptr' j. j < length A + length S \<Longrightarrow> length ptr' = length ptr \<Longrightarrow> set ptr' \<subseteq> valid \<Longrightarrow>
      ptr' ! (length A + length S) = x \<Longrightarrow> before ptr' (int j) = (key (ptr' ! j) < key x)"
    using part_by_key [of ptr "length A + length S" "map unat ptr" "length A"] V px by (auto simp: ptr_def)
  obtain Lo Hi where fold: "foldl (partition_step before) (int (length A) - 1, ptr, map unat ptr)
        (map (\<lambda>k. int (length A + k)) [0..<length S])
      = (int (length A + length Lo) - 1, A @ Lo @ Hi @ x # B, map unat (A @ Lo @ Hi @ x # B))"
    and m: "mset (Lo @ Hi) = mset S" and lo: "\<forall>y \<in> set Lo. key y < key x" and hi: "\<forall>y \<in> set Hi. \<not> key y < key x"
    using partition_loop [of A S x B before "length S"] b V unfolding ptr_def by auto
  have r: "[int (length A)..int (length A + length S) - 1] = map (\<lambda>k. int (length A + k)) [0..<length S]"
  proof (rule nth_equalityI)
    fix k assume "k < length [int (length A)..int (length A + length S) - 1]"
    then show "[int (length A)..int (length A + length S) - 1] ! k = map (\<lambda>k. int (length A + k)) [0..<length S] ! k"
      by (simp add: nth_upto)
  qed simp
  have lens: "length Lo + length Hi = length S" using m by (metis length_append mset_eq_length)
  have hp: "hoare_partition before ptr (map unat ptr) (int (length A)) (int (length A + length S))
      = (if length A + length Lo \<noteq> length A + length S
         then (int (length A + length Lo), cswap (length A + length Lo) (length A + length S) (-1) (A @ Lo @ Hi @ x # B),
               SWAP (length A + length Lo) (length A + length S) (map unat (A @ Lo @ Hi @ x # B)))
         else (int (length A + length Lo), A @ Lo @ Hi @ x # B, map unat (A @ Lo @ Hi @ x # B)))"
    unfolding hoare_partition_def r fold Let_def by (simp add: nat_add_distrib)
  show ?thesis
  proof (cases Hi)
    case Nil
    then show ?thesis using e hp lens m lo
      by (intro exI [of _ Lo] exI [of _ "[]"]) (simp add: ptr_def)
  next
    case (Cons z Hi')
    have ne: "length A + length Lo \<noteq> length A + length S" using lens Cons by simp
    have sw: "swap_at (length A + length Lo) (length A + length S) (A @ Lo @ Hi @ x # B) = A @ Lo @ x # Hi' @ z # B"
    proof -
      have "length A + length S = length (A @ Lo) + Suc (length Hi')" using lens Cons by simp
      from swap_at_blocks [OF _ this, of "length A + length Lo" z x B] show ?thesis using Cons by simp
    qed
    have "SWAP (length A + length Lo) (length A + length S) (map unat (A @ Lo @ Hi @ x # B))
        = map unat (swap_at (length A + length Lo) (length A + length S) (A @ Lo @ Hi @ x # B))"
      using ne lens by (subst map_swap_at) (simp_all add: SWAP_swap)
    moreover have "cswap (length A + length Lo) (length A + length S) (-1) (A @ Lo @ Hi @ x # B)
        = swap_at (length A + length Lo) (length A + length S) (A @ Lo @ Hi @ x # B)"
      using ne lens by (simp add: cswap_swap)
    ultimately show ?thesis using e hp ne sw m lo hi Cons
      by (intro exI [of _ Lo] exI [of _ "Hi' @ [z]"]) (auto simp: ptr_def not_less)
  qed
qed


lemma quick_loop_sorts:
  assumes "set (A @ S @ B) \<subseteq> valid" and "S \<noteq> []" and "h = int (length A + length S) - 1"
  shows "\<exists>S'. mset S' = mset S \<and> sorted (map key S') \<and>
    (quick_loop cap part (h # int (length A) # s) (A @ S @ B) (map unat (A @ S @ B))
       = quick_loop cap part s (A @ S' @ B) (map unat (A @ S' @ B))
     \<or> quick_loop cap part (h # int (length A) # s) (A @ S @ B) (map unat (A @ S @ B)) = None
       \<and> cap < length s + stack_need (length S))"
  using assms
proof (induction "length S" arbitrary: A S B h s rule: less_induct)
  case less
  obtain S0 x where S: "S = S0 @ [x]" using less.prems(2) by (metis append_butlast_last_id)
  have V: "set (A @ S0 @ x # B) \<subseteq> valid" using less.prems(1) by (simp add: S)
  obtain Lo Hi where p: "part (A @ S0 @ x # B) (map unat (A @ S0 @ x # B)) (int (length A)) (int (length A + length S0))
      = (int (length A + length Lo), A @ Lo @ x # Hi @ B, map unat (A @ Lo @ x # Hi @ B))"
    and m: "mset (Lo @ Hi) = mset S0" and lo: "\<forall>y \<in> set Lo. key y < key x" and hi: "\<forall>y \<in> set Hi. key x \<le> key y"
    using partition_splits [OF V] by blast
  have lens: "length Lo + length Hi = length S0" using m by (metis length_append mset_eq_length)
  have V': "set (A @ Lo @ x # Hi @ B) \<subseteq> valid" using V mset_eq_setD [OF m] by auto
  define s1 where "s1 = (if 2 \<le> length Lo then (int (length A + length Lo) - 1) # int (length A) # s else s)"
  define s2 where "s2 = (if 2 \<le> length Hi then int (length A + length S0) # (int (length A + length Lo) + 1) # s1 else s1)"
  have gl: "int (length A + length Lo) - 1 > int (length A) \<longleftrightarrow> 2 \<le> length Lo" by linarith
  have gh: "int (length A + length Lo) + 1 < int (length A + length S0) \<longleftrightarrow> 2 \<le> length Hi" using lens by linarith
  have step: "quick_loop cap part (h # int (length A) # s) (A @ S @ B) (map unat (A @ S @ B))
      = (if 2 \<le> length Lo \<and> cap < length s + 2 \<or> 2 \<le> length Hi \<and> cap < length s1 + 2 then None
         else quick_loop cap part s2 (A @ Lo @ x # Hi @ B) (map unat (A @ Lo @ x # Hi @ B)))"
    using p gl gh less.prems(3)
    by (subst quick_loop.simps) (simp add: S push_range_def s1_def s2_def)
  have lohi: "key u \<le> key v" if "u \<in> set Lo" "v \<in> set Hi" for u v
    using that lo hi by (meson order_less_imp_le order_trans)
  have final: "mset (L' @ x # H') = mset S \<and> sorted (map key (L' @ x # H'))"
    if "mset L' = mset Lo" "mset H' = mset Hi" "sorted (map key L')" "sorted (map key H')" for L' H'
    using that m lo hi mset_eq_setD [OF that(1)] mset_eq_setD [OF that(2)] unfolding S
    by (auto simp: sorted_append order_less_imp_le lohi)
  have need2: "2 \<le> stack_need (length S)" if "2 \<le> length Lo \<or> 2 \<le> length Hi"
    using that lens by (auto simp: stack_need_def S)
  have need4: "4 \<le> stack_need (length S)" if "2 \<le> length Lo \<and> 2 \<le> length Hi"
    using that lens by (auto simp: stack_need_def S)
  have needH: "length s1 + stack_need (length Hi) \<le> length s + stack_need (length S)"
    using lens stack_need_step [of "length Hi" "length S"] stack_need_mono [of "length Hi" "length S"]
    by (auto simp: S s1_def)
  have needL: "stack_need (length Lo) \<le> stack_need (length S)"
    using lens by (intro stack_need_mono) (simp add: S)
  have right: "\<exists>H'. mset H' = mset Hi \<and> sorted (map key H') \<and>
    (quick_loop cap part s2 (A @ Lo @ x # Hi @ B) (map unat (A @ Lo @ x # Hi @ B))
       = quick_loop cap part s1 (A @ Lo @ x # H' @ B) (map unat (A @ Lo @ x # H' @ B))
     \<or> quick_loop cap part s2 (A @ Lo @ x # Hi @ B) (map unat (A @ Lo @ x # Hi @ B)) = None
       \<and> cap < length s1 + stack_need (length Hi))"
  proof (cases "2 \<le> length Hi")
    case True
    have "length Hi < length S" "set ((A @ Lo @ [x]) @ Hi @ B) \<subseteq> valid" "Hi \<noteq> []"
      "int (length A + length S0) = int (length (A @ Lo @ [x]) + length Hi) - 1"
      using V' lens True by (auto simp: S)
    from less.hyps [OF this, of s1] show ?thesis using True by (simp add: s2_def ac_simps)
  next
    case False
    then have "sorted (map key Hi)" by (cases Hi; cases "tl Hi") auto
    then show ?thesis using False by (intro exI [of _ Hi]) (simp add: s2_def)
  qed
  then obtain H' where H': "mset H' = mset Hi" "sorted (map key H')" and
    R: "quick_loop cap part s2 (A @ Lo @ x # Hi @ B) (map unat (A @ Lo @ x # Hi @ B))
       = quick_loop cap part s1 (A @ Lo @ x # H' @ B) (map unat (A @ Lo @ x # H' @ B))
     \<or> quick_loop cap part s2 (A @ Lo @ x # Hi @ B) (map unat (A @ Lo @ x # Hi @ B)) = None
       \<and> cap < length s + stack_need (length S)"
    using needH by (meson order_less_le_trans)
  have V'': "set (A @ Lo @ x # H' @ B) \<subseteq> valid" using V' mset_eq_setD [OF H'(1)] by auto
  have left: "\<exists>L'. mset L' = mset Lo \<and> sorted (map key L') \<and>
    (quick_loop cap part s1 (A @ Lo @ x # H' @ B) (map unat (A @ Lo @ x # H' @ B))
       = quick_loop cap part s (A @ L' @ x # H' @ B) (map unat (A @ L' @ x # H' @ B))
     \<or> quick_loop cap part s1 (A @ Lo @ x # H' @ B) (map unat (A @ Lo @ x # H' @ B)) = None
       \<and> cap < length s + stack_need (length Lo))"
  proof (cases "2 \<le> length Lo")
    case True
    have "length Lo < length S" "set (A @ Lo @ x # H' @ B) \<subseteq> valid" "Lo \<noteq> []"
      using V'' lens True by (auto simp: S)
    from less.hyps [OF this refl, of s] show ?thesis using True by (simp add: s1_def)
  next
    case False
    then have "sorted (map key Lo)" by (cases Lo; cases "tl Lo") auto
    then show ?thesis using False by (intro exI [of _ Lo]) (simp add: s1_def)
  qed
  then obtain L' where L': "mset L' = mset Lo" "sorted (map key L')" and
    L: "quick_loop cap part s1 (A @ Lo @ x # H' @ B) (map unat (A @ Lo @ x # H' @ B))
       = quick_loop cap part s (A @ L' @ x # H' @ B) (map unat (A @ L' @ x # H' @ B))
     \<or> quick_loop cap part s1 (A @ Lo @ x # H' @ B) (map unat (A @ Lo @ x # H' @ B)) = None
       \<and> cap < length s + stack_need (length S)"
    using needL by (meson add_left_mono order_less_le_trans)
  have over: "cap < length s + stack_need (length S)"
    if "2 \<le> length Lo \<and> cap < length s + 2 \<or> 2 \<le> length Hi \<and> cap < length s1 + 2"
    using that need2 need4 by (auto simp: s1_def split: if_splits)
  show ?case
    using final [OF L'(1) H'(1) L'(2) H'(2)] step R L over
    by (intro exI [of _ "L' @ x # H'"]) (auto split: if_splits)
qed


lemma quick_loop_all:
  assumes "0 < n" and "n < 2 ^ 64" and "set (map of_nat [0..<n]) \<subseteq> valid"
  shows "quick_loop cap part [int n - 1, 0] (map of_nat [0..<n]) [0..<n] = Some (ptr, P) \<Longrightarrow>
      mset P = mset [0..<n] \<and> sorted (map (\<lambda>i. key (of_nat i)) P)"
    and "stack_need n \<le> cap \<Longrightarrow> quick_loop cap part [int n - 1, 0] (map of_nat [0..<n]) [0..<n] \<noteq> None"
proof -
  define S :: "u64 list" where "S = map of_nat [0..<n]"
  have un: "unat (of_nat i :: u64) = i" if "i < n" for i using that assms(2) by (simp add: unat_of_nat)
  have uS: "map unat S = [0..<n]" by (rule nth_equalityI) (simp_all add: S_def un)
  obtain S' where S': "mset S' = mset S" "sorted (map key S')" and
    q: "quick_loop cap part [int n - 1, 0] S (map unat S) = quick_loop cap part [] S' (map unat S')
     \<or> quick_loop cap part [int n - 1, 0] S (map unat S) = None \<and> cap < stack_need n"
    using quick_loop_sorts [of "[]" S "[]" "int n - 1" cap "[]"] assms by (auto simp: S_def)
  have stop: "quick_loop cap part [] S' (map unat S') = Some (S', map unat S')" by (subst quick_loop.simps) simp
  have "mset (map unat S') = mset [0..<n]" using S'(1) uS by (metis mset_map)
  moreover have "map (\<lambda>i. key (of_nat i)) (map unat S') = map key S'" by simp
  ultimately show "quick_loop cap part [int n - 1, 0] (map of_nat [0..<n]) [0..<n] = Some (ptr, P) \<Longrightarrow>
      mset P = mset [0..<n] \<and> sorted (map (\<lambda>i. key (of_nat i)) P)"
    using q stop S'(2) unfolding S_def [symmetric] uS by (auto simp: comp_def)
  show "stack_need n \<le> cap \<Longrightarrow> quick_loop cap part [int n - 1, 0] (map of_nat [0..<n]) [0..<n] \<noteq> None"
    using q stop unfolding S_def [symmetric] uS by auto
qed

end

section \<open>Following the cycles of a permutation\<close>

lemma follow_cycle_induct [consumes 1, case_names stop step]:
  assumes "follow_cycle P t x = Some q" and stop: "\<And>x. \<not> x < t \<Longrightarrow> R x x"
    and step: "\<And>x q. x < t \<Longrightarrow> R (P ! x) q \<Longrightarrow> R x q"
  shows "R x q"
proof -
  define Q where "Q = (\<lambda>((P' :: nat list, t' :: nat), x') q. P' = P \<longrightarrow> t' = t \<longrightarrow> R x' q)"
  have "Q ((P, t), x) q"
  proof (rule follow_cycle.raw_induct [OF _ assms(1)])
    fix f :: "nat list \<Rightarrow> nat \<Rightarrow> nat \<Rightarrow> nat option" and P' t' x' q'
    assume IH: "\<And>P' t' x' q'. f P' t' x' = Some q' \<Longrightarrow> Q ((P', t'), x') q'"
      and e: "(if x' < t' then f P' t' (P' ! x') else Some x') = Some q'"
    show "Q ((P', t'), x') q'"
      using e IH [of P' t' "P' ! x'" q'] stop [of x'] step [of x' q'] by (auto simp: Q_def split: if_splits)
  qed
  then show ?thesis by (simp add: Q_def)
qed

lemma follow_cycle_range:
  assumes "follow_cycle P t x = Some q" and "x < length P" and "\<And>i. i < length P \<Longrightarrow> P ! i < length P"
  shows "t \<le> q \<and> q < length P"
  using assms by (induction rule: follow_cycle_induct) auto

lemma follow_cycle_next:
  assumes "follow_cycle P t x = Some q"
  shows "follow_cycle P (Suc t) x = (if q = t then follow_cycle P (Suc t) (P ! t) else Some q)"
  using assms
proof (induction rule: follow_cycle_induct)
  case (stop x)
  then show ?case by (subst follow_cycle.simps) auto
next
  case (step x q)
  then show ?case by (subst follow_cycle.simps) simp
qed

lemma apply_permutation_rows:
  assumes len: "length P = length V" "distinct P" "set P = {..<length V}"
    and rows: "\<And>r. r \<in> set V \<Longrightarrow> length r = less_K p"
  shows "apply_permutation p P (length V) V = Some (map (\<lambda>i. V ! i) P)"
proof -
  define n where "n = length V"
  have P_lt: "i < n \<Longrightarrow> P ! i < n" for i using len n_def nth_mem [of i P] by auto
  define f where "f = (\<lambda>V t. case follow_cycle P t (P ! t) of None \<Rightarrow> None | Some ind \<Rightarrow> Some (normalized_row_swap p t ind V))"
  define inv where "inv t W \<longleftrightarrow> mset W = mset V \<and> (\<forall>i<t. W ! i = V ! (P ! i)) \<and>
      (\<forall>x<n. x \<notin> set (take t P) \<longrightarrow> (\<exists>q. follow_cycle P t x = Some q \<and> W ! q = V ! x)) \<and>
      (\<forall>x<n. \<forall>y<n. x \<notin> set (take t P) \<longrightarrow> y \<notin> set (take t P) \<longrightarrow> follow_cycle P t x = follow_cycle P t y \<longrightarrow> x = y)" for t W
  have run: "\<exists>W. foldM f V [0..<t] = Some W \<and> inv t W" if "t \<le> n" for t
    using that
  proof (induction t)
    case 0
    have "follow_cycle P 0 x = Some x" for x by (subst follow_cycle.simps) simp
    then show ?case by (simp add: inv_def)
  next
    case (Suc t)
    then obtain W where W: "foldM f V [0..<t] = Some W" "inv t W" by auto
    have t: "t < n" using Suc.prems by simp
    have m: "mset W = mset V" and before: "\<And>i. i < t \<Longrightarrow> W ! i = V ! (P ! i)"
      and loc: "\<And>x. x < n \<Longrightarrow> x \<notin> set (take t P) \<Longrightarrow> \<exists>q. follow_cycle P t x = Some q \<and> W ! q = V ! x"
      and inj: "\<And>x y. x < n \<Longrightarrow> y < n \<Longrightarrow> x \<notin> set (take t P) \<Longrightarrow> y \<notin> set (take t P) \<Longrightarrow>
          follow_cycle P t x = follow_cycle P t y \<Longrightarrow> x = y"
      using W(2) unfolding inv_def by blast+
    have lW: "length W = n" using m mset_eq_length n_def by metis
    have tk: "take (Suc t) P = take t P @ [P ! t]" using t len n_def by (simp add: take_Suc_conv_app_nth)
    have "distinct (take (Suc t) P)" using len(2) by (rule distinct_take)
    then have new: "P ! t \<notin> set (take t P)" unfolding tk by simp
    obtain q0 where q0: "follow_cycle P t (P ! t) = Some q0" "W ! q0 = V ! (P ! t)"
      using loc [OF P_lt [OF t] new] by blast
    have range: "t \<le> q \<and> q < n" if "follow_cycle P t x = Some q" "x < n" for x q
      using follow_cycle_range [OF that(1)] that(2) P_lt len n_def by simp
    have q0r: "t \<le> q0" "q0 < n" using range [OF q0(1) P_lt [OF t]] by auto
    have rowsW: "length (W ! i) = less_K p" if "i < n" for i
      using rows that lW mset_eq_setD [OF m] nth_mem [of i W] by simp
    have sw: "normalized_row_swap p t q0 W = swap_at t q0 W"
      using q0r t lW rowsW by (intro row_swap_swap) auto
    define W' where "W' = swap_at t q0 W"
    have nthW': "W' ! k = (if k = t then W ! q0 else if k = q0 then W ! t else W ! k)" for k
      unfolding W'_def by (rule nth_swap_at) (use q0r t lW in auto)
    have mW': "mset W' = mset V"
      using q0r t lW m by (simp add: W'_def swap_at_def mset_swap)
    have go: "follow_cycle P (Suc t) x = (if follow_cycle P t x = Some t then Some q0 else follow_cycle P t x)"
      if xn: "x < n" and nx: "x \<notin> set (take (Suc t) P)" for x
    proof -
      have x: "x \<notin> set (take t P)" "x \<noteq> P ! t" using nx unfolding tk by auto
      obtain q where q: "follow_cycle P t x = Some q" using loc [OF xn x(1)] by blast
      show ?thesis
      proof (cases "q = t")
        case True
        have "q0 \<noteq> t"
          using inj [OF xn P_lt [OF t] x(1) new] x(2) q True q0(1) by auto
        then have "follow_cycle P (Suc t) (P ! t) = Some q0" using follow_cycle_next [OF q0(1)] by simp
        then show ?thesis using follow_cycle_next [OF q] True q by simp
      next
        case False
        then show ?thesis using follow_cycle_next [OF q] q by simp
      qed
    qed
    have ne: "follow_cycle P t x \<noteq> Some q0" if "x < n" "x \<notin> set (take (Suc t) P)" for x
      using inj [OF that(1) P_lt [OF t] _ new] that(2) q0(1) unfolding tk by auto
    have "inv (Suc t) W'"
      unfolding inv_def
    proof (intro conjI allI impI)
      show "mset W' = mset V" by (rule mW')
    next
      fix i assume "i < Suc t"
      then show "W' ! i = V ! (P ! i)" using before [of i] q0 q0r by (auto simp: nthW' less_Suc_eq)
    next
      fix x assume x: "x < n" "x \<notin> set (take (Suc t) P)"
      then have "x \<notin> set (take t P)" unfolding tk by simp
      with loc x(1) obtain q where q: "follow_cycle P t x = Some q" "W ! q = V ! x" by blast
      show "\<exists>q. follow_cycle P (Suc t) x = Some q \<and> W' ! q = V ! x"
        using go [OF x] ne [OF x] q by (auto simp: nthW')
    next
      fix x y assume x: "x < n" and y: "y < n" and nx: "x \<notin> set (take (Suc t) P)" and ny: "y \<notin> set (take (Suc t) P)"
        and eq: "follow_cycle P (Suc t) x = follow_cycle P (Suc t) y"
      have "follow_cycle P t x = follow_cycle P t y"
        using eq go [OF x nx] go [OF y ny] ne [OF x nx] ne [OF y ny] by (auto split: if_splits)
      then show "x = y" using inj [OF x y] nx ny unfolding tk by simp
    qed
    moreover have "foldM f V [0..<Suc t] = Some W'"
      using W(1) q0(1) sw by (simp add: foldM_snoc f_def W'_def)
    ultimately show ?case by blast
  qed
  obtain W where W: "foldM f V [0..<n] = Some W" "inv n W" using run by blast
  have "W = map (\<lambda>i. V ! i) P"
    using W(2) len unfolding inv_def n_def by (intro nth_equalityI) (auto dest: mset_eq_length)
  with W(1) show ?thesis by (simp add: apply_permutation_def f_def n_def)
qed


section \<open>The two sorts\<close>

definition hist_key :: "bytes \<Rightarrow> int list" where
  \<comment> \<open>increasing in this key is decreasing in the histogram\<close>
  "hist_key h = map (\<lambda>b. - uint b) (take less_Q h)"

lemma compare_rows_key:
  assumes "length a = Q_pad" and "length b = Q_pad"
  shows "compare_rows a b < 0 \<longleftrightarrow> hist_key a < hist_key b"
proof -
  define d where "d = first_difference (less_Q - 1) a b 0"
  have d: "d \<le> 126" "\<And>k. k < d \<Longrightarrow> a ! k = b ! k" "d < 126 \<Longrightarrow> a ! d \<noteq> b ! d"
    using first_difference_spec [of 0 "less_Q - 1" a b] by (auto simp: d_def less_Q_def)
  then have "d < 126 \<Longrightarrow> uint (a ! d) \<noteq> uint (b ! d)" by (simp add: word_uint_eq_iff)
  then have ne: "- uint (a ! d) \<noteq> - uint (b ! d) \<or> Suc d = 127" using d(1) by fastforce
  have "hist_key a < hist_key b \<longleftrightarrow> hist_key a ! d < hist_key b ! d"
    by (rule lex_at_difference) (use assms d(1,2) ne in \<open>auto simp: hist_key_def less_Q_def\<close>)
  moreover have "hist_key a ! d = - uint (a ! d)" "hist_key b ! d = - uint (b ! d)"
    using assms d(1) by (simp_all add: hist_key_def less_Q_def)
  ultimately show ?thesis by (simp add: compare_rows_def Let_def d_def)
qed

lemma SortCols_compare_lex:
  assumes "length a = less_K p" and "length b = less_K p"
  shows "SortCols_internal_compare p a b > 0 \<longleftrightarrow> a < b"
proof -
  define d where "d = first_difference (less_K p - 1) a b 0"
  have d: "d \<le> less_K p - 1" "\<And>k. k < d \<Longrightarrow> a ! k = b ! k" "d < less_K p - 1 \<Longrightarrow> a ! d \<noteq> b ! d"
    using first_difference_spec [of 0 "less_K p - 1" a b] by (auto simp: d_def)
  have "d < less_K p" using d(1) less_K_pos [of p] by linarith
  moreover have "a ! d \<noteq> b ! d \<or> Suc d = less_K p" using d less_K_pos [of p] by fastforce
  ultimately have "a < b \<longleftrightarrow> a ! d < b ! d"
    using assms d by (intro lex_at_difference) auto
  also have "\<dots> \<longleftrightarrow> uint (a ! d) < uint (b ! d)" by (simp add: word_less_def)
  finally show ?thesis by (simp add: SortCols_internal_compare_def Let_def d_def)
qed

interpretation sort_rows: key_partition "SortRows_internal_hoare_partition rows" "\<lambda>a. hist_key (row_at rows a)"
  "{a. unat a < length rows \<and> length (row_at rows a) = Q_pad}" for rows
proof
  fix ptr :: "u64 list" and h P l
  assume V: "set ptr \<subseteq> {a. unat a < length rows \<and> length (row_at rows a) = Q_pad}" and h: "h < length ptr"
  show "\<exists>before. SortRows_internal_hoare_partition rows ptr P (int l) (int h) = hoare_partition before ptr P (int l) (int h) \<and>
      (\<forall>ptr' j. j < h \<longrightarrow> length ptr' = length ptr \<longrightarrow> set ptr' \<subseteq> {a. unat a < length rows \<and> length (row_at rows a) = Q_pad} \<longrightarrow>
        ptr' ! h = ptr ! h \<longrightarrow> before ptr' (int j) = (hist_key (row_at rows (ptr' ! j)) < hist_key (row_at rows (ptr ! h))))"
    unfolding SortRows_internal_hoare_partition_def
  proof (rule exI [of _ "\<lambda>ptr j. compare_rows (row_at rows (ptr ! nat j)) (row_at rows (ptr ! nat (int h))) < 0"],
      rule conjI [OF refl], intro allI impI)
    fix ptr' :: "u64 list" and j
    assume j: "j < h" "length ptr' = length ptr" "set ptr' \<subseteq> {a. unat a < length rows \<and> length (row_at rows a) = Q_pad}"
      and e: "ptr' ! h = ptr ! h"
    have "ptr' ! j \<in> set ptr'" "ptr' ! h \<in> set ptr'" using j h by simp_all
    then show "(compare_rows (row_at rows (ptr' ! nat (int j))) (row_at rows (ptr' ! nat (int h))) < 0)
        = (hist_key (row_at rows (ptr' ! j)) < hist_key (row_at rows (ptr ! h)))"
      using j(3) e by (subst compare_rows_key) auto
  qed
qed

interpretation sort_cols: key_partition "SortCols_internal_hoare_partition p rows" "\<lambda>a. row_at rows a"
  "{a. unat a < length rows \<and> length (row_at rows a) = less_K p}" for p rows
proof
  fix ptr :: "u64 list" and h P l
  assume V: "set ptr \<subseteq> {a. unat a < length rows \<and> length (row_at rows a) = less_K p}" and h: "h < length ptr"
  define pv where "pv = map (\<lambda>i. row_at rows (ptr ! nat (int h)) ! i) [0..<less_N p - less_K p]"
  have "ptr ! h \<in> set ptr" using h by simp
  then have pv: "pv = row_at rows (ptr ! h)" "length pv = less_K p"
    using V by (auto simp: pv_def map_nth intro!: nth_equalityI)
  show "\<exists>before. SortCols_internal_hoare_partition p rows ptr P (int l) (int h) = hoare_partition before ptr P (int l) (int h) \<and>
      (\<forall>ptr' j. j < h \<longrightarrow> length ptr' = length ptr \<longrightarrow> set ptr' \<subseteq> {a. unat a < length rows \<and> length (row_at rows a) = less_K p} \<longrightarrow>
        ptr' ! h = ptr ! h \<longrightarrow> before ptr' (int j) = (row_at rows (ptr' ! j) < row_at rows (ptr ! h)))"
    unfolding SortCols_internal_hoare_partition_def Let_def pv_def [symmetric]
  proof (rule exI [of _ "\<lambda>ptr j. SortCols_internal_compare p (row_at rows (ptr ! nat j)) pv > 0"],
      rule conjI [OF refl], intro allI impI)
    fix ptr' :: "u64 list" and j
    assume j: "j < h" "length ptr' = length ptr" "set ptr' \<subseteq> {a. unat a < length rows \<and> length (row_at rows a) = less_K p}"
    have "ptr' ! j \<in> set ptr'" using j h by simp
    then show "(SortCols_internal_compare p (row_at rows (ptr' ! nat (int j))) pv > 0)
        = (row_at rows (ptr' ! j) < row_at rows (ptr ! h))"
      using j(3) pv by (subst SortCols_compare_lex) auto
  qed
qed

definition row_hist :: "less_params \<Rightarrow> bytes \<Rightarrow> bytes" where
  "row_hist p r = sort_histogram r (less_K p)"

definition row_key :: "less_params \<Rightarrow> bytes \<Rightarrow> int list" where
  "row_key p r = hist_key (row_hist p r)"

lemma length_histogram [simp]: "length (sort_histogram inp len) = Q_pad"
proof -
  have "length (foldl (\<lambda>out i. out[unat (inp ! i) := out ! unat (inp ! i) + 1]) out xs) = length out" for out :: bytes and xs
    by (induction xs arbitrary: out) simp_all
  then show ?thesis by (simp add: sort_histogram_def)
qed

lemma less_K_64: "less_K p < 2 ^ 64"
  using less_K_bounds(2) [of p] by (rule order_le_less_trans) simp

lemma perm_facts: "mset P = mset [0..<n] \<Longrightarrow> length P = n \<and> distinct P \<and> set P = {..<n}"
  by (metis distinct_upt length_upt lessThan_atLeast0 mset_eq_imp_distinct_iff mset_eq_length mset_eq_setD set_upt diff_zero)

lemma permuted_mset: "mset P = mset [0..<length V] \<Longrightarrow> mset (map (\<lambda>i. V ! i) P) = mset V"
  by (metis map_nth mset_map)

lemma max_zeros_fold:
  "foldl (\<lambda>m i. if f i > m then f i else m) a [0..<n] < (b :: nat) \<longleftrightarrow> a < b \<and> (\<forall>i<n. f i < b)"
  by (induction n) (auto simp: less_Suc_eq)

lemma SortRows_cases:
  assumes G: "length G = less_K p" "\<And>r. r \<in> set G \<Longrightarrow> length r = less_K p"
  shows "(if 0 < unat (L ! 0) \<and> (\<forall>r \<in> set G. unat (row_hist p r ! 0) < unat (L ! 0))
      then SortRows p G (less_K p) (Some L) = Some (False, G)
      else (\<forall>res. SortRows p G (less_K p) (Some L) = Some res \<longrightarrow>
              fst res \<and> mset (snd res) = mset G \<and> sorted (map (row_key p) (snd res)))
         \<and> (stack_need (less_K p) \<le> 128 \<longrightarrow> SortRows p G (less_K p) (Some L) \<noteq> None))"
proof -
  define n where "n = less_K p"
  define tmp where "tmp = map (\<lambda>i. sort_histogram (G ! i) (less_N p - less_K p)) [0..<n]"
  have tmp: "length tmp = n" "\<And>i. i < n \<Longrightarrow> tmp ! i = row_hist p (G ! i)"
    by (simp_all add: tmp_def row_hist_def)
  have "foldl (\<lambda>m i. if unat (tmp ! i ! 0) > m then unat (tmp ! i ! 0) else m) 0 [0..<n] < unat (L ! 0)
      \<longleftrightarrow> 0 < unat (L ! 0) \<and> (\<forall>i<n. unat (tmp ! i ! 0) < unat (L ! 0))"
    using max_zeros_fold [of "\<lambda>i. unat (tmp ! i ! 0)" 0 n "unat (L ! 0)"] by simp
  also have "(\<forall>i<n. unat (tmp ! i ! 0) < unat (L ! 0)) \<longleftrightarrow> (\<forall>r \<in> set G. unat (row_hist p r ! 0) < unat (L ! 0))"
    using G(1) tmp(2) by (auto simp: set_conv_nth n_def)
  finally have mz: "foldl (\<lambda>m i. if unat (tmp ! i ! 0) > m then unat (tmp ! i ! 0) else m) 0 [0..<n] < unat (L ! 0)
      \<longleftrightarrow> 0 < unat (L ! 0) \<and> (\<forall>r \<in> set G. unat (row_hist p r ! 0) < unat (L ! 0))" .
  have e: "SortRows p G n (Some L) =
      (if 0 < unat (L ! 0) \<and> (\<forall>r \<in> set G. unat (row_hist p r ! 0) < unat (L ! 0)) then Some (False, G)
       else case quick_loop 128 (SortRows_internal_hoare_partition tmp) [int n - 1, 0] (map of_nat [0..<n]) [0..<n] of
           None \<Rightarrow> None
         | Some (ptr, P) \<Rightarrow> (case apply_permutation p P n G of None \<Rightarrow> None | Some G \<Rightarrow> Some (True, G)))"
    unfolding SortRows_def Let_def tmp_def [symmetric] SortRows_internal_def by (simp add: mz)
  have n0: "0 < n" "n < 2 ^ 64" using less_K_64 [of p] by (simp_all add: n_def)
  have un: "unat (of_nat i :: u64) = i" if "i < n" for i using that n0(2) by (simp add: unat_of_nat)
  have valid: "set (map of_nat [0..<n]) \<subseteq> {a. unat a < length tmp \<and> length (row_at tmp a) = Q_pad}"
    using tmp by (auto simp: un row_at_def row_hist_def)
  note Q = sort_rows.quick_loop_all [OF n0 valid, of 128]
  have good: "\<exists>G'. apply_permutation p P n G = Some G' \<and> mset G' = mset G \<and> sorted (map (row_key p) G')"
    if q: "quick_loop 128 (SortRows_internal_hoare_partition tmp) [int n - 1, 0] (map of_nat [0..<n]) [0..<n] = Some (ptr, P)" for ptr P
  proof -
    have P: "mset P = mset [0..<n]" "sorted (map (\<lambda>i. hist_key (row_at tmp (of_nat i))) P)" using Q(1) [OF q] by auto
    have nG: "length G = n" using G(1) by (simp add: n_def)
    have "\<And>i. i \<in> set P \<Longrightarrow> hist_key (row_at tmp (of_nat i)) = row_key p (G ! i)"
      using perm_facts [OF P(1)] tmp(2) by (simp add: row_at_def un row_key_def)
    then have "map (\<lambda>i. hist_key (row_at tmp (of_nat i))) P = map (row_key p) (map (\<lambda>i. G ! i) P)" by simp
    with P(2) have s: "sorted (map (row_key p) (map (\<lambda>i. G ! i) P))" by simp
    have "apply_permutation p P n G = Some (map (\<lambda>i. G ! i) P)"
      using apply_permutation_rows [of P G p] perm_facts [OF P(1)] G nG by simp
    then show ?thesis using s permuted_mset [of P G] P(1) nG by simp
  qed
  show ?thesis unfolding n_def [symmetric] e
    using good Q(2) by (fastforce split: option.splits)
qed


lemma SortCols_cases:
  assumes V: "length V = less_K p" "\<And>r. r \<in> set V \<Longrightarrow> length r = less_K p"
    and VT: "length VT = less_K p * less_K p"
  shows "SortCols p VT V (less_K p) = Some V' \<Longrightarrow>
      V' = transposed (less_K p) (sort (transposed (less_K p) V))"
    and "stack_need (less_K p) \<le> 64 \<Longrightarrow> SortCols p VT V (less_K p) \<noteq> None"
proof -
  define n where "n = less_K p"
  define T where "T = transposed n V"
  have lenT: "length T = n" "\<And>r. r \<in> set T \<Longrightarrow> length r = n" by (simp_all add: T_def length_transposed_row)
  have chunks_n: "chunks n n (concat W) = W" if "length W = n" "\<And>r. r \<in> set W \<Longrightarrow> length r = n" for W :: "bytes list"
    using chunks_concat [of W n "[]"] that by simp
  have n0: "0 < n" "n < 2 ^ 64" using less_K_64 [of p] by (simp_all add: n_def)
  have un: "unat (of_nat i :: u64) = i" if "i < n" for i using that n0(2) by (simp add: unat_of_nat)
  have nn: "less_N p - n = n" by (simp add: n_def)
  have T1: "chunks n n (matrix_transpose_opt p VT (concat V) n n) = T"
    using transpose_opt_transposed [OF V VT] chunks_n [OF lenT] by (simp add: n_def T_def)
  have e: "SortCols p VT V n =
      (case quick_loop 64 (SortCols_internal_hoare_partition p T) [int n - 1, 0] (map of_nat [0..<n]) [0..<n] of
           None \<Rightarrow> None
         | Some (ptr, P) \<Rightarrow> (case apply_permutation p P n T of None \<Rightarrow> None
            | Some VT \<Rightarrow> Some (chunks n n (matrix_transpose_opt p (concat V) (concat VT) n n))))"
    unfolding SortCols_def Let_def SortCols_internal_def n_def [symmetric] nn T1 by simp
  have valid: "set (map of_nat [0..<n]) \<subseteq> {a. unat a < length T \<and> length (row_at T a) = less_K p}"
    using lenT by (auto simp: un row_at_def n_def)
  note Q = sort_cols.quick_loop_all [OF n0 valid, of 64]
  have good: "apply_permutation p P n T = Some (sort T)"
    if q: "quick_loop 64 (SortCols_internal_hoare_partition p T) [int n - 1, 0] (map of_nat [0..<n]) [0..<n] = Some (ptr, P)" for ptr P
  proof -
    have P: "mset P = mset [0..<n]" "sorted (map (\<lambda>i. row_at T (of_nat i)) P)" using Q(1) [OF q] by auto
    have "\<And>i. i \<in> set P \<Longrightarrow> row_at T (of_nat i) = T ! i"
      using perm_facts [OF P(1)] by (simp add: row_at_def un)
    then have "map (\<lambda>i. row_at T (of_nat i)) P = map (\<lambda>i. T ! i) P" by simp
    with P(2) have s: "sorted (map (\<lambda>i. T ! i) P)" by simp
    have "apply_permutation p P n T = Some (map (\<lambda>i. T ! i) P)"
      using apply_permutation_rows [of P T p] perm_facts [OF P(1)] lenT by (simp add: n_def)
    moreover have "sort T = map (\<lambda>i. T ! i) P"
      using properties_for_sort [OF permuted_mset s] P(1) lenT by simp
    ultimately show ?thesis by simp
  qed
  have "chunks n n (matrix_transpose_opt p (concat V) (concat (sort T)) n n) = transposed n (sort T)"
  proof -
    have "length (concat V) = n * n" using length_concat_const [of V id n] V by (simp add: n_def)
    moreover have "length (sort T) = n" "\<And>r. r \<in> set (sort T) \<Longrightarrow> length r = n" using lenT by simp_all
    ultimately have "matrix_transpose_opt p (concat V) (concat (sort T)) n n = concat (transposed n (sort T))"
      unfolding n_def by (intro transpose_opt_transposed) simp_all
    then show ?thesis using chunks_n [of "transposed n (sort T)"] by (simp add: length_transposed_row)
  qed
  then show "SortCols p VT V (less_K p) = Some V' \<Longrightarrow> V' = transposed (less_K p) (sort (transposed (less_K p) V))"
    and "stack_need (less_K p) \<le> 64 \<Longrightarrow> SortCols p VT V (less_K p) \<noteq> None"
    unfolding n_def [symmetric] e T_def [symmetric] using good Q(2) by (fastforce split: option.splits)+
qed

lemma histogram_counts:
  assumes "\<And>x. x \<in> set inp \<Longrightarrow> unat x < 128" and "v < 128" and "len \<le> length inp"
  shows "sort_histogram inp len ! v = of_nat (card {i. i < len \<and> unat (inp ! i) = v})"
  using assms(3)
proof (induction len)
  case 0
  then show ?case using assms(2) by (simp add: sort_histogram_def)
next
  case (Suc len)
  have l: "unat (inp ! len) < 128" using assms(1) Suc.prems by simp
  have "{i. i < Suc len \<and> unat (inp ! i) = v} =
      (if unat (inp ! len) = v then insert len {i. i < len \<and> unat (inp ! i) = v} else {i. i < len \<and> unat (inp ! i) = v})"
    by (auto simp: less_Suc_eq)
  moreover have "sort_histogram inp (Suc len) = (sort_histogram inp len)[unat (inp ! len) := sort_histogram inp len ! unat (inp ! len) + 1]"
    by (simp add: sort_histogram_def)
  ultimately show ?case using Suc l assms(2) by (simp add: nth_list_update)
qed

lemma row_hist_mset:
  assumes "mset r = mset s" and "length r = less_K p"
  shows "row_hist p r = row_hist p s"
proof -
  have h: "foldl (\<lambda>out i. out[unat (inp ! i) := out ! unat (inp ! i) + 1]) out [0..<length inp]
      = fold (\<lambda>x out. out[unat x := out ! unat x + 1]) inp out" for inp out :: bytes
  proof -
    have "fold (\<lambda>x out. out[unat x := out ! unat x + 1]) inp out
        = fold (\<lambda>x out. out[unat x := out ! unat x + 1]) (map (\<lambda>i. inp ! i) [0..<length inp]) out" by (simp add: map_nth)
    then show ?thesis by (simp add: foldl_conv_fold fold_map comp_def)
  qed
  have "fold (\<lambda>x out. out[unat x := out ! unat x + 1]) r (out :: bytes) = fold (\<lambda>x out. out[unat x := out ! unat x + 1]) s out" for out
  proof -
    have "xs[unat y := xs ! unat y + 1, unat x := xs[unat y := xs ! unat y + 1] ! unat x + 1]
        = xs[unat x := xs ! unat x + 1, unat y := xs[unat x := xs ! unat x + 1] ! unat y + 1]" for xs :: bytes and x y :: byte
      by (cases "unat x = unat y") (simp_all add: list_update_swap)
    then show ?thesis by (intro fold_multiset_equiv [THEN fun_cong]) (use assms in \<open>auto simp: fun_eq_iff\<close>)
  qed
  then show ?thesis using h [of r] h [of s] mset_eq_length [OF assms(1)] assms(2)
    by (simp add: row_hist_def sort_histogram_def)
qed

end
