(* ===== verification/Less_Canonical.thy ===== *)
theory Less_Canonical
  imports Less_Sort
begin

text \<open>
  The canonical form of a matrix under monomial transformations of its rows and
  columns, \<^verbatim>\<open>less/Reference_Implementation/lib/canonical.c\<close>: every row without a
  zero is scaled to ones by scaling the columns, every row is then scaled by the
  inverse of its sum (or by the sum of its inverses), rows and columns are sorted,
  and the least matrix obtained is kept. \<open>CF\<close> filters the candidates by the rows
  with the most zeros. \<open>None\<close> is a run that dereferences the null pointer or
  leaves the stack of a sort; the flag of a result is the returned 0 or 1, beside
  the contents of \<open>G\<close>. \<open>VT\<close> is the content of the uninitialised matrix of
  \<open>SortCols\<close>.
\<close>

section \<open>The code\<close>

definition compute_canonical_form_type3 ::
    "less_params \<Rightarrow> bytes \<Rightarrow> bytes list \<Rightarrow> bytes option \<Rightarrow> (bool \<times> bytes list) option" where
  "compute_canonical_form_type3 p VT G L =
     (case SortRows p G (less_K p) L of
        None \<Rightarrow> None
      | Some (ret, G) \<Rightarrow>
          if \<not> ret then Some (False, G)
          else (case SortCols p VT G (less_K p) of None \<Rightarrow> None | Some G \<Rightarrow> Some (True, G)))"

fun scale_rows :: "less_params \<Rightarrow> nat list \<Rightarrow> bytes list \<Rightarrow> bool \<times> bytes list" where
  \<comment> \<open>the loop over the rows; \<open>False\<close> is \<open>return 0\<close>\<close>
  "scale_rows p [] G = (True, G)"
| "scale_rows p (row # rows) G =
     (if row_all_same p (G ! row) then scale_rows p rows G
      else let s = row_acc p (G ! row)
           in if s \<noteq> 0 then scale_rows p rows (G[row := row_mul p (G ! row) (fq_inv s)])
              else let s = row_acc_inv p (G ! row)
                   in if s = 0 then (False, G)
                      else scale_rows p rows (G[row := row_mul p (G ! row) s]))"

definition compute_canonical_form_type4 ::
    "less_params \<Rightarrow> bytes \<Rightarrow> bytes list \<Rightarrow> bytes option \<Rightarrow> (bool \<times> bytes list) option" where
  "compute_canonical_form_type4 p VT G L =
     (let (ret, G) = scale_rows p [0..<less_K p] G
      in if \<not> ret then Some (False, G) else compute_canonical_form_type3 p VT G L)"

fun compute_canonical_form_type4_sub :: "less_params \<Rightarrow> bytes list \<Rightarrow> bytes \<Rightarrow> bool" where
  \<comment> \<open>the first argument list holds the \<open>z\<close> rows of the sub-matrix still to be examined\<close>
  "compute_canonical_form_type4_sub p [] M = False"
| "compute_canonical_form_type4_sub p (row # rows) M =
     (let s = row_acc p row;
          s = (if s \<noteq> 0 then fq_inv s else row_acc_inv p row)
      in if s = 0 then False
         else let row = row_mul p row s;
                  tmp = sort_histogram row (less_N p - less_K p)
              in if compare_rows tmp M < 0 then True
                 else compute_canonical_form_type4_sub p rows M)"

fun compare_matrices_rows :: "less_params \<Rightarrow> bytes list \<Rightarrow> bytes list \<Rightarrow> nat list \<Rightarrow> int" where
  "compare_matrices_rows p V1 V2 [] = 0"
| "compare_matrices_rows p V1 V2 (row # rows) =
     (let i = first_difference (less_N p - less_K p) (V1 ! row) (V2 ! row) 0
      in if i \<ge> less_K p then compare_matrices_rows p V1 V2 rows
         else uint (V1 ! row ! i) - uint (V2 ! row ! i))"

definition compare_matrices :: "less_params \<Rightarrow> bytes list \<Rightarrow> bytes list \<Rightarrow> nat \<Rightarrow> int" where
  "compare_matrices p V1 V2 z = compare_matrices_rows p V1 V2 [0..<z]"

definition invalid_matrix :: "less_params \<Rightarrow> bytes list" where
  \<comment> \<open>\<open>memset(&M, Q-1, sizeof(normalized_IS_t))\<close>\<close>
  "invalid_matrix p = replicate (less_K p) (replicate (less_N p - less_K p) 126)"

definition compute_canonical_form_type5 :: "less_params \<Rightarrow> bytes \<Rightarrow> bytes list \<Rightarrow> (bool \<times> bytes list) option" where
  "compute_canonical_form_type5 p VT G =
     (case foldM (\<lambda>(touched, M) row.
         if row_contains_zero p (G ! row) then Some (touched, M)
         else let row_inv_data = row_inv2 p (G ! row);
                  A = map (\<lambda>row2. row_mul3 p (G ! row2) row_inv_data) [0..<less_K p]
              in case compute_canonical_form_type4 p VT A None of
                   None \<Rightarrow> None
                 | Some (ret, A) \<Rightarrow>
                     if ret \<and> compare_matrices p A M (less_K p) < 0 then Some (True, A) else Some (touched, M))
       (False, invalid_matrix p) [0..<less_K p] of
        None \<Rightarrow> None
      | Some (touched, M) \<Rightarrow> if \<not> touched then Some (False, G) else Some (True, M))"

definition count_zeros :: "less_params \<Rightarrow> bytes list \<Rightarrow> nat \<times> nat list \<times> bool list" where
  \<comment> \<open>\<open>max_zeros\<close>, the first \<open>z\<close> entries of \<open>J\<close>, and \<open>Z\<close>\<close>
  "count_zeros p G =
     foldl (\<lambda>(max_zeros, J, Z) row.
         let num_zeros = row_count_zero p (G ! row);
             Z = (if num_zeros > 0 then Z[row := True] else Z)
         in if num_zeros > max_zeros then (num_zeros, [row], Z)
            else if num_zeros = max_zeros then (max_zeros, J @ [row], Z)
            else (max_zeros, J, Z))
       (0, [], replicate (less_K p) False) [0..<less_K p]"

definition popcnt_step :: "less_params \<Rightarrow> bytes \<Rightarrow> bytes list \<Rightarrow> nat list \<Rightarrow> bool list
    \<Rightarrow> bool \<times> bytes \<times> bytes list \<Rightarrow> nat \<Rightarrow> (bool \<times> bytes \<times> bytes list) option" where
  \<comment> \<open>one pass of the loop over the rows: \<open>touched\<close>, \<open>L\<close>, \<open>M\<close>; only the first \<open>z\<close> rows of \<open>B\<close> are read by the filter\<close>
  "popcnt_step p VT G J Z = (\<lambda>(touched, L, M) row.
     (if Z ! row then Some (touched, L, M)
      else let row_inv_data = row_inv2 p (G ! row);
               B = map (\<lambda>row2. row_mul3 p (G ! (J ! row2)) row_inv_data) [0..<length J]
           in if compute_canonical_form_type4_sub p B L
              then let B = map (\<lambda>row2. row_mul3 p (G ! row2) row_inv_data) [0..<less_K p]
                   in case compute_canonical_form_type4 p VT B (Some L) of
                        None \<Rightarrow> None
                      | Some (ret, B) \<Rightarrow>
                          if ret \<and> compare_matrices p B M (less_K p) < 0
                          then Some (True, sort_histogram (B ! 0) (less_N p - less_K p), B)
                          else Some (touched, L, M)
              else Some (touched, L, M)))"

definition compute_canonical_form_type5_popcnt ::
    "less_params \<Rightarrow> bytes \<Rightarrow> bytes list \<Rightarrow> (bool \<times> bytes list) option" where
  "compute_canonical_form_type5_popcnt p VT G =
     (let (max_zeros, J, Z) = count_zeros p G
      in if length J = less_N p - less_K p then compute_canonical_form_type5 p VT G
         else case foldM (popcnt_step p VT G J Z) (False, replicate Q_pad 0, invalid_matrix p) [0..<less_K p] of
                None \<Rightarrow> None
              | Some (touched, L, M) \<Rightarrow> Some (touched, M))"

definition CF :: "less_params \<Rightarrow> bytes \<Rightarrow> bytes list \<Rightarrow> (bool \<times> bytes list) option" where
  "CF p VT G = compute_canonical_form_type5_popcnt p VT G"

section \<open>Matrices\<close>

definition code_ok :: "less_params \<Rightarrow> bytes list \<Rightarrow> bool" where
  "code_ok p G \<longleftrightarrow> length G = less_K p \<and> (\<forall>r \<in> set G. row_ok p r)"

lemma code_ok_row: "code_ok p G \<Longrightarrow> i < less_K p \<Longrightarrow> row_ok p (G ! i)"
  by (simp add: code_ok_def)

lemma code_okI: "length G = less_K p \<Longrightarrow> (\<And>i. i < less_K p \<Longrightarrow> row_ok p (G ! i)) \<Longrightarrow> code_ok p G"
  by (auto simp: code_ok_def in_set_conv_nth)

lemma code_ok_lengths: "code_ok p G \<Longrightarrow> length G = less_K p" "code_ok p G \<Longrightarrow> r \<in> set G \<Longrightarrow> length r = less_K p"
  by (simp_all add: code_ok_def row_ok_def)

section \<open>Counting zeros\<close>

definition zeros :: "less_params \<Rightarrow> bytes list \<Rightarrow> nat \<Rightarrow> nat" where
  "zeros p G i = row_count_zero p (G ! i)"

definition most_zeros :: "less_params \<Rightarrow> bytes list \<Rightarrow> nat" where
  "most_zeros p G = Max (zeros p G ` {..<less_K p})"

lemma count_zeros_eq:
  "count_zeros p G = (most_zeros p G, filter (\<lambda>i. zeros p G i = most_zeros p G) [0..<less_K p],
     map (\<lambda>i. zeros p G i > 0) [0..<less_K p])"
proof -
  define n where "n = less_K p"
  define m where "m k = Max (insert 0 (zeros p G ` {..<k}))" for k
  have m0: "m 0 = 0" by (simp add: m_def)
  have mS: "m (Suc k) = max (zeros p G k) (m k)" for k
    by (simp add: m_def lessThan_Suc insert_commute [of 0])
  have le: "zeros p G i \<le> m k" if "i < k" for i k using that by (simp add: m_def)
  define f where "f = (\<lambda>(max_zeros, J, Z) row.
         let num_zeros = row_count_zero p (G ! row);
             Z = (if num_zeros > 0 then Z[row := True] else Z)
         in if num_zeros > max_zeros then (num_zeros, [row], Z)
            else if num_zeros = max_zeros then (max_zeros, J @ [row], Z)
            else (max_zeros, J, Z))"
  have f: "f (mz, J, Z) row = (let Z = (if zeros p G row > 0 then Z[row := True] else Z)
         in if zeros p G row > mz then (zeros p G row, [row], Z)
            else if zeros p G row = mz then (mz, J @ [row], Z) else (mz, J, Z))" for mz J Z row
    by (simp add: f_def zeros_def Let_def)
  have "foldl f (0, [], replicate n False) [0..<k]
      = (m k, filter (\<lambda>i. zeros p G i = m k) [0..<k], map (\<lambda>i. i < k \<and> zeros p G i > 0) [0..<n])"
    if "k \<le> n" for k
    using that
  proof (induction k)
    case 0
    then show ?case by (simp add: m0 map_replicate_const)
  next
    case (Suc k)
    have Z: "(if zeros p G k > 0 then (map (\<lambda>i. i < k \<and> zeros p G i > 0) [0..<n])[k := True]
        else map (\<lambda>i. i < k \<and> zeros p G i > 0) [0..<n]) = map (\<lambda>i. i < Suc k \<and> zeros p G i > 0) [0..<n]"
      using Suc.prems by (intro nth_equalityI) (auto simp: nth_list_update less_Suc_eq)
    have none: "filter (\<lambda>i. zeros p G i = zeros p G k) [0..<k] = []" if "m k < zeros p G k"
      using le [of _ k] that by (fastforce simp: filter_empty_conv)
    have "foldl f (0, [], replicate n False) [0..<Suc k]
        = f (m k, filter (\<lambda>i. zeros p G i = m k) [0..<k], map (\<lambda>i. i < k \<and> zeros p G i > 0) [0..<n]) k"
      using Suc by simp
    then show ?case unfolding f Let_def Z using none by (simp add: mS max_def)
  qed
  from this [of n] have "count_zeros p G = (m n, filter (\<lambda>i. zeros p G i = m n) [0..<n], map (\<lambda>i. i < n \<and> zeros p G i > 0) [0..<n])"
    by (simp add: count_zeros_def n_def f_def)
  moreover have "m n = most_zeros p G"
  proof -
    have "zeros p G 0 \<in> zeros p G ` {..<n}" by (simp add: n_def)
    then have "Max (insert 0 (zeros p G ` {..<n})) = Max (zeros p G ` {..<n})"
      by (subst Max_insert) (auto simp: n_def lessThan_empty_iff)
    then show ?thesis by (simp add: m_def most_zeros_def n_def)
  qed
  moreover have "map (\<lambda>i. i < n \<and> zeros p G i > 0) [0..<n] = map (\<lambda>i. zeros p G i > 0) [0..<n]" by simp
  ultimately show ?thesis by (simp add: n_def)
qed


section \<open>Scaling the rows\<close>

definition scaling :: "less_params \<Rightarrow> bytes \<Rightarrow> byte option" where
  \<comment> \<open>the factor a row is multiplied with, if there is one\<close>
  "scaling p r =
     (if row_all_same p r then Some 1
      else if row_acc p r \<noteq> 0 then Some (fq_inv (row_acc p r))
      else if row_acc_inv p r \<noteq> 0 then Some (row_acc_inv p r) else None)"

definition scaled_row :: "less_params \<Rightarrow> bytes \<Rightarrow> bytes" where
  "scaled_row p r = (if row_all_same p r then r else row_mul p r (the (scaling p r)))"

lemma scale_rows_spec:
  assumes "distinct rows" and "\<And>i. i \<in> set rows \<Longrightarrow> i < length G"
  shows "fst (scale_rows p rows G) \<longleftrightarrow> (\<forall>i \<in> set rows. scaling p (G ! i) \<noteq> None)"
    and "fst (scale_rows p rows G) \<Longrightarrow>
      snd (scale_rows p rows G) = map (\<lambda>i. if i \<in> set rows then scaled_row p (G ! i) else G ! i) [0..<length G]"
proof -
  have "(fst (scale_rows p rows G) \<longleftrightarrow> (\<forall>i \<in> set rows. scaling p (G ! i) \<noteq> None)) \<and>
    (fst (scale_rows p rows G) \<longrightarrow>
      snd (scale_rows p rows G) = map (\<lambda>i. if i \<in> set rows then scaled_row p (G ! i) else G ! i) [0..<length G])"
    using assms
  proof (induction rows arbitrary: G)
    case Nil
    then show ?case by (simp add: map_nth)
  next
    case (Cons row rows)
    have row: "row < length G" "row \<notin> set rows" using Cons.prems by auto
    show ?case
    proof (cases "scaling p (G ! row)")
      case None
      then show ?thesis by (simp add: scaling_def Let_def split: if_splits)
    next
      case (Some s)
      define G' where "G' = G[row := scaled_row p (G ! row)]"
      have e: "scale_rows p (row # rows) G = scale_rows p rows G'"
        using Some row(1) by (auto simp: scaling_def scaled_row_def G'_def Let_def split: if_splits)
      have G'_nth: "i \<in> set rows \<Longrightarrow> G' ! i = G ! i" for i
        unfolding G'_def by (rule nth_list_update_neq) (use row in auto)
      have "map (\<lambda>i. if i \<in> set rows then scaled_row p (G' ! i) else G' ! i) [0..<length G']
          = map (\<lambda>i. if i \<in> set (row # rows) then scaled_row p (G ! i) else G ! i) [0..<length G]"
        using row by (intro nth_equalityI) (auto simp: G'_def nth_list_update)
      then show ?thesis unfolding e using Cons.IH [of G'] Cons.prems G'_nth Some by (auto simp: G'_def)
    qed
  qed
  then show "fst (scale_rows p rows G) \<longleftrightarrow> (\<forall>i \<in> set rows. scaling p (G ! i) \<noteq> None)"
    and "fst (scale_rows p rows G) \<Longrightarrow>
      snd (scale_rows p rows G) = map (\<lambda>i. if i \<in> set rows then scaled_row p (G ! i) else G ! i) [0..<length G]"
    by auto
qed

lemma scaling_nonzero: "row_ok p r \<Longrightarrow> scaling p r = Some s \<Longrightarrow> reduced s \<and> s \<noteq> 0"
proof -
  assume r: "row_ok p r" and s: "scaling p r = Some s"
  have "fq_inv x \<noteq> 0" if "reduced x" "x \<noteq> 0" for x
    using fq_inv_gf [OF that(1)] that gf_eq_0 [of x] gf_eq_0 [of "fq_inv x"] by force
  then show ?thesis using s gf_row_acc [OF r] gf_row_acc_inv [OF r] fq_inv_gf
    by (auto simp: scaling_def split: if_splits)
qed

lemma scaled_row_ok: "row_ok p r \<Longrightarrow> scaling p r \<noteq> None \<Longrightarrow> row_ok p (scaled_row p r)"
  using scaling_nonzero [of p r] row_mul_ok [of p r] by (auto simp: scaled_row_def)

lemma scaled_row_zero_iff:
  assumes "row_ok p r" and "scaling p r \<noteq> None" and "j < less_K p"
  shows "scaled_row p r ! j = 0 \<longleftrightarrow> r ! j = 0"
proof (cases "row_all_same p r")
  case False
  obtain s where s: "scaling p r = Some s" "reduced s" "s \<noteq> 0" using scaling_nonzero [OF assms(1)] assms(2) by auto
  have "gf (row_mul p r s ! j) = gf s * gf (r ! j)" by (rule gf_row_mul [OF assms(1) s(2) assms(3)])
  then show ?thesis
    using False s row_ok_nth [OF row_mul_ok [OF assms(1) s(2)] assms(3)] row_ok_nth [OF assms(1,3)] s
    by (simp add: scaled_row_def flip: gf_eq_0)
qed (simp add: scaled_row_def)

section \<open>One candidate\<close>

definition cand :: "less_params \<Rightarrow> bytes list \<Rightarrow> nat \<Rightarrow> bytes list" where
  "cand p G r = map (\<lambda>i. row_mul3 p (G ! i) (row_inv2 p (G ! r))) [0..<less_K p]"

definition cand_ok :: "less_params \<Rightarrow> bytes list \<Rightarrow> nat \<Rightarrow> bool" where
  "cand_ok p G r \<longleftrightarrow> (\<forall>i \<in> set [0..<less_K p]. scaling p (cand p G r ! i) \<noteq> None)"

definition scaled :: "less_params \<Rightarrow> bytes list \<Rightarrow> nat \<Rightarrow> bytes list" where
  "scaled p G r = map (scaled_row p) (cand p G r)"

definition row_sorted :: "less_params \<Rightarrow> bytes list \<Rightarrow> bytes list" where
  "row_sorted p R = sort_key (row_key p) R"

definition sorted_form :: "less_params \<Rightarrow> bytes list \<Rightarrow> bytes list" where
  "sorted_form p R = transposed (less_K p) (sort (transposed (less_K p) (row_sorted p R)))"

definition top_key :: "less_params \<Rightarrow> bytes list \<Rightarrow> int list" where
  "top_key p R = row_key p (row_sorted p R ! 0)"

lemma length_cand [simp]: "length (cand p G r) = less_K p"
  by (simp add: cand_def)

lemma cand_code_ok: "code_ok p G \<Longrightarrow> r < less_K p \<Longrightarrow> code_ok p (cand p G r)"
  by (rule code_okI) (simp_all add: cand_def code_ok_row row_mul3_ok row_inv2_ok)

lemma scaled_code_ok: "code_ok p G \<Longrightarrow> r < less_K p \<Longrightarrow> cand_ok p G r \<Longrightarrow> code_ok p (scaled p G r)"
  by (rule code_okI) (simp_all add: scaled_def cand_ok_def scaled_row_ok code_ok_row cand_code_ok)

lemma scale_rows_cand:
  "fst (scale_rows p [0..<less_K p] (cand p G r)) = cand_ok p G r"
  "cand_ok p G r \<Longrightarrow> snd (scale_rows p [0..<less_K p] (cand p G r)) = scaled p G r"
proof -
  show f: "fst (scale_rows p [0..<less_K p] (cand p G r)) = cand_ok p G r"
    by (subst scale_rows_spec(1)) (auto simp: cand_ok_def)
  assume "cand_ok p G r"
  then show "snd (scale_rows p [0..<less_K p] (cand p G r)) = scaled p G r"
    using f by (subst scale_rows_spec(2)) (auto simp: scaled_def intro!: nth_equalityI)
qed

lemma sorted_rows_unique:
  assumes "mset A = mset B" and "sorted (map f A)" and "sorted (map f B)" and "distinct (map f A)"
  shows "A = B"
proof -
  have "map f A = map f B"
    using assms(1-3) by (metis mset_map properties_for_sort)
  moreover have "inj_on f (set A \<union> set B)"
    using assms(4) mset_eq_setD [OF assms(1)] by (simp add: distinct_map)
  ultimately show ?thesis by (rule map_inj_on)
qed

lemma type3_form:
  assumes R: "code_ok p R" and keys: "distinct (map (row_key p) R)"
    and L: "0 < unat (L ! 0) \<Longrightarrow> \<exists>r \<in> set R. unat (L ! 0) \<le> unat (row_hist p r ! 0)"
    and VT: "length VT = less_K p * less_K p"
  shows "compute_canonical_form_type3 p VT R (Some L) = None
       \<or> compute_canonical_form_type3 p VT R (Some L) = Some (True, sorted_form p R)"
    and "stack_need (less_K p) \<le> 64 \<Longrightarrow> compute_canonical_form_type3 p VT R (Some L) \<noteq> None"
proof -
  note S = SortRows_cases [of R p L, OF code_ok_lengths [OF R]]
  have no: "\<not> (0 < unat (L ! 0) \<and> (\<forall>r \<in> set R. unat (row_hist p r ! 0) < unat (L ! 0)))" using L by force
  have sorted: "SortRows p R (less_K p) (Some L) = Some res \<Longrightarrow> res = (True, row_sorted p R)" for res
  proof -
    assume "SortRows p R (less_K p) (Some L) = Some res"
    then have r: "fst res" "mset (snd res) = mset R" "sorted (map (row_key p) (snd res))" using S no by auto
    have "mset (map (row_key p) (sort_key (row_key p) R)) = mset (map (row_key p) R)" by simp
    then have d: "distinct (map (row_key p) (sort_key (row_key p) R))" using keys mset_eq_imp_distinct_iff by blast
    have "row_sorted p R = snd res"
      unfolding row_sorted_def by (rule sorted_rows_unique [where f = "row_key p"])
        (use r d in simp_all)
    with r(1) show ?thesis by (cases res) simp
  qed
  have len: "length (row_sorted p R) = less_K p" "\<And>r. r \<in> set (row_sorted p R) \<Longrightarrow> length r = less_K p"
    using code_ok_lengths [OF R] by (simp_all add: row_sorted_def)
  have C: "SortCols p VT (row_sorted p R) (less_K p) = Some V' \<Longrightarrow> V' = sorted_form p R"
    "stack_need (less_K p) \<le> 64 \<Longrightarrow> SortCols p VT (row_sorted p R) (less_K p) \<noteq> None" for V'
    using SortCols_cases [OF len(1) _ VT] len(2) unfolding sorted_form_def by blast+
  show "compute_canonical_form_type3 p VT R (Some L) = None
       \<or> compute_canonical_form_type3 p VT R (Some L) = Some (True, sorted_form p R)"
  proof (cases "SortRows p R (less_K p) (Some L)")
    case (Some res)
    then have "res = (True, row_sorted p R)" by (rule sorted)
    then show ?thesis using Some C(1)
      by (cases "SortCols p VT (row_sorted p R) (less_K p)") (simp_all add: compute_canonical_form_type3_def)
  qed (simp add: compute_canonical_form_type3_def)
  assume n: "stack_need (less_K p) \<le> 64"
  then obtain res where res: "SortRows p R (less_K p) (Some L) = Some res" using S no by auto
  then have "res = (True, row_sorted p R)" by (rule sorted)
  then show "compute_canonical_form_type3 p VT R (Some L) \<noteq> None"
    using res C(2) [OF n] by (cases "SortCols p VT (row_sorted p R) (less_K p)") (simp_all add: compute_canonical_form_type3_def)
qed

end
