(* ===== verification/Less_Canonical_Form.thy ===== *)
theory Less_Canonical_Form
  imports Less_Canonical
begin

text \<open>
  What the loops of the canonical form compute: among the rows without a zero
  whose scaled matrix has a least key in its first row, the sorted matrix. The
  filter of \<open>CF\<close> (rows with the most zeros first, then the comparison of the
  matrices) keeps a candidate exactly when its key is below that of the best
  candidate so far.
\<close>

section \<open>Histograms and sorted rows\<close>

definition occurrences :: "less_params \<Rightarrow> bytes \<Rightarrow> nat \<Rightarrow> nat" where
  "occurrences p r v = length (filter (\<lambda>i. unat (r ! i) = v) [0..<less_K p])"

lemma occurrences_card: "occurrences p r v = card {i. i < less_K p \<and> unat (r ! i) = v}"
  unfolding occurrences_def by (subst length_filter_conv_card) (auto intro!: arg_cong [of _ _ card])

definition narrow_row :: "less_params \<Rightarrow> bytes \<Rightarrow> bool" where
  \<comment> \<open>no cell of the histogram wraps\<close>
  "narrow_row p r \<longleftrightarrow> (\<forall>v \<in> set [0..<127]. occurrences p r v < 256)"

lemma narrow_small: "less_K p < 256 \<Longrightarrow> narrow_row p r"
proof -
  assume n: "less_K p < 256"
  have "occurrences p r v \<le> card {..<less_K p}" for v
    unfolding occurrences_card by (rule card_mono) auto
  then show ?thesis using n by (auto simp: narrow_row_def intro: order_le_less_trans)
qed

lemma row_hist_occurrences:
  assumes "row_ok p r" and "narrow_row p r" and "v < 127"
  shows "unat (row_hist p r ! v) = occurrences p r v"
proof -
  have "unat x < 128" if "x \<in> set r" for x
    using assms(1) that by (force simp: row_ok_def reduced_def)
  then have "row_hist p r ! v = of_nat (occurrences p r v)"
    using histogram_counts [of r v "less_K p"] assms by (simp add: row_hist_def row_ok_length occurrences_card)
  then show ?thesis using assms(2,3) by (simp add: unat_of_nat narrow_row_def)
qed

lemma occurrences_0: "occurrences p r 0 = row_count_zero p r"
  by (simp add: occurrences_card row_count_zero_eq unat_eq_zero)

definition below :: "less_params \<Rightarrow> bytes \<Rightarrow> nat \<Rightarrow> nat" where
  "below p r v = card {i. i < less_K p \<and> unat (r ! i) < v}"

lemma below_Suc: "below p r (Suc v) = below p r v + occurrences p r v"
proof -
  have "{i. i < less_K p \<and> unat (r ! i) < Suc v} = {i. i < less_K p \<and> unat (r ! i) < v} \<union> {i. i < less_K p \<and> unat (r ! i) = v}"
    by auto
  then show ?thesis unfolding below_def occurrences_card by (simp add: card_Un_disjoint disjoint_iff)
qed

lemma below_eq: "(\<And>u. u < v \<Longrightarrow> occurrences p r u = occurrences p s u) \<Longrightarrow> below p r v = below p s v"
  by (induction v) (simp_all add: below_Suc below_def [of _ _ 0])

lemma sorted_below:
  assumes "sorted r" and "length r = less_K p" and "k < less_K p"
  shows "unat (r ! k) < v \<longleftrightarrow> k < below p r v"
proof -
  let ?S = "{i. i < less_K p \<and> unat (r ! i) < v}"
  have down: "i \<in> ?S" if "j \<in> ?S" "i \<le> j" for i j
  proof -
    have "r ! i \<le> r ! j" using assms that by (intro sorted_nth_mono) auto
    then show ?thesis using that by (auto simp: word_le_nat_alt)
  qed
  have fin: "finite ?S" by simp
  show ?thesis
  proof
    assume "unat (r ! k) < v"
    then have "{..k} \<subseteq> ?S" using down [of k] assms(3) by auto
    then have "card {..k} \<le> card ?S" by (rule card_mono [OF fin])
    then show "k < below p r v" by (simp add: below_def)
  next
    assume k: "k < below p r v"
    show "unat (r ! k) < v"
    proof (rule ccontr)
      assume "\<not> unat (r ! k) < v"
      then have "?S \<subseteq> {..<k}" using down [of _ k] assms(3) by (auto simp: not_less [symmetric])
      then have "card ?S \<le> card {..<k}" by (rule card_mono [OF finite_lessThan])
      with k show False by (simp add: below_def)
    qed
  qed
qed

lemma lex_less_difference:
  fixes us vs :: "'a::linorder list"
  assumes "us < vs" and "length us = length vs"
  shows "\<exists>d<length us. (\<forall>k<d. us ! k = vs ! k) \<and> us ! d < vs ! d"
  using assms
proof (induction us arbitrary: vs)
  case (Cons u us)
  then obtain v vs' where v: "vs = v # vs'" by (cases vs) auto
  show ?case
  proof (cases "u = v")
    case True
    then obtain d where "d < length us" "\<forall>k<d. us ! k = vs' ! k" "us ! d < vs' ! d"
      using Cons.IH [of vs'] Cons.prems v by auto
    then show ?thesis using True v by (intro exI [of _ "Suc d"]) (auto simp: less_Suc_eq_0_disj)
  next
    case False
    then have "u < v" using Cons.prems(1) v by simp
    then show ?thesis using v by (intro exI [of _ 0]) simp
  qed
qed simp

lemma length_row_key: "length (row_key p r) = 127"
  by (simp add: row_key_def hist_key_def row_hist_def less_Q_def)

lemma row_key_nth: "v < 127 \<Longrightarrow> row_key p r ! v = - int (unat (row_hist p r ! v))"
proof -
  assume v: "v < 127"
  have "v < length (take less_Q (row_hist p r))" using length_row_key [of p r] v by (simp add: row_key_def hist_key_def)
  then have "row_key p r ! v = - uint (take less_Q (row_hist p r) ! v)" unfolding row_key_def hist_key_def by (rule nth_map)
  also have "take less_Q (row_hist p r) ! v = row_hist p r ! v" using v by (simp add: less_Q_def)
  finally show ?thesis by simp
qed

lemma sorted_rows_less:
  assumes r: "row_ok p r" "narrow_row p r" "sorted r" and s: "row_ok p s" "narrow_row p s" "sorted s"
    and less: "row_key p r < row_key p s"
  shows "r < s"
proof -
  have len: "length (row_key p r) = 127" "length (row_key p s) = 127" by (simp_all add: length_row_key)
  have key: "row_key p x ! v = - int (occurrences p x v)" if "row_ok p x" "narrow_row p x" "v < 127" for x v
    unfolding row_key_nth [OF that(3)] row_hist_occurrences [OF that] ..
  obtain d where d: "d < 127" "\<And>k. k < d \<Longrightarrow> row_key p r ! k = row_key p s ! k" "row_key p r ! d < row_key p s ! d"
    using lex_less_difference [OF less] len by auto
  have eq: "below p r v = below p s v" if "v \<le> d" for v
  proof (rule below_eq)
    fix u assume "u < v"
    then have u: "u < d" "u < 127" using that d(1) by auto
    have "- int (occurrences p r u) = - int (occurrences p s u)"
      using d(2) [OF u(1)] unfolding key [OF r(1,2) u(2)] key [OF s(1,2) u(2)] .
    then show "occurrences p r u = occurrences p s u" by linarith
  qed
  define k where "k = below p s (Suc d)"
  have more: "k < below p r (Suc d)"
    using d(3) eq [of d] unfolding key [OF r(1,2) d(1)] key [OF s(1,2) d(1)] by (simp add: k_def below_Suc)
  moreover have "below p r (Suc d) \<le> less_K p"
    unfolding below_def using card_mono [of "{..<less_K p}" "{i. i < less_K p \<and> unat (r ! i) < Suc d}"] by auto
  ultimately have k: "k < less_K p" by simp
  have lr: "length r = less_K p" "length s = less_K p" using r s by (simp_all add: row_ok_length)
  have at: "unat (r ! k) < Suc d" "\<not> unat (s ! k) < Suc d"
    using sorted_below [OF r(3) lr(1) k, of "Suc d"] sorted_below [OF s(3) lr(2) k, of "Suc d"] more by (simp_all add: k_def)
  have same: "r ! k' = s ! k'" if k': "k' < k" for k'
  proof -
    have n: "k' < less_K p" using k' k by simp
    have R: "unat (r ! k') < v \<longleftrightarrow> k' < below p r v" and S: "unat (s ! k') < v \<longleftrightarrow> k' < below p s v" for v
      using sorted_below r s lr n by blast+
    have "unat (r ! k') < Suc d" "unat (s ! k') < Suc d" using R S k' more by (simp_all add: k_def)
    then have "\<not> unat (r ! k') < unat (s ! k')" "\<not> unat (s ! k') < unat (r ! k')"
      using R [of "unat (s ! k')"] S [of "unat (s ! k')"] R [of "unat (r ! k')"] S [of "unat (r ! k')"] eq by auto
    then show ?thesis by (simp add: word_unat_eq_iff)
  qed
  have "r ! k < s ! k" using at by (simp add: word_less_nat_alt)
  moreover from this have "r ! k \<noteq> s ! k" by (rule less_imp_neq)
  moreover have "r ! k \<noteq> s ! k \<Longrightarrow> r < s \<longleftrightarrow> r ! k < s ! k"
    by (rule lex_at_difference) (use same k lr in simp_all)
  ultimately show ?thesis by blast
qed

section \<open>The first row of a sorted matrix\<close>

lemma row_sorted_top:
  assumes "R \<noteq> []"
  shows "row_sorted p R ! 0 \<in> set R" and "\<And>r. r \<in> set R \<Longrightarrow> top_key p R \<le> row_key p r"
proof -
  have ne: "row_sorted p R \<noteq> []" using assms unfolding row_sorted_def by (metis length_0_conv length_sort)
  then have "row_sorted p R ! 0 \<in> set (row_sorted p R)" by (intro nth_mem) simp
  then show "row_sorted p R ! 0 \<in> set R" by (simp add: row_sorted_def)
  fix r assume "r \<in> set R"
  then have "r \<in> set (row_sorted p R)" by (simp add: row_sorted_def)
  then obtain i where i: "i < length (row_sorted p R)" "row_sorted p R ! i = r" by (auto simp: in_set_conv_nth)
  have "sorted (map (row_key p) (row_sorted p R))" by (simp add: row_sorted_def)
  then have "map (row_key p) (row_sorted p R) ! 0 \<le> map (row_key p) (row_sorted p R) ! i" using i by (intro sorted_nth_mono) auto
  then show "top_key p R \<le> row_key p r" using i ne by (simp add: top_key_def)
qed

lemma form_row_0:
  assumes R: "code_ok p R"
  shows "mset (sorted_form p R ! 0) = mset (row_sorted p R ! 0)" and "sorted (sorted_form p R ! 0)"
proof -
  define n where "n = less_K p"
  have n: "0 < n" by (simp add: n_def)
  define S where "S = row_sorted p R"
  have S: "length S = n" "\<And>r. r \<in> set S \<Longrightarrow> length r = n"
    using code_ok_lengths [OF R] by (simp_all add: S_def row_sorted_def n_def)
  define T where "T = sort (transposed n S)"
  have T: "length T = n" "\<And>c. c \<in> set T \<Longrightarrow> length c = n" by (simp_all add: T_def length_transposed_row)
  have row: "sorted_form p R ! 0 = map (\<lambda>c. c ! 0) T"
    unfolding sorted_form_def S_def [symmetric] n_def [symmetric] T_def [symmetric]
    using n T(1) by (intro nth_equalityI) (simp_all add: transposed_def [of n T])
  have "mset (map (\<lambda>c. c ! 0) T) = mset (map (\<lambda>c. c ! 0) (transposed n S))" by (simp add: T_def)
  also have "map (\<lambda>c. c ! 0) (transposed n S) = S ! 0"
    using n S by (intro nth_equalityI) (simp_all add: transposed_def)
  finally show "mset (sorted_form p R ! 0) = mset (row_sorted p R ! 0)" unfolding row S_def .
  have "T ! i ! 0 \<le> T ! j ! 0" if "i \<le> j" "j < n" for i j
  proof -
    have "T ! i \<le> T ! j" using that T(1) by (intro sorted_nth_mono) (simp_all add: T_def)
    moreover have "T ! i \<noteq> []" "T ! j \<noteq> []"
      using T(2) [of "T ! i"] T(2) [of "T ! j"] T(1) that n by auto
    ultimately show ?thesis by (cases "T ! i"; cases "T ! j") auto
  qed
  then show "sorted (sorted_form p R ! 0)" unfolding row using T(1) by (auto simp: sorted_iff_nth_mono)
qed

lemma form_row_0_key:
  assumes R: "code_ok p R"
  shows "row_ok p (sorted_form p R ! 0)" and "row_key p (sorted_form p R ! 0) = top_key p R"
    and "narrow_row p (row_sorted p R ! 0) \<Longrightarrow> narrow_row p (sorted_form p R ! 0)"
proof -
  have "R \<noteq> []" using code_ok_lengths(1) [OF R] less_K_pos [of p] by (metis list.size(3) less_irrefl)
  then have top: "row_ok p (row_sorted p R ! 0)" using row_sorted_top(1) R by (simp add: code_ok_def)
  note m = form_row_0(1) [OF R]
  show ok: "row_ok p (sorted_form p R ! 0)"
    using top mset_eq_setD [OF m] mset_eq_length [OF m] by (simp add: row_ok_def)
  show "row_key p (sorted_form p R ! 0) = top_key p R"
    using row_hist_mset [OF m] ok by (simp add: row_key_def top_key_def row_ok_length)
  have occ: "occurrences p r v = size (filter_mset (\<lambda>x. unat x = v) (mset r))" if "row_ok p r" for r v
  proof -
    have "{i. i < less_K p \<and> unat (r ! i) = v} = {i. i < length r \<and> unat (r ! i) = v}" using that by (simp add: row_ok_length)
    then show ?thesis unfolding occurrences_card mset_filter [symmetric] size_mset by (simp add: length_filter_conv_card)
  qed
  show "narrow_row p (row_sorted p R ! 0) \<Longrightarrow> narrow_row p (sorted_form p R ! 0)"
    using m by (simp add: narrow_row_def occ [OF ok] occ [OF top])
qed

end
