(* ===== verification/Less_CF.thy ===== *)
theory Less_CF
  imports Less_Canonical_Form
begin

text \<open>
  The loop of \<open>CF\<close> against its specification: the candidates are the rows without a
  zero whose scaling succeeds, and the matrix kept is the sorted form of the first
  candidate with the least key. The filter on the rows with the most zeros keeps
  exactly the candidates below the best one so far.
\<close>

section \<open>Candidates\<close>

definition candidates :: "less_params \<Rightarrow> bytes list \<Rightarrow> nat list" where
  "candidates p G = filter (\<lambda>r. zeros p G r = 0 \<and> cand_ok p G r) [0..<less_K p]"

definition regular :: "less_params \<Rightarrow> bytes list \<Rightarrow> bool" where
  \<comment> \<open>no ties: the rows of a scaled matrix have different multisets, only its first row
     is constant, and two candidates with the same first multiset have the same form\<close>
  "regular p G \<longleftrightarrow> (\<forall>r \<in> set (candidates p G).
     distinct (map (row_key p) (scaled p G r)) \<and>
     (\<forall>x \<in> set (scaled p G r). narrow_row p x) \<and>
     (\<forall>i \<in> set [0..<less_K p]. i = r \<or> \<not> row_all_same p (cand p G r ! i)) \<and>
     (\<forall>s \<in> set (candidates p G). top_key p (scaled p G r) = top_key p (scaled p G s) \<longrightarrow>
        sorted_form p (scaled p G r) = sorted_form p (scaled p G s)))"

lemma regularD:
  assumes "regular p G" and "r \<in> set (candidates p G)"
  shows "distinct (map (row_key p) (scaled p G r))"
    and "x \<in> set (scaled p G r) \<Longrightarrow> narrow_row p x"
    and "i < less_K p \<Longrightarrow> i \<noteq> r \<Longrightarrow> \<not> row_all_same p (cand p G r ! i)"
    and "s \<in> set (candidates p G) \<Longrightarrow> top_key p (scaled p G r) = top_key p (scaled p G s) \<Longrightarrow>
      sorted_form p (scaled p G r) = sorted_form p (scaled p G s)"
proof -
  note reg = bspec [OF assms(1) [unfolded regular_def] assms(2)]
  show "distinct (map (row_key p) (scaled p G r))" by (rule conjunct1 [OF reg])
  show "x \<in> set (scaled p G r) \<Longrightarrow> narrow_row p x" by (rule bspec [OF reg [THEN conjunct2, THEN conjunct1]])
  show "i < less_K p \<Longrightarrow> i \<noteq> r \<Longrightarrow> \<not> row_all_same p (cand p G r ! i)"
    using bspec [OF reg [THEN conjunct2, THEN conjunct2, THEN conjunct1], of i] by simp
  show "s \<in> set (candidates p G) \<Longrightarrow> top_key p (scaled p G r) = top_key p (scaled p G s) \<Longrightarrow>
      sorted_form p (scaled p G r) = sorted_form p (scaled p G s)"
    using bspec [OF reg [THEN conjunct2, THEN conjunct2, THEN conjunct2], of s] by (rule mp)
qed

lemma code_ok_nth: "code_ok p G \<Longrightarrow> i < less_K p \<Longrightarrow> j < less_K p \<Longrightarrow> reduced (G ! i ! j)"
  by (rule row_ok_nth [OF code_ok_row])

lemma candidates_iff: "r \<in> set (candidates p G) \<longleftrightarrow> r < less_K p \<and> zeros p G r = 0 \<and> cand_ok p G r"
  by (auto simp: candidates_def)

lemma zeros_0_iff: "zeros p G r = 0 \<longleftrightarrow> (\<forall>j<less_K p. G ! r ! j \<noteq> 0)"
  by (auto simp: zeros_def row_count_zero_eq card_eq_0_iff)

lemma most_zeros_ge: "i < less_K p \<Longrightarrow> zeros p G i \<le> most_zeros p G"
  by (simp add: most_zeros_def)

lemma gf_cand:
  assumes "code_ok p G" and "r < less_K p" and "i < less_K p" and "j < less_K p"
  shows "gf (cand p G r ! i ! j) = gf (G ! i ! j) * inverse (gf (G ! r ! j))"
  using assms by (simp add: cand_def gf_row_mul3 gf_row_inv2 code_ok_row row_inv2_ok)

lemma cand_reduced:
  assumes "code_ok p G" and "r < less_K p" and "i < less_K p" and "j < less_K p"
  shows "reduced (cand p G r ! i ! j)"
  using row_ok_nth [OF code_ok_row [OF cand_code_ok [OF assms(1,2)] assms(3)] assms(4)] .

lemma zeros_cand:
  assumes G: "code_ok p G" and r: "r < less_K p" "zeros p G r = 0" and i: "i < less_K p" and j: "j < less_K p"
  shows "cand p G r ! i ! j = 0 \<longleftrightarrow> G ! i ! j = 0"
proof -
  have "reduced (G ! i ! j)" "reduced (G ! r ! j)" using code_ok_nth [OF G _ j] r(1) i by blast+
  then have "gf (G ! r ! j) \<noteq> 0" "gf (G ! i ! j) = 0 \<longleftrightarrow> G ! i ! j = 0" using r(2) j by (simp_all add: zeros_0_iff)
  then show ?thesis using gf_cand [OF G r(1) i j] gf_eq_0 [OF cand_reduced [OF G r(1) i j]] by simp
qed

lemma zeros_scaled:
  assumes G: "code_ok p G" and r: "r \<in> set (candidates p G)" and i: "i < less_K p"
  shows "occurrences p (scaled p G r ! i) 0 = zeros p G i"
proof -
  note r' = r [unfolded candidates_iff]
  have ok: "row_ok p (cand p G r ! i)" "scaling p (cand p G r ! i) \<noteq> None"
    using cand_code_ok [OF G] r' i by (simp_all add: code_ok_row cand_ok_def)
  have "scaled p G r ! i ! j = 0 \<longleftrightarrow> G ! i ! j = 0" if "j < less_K p" for j
    using scaled_row_zero_iff [OF ok that] zeros_cand [OF G _ _ i that, of r] r' i by (simp add: scaled_def)
  then have "{j. j < less_K p \<and> scaled p G r ! i ! j = 0} = {j. j < less_K p \<and> G ! i ! j = 0}" by auto
  then show ?thesis by (simp add: occurrences_0 zeros_def row_count_zero_eq)
qed

lemma cand_row_ones:
  assumes G: "code_ok p G" and r: "r < less_K p" "zeros p G r = 0"
  shows "cand p G r ! r = replicate (less_K p) 1"
proof (rule row_eqI [of p])
  show "row_ok p (cand p G r ! r)" using cand_code_ok [OF G] r by (simp add: code_ok_row)
  show "row_ok p (replicate (less_K p) 1)" by (rule row_okI) simp_all
  fix j assume j: "j < less_K p"
  have "reduced (G ! r ! j)" by (rule code_ok_nth [OF G r(1) j])
  then have "gf (G ! r ! j) \<noteq> 0" using r j by (simp add: zeros_0_iff)
  then show "gf (cand p G r ! r ! j) = gf (replicate (less_K p) 1 ! j)"
    using gf_cand [OF G r(1) r(1) j] j by simp
qed

section \<open>The filter\<close>

lemma type4_sub_iff:
  assumes "\<And>r. r \<in> set rows \<Longrightarrow> row_ok p r \<and> \<not> row_all_same p r \<and> scaling p r \<noteq> None" and "length M = Q_pad"
  shows "compute_canonical_form_type4_sub p rows M \<longleftrightarrow> (\<exists>r \<in> set rows. row_key p (scaled_row p r) < hist_key M)"
  using assms(1)
proof (induction rows)
  case (Cons r rows)
  define s where "s = (if row_acc p r \<noteq> 0 then fq_inv (row_acc p r) else row_acc_inv p r)"
  have r: "row_ok p r" "\<not> row_all_same p r" "scaling p r \<noteq> None" using Cons.prems by auto
  then have s: "scaling p r = Some s" by (auto simp: scaling_def s_def split: if_splits)
  then have "s \<noteq> 0" using scaling_nonzero [OF r(1)] by blast
  moreover have "sort_histogram (row_mul p r s) (less_N p - less_K p) = row_hist p (scaled_row p r)"
    using r(2) s by (simp add: scaled_row_def row_hist_def)
  moreover have "compare_rows (row_hist p (scaled_row p r)) M < 0 \<longleftrightarrow> row_key p (scaled_row p r) < hist_key M"
    unfolding row_key_def by (rule compare_rows_key) (simp_all only: assms(2) row_hist_def length_histogram)
  ultimately show ?case using Cons.IH Cons.prems by (simp add: Let_def flip: s_def)
qed simp

lemma key_le_first:
  assumes "us \<le> vs" and "length us = length vs" and "us \<noteq> []"
  shows "us ! 0 \<le> (vs ! 0 :: int)"
  using assms by (cases us; cases vs) auto

lemma narrow_key_0: "row_ok p r \<Longrightarrow> narrow_row p r \<Longrightarrow> row_key p r ! 0 = - int (occurrences p r 0)"
  by (simp add: row_key_nth row_hist_occurrences)

lemma top_row:
  assumes G: "code_ok p G" and r: "r \<in> set (candidates p G)" and reg: "regular p G"
  obtains i where "i < less_K p" and "row_key p (scaled p G r ! i) = top_key p (scaled p G r)"
    and "zeros p G i = most_zeros p G"
proof -
  let ?R = "scaled p G r"
  note r' = r [unfolded candidates_iff]
  have R: "code_ok p ?R" using scaled_code_ok [OF G] r' by blast
  have len: "length ?R = less_K p" by (simp add: scaled_def)
  have nar: "narrow_row p (?R ! i)" if "i < less_K p" for i using regularD(2) [OF reg r] that len by simp
  have "?R \<noteq> []" using len less_K_pos [of p] by force
  note top = row_sorted_top [OF this]
  obtain i where i: "i < less_K p" "?R ! i = row_sorted p ?R ! 0" using top(1) [of p] len by (metis in_set_conv_nth)
  have "zeros p G k \<le> zeros p G i" if k: "k < less_K p" for k
  proof -
    have "row_key p (?R ! i) \<le> row_key p (?R ! k)" using top(2) [of "?R ! k" p] k len i(2) by (simp add: top_key_def)
    moreover have "row_key p (?R ! i) \<noteq> []" using length_row_key [of p "?R ! i"] by force
    ultimately have "row_key p (?R ! i) ! 0 \<le> row_key p (?R ! k) ! 0" by (intro key_le_first) (simp_all add: length_row_key)
    moreover have "row_key p (?R ! l) ! 0 = - int (zeros p G l)" if "l < less_K p" for l
      using narrow_key_0 [OF code_ok_row [OF R that] nar [OF that]] zeros_scaled [OF G r that] by simp
    ultimately show ?thesis using i(1) k by simp
  qed
  then have "most_zeros p G \<le> zeros p G i" by (simp add: most_zeros_def lessThan_empty_iff)
  then have "zeros p G i = most_zeros p G" using most_zeros_ge [OF i(1), of G] by simp
  with i show ?thesis using that by (simp add: top_key_def)
qed

lemma filter_spec:
  assumes G: "code_ok p G" and r: "r \<in> set (candidates p G)" and reg: "regular p G"
    and pos: "0 < most_zeros p G" and L: "length L = Q_pad"
    and J: "J = filter (\<lambda>i. zeros p G i = most_zeros p G) [0..<less_K p]"
  shows "compute_canonical_form_type4_sub p
      (map (\<lambda>row2. row_mul3 p (G ! (J ! row2)) (row_inv2 p (G ! r))) [0..<length J]) L
    \<longleftrightarrow> top_key p (scaled p G r) < hist_key L"
proof -
  note r' = r [unfolded candidates_iff]
  have R: "code_ok p (cand p G r)" using cand_code_ok [OF G] r' by blast
  have J_in: "i \<in> set J \<longleftrightarrow> i < less_K p \<and> zeros p G i = most_zeros p G" for i by (auto simp: J)
  have "map (\<lambda>row2. row_mul3 p (G ! (J ! row2)) (row_inv2 p (G ! r))) [0..<length J] = map (\<lambda>i. row_mul3 p (G ! i) (row_inv2 p (G ! r))) J"
    by (rule nth_equalityI) simp_all
  also have "\<dots> = map (\<lambda>i. cand p G r ! i) J" by (simp add: cand_def J_in)
  finally have rows: "map (\<lambda>row2. row_mul3 p (G ! (J ! row2)) (row_inv2 p (G ! r))) [0..<length J] = map (\<lambda>i. cand p G r ! i) J" .
  have ok: "row_ok p x \<and> \<not> row_all_same p x \<and> scaling p x \<noteq> None" if x: "x \<in> set (map (\<lambda>i. cand p G r ! i) J)" for x
  proof -
    obtain i where i: "i < less_K p" "zeros p G i = most_zeros p G" "x = cand p G r ! i" using x J_in by auto
    then have "i \<noteq> r" using pos r' by auto
    then have "\<not> row_all_same p (cand p G r ! i)" using regularD(3) [OF reg r i(1)] by blast
    then show ?thesis using i R r' by (simp add: code_ok_row cand_ok_def)
  qed
  have "(\<exists>i \<in> set J. row_key p (scaled p G r ! i) < hist_key L) \<longleftrightarrow> top_key p (scaled p G r) < hist_key L"
  proof
    have R': "scaled p G r \<noteq> []" using less_K_pos [of p] by (simp add: scaled_def flip: length_0_conv)
    assume "\<exists>i \<in> set J. row_key p (scaled p G r ! i) < hist_key L"
    then obtain i where i: "i < less_K p" "row_key p (scaled p G r ! i) < hist_key L" by (auto simp: J_in)
    have "top_key p (scaled p G r) \<le> row_key p (scaled p G r ! i)"
      by (rule row_sorted_top(2) [OF R']) (use i(1) in \<open>simp add: scaled_def\<close>)
    then show "top_key p (scaled p G r) < hist_key L" using i(2) by (rule le_less_trans)
  next
    assume lt: "top_key p (scaled p G r) < hist_key L"
    obtain i where "i < less_K p" "row_key p (scaled p G r ! i) = top_key p (scaled p G r)" "zeros p G i = most_zeros p G"
      using top_row [OF G r reg] .
    with lt show "\<exists>i \<in> set J. row_key p (scaled p G r ! i) < hist_key L" by (intro bexI [of _ i]) (simp_all add: J_in)
  qed
  moreover have "scaled_row p (cand p G r ! i) = scaled p G r ! i" if "i \<in> set J" for i
    using that by (simp add: J_in scaled_def)
  moreover have "compute_canonical_form_type4_sub p (map (\<lambda>i. cand p G r ! i) J) L
      \<longleftrightarrow> (\<exists>x \<in> set (map (\<lambda>i. cand p G r ! i) J). row_key p (scaled_row p x) < hist_key L)"
    by (rule type4_sub_iff [OF ok L])
  ultimately show ?thesis unfolding rows by simp
qed

section \<open>The comparison\<close>

lemma compare_matrices_first:
  assumes "length (A ! 0) = less_K p" "length (B ! 0) = less_K p" and "A ! 0 < B ! 0"
  shows "compare_matrices p A B (less_K p) < 0"
proof -
  obtain d where d: "d < less_K p" "\<forall>k<d. A ! 0 ! k = B ! 0 ! k" "A ! 0 ! d < B ! 0 ! d"
    using lex_less_difference [OF assms(3)] assms(1,2) by auto
  define i where "i = first_difference (less_K p) (A ! 0) (B ! 0) 0"
  have i: "\<forall>k<i. A ! 0 ! k = B ! 0 ! k" "i < less_K p \<longrightarrow> A ! 0 ! i \<noteq> B ! 0 ! i"
    using first_difference_spec [of 0 "less_K p" "A ! 0" "B ! 0"] by (simp_all add: i_def)
  have "i = d"
  proof (rule linorder_cases [of i d])
    assume "i < d" then show ?thesis using d i by simp
  next
    assume "d < i" then show ?thesis using d i by force
  qed
  moreover have "[0..<less_K p] = 0 # [1..<less_K p]" by (simp add: upt_rec)
  ultimately show ?thesis using d
    by (simp add: compare_matrices_def Let_def word_less_def flip: i_def)
qed

lemma zeros_below_hist:
  assumes "row_ok p r" and "narrow_row p r" and "0 < occurrences p r 0"
  shows "row_key p r < hist_key (replicate Q_pad 0)"
proof -
  have "hist_key (replicate Q_pad 0) = replicate 127 0" by (simp add: hist_key_def less_Q_def)
  moreover have "row_key p r ! 0 < 0" using assms by (simp add: narrow_key_0)
  moreover have "(replicate 127 0 :: int list) = 0 # replicate 126 0" by (simp flip: replicate_Suc)
  ultimately show ?thesis using length_row_key [of p r] by (cases "row_key p r") auto
qed

section \<open>The loop\<close>

definition best :: "less_params \<Rightarrow> bytes list \<Rightarrow> nat list \<Rightarrow> bool \<times> bytes \<times> bytes list \<Rightarrow> bool" where
  \<comment> \<open>\<open>touched\<close>, \<open>L\<close> and \<open>M\<close> after the candidates \<open>cs\<close>\<close>
  "best p G cs s = (case s of (touched, L, M) \<Rightarrow>
     if cs = [] then \<not> touched \<and> L = replicate Q_pad 0 \<and> M = invalid_matrix p
     else touched \<and> L = row_hist p (M ! 0) \<and>
       (\<exists>b \<in> set cs. M = sorted_form p (scaled p G b) \<and>
          (\<forall>c \<in> set cs. top_key p (scaled p G b) \<le> top_key p (scaled p G c))))"

lemma sorted_form_top:
  assumes G: "code_ok p G" and r: "r \<in> set (candidates p G)" and reg: "regular p G"
  defines "t \<equiv> sorted_form p (scaled p G r) ! 0"
  shows "row_ok p t" and "narrow_row p t" and "sorted t" and "row_key p t = top_key p (scaled p G r)"
    and "occurrences p t 0 = most_zeros p G"
proof -
  have R: "code_ok p (scaled p G r)" using scaled_code_ok [OF G] r by (simp add: candidates_iff)
  have ne: "scaled p G r \<noteq> []" using code_ok_lengths(1) [OF R] less_K_pos [of p] by force
  show t: "row_ok p t" and key: "row_key p t = top_key p (scaled p G r)" and "sorted t"
    unfolding t_def by (rule form_row_0_key [OF R] form_row_0(2) [OF R])+
  show n: "narrow_row p t"
    unfolding t_def by (intro form_row_0_key(3) [OF R] regularD(2) [OF reg r] row_sorted_top(1) [OF ne])
  obtain i where i: "i < less_K p" "row_key p (scaled p G r ! i) = top_key p (scaled p G r)" "zeros p G i = most_zeros p G"
    using top_row [OF G r reg] .
  have "narrow_row p (scaled p G r ! i)" using regularD(2) [OF reg r] i(1) by (simp add: scaled_def)
  then have "int (occurrences p (scaled p G r ! i) 0) = int (occurrences p t 0)"
    using narrow_key_0 [OF t n] narrow_key_0 [OF code_ok_row [OF R i(1)]] i(2) key by simp
  then show "occurrences p t 0 = most_zeros p G" using zeros_scaled [OF G r i(1)] i(3) by simp
qed

lemma type4_cand:
  assumes G: "code_ok p G" and r: "r < less_K p" and VT: "length VT = less_K p * less_K p"
  shows "\<not> cand_ok p G r \<Longrightarrow> \<exists>A. compute_canonical_form_type4 p VT (cand p G r) (Some L) = Some (False, A)"
    and "r \<in> set (candidates p G) \<Longrightarrow> regular p G \<Longrightarrow> top_key p (scaled p G r) < hist_key L \<Longrightarrow> length L = Q_pad \<Longrightarrow>
      (compute_canonical_form_type4 p VT (cand p G r) (Some L) = None
       \<or> compute_canonical_form_type4 p VT (cand p G r) (Some L) = Some (True, sorted_form p (scaled p G r)))
      \<and> (stack_need (less_K p) \<le> 64 \<longrightarrow> compute_canonical_form_type4 p VT (cand p G r) (Some L) \<noteq> None)"
proof -
  show "\<exists>A. compute_canonical_form_type4 p VT (cand p G r) (Some L) = Some (False, A)" if "\<not> cand_ok p G r"
    using scale_rows_cand(1) [of p G r] that
    by (auto simp: compute_canonical_form_type4_def split: prod.splits)
  assume c: "r \<in> set (candidates p G)" and reg: "regular p G" and lt: "top_key p (scaled p G r) < hist_key L"
    and L: "length L = Q_pad"
  let ?R = "scaled p G r"
  have ok: "cand_ok p G r" using c by (simp add: candidates_iff)
  have R: "code_ok p ?R" by (rule scaled_code_ok [OF G r ok])
  have ne: "?R \<noteq> []" using code_ok_lengths(1) [OF R] less_K_pos [of p] by force
  have e: "compute_canonical_form_type4 p VT (cand p G r) (Some L) = compute_canonical_form_type3 p VT ?R (Some L)"
    using scale_rows_cand [of p G r] ok
    by (cases "scale_rows p [0..<less_K p] (cand p G r)") (simp add: compute_canonical_form_type4_def)
  have "length (hist_key L) = 127" using L by (simp add: hist_key_def less_Q_def)
  then have "top_key p ?R ! 0 \<le> hist_key L ! 0" unfolding top_key_def
    by (intro key_le_first) (use lt length_row_key [of p "row_sorted p ?R ! 0"] in \<open>auto simp: top_key_def\<close>)
  moreover have "hist_key L ! 0 = - int (unat (L ! 0))" using L by (simp add: hist_key_def less_Q_def)
  moreover have "top_key p ?R ! 0 = - int (unat (row_hist p (row_sorted p ?R ! 0) ! 0))" by (simp add: top_key_def row_key_nth)
  ultimately have "unat (L ! 0) \<le> unat (row_hist p (row_sorted p ?R ! 0) ! 0)" by linarith
  then have "\<exists>x \<in> set ?R. unat (L ! 0) \<le> unat (row_hist p x ! 0)" using row_sorted_top(1) [OF ne] by blast
  then show "(compute_canonical_form_type4 p VT (cand p G r) (Some L) = None
       \<or> compute_canonical_form_type4 p VT (cand p G r) (Some L) = Some (True, sorted_form p ?R))
      \<and> (stack_need (less_K p) \<le> 64 \<longrightarrow> compute_canonical_form_type4 p VT (cand p G r) (Some L) \<noteq> None)"
    unfolding e using type3_form [OF R regularD(1) [OF reg c] _ VT, of L] by blast
qed

lemma best_step:
  assumes G: "code_ok p G" and reg: "regular p G" and pos: "0 < most_zeros p G" and VT: "length VT = less_K p * less_K p"
    and J: "J = filter (\<lambda>i. zeros p G i = most_zeros p G) [0..<less_K p]"
    and Z: "Z = map (\<lambda>i. zeros p G i > 0) [0..<less_K p]"
    and r: "r < less_K p" and b: "best p G cs s" and cs: "set cs \<subseteq> set (candidates p G)"
  defines "cs' \<equiv> (if r \<in> set (candidates p G) then cs @ [r] else cs)"
  shows "(case popcnt_step p VT G J Z s r of None \<Rightarrow> True | Some s' \<Rightarrow> best p G cs' s')
    \<and> (stack_need (less_K p) \<le> 64 \<longrightarrow> popcnt_step p VT G J Z s r \<noteq> None)"
proof -
  obtain touched L M where s: "s = (touched, L, M)" by (cases s)
  have L: "length L = Q_pad" using b by (auto simp: best_def s row_hist_def split: if_splits)
  have B: "map (\<lambda>row2. row_mul3 p (G ! row2) (row_inv2 p (G ! r))) [0..<less_K p] = cand p G r" by (simp add: cand_def)
  define pass where "pass = compute_canonical_form_type4_sub p
      (map (\<lambda>row2. row_mul3 p (G ! (J ! row2)) (row_inv2 p (G ! r))) [0..<length J]) L"
  have step: "popcnt_step p VT G J Z s r =
     (if zeros p G r > 0 \<or> \<not> pass then Some s
      else case compute_canonical_form_type4 p VT (cand p G r) (Some L) of
             None \<Rightarrow> None
           | Some (ret, B) \<Rightarrow> if ret \<and> compare_matrices p B M (less_K p) < 0 then Some (True, row_hist p (B ! 0), B) else Some s)"
    using r unfolding row_hist_def s popcnt_step_def less_N_minus_K by (simp add: Z Let_def B pass_def [symmetric])
  show ?thesis
  proof (cases "r \<in> set (candidates p G)")
    case False
    then have "zeros p G r > 0 \<or> \<not> cand_ok p G r" using r by (simp add: candidates_iff)
    then have "popcnt_step p VT G J Z s r = Some s"
    proof
      assume "\<not> cand_ok p G r"
      then obtain A where "compute_canonical_form_type4 p VT (cand p G r) (Some L) = Some (False, A)"
        using type4_cand(1) [OF G r VT] by blast
      then show ?thesis unfolding step by simp
    qed (simp add: step)
    then show ?thesis using b False by (simp add: cs'_def)
  next
    case True
    have z: "zeros p G r = 0" using True by (simp add: candidates_iff)
    note filter = filter_spec [OF G True reg pos L J, folded pass_def]
    note top = sorted_form_top [OF G True reg]
    let ?A = "sorted_form p (scaled p G r)"
    show ?thesis
    proof (cases pass)
      case False
      have "cs \<noteq> []"
      proof
        assume "cs = []"
        then have "L = replicate Q_pad 0" using b by (simp add: best_def s)
        moreover have "row_key p (?A ! 0) < hist_key (replicate Q_pad 0)" by (rule zeros_below_hist [OF top(1,2)]) (simp add: top(5) pos)
        ultimately show False using filter False top(4) by simp
      qed
      then obtain c where c: "c \<in> set cs" "M = sorted_form p (scaled p G c)" "touched" "L = row_hist p (M ! 0)"
          "\<forall>d \<in> set cs. top_key p (scaled p G c) \<le> top_key p (scaled p G d)"
        using b by (auto simp: best_def s)
      have "hist_key L = top_key p (scaled p G c)"
        using sorted_form_top(4) [OF G _ reg, of c] c(1,2) cs unfolding c(4) row_key_def by blast
      then have "top_key p (scaled p G c) \<le> top_key p (scaled p G r)" using filter False by simp
      then have "best p G cs' s" using c True by (auto simp: best_def s cs'_def)
      then show ?thesis using False by (simp add: step)
    next
      case pass: True
      have lt: "top_key p (scaled p G r) < hist_key L" using filter pass by simp
      note T = type4_cand(2) [OF G r VT True reg lt L]
      have "?A ! 0 < M ! 0 \<and> length (M ! 0) = less_K p"
      proof (cases "cs = []")
        case True
        then have M: "M ! 0 = replicate (less_K p) 126" using b by (simp add: best_def s invalid_matrix_def)
        have len: "length (?A ! 0) = less_K p" using top(1) by (rule row_ok_length)
        obtain j where j: "j < less_K p" "?A ! 0 ! j = 0"
        proof -
          have "{j. j < less_K p \<and> ?A ! 0 ! j = 0} \<noteq> {}"
          proof
            assume e: "{j. j < less_K p \<and> ?A ! 0 ! j = 0} = {}"
            have "most_zeros p G = card {j. j < less_K p \<and> ?A ! 0 ! j = 0}"
              using top(5) by (simp add: occurrences_card unat_eq_zero)
            then show False using pos unfolding e by simp
          qed
          then show ?thesis using that by blast
        qed
        have "?A ! 0 ! 0 \<le> ?A ! 0 ! j" using top(3) len j(1) by (intro sorted_nth_mono) auto
        then have zero: "?A ! 0 ! 0 = 0" using j(2) by simp
        have "?A ! 0 < M ! 0 \<longleftrightarrow> ?A ! 0 ! 0 < M ! 0 ! 0"
          by (rule lex_at_difference) (simp_all add: len M zero)
        then show ?thesis by (simp add: M zero)
      next
        case False
        then obtain c where c: "c \<in> set cs" "M = sorted_form p (scaled p G c)" "L = row_hist p (M ! 0)"
          using b by (auto simp: best_def s)
        have "c \<in> set (candidates p G)" using c(1) cs by blast
        note topc = sorted_form_top [OF G this reg, folded c(2)]
        have "row_key p (?A ! 0) < row_key p (M ! 0)" using lt top(4) by (simp add: c(3) row_key_def)
        then show ?thesis using sorted_rows_less [OF top(1-3) topc(1-3)] row_ok_length [OF topc(1)] by blast
      qed
      then have cmp: "compare_matrices p ?A M (less_K p) < 0"
        using compare_matrices_first [of ?A p M] row_ok_length [OF top(1)] by blast
      have "best p G cs' (True, row_hist p (?A ! 0), ?A)"
      proof -
        have "\<forall>d \<in> set cs. top_key p (scaled p G r) \<le> top_key p (scaled p G d)"
        proof (cases "cs = []")
          case False
          then obtain c where c: "c \<in> set cs" "M = sorted_form p (scaled p G c)" "L = row_hist p (M ! 0)"
              "\<forall>d \<in> set cs. top_key p (scaled p G c) \<le> top_key p (scaled p G d)"
            using b by (auto simp: best_def s)
          have "hist_key L = top_key p (scaled p G c)"
            using sorted_form_top(4) [OF G _ reg, of c] c(1,2) cs unfolding c(3) row_key_def by blast
          then have "top_key p (scaled p G r) \<le> top_key p (scaled p G c)" using lt by simp
          then show ?thesis using c(4) order_trans by blast
        qed simp
        then show ?thesis using True by (auto simp: best_def cs'_def)
      qed
      then show ?thesis using T z pass cmp by (auto simp: step)
    qed
  qed
qed

section \<open>The function\<close>

definition same_zeros :: "less_params \<Rightarrow> bytes list \<Rightarrow> bool" where
  \<comment> \<open>the case in which \<open>CF\<close> calls the function without the filter\<close>
  "same_zeros p G \<longleftrightarrow> (\<forall>i \<in> set [0..<less_K p]. zeros p G i = most_zeros p G)"

lemma type4_null: "cand_ok p G r \<Longrightarrow> compute_canonical_form_type4 p VT (cand p G r) None = None"
  using scale_rows_cand(1) [of p G r]
  by (auto simp: compute_canonical_form_type4_def compute_canonical_form_type3_def SortRows_def split: prod.splits)

lemma type5_null:
  "compute_canonical_form_type5 p VT G = (if candidates p G = [] then Some (False, G) else None)"
proof -
  define f where "f = (\<lambda>(touched, M) row.
         if row_contains_zero p (G ! row) then Some (touched, M)
         else case compute_canonical_form_type4 p VT (cand p G row) None of
                   None \<Rightarrow> None
                 | Some (ret, A) \<Rightarrow>
                     if ret \<and> compare_matrices p A M (less_K p) < 0 then Some (True, A) else Some (touched, M))"
  have step: "f (t, M) r = (if r \<in> set (candidates p G) then None else Some (t, M))" if "r < less_K p" for t M r
  proof -
    have "row_contains_zero p (G ! r) \<longleftrightarrow> zeros p G r \<noteq> 0"
      using that by (auto simp: zeros_0_iff row_contains_zero_iff)
    moreover have "fst (scale_rows p [0..<less_K p] (cand p G r)) = cand_ok p G r" by (rule scale_rows_cand(1))
    then have "\<not> cand_ok p G r \<Longrightarrow> \<exists>A. compute_canonical_form_type4 p VT (cand p G r) None = Some (False, A)"
      by (auto simp: compute_canonical_form_type4_def split: prod.splits)
    ultimately show ?thesis using that type4_null [of p G r VT] by (auto simp: f_def candidates_iff)
  qed
  have fold: "foldM f (False, invalid_matrix p) rows
      = (if set rows \<inter> set (candidates p G) = {} then Some (False, invalid_matrix p) else None)"
    if "set rows \<subseteq> {..<less_K p}" for rows
    using that by (induction rows) (auto simp: step split: option.splits)
  have "set [0..<less_K p] \<inter> set (candidates p G) = {} \<longleftrightarrow> candidates p G = []"
    by (auto simp: candidates_iff filter_empty_conv candidates_def)
  then have "foldM f (False, invalid_matrix p) [0..<less_K p]
      = (if candidates p G = [] then Some (False, invalid_matrix p) else None)"
    using fold [of "[0..<less_K p]"] unfolding lessThan_atLeast0 set_upt by simp
  then show ?thesis unfolding compute_canonical_form_type5_def Let_def f_def cand_def by simp
qed

lemma CF_same_zeros:
  assumes same: "same_zeros p G"
  shows "CF p VT G = (if candidates p G = [] then Some (False, G) else None)"
proof -
  have "filter (\<lambda>i. zeros p G i = most_zeros p G) [0..<less_K p] = [0..<less_K p]"
    using same unfolding same_zeros_def filter_id_conv by blast
  then show ?thesis
    by (simp add: CF_def compute_canonical_form_type5_popcnt_def count_zeros_eq type5_null)
qed

lemma CF_cases:
  assumes G: "code_ok p G" and reg: "regular p G" and VT: "length VT = less_K p * less_K p"
  shows "same_zeros p G \<Longrightarrow> CF p VT G = (if candidates p G = [] then Some (False, G) else None)"
    and "\<not> same_zeros p G \<Longrightarrow> CF p VT G = Some (t, C) \<Longrightarrow>
      (if candidates p G = [] then \<not> t
       else t \<and> (\<exists>b \<in> set (candidates p G). C = sorted_form p (scaled p G b) \<and>
              (\<forall>c \<in> set (candidates p G). top_key p (scaled p G b) \<le> top_key p (scaled p G c))))"
    and "\<not> same_zeros p G \<Longrightarrow> stack_need (less_K p) \<le> 64 \<Longrightarrow> CF p VT G \<noteq> None"
proof -
  define J where "J = filter (\<lambda>i. zeros p G i = most_zeros p G) [0..<less_K p]"
  define Z where "Z = map (\<lambda>i. zeros p G i > 0) [0..<less_K p]"
  have cz: "count_zeros p G = (most_zeros p G, J, Z)" by (simp add: count_zeros_eq J_def Z_def)
  have J: "length J = less_K p \<longleftrightarrow> same_zeros p G"
  proof
    assume J: "length J = less_K p"
    show "same_zeros p G" unfolding same_zeros_def
    proof (rule ballI, rule ccontr)
      fix i assume "i \<in> set [0..<less_K p]" "zeros p G i \<noteq> most_zeros p G"
      then have "length J < length [0..<less_K p]" unfolding J_def by (rule length_filter_less)
      with J show False by simp
    qed
  qed (simp add: J_def same_zeros_def)
  show "CF p VT G = (if candidates p G = [] then Some (False, G) else None)" if "same_zeros p G"
    by (rule CF_same_zeros [OF that])
  assume ns: "\<not> same_zeros p G"
  have pos: "0 < most_zeros p G"
  proof (rule ccontr)
    assume "\<not> 0 < most_zeros p G"
    then have "zeros p G i = most_zeros p G" if "i < less_K p" for i using most_zeros_ge [OF that, of G] by simp
    with ns show False by (simp add: same_zeros_def)
  qed
  let ?s = "(False, replicate Q_pad 0, invalid_matrix p)"
  define cs where "cs k = filter (\<lambda>r. zeros p G r = 0 \<and> cand_ok p G r) [0..<k]" for k
  have loop: "(case foldM (popcnt_step p VT G J Z) ?s [0..<k] of None \<Rightarrow> True | Some s \<Rightarrow> best p G (cs k) s)
    \<and> (stack_need (less_K p) \<le> 64 \<longrightarrow> foldM (popcnt_step p VT G J Z) ?s [0..<k] \<noteq> None)" if "k \<le> less_K p" for k
    using that
  proof (induction k)
    case 0
    then show ?case by (simp add: best_def cs_def)
  next
    case (Suc k)
    show ?case
    proof (cases "foldM (popcnt_step p VT G J Z) ?s [0..<k]")
      case None
      then show ?thesis using Suc by (simp add: foldM_append)
    next
      case (Some s)
      then have b: "best p G (cs k) s" using Suc by simp
      have k: "k < less_K p" using Suc.prems by simp
      have "set (cs k) \<subseteq> set (candidates p G)" using k by (auto simp: cs_def candidates_def)
      note S = best_step [OF G reg pos VT J_def Z_def k b this]
      have "cs (Suc k) = (if k \<in> set (candidates p G) then cs k @ [k] else cs k)"
        using k by (simp add: cs_def candidates_iff)
      moreover have "foldM (popcnt_step p VT G J Z) ?s [0..<Suc k] = popcnt_step p VT G J Z s k"
        using foldM_snoc [OF Some, of k] by simp
      ultimately show ?thesis using S by (cases "popcnt_step p VT G J Z s k") simp_all
    qed
  qed
  have c: "cs (less_K p) = candidates p G" by (simp add: cs_def candidates_def)
  have e: "CF p VT G = (case foldM (popcnt_step p VT G J Z) ?s [0..<less_K p] of None \<Rightarrow> None
      | Some (touched, L, M) \<Rightarrow> Some (touched, M))"
    using J ns by (simp add: CF_def compute_canonical_form_type5_popcnt_def cz)
  show "if candidates p G = [] then \<not> t
       else t \<and> (\<exists>b \<in> set (candidates p G). C = sorted_form p (scaled p G b) \<and>
              (\<forall>c \<in> set (candidates p G). top_key p (scaled p G b) \<le> top_key p (scaled p G c)))"
    if "CF p VT G = Some (t, C)"
    using loop [of "less_K p"] that unfolding e c by (auto simp: best_def split: option.splits)
  show "CF p VT G \<noteq> None" if "stack_need (less_K p) \<le> 64"
    using loop [of "less_K p"] that unfolding e by (auto split: option.splits)
qed

end
