(* ===== verification/Less_Invariance.thy ===== *)
theory Less_Invariance
  imports Less_CF
begin

text \<open>
  The canonical form does not depend on the order of the rows and of the columns
  nor on their scaling by units: on matrices without ties, a matrix and its image
  under monomial transformations on both sides have the same form.
\<close>

section \<open>Permuted rows\<close>

definition perm_row :: "nat list \<Rightarrow> bytes \<Rightarrow> bytes" where
  "perm_row t r = map (\<lambda>k. r ! k) t"

definition monomial_image :: "less_params \<Rightarrow> nat list \<Rightarrow> bytes \<Rightarrow> nat list \<Rightarrow> bytes \<Rightarrow> bytes list \<Rightarrow> bytes list" where
  \<comment> \<open>entry \<open>i, j\<close> is \<open>a_i * G (s_i, t_j) * b_j\<close>\<close>
  "monomial_image p s a t b G =
     map (\<lambda>i. map (\<lambda>j. fq_mul (fq_mul (a ! i) (G ! (s ! i) ! (t ! j))) (b ! j)) [0..<less_K p]) [0..<less_K p]"

definition monomial_ok :: "less_params \<Rightarrow> nat list \<Rightarrow> bytes \<Rightarrow> bool" where
  \<comment> \<open>a permutation with units as factors\<close>
  "monomial_ok p s a \<longleftrightarrow> mset s = mset [0..<less_K p] \<and> length a = less_K p \<and> (\<forall>x \<in> set a. reduced x \<and> x \<noteq> 0)"

lemma monomial_okD:
  assumes "monomial_ok p s a"
  shows "length s = less_K p" and "i < less_K p \<Longrightarrow> s ! i < less_K p" and "inj_on (\<lambda>i. s ! i) {..<less_K p}"
    and "i < less_K p \<Longrightarrow> \<exists>j<less_K p. s ! j = i" and "bij_betw (\<lambda>i. s ! i) {..<less_K p} {..<less_K p}"
    and "i < less_K p \<Longrightarrow> reduced (a ! i)" and "i < less_K p \<Longrightarrow> a ! i \<noteq> 0" and "i < less_K p \<Longrightarrow> gf (a ! i) \<noteq> 0"
proof -
  have s: "length s = less_K p" "distinct s" "set s = {..<less_K p}" and l: "length a = less_K p"
    using perm_facts [of s "less_K p"] assms by (simp_all add: monomial_ok_def)
  show "length s = less_K p" by (rule s(1))
  show lt: "s ! i < less_K p" if "i < less_K p" for i using s(1,3) that nth_mem [of i s] by auto
  show inj: "inj_on (\<lambda>i. s ! i) {..<less_K p}" using s(1,2) by (simp add: inj_on_def nth_eq_iff_index_eq)
  show sur: "\<exists>j<less_K p. s ! j = i" if "i < less_K p" for i using s(1,3) that by (metis in_set_conv_nth lessThan_iff)
  show "bij_betw (\<lambda>i. s ! i) {..<less_K p} {..<less_K p}"
    using inj lt sur by (force simp: bij_betw_def)
  show r: "reduced (a ! i)" "a ! i \<noteq> 0" if "i < less_K p" for i
    using assms l that nth_mem [of i a] by (auto simp: monomial_ok_def)
  then show "gf (a ! i) \<noteq> 0" if "i < less_K p" using that gf_eq_0 [of "a ! i"] by blast
qed

lemma perm_row_nth: "monomial_ok p t b \<Longrightarrow> j < less_K p \<Longrightarrow> perm_row t r ! j = r ! (t ! j)"
  using monomial_okD(1) [of p t b] by (simp add: perm_row_def)

lemma perm_row_mset: "monomial_ok p t b \<Longrightarrow> length r = less_K p \<Longrightarrow> mset (perm_row t r) = mset r"
  unfolding perm_row_def monomial_ok_def by (intro permuted_mset) simp

lemma perm_row_length: "monomial_ok p t b \<Longrightarrow> length (perm_row t r) = less_K p"
  using monomial_okD(1) [of p t b] by (simp add: perm_row_def)

lemma perm_row_ok: "monomial_ok p t b \<Longrightarrow> row_ok p r \<Longrightarrow> row_ok p (perm_row t r)"
  using perm_row_mset [of p t b r] perm_row_length [of p t b r] mset_eq_setD [of "perm_row t r" r] by (simp add: row_ok_def)

lemma row_key_mset: "mset r = mset s \<Longrightarrow> length r = less_K p \<Longrightarrow> row_key p r = row_key p s"
  unfolding row_key_def by (simp add: row_hist_mset)

lemma narrow_mset:
  assumes "mset r = mset s" and "length r = less_K p"
  shows "narrow_row p r \<longleftrightarrow> narrow_row p s"
proof -
  have e: "occurrences p x v = size (filter_mset (\<lambda>y. unat y = v) (mset x))" if "length x = less_K p" for x v
  proof -
    have "map (\<lambda>i. x ! i) [0..<less_K p] = x" using that map_nth [of x] by simp
    then have "filter (\<lambda>y. unat y = v) x = map (\<lambda>i. x ! i) (filter ((\<lambda>y. unat y = v) \<circ> (\<lambda>i. x ! i)) [0..<less_K p])"
      by (simp only: filter_map [symmetric])
    then have "length (filter (\<lambda>y. unat y = v) x) = occurrences p x v" by (simp add: occurrences_def comp_def)
    then show ?thesis unfolding mset_filter [symmetric] size_mset by simp
  qed
  have "length s = less_K p" using assms mset_eq_length by metis
  then show ?thesis using assms by (simp add: narrow_row_def e)
qed

section \<open>One row\<close>

definition row_image :: "less_params \<Rightarrow> nat list \<Rightarrow> gf127 \<Rightarrow> bytes \<Rightarrow> bytes \<Rightarrow> bool" where
  "row_image p t c x y \<longleftrightarrow> (\<forall>j<less_K p. gf (y ! j) = c * gf (x ! (t ! j)))"

lemma row_image_sum:
  assumes t: "monomial_ok p t b" and y: "row_image p t c x y"
  shows "(\<Sum>j<less_K p. gf (y ! j)) = c * (\<Sum>j<less_K p. gf (x ! j))"
    and "(\<Sum>j<less_K p. inverse (gf (y ! j))) = inverse c * (\<Sum>j<less_K p. inverse (gf (x ! j)))"
proof -
  have re: "(\<Sum>j<less_K p. f (t ! j)) = (\<Sum>j<less_K p. f j)" for f :: "nat \<Rightarrow> gf127"
    by (rule sum.reindex_bij_betw [OF monomial_okD(5) [OF t]])
  have "(\<Sum>j<less_K p. gf (y ! j)) = (\<Sum>j<less_K p. c * gf (x ! (t ! j)))" using y by (simp add: row_image_def)
  then show "(\<Sum>j<less_K p. gf (y ! j)) = c * (\<Sum>j<less_K p. gf (x ! j))"
    using re [of "\<lambda>j. gf (x ! j)"] by (simp flip: sum_distrib_left)
  have "(\<Sum>j<less_K p. inverse (gf (y ! j))) = (\<Sum>j<less_K p. inverse c * inverse (gf (x ! (t ! j))))" using y by (simp add: row_image_def)
  then show "(\<Sum>j<less_K p. inverse (gf (y ! j))) = inverse c * (\<Sum>j<less_K p. inverse (gf (x ! j)))"
    using re [of "\<lambda>j. inverse (gf (x ! j))"] by (simp flip: sum_distrib_left)
qed

lemma row_image_same:
  assumes t: "monomial_ok p t b" and y: "row_image p t c x y" and c: "c \<noteq> 0" and ok: "row_ok p x" "row_ok p y"
  shows "row_all_same p y \<longleftrightarrow> row_all_same p x"
proof -
  have eq: "y ! i = y ! j \<longleftrightarrow> x ! (t ! i) = x ! (t ! j)" if "i < less_K p" "j < less_K p" for i j
  proof -
    have "y ! i = y ! j \<longleftrightarrow> gf (y ! i) = gf (y ! j)" using gf_inject row_ok_nth [OF ok(2)] that by blast
    also have "\<dots> \<longleftrightarrow> gf (x ! (t ! i)) = gf (x ! (t ! j))" using y c that by (simp add: row_image_def)
    also have "\<dots> \<longleftrightarrow> x ! (t ! i) = x ! (t ! j)" using gf_inject row_ok_nth [OF ok(1)] monomial_okD(2) [OF t] that by blast
    finally show ?thesis .
  qed
  have pair: "row_all_same p r \<longleftrightarrow> (\<forall>i<less_K p. \<forall>j<less_K p. r ! i = r ! j)" for r
    using less_K_pos [of p] unfolding row_all_same_iff by metis
  show ?thesis
  proof
    assume "row_all_same p x"
    then show "row_all_same p y" unfolding pair using eq monomial_okD(2) [OF t] by blast
  next
    assume "row_all_same p y"
    then have "x ! (t ! i) = x ! (t ! j)" if "i < less_K p" "j < less_K p" for i j using eq that unfolding pair by blast
    then show "row_all_same p x" unfolding pair using monomial_okD(4) [OF t] by metis
  qed
qed

lemma row_image_scaled:
  assumes t: "monomial_ok p t b" and y: "row_image p t c x y" and c: "c \<noteq> 0" and ok: "row_ok p x" "row_ok p y"
    and ns: "\<not> row_all_same p x"
  shows "scaling p y = None \<longleftrightarrow> scaling p x = None"
    and "scaling p x \<noteq> None \<Longrightarrow> scaled_row p y = perm_row t (scaled_row p x)"
proof -
  have ns': "\<not> row_all_same p y" using row_image_same [OF t y c ok] ns by simp
  note x1 = gf_row_acc [OF ok(1)] and y1 = gf_row_acc [OF ok(2)]
  note x2 = gf_row_acc_inv [OF ok(1)] and y2 = gf_row_acc_inv [OF ok(2)]
  have a: "gf (row_acc p y) = c * gf (row_acc p x)" "gf (row_acc_inv p y) = inverse c * gf (row_acc_inv p x)"
    using row_image_sum [OF t y] x1 y1 x2 y2 by simp_all
  have z: "row_acc p y = 0 \<longleftrightarrow> row_acc p x = 0" "row_acc_inv p y = 0 \<longleftrightarrow> row_acc_inv p x = 0"
    using a c gf_eq_0 [OF conjunct1 [OF x1]] gf_eq_0 [OF conjunct1 [OF y1]]
      gf_eq_0 [OF conjunct1 [OF x2]] gf_eq_0 [OF conjunct1 [OF y2]] by auto
  show n: "scaling p y = None \<longleftrightarrow> scaling p x = None" using z ns ns' by (simp add: scaling_def)
  assume some: "scaling p x \<noteq> None"
  obtain s where s: "scaling p x = Some s" using some by (cases "scaling p x") simp_all
  obtain s' where s': "scaling p y = Some s'" using some n by (cases "scaling p y") simp_all
  have sn: "reduced s" "reduced s'" using scaling_nonzero [OF ok(1) s] scaling_nonzero [OF ok(2) s'] by blast+
  have k: "gf s' = inverse c * gf s"
    using s s' ns ns' z a fq_inv_gf [OF conjunct1 [OF x1]] fq_inv_gf [OF conjunct1 [OF y1]]
    by (auto simp: scaling_def inverse_mult_distrib split: if_splits)
  show "scaled_row p y = perm_row t (scaled_row p x)"
  proof (rule row_eqI [of p])
    show "row_ok p (scaled_row p y)" using scaled_row_ok [OF ok(2)] s' by simp
    show "row_ok p (perm_row t (scaled_row p x))" by (intro perm_row_ok [OF t] scaled_row_ok [OF ok(1) some])
    fix j assume j: "j < less_K p"
    note tj = monomial_okD(2) [OF t j]
    have "gf (scaled_row p y ! j) = gf s' * gf (y ! j)"
      using gf_row_mul [OF ok(2) sn(2) j] ns' s' by (simp add: scaled_row_def)
    also have "\<dots> = gf s * gf (x ! (t ! j))" using y j c k by (simp add: row_image_def field_simps)
    also have "\<dots> = gf (scaled_row p x ! (t ! j))" using gf_row_mul [OF ok(1) sn(1) tj] ns s by (simp add: scaled_row_def)
    finally show "gf (scaled_row p y ! j) = gf (perm_row t (scaled_row p x) ! j)" by (simp add: perm_row_nth [OF t j])
  qed
qed

section \<open>One candidate\<close>

lemma monomial_image_ok:
  assumes G: "code_ok p G" and s: "monomial_ok p s a" and t: "monomial_ok p t b"
  shows "code_ok p (monomial_image p s a t b G)"
    and "i < less_K p \<Longrightarrow> j < less_K p \<Longrightarrow>
      gf (monomial_image p s a t b G ! i ! j) = gf (a ! i) * gf (G ! (s ! i) ! (t ! j)) * gf (b ! j)"
proof -
  have r: "reduced (monomial_image p s a t b G ! i ! j)
      \<and> gf (monomial_image p s a t b G ! i ! j) = gf (a ! i) * gf (G ! (s ! i) ! (t ! j)) * gf (b ! j)"
    if i: "i < less_K p" and j: "j < less_K p" for i j
  proof -
    have red: "reduced (a ! i)" "reduced (G ! (s ! i) ! (t ! j))" "reduced (b ! j)"
      using code_ok_nth [OF G] monomial_okD(2,6) [OF s i] monomial_okD(2,6) [OF t j] by blast+
    note m = fq_mul_gf [OF red(1,2)]
    show ?thesis using m fq_mul_gf [OF conjunct1 [OF m] red(3)] i j by (simp add: monomial_image_def)
  qed
  show "code_ok p (monomial_image p s a t b G)"
    by (intro code_okI row_okI) (use r in \<open>auto simp: monomial_image_def\<close>)
  show "i < less_K p \<Longrightarrow> j < less_K p \<Longrightarrow>
      gf (monomial_image p s a t b G ! i ! j) = gf (a ! i) * gf (G ! (s ! i) ! (t ! j)) * gf (b ! j)"
    using r by blast
qed

lemma monomial_image_zeros:
  assumes G: "code_ok p G" and s: "monomial_ok p s a" and t: "monomial_ok p t b" and i: "i < less_K p"
  shows "zeros p (monomial_image p s a t b G) i = zeros p G (s ! i)"
proof -
  let ?G = "monomial_image p s a t b G"
  have z: "?G ! i ! j = 0 \<longleftrightarrow> G ! (s ! i) ! (t ! j) = 0" if j: "j < less_K p" for j
    using gf_eq_0 [OF code_ok_nth [OF monomial_image_ok(1) [OF G s t] i j]] monomial_image_ok(2) [OF G s t i j]
      gf_eq_0 [OF code_ok_nth [OF G monomial_okD(2) [OF s i] monomial_okD(2) [OF t j]]]
      monomial_okD(8) [OF s i] monomial_okD(8) [OF t j] by simp
  have "(\<lambda>j. t ! j) ` {j. j < less_K p \<and> ?G ! i ! j = 0} = {j. j < less_K p \<and> G ! (s ! i) ! j = 0}"
  proof (rule set_eqI, rule iffI)
    fix k assume "k \<in> {j. j < less_K p \<and> G ! (s ! i) ! j = 0}"
    moreover then obtain j where "j < less_K p" "t ! j = k" using monomial_okD(4) [OF t, of k] by blast
    ultimately show "k \<in> (\<lambda>j. t ! j) ` {j. j < less_K p \<and> ?G ! i ! j = 0}" using z by blast
  qed (use z monomial_okD(2) [OF t] in auto)
  moreover have "inj_on (\<lambda>j. t ! j) {j. j < less_K p \<and> ?G ! i ! j = 0}"
    by (rule inj_on_subset [OF monomial_okD(3) [OF t]]) auto
  ultimately show ?thesis by (simp add: zeros_def row_count_zero_eq flip: card_image)
qed

lemma cand_image:
  assumes G: "code_ok p G" and s: "monomial_ok p s a" and t: "monomial_ok p t b"
    and r: "r < less_K p" and z: "zeros p G (s ! r) = 0" and i: "i < less_K p"
  obtains c where "c \<noteq> 0"
    and "row_image p t c (cand p G (s ! r) ! (s ! i)) (cand p (monomial_image p s a t b G) r ! i)"
proof
  show "gf (a ! i) * inverse (gf (a ! r)) \<noteq> 0" using monomial_okD(8) [OF s] i r by simp
  show "row_image p t (gf (a ! i) * inverse (gf (a ! r))) (cand p G (s ! r) ! (s ! i)) (cand p (monomial_image p s a t b G) r ! i)"
    unfolding row_image_def
  proof (intro allI impI)
    fix j assume j: "j < less_K p"
    note G' = monomial_image_ok [OF G s t]
    note si = monomial_okD(2) [OF s i] and sr = monomial_okD(2) [OF s r] and tj = monomial_okD(2) [OF t j]
    have "gf (b ! j) \<noteq> 0" by (rule monomial_okD(8) [OF t j])
    then show "gf (cand p (monomial_image p s a t b G) r ! i ! j)
        = gf (a ! i) * inverse (gf (a ! r)) * gf (cand p G (s ! r) ! (s ! i) ! (t ! j))"
      unfolding gf_cand [OF G'(1) r i j] gf_cand [OF G sr si tj] G'(2) [OF i j] G'(2) [OF r j]
      by (simp add: inverse_mult_distrib mult_ac)
  qed
qed

lemma rows_image:
  assumes G: "code_ok p G" and s: "monomial_ok p s a" and t: "monomial_ok p t b" and reg: "regular p G"
    and r: "r < less_K p" and c: "s ! r \<in> set (candidates p G)" and i: "i < less_K p"
  defines "G' \<equiv> monomial_image p s a t b G"
  shows "scaling p (cand p G' r ! i) \<noteq> None"
    and "scaled p G' r ! i = perm_row t (scaled p G (s ! r) ! (s ! i))"
    and "i \<noteq> r \<Longrightarrow> \<not> row_all_same p (cand p G' r ! i)"
proof -
  have c': "s ! r < less_K p" "zeros p G (s ! r) = 0" "cand_ok p G (s ! r)" using c by (simp_all add: candidates_iff)
  note G' = monomial_image_ok(1) [OF G s t, folded G'_def]
  have zr: "zeros p G' r = 0" using monomial_image_zeros [OF G s t r] c'(2) by (simp add: G'_def)
  note si = monomial_okD(2) [OF s i]
  show sc: "scaling p (cand p G' r ! i) \<noteq> None"
    and "scaled p G' r ! i = perm_row t (scaled p G (s ! r) ! (s ! i))"
    and "i \<noteq> r \<Longrightarrow> \<not> row_all_same p (cand p G' r ! i)"
  proof -
    have x: "row_ok p (cand p G (s ! r) ! (s ! i))" "row_ok p (cand p G' r ! i)"
      using cand_code_ok [OF G c'(1)] cand_code_ok [OF G' r] code_ok_row si i by blast+
    obtain k where k: "k \<noteq> 0" "row_image p t k (cand p G (s ! r) ! (s ! i)) (cand p G' r ! i)"
      using cand_image [OF G s t r c'(2) i] by (auto simp: G'_def)
    have some: "scaling p (cand p G (s ! r) ! (s ! i)) \<noteq> None" using c'(3) si by (simp add: cand_ok_def)
    have "scaling p (cand p G' r ! i) \<noteq> None \<and> scaled p G' r ! i = perm_row t (scaled p G (s ! r) ! (s ! i))
      \<and> (i \<noteq> r \<longrightarrow> \<not> row_all_same p (cand p G' r ! i))"
    proof (cases "i = r")
      case True
      have o: "cand p G' r ! r = replicate (less_K p) 1" "cand p G (s ! r) ! (s ! r) = replicate (less_K p) 1"
        using cand_row_ones [OF G' r zr] cand_row_ones [OF G c'(1,2)] by simp_all
      have same: "row_all_same p (replicate (less_K p) 1)" by (simp add: row_all_same_iff)
      have "perm_row t (replicate (less_K p) 1) = replicate (less_K p) 1"
        using monomial_okD(1,2) [OF t] by (intro nth_equalityI) (simp_all add: perm_row_def)
      then show ?thesis using True r c'(1) o same by (simp add: scaling_def scaled_def scaled_row_def)
    next
      case False
      then have "s ! i \<noteq> s ! r" using monomial_okD(3) [OF s] i r by (auto simp: inj_on_def)
      then have ns: "\<not> row_all_same p (cand p G (s ! r) ! (s ! i))" by (rule regularD(3) [OF reg c si])
      note S = row_image_scaled [OF t k(2) k(1) x ns]
      show ?thesis using S some row_image_same [OF t k(2) k(1) x] ns i si by (simp add: scaled_def)
    qed
    then show "scaling p (cand p G' r ! i) \<noteq> None" "scaled p G' r ! i = perm_row t (scaled p G (s ! r) ! (s ! i))"
      "i \<noteq> r \<Longrightarrow> \<not> row_all_same p (cand p G' r ! i)" by blast+
  qed
qed

lemma cand_ok_image:
  assumes G: "code_ok p G" and s: "monomial_ok p s a" and t: "monomial_ok p t b"
    and r: "r < less_K p" and z: "zeros p G (s ! r) = 0"
  shows "cand_ok p (monomial_image p s a t b G) r \<longleftrightarrow> cand_ok p G (s ! r)"
proof -
  let ?G = "monomial_image p s a t b G"
  note G' = monomial_image_ok(1) [OF G s t]
  note sr = monomial_okD(2) [OF s r]
  have "scaling p (cand p ?G r ! i) = None \<longleftrightarrow> scaling p (cand p G (s ! r) ! (s ! i)) = None" if i: "i < less_K p" for i
  proof -
    note si = monomial_okD(2) [OF s i]
    have x: "row_ok p (cand p G (s ! r) ! (s ! i))" "row_ok p (cand p ?G r ! i)"
      using cand_code_ok [OF G sr] cand_code_ok [OF G' r] code_ok_row si i by blast+
    obtain k where k: "k \<noteq> 0" "row_image p t k (cand p G (s ! r) ! (s ! i)) (cand p ?G r ! i)"
      using cand_image [OF G s t r z i] .
    show ?thesis
    proof (cases "row_all_same p (cand p G (s ! r) ! (s ! i))")
      case True
      then show ?thesis using row_image_same [OF t k(2,1) x] by (simp add: scaling_def)
    next
      case False
      then show ?thesis by (rule row_image_scaled(1) [OF t k(2,1) x])
    qed
  qed
  then show ?thesis using monomial_okD(2,4) [OF s] unfolding cand_ok_def by (metis atLeastLessThan_iff set_upt zero_le)
qed

lemma candidates_image:
  assumes G: "code_ok p G" and s: "monomial_ok p s a" and t: "monomial_ok p t b"
  shows "r \<in> set (candidates p (monomial_image p s a t b G)) \<longleftrightarrow> r < less_K p \<and> s ! r \<in> set (candidates p G)"
  using monomial_image_zeros [OF G s t, of r] cand_ok_image [OF G s t, of r] monomial_okD(2) [OF s, of r]
  by (auto simp: candidates_iff)

section \<open>The sorted form\<close>

lemma sort_mset_eq: "mset xs = mset ys \<Longrightarrow> sort xs = sort ys"
  by (rule properties_for_sort) simp_all

lemma sorted_form_image:
  assumes R: "code_ok p R" and s: "monomial_ok p s a" and t: "monomial_ok p t b"
    and d: "distinct (map (row_key p) R)"
    and R': "length R' = less_K p" "\<And>i. i < less_K p \<Longrightarrow> R' ! i = perm_row t (R ! (s ! i))"
  shows "mset R' = mset (map (perm_row t) R)" and "mset (map (row_key p) R') = mset (map (row_key p) R)"
    and "top_key p R' = top_key p R" and "sorted_form p R' = sorted_form p R"
proof -
  define n where "n = less_K p"
  have len: "length R = n" "\<And>r. r \<in> set R \<Longrightarrow> length r = n" using code_ok_lengths [OF R] by (simp_all add: n_def)
  have "R' = map (\<lambda>i. perm_row t (R ! i)) s"
    using monomial_okD(1) [OF s] R' by (intro nth_equalityI) simp_all
  then have "mset R' = image_mset (\<lambda>i. perm_row t (R ! i)) (mset s)" by simp
  also have "mset s = mset [0..<n]" using s by (simp add: monomial_ok_def n_def)
  also have "image_mset (\<lambda>i. perm_row t (R ! i)) (mset [0..<n]) = mset (map (perm_row t) (map (\<lambda>i. R ! i) [0..<n]))"
    by (simp add: image_mset.compositionality comp_def)
  also have "map (\<lambda>i. R ! i) [0..<n] = R" using len(1) map_nth [of R] by simp
  finally show m: "mset R' = mset (map (perm_row t) R)" by simp
  have key: "row_key p (perm_row t r) = row_key p r" if "length r = n" for r
    by (rule row_key_mset) (use that perm_row_mset [OF t] perm_row_length [OF t] in \<open>simp_all add: n_def\<close>)
  then have keys: "map (row_key p) (map (perm_row t) R) = map (row_key p) R" using len(2) by simp
  then show mk: "mset (map (row_key p) R') = mset (map (row_key p) R)" using m by (metis mset_map)
  define S where "S = row_sorted p R"
  have S: "mset S = mset R" "length S = n" "\<And>r. r \<in> set S \<Longrightarrow> length r = n" "sorted (map (row_key p) S)"
    using len by (simp_all add: S_def row_sorted_def)
  have Sk: "map (row_key p) (map (perm_row t) S) = map (row_key p) S" using key S(3) by simp
  have "row_sorted p R' = map (perm_row t) S"
  proof (rule sorted_rows_unique [where f = "row_key p"])
    show "mset (row_sorted p R') = mset (map (perm_row t) S)" using m S(1) by (simp add: row_sorted_def)
    show "sorted (map (row_key p) (row_sorted p R'))" by (simp add: row_sorted_def)
    show "sorted (map (row_key p) (map (perm_row t) S))" unfolding Sk by (rule S(4))
    have "mset (map (row_key p) (row_sorted p R')) = mset (map (row_key p) R)" using mk by (simp add: row_sorted_def)
    then show "distinct (map (row_key p) (row_sorted p R'))" using d mset_eq_imp_distinct_iff by blast
  qed
  note rs = this
  have n0: "0 < n" by (simp add: n_def)
  have "S \<noteq> []" using S(2) n0 by force
  then have "map (perm_row t) S ! 0 = perm_row t (S ! 0)" "S ! 0 \<in> set S" by simp_all
  then show "top_key p R' = top_key p R" using key S(3) by (simp add: top_key_def rs flip: S_def)
  have nth: "i < n \<Longrightarrow> map (perm_row t) S ! i = perm_row t (S ! i)" for i using S(2) by simp
  have "transposed n (map (perm_row t) S) = map (\<lambda>k. transposed n S ! k) t"
  proof (rule nth_equalityI)
    show "length (transposed n (map (perm_row t) S)) = length (map (\<lambda>k. transposed n S ! k) t)"
      using monomial_okD(1) [OF t] by (simp add: n_def)
    fix j assume "j < length (transposed n (map (perm_row t) S))"
    then have j: "j < n" by simp
    then have tj: "t ! j < n" "j < length t" using monomial_okD(1,2) [OF t] by (simp_all add: n_def)
    show "transposed n (map (perm_row t) S) ! j = map (\<lambda>k. transposed n S ! k) t ! j"
      unfolding nth_map [OF tj(2)]
      using j tj perm_row_nth [OF t, folded n_def, OF j] nth by (simp add: transposed_def)
  qed
  then have "mset (transposed n (map (perm_row t) S)) = mset (transposed n S)"
    using permuted_mset [of t "transposed n S"] t by (simp add: monomial_ok_def n_def)
  then have "sort (transposed n (map (perm_row t) S)) = sort (transposed n S)" by (rule sort_mset_eq)
  then show "sorted_form p R' = sorted_form p R" by (simp add: sorted_form_def rs flip: S_def n_def)
qed

section \<open>The matrix\<close>

lemma image_form:
  assumes G: "code_ok p G" and s: "monomial_ok p s a" and t: "monomial_ok p t b" and reg: "regular p G"
    and r: "r < less_K p" and c: "s ! r \<in> set (candidates p G)"
  defines "G' \<equiv> monomial_image p s a t b G"
  shows "mset (map (row_key p) (scaled p G' r)) = mset (map (row_key p) (scaled p G (s ! r)))"
    and "top_key p (scaled p G' r) = top_key p (scaled p G (s ! r))"
    and "sorted_form p (scaled p G' r) = sorted_form p (scaled p G (s ! r))"
    and "x \<in> set (scaled p G' r) \<Longrightarrow> narrow_row p x"
proof -
  have R: "code_ok p (scaled p G (s ! r))" using scaled_code_ok [OF G] c by (simp add: candidates_iff)
  have i: "i < less_K p \<Longrightarrow> scaled p G' r ! i = perm_row t (scaled p G (s ! r) ! (s ! i))" for i
    using rows_image(2) [OF G s t reg r c] by (simp add: G'_def)
  have l: "length (scaled p G' r) = less_K p" by (simp add: scaled_def)
  note F = sorted_form_image [OF R s t regularD(1) [OF reg c] l i]
  show "mset (map (row_key p) (scaled p G' r)) = mset (map (row_key p) (scaled p G (s ! r)))"
    and "top_key p (scaled p G' r) = top_key p (scaled p G (s ! r))"
    and "sorted_form p (scaled p G' r) = sorted_form p (scaled p G (s ! r))" by (rule F(2) F(3) F(4); assumption)+
  show "narrow_row p x" if x: "x \<in> set (scaled p G' r)"
  proof -
    have "set (scaled p G' r) = set (map (perm_row t) (scaled p G (s ! r)))" by (rule mset_eq_setD, rule F(1))
    then obtain y where y: "y \<in> set (scaled p G (s ! r))" "x = perm_row t y" using x by auto
    have "length y = less_K p" by (rule code_ok_lengths(2) [OF R y(1)])
    then show ?thesis
      using narrow_mset [OF perm_row_mset [OF t] perm_row_length [OF t]] regularD(2) [OF reg c y(1)] y(2) by blast
  qed
qed

lemma regular_image:
  assumes G: "code_ok p G" and s: "monomial_ok p s a" and t: "monomial_ok p t b" and reg: "regular p G"
  shows "regular p (monomial_image p s a t b G)"
  unfolding regular_def
proof (rule ballI)
  let ?G = "monomial_image p s a t b G"
  fix r assume "r \<in> set (candidates p ?G)"
  then have r: "r < less_K p" "s ! r \<in> set (candidates p G)" using candidates_image [OF G s t] by simp_all
  note F = image_form [OF G s t reg r]
  have "distinct (map (row_key p) (scaled p ?G r))"
    using mset_eq_imp_distinct_iff [OF F(1)] regularD(1) [OF reg r(2)] by blast
  moreover have "sorted_form p (scaled p ?G r) = sorted_form p (scaled p ?G q)"
    if q: "q \<in> set (candidates p ?G)" and e: "top_key p (scaled p ?G r) = top_key p (scaled p ?G q)" for q
  proof -
    have q': "q < less_K p" "s ! q \<in> set (candidates p G)" using q candidates_image [OF G s t] by simp_all
    note Q = image_form [OF G s t reg q']
    show ?thesis unfolding F(3) Q(3) by (rule regularD(4) [OF reg r(2) q'(2)]) (use e F(2) Q(2) in simp)
  qed
  moreover have "\<forall>i \<in> set [0..<less_K p]. i = r \<or> \<not> row_all_same p (cand p ?G r ! i)"
    using rows_image(3) [OF G s t reg r] by auto
  ultimately show "distinct (map (row_key p) (scaled p ?G r)) \<and> (\<forall>x \<in> set (scaled p ?G r). narrow_row p x) \<and>
      (\<forall>i \<in> set [0..<less_K p]. i = r \<or> \<not> row_all_same p (cand p ?G r ! i)) \<and>
      (\<forall>q \<in> set (candidates p ?G). top_key p (scaled p ?G r) = top_key p (scaled p ?G q) \<longrightarrow>
        sorted_form p (scaled p ?G r) = sorted_form p (scaled p ?G q))" using F(4) by blast
qed

lemma same_zeros_image:
  assumes G: "code_ok p G" and s: "monomial_ok p s a" and t: "monomial_ok p t b"
  shows "same_zeros p (monomial_image p s a t b G) \<longleftrightarrow> same_zeros p G"
proof -
  let ?G = "monomial_image p s a t b G"
  have "zeros p ?G ` {..<less_K p} = zeros p G ` ((\<lambda>i. s ! i) ` {..<less_K p})"
    unfolding image_image using monomial_image_zeros [OF G s t] by (intro image_cong) simp_all
  also have "(\<lambda>i. s ! i) ` {..<less_K p} = {..<less_K p}" using monomial_okD(5) [OF s] by (simp add: bij_betw_def)
  finally have e: "zeros p ?G ` {..<less_K p} = zeros p G ` {..<less_K p}" .
  have "same_zeros p H \<longleftrightarrow> zeros p H ` {..<less_K p} \<subseteq> {most_zeros p H}" for H
    unfolding same_zeros_def set_upt lessThan_atLeast0 [symmetric] by blast
  then show ?thesis using e by (simp add: most_zeros_def)
qed

lemma CF_image:
  assumes G: "code_ok p G" and s: "monomial_ok p s a" and t: "monomial_ok p t b" and reg: "regular p G"
    and VT: "length VT = less_K p * less_K p" "length VT' = less_K p * less_K p"
    and f: "CF p VT G = Some (x, C)" and f': "CF p VT' (monomial_image p s a t b G) = Some (x', C')"
  shows "x' = x \<and> (x \<longrightarrow> C' = C)"
proof -
  let ?G = "monomial_image p s a t b G"
  note G' = monomial_image_ok(1) [OF G s t] and reg' = regular_image [OF G s t reg]
  have cs: "r \<in> set (candidates p ?G) \<longleftrightarrow> r < less_K p \<and> s ! r \<in> set (candidates p G)" for r
    by (rule candidates_image [OF G s t])
  have pre: "\<exists>r \<in> set (candidates p ?G). s ! r = q" if "q \<in> set (candidates p G)" for q
  proof -
    have "q < less_K p" using that by (simp add: candidates_iff)
    then obtain r where r: "r < less_K p" "s ! r = q" using monomial_okD(4) [OF s] by blast
    then have "r \<in> set (candidates p ?G)" unfolding cs using that by simp
    then show ?thesis using r(2) by blast
  qed
  then have none: "candidates p ?G = [] \<longleftrightarrow> candidates p G = []"
    using cs by (metis list.set_intros(1) list.set_cases neq_Nil_conv empty_iff list.set(1))
  show ?thesis
  proof (cases "same_zeros p G")
    case True
    then show ?thesis
      using CF_cases(1) [OF G reg VT(1)] CF_cases(1) [OF G' reg' VT(2)] same_zeros_image [OF G s t] f f' none
      by (auto split: if_splits)
  next
    case False
    note A = CF_cases(2) [OF G reg VT(1) False f]
    have "\<not> same_zeros p ?G" using False same_zeros_image [OF G s t] by simp
    note B = CF_cases(2) [OF G' reg' VT(2) this f']
    show ?thesis
    proof (cases "candidates p G = []")
      case True
      then show ?thesis using A B none by simp
    next
      case False
      then obtain q where q: "q \<in> set (candidates p G)" "C = sorted_form p (scaled p G q)" "x"
          "\<forall>c \<in> set (candidates p G). top_key p (scaled p G q) \<le> top_key p (scaled p G c)" using A by auto
      obtain r where r: "r \<in> set (candidates p ?G)" "C' = sorted_form p (scaled p ?G r)" "x'"
          "\<forall>c \<in> set (candidates p ?G). top_key p (scaled p ?G r) \<le> top_key p (scaled p ?G c)" using B False none by auto
      have r': "r < less_K p" "s ! r \<in> set (candidates p G)" using r(1) cs by simp_all
      obtain u where u: "u \<in> set (candidates p ?G)" "s ! u = q" using pre [OF q(1)] by blast
      have u': "u < less_K p" "s ! u \<in> set (candidates p G)" using u(1) cs by simp_all
      have "top_key p (scaled p G (s ! r)) \<le> top_key p (scaled p G q)"
        using r(4) u image_form(2) [OF G s t reg r'] image_form(2) [OF G s t reg u'] by auto
      then have "top_key p (scaled p G q) = top_key p (scaled p G (s ! r))" using q(4) r'(2) by (intro order_antisym) auto
      then have "C = sorted_form p (scaled p G (s ! r))" using regularD(4) [OF reg q(1) r'(2)] q(2) by simp
      then show ?thesis using r(2,3) q(3) image_form(3) [OF G s t reg r'] by simp
    qed
  qed
qed

section \<open>A matrix without ties\<close>

definition staircase :: "bytes list" where
  "staircase = map (\<lambda>i. replicate i 0 @ replicate (8 - i) 1) [0..<8]"

lemma toy_K [simp]: "less_K LESS_TOY = 8"
  by (simp add: less_K_def)

lemma staircase_nth: "i < 8 \<Longrightarrow> j < 8 \<Longrightarrow> staircase ! i ! j = (if j < i then 0 else 1)"
proof -
  assume i: "i < 8" and j: "j < 8"
  have "staircase ! i = replicate i 0 @ replicate (8 - i) 1" using i by (simp add: staircase_def)
  then show ?thesis using j by (simp only: nth_append) simp
qed

lemma staircase_list: "staircase =
  [[1,1,1,1,1,1,1,1],[0,1,1,1,1,1,1,1],[0,0,1,1,1,1,1,1],[0,0,0,1,1,1,1,1],
   [0,0,0,0,1,1,1,1],[0,0,0,0,0,1,1,1],[0,0,0,0,0,0,1,1],[0,0,0,0,0,0,0,1]]"
  by (simp add: staircase_def upt_rec numeral_eq_Suc)

lemma staircase_ok: "code_ok LESS_TOY staircase"
  by (simp add: code_ok_def row_ok_def staircase_list)

lemma staircase_zeros: "i < 8 \<Longrightarrow> zeros LESS_TOY staircase i = i"
proof -
  assume i: "i < 8"
  have "{j. j < 8 \<and> staircase ! i ! j = 0} = {..<i}" using i by (auto simp: staircase_def nth_append)
  then show ?thesis by (simp add: zeros_def row_count_zero_eq)
qed

lemma staircase_cand: "cand LESS_TOY staircase 0 = staircase"
proof (rule nth_equalityI)
  fix i assume "i < length (cand LESS_TOY staircase 0)"
  then have i: "i < 8" by simp
  show "cand LESS_TOY staircase 0 ! i = staircase ! i"
  proof (rule row_eqI [of LESS_TOY])
    fix j assume j: "j < less_K LESS_TOY"
    then have "staircase ! 0 ! j = 1" by (simp add: staircase_def)
    then show "gf (cand LESS_TOY staircase 0 ! i ! j) = gf (staircase ! i ! j)"
      using gf_cand [OF staircase_ok, of 0 i j] i j by simp
  qed (use i code_ok_row [OF staircase_ok] code_ok_row [OF cand_code_ok [OF staircase_ok]] in simp_all)
qed (simp add: staircase_def)

lemma staircase_acc: "i < 8 \<Longrightarrow> row_acc LESS_TOY (staircase ! i) \<noteq> 0"
proof -
  have "list_all (\<lambda>r. row_acc LESS_TOY r \<noteq> 0) staircase"
    by (simp add: staircase_list row_acc_def less_K_def upt_rec fq_add_def fq_cond_sub_def)
  then show "i < 8 \<Longrightarrow> row_acc LESS_TOY (staircase ! i) \<noteq> 0" by (simp add: list_all_length staircase_def)
qed

lemma staircase_candidates: "candidates LESS_TOY staircase = [0]"
proof -
  have "cand_ok LESS_TOY staircase 0"
    using staircase_acc by (auto simp: cand_ok_def staircase_cand scaling_def)
  then have "candidates LESS_TOY staircase = filter (\<lambda>r. r = 0) [0..<8]"
    unfolding candidates_def toy_K by (intro filter_cong) (auto simp: staircase_zeros)
  then show ?thesis by (simp add: upt_rec)
qed

lemma staircase_regular: "regular LESS_TOY staircase"
  unfolding regular_def staircase_candidates
proof (intro ballI conjI impI; clarsimp)
  have c: "0 \<in> set (candidates LESS_TOY staircase)" by (simp add: staircase_candidates)
  have R: "code_ok LESS_TOY (scaled LESS_TOY staircase 0)"
    using scaled_code_ok [OF staircase_ok, of 0] c by (simp add: candidates_iff)
  show "narrow_row LESS_TOY x" for x by (rule narrow_small) simp
  have z: "row_key LESS_TOY (scaled LESS_TOY staircase 0 ! i) ! 0 = - int i" if "i < 8" for i
    using narrow_key_0 [OF code_ok_row [OF R] narrow_small, of i] zeros_scaled [OF staircase_ok c, of i] staircase_zeros [OF that] that
    by simp
  have "distinct (map (\<lambda>k. k ! 0) (map (row_key LESS_TOY) (scaled LESS_TOY staircase 0)))"
  proof -
    have "map (\<lambda>k. k ! 0) (map (row_key LESS_TOY) (scaled LESS_TOY staircase 0)) = map (\<lambda>i. - int i) [0..<8]"
      by (rule nth_equalityI) (use z in \<open>simp_all add: scaled_def\<close>)
    then show ?thesis by (simp add: distinct_map inj_on_def)
  qed
  then show "distinct (map (row_key LESS_TOY) (scaled LESS_TOY staircase 0))" by (simp only: distinct_map)
  fix i assume i: "i < 8" "0 < i" "row_all_same LESS_TOY (cand LESS_TOY staircase 0 ! i)"
  have same: "staircase ! i ! 7 = staircase ! i ! 0" using i(3) unfolding staircase_cand row_all_same_iff toy_K by (rule allE [of _ 7]) (erule impE; simp)
  have "staircase ! i ! 7 = 1" "staircase ! i ! 0 = 0" using i(1,2) staircase_nth [of i 7] staircase_nth [of i 0] by auto
  then show False unfolding same by simp
qed

lemma staircase_not_same: "\<not> same_zeros LESS_TOY staircase"
proof
  assume "same_zeros LESS_TOY staircase"
  then have "zeros LESS_TOY staircase 0 = zeros LESS_TOY staircase 1" by (simp add: same_zeros_def)
  then show False by (simp add: staircase_zeros)
qed
end
