(* ===== verification/Spec2Isabelle.thy ===== *)
theory Spec2Isabelle
  imports Sign_Api Cross_x4_Correct Less_Invariance
begin

unbundle bit_operations_syntax

text \<open>
  Verification of the CROSS signature scheme: the reference implementation
  (\<open>src/cross/Reference_Implementation\<close>; file names below are relative to it) and the
  optimised implementation for AVX2 (\<open>src/cross/Optimized_Implementation\<close>), which the
  build selects and which is proved equivalent to it; and of the canonical forms of
  the LESS signature scheme (\<open>src/less/Reference_Implementation\<close>).

  CROSS proves knowledge of a vector \<open>e\<close> over the group generated by \<open>g\<close> in \<open>F_P\<close>
  with a given syndrome, in \<open>T\<close> rounds. Key generation expands a seed to a parity
  check matrix (for RSDP(G) also a generator matrix of a subgroup) and \<open>e\<close>; the public
  key is a seed of the matrices and the packed syndrome. Signing expands a seed per
  round from a tree, commits to a masked syndrome and to the seed, commits to all
  rounds by a Merkle root, hashes this with the message to a first challenge in
  \<open>F_P\<^sup>T\<close>, answers it, and hashes the answers to a second challenge of fixed weight \<open>W\<close>.
  For the \<open>W\<close> rounds with bit 1 the seeds are published inside a path of the tree,
  for the others the answer, the masked exponents and the second commitment. The
  verifier recomputes both digests.

  Build variants are values of the record \<open>cross_params\<close>: RSDP or RSDP(G), the
  category, the optimisation corner, and the macros \<open>NO_TREES\<close>, \<open>SKIP_ASSERT\<close>, \<open>NDEBUG\<close>.
  All statements hold for every such record.

  Theories, in the order of the calls:
  \<^item> \<open>Prelude\<close>: bytes, little-endian loads and stores, writes into buffers, checked
    accesses (\<open>load_at\<close>, \<open>store_at\<close>: \<open>None\<close> outside the buffer), loops in the option type;
  \<^item> \<open>Parameters\<close> (\<open>include/parameters.h\<close>): the constants and tables of the eighteen
    parameter sets;
  \<^item> \<open>Residue_Arith\<close>, \<open>Restr_Arith\<close> (\<open>include/restr_arith.h\<close>), \<open>Fp_Arith\<close>
    (\<open>include/fp_arith.h\<close>): reductions, vectors and matrices over the exponents and
    the field, with the truncation of each store; \<open>Zk_Algebra\<close>: the identity between
    the response and the commitment, with the bounds under which no sum wraps;
  \<^item> \<open>Pack_Unpack\<close> (\<open>lib/pack_unpack.c\<close>): the codecs of 3, 7 and 9 bits; the locales
    \<open>group_codec\<close> (one group of eight elements), \<open>bit_codec\<close> (a whole vector) and
    \<open>checked_codec\<close> (with the padding check) carry the round trips, and every codec is an
    interpretation;
  \<^item> \<open>Keccak\<close> (\<open>lib/keccakf1600.c\<close>): the unrolled permutation against the five steps
    of the standard; \<open>Fips202\<close> (\<open>lib/fips202.c\<close>, \<open>include/sha3.h\<close>): the one-shot and
    incremental sponges against one sponge on byte strings;
  \<^item> \<open>Csprng\<close> (\<open>lib/csprng_hash.c\<close>, \<open>include/csprng_hash.h\<close>): seeding, hashing, the
    rejection samplers over a 64-bit sub-buffer against rejection sampling on one
    little-endian number, and the digest expansion by a shuffle;
  \<^item> \<open>Tree_Shape\<close>: the truncated binary tree of the level tables as a locale \<open>tree_shape\<close>,
    interpreted on the tables of all parameter sets; \<open>Seed_Tree\<close> (\<open>lib/seedtree.c\<close>)
    and \<open>Merkle\<close> (\<open>lib/merkle.c\<close>): both builds of the two trees, the locales
    \<open>seed_release\<close> and \<open>commitment\<close> state what the signer and the verifier rely on;
  \<^item> \<open>Cross\<close> (\<open>lib/CROSS.c\<close>, \<open>include/CROSS.h\<close>): key generation, signing and verification;
    \<open>Cross_Correct\<close>: honest signatures; \<open>Any_Signature\<close>: all signatures;
  \<^item> \<open>Sign_Api\<close> (\<open>lib/sign.c\<close>): the interface on byte strings.

  The optimised implementation (file names relative to its directory):
  \<^item> \<open>Avx2\<close>: 256-bit registers as words, their lanes, and the vector instructions the
    code uses, each by its effect on the lanes as the vendor documents it;
  \<^item> \<open>Keccak_x4\<close> (\<open>lib/KeccakP-1600-times4-SIMD256.c\<close>): four permutations in one array of
    registers; \<open>Fips202_x4\<close> (\<open>lib/fips202x4.c\<close>): the four-way sponge; \<open>Csprng_x4\<close>
    (\<open>include/sha3.h\<close>, \<open>include/csprng_hash.h\<close>): the generators and the hash for one to
    four inputs. Every instance is proved to be a single sponge;
  \<^item> \<open>Batch\<close>: loops that collect up to four jobs and run them by one call, with the
    locale \<open>batching\<close> for when postponing is correct; \<open>Seed_Tree_x4\<close> (\<open>lib/seedtree.c\<close>) and
    \<open>Merkle_x4\<close> (\<open>lib/merkle.c\<close>) are its first clients: on one level of a tree a pending
    job does not touch what the following steps read;
  \<^item> \<open>Arith_Avx2\<close> (\<open>include/fp_arith.h\<close>, \<open>include/restr_arith.h\<close>): the vector products and
    the table look-up by a byte shuffle, lane by lane, with the bounds under which no
    lane wraps; results agree with the reference after the normalisation that follows
    every call;
  \<^item> \<open>Cross_x4\<close> (\<open>lib/CROSS.c\<close>): key generation, signing with one queue of rounds and
    verification with two queues; \<open>Cross_x4_Correct\<close>: same keys, same signatures, same
    accepted signatures. Where a padding check fails the verifiers may differ in the
    values they hash, never in accepting.

  LESS (file names relative to its directory): a public key is a code given by a
  generator matrix; signer and verifier agree on a matrix only up to permutations and
  scalings of its rows and columns, and hash its canonical form.
  \<^item> \<open>Less_Parameters\<close> (\<open>include/parameters.h\<close>): the parameter sets; \<open>Less_Fq\<close>
    (\<open>include/fq_arith.h\<close>): bytes as elements of the field with 127 elements, the type
    \<open>gf127\<close>, an instance of the class of fields;
  \<^item> \<open>Less_Transpose\<close> (\<open>lib/transpose.c\<close>): the transposition by blocks of words;
    \<open>Less_Sort\<close> (\<open>lib/sort.c\<close>): the two iterative quicksorts, instances of the locale
    \<open>key_partition\<close>, with the depth of their stacks;
  \<^item> \<open>Less_Canonical\<close> (\<open>lib/canonical.c\<close>): the canonical form; \<open>Less_Canonical_Form\<close>: order
    of histograms against order of sorted rows; \<open>Less_CF\<close>: the loop with its filter keeps
    the least candidate; \<open>Less_Invariance\<close>: the form is invariant on matrices without ties
    (\<open>regular\<close>). On ties the form depends on the order of the rows, as the code has it.

  State is passed explicitly: the global generator of \<open>randombytes\<close> is an argument and
  a result. Buffers are lists of bytes, C integers are naturals with the truncation
  written at the store, or machine words where the code works bitwise. Uninitialised
  memory that the code reads is an argument of the model, and the theorems hold for
  every value of it. A failed assertion and an access outside a buffer are values of
  the type \<open>fault\<close>.

  Termination: every loop of the code is a recursion over its range. The rejection
  loops consume the buffer that was drawn for them; as in the code the number of
  bytes drawn is a table entry, and past the end of the buffer zero bits are read,
  whose candidate (0, or 1 for \<open>F_P*\<close>) is accepted, so the loops end: the measure is
  the unread part of the buffer, then the missing elements, then the sub-buffer.
  No fuel is used anywhere. The quicksorts of LESS are partial functions on a stack of
  fixed size; that they return is proved from the bound \<open>stack_need\<close> on its depth.

  Not modelled: the libkeccak wrapper of \<open>include/sha3.h\<close> (a library outside the
  repository), the printing routines of \<open>lib/seedtree.c\<close>, the functions of the imported
  four-way Keccak that nothing calls, the fallback of the optimised implementation for
  machines without AVX2, running times, and the vectorised builds of LESS, the other eight schemes of the repository
  with their benchmark scripts. The vector instructions are part of the language of
  the compiler, not of the repository; the model takes them from their manual.
\<close>

text \<open>
  C1. For every parameter set, build, key generated from any state of the generator,
  message, and contents of the uninitialised memory: signing returns a signature of
  the declared sizes without an assertion failure or an access outside an array, and
  verification returns 1 for it.
\<close>

theorem honest_signature_accepted:
  "case CROSS_keygen p st of ((SK, PK), _) \<Rightarrow>
     (case CROSS_sign p junk_buffer SK m st' of
        Inl _ \<Rightarrow> False
      | Inr (sig, _) \<Rightarrow> sig_ok p sig \<and> CROSS_verify p junk PK m sig = Inr True)"
proof -
  obtain SK PK st1 where k: "CROSS_keygen p st = ((SK, PK), st1)" by (metis prod.collapse)
  obtain sig st2 where "CROSS_sign p junk_buffer SK m st' = Inr (sig, st2)" "sig_ok p sig" "CROSS_verify p junk PK m sig = Inr True"
    using sign_verify [OF k] by blast
  with k show ?thesis by simp
qed



text \<open>
  C3. The optimised implementation (vector arithmetic, four-way hashing, batched
  trees, queues of commitments) generates the keys and produces the signatures of the
  reference implementation, byte for byte and with the same faults, for every
  parameter set, state of the generator, message, and contents of uninitialised
  memory.
\<close>

theorem optimised_signatures_identical:
  "CROSS_keygen_x4 p st = CROSS_keygen p st \<and> CROSS_sign_x4 p u SK m st' = CROSS_sign p junk_buffer SK m st'"
  using keygen_x4_same sign_x4_same by blast

text \<open>
  C4. The optimised verifier, which postpones the hashing of both commitments in two
  queues, accepts exactly the signatures the reference verifier accepts, for every
  signature and public key of the declared sizes, honest or not.
\<close>

theorem optimised_verifier_accepts_same:
  assumes "sig_ok p sig" and "length (pk_s PK) = DENSELY_PACKED_FP_SYN_SIZE p"
  shows "CROSS_verify_x4 p u junk PK m sig = Inr True \<longleftrightarrow> CROSS_verify p junk PK m sig = Inr True"
  using assms by (rule verify_x4_accepts)

theorem optimised_verifier_accepts_same_witness:
  defines "p \<equiv> \<lparr>variant = RSDP, cat = CATEGORY_1, corner = BALANCED, no_trees = False, skip_assert = False, ndebug = False\<rparr>"
  shows "CROSS_verify_x4 p (\<lparr>stale_bytes = \<lambda>i. of_nat (i + 170), stale_states = \<lparr>par_state1 = shake128_inc_init, par_state2 = \<lparr>x2_state1 = shake128_inc_init, x2_state2 = shake128_inc_init\<rparr>, par_state4 = keccak_x4_init\<rparr>\<rparr>) (\<lparr>junk_tree = \<lambda>_. [], junk_y = \<lambda>_ _. 200, junk_v = \<lambda>_ _. 250\<rparr>) \<lparr>pk_seed_pk = [1], pk_s = replicate (DENSELY_PACKED_FP_SYN_SIZE p) 3\<rparr> [4] (zero_sig p) = Inr True
    \<longleftrightarrow> CROSS_verify p (\<lparr>junk_tree = \<lambda>_. [], junk_y = \<lambda>_ _. 200, junk_v = \<lambda>_ _. 250\<rparr>) \<lparr>pk_seed_pk = [1], pk_s = replicate (DENSELY_PACKED_FP_SYN_SIZE p) 3\<rparr> [4] (zero_sig p) = Inr True"
  by (rule optimised_verifier_accepts_same [OF zero_sig_ok]) simp

text \<open>
  C5. Whatever the contents of a signature of the declared sizes, the verifier reads
  the released seeds, the Merkle proof and the responses only inside their arrays, in
  both builds.
\<close>

theorem verifier_memory_safe:
  assumes "sig_ok p sig"
  shows "CROSS_verify p junk PK m sig \<noteq> Inl OUT_OF_BOUNDS"
  using assms by (rule verify_in_bounds)

theorem verifier_memory_safe_witness:
  "CROSS_verify (\<lparr>variant = RSDP, cat = CATEGORY_1, corner = BALANCED, no_trees = False, skip_assert = False, ndebug = False\<rparr>) (\<lparr>junk_tree = \<lambda>_. [], junk_y = \<lambda>_ _. 200, junk_v = \<lambda>_ _. 250\<rparr>) \<lparr>pk_seed_pk = [1], pk_s = [2]\<rparr> [3] (zero_sig (\<lparr>variant = RSDP, cat = CATEGORY_1, corner = BALANCED, no_trees = False, skip_assert = False, ndebug = False\<rparr>)) \<noteq> Inl OUT_OF_BOUNDS"
  by (rule verifier_memory_safe) (rule zero_sig_ok)

text \<open>
  C6. The canonical form of LESS does not depend on the monomial transformations of
  both sides: for a matrix without ties (regular), whenever CF returns on a matrix and
  on its image under permutations and scalings of its rows and columns, it returns the
  same flag and, if it succeeds, the same matrix, whatever its uninitialised buffers
  hold.
\<close>

theorem canonical_form_invariant:
  assumes "code_ok p G" and "regular p G" and "monomial_ok p s a" and "monomial_ok p t b"
    and "length VT = less_K p * less_K p" and "length VT' = less_K p * less_K p"
    and "CF p VT G = Some (x, C)" and "CF p VT' (monomial_image p s a t b G) = Some (x', C')"
  shows "x' = x \<and> (x \<longrightarrow> C' = C)"
  using assms by (intro CF_image)

theorem canonical_form_invariant_witness:
  "\<exists>C. CF LESS_TOY (replicate 64 5) staircase = Some (True, C)
    \<and> CF LESS_TOY (replicate 64 9) (monomial_image LESS_TOY [3,1,0,2,7,6,5,4] [1,2,3,4,5,6,7,8] [1,0,2,3,7,5,6,4] [9,8,7,6,5,4,3,2] staircase)
      = Some (True, C)"
proof -
  let ?s = "[3,1,0,2,7,6,5,4] :: nat list" and ?a = "[1,2,3,4,5,6,7,8] :: bytes"
  let ?t = "[1,0,2,3,7,5,6,4] :: nat list" and ?b = "[9,8,7,6,5,4,3,2] :: bytes"
  let ?G = "monomial_image LESS_TOY ?s ?a ?t ?b staircase"
  have s: "monomial_ok LESS_TOY ?s ?a" and t: "monomial_ok LESS_TOY ?t ?b"
  proof -
    have "[0..<8] = [0, 1, 2, 3, 4, 5, 6, 7 :: nat]" by (simp add: upt_rec numeral_eq_Suc)
    then show "monomial_ok LESS_TOY ?s ?a" "monomial_ok LESS_TOY ?t ?b" by (simp_all add: monomial_ok_def reduced_def)
  qed
  note ok = staircase_ok staircase_regular s t
  have "CF LESS_TOY (replicate 64 5) staircase \<noteq> None"
    by (rule CF_cases(3)) (simp_all add: staircase_ok staircase_regular staircase_not_same stack_need_def)
  then obtain x C where c: "CF LESS_TOY (replicate 64 5) staircase = Some (x, C)" by (metis not_None_eq surj_pair)
  then have "x" using CF_cases(2) [OF staircase_ok staircase_regular _ staircase_not_same, of "replicate 64 5" x C]
    by (simp add: staircase_candidates)
  have "CF LESS_TOY (replicate 64 9) ?G \<noteq> None"
    by (rule CF_cases(3)) (use monomial_image_ok(1) regular_image same_zeros_image ok staircase_not_same in \<open>simp_all add: stack_need_def\<close>)
  then obtain x' C' where c': "CF LESS_TOY (replicate 64 9) ?G = Some (x', C')" by (metis not_None_eq surj_pair)
  have "x' = x \<and> (x \<longrightarrow> C' = C)"
    by (rule canonical_form_invariant [OF ok _ _ c c']) simp_all
  with \<open>x\<close> show ?thesis using c c' by auto
qed

text \<open>
  C7. The comment "sign cannot fail" holds for every secret key, also one that no key
  generation produced: the bound on the published responses asserted in the loop
  holds, the proof and the path fit, and a signature of the declared sizes is
  returned.
\<close>

theorem signer_never_fails:
  "\<exists>sig st'. CROSS_sign p junk_buffer SK m st = Inr (sig, st') \<and> sig_ok p sig"
proof -
  obtain e_bar e_G_bar V_tr W_mat where k: "expand_sk p (sk_seed_sk SK) = (e_bar, e_G_bar, V_tr, W_mat)"
    by (metis prod_cases4)
  obtain sig st' where "CROSS_sign p junk_buffer SK m st = Inr (sig, st')" "sig_ok p sig" by (rule sign_succeeds [OF k])
  then show ?thesis by blast
qed

text \<open>
  C8. Through the byte-string interface: crypto_sign_open returns 0, the message and
  its length for what crypto_sign made with a key pair of crypto_sign_keypair, unless
  the signed length exceeds 64 bits.
\<close>

theorem api_roundtrip:
  assumes "length m + sizeof_CROSS_sig_t p < 2 ^ 64"
  shows "case crypto_sign_keypair p st of ((pk, sk, _), _) \<Rightarrow>
     (case crypto_sign p junk_buffer m sk st' of
        Inl _ \<Rightarrow> False
      | Inr ((sm, smlen, r), _) \<Rightarrow> r = 0 \<and> smlen = length sm
          \<and> crypto_sign_open p junk sm smlen pk = Inr (m, length m, 0))"
proof -
  obtain pk sk r st1 where k: "crypto_sign_keypair p st = ((pk, sk, r), st1)" by (metis prod.collapse)
  obtain sm st2 where "crypto_sign p junk_buffer m sk st' = Inr ((sm, length sm, 0), st2)"
    "crypto_sign_open p junk sm (length sm) pk = Inr (m, length m, 0)"
    using sign_open [OF k assms] by blast
  with k show ?thesis by simp
qed

theorem api_roundtrip_witness:
  "case crypto_sign_keypair (\<lparr>variant = RSDP, cat = CATEGORY_1, corner = BALANCED, no_trees = False, skip_assert = False, ndebug = False\<rparr>) shake128_inc_init of ((pk, sk, _), _) \<Rightarrow>
     (case crypto_sign (\<lparr>variant = RSDP, cat = CATEGORY_1, corner = BALANCED, no_trees = False, skip_assert = False, ndebug = False\<rparr>) (\<lambda>_. []) [1, 2, 3] sk shake128_inc_init of
        Inl _ \<Rightarrow> False
      | Inr ((sm, smlen, r), _) \<Rightarrow> r = 0 \<and> smlen = length sm
          \<and> crypto_sign_open (\<lparr>variant = RSDP, cat = CATEGORY_1, corner = BALANCED, no_trees = False, skip_assert = False, ndebug = False\<rparr>) (\<lparr>junk_tree = \<lambda>_. [], junk_y = \<lambda>_ _. 200, junk_v = \<lambda>_ _. 250\<rparr>) sm smlen pk = Inr ([1, 2, 3], length [1, 2, 3 :: byte], 0))"
proof (rule api_roundtrip)
  show "length [1, 2, 3 :: byte] + sizeof_CROSS_sig_t (\<lparr>variant = RSDP, cat = CATEGORY_1, corner = BALANCED, no_trees = False, skip_assert = False, ndebug = False\<rparr>) < 2 ^ 64"
    using sizeof_bound [of "\<lparr>variant = RSDP, cat = CATEGORY_1, corner = BALANCED, no_trees = False, skip_assert = False, ndebug = False\<rparr>"] by simp
qed

text \<open>
  C9. For vectors with the declared ranges, the syndrome the verifier recomputes from
  the response y = u' + c e' and the exponents v equals the syndrome of v * u' the
  signer committed to, for both variants and every parameter set.
\<close>

theorem response_syndrome:
  assumes "length e = par_N p" "length e' = par_N p" "length u' = par_N p" "length v = par_N p"
    and "fz_ok (variant p) e" "fz_ok (variant p) e'" "fz_ok (variant p) v"
    and "\<And>i. i < par_N p \<Longrightarrow> (v ! i + e' ! i) mod par_Z (variant p) = e ! i mod par_Z (variant p)"
    and "fp_canon (variant p) u'" and "c < par_P (variant p)"
    and "mat_ok (par_P (variant p)) (par_K p) (par_N p - par_K p) V"
  shows "fp_dz_norm_synd p (fp_synd_minus_fp_vec_scaled p
           (fp_dz_norm_synd p (fp_vec_by_fp_matrix p
             (fp_vec_by_fp_vec_pointwise p (convert_restr_vec_to_fp p v)
               (fp_dz_norm p (fp_vec_by_restr_vec_scaled p e' c u'))) V))
           c (fp_dz_norm_synd p (restr_vec_by_fp_matrix p e V)))
       = fp_dz_norm_synd p (fp_vec_by_fp_matrix p
           (fp_vec_by_fp_vec_pointwise p (convert_restr_vec_to_fp p v) u') V)"
  by (rule response_identity) (use assms in auto)

theorem response_syndrome_witness:
  "let p = \<lparr>variant = RSDPG, cat = CATEGORY_1, corner = SPEED, no_trees = True, skip_assert = False, ndebug = False\<rparr>;
       e = replicate 55 100; e' = replicate 55 126; v = replicate 55 101; u' = replicate 55 508;
       V = replicate 36 (replicate 19 400)
   in fp_dz_norm_synd p (fp_synd_minus_fp_vec_scaled p
           (fp_dz_norm_synd p (fp_vec_by_fp_matrix p
             (fp_vec_by_fp_vec_pointwise p (convert_restr_vec_to_fp p v)
               (fp_dz_norm p (fp_vec_by_restr_vec_scaled p e' 300 u'))) V))
           300 (fp_dz_norm_synd p (restr_vec_by_fp_matrix p e V)))
       = fp_dz_norm_synd p (fp_vec_by_fp_matrix p
           (fp_vec_by_fp_vec_pointwise p (convert_restr_vec_to_fp p v) u') V)"
  unfolding Let_def
  by (rule response_syndrome)
    (auto simp: par_unfold fz_ok_def fp_canon_def mat_ok_def set_replicate_conv_if)

text \<open>
  C10. In both builds the signer stores the seeds of the rounds the challenge reveals
  inside the path of the signature, and from it the verifier rebuilds exactly these
  seeds and finds the padding clear.
\<close>

theorem seeds_released_and_rebuilt:
  defines "root f p \<equiv> map f [0..<SEED_LENGTH_BYTES p]"
    and "shown p digest \<equiv> filter (\<lambda>i. expand_digest_to_fixed_weight p digest ! i = 1) [0..<par_T p]"
  shows "\<exists>path n rs. release_seeds p (replicate (path_nodes p * SEED_LENGTH_BYTES p) 0) (commit_seeds p (root f p) salt)
             (expand_digest_to_fixed_weight p digest) = Some (path, n)
       \<and> length path = path_nodes p * SEED_LENGTH_BYTES p
       \<and> rebuild_seeds p (expand_digest_to_fixed_weight p digest) path salt = Some (rs, True)
       \<and> map (round_seed p rs) (shown p digest) = map (round_seed p (snd (commit_seeds p (root f p) salt))) (shown p digest)"
proof -
  let ?chall = "expand_digest_to_fixed_weight p digest"
  have len: "length (root f p) = SEED_LENGTH_BYTES p" by (simp add: root_def)
  obtain path n rs where "release_seeds p (replicate (path_nodes p * SEED_LENGTH_BYTES p) 0) (commit_seeds p (root f p) salt) ?chall = Some (path, n)"
    "length path = path_nodes p * SEED_LENGTH_BYTES p" "rebuild_seeds p ?chall path salt = Some (rs, True)"
    "length rs = par_T p * SEED_LENGTH_BYTES p"
    "\<And>i. i < par_T p \<Longrightarrow> ?chall ! i = 1 \<Longrightarrow> read_at (i * SEED_LENGTH_BYTES p) (SEED_LENGTH_BYTES p) rs
       = read_at (i * SEED_LENGTH_BYTES p) (SEED_LENGTH_BYTES p) (snd (commit_seeds p (root f p) salt))"
    by (rule seeds.released [OF chall_2_ok [of p digest] len, of salt]) (rule that)
  then show ?thesis by (auto simp: shown_def round_seed_def)
qed

text \<open>
  C11. In both builds the proof the signer stores fits its array, and with it and the
  commitments of the hidden rounds alone the verifier recomputes the root the signer
  committed to, whatever it holds for the other rounds and in its uninitialised tree.
\<close>

theorem commitments_opened:
  defines "cmt f p \<equiv> map (\<lambda>i. map (f i) [0..<HASH_DIGEST_LENGTH p]) [0..<par_T p]"
    and "chall p digest \<equiv> expand_digest_to_fixed_weight p digest"
  shows "\<exists>mtp n. open_commitments p (replicate (path_nodes p * HASH_DIGEST_LENGTH p) 0) (cmt f p) (snd (commit_root p junk_buffer (cmt f p))) (chall p digest)
             = Some (mtp, n)
       \<and> length mtp = path_nodes p * HASH_DIGEST_LENGTH p
       \<and> recompute_commitment p junk_buffer' (map (\<lambda>i. if chall p digest ! i = 0 then cmt f p ! i else other i) [0..<par_T p]) mtp (chall p digest)
           = Some (fst (commit_root p junk_buffer (cmt f p)), True)"
proof -
  have cmt: "length (cmt f p) = par_T p" "\<And>x. x \<in> set (cmt f p) \<Longrightarrow> length x = HASH_DIGEST_LENGTH p" by (auto simp: cmt_def)
  obtain mtp n where o: "open_commitments p (replicate (path_nodes p * HASH_DIGEST_LENGTH p) 0) (cmt f p) (snd (commit_root p junk_buffer (cmt f p))) (chall p digest)
      = Some (mtp, n)" "length mtp = path_nodes p * HASH_DIGEST_LENGTH p"
    using commits.proof_fits [OF chall_2_ok cmt] unfolding chall_def by blast
  have "recompute_commitment p junk_buffer' (map (\<lambda>i. if chall p digest ! i = 0 then cmt f p ! i else other i) [0..<par_T p]) mtp (chall p digest)
      = Some (fst (commit_root p junk_buffer (cmt f p)), True)"
    using o(1) unfolding chall_def by (intro commits.proof_opens [OF chall_2_ok cmt]) simp_all
  with o show ?thesis by blast
qed

text \<open>
  C12. The verifier expands the public key to the matrices the signer expands its
  secret key to, the packed syndrome of the public key decodes with the padding flag
  set, and it is the syndrome of the secret exponents.
\<close>

theorem keys_expand_alike:
  "case CROSS_keygen p st of ((SK, PK), _) \<Rightarrow>
     (case expand_sk p (sk_seed_sk SK) of (e_bar, e_G_bar, V_tr, W_mat) \<Rightarrow>
        expand_pk p (pk_seed_pk PK) = (V_tr, W_mat)
        \<and> unpack_fp_syn p (pk_s PK) = (fp_dz_norm_synd p (restr_vec_by_fp_matrix p e_bar V_tr), True))"
proof -
  obtain SK PK st1 where k: "CROSS_keygen p st = ((SK, PK), st1)" by (metis prod.collapse)
  show ?thesis by (rule keygen_expands [OF k]) (simp add: k public_syndrome_unpacks)
qed


text \<open>
  C14. The unrolled KeccakF1600_StatePermute, two rounds per iteration on local
  variables, is the composition of theta, rho, pi, chi and iota of FIPS 202 over the
  24 round constants, for every state.
\<close>

theorem keccak_permutation:
  "KeccakF1600_StatePermute A = foldl (\<lambda>A rc. iota rc (chi (pi_step (rho (theta A))))) A KeccakF_RoundConstants"
  unfolding KeccakF1600_StatePermute_eq keccak_f_def keccak_round_def ..

text \<open>
  C15. However the input is cut into calls of the incremental absorb and the output
  into calls of the incremental squeeze, the bytes read are those of the sponge
  construction on the concatenated input; the one-shot calls return the same bytes.
\<close>

theorem shake_streaming:
  "concat (shake128.reads ns (shake128_inc_finalize (foldl shake128_inc_absorb shake128_inc_init ms)))
     = shake128 (sum_list ns) (concat ms)
   \<and> concat (shake256.reads ns (shake256_inc_finalize (foldl shake256_inc_absorb shake256_inc_init ms)))
     = shake256 (sum_list ns) (concat ms)
   \<and> shake128 n m = sponge SHAKE128_RATE 0x1F m n \<and> shake256 n m = sponge SHAKE256_RATE 0x1F m n"
  by (simp add: shake128.reads_stream shake256.reads_stream shake128_sponge shake256_sponge)



text \<open>
  C17. The vector product of fp_vec_by_fp_matrix, sixteen lanes of 16 bits with one
  Mersenne fold per term or eight lanes of 32 bits with three Barrett reductions in
  all, has the normalised residues of the scalar product, for entries as wide as the
  lazy arithmetic leaves them; no lane overflows.
\<close>

theorem vector_syndrome:
  assumes "\<And>i. i < par_N p \<Longrightarrow> e ! i \<le> fp_wide (variant p)" and "syn_ok p e' V"
    and "\<And>i. i < par_N p \<Longrightarrow> e ! i mod par_P (variant p) = e' ! i mod par_P (variant p)"
  shows "fp_dz_norm_synd p (fp_vec_by_fp_matrix_avx p e V) = fp_dz_norm_synd p (fp_vec_by_fp_matrix p e' V)"
  by (rule fp_vec_by_fp_matrix_avx_same) (use assms in auto)

theorem vector_syndrome_witness:
  "let p = \<lparr>variant = RSDP, cat = CATEGORY_1, corner = BALANCED, no_trees = False, skip_assert = False, ndebug = False\<rparr> in
   fp_dz_norm_synd p (fp_vec_by_fp_matrix_avx p (replicate 127 200) (replicate 76 (replicate 51 100)))
     = fp_dz_norm_synd p (fp_vec_by_fp_matrix p (replicate 127 73) (replicate 76 (replicate 51 100)))"
  unfolding Let_def
  by (rule vector_syndrome) (auto simp: par_unfold syn_ok_def mat_ok_def fp_wide_def set_replicate_conv_if)





text \<open>
  C20. SortCols, which transposes the matrix by blocks of 8 by 8 bytes into an
  uninitialised buffer, sorts its rows by an iterative quicksort with a stack of 64
  cells and transposes back, returns the matrix with its columns in lexicographic
  order; the only other outcome is an overflow of the stack, which needs more than 97
  columns.
\<close>

theorem columns_sorted:
  assumes "length V = less_K p" and "\<And>r. r \<in> set V \<Longrightarrow> length r = less_K p" and "length VT = less_K p * less_K p"
  shows "case SortCols p VT V (less_K p) of None \<Rightarrow> 64 < stack_need (less_K p)
    | Some V' \<Rightarrow> V' = transposed (less_K p) (sort (transposed (less_K p) V))"
  using SortCols_cases [OF assms(1) _ assms(3)] assms(2) by (cases "SortCols p VT V (less_K p)") (force simp: not_le [symmetric])+

theorem columns_sorted_witness:
  "SortCols LESS_TOY (replicate 64 7) staircase 8 = Some (transposed 8 (sort (transposed 8 staircase)))"
  using columns_sorted [of staircase LESS_TOY "replicate 64 7"] code_ok_lengths [OF staircase_ok]
  by (auto simp: stack_need_def split: option.splits)

text \<open>
  C21. The generation and the rebuilding of the tree of seeds in batches of up to four
  expansions, and the four-way expansion of the build without trees, return what the
  sequential functions return.
\<close>

theorem batched_seed_trees:
  defines "root f p \<equiv> map f [0..<SEED_LENGTH_BYTES p]" and "salt g p \<equiv> map g [0..<SALT_LENGTH_BYTES p]"
    and "zero p \<equiv> replicate (NUM_NODES_TREE p) (replicate (SEED_LENGTH_BYTES p) 0)"
  shows "gen_seed_tree_x4 p u (zero p) (root f p) (salt g p) = gen_seed_tree p (zero p) (root f p) (salt g p)
    \<and> rebuild_tree_x4 p u (zero p) ind stored (salt g p) = rebuild_tree p (zero p) ind stored (salt g p)
    \<and> seed_leaves_no_trees_x4 p u (root f p) (salt g p) = seed_leaves_no_trees p (root f p) (salt g p)"
  unfolding root_def salt_def zero_def
  by (intro conjI gen_seed_tree_same rebuild_tree_same seed_leaves_no_trees_same zero_tree_ok) simp_all

text \<open>
  C22. Hashing the pairs of a level in batches of up to four, over a tree that is not
  initialised, gives the Merkle root and tree of the sequential function, and
  recomputing a root from a proof gives the result of the sequential function with its
  padding flag or its read past the proof.
\<close>

theorem batched_merkle_trees:
  defines "cmt f p \<equiv> map (\<lambda>i. map (f i) [0..<HASH_DIGEST_LENGTH p]) [0..<par_T p]"
  shows "tree_root_x4 p u (stale_tree p u) (cmt f p) = tree_root p (stale_tree p u) (cmt f p)
    \<and> recompute_root_x4 p u (cmt f p) mtp (expand_digest_to_fixed_weight p digest)
      = recompute_root p (map junk_buffer [0..<NUM_NODES_TREE p]) (cmt f p) mtp (expand_digest_to_fixed_weight p digest)"
  by (intro conjI tree_root_same recompute_root_same stale_tree_ok chall_2_ok) (auto simp: cmt_def)


text \<open>
  C24. gen_seed_tree, which walks the truncated tree by index arithmetic over the
  level tables, fills the whole array: every node holds the half of the expansion of
  its parent that belongs to it.
\<close>

theorem seed_tree_specified:
  "gen_seed_tree p (replicate (NUM_NODES_TREE p) (replicate (SEED_LENGTH_BYTES p) 0)) root_seed salt
     = map (\<lambda>(l, j). node_seed p root_seed salt l j) (tree.nodes p)"
  by (rule gen_seed_tree_eq)

text \<open>
  C25. Packing a vector of field elements and unpacking it gives the vector back, with
  the padding flag set, for both variants (7 and 9 bits) and all lengths N.
\<close>

theorem pack_fp_roundtrip:
  fixes f :: "nat \<Rightarrow> nat"
  defines "xs p \<equiv> map (\<lambda>i. f i mod par_P (variant p)) [0..<par_N p]"
  shows "unpack_fp_vec p (pack_fp_vec p (xs p)) = (xs p, True)"
proof (rule unpack_fp_vec_pack)
  show "length (xs p) = par_N p" by (simp add: xs_def)
  show "x < 2 ^ fp_bits (variant p)" if "x \<in> set (xs p)" for x
    using that P_le_bits(1) [of "variant p"] par_P_gt_1 [of "variant p"]
    by (auto simp: xs_def intro: order_less_le_trans [OF mod_less_divisor])
qed

text \<open>
  C26. The padding flag of unpack_fp_vec is set exactly for the byte strings that
  pack_fp_vec produces: no second encoding of a vector is accepted.
\<close>

theorem unpack_fp_canonical:
  fixes f :: "nat \<Rightarrow> byte"
  defines "bs p \<equiv> map f [0..<DENSELY_PACKED_FP_VEC_SIZE p]"
  shows "snd (unpack_fp_vec p (bs p)) \<longleftrightarrow> pack_fp_vec p (fst (unpack_fp_vec p (bs p))) = bs p"
proof -
  let ?k = "fp_bits (variant p)" and ?n = "par_N p"
  have len: "length (bs p) = nbytes ?k ?n" by (simp add: bs_def sizes_def)
  have "pack_fp_vec p (fst (unpack_fp_vec p (bs p))) = bs p \<longleftrightarrow> padding_clear ?k ?n (bs p)"
    using fp_codec.pack_unpack [OF len] fp_codec.pack_padding_clear [OF fp_codec.length_unpack [OF len] fp_codec.unpack_lt [OF len]]
    unfolding unpack_fp_vec_def pack_fp_vec_def sizes_def by metis
  then show ?thesis
    using fp_codec.pad_ok [OF len] unfolding unpack_fp_vec_def sizes_def by simp
qed

text \<open>
  C27. expand_digest_to_fixed_weight terminates with a string of T entries of which
  exactly W are 1 and T - W are 0, for every digest.
\<close>

theorem fixed_weight:
  "mset (expand_digest_to_fixed_weight p digest) = replicate_mset (par_W p) 1 + replicate_mset (par_T p - par_W p) 0
   \<and> length (expand_digest_to_fixed_weight p digest) = par_T p"
  by (simp add: mset_fixed_weight)

text \<open>
  C28. Compiled with SKIP_ASSERT or NDEBUG the verifier returns a verdict for every
  signature of the declared sizes.
\<close>

theorem verifier_returns_without_asserts:
  assumes "sig_ok p sig" and "skip_assert p \<or> ndebug p"
  shows "\<exists>verdict. CROSS_verify p junk PK m sig = Inr verdict"
  using assms by (rule verify_total)

theorem verifier_returns_without_asserts_witness:
  "\<exists>verdict. CROSS_verify (\<lparr>variant = RSDPG, cat = CATEGORY_3, corner = SPEED, no_trees = True, skip_assert = True, ndebug = False\<rparr>) (\<lparr>junk_tree = \<lambda>_. [], junk_y = \<lambda>_ _. 200, junk_v = \<lambda>_ _. 250\<rparr>) \<lparr>pk_seed_pk = [1], pk_s = [2]\<rparr> [3] (zero_sig (\<lparr>variant = RSDPG, cat = CATEGORY_3, corner = SPEED, no_trees = True, skip_assert = True, ndebug = False\<rparr>)) = Inr verdict"
  by (rule verifier_returns_without_asserts [OF zero_sig_ok]) simp

text \<open>
  C29. matrix_transpose_opt writes every cell of the destination with the transposed
  matrix, whatever the destination held: by whole blocks of 64 by 64 bytes with loops
  for the rest, by blocks of 8 for small matrices.
\<close>

theorem transposition_exact:
  assumes "length V = less_K p" and "\<And>r. r \<in> set V \<Longrightarrow> length r = less_K p" and "length dst = less_K p * less_K p"
  shows "matrix_transpose_opt p dst (concat V) (less_K p) (less_K p) = concat (transposed (less_K p) V)"
  using assms by (rule transpose_opt_transposed)

theorem transposition_exact_witness:
  "matrix_transpose_opt LESS_252_45 (replicate (126 * 126) 3) (concat (map (replicate 126) (replicate 126 9))) 126 126
    = concat (transposed 126 (map (replicate 126) (replicate 126 9)))"
proof -
  have K: "less_K LESS_252_45 = 126" by (simp add: less_K_def)
  show ?thesis
    by (rule transposition_exact [where p = LESS_252_45, unfolded K])
      (simp_all only: length_map length_replicate map_replicate set_replicate_conv_if, simp)
qed

text \<open>
  C30. The byte arithmetic of LESS, with its reduction by one fold and one conditional
  subtraction and its table of inverses, is that of the field with 127 elements on
  reduced bytes, and fq_pow is the power.
\<close>

theorem field_of_less:
  assumes "reduced x" and "reduced y"
  shows "reduced (fq_add x y) \<and> gf (fq_add x y) = gf x + gf y \<and> reduced (fq_sub x y) \<and> gf (fq_sub x y) = gf x - gf y
    \<and> reduced (fq_mul x y) \<and> gf (fq_mul x y) = gf x * gf y \<and> reduced (fq_inv x) \<and> gf (fq_inv x) = inverse (gf x)
    \<and> gf (fq_pow x e) = gf x ^ unat e"
  using assms by (simp add: fq_add_gf fq_sub_gf fq_mul_gf fq_inv_gf fq_pow_power)

theorem field_of_less_witness:
  "gf (fq_mul 100 99) = gf 100 * gf 99 \<and> gf (fq_inv 2) = inverse (gf 2) \<and> gf (fq_pow 3 200) = gf 3 ^ 200"
  using field_of_less [of 100 99] field_of_less [of 2 1] field_of_less [of 3 1 200] by (simp add: reduced_def)

text \<open>
  C31. When all rows of a matrix have the same number of zeros, CF calls the function
  without the filter, which passes a null pointer for the bound of the first multiset:
  it fails when no row can be scaled, and otherwise SortRows dereferences the null
  pointer.
\<close>

theorem canonical_form_null:
  assumes "same_zeros p G"
  shows "CF p VT G = (if candidates p G = [] then Some (False, G) else None)"
  using assms by (rule CF_same_zeros)

theorem canonical_form_null_witness:
  "CF LESS_TOY (replicate 64 5) (replicate 8 (replicate 8 1)) = None"
proof -
  let ?G = "replicate 8 (replicate 8 1) :: bytes list"
  have z: "zeros LESS_TOY ?G i = 0" if "i < 8" for i using that by (simp add: zeros_def row_count_zero_eq)
  have "zeros LESS_TOY ?G ` {..<8} = (\<lambda>i. 0) ` {..<8 :: nat}" by (rule image_cong) (simp_all add: z)
  also have "\<dots> = {0}" by (simp add: image_constant_conv lessThan_empty_iff)
  finally have "most_zeros LESS_TOY ?G = 0" by (simp add: most_zeros_def)
  then have "same_zeros LESS_TOY ?G" using z by (simp add: same_zeros_def)
  moreover have "cand LESS_TOY ?G 0 ! i = replicate 8 1" if "i < 8" for i
    using that by (intro nth_equalityI) (simp_all add: cand_def row_mul3_def row_inv2_def fq_inv_def fq_inv_table_def fq_mul_def fq_red_def fq_cond_sub_def)
  then have "0 \<in> set (candidates LESS_TOY ?G)"
    by (auto simp: candidates_iff z cand_ok_def scaling_def row_all_same_iff)
  ultimately show ?thesis using canonical_form_null [of LESS_TOY ?G "replicate 64 5"] by auto
qed

text \<open>
  C32. crypto_sign_open does not check the length of its input: for a signed message
  shorter than a signature the subtraction wraps and the copy of the message runs out
  of the buffer.
\<close>

theorem open_rejects_no_short_input:
  assumes "smlen < sizeof_CROSS_sig_t p" and "length sm < 2 ^ 63"
  shows "crypto_sign_open p junk sm smlen pk = Inl OUT_OF_BOUNDS"
  using assms by (rule open_short)

theorem open_rejects_no_short_input_witness:
  "crypto_sign_open (\<lparr>variant = RSDP, cat = CATEGORY_1, corner = BALANCED, no_trees = False, skip_assert = False, ndebug = False\<rparr>) (\<lparr>junk_tree = \<lambda>_. [], junk_y = \<lambda>_ _. 200, junk_v = \<lambda>_ _. 250\<rparr>) [1, 2, 3] 3 [] = Inl OUT_OF_BOUNDS"
  by (rule open_rejects_no_short_input) (simp_all add: sizeof_eq path_nodes_def par_unfold tabs_def tables_defs fp_bits_def fz_bits_def nbytes_def)

text \<open>
  C33. From the length of a signature on, crypto_sign_open stays inside a buffer of
  the announced length.
\<close>

theorem open_long_input_in_bounds:
  assumes "sizeof_CROSS_sig_t p \<le> smlen" and "smlen \<le> length sm" and "smlen < 2 ^ 64"
  shows "crypto_sign_open p junk sm smlen pk \<noteq> Inl OUT_OF_BOUNDS"
  using assms by (rule open_in_bounds)

theorem open_long_input_in_bounds_witness:
  "crypto_sign_open (\<lparr>variant = RSDP, cat = CATEGORY_1, corner = BALANCED, no_trees = False, skip_assert = False, ndebug = False\<rparr>) (\<lparr>junk_tree = \<lambda>_. [], junk_y = \<lambda>_ _. 200, junk_v = \<lambda>_ _. 250\<rparr>) (replicate (2 ^ 20) 7) (2 ^ 20) [5] \<noteq> Inl OUT_OF_BOUNDS"
proof (rule open_long_input_in_bounds)
  show "sizeof_CROSS_sig_t (\<lparr>variant = RSDP, cat = CATEGORY_1, corner = BALANCED, no_trees = False, skip_assert = False, ndebug = False\<rparr>) \<le> 2 ^ 20" by (rule less_imp_le [OF sizeof_bound])
qed (simp_all only: length_replicate, simp)

text \<open>
  C34. Every sampler returns the declared number of elements in the declared range:
  field elements below P, challenges between 1 and P - 1, exponents below Z, for every
  state of the generator.
\<close>

theorem sampled_types:
  "length (fst (csprng_fp_vec p st)) = par_N p \<and> set (fst (csprng_fp_vec p st)) \<subseteq> {0..<par_P (variant p)}
   \<and> length (fst (csprng_fp_vec_chall_1 p st)) = par_T p \<and> set (fst (csprng_fp_vec_chall_1 p st)) \<subseteq> {1..<par_P (variant p)}
   \<and> length (fst (csprng_fz_vec p st)) = par_N p \<and> set (fst (csprng_fz_vec p st)) \<subseteq> {0..<par_Z (variant p)}
   \<and> length (fst (csprng_fz_inf_w p st)) = par_M p \<and> set (fst (csprng_fz_inf_w p st)) \<subseteq> {0..<par_Z (variant p)}
   \<and> map length (fst (csprng_fp_mat p st)) = replicate (par_K p) (par_N p - par_K p)
   \<and> set (concat (fst (csprng_fp_mat p st))) \<subseteq> {0..<par_P (variant p)}
   \<and> map length (fst (csprng_fz_mat p st)) = replicate (par_M p) (par_N p - par_M p)
   \<and> set (concat (fst (csprng_fz_mat p st))) \<subseteq> {0..<par_Z (variant p)}"
proof (intro conjI)
  show "map length (fst (csprng_fp_mat p st)) = replicate (par_K p) (par_N p - par_K p)"
    using sample_fp_mat [of _ p st] by (intro replicate_eqI) auto
  show "map length (fst (csprng_fz_mat p st)) = replicate (par_M p) (par_N p - par_M p)"
    using sample_fz_mat [of _ p st] by (intro replicate_eqI) auto
qed (use samples_in_range [of _ p st] sample_fp_mat [of _ p st] sample_fz_mat [of _ p st] in \<open>fastforce+\<close>)


text \<open>
  C36. Only the first length mod 2^32 bytes of a message enter a signature: signing
  and verifying a message and its prefix of that length give the same results.
\<close>

theorem message_tail_unsigned:
  "CROSS_sign p junk_buffer SK m st = CROSS_sign p junk_buffer SK (take (length m mod 2 ^ 32) m) st
   \<and> CROSS_verify p junk PK m sig = CROSS_verify p junk PK (take (length m mod 2 ^ 32) m) sig"
  unfolding CROSS_sign_def CROSS_verify_def digest_challenge_1_prefix [of p m] Let_def by (intro conjI refl)

text \<open>
  C37. hash reads only the first mlen mod 2^32 bytes of a message, because the wrapper
  takes the length as unsigned int: a message and its prefix of that length have the
  same digest.
\<close>

theorem hash_reads_32_bit_length: "hash p m dsc = hash p (take (length m mod 2 ^ 32) m) dsc"
proof -
  have "length (take (length m mod 2 ^ 32) m) = length m mod 2 ^ 32" by simp
  then show ?thesis unfolding hash_sponge [of p m] hash_sponge [of p "take _ _"] by simp
qed


text \<open>
  C39. Each lane of reduce_avx2_32 holds the residue modulo 509 of its argument for
  arguments below 8339743; for 8339743 itself, which the comment includes, the result
  is not reduced.
\<close>

theorem vector_reduction_range:
  assumes "i < 8" and "unat (lane i a :: u32) < 8339743"
  shows "unat (lane i (reduce_avx2_32 a) :: u32) = unat (lane i a :: u32) mod 509
    \<and> unat (lane 0 (reduce_avx2_32 (mm256_set1_epi32 8339743)) :: u32) = 8339234"
  using lane_reduce_avx2_32 [OF assms] reduce_avx2_32_wraps by simp

theorem vector_reduction_range_witness:
  "unat (lane 3 (reduce_avx2_32 (mm256_set1_epi32 8339742)) :: u32) = unat (lane 3 (mm256_set1_epi32 8339742) :: u32) mod 509
    \<and> unat (lane 0 (reduce_avx2_32 (mm256_set1_epi32 8339743)) :: u32) = 8339234"
  by (rule vector_reduction_range) (simp_all add: avx)

text \<open>
  C40. FPRED_SINGLE of RSDP(G), the 64-bit multiply-and-shift reduction, returns the
  residue modulo 509 of every 32-bit argument.
\<close>

theorem barrett_exact: "FPRED_SINGLE RSDPG (unat (w :: 32 word)) = unat w mod 509"
proof -
  have "unat w < 2 ^ 32" by (rule order_less_le_trans [OF unsigned_less]) simp
  then show ?thesis by (rule FPRED_SINGLE_509)
qed

section \<open>Further results\<close>

text \<open>
  The cast of a signature to bytes and back is the identity in both directions: every
  byte string of the declared size is a signature of the declared sizes, and writing
  it gives the string.
\<close>

theorem signature_bytes_roundtrip:
  defines "bs f p \<equiv> map f [0..<sizeof_CROSS_sig_t p]"
  shows "sig_ok p (sig_of_bytes p (bs f p)) \<and> sig_bytes (sig_of_bytes p (bs f p)) = bs f p
    \<and> sig_of_bytes p (sig_bytes (sig_of_bytes p (bs f p))) = sig_of_bytes p (bs f p)"
  using sig_of_bytes_ok [of "bs f p" p] sig_bytes_of [of "bs f p" p] by (simp add: bs_def)

text \<open>
  The domain separation constants of the generators (tree nodes, rounds, first and
  second challenge, secret key, public key, secret vector) encode to pairwise
  different byte pairs, and to none of those of the hash.
\<close>

theorem domains_separated:
  "distinct (map (\<lambda>i. dsc_ordered (CSPRNG_DOMAIN_SEP_CONST + i)) [0..<3 * par_T p + 4]
     @ map dsc_ordered (HASH_DOMAIN_SEP_CONST # map (domain_sep_hash p) [0..<par_T p]))"
  by (rule distinct_domains)

text \<open>
  The sizes of the public key and the signature of the eighteen parameter sets, with
  trees except for SPEED, are those in the names of the known-answer files.
\<close>

theorem declared_sizes:
  defines "build v c k \<equiv> \<lparr>variant = v, cat = c, corner = k, no_trees = (k = SPEED), skip_assert = False, ndebug = False\<rparr>"
  shows "concat (map (\<lambda>v. concat (map (\<lambda>c. map (\<lambda>k. sizeof_CROSS_sig_t (build v c k)) [SPEED, BALANCED, SIG_SIZE])
           [CATEGORY_1, CATEGORY_3, CATEGORY_5])) [RSDP, RSDPG])
       = [18432, 13152, 12432, 41406, 29853, 28391, 74590, 53527, 50818,
          11980, 9120, 8960, 26772, 22464, 20452, 48102, 40100, 36454]
     \<and> concat (map (\<lambda>v. map (\<lambda>c. KEYPAIR_SEED_LENGTH_BYTES (build v c k) + DENSELY_PACKED_FP_SYN_SIZE (build v c k))
           [CATEGORY_1, CATEGORY_3, CATEGORY_5]) [RSDP, RSDPG])
       = [77, 115, 153, 54, 83, 106]"
  unfolding build_def DENSELY_PACKED_FP_SYN_SIZE_def packed_sizes sizeof_eq
  by (cases k; simp add: path_nodes_def par_unfold tabs_def tables_defs fp_bits_def fz_bits_def nbytes_def KEYPAIR_SEED_LENGTH_BYTES_def Let_def)

text \<open>
  RESTR_TO_VAL, the table look-up of RSDP and the square-and-multiply of RSDP(G), maps
  an exponent to that power of the generator modulo P.
\<close>

theorem restr_to_val_power:
  "RESTR_TO_VAL v (x mod par_Z v) = bf_G_GEN (field_of v) ^ x mod par_P v"
proof -
  have "x mod par_Z v \<le> par_Z v" by (cases v) (simp_all add: less_imp_le)
  then show ?thesis
    using RESTR_TO_VAL_eq [of "x mod par_Z v" v] restr_gen_pow_mod [of v x] by (simp add: restr_gen_def)
qed

text \<open>
  The non-incremental interface (absorb the whole message, squeeze whole blocks)
  returns the same bytes as the one-shot SHAKE functions.
\<close>

theorem shake_oneshot_blocks:
  "fst (shake128_squeezeblocks n (shake128_absorb m)) = shake128 (n * SHAKE128_RATE) m
   \<and> fst (shake256_squeezeblocks n (shake256_absorb m)) = shake256 (n * SHAKE256_RATE) m"
  by (simp add: shake128_squeezeblocks_def shake128_absorb_def shake256_squeezeblocks_def shake256_absorb_def
      oneshot_sponge shake128_sponge shake256_sponge)

text \<open>
  The three incremental SHA3 functions return, for any cut of the message, the digest
  of the one-shot function.
\<close>

theorem sha3_incremental:
  "sha3_256_inc_finalize (foldl sha3_256_inc_absorb sha3_256_inc_init ms) = sha3_256 (concat ms)
   \<and> sha3_384_inc_finalize (foldl sha3_384_inc_absorb sha3_384_inc_init ms) = sha3_384 (concat ms)
   \<and> sha3_512_inc_finalize (foldl sha3_512_inc_absorb sha3_512_inc_init ms) = sha3_512 (concat ms)"
  by (simp add: sha3_inc_sponge sha3_sponge)

text \<open>
  The table KeccakF_RoundConstants holds the constants the linear feedback shift
  register of FIPS 202 generates.
\<close>

theorem round_constants_lfsr:
  "KeccakF_RoundConstants = map round_constant (chunks 7 24 (lfsr_bits 168 (True # replicate 7 False)))"
  by (rule KeccakF_RoundConstants_lfsr)

end
